(* ===== verification/Prelude.thy ===== *)
theory Prelude
  imports Main "HOL-Library.Word"
begin

text \<open>
  Shared vocabulary of the development: the C integer types as words, the loop over pages
  that several components use, and generic facts on words, lists and functions.
\<close>

unbundle bit_operations_syntax

section \<open>C integer types\<close>

type_synonym u8 = "8 word"
type_synonym u16 = "16 word"
type_synonym u32 = "32 word"
type_synonym u64 = "64 word"

text \<open>A C array of static storage is a total function; index bounds are stated as lemmas.\<close>

type_synonym 'a carray = "nat \<Rightarrow> 'a"

section \<open>Fact collections\<close>

named_theorems inv_pres \<open>operations that keep the invariant of their component\<close>
named_theorems op_frame \<open>parts of the state an operation leaves alone\<close>

section \<open>Words\<close>

lemma unat_div_numeral [simp]:
  "unat ((x :: 'a :: len word) div numeral n) = unat x div unat (numeral n :: 'a word)"
  by (simp add: unat_div)

lemma word_less_iff_unat: "(a :: 'a :: len word) < b \<longleftrightarrow> unat a < unat b"
  by (simp add: word_less_nat_alt)

lemma word_le_iff_unat: "(a :: 'a :: len word) \<le> b \<longleftrightarrow> unat a \<le> unat b"
  by (simp add: word_le_nat_alt)

lemma unat_plus_no_wrap:
  "unat (a :: 'a :: len word) + unat b < 2 ^ LENGTH('a) \<Longrightarrow> unat (a + b) = unat a + unat b"
  by (simp add: unat_word_ariths)

lemma unat_minus_no_wrap: "b \<le> a \<Longrightarrow> unat ((a :: 'a :: len word) - b) = unat a - unat b"
  by (simp add: unat_sub)

lemma unat_of_nat_small: "n < 2 ^ LENGTH('a) \<Longrightarrow> unat (of_nat n :: 'a :: len word) = n"
  by (simp add: unat_of_nat)

lemma unat_ucast_small:
  "unat (x :: 'a :: len word) < 2 ^ LENGTH('b) \<Longrightarrow> unat (ucast x :: 'b :: len word) = unat x"
  by (simp add: unsigned_ucast_eq take_bit_nat_eq_self)

lemma sint_small: "unat (x :: 'a :: len word) < 2 ^ (LENGTH('a) - 1) \<Longrightarrow> sint x = int (unat x)"
proof -
  assume "unat x < 2 ^ (LENGTH('a) - 1)"
  then have "int (unat x) < int (2 ^ (LENGTH('a) - 1))" by (rule of_nat_less_iff [THEN iffD2])
  then have "uint x < 2 ^ (LENGTH('a) - Suc 0)" by simp
  moreover have "- (2 ^ (LENGTH('a) - Suc 0)) \<le> uint x" by (rule order_trans [of _ 0]) simp_all
  ultimately have "signed_take_bit (LENGTH('a) - Suc 0) (uint x) = uint x"
    by (rule signed_take_bit_int_eq_self [rotated])
  then show ?thesis by (simp add: sint_uint)
qed

lemma unat_eq_one: "unat (x :: 'a :: len word) = Suc 0 \<longleftrightarrow> x = 1"
  by (metis One_nat_def unat_1 word_unat_eq_iff)

lemma unat_and_not_7: "unat (x AND NOT 7 :: 'a :: len word) = unat x div 8 * 8" if "3 < LENGTH('a)"
proof -
  have seven: "(7 :: 'a word) = mask 3" by (simp add: mask_eq_decr_exp)
  have "x AND NOT 7 = push_bit 3 (drop_bit 3 x)"
    unfolding seven by (rule bit_word_eqI) (auto simp: bit_simps)
  then have "unat (x AND NOT 7) = take_bit LENGTH('a) (push_bit 3 (drop_bit 3 (unat x)))"
    by (simp only: unsigned_push_bit_eq unat_drop_bit_eq)
  also have "push_bit 3 (drop_bit 3 (unat x)) = unat x div 8 * 8"
    by (simp add: push_bit_eq_mult drop_bit_eq_div)
  also have "unat x div 8 * 8 < 2 ^ LENGTH('a)"
    using unsigned_less [of x] by (meson div_times_less_eq_dividend le_less_trans)
  then have "take_bit LENGTH('a) (unat x div 8 * 8) = unat x div 8 * 8" by (rule take_bit_nat_eq_self)
  finally show ?thesis .
qed

section \<open>Signed 32-bit arithmetic\<close>

text \<open>
  An \<open>int32_t\<close> is an integer between \<open>-2^31\<close> and \<open>2^31 - 1\<close>; the result of an operation is brought back
  into the range as the machine does it.
\<close>

definition i32 :: "int \<Rightarrow> int" where
  "i32 n = signed_take_bit 31 n"

lemma i32_small [simp]: "- (2 ^ 31) \<le> n \<Longrightarrow> n < 2 ^ 31 \<Longrightarrow> i32 n = n"
  by (simp add: i32_def signed_take_bit_int_eq_self)

lemma i32_range: "- (2 ^ 31) \<le> i32 n" "i32 n < 2 ^ 31"
  by (simp_all add: i32_def signed_take_bit_int_greater_eq_minus_exp [of 31, simplified] signed_take_bit_int_less_exp [of 31, simplified])

section \<open>Loops over pages\<close>

text \<open>
  The shape \<open>for (addr = a; addr < end; addr += PAGE_SIZE) body\<close> on 64-bit addresses.
  The counter may wrap past the end of the address space and never stop, so the loop is
  partial: \<open>None\<close> is a loop that does not return.
\<close>

partial_function (option) for_pages ::
  "(u64 \<Rightarrow> 's \<Rightarrow> 's) \<Rightarrow> u64 \<Rightarrow> u64 \<Rightarrow> 's \<Rightarrow> 's option" where
  "for_pages body addr lim s =
     (if addr < lim then for_pages body (addr + 4096) lim (body addr s) else Some s)"

definition page_count :: "u64 \<Rightarrow> u64 \<Rightarrow> nat" where
  "page_count addr lim = (unat lim - unat addr + 4095) div 4096"

definition page_list :: "u64 \<Rightarrow> u64 \<Rightarrow> u64 list" where
  "page_list addr lim = map (\<lambda>k. addr + of_nat k * 4096) [0..<page_count addr lim]"

lemma div_step:
  assumes "(a :: nat) < e"
  shows "(e - a + 4095) div 4096 = Suc ((e - (a + 4096) + 4095) div 4096)"
proof (cases "a + 4096 \<le> e")
  case True
  then obtain d where "e = a + 4096 + d" using le_Suc_ex by blast
  then show ?thesis by (simp add: div_add_self1 [of 4096 "d + 4095", simplified] add.commute)
next
  case False
  then have "(e - a + 4095) div 4096 = 1"
    using assms by (intro div_nat_eqI) auto
  with False show ?thesis by simp
qed

lemma page_count_step:
  assumes "addr < lim" "unat lim + 4095 < 2 ^ 64"
  shows "unat (addr + 4096) = unat addr + 4096"
    and "page_count addr lim = Suc (page_count (addr + 4096) lim)"
proof -
  have le: "unat addr + 4096 < 2 ^ 64"
    using assms by (simp add: word_less_nat_alt)
  then show up: "unat (addr + 4096) = unat addr + 4096"
    by (simp add: unat_plus_no_wrap)
  show "page_count addr lim = Suc (page_count (addr + 4096) lim)"
    using assms unfolding page_count_def up word_less_nat_alt by (intro div_step)
qed

lemma page_list_step:
  assumes "addr < lim" "unat lim + 4095 < 2 ^ 64"
  shows "page_list addr lim = addr # page_list (addr + 4096) lim"
  unfolding page_list_def page_count_step(2) [OF assms]
  by (simp add: upt_conv_Cons map_Suc_upt [symmetric] algebra_simps del: upt_Suc)

lemma for_pages_fold:
  "unat lim + 4095 < 2 ^ 64 \<Longrightarrow> for_pages body addr lim s = Some (fold body (page_list addr lim) s)"
proof (induction "page_count addr lim" arbitrary: addr s)
  case 0
  then have "\<not> addr < lim" by (auto simp: page_count_def word_less_nat_alt)
  with 0 show ?case by (subst for_pages.simps) (simp add: page_list_def)
next
  case (Suc n)
  show ?case
  proof (cases "addr < lim")
    case True
    with Suc show ?thesis
      by (subst for_pages.simps) (simp add: page_list_step page_count_step)
  next
    case False
    with Suc show ?thesis by (simp add: page_count_def word_less_nat_alt)
  qed
qed

lemma set_page_list:
  "set (page_list addr lim) = (\<lambda>k. addr + of_nat k * 4096) ` {..<page_count addr lim}"
  by (auto simp: page_list_def)

text \<open>What every turn of the loop keeps, the loop keeps.\<close>

lemma for_pages_invariant:
  assumes ret: "for_pages body addr lim s = Some s'"
    and start: "I s" and keep: "\<And>a t. I t \<Longrightarrow> I (body a t)"
  shows "I s'"
proof -
  have "I s \<longrightarrow> I s'"
  proof (rule for_pages.raw_induct [where P = "\<lambda>body addr lim s s'.
      (\<forall>a t. I t \<longrightarrow> I (body a t)) \<longrightarrow> I s \<longrightarrow> I s'", OF _ ret, THEN mp])
    show "\<forall>a t. I t \<longrightarrow> I (body a t)" using keep by blast
  qed (auto split: if_splits)
  with start show ?thesis by blast
qed

end
