(* ===== verification/Lock.thy ===== *)
theory Lock
  imports Prelude
begin

text \<open>
  Spinlocks (src/kernel/lock.c, include/kernel/lock.h). The lock structures live at
  addresses; the registry keeps the first 64 of them. \<open>spin_lock_irqsave\<close> and
  \<open>spin_unlock_irqrestore\<close> are split into their atomic actions, so that several CPUs
  interleave on one lock: one action of one CPU is \<open>cpu_micro\<close>, and
  \<open>spin_step\<close> lets any CPU take the next one.
\<close>

section \<open>The lock structure and the registry\<close>

record spinlock =
  sl_locked :: u32
  sl_name :: string
  sl_acquisitions :: u64
  sl_contentions :: u64
  sl_spin_loops :: u64

record lock_stats =
  ls_name :: string
  ls_acquisitions :: u64
  ls_contentions :: u64
  ls_spin_loops :: u64

text \<open>A lock is named by its address; address 0 is the null pointer.\<close>

record lock_state =
  locks :: "u64 \<Rightarrow> spinlock"
  registered_locks :: "u64 carray"
  registered_lock_count :: u32

definition LOCK_CAPACITY :: u32 where
  "LOCK_CAPACITY = 64"

definition spin_init_named :: "lock_state \<Rightarrow> u64 \<Rightarrow> string \<Rightarrow> lock_state" where
  "spin_init_named s lock name =
     (let s1 = s\<lparr>locks := (locks s)(lock :=
                 \<lparr>sl_locked = 0, sl_name = name, sl_acquisitions = 0,
                  sl_contentions = 0, sl_spin_loops = 0\<rparr>)\<rparr>;
          index = registered_lock_count s1;
          s2 = s1\<lparr>registered_lock_count := index + 1\<rparr>
      in if index < LOCK_CAPACITY
         then s2\<lparr>registered_locks := (registered_locks s2)(unat index := lock)\<rparr>
         else s2)"

definition lock_get_registered_count :: "lock_state \<Rightarrow> u32" where
  "lock_get_registered_count s =
     (let count = registered_lock_count s; capacity = LOCK_CAPACITY
      in if count < capacity then count else capacity)"

text \<open>\<open>None\<close> is the return value 0 with \<open>out_stats\<close> untouched.\<close>

definition lock_get_stats :: "lock_state \<Rightarrow> u32 \<Rightarrow> lock_stats option" where
  "lock_get_stats s index =
     (let count = lock_get_registered_count s
      in if index \<ge> count then None
         else let lock = registered_locks s (unat index)
              in if lock = 0 then None
                 else let l = locks s lock
                      in Some \<lparr>ls_name = sl_name l, ls_acquisitions = sl_acquisitions l,
                               ls_contentions = sl_contentions l, ls_spin_loops = sl_spin_loops l\<rparr>)"

section \<open>The atomic actions of one CPU\<close>

text \<open>
  \<open>Spinning\<close> and the counting stages carry the local variable \<open>spins\<close>;
  \<open>Restoring\<close> is the point of \<open>spin_unlock_irqrestore\<close> after
  \<open>spin_unlock\<close> and before the flags are popped.
\<close>

datatype spin_pc =
    Outside
  | Spinning u64
  | CountAcquisition u64
  | CountContention u64
  | CountSpins u64
  | Holding
  | Restoring

record spin_cpu =
  pc :: spin_pc
  rflags :: u64
  saved_flags :: u64

definition RFLAGS_IF :: u64 where
  "RFLAGS_IF = 0x200"

definition irq_enabled :: "spin_cpu \<Rightarrow> bool" where
  "irq_enabled c \<longleftrightarrow> rflags c AND RFLAGS_IF \<noteq> 0"

text \<open>
  One atomic action: \<open>pushfq\<close>/\<open>cli\<close> on entry, one
  \<open>__sync_lock_test_and_set\<close>, one \<open>__sync_fetch_and_add\<close>, the release, or
  \<open>popfq\<close>.
\<close>

fun cpu_micro :: "spinlock \<Rightarrow> spin_cpu \<Rightarrow> spinlock \<times> spin_cpu" where
  "cpu_micro l c = (case pc c of
      Outside \<Rightarrow>
        (l, c\<lparr>saved_flags := rflags c, rflags := rflags c AND NOT RFLAGS_IF, pc := Spinning 0\<rparr>)
    | Spinning spins \<Rightarrow>
        (if sl_locked l \<noteq> 0 then (l\<lparr>sl_locked := 1\<rparr>, c\<lparr>pc := Spinning (spins + 1)\<rparr>)
         else (l\<lparr>sl_locked := 1\<rparr>, c\<lparr>pc := CountAcquisition spins\<rparr>))
    | CountAcquisition spins \<Rightarrow>
        (l\<lparr>sl_acquisitions := sl_acquisitions l + 1\<rparr>,
         c\<lparr>pc := (if spins \<noteq> 0 then CountContention spins else Holding)\<rparr>)
    | CountContention spins \<Rightarrow>
        (l\<lparr>sl_contentions := sl_contentions l + 1\<rparr>, c\<lparr>pc := CountSpins spins\<rparr>)
    | CountSpins spins \<Rightarrow>
        (l\<lparr>sl_spin_loops := sl_spin_loops l + spins\<rparr>, c\<lparr>pc := Holding\<rparr>)
    | Holding \<Rightarrow> (l\<lparr>sl_locked := 0\<rparr>, c\<lparr>pc := Restoring\<rparr>)
    | Restoring \<Rightarrow> (l, c\<lparr>rflags := saved_flags c, pc := Outside\<rparr>))"

section \<open>Interleaving CPUs\<close>

record spin_sys =
  the_lock :: spinlock
  cpus :: "nat \<Rightarrow> spin_cpu"

definition micro_on :: "nat \<Rightarrow> spin_sys \<Rightarrow> spin_sys" where
  "micro_on i s =
     (let (l, c) = cpu_micro (the_lock s) (cpus s i)
      in s\<lparr>the_lock := l, cpus := (cpus s)(i := c)\<rparr>)"

inductive spin_step :: "spin_sys \<Rightarrow> spin_sys \<Rightarrow> bool" where
  micro: "spin_step s (micro_on i s)"

inductive_cases spin_stepE: "spin_step s t"

text \<open>The start: a lock just initialised, every CPU outside, interrupt flags arbitrary.\<close>

definition spin_initial :: "spin_sys \<Rightarrow> bool" where
  "spin_initial s \<longleftrightarrow> sl_locked (the_lock s) = 0 \<and> (\<forall>i. pc (cpus s i) = Outside)"

inductive spin_reachable :: "spin_sys \<Rightarrow> bool" where
  start: "spin_initial s \<Longrightarrow> spin_reachable s"
| step: "spin_reachable s \<Longrightarrow> spin_step s t \<Longrightarrow> spin_reachable t"

text \<open>An explicit schedule, for concrete runs.\<close>

definition run_schedule :: "nat list \<Rightarrow> spin_sys \<Rightarrow> spin_sys" where
  "run_schedule is s = fold micro_on is s"

section \<open>Mutual exclusion and interrupt state\<close>

fun owns :: "spin_pc \<Rightarrow> bool" where
  "owns (CountAcquisition _) = True"
| "owns (CountContention _) = True"
| "owns (CountSpins _) = True"
| "owns Holding = True"
| "owns _ = False"

text \<open>The lock word and the owners agree; a CPU between entry and exit has interrupts off.\<close>

definition spin_inv :: "spin_sys \<Rightarrow> bool" where
  "spin_inv s \<longleftrightarrow>
     (\<forall>i. owns (pc (cpus s i)) \<longrightarrow> sl_locked (the_lock s) \<noteq> 0) \<and>
     (\<forall>i j. owns (pc (cpus s i)) \<longrightarrow> owns (pc (cpus s j)) \<longrightarrow> i = j) \<and>
     (\<forall>i. pc (cpus s i) \<noteq> Outside \<longrightarrow> \<not> irq_enabled (cpus s i))"

lemma irq_cleared: "\<not> irq_enabled (c\<lparr>rflags := f AND NOT RFLAGS_IF\<rparr>)"
  by (simp add: irq_enabled_def and.assoc)

lemma spin_inv_initial: "spin_initial s \<Longrightarrow> spin_inv s"
  by (simp add: spin_initial_def spin_inv_def)

lemma spin_inv_micro:
  assumes inv: "spin_inv s"
  shows "spin_inv (micro_on i s)"
proof -
  have held: "owns (pc (cpus s i)) \<Longrightarrow> sl_locked (the_lock s) \<noteq> 0"
    and only: "\<And>j. owns (pc (cpus s i)) \<Longrightarrow> owns (pc (cpus s j)) \<Longrightarrow> j = i"
    using inv by (auto simp: spin_inv_def)
  show ?thesis
    using inv held only
    by (cases "pc (cpus s i)")
       (auto simp: spin_inv_def micro_on_def irq_enabled_def and.assoc split: if_splits)
qed

lemma spin_inv_step [inv_pres]: "spin_step s t \<Longrightarrow> spin_inv s \<Longrightarrow> spin_inv t"
  by (erule spin_stepE) (simp add: spin_inv_micro)

lemma spin_reachable_inv: "spin_reachable s \<Longrightarrow> spin_inv s"
  by (induction rule: spin_reachable.induct) (auto intro: spin_inv_initial spin_inv_step)

lemma spin_reachable_micro: "spin_reachable s \<Longrightarrow> spin_reachable (micro_on i s)"
  by (rule spin_reachable.step) (auto intro: spin_step.micro)

lemma spin_reachable_schedule: "spin_reachable s \<Longrightarrow> spin_reachable (run_schedule is s)"
  unfolding run_schedule_def
  by (induction "is" arbitrary: s) (auto intro: spin_reachable_micro)

section \<open>The saved flags\<close>

text \<open>
  Along every run from \<open>s0\<close>, a CPU outside the lock has the flags it started with, and
  a CPU inside has saved them and runs with the interrupt flag cleared.
\<close>

definition flags_inv :: "spin_sys \<Rightarrow> spin_sys \<Rightarrow> bool" where
  "flags_inv s0 s \<longleftrightarrow>
     (\<forall>i. if pc (cpus s i) = Outside then rflags (cpus s i) = rflags (cpus s0 i)
          else saved_flags (cpus s i) = rflags (cpus s0 i))"

lemma flags_inv_micro: "flags_inv s0 s \<Longrightarrow> flags_inv s0 (micro_on i s)"
  by (cases "pc (cpus s i)") (auto simp: flags_inv_def micro_on_def split: if_splits)

lemma flags_inv_steps:
  "spin_step\<^sup>*\<^sup>* s0 s \<Longrightarrow> spin_initial s0 \<Longrightarrow> flags_inv s0 s"
proof (induction rule: rtranclp_induct)
  case base
  then show ?case by (simp add: flags_inv_def spin_initial_def)
next
  case (step s t)
  then show ?case by (auto elim!: spin_stepE intro: flags_inv_micro)
qed

section \<open>Registering locks\<close>

definition init_locks :: "(u64 \<times> string) list \<Rightarrow> lock_state \<Rightarrow> lock_state" where
  "init_locks ls s = fold (\<lambda>(lock, name) s. spin_init_named s lock name) ls s"

lemma init_locks_snoc:
  "init_locks (ls @ [(lock, name)]) s = spin_init_named (init_locks ls s) lock name"
  by (simp add: init_locks_def)

lemma init_locks_count:
  "length ls < 2 ^ 32 \<Longrightarrow> registered_lock_count s = 0 \<Longrightarrow>
   registered_lock_count (init_locks ls s) = of_nat (length ls)"
  by (induction ls rule: rev_induct)
     (auto simp: init_locks_def spin_init_named_def Let_def split: prod.splits)

lemma unat_of_nat_u32: "n < 2 ^ 32 \<Longrightarrow> unat (of_nat n :: u32) = n"
  by (simp add: unat_of_nat)

lemma spin_init_named_registered:
  "registered_locks (spin_init_named s lock name) =
     (if registered_lock_count s < LOCK_CAPACITY
      then (registered_locks s)(unat (registered_lock_count s) := lock) else registered_locks s)"
  by (simp add: spin_init_named_def Let_def)

lemma init_locks_registered:
  assumes "length ls < 2 ^ 32" "registered_lock_count s = 0" "i < length ls" "i < 64"
  shows "registered_locks (init_locks ls s) i = fst (ls ! i)"
  using assms
proof (induction ls rule: rev_induct)
  case Nil
  then show ?case by simp
next
  case (snoc x ls)
  obtain lock name where x: "x = (lock, name)" by fastforce
  have cnt: "registered_lock_count (init_locks ls s) = of_nat (length ls)"
    using snoc.prems by (intro init_locks_count) auto
  have less: "(of_nat (length ls) :: u32) < LOCK_CAPACITY \<longleftrightarrow> length ls < 64"
    using snoc.prems by (simp add: word_less_nat_alt unat_of_nat_u32 LOCK_CAPACITY_def)
  show ?case
    using snoc by (auto simp: x init_locks_snoc spin_init_named_registered cnt less
        unat_of_nat_u32 nth_append less_Suc_eq)
qed

lemma init_locks_cells:
  assumes "distinct (map fst ls)" "i < length ls"
  shows "locks (init_locks ls s) (fst (ls ! i)) =
    \<lparr>sl_locked = 0, sl_name = snd (ls ! i), sl_acquisitions = 0, sl_contentions = 0, sl_spin_loops = 0\<rparr>"
  using assms
proof (induction ls rule: rev_induct)
  case Nil
  then show ?case by simp
next
  case (snoc x ls)
  obtain lock name where x: "x = (lock, name)" by fastforce
  have ne: "i < length ls \<Longrightarrow> fst (ls ! i) \<noteq> lock"
    using snoc.prems(1) by (force simp: x)
  show ?case
    using snoc ne
    by (auto simp: x init_locks_snoc spin_init_named_def Let_def nth_append less_Suc_eq)
qed

section \<open>Properties\<close>

text \<open>
  C1. Mutual exclusion: in every state any interleaving of the CPUs' atomic actions reaches
  from a fresh lock, at most one CPU is between its successful test-and-set and its release.
\<close>

theorem spin_mutual_exclusion:
  assumes "spin_reachable s" "owns (pc (cpus s i))" "owns (pc (cpus s j))"
  shows "i = j"
  using spin_reachable_inv [OF assms(1)] assms(2,3) by (auto simp: spin_inv_def)

definition two_cpus :: spin_sys where
  "two_cpus = \<lparr>the_lock = \<lparr>sl_locked = 0, sl_name = ''id_lock'', sl_acquisitions = 0,
                 sl_contentions = 0, sl_spin_loops = 0\<rparr>,
               cpus = (\<lambda>_. \<lparr>pc = Outside, rflags = 0x202, saved_flags = 0\<rparr>)\<rparr>"

lemma two_cpus_reachable: "spin_reachable (run_schedule is two_cpus)"
  by (intro spin_reachable_schedule spin_reachable.start) (simp add: spin_initial_def two_cpus_def)

theorem spin_mutual_exclusion_witness:
  "owns (pc (cpus (run_schedule [0, 1, 1, 0, 1, 0] two_cpus) 1)) \<and>
   \<not> owns (pc (cpus (run_schedule [0, 1, 1, 0, 1, 0] two_cpus) 0))"
proof -
  let ?s = "run_schedule [0, 1, 1, 0, 1, 0] two_cpus"
  have own: "owns (pc (cpus ?s 1))"
    by (simp add: run_schedule_def micro_on_def two_cpus_def)
  show ?thesis
    using own spin_mutual_exclusion [OF two_cpus_reachable own, of 0] by auto
qed

text \<open>
  The interrupt flag: from \<open>pushfq; cli\<close> to \<open>popfq\<close> the CPU runs with interrupts masked,
  so a handler on the same CPU cannot spin on a lock its own CPU holds; and once the CPU is out
  again it has exactly the flags it had before the call.
\<close>

theorem spin_irqsave_restores:
  assumes "spin_initial s0" "spin_step\<^sup>*\<^sup>* s0 s"
  shows "if pc (cpus s i) = Outside then rflags (cpus s i) = rflags (cpus s0 i)
         else \<not> irq_enabled (cpus s i)"
proof -
  have "spin_reachable s"
    using assms(2,1) by (induction rule: rtranclp_induct) (auto intro: spin_reachable.intros)
  then show ?thesis
    using spin_reachable_inv flags_inv_steps [OF assms(2,1)]
    by (auto simp: spin_inv_def flags_inv_def)
qed

theorem spin_irqsave_restores_witness:
  "rflags (cpus (run_schedule [0, 0, 0, 0, 0] two_cpus) 0) = 0x202 \<and>
   pc (cpus (run_schedule [0, 0, 0, 0, 0] two_cpus) 0) = Outside"
proof -
  have "spin_step\<^sup>*\<^sup>* s (run_schedule is s)" for "is" s
    unfolding run_schedule_def
    by (induction "is" arbitrary: s) (auto intro: converse_rtranclp_into_rtranclp spin_step.micro)
  then have "spin_step\<^sup>*\<^sup>* two_cpus (run_schedule [0, 0, 0, 0, 0] two_cpus)" .
  from spin_irqsave_restores [OF _ this, of 0] show ?thesis
    by (simp add: spin_initial_def run_schedule_def micro_on_def two_cpus_def)
qed

text \<open>
  The lock registry: after any number of initialisations, the first 64 locks are readable
  by index with the name they were given and cleared counters, and every other index is refused.
\<close>

theorem registered_lock_stats:
  assumes "registered_lock_count s = 0" "length ls < 2 ^ 32"
    and "distinct (map fst ls)" "0 \<notin> set (map fst ls)" "i < 2 ^ 32"
  shows "lock_get_stats (init_locks ls s) (of_nat i) =
     (if i < length ls \<and> i < 64
      then Some \<lparr>ls_name = snd (ls ! i), ls_acquisitions = 0, ls_contentions = 0, ls_spin_loops = 0\<rparr>
      else None)"
proof -
  let ?t = "init_locks ls s"
  have cnt: "unat (lock_get_registered_count ?t) = min (length ls) 64"
    using assms init_locks_count [of ls s]
    by (auto simp: lock_get_registered_count_def LOCK_CAPACITY_def Let_def word_less_nat_alt
        unat_of_nat_u32)
  have nz: "i < length ls \<Longrightarrow> fst (ls ! i) \<noteq> 0"
    using assms(4) by (metis imageI nth_mem set_map)
  show ?thesis
    using assms nz cnt init_locks_registered [of ls s i] init_locks_cells [of ls i s]
    by (auto simp: lock_get_stats_def Let_def word_le_nat_alt unat_of_nat_u32)
qed

theorem registered_lock_stats_witness:
  "lock_get_stats
     (init_locks [(0x1000, ''&pmm_lock''), (0x2000, ''&vmm_lock'')]
        \<lparr>locks = (\<lambda>_. the_lock two_cpus), registered_locks = (\<lambda>_. 0), registered_lock_count = 0\<rparr>) 1
   = Some \<lparr>ls_name = ''&vmm_lock'', ls_acquisitions = 0, ls_contentions = 0, ls_spin_loops = 0\<rparr>"
  using registered_lock_stats
    [of "\<lparr>locks = (\<lambda>_. the_lock two_cpus), registered_locks = (\<lambda>_. 0), registered_lock_count = 0\<rparr>"
        "[(0x1000, ''&pmm_lock''), (0x2000, ''&vmm_lock'')]" 1]
  by simp

end
