(* ===== verification/Memory.thy ===== *)
theory Memory
  imports Prelude
begin

text \<open>
  Physical memory as the kernel addresses it: a byte for every 64-bit address, with
  little-endian loads and stores of wider integers. The page tables, the multiboot block,
  ELF images and the string routines all work on this memory.
\<close>

type_synonym memory = "u64 \<Rightarrow> u8"

section \<open>Loads and stores\<close>

definition load16 :: "memory \<Rightarrow> u64 \<Rightarrow> u16" where
  "load16 m a = ucast (m a) OR push_bit 8 (ucast (m (a + 1)))"

definition load32 :: "memory \<Rightarrow> u64 \<Rightarrow> u32" where
  "load32 m a = ucast (load16 m a) OR push_bit 16 (ucast (load16 m (a + 2)))"

definition load64 :: "memory \<Rightarrow> u64 \<Rightarrow> u64" where
  "load64 m a = ucast (load32 m a) OR push_bit 32 (ucast (load32 m (a + 4)))"

definition store64 :: "memory \<Rightarrow> u64 \<Rightarrow> u64 \<Rightarrow> memory" where
  "store64 m a v = (\<lambda>x. if x - a < 8 then ucast (drop_bit (8 * unat (x - a)) v) else m x)"

lemma load64_store64_same: "load64 (store64 m a v) a = v"
proof (rule bit_word_eqI)
  fix n
  assume n: "n < LENGTH(64)"
  consider "n < 8" | "8 \<le> n" "n < 16" | "16 \<le> n" "n < 24" | "24 \<le> n" "n < 32"
    | "32 \<le> n" "n < 40" | "40 \<le> n" "n < 48" | "48 \<le> n" "n < 56" | "56 \<le> n" "n < 64"
    using n by fastforce
  then show "bit (load64 (store64 m a v) a) n = bit v n"
    by cases (auto simp: load64_def load32_def load16_def store64_def bit_simps add.assoc)
qed

lemma load64_cong: "(\<And>j. j < 8 \<Longrightarrow> m (a + j) = m' (b + j)) \<Longrightarrow> load64 m a = load64 m' b"
proof -
  assume eq: "\<And>j. j < 8 \<Longrightarrow> m (a + j) = m' (b + j)"
  have "m a = m' b" using eq [of 0] by simp
  then show ?thesis by (simp add: load64_def load32_def load16_def add.assoc eq)
qed

text \<open>Two qwords that do not overlap, with addresses taken modulo the address space.\<close>

definition disjoint8 :: "u64 \<Rightarrow> u64 \<Rightarrow> bool" where
  "disjoint8 a b \<longleftrightarrow> a - b \<ge> 8 \<and> b - a \<ge> 8"

lemma small_offset_disjoint8:
  assumes "disjoint8 a b" "(k :: u64) < 8"
  shows "\<not> a + k - b < 8"
  using assms unfolding disjoint8_def by unat_arith

lemma load64_store64_other:
  assumes "disjoint8 a b"
  shows "load64 (store64 m b v) a = load64 m a"
proof -
  have byte: "store64 m b v (a + k) = m (a + k)" if "k < 8" for k
    using small_offset_disjoint8 [OF assms that] by (simp add: store64_def)
  show ?thesis
    using byte [of 0] byte [of 1] byte [of 2] byte [of 3] byte [of 4] byte [of 5] byte [of 6] byte [of 7]
    by (simp add: load64_def load32_def load16_def add.assoc)
qed

section \<open>Aligned qwords as cells\<close>

definition aligned8 :: "u64 \<Rightarrow> bool" where
  "aligned8 a \<longleftrightarrow> unat a mod 8 = 0"

definition page_aligned :: "u64 \<Rightarrow> bool" where
  "page_aligned a \<longleftrightarrow> unat a mod 4096 = 0"

lemma aligned8_disjoint8:
  assumes "aligned8 a" "aligned8 b" "a \<noteq> b"
  shows "disjoint8 a b"
proof -
  have far: "unat (x - y) \<ge> 8" if hx: "unat x mod 8 = 0" and hy: "unat y mod 8 = 0" and ne: "x \<noteq> y"
    for x y :: u64
  proof (cases "y \<le> x")
    case True
    then have "unat (x - y) = unat x - unat y" by (simp add: unat_sub)
    moreover have "unat y < unat x"
      using True ne by (metis nat_less_le word_le_nat_alt word_unat_eq_iff)
    ultimately show ?thesis using hx hy by presburger
  next
    case False
    then have "unat (x - y) = unat x + 2 ^ 64 - unat y"
      by (simp add: unat_sub_if_size word_size word_le_nat_alt)
    moreover have "unat y < 2 ^ 64" using unsigned_less [of y] by simp
    moreover obtain p q where "unat x = 8 * p" "unat y = 8 * q"
      using hx hy by (metis dvdE mod_0_imp_dvd)
    ultimately show ?thesis by simp
  qed
  show ?thesis
    using far [of a b] far [of b a] assms
    by (auto simp: disjoint8_def aligned8_def word_le_nat_alt)
qed

text \<open>The law a client of memory needs: aligned cells are independent variables.\<close>

locale qword_memory =
  fixes rd :: "'m \<Rightarrow> u64 \<Rightarrow> u64"
    and wr :: "'m \<Rightarrow> u64 \<Rightarrow> u64 \<Rightarrow> 'm"
    and ok :: "u64 \<Rightarrow> bool"
  assumes rd_same: "rd (wr m a v) a = v"
    and rd_other: "ok a \<Longrightarrow> ok b \<Longrightarrow> a \<noteq> b \<Longrightarrow> rd (wr m b v) a = rd m a"
begin

lemma rd_wr: "ok a \<Longrightarrow> ok b \<Longrightarrow> rd (wr m b v) a = (if a = b then v else rd m a)"
  by (simp add: rd_same rd_other)

lemma rd_fill:
  assumes "ok a" "\<And>i. i \<in> set is \<Longrightarrow> ok (c i)"
  shows "rd (fold (\<lambda>i m. wr m (c i) v) is m) a = (if a \<in> c ` set is then v else rd m a)"
  using assms by (induction "is" arbitrary: m) (auto simp: rd_wr)

end

interpretation mem: qword_memory load64 store64 aligned8
  by unfold_locales (auto simp: load64_store64_same load64_store64_other aligned8_disjoint8)

end
