(* ===== verification/Pmm.thy ===== *)
theory Pmm
  imports Memory
begin

text \<open>
  The physical memory manager (src/kernel/pmm.c): a bitmap, a stack of free frames and a
  reference count per 4 KiB frame. Each operation runs between \<open>spin_lock_irqsave\<close> and
  \<open>spin_unlock_irqrestore\<close> on one lock, so one HOL function is one critical section.
\<close>

section \<open>State and bitmap helpers\<close>

record pmm_state =
  frame_bitmap :: "u32 carray"
  free_stack :: "u64 carray"
  stack_ptr :: int
  ref_counts :: "u32 carray"
  total_frames :: u64

definition MAX_FRAMES :: nat where
  "MAX_FRAMES = 1024 * 1024"

definition PAGE_SIZE :: u64 where
  "PAGE_SIZE = 4096"

definition bitmap_set :: "pmm_state \<Rightarrow> u64 \<Rightarrow> pmm_state" where
  "bitmap_set s frame =
     s\<lparr>frame_bitmap := (frame_bitmap s)(unat (frame div 32) :=
        frame_bitmap s (unat (frame div 32)) OR push_bit (unat (frame mod 32)) 1)\<rparr>"

definition bitmap_unset :: "pmm_state \<Rightarrow> u64 \<Rightarrow> pmm_state" where
  "bitmap_unset s frame =
     s\<lparr>frame_bitmap := (frame_bitmap s)(unat (frame div 32) :=
        frame_bitmap s (unat (frame div 32)) AND NOT (push_bit (unat (frame mod 32)) 1))\<rparr>"

definition bitmap_test :: "pmm_state \<Rightarrow> u64 \<Rightarrow> bool" where
  "bitmap_test s frame \<longleftrightarrow>
     frame_bitmap s (unat (frame div 32)) AND push_bit (unat (frame mod 32)) 1 \<noteq> 0"

section \<open>Initialisation from the Multiboot2 block\<close>

text \<open>Body of the loop over one usable region; the second component is \<open>max_addr\<close>.\<close>

definition mark_available :: "u64 \<Rightarrow> pmm_state \<times> u64 \<Rightarrow> pmm_state \<times> u64" where
  "mark_available addr = (\<lambda>(s, max_addr).
     let frame = addr div PAGE_SIZE
     in if unat frame < MAX_FRAMES
        then (bitmap_unset s frame,
              if addr + PAGE_SIZE > max_addr then addr + PAGE_SIZE else max_addr)
        else (s, max_addr))"

text \<open>
  The loop over the entries of one memory-map tag, up to the address \<open>lim\<close> of its end.
  An \<open>entry_size\<close> of 0 makes the C loop run for ever, hence the partial function.
\<close>

partial_function (option) mmap_entries ::
  "memory \<Rightarrow> u64 \<Rightarrow> u32 \<Rightarrow> u64 \<Rightarrow> pmm_state \<times> u64 \<Rightarrow> (pmm_state \<times> u64) option" where
  "mmap_entries m lim entry_size entry st =
     (if entry < lim
      then Option.bind
             (if load32 m (entry + 16) = 1
              then for_pages mark_available (load64 m entry) (load64 m entry + load64 m (entry + 8)) st
              else Some st)
             (\<lambda>st'. mmap_entries m lim entry_size (entry + ucast entry_size) st')
      else Some st)"

definition MULTIBOOT_TAG_TYPE_END :: u32 where
  "MULTIBOOT_TAG_TYPE_END = 0"

definition MULTIBOOT_TAG_TYPE_MMAP :: u32 where
  "MULTIBOOT_TAG_TYPE_MMAP = 6"

definition next_tag :: "memory \<Rightarrow> u64 \<Rightarrow> u64" where
  "next_tag m tag = tag + ucast ((load32 m (tag + 4) + 7) AND NOT 7)"

partial_function (option) mb_tags ::
  "memory \<Rightarrow> u64 \<Rightarrow> pmm_state \<times> u64 \<Rightarrow> (pmm_state \<times> u64) option" where
  "mb_tags m tag st =
     (if load32 m tag \<noteq> MULTIBOOT_TAG_TYPE_END
      then Option.bind
             (if load32 m tag = MULTIBOOT_TAG_TYPE_MMAP
              then mmap_entries m (tag + ucast (load32 m (tag + 4))) (load32 m (tag + 8)) (tag + 16) st
              else Some st)
             (\<lambda>st'. mb_tags m (next_tag m tag) st')
      else Some st)"

text \<open>One turn of the loop that builds the free stack.\<close>

definition push_free :: "nat \<Rightarrow> pmm_state \<Rightarrow> pmm_state" where
  "push_free f s =
     (if \<not> bitmap_test s (of_nat f)
      then s\<lparr>stack_ptr := stack_ptr s + 1,
             free_stack := (free_stack s)(nat (stack_ptr s + 1) := of_nat f * PAGE_SIZE),
             total_frames := total_frames s + 1\<rparr>
      else s)"

definition reserve_page :: "u64 \<Rightarrow> pmm_state \<Rightarrow> pmm_state" where
  "reserve_page addr s = bitmap_set s (addr div PAGE_SIZE)"

text \<open>\<open>kernel_end\<close> is the linker symbol; \<open>mb_info\<close> the address GRUB passes.\<close>

definition pmm_init :: "memory \<Rightarrow> u64 \<Rightarrow> u64 \<Rightarrow> pmm_state \<Rightarrow> pmm_state option" where
  "pmm_init m mb_info kernel_end s =
     (let s0 = s\<lparr>frame_bitmap := (\<lambda>i. if i < MAX_FRAMES div 32 then 0xFFFFFFFF else frame_bitmap s i),
                 ref_counts := (\<lambda>i. if i < MAX_FRAMES then 0 else ref_counts s i)\<rparr>;
          mbi_end = mb_info + ucast (load32 m mb_info)
      in Option.bind (mb_tags m (mb_info + 8) (s0, 0)) (\<lambda>(s1, max_addr).
         Option.bind (for_pages reserve_page 0 kernel_end s1) (\<lambda>s2.
         Option.bind (for_pages reserve_page mb_info mbi_end s2) (\<lambda>s3.
           let max_frame = max_addr div PAGE_SIZE;
               n = (if unat max_frame > MAX_FRAMES then MAX_FRAMES else unat max_frame)
           in Some (fold push_free [0..<n] s3)))))"

section \<open>Allocation, release and reference counts\<close>

text \<open>A null pointer is the address 0.\<close>

definition pmm_get_total_frames :: "pmm_state \<Rightarrow> u64" where
  "pmm_get_total_frames s = total_frames s"

definition pmm_alloc_frame :: "pmm_state \<Rightarrow> u64 \<times> pmm_state" where
  "pmm_alloc_frame s =
     (if stack_ptr s < 0 then (0, s)
      else let addr = free_stack s (nat (stack_ptr s));
               s1 = s\<lparr>stack_ptr := stack_ptr s - 1\<rparr>;
               s2 = bitmap_set s1 (addr div PAGE_SIZE)
           in (addr, s2\<lparr>ref_counts := (ref_counts s2)(unat (addr div PAGE_SIZE) := 1)\<rparr>))"

definition pmm_free_frame :: "u64 \<Rightarrow> pmm_state \<Rightarrow> pmm_state" where
  "pmm_free_frame addr s =
     (let f = addr div PAGE_SIZE
      in if unat f \<ge> MAX_FRAMES then s
         else if ref_counts s (unat f) > 0
         then let s1 = s\<lparr>ref_counts := (ref_counts s)(unat f := ref_counts s (unat f) - 1)\<rparr>
              in if ref_counts s1 (unat f) = 0
                 then if bitmap_test s1 f
                      then let s2 = bitmap_unset s1 f
                           in s2\<lparr>stack_ptr := stack_ptr s2 + 1,
                                 free_stack := (free_stack s2)(nat (stack_ptr s2 + 1) := addr)\<rparr>
                      else s1
                 else s1
         else s)"

definition pmm_ref_inc :: "u64 \<Rightarrow> pmm_state \<Rightarrow> pmm_state" where
  "pmm_ref_inc addr s =
     (let f = addr div PAGE_SIZE
      in if unat f < MAX_FRAMES
         then s\<lparr>ref_counts := (ref_counts s)(unat f := ref_counts s (unat f) + 1)\<rparr>
         else s)"

definition pmm_get_ref :: "u64 \<Rightarrow> pmm_state \<Rightarrow> u32" where
  "pmm_get_ref addr s =
     (let f = addr div PAGE_SIZE in if unat f < MAX_FRAMES then ref_counts s (unat f) else 0)"

definition pmm_get_free_count :: "pmm_state \<Rightarrow> u64" where
  "pmm_get_free_count s = of_int (stack_ptr s + 1)"

section \<open>What the bitmap means\<close>

definition used :: "pmm_state \<Rightarrow> nat \<Rightarrow> bool" where
  "used s f \<longleftrightarrow> bit (frame_bitmap s (f div 32)) (f mod 32)"

definition frame_no :: "u64 \<Rightarrow> nat" where
  "frame_no a = unat a div 4096"

definition is_frame :: "u64 \<Rightarrow> bool" where
  "is_frame a \<longleftrightarrow> page_aligned a \<and> frame_no a < MAX_FRAMES"

lemma unat_frame [simp]: "unat (a div PAGE_SIZE) = frame_no a"
  by (simp add: frame_no_def PAGE_SIZE_def)

lemma bitmap_test_used: "bitmap_test s fr \<longleftrightarrow> used s (unat fr)"
  by (simp add: bitmap_test_def used_def push_bit_of_1 and_exp_eq_0_iff_not_bit unat_mod)

lemma div_mod_eq_iff: "(f :: nat) div 32 = g div 32 \<and> f mod 32 = g mod 32 \<longleftrightarrow> f = g"
  by (metis div_mult_mod_eq)

lemma used_bitmap_set: "used (bitmap_set s fr) f \<longleftrightarrow> used s f \<or> f = unat fr"
  using div_mod_eq_iff [of f "unat fr"]
  by (auto simp: used_def bitmap_set_def unat_mod bit_simps)

lemma used_bitmap_unset: "used (bitmap_unset s fr) f \<longleftrightarrow> used s f \<and> f \<noteq> unat fr"
  using div_mod_eq_iff [of f "unat fr"]
  by (auto simp: used_def bitmap_unset_def unat_mod bit_simps)

lemma used_cong [simp]:
  "used (s\<lparr>ref_counts := r\<rparr>) f = used s f"
  "used (s\<lparr>stack_ptr := p\<rparr>) f = used s f"
  "used (s\<lparr>free_stack := st\<rparr>) f = used s f"
  "used (s\<lparr>total_frames := n\<rparr>) f = used s f"
  by (simp_all add: used_def)

lemma bitmap_set_frame [simp]:
  "stack_ptr (bitmap_set s fr) = stack_ptr s" "free_stack (bitmap_set s fr) = free_stack s"
  "ref_counts (bitmap_set s fr) = ref_counts s" "total_frames (bitmap_set s fr) = total_frames s"
  by (simp_all add: bitmap_set_def)

lemma bitmap_unset_frame [simp]:
  "stack_ptr (bitmap_unset s fr) = stack_ptr s" "free_stack (bitmap_unset s fr) = free_stack s"
  "ref_counts (bitmap_unset s fr) = ref_counts s" "total_frames (bitmap_unset s fr) = total_frames s"
  by (simp_all add: bitmap_unset_def)

lemma is_frame_inj: "is_frame a \<Longrightarrow> is_frame b \<Longrightarrow> frame_no a = frame_no b \<Longrightarrow> a = b"
  unfolding is_frame_def page_aligned_def frame_no_def
  by (metis div_mult_mod_eq word_unat_eq_iff)

section \<open>The invariant\<close>

text \<open>The live part of the stack, bottom first.\<close>

definition stack_list :: "pmm_state \<Rightarrow> u64 list" where
  "stack_list s = map (free_stack s) [0..<nat (stack_ptr s + 1)]"

text \<open>
  The stack holds every frame whose bit is clear, once each, by its page-aligned address;
  frame 0 is never free, so that no successful allocation looks like a null pointer.
\<close>

definition pmm_inv :: "pmm_state \<Rightarrow> bool" where
  "pmm_inv s \<longleftrightarrow> -1 \<le> stack_ptr s \<and> distinct (stack_list s) \<and>
     (\<forall>a. a \<in> set (stack_list s) \<longleftrightarrow> is_frame a \<and> \<not> used s (frame_no a)) \<and> used s 0"

definition free_frames :: "pmm_state \<Rightarrow> u64 set" where
  "free_frames s = {a. is_frame a \<and> \<not> used s (frame_no a)}"

lemma free_frames_stack: "pmm_inv s \<Longrightarrow> free_frames s = set (stack_list s)"
  by (auto simp: free_frames_def pmm_inv_def)

lemma stack_list_cong [simp]:
  "stack_list (s\<lparr>ref_counts := r\<rparr>) = stack_list s"
  "stack_list (s\<lparr>total_frames := n\<rparr>) = stack_list s"
  "stack_list (bitmap_set s fr) = stack_list s"
  "stack_list (bitmap_unset s fr) = stack_list s"
  by (simp_all add: stack_list_def)

lemma stack_list_push:
  assumes "-1 \<le> stack_ptr s"
  shows "stack_list (s\<lparr>stack_ptr := stack_ptr s + 1,
            free_stack := (free_stack s)(nat (stack_ptr s + 1) := a)\<rparr>) = stack_list s @ [a]"
proof -
  have "nat (stack_ptr s + 1 + 1) = Suc (nat (stack_ptr s + 1))" using assms by simp
  then show ?thesis by (simp add: stack_list_def)
qed

lemma stack_list_pop:
  assumes "0 \<le> stack_ptr s"
  shows "stack_list s = stack_list (s\<lparr>stack_ptr := stack_ptr s - 1\<rparr>) @ [free_stack s (nat (stack_ptr s))]"
  using assms by (simp add: stack_list_def nat_add_distrib)

text \<open>The stack never outgrows its array: distinct frames below \<open>MAX_FRAMES\<close>.\<close>

lemma stack_bounded:
  assumes "pmm_inv s"
  shows "stack_ptr s < int MAX_FRAMES"
proof -
  have "inj_on frame_no (set (stack_list s))"
    using assms by (intro inj_onI) (auto simp: pmm_inv_def intro: is_frame_inj)
  moreover have "frame_no ` set (stack_list s) \<subseteq> {..<MAX_FRAMES}"
    using assms by (auto simp: pmm_inv_def is_frame_def)
  ultimately have "card (set (stack_list s)) \<le> MAX_FRAMES"
    by (metis card_image card_lessThan card_mono finite_lessThan)
  moreover have "length (stack_list s) = nat (stack_ptr s + 1)"
    by (simp add: stack_list_def)
  ultimately show ?thesis
    using assms by (simp add: pmm_inv_def distinct_card)
qed

lemma frame_no_0 [simp]: "frame_no 0 = 0"
  by (simp add: frame_no_def)

lemma frame_nonzero: "pmm_inv s \<Longrightarrow> a \<in> free_frames s \<Longrightarrow> a \<noteq> 0"
  by (auto simp: pmm_inv_def free_frames_def)

section \<open>What each operation does to the free frames and the counts\<close>

lemma alloc_empty: "pmm_inv s \<Longrightarrow> free_frames s = {} \<Longrightarrow> pmm_alloc_frame s = (0, s)"
  by (auto simp: free_frames_stack stack_list_def pmm_alloc_frame_def)

lemma alloc_cases:
  assumes inv: "pmm_inv s" and eq: "pmm_alloc_frame s = (a, s')"
  obtains (none) "a = 0" "s' = s" "free_frames s = {}"
  | (some) "a \<in> free_frames s" "a \<noteq> 0" "stack_list s = stack_list s' @ [a]"
      "\<And>f. used s' f \<longleftrightarrow> used s f \<or> f = frame_no a" "ref_counts s' = (ref_counts s)(frame_no a := 1)"
      "stack_ptr s' = stack_ptr s - 1" "0 \<le> stack_ptr s" "total_frames s' = total_frames s"
proof (cases "stack_ptr s < 0")
  case True
  then show ?thesis using none eq inv
    by (auto simp: pmm_alloc_frame_def free_frames_stack stack_list_def)
next
  case False
  then have pop: "stack_list s = stack_list (s\<lparr>stack_ptr := stack_ptr s - 1\<rparr>) @ [a]"
    and s': "s' = (bitmap_set (s\<lparr>stack_ptr := stack_ptr s - 1\<rparr>) (a div PAGE_SIZE))
                   \<lparr>ref_counts := (ref_counts s)(frame_no a := 1)\<rparr>"
    using eq stack_list_pop [of s] by (auto simp: pmm_alloc_frame_def Let_def)
  from pop have "a \<in> free_frames s" using inv by (simp add: free_frames_stack)
  then show ?thesis
    using some pop False s' frame_nonzero [OF inv] by (simp add: used_bitmap_set)
qed

lemma pmm_inv_alloc [inv_pres]:
  assumes inv: "pmm_inv s" and eq: "pmm_alloc_frame s = (a, s')"
  shows "pmm_inv s'"
  using inv eq
proof (cases rule: alloc_cases)
  case none
  with inv show ?thesis by simp
next
  case some
  have "b \<in> set (stack_list s') \<longleftrightarrow> b \<in> set (stack_list s) \<and> b \<noteq> a" for b
    using some(3) inv by (auto simp: pmm_inv_def)
  moreover have "is_frame b \<Longrightarrow> frame_no b = frame_no a \<Longrightarrow> b = a" for b
    using some(1) by (auto simp: free_frames_def intro: is_frame_inj)
  ultimately show ?thesis
    using inv some by (auto simp: pmm_inv_def)
qed

lemma alloc_free_frames:
  assumes inv: "pmm_inv s" and eq: "pmm_alloc_frame s = (a, s')" and "a \<noteq> 0"
  shows "a \<in> free_frames s" "free_frames s' = free_frames s - {a}"
    "ref_counts s' = (ref_counts s)(frame_no a := 1)"
  using inv eq
  by (cases rule: alloc_cases;
      use assms in \<open>auto simp: free_frames_def dest: is_frame_inj\<close>)+

lemma free_cases:
  assumes inv: "pmm_inv s" and fr: "is_frame a" and eq: "pmm_free_frame a s = s'"
  obtains (dead) "ref_counts s (frame_no a) = 0" "s' = s"
  | (shared) "ref_counts s (frame_no a) > 1 \<or> ref_counts s (frame_no a) = 1 \<and> \<not> used s (frame_no a)"
      "s' = s\<lparr>ref_counts := (ref_counts s)(frame_no a := ref_counts s (frame_no a) - 1)\<rparr>"
  | (last) "ref_counts s (frame_no a) = 1" "used s (frame_no a)"
      "stack_list s' = stack_list s @ [a]" "stack_ptr s' = stack_ptr s + 1"
      "\<And>f. used s' f \<longleftrightarrow> used s f \<and> f \<noteq> frame_no a"
      "ref_counts s' = (ref_counts s)(frame_no a := 0)"
proof -
  let ?r = "ref_counts s (frame_no a)"
  have small: "frame_no a < MAX_FRAMES" using fr by (simp add: is_frame_def)
  consider "?r = 0" | "?r > 0" "?r \<noteq> 1 \<or> \<not> used s (frame_no a)" | "?r = 1" "used s (frame_no a)"
    by (cases "?r = 0"; cases "?r = 1") (auto simp: word_gt_0)
  then show ?thesis
  proof cases
    case 1
    then show ?thesis using dead eq small by (auto simp: pmm_free_frame_def)
  next
    case 2
    have "?r > 0 \<Longrightarrow> ?r \<noteq> 1 \<Longrightarrow> ?r > 1" by unat_arith
    with 2 have "?r > 1 \<or> ?r = 1 \<and> \<not> used s (frame_no a)" by blast
    then show ?thesis using shared 2 eq small
      by (auto simp: pmm_free_frame_def Let_def bitmap_test_used)
  next
    case 3
    have "-1 \<le> stack_ptr s" using inv by (simp add: pmm_inv_def)
    note push = stack_list_push [of "bitmap_unset (s\<lparr>ref_counts := (ref_counts s)(frame_no a := 0)\<rparr>) (a div PAGE_SIZE)" a]
    show ?thesis
      using last 3 eq small push \<open>-1 \<le> stack_ptr s\<close>
      by (auto simp: pmm_free_frame_def Let_def bitmap_test_used used_bitmap_unset)
  qed
qed

lemma pmm_inv_free [inv_pres]:
  assumes inv: "pmm_inv s" and fr: "is_frame a" "a \<noteq> 0"
  shows "pmm_inv (pmm_free_frame a s)"
  using inv fr(1) refl
proof (cases rule: free_cases)
  case dead
  with inv show ?thesis by simp
next
  case shared
  with inv show ?thesis by (simp add: pmm_inv_def)
next
  case last
  have "frame_no a \<noteq> 0"
    using fr is_frame_inj [of a 0] by (auto simp: is_frame_def page_aligned_def MAX_FRAMES_def)
  moreover have "a \<notin> set (stack_list s)" using inv last by (auto simp: pmm_inv_def)
  moreover have "is_frame b \<Longrightarrow> frame_no b = frame_no a \<longleftrightarrow> b = a" for b
    using fr by (auto intro: is_frame_inj)
  ultimately show ?thesis
    using inv fr last by (auto simp: pmm_inv_def)
qed

lemma free_free_frames:
  assumes inv: "pmm_inv s" and fr: "is_frame a"
  shows "free_frames (pmm_free_frame a s) =
           (if ref_counts s (frame_no a) = 1 then insert a (free_frames s) else free_frames s)"
    and "ref_counts (pmm_free_frame a s) =
           (ref_counts s)(frame_no a := (if ref_counts s (frame_no a) = 0 then 0
                                         else ref_counts s (frame_no a) - 1))"
  using inv fr refl
  by (cases rule: free_cases; use fr in \<open>auto simp: free_frames_def dest: is_frame_inj\<close>)+

lemma ref_inc_simps:
  assumes "is_frame a"
  shows "free_frames (pmm_ref_inc a s) = free_frames s"
    and "ref_counts (pmm_ref_inc a s) = (ref_counts s)(frame_no a := ref_counts s (frame_no a) + 1)"
  using assms by (auto simp: pmm_ref_inc_def Let_def free_frames_def is_frame_def)

lemma pmm_inv_ref_inc [inv_pres]: "pmm_inv s \<Longrightarrow> pmm_inv (pmm_ref_inc a s)"
  by (simp add: pmm_ref_inc_def Let_def pmm_inv_def)

section \<open>The interface the rest of the kernel uses\<close>

text \<open>
  Callers see frame addresses and reference counts only. \<open>frame_run\<close> is an arbitrary
  sequence of calls by any of them.
\<close>

datatype frame_call = AllocFrame | FreeFrame u64 | RefInc u64

fun frame_exec ::
  "('s \<Rightarrow> u64 \<times> 's) \<Rightarrow> (u64 \<Rightarrow> 's \<Rightarrow> 's) \<Rightarrow> (u64 \<Rightarrow> 's \<Rightarrow> 's) \<Rightarrow> frame_call \<Rightarrow> 's \<Rightarrow> 's" where
  "frame_exec alloc release share AllocFrame s = snd (alloc s)"
| "frame_exec alloc release share (FreeFrame a) s = release a s"
| "frame_exec alloc release share (RefInc a) s = share a s"

definition frame_run ::
  "('s \<Rightarrow> u64 \<times> 's) \<Rightarrow> (u64 \<Rightarrow> 's \<Rightarrow> 's) \<Rightarrow> (u64 \<Rightarrow> 's \<Rightarrow> 's) \<Rightarrow> frame_call list \<Rightarrow> 's \<Rightarrow> 's" where
  "frame_run alloc release share calls s = fold (frame_exec alloc release share) calls s"

text \<open>Repeated allocation, dropping null results.\<close>

fun alloc_many :: "('s \<Rightarrow> u64 \<times> 's) \<Rightarrow> nat \<Rightarrow> 's \<Rightarrow> u64 list \<times> 's" where
  "alloc_many alloc 0 s = ([], s)"
| "alloc_many alloc (Suc n) s =
     (let (a, s1) = alloc s; (as, s2) = alloc_many alloc n s1
      in (if a = 0 then as else a # as, s2))"

locale frame_allocator =
  fixes alloc :: "'s \<Rightarrow> u64 \<times> 's"
    and release :: "u64 \<Rightarrow> 's \<Rightarrow> 's"
    and share :: "u64 \<Rightarrow> 's \<Rightarrow> 's"
    and refs :: "'s \<Rightarrow> u64 \<Rightarrow> nat"
    and avail :: "'s \<Rightarrow> u64 set"
    and inv :: "'s \<Rightarrow> bool"
    and frame :: "u64 \<Rightarrow> bool"
  assumes inv_alloc: "inv s \<Longrightarrow> inv (snd (alloc s))"
    and inv_release: "inv s \<Longrightarrow> frame a \<Longrightarrow> inv (release a s)"
    and inv_share: "inv s \<Longrightarrow> inv (share a s)"
    and avail_finite: "inv s \<Longrightarrow> finite (avail s)"
    and avail_frame: "inv s \<Longrightarrow> a \<in> avail s \<Longrightarrow> frame a"
    and frame_not_null: "\<not> frame 0"
    and alloc_fresh: "inv s \<Longrightarrow> alloc s = (a, s') \<Longrightarrow> a \<noteq> 0 \<Longrightarrow> a \<in> avail s"
    and alloc_avail: "inv s \<Longrightarrow> alloc s = (a, s') \<Longrightarrow> avail s' = avail s - {a}"
    and alloc_refs: "inv s \<Longrightarrow> alloc s = (a, s') \<Longrightarrow> a \<noteq> 0 \<Longrightarrow> refs s' = (refs s)(a := 1)"
    and alloc_null: "inv s \<Longrightarrow> alloc s = (0, s') \<Longrightarrow> avail s = {} \<and> s' = s"
    and release_refs: "inv s \<Longrightarrow> frame a \<Longrightarrow> refs (release a s) = (refs s)(a := refs s a - 1)"
    and release_avail: "inv s \<Longrightarrow> frame a \<Longrightarrow>
      avail (release a s) = (if refs s a = 1 then insert a (avail s) else avail s)"
    and share_avail: "inv s \<Longrightarrow> frame a \<Longrightarrow> avail (share a s) = avail s"
    and share_refs: "inv s \<Longrightarrow> frame a \<Longrightarrow> refs s a < 2 ^ 32 - 1 \<Longrightarrow>
      refs (share a s) = (refs s)(a := refs s a + 1)"
begin

lemma inv_alloc_pair: "inv s \<Longrightarrow> alloc s = (a, s') \<Longrightarrow> inv s'"
  using inv_alloc [of s] by simp

lemma exec_keeps:
  assumes "inv s" "\<And>b. c = FreeFrame b \<or> c = RefInc b \<Longrightarrow> frame b" "c \<noteq> FreeFrame a" "a \<notin> avail s"
  shows "inv (frame_exec alloc release share c s) \<and> a \<notin> avail (frame_exec alloc release share c s)"
proof (cases c)
  case AllocFrame
  with assms show ?thesis
    by (cases "alloc s") (auto simp: alloc_avail dest: inv_alloc_pair)
qed (use assms in \<open>auto simp: inv_release inv_share release_avail share_avail\<close>)

lemma run_keeps:
  assumes "inv s" "\<And>b. FreeFrame b \<in> set calls \<or> RefInc b \<in> set calls \<Longrightarrow> frame b"
    "FreeFrame a \<notin> set calls" "a \<notin> avail s"
  shows "inv (frame_run alloc release share calls s) \<and> a \<notin> avail (frame_run alloc release share calls s)"
  using assms
proof (induction calls arbitrary: s)
  case Nil
  then show ?case by (simp add: frame_run_def)
next
  case (Cons c calls)
  have "inv (frame_exec alloc release share c s) \<and> a \<notin> avail (frame_exec alloc release share c s)"
    using Cons.prems by (intro exec_keeps) auto
  then show ?case using Cons.IH Cons.prems by (fastforce simp: frame_run_def)
qed

lemma run_inv:
  assumes "inv s" "\<And>b. FreeFrame b \<in> set calls \<Longrightarrow> frame b"
  shows "inv (frame_run alloc release share calls s)"
  using assms
proof (induction calls arbitrary: s)
  case (Cons c calls)
  have "inv (frame_exec alloc release share c s)"
    using Cons.prems by (cases c) (auto simp: inv_alloc inv_release inv_share)
  with Cons show ?case by (simp add: frame_run_def)
qed (simp add: frame_run_def)

lemma no_double_alloc:
  assumes "inv s" "alloc s = (a, s1)" "a \<noteq> 0"
    "\<And>b. FreeFrame b \<in> set calls \<or> RefInc b \<in> set calls \<Longrightarrow> frame b"
    "FreeFrame a \<notin> set calls" "alloc (frame_run alloc release share calls s1) = (b, s2)" "b \<noteq> 0"
  shows "b \<noteq> a"
proof -
  have "inv s1" "a \<notin> avail s1"
    using assms(1,2) by (auto simp: inv_alloc_pair alloc_avail)
  from run_keeps [OF this(1) assms(4,5) this(2)]
  show ?thesis using alloc_fresh assms(6,7) by blast
qed

lemma alloc_many_fresh:
  "inv s \<Longrightarrow> alloc_many alloc n s = (as, s') \<Longrightarrow>
   inv s' \<and> distinct as \<and> set as \<subseteq> avail s \<and> avail s' = avail s - set as \<and>
   length as = min n (card (avail s))"
proof (induction n arbitrary: s as s')
  case 0
  then show ?case by simp
next
  case (Suc n)
  obtain a s1 where a: "alloc s = (a, s1)" by fastforce
  obtain as1 where as1: "alloc_many alloc n s1 = (as1, s')" "as = (if a = 0 then as1 else a # as1)"
    using Suc.prems a by (auto simp: Let_def split: prod.splits)
  have IH: "inv s' \<and> distinct as1 \<and> set as1 \<subseteq> avail s1 \<and> avail s' = avail s1 - set as1 \<and>
      length as1 = min n (card (avail s1))"
    using Suc.IH [OF inv_alloc_pair [OF Suc.prems(1) a] as1(1)] .
  show ?case
  proof (cases "a = 0")
    case True
    with IH as1 show ?thesis using alloc_null [OF Suc.prems(1)] a by auto
  next
    case False
    have "a \<in> avail s" "avail s1 = avail s - {a}"
      using alloc_fresh alloc_avail Suc.prems(1) a False by blast+
    note a_in = this
    have "card (avail s) = Suc (card (avail s1))"
      using a_in avail_finite [OF Suc.prems(1)] by (metis card.remove)
    moreover have "distinct as" "set as \<subseteq> avail s" "avail s' = avail s - set as"
      using IH as1 False a_in by auto
    ultimately show ?thesis using IH as1(2) False by simp
  qed
qed

lemma release_iter:
  assumes "inv s" "frame a" "k \<le> refs s a" "a \<notin> avail s"
  shows "inv ((release a ^^ k) s) \<and> refs ((release a ^^ k) s) a = refs s a - k \<and>
    (a \<in> avail ((release a ^^ k) s) \<longleftrightarrow> 0 < k \<and> k = refs s a)"
  using assms(3)
proof (induction k)
  case 0
  then show ?case using assms by simp
next
  case (Suc k)
  then show ?case using assms by (auto simp: inv_release release_refs release_avail)
qed

lemma share_iter:
  assumes "inv s" "frame a" "refs s a + k < 2 ^ 32"
  shows "inv ((share a ^^ k) s) \<and> refs ((share a ^^ k) s) a = refs s a + k \<and>
    avail ((share a ^^ k) s) = avail s"
  using assms(3)
proof (induction k)
  case 0
  then show ?case using assms by simp
next
  case (Suc k)
  then show ?case using assms by (auto simp: inv_share share_refs share_avail)
qed

text \<open>
  A fresh frame shared \<open>k\<close> times survives \<open>k\<close> releases and is available after one more.
\<close>

lemma refcount_lifetime:
  assumes "inv s" "alloc s = (a, s1)" "a \<noteq> 0" "k + 1 < 2 ^ 32" "j \<le> k + 1"
  shows "a \<in> avail ((release a ^^ j) ((share a ^^ k) s1)) \<longleftrightarrow> j = k + 1"
proof -
  have fr: "frame a" using alloc_fresh avail_frame assms(1-3) by blast
  have s1: "inv s1" "a \<notin> avail s1" "refs s1 a = 1"
    using assms(1-3) by (auto simp: inv_alloc_pair alloc_avail alloc_refs)
  have sh: "inv ((share a ^^ k) s1) \<and> refs ((share a ^^ k) s1) a = 1 + k \<and>
      avail ((share a ^^ k) s1) = avail s1"
    using share_iter [OF s1(1) fr, of k] s1 assms(4) by simp
  show ?thesis
    using release_iter [of "(share a ^^ k) s1" a j] sh fr s1 assms(5) by auto
qed

end

section \<open>The PMM provides the interface\<close>

definition frame_refs :: "pmm_state \<Rightarrow> u64 \<Rightarrow> nat" where
  "frame_refs s a = (if is_frame a then unat (ref_counts s (frame_no a)) else 0)"

definition usable_frame :: "u64 \<Rightarrow> bool" where
  "usable_frame a \<longleftrightarrow> is_frame a \<and> a \<noteq> 0"

lemma frame_refs_upd:
  "is_frame a \<Longrightarrow> ref_counts s' = (ref_counts s)(frame_no a := n) \<Longrightarrow>
   frame_refs s' = (frame_refs s)(a := unat n)"
  by (auto simp: frame_refs_def fun_eq_iff dest: is_frame_inj)

interpretation pmm: frame_allocator pmm_alloc_frame pmm_free_frame pmm_ref_inc
  frame_refs free_frames pmm_inv usable_frame
proof unfold_locales
  fix s a s'
  show "pmm_inv s \<Longrightarrow> pmm_inv (snd (pmm_alloc_frame s))"
    by (cases "pmm_alloc_frame s") (simp add: pmm_inv_alloc)
  show "pmm_inv s \<Longrightarrow> usable_frame a \<Longrightarrow> pmm_inv (pmm_free_frame a s)"
    by (simp add: usable_frame_def pmm_inv_free)
  show "pmm_inv s \<Longrightarrow> pmm_inv (pmm_ref_inc a s)" by (rule pmm_inv_ref_inc)
  show "pmm_inv s \<Longrightarrow> finite (free_frames s)" by (simp add: free_frames_stack)
  show "pmm_inv s \<Longrightarrow> a \<in> free_frames s \<Longrightarrow> usable_frame a"
    using frame_nonzero by (auto simp: usable_frame_def free_frames_def)
  show "\<not> usable_frame 0" by (simp add: usable_frame_def)
  show "pmm_inv s \<Longrightarrow> pmm_alloc_frame s = (a, s') \<Longrightarrow> a \<noteq> 0 \<Longrightarrow> a \<in> free_frames s"
    by (rule alloc_free_frames)
  show "pmm_inv s \<Longrightarrow> pmm_alloc_frame s = (a, s') \<Longrightarrow> free_frames s' = free_frames s - {a}"
    by (cases "a = 0") (auto simp: alloc_free_frames elim: alloc_cases)
  show "pmm_inv s \<Longrightarrow> pmm_alloc_frame s = (a, s') \<Longrightarrow> a \<noteq> 0 \<Longrightarrow> frame_refs s' = (frame_refs s)(a := 1)"
    using alloc_free_frames [of s a s'] frame_refs_upd [of a s' s 1] by (auto simp: free_frames_def)
  show "pmm_inv s \<Longrightarrow> pmm_alloc_frame s = (0, s') \<Longrightarrow> free_frames s = {} \<and> s' = s"
    by (auto elim: alloc_cases)
  show "pmm_inv s \<Longrightarrow> usable_frame a \<Longrightarrow>
      frame_refs (pmm_free_frame a s) = (frame_refs s)(a := frame_refs s a - 1)"
    by (subst frame_refs_upd [OF _ free_free_frames(2)])
       (auto simp: usable_frame_def frame_refs_def unat_minus_one)
  show "pmm_inv s \<Longrightarrow> usable_frame a \<Longrightarrow> free_frames (pmm_free_frame a s) =
      (if frame_refs s a = 1 then insert a (free_frames s) else free_frames s)"
    by (auto simp: usable_frame_def free_free_frames frame_refs_def unat_eq_one)
  show "pmm_inv s \<Longrightarrow> usable_frame a \<Longrightarrow> free_frames (pmm_ref_inc a s) = free_frames s"
    by (simp add: usable_frame_def ref_inc_simps)
  show "pmm_inv s \<Longrightarrow> usable_frame a \<Longrightarrow> frame_refs s a < 2 ^ 32 - 1 \<Longrightarrow>
      frame_refs (pmm_ref_inc a s) = (frame_refs s)(a := frame_refs s a + 1)"
    by (subst frame_refs_upd [OF _ ref_inc_simps(2)])
       (auto simp: usable_frame_def frame_refs_def unat_plus_no_wrap)
qed

section \<open>Initialisation establishes the invariant\<close>

text \<open>
  A Multiboot2 block the walk gets through: no region runs past the address space, and the
  entry and tag steps reach an end. Without these the C loops do not return.
\<close>

inductive mb_entries_ok :: "memory \<Rightarrow> u64 \<Rightarrow> u32 \<Rightarrow> u64 \<Rightarrow> bool" for m lim esz where
  ok_done: "\<not> entry < lim \<Longrightarrow> mb_entries_ok m lim esz entry"
| ok_entry: "entry < lim \<Longrightarrow>
    (load32 m (entry + 16) = 1 \<longrightarrow> unat (load64 m entry + load64 m (entry + 8)) + 4095 < 2 ^ 64) \<Longrightarrow>
    mb_entries_ok m lim esz (entry + ucast esz) \<Longrightarrow> mb_entries_ok m lim esz entry"

inductive mb_tags_ok :: "memory \<Rightarrow> u64 \<Rightarrow> bool" for m where
  ok_end: "load32 m tag = MULTIBOOT_TAG_TYPE_END \<Longrightarrow> mb_tags_ok m tag"
| ok_tag: "load32 m tag \<noteq> MULTIBOOT_TAG_TYPE_END \<Longrightarrow>
    (load32 m tag = MULTIBOOT_TAG_TYPE_MMAP \<longrightarrow>
       mb_entries_ok m (tag + ucast (load32 m (tag + 4))) (load32 m (tag + 8)) (tag + 16)) \<Longrightarrow>
    mb_tags_ok m (next_tag m tag) \<Longrightarrow> mb_tags_ok m tag"

text \<open>The frames a usable region covers, and the frames the whole block reports.\<close>

definition region_frames :: "u64 \<Rightarrow> u64 \<Rightarrow> nat set" where
  "region_frames addr lim = frame_no ` set (page_list addr lim)"

inductive mb_entry_avail :: "memory \<Rightarrow> u64 \<Rightarrow> u32 \<Rightarrow> u64 \<Rightarrow> nat \<Rightarrow> bool" for m lim esz where
  here: "entry < lim \<Longrightarrow> load32 m (entry + 16) = 1 \<Longrightarrow>
    f \<in> region_frames (load64 m entry) (load64 m entry + load64 m (entry + 8)) \<Longrightarrow>
    mb_entry_avail m lim esz entry f"
| there: "entry < lim \<Longrightarrow> mb_entry_avail m lim esz (entry + ucast esz) f \<Longrightarrow>
    mb_entry_avail m lim esz entry f"

inductive mb_avail :: "memory \<Rightarrow> u64 \<Rightarrow> nat \<Rightarrow> bool" for m where
  in_tag: "load32 m tag = MULTIBOOT_TAG_TYPE_MMAP \<Longrightarrow>
    mb_entry_avail m (tag + ucast (load32 m (tag + 4))) (load32 m (tag + 8)) (tag + 16) f \<Longrightarrow>
    mb_avail m tag f"
| later: "load32 m tag \<noteq> MULTIBOOT_TAG_TYPE_END \<Longrightarrow> mb_avail m (next_tag m tag) f \<Longrightarrow>
    mb_avail m tag f"

inductive_simps mb_entry_avail_iff: "mb_entry_avail m lim esz entry f"
inductive_simps mb_avail_iff: "mb_avail m tag f"

text \<open>
  A step of the walk that clears exactly the bits of \<open>F\<close>, keeps \<open>max_addr\<close> above every
  clear bit and touches nothing else.
\<close>

definition walk_ok :: "nat set \<Rightarrow> pmm_state \<times> u64 \<Rightarrow> pmm_state \<times> u64 \<Rightarrow> bool" where
  "walk_ok F st st' \<longleftrightarrow>
     (\<forall>f<MAX_FRAMES. used (fst st') f \<longleftrightarrow> used (fst st) f \<and> f \<notin> F) \<and>
     ((\<forall>f<MAX_FRAMES. \<not> used (fst st) f \<longrightarrow> f < frame_no (snd st)) \<longrightarrow>
      (\<forall>f<MAX_FRAMES. \<not> used (fst st') f \<longrightarrow> f < frame_no (snd st'))) \<and>
     stack_ptr (fst st') = stack_ptr (fst st)"

lemma walk_ok_refl [simp]: "walk_ok {} st st"
  by (simp add: walk_ok_def)

lemma walk_ok_trans: "walk_ok F st st' \<Longrightarrow> walk_ok G st' st'' \<Longrightarrow> walk_ok (F \<union> G) st st''"
  unfolding walk_ok_def by auto

lemma walk_ok_mark: "walk_ok {frame_no addr} st (mark_available addr st)"
proof -
  obtain s mx where st: "st = (s, mx)" by fastforce
  have up: "frame_no (addr + PAGE_SIZE) = Suc (frame_no addr)" if "frame_no addr < MAX_FRAMES"
  proof -
    have "unat addr < 2 ^ 32" using that by (simp add: frame_no_def MAX_FRAMES_def)
    then have "unat (addr + PAGE_SIZE) = unat addr + 4096"
      by (simp add: PAGE_SIZE_def unat_plus_no_wrap)
    then show ?thesis by (simp add: frame_no_def)
  qed
  have mono: "a > mx \<Longrightarrow> frame_no mx \<le> frame_no a" for a
    by (simp add: frame_no_def word_less_nat_alt div_le_mono)
  show ?thesis
    using up mono [of "addr + PAGE_SIZE"] div_le_mono [of "unat (addr + PAGE_SIZE)" "unat mx" 4096]
    by (auto simp: walk_ok_def st mark_available_def Let_def used_bitmap_unset word_less_nat_alt
        not_less frame_no_def [symmetric] less_Suc_eq_le
        intro: less_le_trans Suc_le_lessD split: if_splits)
qed

lemma walk_ok_fold: "walk_ok (frame_no ` set as) st (fold mark_available as st)"
proof (induction as arbitrary: st)
  case (Cons a as)
  from walk_ok_trans [OF walk_ok_mark Cons.IH] show ?case by simp
qed simp

lemma mmap_entries_ok:
  "mb_entries_ok m lim esz entry \<Longrightarrow>
   \<exists>st'. mmap_entries m lim esz entry st = Some st' \<and>
     walk_ok {f. mb_entry_avail m lim esz entry f} st st'"
proof (induction arbitrary: st rule: mb_entries_ok.induct)
  case (ok_done entry)
  then have "Collect (mb_entry_avail m lim esz entry) = {}"
    using mb_entry_avail_iff [of m lim esz entry] by blast
  then have "walk_ok (Collect (mb_entry_avail m lim esz entry)) st st" by (simp only: walk_ok_refl)
  with ok_done show ?case by (subst mmap_entries.simps) simp
next
  case (ok_entry entry)
  let ?a = "load64 m entry" and ?l = "load64 m entry + load64 m (entry + 8)"
  define F where "F = (if load32 m (entry + 16) = 1 then region_frames ?a ?l else {})"
  have "\<exists>st1. (if load32 m (entry + 16) = 1 then for_pages mark_available ?a ?l st else Some st)
      = Some st1 \<and> walk_ok F st st1"
    using ok_entry(2) walk_ok_fold [of "page_list ?a ?l" st]
    by (cases "load32 m (entry + 16) = 1") (simp_all add: F_def region_frames_def for_pages_fold)
  then obtain st1 where st1:
    "(if load32 m (entry + 16) = 1 then for_pages mark_available ?a ?l st else Some st) = Some st1"
    "walk_ok F st st1" by blast
  obtain st2 where st2: "mmap_entries m lim esz (entry + ucast esz) st1 = Some st2"
    "walk_ok {f. mb_entry_avail m lim esz (entry + ucast esz) f} st1 st2"
    using ok_entry.IH by blast
  have "{f. mb_entry_avail m lim esz entry f} =
      F \<union> {f. mb_entry_avail m lim esz (entry + ucast esz) f}"
    using ok_entry(1) by (subst mb_entry_avail_iff) (auto simp: F_def)
  with walk_ok_trans [OF st1(2) st2(2)] show ?case
    using ok_entry(1) st1(1) st2(1) by (subst mmap_entries.simps) simp
qed

lemma mb_tags_ok_walk:
  "mb_tags_ok m tag \<Longrightarrow> \<exists>st'. mb_tags m tag st = Some st' \<and> walk_ok {f. mb_avail m tag f} st st'"
proof (induction arbitrary: st rule: mb_tags_ok.induct)
  case (ok_end tag)
  then have "Collect (mb_avail m tag) = {}"
    using mb_avail_iff [of m tag] by (auto simp: MULTIBOOT_TAG_TYPE_END_def MULTIBOOT_TAG_TYPE_MMAP_def)
  then have "walk_ok (Collect (mb_avail m tag)) st st" by (simp only: walk_ok_refl)
  then show ?case using ok_end by (subst mb_tags.simps) simp
next
  case (ok_tag tag)
  let ?lim = "tag + ucast (load32 m (tag + 4))" and ?esz = "load32 m (tag + 8)"
  define F where "F = (if load32 m tag = MULTIBOOT_TAG_TYPE_MMAP
      then {f. mb_entry_avail m ?lim ?esz (tag + 16) f} else {})"
  have "\<exists>st1. (if load32 m tag = MULTIBOOT_TAG_TYPE_MMAP
        then mmap_entries m ?lim ?esz (tag + 16) st else Some st) = Some st1 \<and> walk_ok F st st1"
    using ok_tag(2) mmap_entries_ok [of m ?lim ?esz "tag + 16" st]
    by (cases "load32 m tag = MULTIBOOT_TAG_TYPE_MMAP") (simp_all add: F_def)
  then obtain st1 where st1: "(if load32 m tag = MULTIBOOT_TAG_TYPE_MMAP
        then mmap_entries m ?lim ?esz (tag + 16) st else Some st) = Some st1" "walk_ok F st st1"
    by blast
  obtain st2 where st2: "mb_tags m (next_tag m tag) st1 = Some st2"
    "walk_ok {f. mb_avail m (next_tag m tag) f} st1 st2"
    using ok_tag.IH by blast
  have "{f. mb_avail m tag f} = F \<union> {f. mb_avail m (next_tag m tag) f}"
    using ok_tag(1) by (subst mb_avail_iff) (auto simp: F_def)
  with walk_ok_trans [OF st1(2) st2(2)] show ?case
    using ok_tag(1) st1(1) st2(1) by (subst mb_tags.simps) simp
qed

text \<open>The reservations and the construction of the stack.\<close>

lemma used_reserve_fold:
  "used (fold reserve_page as s) f \<longleftrightarrow> used s f \<or> f \<in> frame_no ` set as"
  by (induction as arbitrary: s) (auto simp: reserve_page_def used_bitmap_set)

lemma stack_ptr_reserve_fold [simp]: "stack_ptr (fold reserve_page as s) = stack_ptr s"
  by (induction as arbitrary: s) (auto simp: reserve_page_def)

lemma push_free_fold:
  assumes "n \<le> MAX_FRAMES" "stack_ptr s = -1"
  shows "used (fold push_free [0..<n] s) = used s \<and> -1 \<le> stack_ptr (fold push_free [0..<n] s) \<and>
    stack_list (fold push_free [0..<n] s) =
      map (\<lambda>f. of_nat f * PAGE_SIZE) (filter (\<lambda>f. \<not> used s f) [0..<n])"
  using assms(1)
proof (induction n)
  case 0
  then show ?case using assms(2) by (simp add: stack_list_def)
next
  case (Suc n)
  define t where "t = fold push_free [0..<n] s"
  have IH: "used t = used s" "-1 \<le> stack_ptr t"
    "stack_list t = map (\<lambda>f. of_nat f * PAGE_SIZE) (filter (\<lambda>f. \<not> used s f) [0..<n])"
    using Suc by (simp_all add: t_def)
  have "bitmap_test t (of_nat n) \<longleftrightarrow> used s n"
    using Suc.prems IH(1) by (simp add: bitmap_test_used unat_of_nat MAX_FRAMES_def)
  then have "used (push_free n t) = used s" "-1 \<le> stack_ptr (push_free n t)"
    "stack_list (push_free n t) =
       (if used s n then stack_list t else stack_list t @ [of_nat n * PAGE_SIZE])"
    using IH(1,2) stack_list_push [OF IH(2)]
    by (auto simp: push_free_def fun_eq_iff)
  with IH show ?case by (simp add: t_def [symmetric])
qed


lemma page_frames:
  assumes "unat lim + 4095 < 2 ^ 64"
  shows "frame_no ` set (page_list 0 lim) = {f. f * 4096 < unat lim}"
proof -
  have "frame_no (of_nat k * 4096) = k" if "k < page_count 0 lim" for k
  proof -
    have "k * 4096 < 2 ^ 64" using that assms by (simp add: page_count_def)
    then have "unat (of_nat (k * 4096) :: u64) = k * 4096" by (intro unat_of_nat_small) simp
    then show ?thesis by (simp add: frame_no_def)
  qed
  then have "frame_no ` set (page_list 0 lim) = {..<page_count 0 lim}"
    by (simp add: set_page_list image_image)
  also have "\<dots> = {f. f * 4096 < unat lim}" by (auto simp: page_count_def)
  finally show ?thesis .
qed

lemma stack_list_frames:
  assumes "n \<le> MAX_FRAMES" and st: "stack_list t = map (\<lambda>f. of_nat f * PAGE_SIZE) (filter P [0..<n])"
  shows "distinct (stack_list t)" "a \<in> set (stack_list t) \<longleftrightarrow> page_aligned a \<and> frame_no a < n \<and> P (frame_no a)"
proof -
  have u: "unat (of_nat f * PAGE_SIZE :: u64) = f * 4096" if "f < n" for f
  proof -
    have "unat (of_nat (f * 4096) :: u64) = f * 4096"
      using that assms(1) by (intro unat_of_nat_small) (simp add: MAX_FRAMES_def)
    then show ?thesis by (simp add: PAGE_SIZE_def)
  qed
  then have fn: "frame_no (of_nat f * PAGE_SIZE) = f" if "f < n" for f
    using that by (simp add: frame_no_def)
  have "inj_on (\<lambda>f. of_nat f * PAGE_SIZE) {..<n}" by (rule inj_on_inverseI [of _ frame_no]) (simp add: fn)
  then show "distinct (stack_list t)"
    unfolding st by (auto simp: distinct_map intro: inj_on_subset)
  have rep: "of_nat (frame_no a) * PAGE_SIZE = a" if "page_aligned a" "frame_no a < n"
    using that u [of "frame_no a"] by (intro word_unat_eq_iff [THEN iffD2]) (auto simp: page_aligned_def frame_no_def)
  show "a \<in> set (stack_list t) \<longleftrightarrow> page_aligned a \<and> frame_no a < n \<and> P (frame_no a)"
    using u fn rep by (force simp: st page_aligned_def)
qed

text \<open>The state after the bitmap has been filled with ones: every frame is used.\<close>

lemma used_all_ones:
  assumes "\<And>i. i < MAX_FRAMES div 32 \<Longrightarrow> frame_bitmap s i = 0xFFFFFFFF" "f < MAX_FRAMES"
  shows "used s f"
proof -
  have "f div 32 < MAX_FRAMES div 32" using assms(2) by (simp add: MAX_FRAMES_def)
  moreover have "bit (0xFFFFFFFF :: u32) n" if "n < 32" for n
  proof -
    have "(0xFFFFFFFF :: u32) = mask 32" by (simp add: mask_eq_decr_exp)
    then show ?thesis using that by (simp only: bit_mask_iff) simp
  qed
  ultimately show ?thesis by (simp add: used_def assms(1))
qed

definition mbi_frames :: "memory \<Rightarrow> u64 \<Rightarrow> nat set" where
  "mbi_frames m mb_info = frame_no ` set (page_list mb_info (mb_info + ucast (load32 m mb_info)))"

lemma pmm_init_state:
  assumes ok: "mb_tags_ok m (mb_info + 8)" and ke: "unat kernel_end + 4095 < 2 ^ 64" "0 < kernel_end"
    and me: "unat (mb_info + ucast (load32 m mb_info)) + 4095 < 2 ^ 64" and sp: "stack_ptr s = -1"
  shows "\<exists>s'. pmm_init m mb_info kernel_end s = Some s' \<and> pmm_inv s' \<and>
    (\<forall>f<MAX_FRAMES. \<not> used s' f \<longleftrightarrow> mb_avail m (mb_info + 8) f \<and> unat kernel_end \<le> f * 4096 \<and>
       f \<notin> mbi_frames m mb_info) \<and> sorted_wrt (<) (map frame_no (stack_list s'))"
proof -
  define s0 where "s0 = s\<lparr>frame_bitmap := (\<lambda>i. if i < MAX_FRAMES div 32 then 0xFFFFFFFF else frame_bitmap s i),
      ref_counts := (\<lambda>i. if i < MAX_FRAMES then 0 else ref_counts s i)\<rparr>"
  have s0: "used s0 f" if "f < MAX_FRAMES" for f
    by (rule used_all_ones) (simp_all add: s0_def that)
  obtain s1 mx where tags: "mb_tags m (mb_info + 8) (s0, 0) = Some (s1, mx)"
    and walk: "walk_ok {f. mb_avail m (mb_info + 8) f} (s0, 0) (s1, mx)"
    using mb_tags_ok_walk [OF ok, of "(s0, 0)"] by fastforce
  define s3 where "s3 = fold reserve_page (page_list mb_info (mb_info + ucast (load32 m mb_info)))
      (fold reserve_page (page_list 0 kernel_end) s1)"
  define n where "n = (if unat (mx div PAGE_SIZE) > MAX_FRAMES then MAX_FRAMES else unat (mx div PAGE_SIZE))"
  define s' where "s' = fold push_free [0..<n] s3"
  have run: "pmm_init m mb_info kernel_end s = Some s'"
    using tags ke me by (simp add: pmm_init_def s0_def s3_def s'_def n_def for_pages_fold Let_def)
  have used3: "used s3 f \<longleftrightarrow> \<not> (mb_avail m (mb_info + 8) f \<and> unat kernel_end \<le> f * 4096 \<and> f \<notin> mbi_frames m mb_info)"
    if "f < MAX_FRAMES" for f
    using walk s0 [OF that] that by (auto simp: s3_def used_reserve_fold page_frames [OF ke(1)] walk_ok_def mbi_frames_def)
  have nle: "n \<le> MAX_FRAMES" by (simp add: n_def)
  have small: "f < n" if "f < MAX_FRAMES" "\<not> used s3 f" for f
  proof -
    have "\<not> used s1 f" using that(2) by (auto simp: s3_def used_reserve_fold)
    then show ?thesis using walk s0 that(1) by (auto simp: walk_ok_def n_def)
  qed
  have sp3: "stack_ptr s3 = -1" using walk sp by (simp add: s3_def s0_def walk_ok_def)
  note built = push_free_fold [OF nle sp3, folded s'_def]
  note frames = stack_list_frames [OF nle, of s' "\<lambda>f. \<not> used s3 f"]
  have "used s3 0" using used3 [of 0] ke(2) by (simp add: MAX_FRAMES_def word_less_iff_unat)
  then have "pmm_inv s'"
    using built frames small nle by (auto simp: pmm_inv_def is_frame_def intro: less_le_trans)
  moreover have "map frame_no (stack_list s') = filter (\<lambda>f. \<not> used s3 f) [0..<n]"
  proof -
    have "frame_no (of_nat f * PAGE_SIZE) = f" if "f < n" for f
    proof -
      have "unat (of_nat (f * 4096) :: u64) = f * 4096"
        using that nle by (intro unat_of_nat_small) (simp add: MAX_FRAMES_def)
      then show ?thesis by (simp add: PAGE_SIZE_def frame_no_def)
    qed
    then have "map (frame_no \<circ> (\<lambda>f. of_nat f * PAGE_SIZE)) (filter (\<lambda>f. \<not> used s3 f) [0..<n]) = filter (\<lambda>f. \<not> used s3 f) [0..<n]"
      by (intro map_idI) simp
    then show ?thesis using built by simp
  qed
  moreover have "sorted_wrt (<) (filter (\<lambda>f. \<not> used s3 f) [0..<n])" by (intro sorted_wrt_filter) simp
  ultimately show ?thesis using run used3 built by auto
qed


lemma free_count_card:
  assumes "pmm_inv s"
  shows "unat (pmm_get_free_count s) = card (free_frames s)"
proof -
  have "card (free_frames s) = nat (stack_ptr s + 1)"
    using assms by (simp add: free_frames_stack pmm_inv_def distinct_card) (simp add: stack_list_def)
  moreover have "pmm_get_free_count s = of_nat (nat (stack_ptr s + 1))"
    using assms by (simp add: pmm_get_free_count_def pmm_inv_def)
  moreover have "nat (stack_ptr s + 1) < 2 ^ 64"
    using stack_bounded [OF assms] by (simp add: MAX_FRAMES_def)
  ultimately show ?thesis by (simp add: unat_of_nat_small)
qed

section \<open>Properties\<close>

text \<open>A machine with two free frames at 1 MiB, for the concrete instances below.\<close>

definition two_frames :: pmm_state where
  "two_frames = \<lparr>frame_bitmap = (\<lambda>i. if i = 8 then 0xFFFFFFFC else 0xFFFFFFFF),
     free_stack = (\<lambda>i. if i = 0 then 0x100000 else 0x101000), stack_ptr = 1,
     ref_counts = (\<lambda>_. 0), total_frames = 2\<rparr>"

lemma all_ones_bit: "n < 32 \<Longrightarrow> bit (0xFFFFFFFF :: u32) n"
proof -
  have "(0xFFFFFFFF :: u32) = mask 32" by (simp add: mask_eq_decr_exp)
  then show "n < 32 \<Longrightarrow> ?thesis" by (simp only: bit_mask_iff) simp
qed

lemma two_frames_used: "\<not> used two_frames f \<longleftrightarrow> f = 256 \<or> f = 257"
proof (cases "f div 32 = 8")
  case True
  have "(0xFFFFFFFC :: u32) = 0xFFFFFFFF AND NOT (mask 2)" by (simp add: mask_eq_decr_exp)
  then have "bit (0xFFFFFFFC :: u32) n \<longleftrightarrow> 2 \<le> n" if "n < 32" for n
    using that by (simp only: bit_and_iff bit_not_iff bit_mask_iff all_ones_bit) auto
  then have "bit (0xFFFFFFFC :: u32) (f mod 32) \<longleftrightarrow> 2 \<le> f mod 32" by simp
  moreover have "f mod 32 < 2 \<longleftrightarrow> f = 256 \<or> f = 257"
    using div_mult_mod_eq [of f 32] by (simp only: True) arith
  ultimately show ?thesis using True by (auto simp: used_def two_frames_def)
next
  case False
  have "bit (0xFFFFFFFF :: u32) (f mod 32)" by (rule all_ones_bit) simp
  then have "used two_frames f" using False by (simp add: used_def two_frames_def)
  moreover have "\<not> (f = 256 \<or> f = 257)" using False by auto
  ultimately show ?thesis by blast
qed

lemma two_frames_list: "stack_list two_frames = [0x100000, 0x101000]"
  by (simp add: stack_list_def two_frames_def numeral_2_eq_2)

lemma two_frames_inv: "pmm_inv two_frames"
proof -
  have "a = 0x100000 \<or> a = 0x101000 \<longleftrightarrow> is_frame a \<and> (frame_no a = 256 \<or> frame_no a = 257)" for a
    using is_frame_inj [of a "0x100000"] is_frame_inj [of a "0x101000"]
    by (auto simp: is_frame_def page_aligned_def frame_no_def MAX_FRAMES_def)
  moreover have "used two_frames 0" using two_frames_used [of 0] by simp
  moreover have "-1 \<le> stack_ptr two_frames" by (simp add: two_frames_def)
  ultimately show ?thesis using two_frames_used by (simp add: pmm_inv_def two_frames_list)
qed

lemma two_frames_free: "free_frames two_frames = {0x100000, 0x101000}"
  using two_frames_inv by (simp add: free_frames_stack two_frames_list)

text \<open>
  C2. Initialisation: for a Multiboot2 block that ends, \<open>pmm_init\<close> returns, establishes the
  invariant, and a frame below 4 GiB is free exactly when the memory map reports it usable, it
  lies above the kernel image and no page step from the start of the Multiboot block hits it.
\<close>

theorem pmm_init_correct:
  assumes "mb_tags_ok m (mb_info + 8)" "unat kernel_end + 4095 < 2 ^ 64" "0 < kernel_end"
    and "unat (mb_info + ucast (load32 m mb_info)) + 4095 < 2 ^ 64" "stack_ptr s = -1"
  shows "\<exists>s'. pmm_init m mb_info kernel_end s = Some s' \<and> pmm_inv s' \<and>
    (\<forall>f<MAX_FRAMES. \<not> used s' f \<longleftrightarrow> mb_avail m (mb_info + 8) f \<and> unat kernel_end \<le> f * 4096 \<and>
       f \<notin> mbi_frames m mb_info)"
  using pmm_init_state [OF assms] by blast

text \<open>
  A block of 56 bytes at \<open>0x100FF0\<close>: one memory-map tag with the usable region
  \<open>0x100000..0x103000\<close>, then the end tag. It straddles the page boundary at \<open>0x101000\<close>.
\<close>

definition small_mbi :: memory where
  "small_mbi a = (if a = 0x100FF0 then 56 else if a = 0x100FF8 then 6 else if a = 0x100FFC then 40
     else if a = 0x101000 then 24 else if a = 0x10100A then 0x10 else if a = 0x101011 then 0x30
     else if a = 0x101018 then 1 else 0)"

definition boot_state :: pmm_state where
  "boot_state = \<lparr>frame_bitmap = (\<lambda>_. 0), free_stack = (\<lambda>_. 0), stack_ptr = -1,
     ref_counts = (\<lambda>_. 0), total_frames = 0\<rparr>"

lemma small_mbi_loads:
  "load32 small_mbi 0x100FF0 = 56" "load32 small_mbi 0x100FF8 = 6" "load32 small_mbi 0x100FFC = 40"
  "load32 small_mbi 0x101000 = 24" "load32 small_mbi 0x101018 = 1" "load32 small_mbi 0x101020 = 0"
  "load64 small_mbi 0x101008 = 0x100000" "load64 small_mbi 0x101010 = 0x3000"
  by (simp_all add: load64_def load32_def load16_def small_mbi_def)

lemma small_mbi_ok: "mb_tags_ok small_mbi 0x100FF8"
proof -
  have entries: "mb_entries_ok small_mbi 0x101020 24 0x101008"
    by (rule ok_entry) (auto simp: small_mbi_loads intro: ok_done)
  have rest: "mb_tags_ok small_mbi 0x101020"
    by (rule ok_end) (simp add: small_mbi_loads MULTIBOOT_TAG_TYPE_END_def)
  show ?thesis
    by (rule ok_tag) (simp_all add: small_mbi_loads next_tag_def MULTIBOOT_TAG_TYPE_END_def entries rest)
qed

lemma small_mbi_avail: "mb_avail small_mbi 0x100FF8 257"
proof -
  have "257 \<in> region_frames 0x100000 0x103000"
    unfolding region_frames_def by (rule image_eqI [of _ _ "0x101000"])
       (auto simp: frame_no_def set_page_list page_count_def intro!: image_eqI [of _ _ 1])
  then have "mb_entry_avail small_mbi 0x101020 24 0x101008 257"
    by (intro here) (simp_all add: small_mbi_loads)
  then show ?thesis
    by (intro in_tag) (simp_all add: small_mbi_loads MULTIBOOT_TAG_TYPE_MMAP_def)
qed

lemma small_mbi_frames: "mbi_frames small_mbi 0x100FF0 = {256}"
  by (simp add: mbi_frames_def small_mbi_loads set_page_list page_count_def frame_no_def lessThan_Suc)

theorem pmm_init_correct_witness:
  "\<exists>s'. pmm_init small_mbi 0x100FF0 0x100000 boot_state = Some s' \<and> pmm_inv s' \<and> \<not> used s' 257 \<and> used s' 256"
  using pmm_init_correct [of small_mbi "0x100FF0" "0x100000" boot_state]
    small_mbi_ok small_mbi_avail small_mbi_frames
  by (fastforce simp: small_mbi_loads boot_state_def MAX_FRAMES_def)

text \<open>
  C3. Whatever sequence of allocations, releases and shares of real frames the kernel makes,
  the invariant holds, the stack index stays inside its array and the reported free count is
  the number of free frames.
\<close>

theorem pmm_any_calls:
  assumes "pmm_inv s" "\<And>b. FreeFrame b \<in> set calls \<Longrightarrow> usable_frame b"
    and "s' = frame_run pmm_alloc_frame pmm_free_frame pmm_ref_inc calls s"
  shows "pmm_inv s' \<and> stack_ptr s' < int MAX_FRAMES \<and>
    unat (pmm_get_free_count s') = card (free_frames s')"
  using pmm.run_inv [OF assms(1,2)] stack_bounded free_count_card by (simp add: assms(3))

theorem pmm_any_calls_witness:
  "unat (pmm_get_free_count (frame_run pmm_alloc_frame pmm_free_frame pmm_ref_inc
     [AllocFrame, RefInc 0x101000, FreeFrame 0x101000, AllocFrame, AllocFrame] two_frames)) =
   card (free_frames (frame_run pmm_alloc_frame pmm_free_frame pmm_ref_inc
     [AllocFrame, RefInc 0x101000, FreeFrame 0x101000, AllocFrame, AllocFrame] two_frames))"
  using pmm_any_calls [OF two_frames_inv _ refl, of
      "[AllocFrame, RefInc 0x101000, FreeFrame 0x101000, AllocFrame, AllocFrame]"]
  by (simp add: usable_frame_def is_frame_def page_aligned_def frame_no_def MAX_FRAMES_def)

text \<open>
  C4. No double allocation: a frame handed out is not handed out again by any later call
  sequence that does not release it.
\<close>

theorem pmm_no_double_alloc:
  assumes "pmm_inv s" "pmm_alloc_frame s = (a, s1)" "a \<noteq> 0"
    and "\<And>b. FreeFrame b \<in> set calls \<or> RefInc b \<in> set calls \<Longrightarrow> usable_frame b"
    and "FreeFrame a \<notin> set calls"
    and "pmm_alloc_frame (frame_run pmm_alloc_frame pmm_free_frame pmm_ref_inc calls s1) = (b, s2)" "b \<noteq> 0"
  shows "b \<noteq> a"
  using assms by (rule pmm.no_double_alloc)

theorem pmm_no_double_alloc_witness:
  "fst (pmm_alloc_frame (snd (pmm_alloc_frame two_frames))) \<noteq> fst (pmm_alloc_frame two_frames)"
proof -
  have a: "pmm_alloc_frame two_frames = (0x101000, snd (pmm_alloc_frame two_frames))"
    by (simp add: pmm_alloc_frame_def two_frames_def Let_def)
  have b: "pmm_alloc_frame (frame_run pmm_alloc_frame pmm_free_frame pmm_ref_inc [RefInc 0x101000] (snd (pmm_alloc_frame two_frames))) =
      (0x100000, snd (pmm_alloc_frame (pmm_ref_inc 0x101000 (snd (pmm_alloc_frame two_frames)))))"
    by (simp add: frame_run_def pmm_alloc_frame_def pmm_ref_inc_def two_frames_def Let_def bitmap_set_def MAX_FRAMES_def frame_no_def)
  have "fst (pmm_alloc_frame (snd (pmm_alloc_frame two_frames))) = 0x100000"
    by (simp add: pmm_alloc_frame_def two_frames_def Let_def bitmap_set_def)
  with pmm_no_double_alloc [OF two_frames_inv a _ _ _ b] show ?thesis
    by (simp add: a [THEN arg_cong [of _ _ fst], simplified] usable_frame_def is_frame_def page_aligned_def frame_no_def MAX_FRAMES_def)
qed

text \<open>
  Exhaustion: \<open>n\<close> successive allocations return \<open>min n free\<close> pairwise distinct frames, all
  of them free before, and only then null pointers.
\<close>

theorem pmm_alloc_exhausts:
  assumes "pmm_inv s" "alloc_many pmm_alloc_frame n s = (as, s')"
  shows "distinct as \<and> set as \<subseteq> free_frames s \<and> free_frames s' = free_frames s - set as \<and>
    length as = min n (unat (pmm_get_free_count s))"
  using pmm.alloc_many_fresh [OF assms] free_count_card [OF assms(1)] by simp

theorem pmm_alloc_exhausts_witness:
  "length (fst (alloc_many pmm_alloc_frame 5 two_frames)) = 2 \<and>
   free_frames (snd (alloc_many pmm_alloc_frame 5 two_frames)) = {}"
proof -
  obtain as t where eq: "alloc_many pmm_alloc_frame 5 two_frames = (as, t)" by fastforce
  from pmm_alloc_exhausts [OF two_frames_inv eq] have *: "distinct as" "set as \<subseteq> free_frames two_frames"
    "free_frames t = free_frames two_frames - set as" "length as = 2"
    by (auto simp: pmm_get_free_count_def two_frames_def)
  then have "card (set as) = card (free_frames two_frames)" by (simp add: distinct_card two_frames_free)
  then have "set as = free_frames two_frames"
    using *(2) by (intro card_subset_eq) (simp_all add: two_frames_free)
  with * eq show ?thesis by simp
qed

text \<open>
  Reference counts: a fresh frame shared \<open>k\<close> times stays allocated through \<open>k\<close> releases and
  returns to the free stack with release number \<open>k + 1\<close>, the life cycle copy-on-write relies on.
\<close>

theorem pmm_refcount_lifetime:
  assumes "pmm_inv s" "pmm_alloc_frame s = (a, s1)" "a \<noteq> 0" "k + 1 < 2 ^ 32" "j \<le> k + 1"
  shows "a \<in> free_frames ((pmm_free_frame a ^^ j) ((pmm_ref_inc a ^^ k) s1)) \<longleftrightarrow> j = k + 1"
  using assms by (rule pmm.refcount_lifetime)

theorem pmm_refcount_lifetime_witness:
  "0x101000 \<notin> free_frames (pmm_free_frame 0x101000 (pmm_free_frame 0x101000
     (pmm_ref_inc 0x101000 (pmm_ref_inc 0x101000 (snd (pmm_alloc_frame two_frames)))))) \<and>
   0x101000 \<in> free_frames (pmm_free_frame 0x101000 (snd (pmm_alloc_frame two_frames)))"
proof -
  have a: "pmm_alloc_frame two_frames = (0x101000, snd (pmm_alloc_frame two_frames))"
    by (simp add: pmm_alloc_frame_def two_frames_def Let_def)
  from pmm_refcount_lifetime [OF two_frames_inv a, of "Suc (Suc 0)" "Suc (Suc 0)"]
    pmm_refcount_lifetime [OF two_frames_inv a, of 0 "Suc 0"]
  show ?thesis by simp
qed


lemma page_list_misses_tail:
  assumes "unat a < unat lim" "unat lim + 4095 < 2 ^ 64" "(unat lim - 1) mod 4096 < unat a mod 4096"
  shows "frame_no (lim - 1) \<notin> frame_no ` set (page_list a lim)"
proof
  assume "frame_no (lim - 1) \<in> frame_no ` set (page_list a lim)"
  then obtain k where k: "k < page_count a lim" "frame_no (lim - 1) = frame_no (a + of_nat k * 4096)"
    by (auto simp: set_page_list)
  have pos: "0 < unat lim" using assms(1) by simp
  have kb: "k * 4096 < unat lim - unat a" using k(1) by (simp add: page_count_def)
  then have "unat (of_nat (k * 4096) :: u64) = k * 4096" using assms(2) by (intro unat_of_nat_small) simp
  then have "unat (a + of_nat k * 4096) = unat a + k * 4096"
    using kb assms(2) by (simp add: unat_plus_no_wrap)
  moreover have "unat (lim - 1) = unat lim - 1" using pos by (subst unat_minus_one) auto
  ultimately have "(unat lim - 1) div 4096 = (unat a + k * 4096) div 4096"
    using k(2) by (simp add: frame_no_def)
  then have "(unat lim - 1) div 4096 = unat a div 4096 + k" by simp
  then have "unat lim - 1 = (unat a div 4096 + k) * 4096 + (unat lim - 1) mod 4096"
    using div_mult_mod_eq [of "unat lim - 1" 4096] by simp
  moreover have "unat a = unat a div 4096 * 4096 + unat a mod 4096" by simp
  moreover have "unat a + k * 4096 \<le> unat lim - 1" using kb assms(1) by simp
  ultimately show False using assms(3) unfolding add_mult_distrib by linarith
qed

text \<open>
  The reservation of the Multiboot block steps from its unrounded start: when the last byte
  of the block sits lower in its page than the first byte in its own, the last page is not
  reserved, and it goes to the free stack if it is usable RAM above the kernel.
\<close>

theorem pmm_init_frees_mbi_tail:
  assumes "mb_tags_ok m (mb_info + 8)" "unat kernel_end + 4095 < 2 ^ 64" "0 < kernel_end" "stack_ptr s = -1"
    and e: "e = mb_info + ucast (load32 m mb_info)" "unat e + 4095 < 2 ^ 64" "unat mb_info < unat e"
    and tail: "(unat e - 1) mod 4096 < unat mb_info mod 4096"
    and ram: "frame_no (e - 1) < MAX_FRAMES" "mb_avail m (mb_info + 8) (frame_no (e - 1))"
      "unat kernel_end \<le> frame_no (e - 1) * 4096"
  shows "\<exists>s'. pmm_init m mb_info kernel_end s = Some s' \<and> of_nat (frame_no (e - 1)) * 4096 \<in> free_frames s'"
proof -
  obtain s' where s': "pmm_init m mb_info kernel_end s = Some s'" "\<not> used s' (frame_no (e - 1))"
    using pmm_init_state [OF assms(1-3) _ assms(4)] page_list_misses_tail [OF e(3,2) tail] e(1,2) ram
    by (auto simp: mbi_frames_def)
  have "unat (of_nat (frame_no (e - 1) * 4096) :: u64) = frame_no (e - 1) * 4096"
    using ram(1) by (intro unat_of_nat_small) (simp add: MAX_FRAMES_def)
  then have "is_frame (of_nat (frame_no (e - 1)) * 4096)" "frame_no (of_nat (frame_no (e - 1)) * 4096) = frame_no (e - 1)"
    using ram(1) by (simp_all add: is_frame_def page_aligned_def frame_no_def)
  with s' show ?thesis by (auto simp: free_frames_def)
qed

theorem pmm_init_frees_mbi_tail_witness:
  "\<exists>s'. pmm_init small_mbi 0x100FF0 0x100000 boot_state = Some s' \<and> 0x101000 \<in> free_frames s'"
proof -
  have "frame_no (0x101028 - 1) = 257" by (simp add: frame_no_def)
  then show ?thesis
    using pmm_init_frees_mbi_tail [of small_mbi "0x100FF0" "0x100000" boot_state "0x101028"]
      small_mbi_ok small_mbi_avail
    by (simp add: small_mbi_loads boot_state_def MAX_FRAMES_def)
qed

end
