(* ===== verification/Kmalloc.thy ===== *)
theory Kmalloc
  imports Pmm
begin

text \<open>
  The kernel heap (src/kernel/kmalloc.c): a singly linked list of block headers that tile the
  16 MiB from \<open>HEAP_START\<close>, first fit with splitting on allocation, and coalescing of free
  neighbours on release. A header is a typed cell at its address; the tiling invariant below
  keeps the 24 bytes of different headers, and the payloads between them, apart.
\<close>

section \<open>State\<close>

record kheader =
  hsize :: u64
  is_free :: bool
  next_hdr :: u64

record kmalloc_stats =
  alloc_count :: u64
  free_count :: u64
  live_allocations :: u64
  bytes_used :: u64
  peak_bytes_used :: u64
  bytes_free :: u64
  largest_free_block :: u64
  failed_allocations :: u64

record kmalloc_state =
  headers :: "u64 \<Rightarrow> kheader"
  free_list_head :: u64
  kstats :: kmalloc_stats

definition HEAP_START :: u64 where
  "HEAP_START = 0x1000000"

definition HEAP_SIZE :: u64 where
  "HEAP_SIZE = 0x1000000"

text \<open>\<open>sizeof(struct kmalloc_header)\<close> on x86_64: 8, 4 with 4 of padding, 8.\<close>

definition HDR :: u64 where
  "HDR = 24"

section \<open>Operations\<close>

definition kmalloc_init :: "kmalloc_state \<Rightarrow> pmm_state \<Rightarrow> (kmalloc_state \<times> pmm_state) option" where
  "kmalloc_init s p =
     Option.bind (for_pages (\<lambda>_ p. snd (pmm_alloc_frame p)) HEAP_START (HEAP_START + HEAP_SIZE) p)
       (\<lambda>p'. Some
         (s\<lparr>free_list_head := HEAP_START,
            headers := (headers s)(HEAP_START :=
              \<lparr>hsize = HEAP_SIZE - HDR, is_free = True, next_hdr = 0\<rparr>),
            kstats := \<lparr>alloc_count = 0, free_count = 0, live_allocations = 0, bytes_used = 0,
              peak_bytes_used = 0, bytes_free = HEAP_SIZE - HDR,
              largest_free_block = HEAP_SIZE - HDR, failed_allocations = 0\<rparr>\<rparr>, p'))"

definition round_up8 :: "u64 \<Rightarrow> u64" where
  "round_up8 n = (n + 7) AND NOT 7"

text \<open>The part of \<open>kmalloc\<close> that takes the block at \<open>cur\<close>.\<close>

definition kmalloc_split :: "u64 \<Rightarrow> u64 \<Rightarrow> kmalloc_state \<Rightarrow> kmalloc_state" where
  "kmalloc_split n cur s =
     (let c = headers s cur
      in if hsize c \<ge> n + HDR + 8
         then let new_block = cur + HDR + n
              in s\<lparr>headers := (headers s)
                    (new_block := \<lparr>hsize = hsize c - n - HDR, is_free = True, next_hdr = next_hdr c\<rparr>,
                     cur := c\<lparr>hsize := n, next_hdr := new_block\<rparr>)\<rparr>
         else s)"

definition stats_alloc :: "u64 \<Rightarrow> kmalloc_stats \<Rightarrow> kmalloc_stats" where
  "stats_alloc n st =
     (let used' = bytes_used st + n
      in st\<lparr>alloc_count := alloc_count st + 1, live_allocations := live_allocations st + 1,
            bytes_used := used',
            peak_bytes_used := (if used' > peak_bytes_used st then used' else peak_bytes_used st)\<rparr>)"

definition kmalloc_take :: "u64 \<Rightarrow> u64 \<Rightarrow> kmalloc_state \<Rightarrow> u64 \<times> kmalloc_state" where
  "kmalloc_take n cur s =
     (let s1 = kmalloc_split n cur s;
          s2 = s1\<lparr>headers := (headers s1)(cur := (headers s1 cur)\<lparr>is_free := False\<rparr>)\<rparr>
      in (cur + HDR, s2\<lparr>kstats := stats_alloc (hsize (headers s2 cur)) (kstats s2)\<rparr>))"

text \<open>The list walk follows stored pointers, so that it may not end on a damaged list.\<close>

partial_function (option) kmalloc_walk :: "u64 \<Rightarrow> u64 \<Rightarrow> kmalloc_state \<Rightarrow> (u64 \<times> kmalloc_state) option" where
  "kmalloc_walk n cur s =
     (if cur = 0
      then Some (0, s\<lparr>kstats := (kstats s)\<lparr>failed_allocations := failed_allocations (kstats s) + 1\<rparr>\<rparr>)
      else if is_free (headers s cur) \<and> hsize (headers s cur) \<ge> n
      then Some (kmalloc_take n cur s)
      else kmalloc_walk n (next_hdr (headers s cur)) s)"

definition kmalloc :: "u64 \<Rightarrow> kmalloc_state \<Rightarrow> (u64 \<times> kmalloc_state) option" where
  "kmalloc n s = kmalloc_walk (round_up8 n) (free_list_head s) s"

partial_function (option) merge_free :: "u64 \<Rightarrow> kmalloc_state \<Rightarrow> kmalloc_state option" where
  "merge_free cur s =
     (if cur \<noteq> 0 \<and> next_hdr (headers s cur) \<noteq> 0
      then let c = headers s cur; nx = headers s (next_hdr c)
           in if is_free c \<and> is_free nx
              then merge_free cur
                (s\<lparr>headers := (headers s)(cur := c\<lparr>hsize := hsize c + (hsize nx + HDR), next_hdr := next_hdr nx\<rparr>)\<rparr>)
              else merge_free (next_hdr c) s
      else Some s)"

definition stats_free :: "u64 \<Rightarrow> kmalloc_stats \<Rightarrow> kmalloc_stats" where
  "stats_free n st =
     st\<lparr>free_count := free_count st + 1,
        live_allocations := (if live_allocations st > 0 then live_allocations st - 1 else live_allocations st),
        bytes_used := (if bytes_used st \<ge> n then bytes_used st - n else 0)\<rparr>"

definition kfree :: "u64 \<Rightarrow> kmalloc_state \<Rightarrow> kmalloc_state option" where
  "kfree ptr s =
     (if ptr = 0 then Some s
      else let h = ptr - HDR
           in if is_free (headers s h) then Some s
              else merge_free (free_list_head s)
                (s\<lparr>headers := (headers s)(h := (headers s h)\<lparr>is_free := True\<rparr>),
                   kstats := stats_free (hsize (headers s h)) (kstats s)\<rparr>))"

partial_function (option) sum_free :: "u64 \<Rightarrow> kmalloc_state \<Rightarrow> u64 \<times> u64 \<Rightarrow> (u64 \<times> u64) option" where
  "sum_free cur s acc =
     (if cur = 0 then Some acc
      else let c = headers s cur
           in sum_free (next_hdr c) s
                (if is_free c
                 then (fst acc + hsize c, if hsize c > snd acc then hsize c else snd acc)
                 else acc))"

definition kmalloc_get_stats :: "kmalloc_state \<Rightarrow> (kmalloc_stats \<times> kmalloc_state) option" where
  "kmalloc_get_stats s =
     map_option (\<lambda>(total, largest).
         let st = (kstats s)\<lparr>bytes_free := total, largest_free_block := largest\<rparr>
         in (st, s\<lparr>kstats := st\<rparr>))
       (sum_free (free_list_head s) s (0, 0))"

section \<open>The abstract heap\<close>

text \<open>
  A heap is the list of its blocks in address order, each a payload size and a free flag;
  addresses follow from the sizes. \<open>first_fit\<close> and \<open>coalesce\<close> are the specification of
  allocation and release on it.
\<close>

type_synonym blk = "nat \<times> bool"

fun span :: "blk list \<Rightarrow> nat" where
  "span [] = 0"
| "span ((n, f) # bs) = 24 + n + span bs"

fun first_fit :: "nat \<Rightarrow> blk list \<Rightarrow> (nat \<times> nat \<times> blk list) option" where
  "first_fit n [] = None"
| "first_fit n ((sz, f) # bs) =
     (if f \<and> n \<le> sz
      then Some (if n + 32 \<le> sz then (0, n, (n, False) # (sz - n - 24, True) # bs)
                 else (0, sz, (sz, False) # bs))
      else map_option (\<lambda>(off, m, bs'). (24 + sz + off, m, (sz, f) # bs')) (first_fit n bs))"

fun coalesce :: "blk list \<Rightarrow> blk list" where
  "coalesce ((a, True) # (b, True) # bs) = coalesce ((a + 24 + b, True) # bs)"
| "coalesce (b # bs) = b # coalesce bs"
| "coalesce [] = []"

fun no_adjacent_free :: "blk list \<Rightarrow> bool" where
  "no_adjacent_free ((_, f) # (m, g) # bs) \<longleftrightarrow> \<not> (f \<and> g) \<and> no_adjacent_free ((m, g) # bs)"
| "no_adjacent_free _ \<longleftrightarrow> True"

definition used_bytes :: "blk list \<Rightarrow> nat" where
  "used_bytes bs = sum_list (map fst (filter (\<lambda>b. \<not> snd b) bs))"

definition used_count :: "blk list \<Rightarrow> nat" where
  "used_count bs = length (filter (\<lambda>b. \<not> snd b) bs)"

text \<open>Payload address, size and flag of every block of a heap that starts at \<open>a\<close>.\<close>

fun layout :: "nat \<Rightarrow> blk list \<Rightarrow> (nat \<times> nat \<times> bool) list" where
  "layout a [] = []"
| "layout a ((n, f) # bs) = (a + 24, n, f) # layout (a + 24 + n) bs"

section \<open>The representation invariant\<close>

definition heap_lo :: nat where "heap_lo = 0x1000000"
definition heap_hi :: nat where "heap_hi = 0x2000000"

definition block_ptr :: "nat \<Rightarrow> blk list \<Rightarrow> u64" where
  "block_ptr a bs = (if bs = [] then 0 else of_nat a)"

fun tiles :: "(u64 \<Rightarrow> kheader) \<Rightarrow> nat \<Rightarrow> blk list \<Rightarrow> bool" where
  "tiles hs a [] \<longleftrightarrow> a = heap_hi"
| "tiles hs a ((n, f) # bs) \<longleftrightarrow> n mod 8 = 0 \<and>
     hs (of_nat a) = \<lparr>hsize = of_nat n, is_free = f, next_hdr = block_ptr (a + 24 + n) bs\<rparr> \<and>
     tiles hs (a + 24 + n) bs"

definition heap_ok :: "kmalloc_state \<Rightarrow> blk list \<Rightarrow> bool" where
  "heap_ok s bs \<longleftrightarrow> bs \<noteq> [] \<and> free_list_head s = HEAP_START \<and> tiles (headers s) heap_lo bs \<and>
     no_adjacent_free bs \<and> bytes_used (kstats s) = of_nat (used_bytes bs) \<and>
     live_allocations (kstats s) = of_nat (used_count bs)"

lemma span_append [simp]: "span (xs @ ys) = span xs + span ys"
  by (induction xs rule: span.induct) auto

lemma tiles_span: "tiles hs a bs \<Longrightarrow> a + span bs = heap_hi"
proof (induction bs arbitrary: a rule: span.induct)
  case (2 n f bs)
  then have "a + 24 + n + span bs = heap_hi" by simp
  then show ?case by simp
qed simp

lemma of_nat_heap_eq:
  assumes "x \<le> heap_hi" "y \<le> heap_hi"
  shows "(of_nat x :: u64) = of_nat y \<longleftrightarrow> x = y"
proof -
  have "unat (of_nat x :: u64) = x" "unat (of_nat y :: u64) = y"
    using assms by (auto intro!: unat_of_nat_small simp: heap_hi_def)
  then show ?thesis by metis
qed

lemma tiles_upd_before:
  "tiles hs a bs \<Longrightarrow> x < a \<Longrightarrow> tiles (hs(of_nat x := h)) a bs"
proof (induction bs arbitrary: a rule: span.induct)
  case (2 n f bs)
  have "a \<le> heap_hi" using tiles_span [OF 2(2)] by simp
  then have "(of_nat x :: u64) \<noteq> of_nat a" using 2(3) of_nat_heap_eq [of x a] by simp
  with 2 show ?case by simp
qed simp


section \<open>Allocation refines first fit\<close>

lemma unat_heap: "x \<le> heap_hi \<Longrightarrow> unat (of_nat x :: u64) = x"
  by (intro unat_of_nat_small) (simp add: heap_hi_def)

lemma take_refines:
  assumes t: "tiles (headers s) a ((sz, True) # bs)" and k: "unat n \<le> sz" "unat n mod 8 = 0"
    and ff: "first_fit (unat n) ((sz, True) # bs) = Some (off, m, bs')"
  shows "\<exists>hs'. kmalloc_take n (of_nat a) s =
      (of_nat (a + off + 24), s\<lparr>headers := hs', kstats := stats_alloc (of_nat m) (kstats s)\<rparr>) \<and>
    tiles hs' a bs' \<and> (\<forall>x<a. hs' (of_nat x) = headers s (of_nat x))"
proof -
  define k where "k = unat n"
  have n: "n = of_nat k" by (simp add: k_def)
  have hi: "a + 24 + sz + span bs = heap_hi" using tiles_span [OF t] by simp
  have big: "hsize (headers s (of_nat a)) \<ge> n + HDR + 8 \<longleftrightarrow> k + 32 \<le> sz"
  proof -
    have e: "n + HDR + 8 = of_nat (k + 32)" by (simp add: n HDR_def)
    have "unat (n + HDR + 8) = k + 32"
      unfolding e using k(1) hi by (intro unat_of_nat_small) (simp add: k_def heap_hi_def)
    moreover have "unat (of_nat sz :: u64) = sz" using hi by (intro unat_heap) simp
    ultimately show ?thesis using t by (simp add: word_le_iff_unat)
  qed
  have below: "(of_nat x :: u64) \<noteq> of_nat a" "(of_nat x :: u64) \<noteq> of_nat (a + 24 + k)" if "x < a" for x
    using that hi k(1) of_nat_heap_eq [of x a] of_nat_heap_eq [of x "a + 24 + k"] by (auto simp: k_def)
  show ?thesis
  proof (cases "k + 32 \<le> sz")
    case True
    define hs' where "hs' = (headers s)
      (of_nat (a + 24 + k) := \<lparr>hsize = of_nat (sz - k - 24), is_free = True, next_hdr = block_ptr (a + 24 + sz) bs\<rparr>,
       of_nat a := \<lparr>hsize = of_nat k, is_free = False, next_hdr = of_nat (a + 24 + k)\<rparr>)"
    have ne: "(of_nat (a + 24 + k) :: u64) \<noteq> of_nat a"
      using True hi of_nat_heap_eq [of "a + 24 + k" a] by simp
    have res: "off = 0" "m = k" "bs' = (k, False) # (sz - k - 24, True) # bs"
      using ff k True by (auto simp: k_def)
    have "kmalloc_take n (of_nat a) s =
        (of_nat (a + off + 24), s\<lparr>headers := hs', kstats := stats_alloc (of_nat m) (kstats s)\<rparr>)"
      using big True t res ne
      by (simp add: kmalloc_take_def kmalloc_split_def Let_def n HDR_def hs'_def of_nat_diff diff_diff_eq ac_simps)
    moreover have "tiles hs' a bs'"
    proof -
      have "sz mod 8 = 0" using t by simp
      then have mods: "(sz - k - 24) mod 8 = 0" "k mod 8 = 0" using k(2) True by (auto simp: k_def)
      have "tiles hs' (a + 24 + sz) bs"
        unfolding hs'_def by (intro tiles_upd_before) (use t True in auto)
      moreover have "hs' (of_nat a) = \<lparr>hsize = of_nat k, is_free = False, next_hdr = of_nat (a + 24 + k)\<rparr>"
        "hs' (of_nat (a + 24 + k)) = \<lparr>hsize = of_nat (sz - k - 24), is_free = True,
           next_hdr = block_ptr (a + 24 + sz) bs\<rparr>"
        using ne by (simp_all add: hs'_def)
      moreover have "a + 24 + k + 24 + (sz - k - 24) = a + 24 + sz" using True by simp
      ultimately show ?thesis
        using mods by (simp only: res tiles.simps) (simp add: block_ptr_def)
    qed
    moreover have "\<forall>x<a. hs' (of_nat x) = headers s (of_nat x)" using below by (simp add: hs'_def)
    ultimately show ?thesis by blast
  next
    case False
    define hs' where "hs' = (headers s)(of_nat a := (headers s (of_nat a))\<lparr>is_free := False\<rparr>)"
    have res: "off = 0" "m = sz" "bs' = (sz, False) # bs" using ff k False by (auto simp: k_def)
    have "kmalloc_take n (of_nat a) s =
        (of_nat (a + off + 24), s\<lparr>headers := hs', kstats := stats_alloc (of_nat m) (kstats s)\<rparr>)"
      using big False t res
      by (simp add: kmalloc_take_def kmalloc_split_def Let_def HDR_def hs'_def ac_simps)
    moreover have "tiles hs' a bs'"
      using t tiles_upd_before [of "headers s" "a + 24 + sz" bs a] by (simp add: res hs'_def)
    moreover have "\<forall>x<a. hs' (of_nat x) = headers s (of_nat x)" using below by (simp add: hs'_def)
    ultimately show ?thesis by blast
  qed
qed


lemma first_fit_nonempty: "first_fit n bs = Some (off, m, bs') \<Longrightarrow> bs \<noteq> [] \<and> bs' \<noteq> []"
  by (induction bs arbitrary: off bs' rule: span.induct) (auto split: if_splits)

lemma walk_refines:
  assumes "tiles (headers s) a bs" "heap_lo \<le> a" "unat n mod 8 = 0"
  shows "case first_fit (unat n) bs of
      None \<Rightarrow> kmalloc_walk n (block_ptr a bs) s =
        Some (0, s\<lparr>kstats := (kstats s)\<lparr>failed_allocations := failed_allocations (kstats s) + 1\<rparr>\<rparr>)
    | Some (off, m, bs') \<Rightarrow> \<exists>hs'. kmalloc_walk n (block_ptr a bs) s =
          Some (of_nat (a + off + 24), s\<lparr>headers := hs', kstats := stats_alloc (of_nat m) (kstats s)\<rparr>) \<and>
        tiles hs' a bs' \<and> (\<forall>x<a. hs' (of_nat x) = headers s (of_nat x))"
  using assms(1,2)
proof (induction bs arbitrary: a)
  case Nil
  then show ?case by (subst kmalloc_walk.simps) (simp add: block_ptr_def)
next
  case (Cons b bs)
  obtain sz f where b: "b = (sz, f)" by fastforce
  have hi: "a + 24 + sz + span bs = heap_hi" using tiles_span [OF Cons.prems(1)] b by simp
  have cur: "(of_nat a :: u64) \<noteq> 0"
    using of_nat_heap_eq [of a 0] hi Cons.prems(2) by (simp add: heap_lo_def)
  have hdr: "headers s (of_nat a) = \<lparr>hsize = of_nat sz, is_free = f, next_hdr = block_ptr (a + 24 + sz) bs\<rparr>"
    and t: "tiles (headers s) (a + 24 + sz) bs"
    using Cons.prems(1) b by auto
  have cmp: "(of_nat sz :: u64) \<ge> n \<longleftrightarrow> unat n \<le> sz"
    using hi unat_heap [of sz] by (simp add: word_le_iff_unat)
  have step: "kmalloc_walk n (block_ptr a (b # bs)) s =
      (if f \<and> unat n \<le> sz then Some (kmalloc_take n (of_nat a) s)
       else kmalloc_walk n (block_ptr (a + 24 + sz) bs) s)"
    by (subst kmalloc_walk.simps) (simp add: block_ptr_def cur hdr cmp)
  show ?case
  proof (cases "f \<and> unat n \<le> sz")
    case True
    obtain off m bs' where ff: "first_fit (unat n) (b # bs) = Some (off, m, bs')"
      using True b by (cases "unat n + 32 \<le> sz") auto
    with take_refines [of s a sz bs n off m bs'] Cons.prems(1) True b assms(3)
    show ?thesis using step by (simp add: b)
  next
    case False
    show ?thesis
    proof (cases "first_fit (unat n) bs")
      case None
      then show ?thesis using Cons.IH [OF t] Cons.prems(2) False step by (auto simp: b)
    next
      case (Some r)
      obtain off m bs' where r: "r = (off, m, bs')" by (cases r)
      obtain hs' where hs': "kmalloc_walk n (block_ptr (a + 24 + sz) bs) s =
            Some (of_nat (a + 24 + sz + off + 24), s\<lparr>headers := hs', kstats := stats_alloc (of_nat m) (kstats s)\<rparr>)"
          "tiles hs' (a + 24 + sz) bs'" "\<forall>x<a + 24 + sz. hs' (of_nat x) = headers s (of_nat x)"
        using Cons.IH [OF t] Cons.prems(2) Some r by auto
      have "bs \<noteq> []" "bs' \<noteq> []" using Some r first_fit_nonempty by auto
      then have "tiles hs' a ((sz, f) # bs')"
        using hs'(2,3) hdr Cons.prems(1) b by (simp add: block_ptr_def)
      moreover have "\<not> (f \<and> unat n \<le> sz)" using False .
      ultimately show ?thesis using Some r hs' False step
        by (auto simp: b add.assoc add.commute add.left_commute)
    qed
  qed
qed


section \<open>Release refines coalescing\<close>

lemma coalesce_induct [case_names merge skip single skip_next nil]:
  assumes "\<And>n m bs. P ((n + 24 + m, True) # bs) \<Longrightarrow> P ((n, True) # (m, True) # bs)"
    and "\<And>n bs. P bs \<Longrightarrow> P ((n, False) # bs)"
    and "\<And>b. P [] \<Longrightarrow> P [b]"
    and "\<And>b m bs. P ((m, False) # bs) \<Longrightarrow> P (b # (m, False) # bs)"
    and "P []"
  shows "P (bs :: blk list)"
  using assms by (rule coalesce.induct [of P])

lemma coalesce_nonempty: "bs \<noteq> [] \<Longrightarrow> coalesce bs \<noteq> []"
  by (induction bs rule: coalesce_induct) auto

lemma merge_skip:
  assumes t: "tiles (headers s) a ((n, f) # bs)" and lo: "heap_lo \<le> a"
    and not: "bs \<noteq> [] \<Longrightarrow> \<not> (f \<and> snd (hd bs))"
    and IH: "\<exists>hs'. merge_free (block_ptr (a + 24 + n) bs) s = Some (s\<lparr>headers := hs'\<rparr>) \<and>
      tiles hs' (a + 24 + n) (coalesce bs) \<and> (\<forall>x<a + 24 + n. hs' (of_nat x) = headers s (of_nat x))"
  shows "\<exists>hs'. merge_free (block_ptr a ((n, f) # bs)) s = Some (s\<lparr>headers := hs'\<rparr>) \<and>
      tiles hs' a ((n, f) # coalesce bs) \<and> (\<forall>x<a. hs' (of_nat x) = headers s (of_nat x))"
proof -
  have hi: "a + 24 + n + span bs = heap_hi" using tiles_span [OF t] by simp
  have ne: "(of_nat a :: u64) \<noteq> 0" "(of_nat (a + 24 + n) :: u64) \<noteq> 0"
    using of_nat_heap_eq [of a 0] of_nat_heap_eq [of "a + 24 + n" 0] hi lo by (auto simp: heap_lo_def)
  have h1: "headers s (of_nat a) = \<lparr>hsize = of_nat n, is_free = f, next_hdr = block_ptr (a + 24 + n) bs\<rparr>"
    using t by simp
  have h2: "is_free (headers s (of_nat (a + 24 + n))) = snd (hd bs)" if "bs \<noteq> []"
    using t that by (cases bs) auto
  have step: "merge_free (block_ptr a ((n, f) # bs)) s = merge_free (block_ptr (a + 24 + n) bs) s"
  proof (cases "bs = []")
    case True
    then show ?thesis
      by (simp add: block_ptr_def) (subst merge_free.simps, subst merge_free.simps, use h1 in \<open>simp add: block_ptr_def\<close>)
  next
    case False
    with ne h1 h2 not show ?thesis
      unfolding block_ptr_def by (subst merge_free.simps) (auto simp: Let_def block_ptr_def)
  qed
  obtain hs' where hs': "merge_free (block_ptr (a + 24 + n) bs) s = Some (s\<lparr>headers := hs'\<rparr>)"
      "tiles hs' (a + 24 + n) (coalesce bs)" "\<forall>x<a + 24 + n. hs' (of_nat x) = headers s (of_nat x)"
    using IH by blast
  have "coalesce bs = [] \<longleftrightarrow> bs = []" using coalesce_nonempty by force
  then have "tiles hs' a ((n, f) # coalesce bs)"
    using hs' h1 t by (simp add: block_ptr_def)
  with hs' step show ?thesis by auto
qed

lemma merge_refines:
  assumes "tiles (headers s) a bs" "heap_lo \<le> a"
  shows "\<exists>hs'. merge_free (block_ptr a bs) s = Some (s\<lparr>headers := hs'\<rparr>) \<and> tiles hs' a (coalesce bs) \<and>
    (\<forall>x<a. hs' (of_nat x) = headers s (of_nat x))"
  using assms
proof (induction bs arbitrary: a s rule: coalesce_induct)
  case (merge n m bs)
  let ?h = "headers s (of_nat a)"
  have hi: "a + 24 + n + 24 + m + span bs = heap_hi" using tiles_span [OF merge(2)] by simp
  have ne: "(of_nat a :: u64) \<noteq> 0" "(of_nat (a + 24 + n) :: u64) \<noteq> 0"
    using of_nat_heap_eq [of a 0] of_nat_heap_eq [of "a + 24 + n" 0] hi merge(3) by (auto simp: heap_lo_def)
  have h1: "?h = \<lparr>hsize = of_nat n, is_free = True, next_hdr = of_nat (a + 24 + n)\<rparr>"
    and h2: "headers s (of_nat (a + 24 + n)) =
      \<lparr>hsize = of_nat m, is_free = True, next_hdr = block_ptr (a + 24 + n + 24 + m) bs\<rparr>"
    and t: "tiles (headers s) (a + 24 + n + 24 + m) bs" and mods: "n mod 8 = 0" "m mod 8 = 0"
    using merge(2) by (auto simp: block_ptr_def add.assoc)
  define h' where "h' = \<lparr>hsize = of_nat (n + 24 + m), is_free = True,
    next_hdr = block_ptr (a + 24 + n + 24 + m) bs\<rparr>"
  have step: "merge_free (block_ptr a ((n, True) # (m, True) # bs)) s =
      merge_free (block_ptr a ((n + 24 + m, True) # bs)) (s\<lparr>headers := (headers s)(of_nat a := h')\<rparr>)"
    unfolding block_ptr_def
    by (subst merge_free.simps) (use ne h1 h2 in \<open>simp add: Let_def h'_def HDR_def ac_simps\<close>)
  have "(n + 24 + m) mod 8 = 0" using mods by presburger
  then have tl: "tiles ((headers s)(of_nat a := h')) a ((n + 24 + m, True) # bs)"
    using tiles_upd_before [OF t, of a] by (simp add: h'_def add.assoc)
  define u where "u = s\<lparr>headers := (headers s)(of_nat a := h')\<rparr>"
  have "headers u = (headers s)(of_nat a := h')" by (simp add: u_def)
  with tl have "tiles (headers u) a ((n + 24 + m, True) # bs)" by (simp only:)
  from merge(1) [OF this merge(3)] obtain hs' where
      "merge_free (block_ptr a ((n + 24 + m, True) # bs)) u = Some (s\<lparr>headers := hs'\<rparr>)"
      "tiles hs' a (coalesce ((n + 24 + m, True) # bs))" "\<forall>x<a. hs' (of_nat x) = headers u (of_nat x)"
    by (auto simp: u_def)
  moreover have "(of_nat x :: u64) \<noteq> of_nat a" if "x < a" for x
    using that hi of_nat_heap_eq [of x a] by simp
  ultimately show ?case unfolding step by (auto simp: u_def)
next
  case (skip n bs)
  show ?case unfolding coalesce.simps
    by (rule merge_skip) (use skip(2,3) skip(1) [of s "a + 24 + n"] in simp_all)
next
  case (single b)
  obtain n f where b: "b = (n, f)" by fastforce
  show ?case unfolding b coalesce.simps(3)
    by (rule merge_skip) (use single(2,3) single(1) [of s "a + 24 + n"] in \<open>simp_all add: b\<close>)
next
  case (skip_next b m bs)
  obtain n f where b: "b = (n, f)" by fastforce
  show ?case unfolding b coalesce.simps(4)
    by (rule merge_skip) (use skip_next(2,3) skip_next(1) [of s "a + 24 + n"] in \<open>simp_all add: b\<close>)
next
  case nil
  then show ?case by (subst merge_free.simps) (auto simp: block_ptr_def intro: exI [of _ "headers s"])
qed


text \<open>Marking one block free where it stands.\<close>

lemma tiles_at:
  "tiles hs a (pre @ (n, f) # post) \<Longrightarrow>
   hs (of_nat (a + span pre)) =
     \<lparr>hsize = of_nat n, is_free = f, next_hdr = block_ptr (a + span pre + 24 + n) post\<rparr>"
proof (induction pre arbitrary: a rule: span.induct)
  case (2 m h pre)
  from 2(1) [of "a + 24 + m"] 2(2) show ?case by (simp add: add.assoc)
qed simp

lemma tiles_mark:
  "tiles hs a (pre @ (n, f) # post) \<Longrightarrow>
   tiles (hs(of_nat (a + span pre) := (hs (of_nat (a + span pre)))\<lparr>is_free := g\<rparr>)) a (pre @ (n, g) # post)"
proof (induction pre arbitrary: a rule: span.induct)
  case 1
  then have "tiles (hs(of_nat a := h)) (a + 24 + n) post" for h by (auto intro: tiles_upd_before)
  with 1 show ?case by (simp del: fun_upd_apply add: fun_upd_same)
next
  case (2 m h pre)
  let ?x = "a + 24 + m + span pre"
  have "a + 24 + m + span pre + 24 + n + span post = heap_hi"
    using tiles_span [of hs "a + 24 + m" "pre @ (n, f) # post"] 2(2) by (simp add: span_append)
  then have "(of_nat ?x :: u64) \<noteq> of_nat a" using of_nat_heap_eq [of ?x a] by simp
  then show ?case using 2(1) [of "a + 24 + m"] 2(2) by (simp add: add.assoc block_ptr_def)
qed

section \<open>What the specification does to the live blocks\<close>

definition live :: "nat \<Rightarrow> blk list \<Rightarrow> (nat \<times> nat) set" where
  "live a bs = {(p, n). (p, n, False) \<in> set (layout a bs)}"

lemma layout_append: "layout a (xs @ ys) = layout a xs @ layout (a + span xs) ys"
  by (induction xs arbitrary: a rule: span.induct) (auto simp: add.assoc)

lemma layout_bounds: "(p, n, f) \<in> set (layout a bs) \<Longrightarrow> a + 24 \<le> p \<and> p + n \<le> a + span bs"
  by (induction bs arbitrary: a rule: span.induct) force+

lemma layout_disjoint:
  "(p, n, f) \<in> set (layout a bs) \<Longrightarrow> (q, m, g) \<in> set (layout a bs) \<Longrightarrow> p \<noteq> q \<Longrightarrow>
   p + n + 24 \<le> q \<or> q + m + 24 \<le> p"
proof (induction bs arbitrary: a rule: span.induct)
  case (2 k h bs)
  then show ?case using layout_bounds [of p n f "a + 24 + k" bs] layout_bounds [of q m g "a + 24 + k" bs]
    by auto
qed simp

lemma layout_inj:
  "(p, n, f) \<in> set (layout a bs) \<Longrightarrow> (p, m, g) \<in> set (layout a bs) \<Longrightarrow> n = m \<and> f = g"
proof (induction bs arbitrary: a rule: span.induct)
  case (2 k h bs)
  then show ?case using layout_bounds [of p n f "a + 24 + k" bs] layout_bounds [of p m g "a + 24 + k" bs]
    by auto
qed simp

lemma live_simps [simp]:
  "live a [] = {}"
  "live a ((n, True) # bs) = live (a + 24 + n) bs"
  "live a ((n, False) # bs) = insert (a + 24, n) (live (a + 24 + n) bs)"
  by (auto simp: live_def)

lemma live_append: "live a (xs @ ys) = live a xs \<union> live (a + span xs) ys"
  by (auto simp: live_def layout_append)

lemma live_coalesce: "live a (coalesce bs) = live a bs"
proof (induction bs arbitrary: a rule: coalesce_induct)
  case (merge n m bs)
  from merge [of a] show ?case by (simp add: ac_simps)
next
  case (single b)
  then show ?case by (cases b) simp
next
  case (skip_next b m bs)
  obtain n f where b: "b = (n, f)" by fastforce
  from skip_next [of "a + 24 + n"] show ?case unfolding b by (cases f) simp_all
qed simp_all

lemma first_fit_live:
  "first_fit n bs = Some (off, m, bs') \<Longrightarrow>
   live a bs' = insert (a + off + 24, m) (live a bs) \<and> (a + off + 24, m, False) \<in> set (layout a bs') \<and>
   (\<forall>k. (a + off + 24, k) \<notin> live a bs) \<and> n \<le> m \<and> span bs' = span bs"
proof (induction bs arbitrary: a off bs' rule: span.induct)
  case (2 k f bs)
  show ?case
  proof (cases "f \<and> n \<le> k")
    case True
    have "(a + 24, j) \<notin> live (a + 24 + k) bs" for j
      using layout_bounds [of "a + 24" j False "a + 24 + k" bs] by (auto simp: live_def)
    with 2(2) True show ?thesis by (auto split: if_splits simp: ac_simps)
  next
    case False
    then obtain o' bs1 where o': "first_fit n bs = Some (o', m, bs1)" "off = 24 + k + o'" "bs' = (k, f) # bs1"
      using 2(2) by auto
    from 2(1) [OF o'(1), of "a + 24 + k"] show ?thesis
      by (cases f) (auto simp: o' ac_simps)
  qed
qed simp

lemma first_fit_none: "first_fit n bs = None \<longleftrightarrow> (\<forall>(k, f)\<in>set bs. f \<longrightarrow> k < n)"
  by (induction bs rule: span.induct) auto

lemma no_adjacent_cons:
  "no_adjacent_free (b # bs) \<longleftrightarrow> (bs = [] \<or> \<not> (snd b \<and> snd (hd bs))) \<and> no_adjacent_free bs"
  by (cases b; cases bs) auto

lemma first_fit_no_adjacent:
  "first_fit n bs = Some (off, m, bs') \<Longrightarrow> no_adjacent_free bs \<Longrightarrow>
   no_adjacent_free bs' \<and> (snd (hd bs') \<longrightarrow> snd (hd bs))"
proof (induction bs arbitrary: off bs' rule: span.induct)
  case (2 k f bs)
  show ?case
  proof (cases "f \<and> n \<le> k")
    case True
    with 2 show ?thesis by (cases bs) (auto split: if_splits)
  next
    case False
    then obtain o' bs1 where o': "first_fit n bs = Some (o', m, bs1)" "bs' = (k, f) # bs1"
      using 2(2) by auto
    moreover have "bs \<noteq> []" "bs1 \<noteq> []" using first_fit_nonempty [OF o'(1)] by auto
    moreover have "no_adjacent_free bs" using 2(3) \<open>bs \<noteq> []\<close> by (cases bs) auto
    ultimately show ?thesis using 2(1) [OF o'(1)] 2(3) by (cases bs; cases bs1) auto
  qed
qed simp

lemma first_fit_counts:
  "first_fit n bs = Some (off, m, bs') \<Longrightarrow>
   used_bytes bs' = used_bytes bs + m \<and> used_count bs' = used_count bs + 1"
  by (induction bs arbitrary: off bs' rule: span.induct)
     (auto simp: used_bytes_def used_count_def split: if_splits)

lemma coalesce_no_adjacent: "no_adjacent_free (coalesce bs)"
proof -
  have "no_adjacent_free (coalesce bs) \<and> (bs \<noteq> [] \<and> snd (hd (coalesce bs)) \<longrightarrow> snd (hd bs))"
    by (induction bs rule: coalesce_induct) (auto simp: no_adjacent_cons coalesce_nonempty)
  then show ?thesis by simp
qed

lemma coalesce_counts: "used_bytes (coalesce bs) = used_bytes bs \<and> used_count (coalesce bs) = used_count bs"
  by (induction bs rule: coalesce_induct) (auto simp: used_bytes_def used_count_def)


section \<open>The operations on well-formed heaps\<close>

lemma counts_bounded: "used_bytes bs + 24 * used_count bs \<le> span bs"
  by (induction bs rule: span.induct) (auto simp: used_bytes_def used_count_def)

lemma heap_span: "heap_ok s bs \<Longrightarrow> span bs = heap_hi - heap_lo"
  using tiles_span [of "headers s" heap_lo bs] by (simp add: heap_ok_def)

lemma head_ptr: "bs \<noteq> [] \<Longrightarrow> block_ptr heap_lo bs = HEAP_START"
  by (simp add: block_ptr_def HEAP_START_def heap_lo_def)

lemma round_up8_unat: "unat n + 7 < 2 ^ 64 \<Longrightarrow> unat (round_up8 n) = (unat n + 7) div 8 * 8"
  unfolding round_up8_def by (subst unat_and_not_7) (simp_all add: unat_plus_no_wrap)

lemma round_up8_mod: "unat (round_up8 n) mod 8 = 0"
  unfolding round_up8_def by (subst unat_and_not_7) simp_all

lemma kmalloc_refines:
  assumes "heap_ok s bs"
  shows "case first_fit (unat (round_up8 n)) bs of
      None \<Rightarrow> \<exists>s'. kmalloc n s = Some (0, s') \<and> heap_ok s' bs
    | Some (off, m, bs') \<Rightarrow> \<exists>s'. kmalloc n s = Some (of_nat (heap_lo + off + 24), s') \<and> heap_ok s' bs'"
proof -
  have t: "tiles (headers s) heap_lo bs" and ne: "bs \<noteq> []" using assms by (auto simp: heap_ok_def)
  have start: "kmalloc n s = kmalloc_walk (round_up8 n) (block_ptr heap_lo bs) s"
    using assms by (simp add: kmalloc_def heap_ok_def head_ptr)
  note walk = walk_refines [OF t order_refl round_up8_mod, of n]
  show ?thesis
  proof (cases "first_fit (unat (round_up8 n)) bs")
    case None
    with walk assms show ?thesis by (simp add: start heap_ok_def)
  next
    case (Some r)
    obtain off m bs' where r: "r = (off, m, bs')" by (cases r)
    with walk Some obtain hs' where hs': "kmalloc n s =
        Some (of_nat (heap_lo + off + 24), s\<lparr>headers := hs', kstats := stats_alloc (of_nat m) (kstats s)\<rparr>)"
      "tiles hs' heap_lo bs'" by (auto simp: start)
    have "heap_ok (s\<lparr>headers := hs', kstats := stats_alloc (of_nat m) (kstats s)\<rparr>) bs'"
      using assms hs'(2) first_fit_nonempty first_fit_no_adjacent first_fit_counts Some r
      by (fastforce simp: heap_ok_def stats_alloc_def Let_def)
    with hs'(1) Some r show ?thesis by auto
  qed
qed

lemma kfree_refines:
  assumes ok: "heap_ok s (pre @ (n, f) # post)"
  shows "\<exists>s'. kfree (of_nat (heap_lo + span pre + 24)) s = Some s' \<and>
    heap_ok s' (if f then pre @ (n, f) # post else coalesce (pre @ (n, True) # post))"
proof -
  let ?bs = "pre @ (n, f) # post"
  define x where "x = heap_lo + span pre"
  have hi: "x + 24 + n + span post = heap_hi"
    using heap_span [OF ok] by (simp add: x_def heap_hi_def heap_lo_def)
  have t: "tiles (headers s) heap_lo ?bs" using ok by (simp add: heap_ok_def)
  note hdr = tiles_at [OF t, folded x_def]
  have ptr: "(of_nat (x + 24) :: u64) \<noteq> 0" "(of_nat (x + 24) :: u64) - HDR = of_nat x"
    using of_nat_heap_eq [of "x + 24" 0] hi by (simp_all add: HDR_def)
  show ?thesis
  proof (cases f)
    case True
    with ok hdr ptr show ?thesis unfolding x_def [symmetric] by (simp add: kfree_def del: of_nat_add)
  next
    case False
    define hs1 where "hs1 = (headers s)(of_nat x := (headers s (of_nat x))\<lparr>is_free := True\<rparr>)"
    define s1 where "s1 = s\<lparr>headers := hs1, kstats := stats_free (of_nat n) (kstats s)\<rparr>"
    have "tiles (headers s1) heap_lo (pre @ (n, True) # post)"
      using tiles_mark [OF t, of True, folded x_def] by (simp add: s1_def hs1_def)
    from merge_refines [OF this order_refl] obtain hs' where
      hs': "merge_free (block_ptr heap_lo (pre @ (n, True) # post)) s1 = Some (s1\<lparr>headers := hs'\<rparr>)"
        "tiles hs' heap_lo (coalesce (pre @ (n, True) # post))" by blast
    have run: "kfree (of_nat (x + 24)) s = Some (s1\<lparr>headers := hs'\<rparr>)"
      using hs'(1) ok False hdr ptr
      by (simp add: kfree_def Let_def s1_def hs1_def heap_ok_def head_ptr del: of_nat_add)
    define cs where "cs = pre @ (n, True) # post"
    have counts: "used_bytes ?bs = used_bytes cs + n" "used_count ?bs = used_count cs + 1"
      using False by (simp_all add: cs_def used_bytes_def used_count_def)
    have small: "used_bytes ?bs < 2 ^ 64" "used_count ?bs < 2 ^ 64"
      using counts_bounded [of ?bs] heap_span [OF ok] by (simp_all add: heap_hi_def heap_lo_def)
    have "n < 2 ^ 64" "0 < used_count ?bs" using small counts by simp_all
    then have w: "(of_nat n :: u64) \<le> of_nat (used_bytes ?bs)" "(of_nat (used_count ?bs) :: u64) > 0"
      using small unat_of_nat_small [of "used_bytes ?bs", where 'a = 64]
        unat_of_nat_small [of "used_count ?bs", where 'a = 64] counts(1)
      by (simp_all add: word_le_iff_unat word_less_iff_unat unat_of_nat_small)
    have "heap_ok (s1\<lparr>headers := hs'\<rparr>) (coalesce cs)"
      using ok hs'(2) w counts coalesce_no_adjacent [of cs] coalesce_counts [of cs] coalesce_nonempty [of cs]
      by (simp add: heap_ok_def s1_def stats_free_def cs_def)
    with run False show ?thesis unfolding x_def [symmetric] cs_def by auto
  qed
qed

lemma tiles_unique: "tiles hs a bs \<Longrightarrow> tiles hs a cs \<Longrightarrow> bs = cs"
proof (induction bs arbitrary: a cs rule: span.induct)
  case 1
  then show ?case using tiles_span [of hs a cs] by (cases cs) auto
next
  case (2 n f bs)
  have "a + 24 + n + span bs = heap_hi" using tiles_span [OF 2(2)] by simp
  then obtain m g ds where cs: "cs = (m, g) # ds" using 2(3) by (cases cs) auto
  have "a + 24 + m + span ds = heap_hi" using tiles_span [OF 2(3)] cs by simp
  moreover have "(of_nat n :: u64) = of_nat m" "f = g" using 2(2,3) cs by auto
  ultimately have "n = m" using of_nat_heap_eq [of n m] \<open>a + 24 + n + span bs = heap_hi\<close> by simp
  with \<open>f = g\<close> 2(2,3) 2(1) [of "a + 24 + n" ds] cs show ?case by simp
qed

lemma heap_ok_unique: "heap_ok s bs \<Longrightarrow> heap_ok s cs \<Longrightarrow> bs = cs"
  by (auto simp: heap_ok_def intro: tiles_unique)


section \<open>The interface of an allocator\<close>

datatype heap_call = Malloc u64 | Free u64

locale heap_allocator =
  fixes malloc :: "u64 \<Rightarrow> 's \<Rightarrow> (u64 \<times> 's) option"
    and free :: "u64 \<Rightarrow> 's \<Rightarrow> 's option"
    and blocks :: "'s \<Rightarrow> (nat \<times> nat) set"
    and inv :: "'s \<Rightarrow> bool"
    and fits :: "u64 \<Rightarrow> nat \<Rightarrow> bool"
  assumes malloc_returns: "inv s \<Longrightarrow> \<exists>p s'. malloc n s = Some (p, s') \<and> inv s'"
    and malloc_null: "inv s \<Longrightarrow> malloc n s = Some (0, s') \<Longrightarrow> blocks s' = blocks s"
    and malloc_block: "inv s \<Longrightarrow> malloc n s = Some (p, s') \<Longrightarrow> p \<noteq> 0 \<Longrightarrow>
      \<exists>m. fits n m \<and> blocks s' = insert (unat p, m) (blocks s) \<and> (\<forall>k. (unat p, k) \<notin> blocks s)"
    and free_block: "inv s \<Longrightarrow> (unat p, m) \<in> blocks s \<Longrightarrow>
      \<exists>s'. free p s = Some s' \<and> inv s' \<and> blocks s' = blocks s - {(unat p, m)}"
    and blocks_apart: "inv s \<Longrightarrow> (x, i) \<in> blocks s \<Longrightarrow> (y, j) \<in> blocks s \<Longrightarrow> (x, i) \<noteq> (y, j) \<Longrightarrow>
      x + i < y \<or> y + j < x"
begin

text \<open>A call sequence that releases only what is live at that moment.\<close>

fun exec :: "heap_call \<Rightarrow> 's \<Rightarrow> 's option" where
  "exec (Malloc n) s = map_option snd (malloc n s)"
| "exec (Free p) s = free p s"

inductive runs :: "heap_call list \<Rightarrow> 's \<Rightarrow> 's \<Rightarrow> bool" where
  runs_nil: "runs [] s s"
| runs_malloc: "malloc n s = Some (p, s1) \<Longrightarrow> runs cs s1 s' \<Longrightarrow> runs (Malloc n # cs) s s'"
| runs_free: "(unat p, m) \<in> blocks s \<Longrightarrow> free p s = Some s1 \<Longrightarrow> runs cs s1 s' \<Longrightarrow> runs (Free p # cs) s s'"

lemma runs_keep:
  "runs cs s s' \<Longrightarrow> inv s \<Longrightarrow> (unat a, k) \<in> blocks s \<Longrightarrow> Free a \<notin> set cs \<Longrightarrow>
   inv s' \<and> (unat a, k) \<in> blocks s'"
proof (induction rule: runs.induct)
  case (runs_malloc n s p s1 cs s')
  obtain p' t where "malloc n s = Some (p', t)" "inv t" using malloc_returns runs_malloc.prems(1) by blast
  then have "inv s1" using runs_malloc(1) by simp
  moreover have "(unat a, k) \<in> blocks s1"
    using malloc_null [OF runs_malloc.prems(1)] malloc_block [OF runs_malloc.prems(1) runs_malloc(1)]
      runs_malloc(1) runs_malloc.prems(2) by (cases "p = 0") auto
  ultimately show ?case using runs_malloc by auto
next
  case (runs_free p m s s1 cs s')
  then have "inv s1 \<and> blocks s1 = blocks s - {(unat p, m)}" using free_block by fastforce
  moreover have "unat a \<noteq> unat p" using runs_free.prems(3) by (auto simp: word_unat_eq_iff)
  ultimately show ?case using runs_free by auto
qed simp

lemma no_overlap:
  assumes "inv s" "malloc n s = Some (a, s1)" "a \<noteq> 0" "runs cs s1 s2" "Free a \<notin> set cs"
    and "malloc m s2 = Some (b, s3)" "b \<noteq> 0"
  shows "\<exists>k l. fits n k \<and> fits m l \<and> (unat a, k) \<in> blocks s3 \<and> (unat b, l) \<in> blocks s3 \<and>
    (unat a + k < unat b \<or> unat b + l < unat a)"
proof -
  obtain k where k: "fits n k" "(unat a, k) \<in> blocks s1" using malloc_block [OF assms(1-3)] by auto
  have "inv s1" using malloc_returns [OF assms(1), of n] assms(2) by auto
  from runs_keep [OF assms(4) this k(2) assms(5)] have s2: "inv s2" "(unat a, k) \<in> blocks s2" by auto
  obtain l where l: "fits m l" "blocks s3 = insert (unat b, l) (blocks s2)" "\<forall>j. (unat b, j) \<notin> blocks s2"
    using malloc_block [OF s2(1) assms(6,7)] by auto
  have "inv s3" using malloc_returns [OF s2(1), of m] assms(6) by auto
  moreover have "(unat a, k) \<noteq> (unat b, l)" using l(3) s2(2) by auto
  ultimately show ?thesis using blocks_apart k(1) l s2(2) by blast
qed

end

definition heap_inv :: "kmalloc_state \<Rightarrow> bool" where
  "heap_inv s \<longleftrightarrow> (\<exists>bs. heap_ok s bs)"

definition heap_live :: "kmalloc_state \<Rightarrow> (nat \<times> nat) set" where
  "heap_live s = {b. \<exists>bs. heap_ok s bs \<and> b \<in> live heap_lo bs}"

definition block_fits :: "u64 \<Rightarrow> nat \<Rightarrow> bool" where
  "block_fits n m \<longleftrightarrow> unat (round_up8 n) \<le> m"

lemma heap_live_ok: "heap_ok s bs \<Longrightarrow> heap_live s = live heap_lo bs"
  using heap_ok_unique by (auto simp: heap_live_def)

lemma live_in_heap: "heap_ok s bs \<Longrightarrow> (p, n) \<in> live heap_lo bs \<Longrightarrow> heap_lo + 24 \<le> p \<and> p + n \<le> heap_hi"
  using layout_bounds [of p n False heap_lo bs] heap_span [of s bs]
  by (auto simp: live_def heap_lo_def heap_hi_def)

lemma kmalloc_cases:
  assumes "heap_ok s bs"
  obtains (null) s' where "kmalloc n s = Some (0, s')" "heap_ok s' bs"
      "\<forall>(k, f)\<in>set bs. f \<longrightarrow> k < unat (round_up8 n)"
  | (block) p m s' bs' where "kmalloc n s = Some (p, s')" "p \<noteq> 0" "heap_ok s' bs'"
      "first_fit (unat (round_up8 n)) bs = Some (unat p - heap_lo - 24, m, bs')"
      "live heap_lo bs' = insert (unat p, m) (live heap_lo bs)" "\<forall>k. (unat p, k) \<notin> live heap_lo bs"
      "unat (round_up8 n) \<le> m" "heap_lo + 24 \<le> unat p"
proof (cases "first_fit (unat (round_up8 n)) bs")
  case None
  with kmalloc_refines [OF assms, of n] null show ?thesis by (auto simp: first_fit_none)
next
  case (Some r)
  obtain off m bs' where r: "r = (off, m, bs')" by (cases r)
  obtain s' where s': "kmalloc n s = Some (of_nat (heap_lo + off + 24), s')" "heap_ok s' bs'"
    using kmalloc_refines [OF assms, of n] Some r by auto
  note ff = first_fit_live [OF Some [unfolded r], of heap_lo]
  have "heap_lo + off + 24 \<le> heap_hi" using live_in_heap [OF s'(2)] ff by force
  then have "unat (of_nat (heap_lo + off + 24) :: u64) = heap_lo + off + 24" by (rule unat_heap)
  moreover from this have "(of_nat (heap_lo + off + 24) :: u64) \<noteq> 0" by (auto simp: heap_lo_def)
  ultimately show ?thesis using block [OF s'(1)] s'(2) ff Some r by simp
qed

lemma live_split: "(p, m) \<in> live a bs \<Longrightarrow> \<exists>pre post. bs = pre @ (m, False) # post \<and> p = a + span pre + 24"
proof (induction bs arbitrary: a rule: span.induct)
  case (2 n f bs)
  show ?case
  proof (cases "(p, m) = (a + 24, n) \<and> \<not> f")
    case True
    then show ?thesis by (intro exI [of _ "[]"] exI [of _ bs]) auto
  next
    case False
    then have "(p, m) \<in> live (a + 24 + n) bs" using 2(2) by (cases f) auto
    with 2(1) obtain pre post where "bs = pre @ (m, False) # post" "p = a + 24 + n + span pre + 24" by blast
    then show ?thesis by (intro exI [of _ "(n, f) # pre"] exI [of _ post]) simp
  qed
qed simp

lemma kfree_live:
  assumes ok: "heap_ok s bs" and l: "(unat p, m) \<in> live heap_lo bs"
  shows "\<exists>s' bs'. kfree p s = Some s' \<and> heap_ok s' bs' \<and> live heap_lo bs' = live heap_lo bs - {(unat p, m)}"
proof -
  obtain pre post where bs: "bs = pre @ (m, False) # post" and p: "unat p = heap_lo + span pre + 24"
    using live_split [OF l] by blast
  have "p = of_nat (unat p)" by simp
  then have "p = of_nat (heap_lo + span pre + 24)" unfolding p .
  then obtain s' where s': "kfree p s = Some s'" "heap_ok s' (coalesce (pre @ (m, True) # post))"
    using kfree_refines [OF ok [unfolded bs]] by auto
  have "(heap_lo + span pre + 24, m) \<notin> live heap_lo (pre @ (m, True) # post)"
    using layout_bounds [of "heap_lo + span pre + 24" m False heap_lo pre]
      layout_bounds [of "heap_lo + span pre + 24" m False "heap_lo + span pre + 24 + m" post]
    by (auto simp: live_append) (auto simp: live_def)
  then have "live heap_lo (coalesce (pre @ (m, True) # post)) = live heap_lo bs - {(unat p, m)}"
    by (auto simp: live_coalesce live_append bs p)
  with s' show ?thesis by blast
qed

lemma heap_blocks_apart:
  assumes "heap_inv s" "(p, n) \<in> heap_live s" "(q, m) \<in> heap_live s" "(p, n) \<noteq> (q, m)"
  shows "p + n < q \<or> q + m < p"
proof -
  obtain bs where "heap_ok s bs" using assms(1) by (auto simp: heap_inv_def)
  then have l: "(p, n, False) \<in> set (layout heap_lo bs)" "(q, m, False) \<in> set (layout heap_lo bs)"
    using assms(2,3) by (auto simp: heap_live_ok live_def)
  then have "p \<noteq> q" using layout_inj [OF l(1), of m False] assms(4) by auto
  from layout_disjoint [OF l this] show ?thesis by linarith
qed

interpretation heap: heap_allocator kmalloc kfree heap_live heap_inv block_fits
proof unfold_locales
  fix s n p q m s'
  show "heap_inv s \<Longrightarrow> \<exists>p s'. kmalloc n s = Some (p, s') \<and> heap_inv s'"
    unfolding heap_inv_def by (elim exE, rule kmalloc_cases) blast+
  show "heap_inv s \<Longrightarrow> kmalloc n s = Some (0, s') \<Longrightarrow> heap_live s' = heap_live s"
    unfolding heap_inv_def by (elim exE, rule kmalloc_cases [of s _ n]) (auto simp: heap_live_ok)
  show "heap_inv s \<Longrightarrow> kmalloc n s = Some (p, s') \<Longrightarrow> p \<noteq> 0 \<Longrightarrow>
      \<exists>m. block_fits n m \<and> heap_live s' = insert (unat p, m) (heap_live s) \<and> (\<forall>k. (unat p, k) \<notin> heap_live s)"
    unfolding heap_inv_def by (elim exE, rule kmalloc_cases [of s _ n]) (auto simp: heap_live_ok block_fits_def)
  show "heap_inv s \<Longrightarrow> (unat p, m) \<in> heap_live s \<Longrightarrow>
      \<exists>s'. kfree p s = Some s' \<and> heap_inv s' \<and> heap_live s' = heap_live s - {(unat p, m)}"
    unfolding heap_inv_def by (elim exE, frule kfree_live [of s _ p m]) (auto simp: heap_live_ok)
next
  fix s p n q m
  show "heap_inv s \<Longrightarrow> (p, n) \<in> heap_live s \<Longrightarrow> (q, m) \<in> heap_live s \<Longrightarrow> (p, n) \<noteq> (q, m) \<Longrightarrow>
      p + n < q \<or> q + m < p"
    by (rule heap_blocks_apart)
qed


section \<open>Undoing an allocation, statistics, initialisation\<close>

lemma coalesce_id: "no_adjacent_free bs \<Longrightarrow> coalesce bs = bs"
  by (induction bs rule: coalesce_induct) (auto simp: no_adjacent_cons)

lemma coalesce_cons: "coalesce ((k, f) # xs) = coalesce ((k, f) # coalesce xs)"
proof (induction xs arbitrary: k rule: coalesce_induct)
  case (merge n m bs)
  then show ?case
    by (cases f) (simp_all add: coalesce_id coalesce_no_adjacent add.assoc)
next
  case (skip n bs)
  then show ?case by (cases f) (simp_all add: coalesce_id coalesce_no_adjacent)
next
  case (skip_next b m bs)
  obtain n g where "b = (n, g)" by fastforce
  then show ?case by (cases f; cases g) (simp_all add: coalesce_id coalesce_no_adjacent)
qed simp_all

lemma first_fit_undo:
  "first_fit n bs = Some (off, m, bs') \<Longrightarrow> no_adjacent_free bs \<Longrightarrow>
   \<exists>pre post. bs' = pre @ (m, False) # post \<and> off = span pre \<and> coalesce (pre @ (m, True) # post) = bs"
proof (induction bs arbitrary: off bs' rule: span.induct)
  case (2 k f bs)
  show ?case
  proof (cases "f \<and> n \<le> k")
    case True
    have id: "coalesce ((k, True) # bs) = (k, True) # bs" using 2(3) True by (simp add: coalesce_id)
    show ?thesis
    proof (cases "n + 32 \<le> k")
      case True
      with 2(2) \<open>f \<and> n \<le> k\<close> id show ?thesis
        by (intro exI [of _ "[]"] exI [of _ "(k - n - 24, True) # bs"]) auto
    next
      case False
      with 2(2) \<open>f \<and> n \<le> k\<close> id show ?thesis
        by (intro exI [of _ "[]"] exI [of _ bs]) auto
    qed
  next
    case False
    then obtain o' bs1 where o': "first_fit n bs = Some (o', m, bs1)" "off = 24 + k + o'" "bs' = (k, f) # bs1"
      using 2(2) by auto
    obtain pre post where "bs1 = pre @ (m, False) # post" "o' = span pre" "coalesce (pre @ (m, True) # post) = bs"
      using 2(1) [OF o'(1)] 2(3) by (auto simp: no_adjacent_cons)
    moreover have "coalesce ((k, f) # bs) = (k, f) # bs" using 2(3) by (rule coalesce_id)
    ultimately show ?thesis
      using coalesce_cons [of k f "pre @ (m, True) # post"] o'
      by (intro exI [of _ "(k, f) # pre"] exI [of _ post]) simp
  qed
qed simp

definition free_bytes :: "blk list \<Rightarrow> nat" where
  "free_bytes bs = sum_list (map fst (filter snd bs))"

definition largest_free :: "blk list \<Rightarrow> nat" where
  "largest_free bs = Max (insert 0 (fst ` set (filter snd bs)))"

lemma largest_free_simps [simp]:
  "largest_free [] = 0" "largest_free ((n, False) # bs) = largest_free bs"
  "largest_free ((n, True) # bs) = max n (largest_free bs)"
  by (simp_all add: largest_free_def insert_commute [of 0])

lemma largest_le_free: "largest_free bs \<le> free_bytes bs"
proof (induction bs rule: span.induct)
  case (2 n f bs)
  then show ?case by (cases f) (simp_all add: free_bytes_def)
qed simp

lemma space_accounted: "used_bytes bs + free_bytes bs + 24 * length bs = span bs"
  by (induction bs rule: span.induct) (auto simp: used_bytes_def free_bytes_def)

lemma sum_free_refines:
  assumes "tiles (headers s) a bs" "heap_lo \<le> a" "l \<le> heap_hi"
  shows "sum_free (block_ptr a bs) s (t, of_nat l) =
    Some (t + of_nat (free_bytes bs), of_nat (max l (largest_free bs)))"
  using assms
proof (induction bs arbitrary: a t l rule: span.induct)
  case 1
  then show ?case by (subst sum_free.simps) (simp add: block_ptr_def free_bytes_def)
next
  case (2 n f bs)
  have hi: "a + 24 + n + span bs = heap_hi" using tiles_span [OF 2(2)] by simp
  have ne: "(of_nat a :: u64) \<noteq> 0" using of_nat_heap_eq [of a 0] hi 2(3) by (auto simp: heap_lo_def)
  have cmp: "(of_nat n :: u64) > of_nat l \<longleftrightarrow> l < n"
    using hi 2(4) unat_heap [of n] unat_heap [of l] by (simp add: word_less_iff_unat)
  define l' where "l' = (if f then max l n else l)"
  define t' where "t' = (if f then t + of_nat n else t)"
  have "sum_free (block_ptr a ((n, f) # bs)) s (t, of_nat l) =
      sum_free (block_ptr (a + 24 + n) bs) s (t', of_nat l')"
    using 2(2) ne cmp
    by (subst sum_free.simps) (auto simp: block_ptr_def Let_def l'_def t'_def max_def)
  also have "\<dots> = Some (t' + of_nat (free_bytes bs), of_nat (max l' (largest_free bs)))"
    using 2(1) [of "a + 24 + n" l' t'] 2(2,3,4) hi by (auto simp: l'_def)
  also have "t' + of_nat (free_bytes bs) = t + of_nat (free_bytes ((n, f) # bs))"
    by (simp add: t'_def free_bytes_def add.assoc)
  also have "max l' (largest_free bs) = max l (largest_free ((n, f) # bs))"
    by (cases f) (simp_all add: l'_def max.assoc)
  finally show ?case .
qed

lemma get_stats_refines:
  assumes ok: "heap_ok s bs"
  shows "\<exists>st s'. kmalloc_get_stats s = Some (st, s') \<and> heap_ok s' bs \<and>
    bytes_free st = of_nat (free_bytes bs) \<and> largest_free_block st = of_nat (largest_free bs) \<and>
    bytes_used st = of_nat (used_bytes bs) \<and> live_allocations st = of_nat (used_count bs)"
proof -
  have "sum_free (free_list_head s) s (0, 0) = Some (of_nat (free_bytes bs), of_nat (largest_free bs))"
    using sum_free_refines [of s heap_lo bs 0 0] ok by (simp add: heap_ok_def head_ptr)
  with ok show ?thesis by (simp add: kmalloc_get_stats_def heap_ok_def Let_def)
qed

text \<open>Popping \<open>n\<close> frames takes them off the top of the free stack.\<close>

lemma pop_frames:
  assumes "pmm_inv p"
  shows "pmm_inv (((\<lambda>p. snd (pmm_alloc_frame p)) ^^ n) p) \<and>
    stack_list (((\<lambda>p. snd (pmm_alloc_frame p)) ^^ n) p) = take (length (stack_list p) - n) (stack_list p)"
proof (induction n)
  case (Suc n)
  define q where "q = ((\<lambda>p. snd (pmm_alloc_frame p)) ^^ n) p"
  have IH: "pmm_inv q" "stack_list q = take (length (stack_list p) - n) (stack_list p)"
    using Suc by (simp_all add: q_def)
  obtain a r where ar: "pmm_alloc_frame q = (a, r)" by fastforce
  have "stack_list r = butlast (stack_list q)"
    using IH(1) ar
  proof (cases rule: alloc_cases)
    case none
    then show ?thesis using IH(1) by (simp add: free_frames_stack)
  next
    case some
    then show ?thesis by simp
  qed
  moreover have "pmm_inv r" using pmm_inv_alloc [OF IH(1) ar] .
  ultimately show ?case using IH(2) ar by (simp add: q_def butlast_take)
qed (use assms in simp)

lemma fold_const: "fold (\<lambda>_. g) xs s = (g ^^ length xs) s"
  by (induction xs arbitrary: s) (simp_all add: funpow_swap1)

lemma kmalloc_init_ok:
  assumes "pmm_inv p"
  shows "\<exists>s' p'. kmalloc_init s p = Some (s', p') \<and> heap_ok s' [(0xFFFFE8, True)] \<and> pmm_inv p' \<and>
    stack_list p' = take (length (stack_list p) - 4096) (stack_list p)"
proof -
  have "length (page_list HEAP_START (HEAP_START + HEAP_SIZE)) = 4096"
    by (simp add: page_list_def page_count_def HEAP_START_def HEAP_SIZE_def)
  then have "for_pages (\<lambda>_ p. snd (pmm_alloc_frame p)) HEAP_START (HEAP_START + HEAP_SIZE) p =
      Some (((\<lambda>p. snd (pmm_alloc_frame p)) ^^ 4096) p)"
    using for_pages_fold [of "HEAP_START + HEAP_SIZE" "\<lambda>_ p. snd (pmm_alloc_frame p)" HEAP_START p]
    by (simp add: HEAP_START_def HEAP_SIZE_def fold_const)
  then show ?thesis using pop_frames [OF assms, of 4096]
    by (simp add: kmalloc_init_def heap_ok_def HEAP_START_def HEAP_SIZE_def HDR_def heap_lo_def heap_hi_def
        block_ptr_def used_bytes_def used_count_def)
qed


lemma live_aligned:
  "tiles hs a bs \<Longrightarrow> a mod 8 = 0 \<Longrightarrow> (p, n) \<in> live a bs \<Longrightarrow> p mod 8 = 0"
proof (induction bs arbitrary: a rule: span.induct)
  case (2 k f bs)
  have "(a + 24 + k) mod 8 = 0" "(a + 24) mod 8 = 0" using 2(2,3) by (simp_all add: mod_add_eq [symmetric])
  then show ?case using 2(1) [of "a + 24 + k"] 2(2,4) by (cases f) auto
qed simp

lemma live_minus:
  "live a (pre @ (n, True) # post) = live a (pre @ (n, False) # post) - {(a + span pre + 24, n)}"
  using layout_bounds [of "a + span pre + 24" n False a pre]
    layout_bounds [of "a + span pre + 24" n False "a + span pre + 24 + n" post]
  by (auto simp: live_append) (auto simp: live_def)

lemma kfree_of_free:
  assumes ok: "heap_ok s (pre @ (n, f) # post)" and f
  shows "kfree (of_nat (heap_lo + span pre + 24)) s = Some s"
proof -
  have "of_nat (heap_lo + span pre + 24) - HDR = (of_nat (heap_lo + span pre) :: u64)" by (simp add: HDR_def)
  moreover have "is_free (headers s (of_nat (heap_lo + span pre)))"
    using ok tiles_at [of "headers s" heap_lo pre n f post] \<open>f\<close> by (simp add: heap_ok_def)
  ultimately show ?thesis by (simp add: kfree_def del: of_nat_add)
qed

section \<open>Properties\<close>

text \<open>The heap right after \<open>kmalloc_init\<close>, for the concrete instances.\<close>

definition fresh_heap :: kmalloc_state where
  "fresh_heap = \<lparr>headers = (\<lambda>_. \<lparr>hsize = 0xFFFFE8, is_free = True, next_hdr = 0\<rparr>),
     free_list_head = HEAP_START,
     kstats = \<lparr>alloc_count = 0, free_count = 0, live_allocations = 0, bytes_used = 0, peak_bytes_used = 0,
       bytes_free = 0xFFFFE8, largest_free_block = 0xFFFFE8, failed_allocations = 0\<rparr>\<rparr>"

lemma fresh_heap_ok: "heap_ok fresh_heap [(0xFFFFE8, True)]"
  by (simp add: heap_ok_def fresh_heap_def heap_lo_def heap_hi_def block_ptr_def used_bytes_def used_count_def)

text \<open>
  C9. \<open>kmalloc\<close> is first fit: on a well-formed heap it always returns; it returns null only
  when no free block is as large as the rounded request, and otherwise an 8-aligned block of at
  least that size inside the heap, overlapping no live block, and that block becomes live.
\<close>

theorem kmalloc_correct:
  assumes "heap_ok s bs" "unat n + 7 < 2 ^ 64"
  shows "\<exists>p s' bs'. kmalloc n s = Some (p, s') \<and> heap_ok s' bs' \<and>
    (if p = 0 then bs' = bs \<and> (\<forall>(k, f)\<in>set bs. f \<longrightarrow> k < (unat n + 7) div 8 * 8)
     else \<exists>m. unat n \<le> m \<and> live heap_lo bs' = insert (unat p, m) (live heap_lo bs) \<and>
       heap_lo + 24 \<le> unat p \<and> unat p + m \<le> heap_hi \<and> unat p mod 8 = 0 \<and>
       (\<forall>(q, j)\<in>live heap_lo bs. unat p + m < q \<or> q + j < unat p))"
  using assms(1)
proof (cases rule: kmalloc_cases [of s bs n])
  case (null s')
  with assms show ?thesis by (auto simp: round_up8_unat)
next
  case (block p m s' bs')
  have mem: "(unat p, m) \<in> live heap_lo bs'" using block by simp
  have "unat p + m < q \<or> q + j < unat p" if "(q, j) \<in> live heap_lo bs" for q j
    using heap_blocks_apart [of s' "unat p" m q j] block that
    by (auto simp: heap_inv_def heap_live_ok)
  moreover have "unat n \<le> m" using block(7) assms(2) by (simp add: round_up8_unat)
  moreover have "unat p mod 8 = 0"
    using live_aligned [of "headers s'" heap_lo bs'] block(3) mem by (simp add: heap_ok_def heap_lo_def)
  ultimately show ?thesis using block live_in_heap [OF block(3) mem] by auto
qed

theorem kmalloc_correct_witness:
  "\<exists>p s' bs'. kmalloc 13 fresh_heap = Some (p, s') \<and> heap_ok s' bs' \<and> p \<noteq> 0 \<and> (\<exists>m\<ge>13. live heap_lo bs' = {(unat p, m)})"
  using kmalloc_correct [OF fresh_heap_ok, of 13] by (fastforce split: if_splits)

text \<open>
  C10. \<open>kfree\<close> of a live block returns, removes exactly that block from the live set and
  leaves a heap without two adjacent free blocks; a second \<open>kfree\<close> of a block that is still a
  block of the heap, and \<open>kfree\<close> of null, change nothing.
\<close>

theorem kfree_correct:
  assumes "heap_ok s (pre @ (n, f) # post)" "p = of_nat (heap_lo + span pre + 24)"
  shows "kfree 0 s = Some s \<and>
    (\<exists>s' bs'. kfree p s = Some s' \<and> heap_ok s' bs' \<and> no_adjacent_free bs' \<and>
       (if f then s' = s
        else bs' = coalesce (pre @ (n, True) # post) \<and>
          live heap_lo bs' = live heap_lo (pre @ (n, f) # post) - {(heap_lo + span pre + 24, n)}))"
proof -
  obtain s' where s': "kfree p s = Some s'"
    "heap_ok s' (if f then pre @ (n, f) # post else coalesce (pre @ (n, True) # post))"
    using kfree_refines [OF assms(1)] assms(2) by blast
  have "s' = s" if f
    using s'(1) kfree_of_free [OF assms(1) that] assms(2) by simp
  moreover have "live heap_lo (coalesce (pre @ (n, True) # post)) =
      live heap_lo (pre @ (n, f) # post) - {(heap_lo + span pre + 24, n)}" if "\<not> f"
    using live_minus [of heap_lo pre n post] that by (simp add: live_coalesce)
  ultimately show ?thesis using s' coalesce_no_adjacent
    by (auto simp: kfree_def heap_ok_def)
qed

lemma fresh_malloc8:
  obtains s where "kmalloc 8 fresh_heap = Some (0x1000018, s)" "heap_ok s [(8, False), (0xFFFFC8, True)]"
  using kmalloc_refines [OF fresh_heap_ok, of 8] by (simp add: round_up8_def heap_lo_def) blast

text \<open>A release makes the heap one free block again; a second one is ignored.\<close>

theorem kfree_correct_witness:
  "\<exists>s s'. kmalloc 8 fresh_heap = Some (0x1000018, s) \<and> kfree 0x1000018 s = Some s' \<and> heap_ok s' [(0xFFFFE8, True)] \<and>
    kfree 0x1000018 s' = Some s'"
proof -
  obtain s where s: "kmalloc 8 fresh_heap = Some (0x1000018, s)" "heap_ok s [(8, False), (0xFFFFC8, True)]" by (rule fresh_malloc8)
  obtain s' where s': "kfree 0x1000018 s = Some s'" "heap_ok s' [(0xFFFFE8, True)]"
    using kfree_correct [of s "[]" 8 False "[(0xFFFFC8, True)]" "0x1000018"] s(2) by (auto simp: heap_lo_def)
  have "kfree 0x1000018 s' = Some s'"
    using kfree_correct [of s' "[]" "0xFFFFE8" True "[]" "0x1000018"] s'(2) by (auto simp: heap_lo_def)
  with s(1) s' show ?thesis by blast
qed

text \<open>
  C11. Two allocations never overlap: whatever well-behaved calls run in between, as long as
  the first block is not released both blocks are live and their bytes are disjoint.
\<close>

theorem kmalloc_no_overlap:
  assumes "heap_inv s" "kmalloc n s = Some (a, s1)" "a \<noteq> 0"
    and "heap.runs cs s1 s2" "Free a \<notin> set cs" "kmalloc m s2 = Some (b, s3)" "b \<noteq> 0"
  shows "\<exists>k l. block_fits n k \<and> block_fits m l \<and> (unat a, k) \<in> heap_live s3 \<and> (unat b, l) \<in> heap_live s3 \<and>
    (unat a + k < unat b \<or> unat b + l < unat a)"
  using assms by (rule heap.no_overlap)

theorem kmalloc_no_overlap_witness:
  "\<exists>a b s1 s2. kmalloc 8 fresh_heap = Some (a, s1) \<and> kmalloc 16 s1 = Some (b, s2) \<and>
    (\<exists>k l. (unat a, k) \<in> heap_live s2 \<and> (unat b, l) \<in> heap_live s2 \<and> (unat a + k < unat b \<or> unat b + l < unat a))"
proof -
  obtain s1 where s1: "kmalloc 8 fresh_heap = Some (0x1000018, s1)" "heap_ok s1 [(8, False), (0xFFFFC8, True)]"
    by (rule fresh_malloc8)
  obtain s2 where s2: "kmalloc 16 s1 = Some (0x1000038, s2)"
    using kmalloc_refines [OF s1(2), of 16] by (auto simp: round_up8_def heap_lo_def)
  have "heap_inv fresh_heap" using fresh_heap_ok by (auto simp: heap_inv_def)
  from kmalloc_no_overlap [OF this s1(1) _ heap.runs_nil _ s2]
  have "\<exists>k l. (unat (0x1000018 :: u64), k) \<in> heap_live s2 \<and> (unat (0x1000038 :: u64), l) \<in> heap_live s2 \<and>
      (unat (0x1000018 :: u64) + k < unat (0x1000038 :: u64) \<or> unat (0x1000038 :: u64) + l < unat (0x1000018 :: u64))"
    by auto
  with s1(1) s2 show ?thesis by blast
qed


text \<open>
  Releasing a block right after its allocation restores the block list exactly: splitting
  and coalescing undo each other, so such pairs never fragment the heap.
\<close>

theorem kmalloc_kfree_restores:
  assumes "heap_ok s bs" "kmalloc n s = Some (p, s1)" "p \<noteq> 0"
  shows "\<exists>s2. kfree p s1 = Some s2 \<and> heap_ok s2 bs"
  using assms(1)
proof (cases rule: kmalloc_cases [of s bs n])
  case (null s')
  with assms show ?thesis by simp
next
  case (block q m s' bs')
  then have [simp]: "q = p" "s' = s1" using assms(2) by auto
  obtain pre post where bs': "bs' = pre @ (m, False) # post" "unat p - heap_lo - 24 = span pre"
      "coalesce (pre @ (m, True) # post) = bs"
    using first_fit_undo [OF block(4)] assms(1) by (auto simp: heap_ok_def)
  have "p = of_nat (unat p)" by simp
  moreover have "unat p = heap_lo + span pre + 24" using bs'(2) block(8) by simp
  ultimately have "p = of_nat (heap_lo + span pre + 24)" by metis
  then show ?thesis using kfree_refines [of s1 pre m False post] block(3) bs' by auto
qed

theorem kmalloc_kfree_restores_witness:
  "\<exists>p s1 s2. kmalloc 100 fresh_heap = Some (p, s1) \<and> kfree p s1 = Some s2 \<and> heap_ok s2 [(0xFFFFE8, True)]"
proof -
  obtain s1 where s1: "kmalloc 100 fresh_heap = Some (0x1000018, s1)"
    using kmalloc_refines [OF fresh_heap_ok, of 100] by (auto simp: round_up8_def heap_lo_def)
  from kmalloc_kfree_restores [OF fresh_heap_ok s1] s1 show ?thesis by auto
qed

text \<open>
  Statistics: the snapshot reports the exact number of free and used payload bytes, the
  largest free block and the number of live allocations, and the bytes add up to the heap.
\<close>

theorem kmalloc_stats_exact:
  assumes "heap_ok s bs"
  shows "\<exists>st s'. kmalloc_get_stats s = Some (st, s') \<and> heap_ok s' bs \<and>
    unat (bytes_free st) = free_bytes bs \<and> unat (largest_free_block st) = largest_free bs \<and>
    unat (bytes_used st) = used_bytes bs \<and> unat (live_allocations st) = used_count bs \<and>
    unat (bytes_free st) + unat (bytes_used st) + 24 * length bs = unat HEAP_SIZE"
proof -
  have sp: "used_bytes bs + free_bytes bs + 24 * length bs = 0x1000000"
    using space_accounted [of bs] heap_span [OF assms] by (simp add: heap_hi_def heap_lo_def)
  note largest_le_free [of bs]
  moreover have "used_count bs \<le> length bs" by (simp add: used_count_def)
  ultimately show ?thesis
    using get_stats_refines [OF assms] sp
    by (auto simp: unat_of_nat_small HEAP_SIZE_def)
qed

theorem kmalloc_stats_exact_witness:
  "\<exists>st s'. kmalloc_get_stats fresh_heap = Some (st, s') \<and> unat (bytes_free st) = 0xFFFFE8 \<and> unat (bytes_used st) = 0"
  using kmalloc_stats_exact [OF fresh_heap_ok] by (auto simp: free_bytes_def used_bytes_def)

text \<open>
  The rounding \<open>(size + 7) & ~7\<close> wraps for requests within 7 bytes of \<open>2^64\<close>: such a
  request asks for 0 bytes and succeeds whenever any block is free, instead of failing.
\<close>

theorem kmalloc_huge_request:
  assumes "heap_ok s bs" "unat n + 7 \<ge> 2 ^ 64" "(k, True) \<in> set bs"
  shows "\<exists>p s'. kmalloc n s = Some (p, s') \<and> p \<noteq> 0"
proof -
  have "unat n < 2 ^ 64" using unsigned_less [of n, where 'a = nat] by simp
  then have "unat (n + 7) < 8"
    using assms(2) by (simp add: unat_word_ariths le_mod_geq)
  then have "unat (round_up8 n) = 0" unfolding round_up8_def by (subst unat_and_not_7) simp_all
  note zero = this
  from assms(1) show ?thesis
  proof (cases rule: kmalloc_cases [of s bs n])
    case (null s')
    with zero assms(3) show ?thesis by auto
  next
    case block
    then show ?thesis by blast
  qed
qed

theorem kmalloc_huge_request_witness:
  "\<exists>p s'. kmalloc 0xFFFFFFFFFFFFFFFF fresh_heap = Some (p, s') \<and> p \<noteq> 0"
  using kmalloc_huge_request [OF fresh_heap_ok, of "0xFFFFFFFFFFFFFFFF" "0xFFFFE8"] by simp

text \<open>
  Initialisation leaves one free block that covers the heap, and takes the top 4096 entries
  of the free-frame stack, whichever frames they are: a frame of the heap range that is further
  down stays allocatable.
\<close>

theorem kmalloc_init_correct:
  assumes "pmm_inv p" "stack_list p = xs @ ys" "length ys = 4096"
  shows "\<exists>s' p'. kmalloc_init s p = Some (s', p') \<and> heap_ok s' [(0xFFFFE8, True)] \<and> pmm_inv p' \<and>
    free_frames p' = set xs"
  using kmalloc_init_ok [OF assms(1), of s] assms(2,3) free_frames_stack by fastforce


text \<open>A machine whose free RAM is 16 MiB to 48 MiB.\<close>

definition ram_16_48 :: pmm_state where
  "ram_16_48 = \<lparr>frame_bitmap = (\<lambda>i. if 128 \<le> i \<and> i < 384 then 0 else 0xFFFFFFFF),
     free_stack = (\<lambda>i. of_nat (4096 + i) * PAGE_SIZE), stack_ptr = 8191,
     ref_counts = (\<lambda>_. 0), total_frames = 8192\<rparr>"

lemma ram_16_48_used: "used ram_16_48 f \<longleftrightarrow> \<not> (4096 \<le> f \<and> f < 12288)"
proof -
  have "128 \<le> f div 32 \<and> f div 32 < 384 \<longleftrightarrow> 4096 \<le> f \<and> f < 12288" by auto
  moreover have "bit (0xFFFFFFFF :: u32) (f mod 32)" by (rule all_ones_bit) simp
  ultimately show ?thesis by (simp add: used_def ram_16_48_def)
qed

lemma filter_upt_ge: "filter (\<lambda>f. k \<le> f) [0..<k + n] = [k..<k + n]"
  by (simp add: upt_add_eq_append [of 0 k n] filter_empty_conv filter_id_conv)

lemma ram_16_48_list:
  "stack_list ram_16_48 = map (\<lambda>f. of_nat f * PAGE_SIZE) (filter (\<lambda>f. 4096 \<le> f) [0..<12288])"
proof -
  have "stack_list ram_16_48 = map (\<lambda>f. of_nat f * PAGE_SIZE) (map (\<lambda>i. i + 4096) [0..<8192])"
    by (simp add: stack_list_def ram_16_48_def o_def add.commute del: map_add_upt upt_rec_numeral)
  also have "map (\<lambda>i. i + 4096) [0..<8192] = filter (\<lambda>f. 4096 \<le> f) [0..<4096 + 8192]"
    unfolding filter_upt_ge map_add_upt by (simp only: add_0 add.commute)
  also have "4096 + 8192 = (12288 :: nat)" by simp
  finally show ?thesis .
qed

lemma ram_16_48_inv: "pmm_inv ram_16_48"
proof -
  have "12288 \<le> MAX_FRAMES" by (simp add: MAX_FRAMES_def)
  note fr = stack_list_frames [OF this ram_16_48_list]
  have "stack_ptr ram_16_48 = 8191" by (simp add: ram_16_48_def)
  with fr show ?thesis by (auto simp: pmm_inv_def ram_16_48_used is_frame_def MAX_FRAMES_def)
qed

theorem kmalloc_init_correct_witness:
  "\<exists>s' p'. kmalloc_init fresh_heap ram_16_48 = Some (s', p') \<and> heap_ok s' [(0xFFFFE8, True)] \<and> 0x1000000 \<in> free_frames p'"
proof -
  let ?l = "stack_list ram_16_48"
  have len: "length ?l = 8192" by (simp add: stack_list_def ram_16_48_def)
  have "?l ! 0 = 0x1000000" by (simp add: stack_list_def ram_16_48_def PAGE_SIZE_def)
  then have "0x1000000 \<in> set (take 4096 ?l)"
    using len by (intro in_set_conv_nth [THEN iffD2] exI [of _ 0]) simp
  then show ?thesis
    using kmalloc_init_correct [OF ram_16_48_inv, of "take 4096 ?l" "drop 4096 ?l" fresh_heap] len by auto
qed

end
