(* ===== verification/Vmm.thy ===== *)
theory Vmm
  imports Kmalloc
begin

text \<open>
  The virtual memory manager (src/kernel/vmm.c): four-level x86_64 page tables kept in physical
  frames that the PMM hands out. The state is physical memory, the PMM and the recorded PML4.
  Tables are read and written as the code does it, through 64-bit cells of physical memory.
\<close>

section \<open>State and helpers\<close>

record vmm_state =
  phys_mem :: memory
  frames :: pmm_state
  current_pml4 :: u64

definition PAGE_PRESENT :: u64 where "PAGE_PRESENT = 0x001"
definition PAGE_WRITABLE :: u64 where "PAGE_WRITABLE = 0x002"
definition PAGE_USER :: u64 where "PAGE_USER = 0x004"
definition PAGE_COW :: u64 where "PAGE_COW = 0x200"
definition PAGE_HUGE :: u64 where "PAGE_HUGE = 0x080"

definition PML4_INDEX :: "u64 \<Rightarrow> u64" where
  "PML4_INDEX addr = drop_bit 39 addr AND 0x1FF"

definition PDPT_INDEX :: "u64 \<Rightarrow> u64" where
  "PDPT_INDEX addr = drop_bit 30 addr AND 0x1FF"

definition PD_INDEX :: "u64 \<Rightarrow> u64" where
  "PD_INDEX addr = drop_bit 21 addr AND 0x1FF"

definition PT_INDEX :: "u64 \<Rightarrow> u64" where
  "PT_INDEX addr = drop_bit 12 addr AND 0x1FF"

text \<open>\<open>table[index]\<close> of a \<open>uint64_t*\<close>.\<close>

definition entry :: "vmm_state \<Rightarrow> u64 \<Rightarrow> u64 \<Rightarrow> u64" where
  "entry s table i = load64 (phys_mem s) (table + 8 * i)"

definition set_entry :: "u64 \<Rightarrow> u64 \<Rightarrow> u64 \<Rightarrow> vmm_state \<Rightarrow> vmm_state" where
  "set_entry table i v s = s\<lparr>phys_mem := store64 (phys_mem s) (table + 8 * i) v\<rparr>"

definition alloc_frame :: "vmm_state \<Rightarrow> u64 \<times> vmm_state" where
  "alloc_frame s = (let (a, p) = pmm_alloc_frame (frames s) in (a, s\<lparr>frames := p\<rparr>))"

definition free_frame :: "u64 \<Rightarrow> vmm_state \<Rightarrow> vmm_state" where
  "free_frame a s = s\<lparr>frames := pmm_free_frame a (frames s)\<rparr>"

text \<open>\<open>for (i = 0; i < 512; i++) t[i] = 0\<close>\<close>

definition zero_table :: "u64 \<Rightarrow> vmm_state \<Rightarrow> vmm_state" where
  "zero_table t s = fold (\<lambda>i. set_entry t (of_nat i) 0) [0..<512] s"

section \<open>Operations\<close>

definition vmm_init :: "u64 \<Rightarrow> vmm_state \<Rightarrow> vmm_state" where
  "vmm_init cr3 s = s\<lparr>current_pml4 := cr3\<rparr>"

definition vmm_create_address_space :: "vmm_state \<Rightarrow> u64 \<times> vmm_state" where
  "vmm_create_address_space s =
     (let (new_pml4, s1) = alloc_frame s
      in if new_pml4 = 0 then (0, s1)
         else let s2 = zero_table new_pml4 s1
              in (new_pml4, set_entry new_pml4 0 (entry s2 (current_pml4 s2) 0) s2))"

definition alloc_zeroed_table :: "vmm_state \<Rightarrow> u64 \<times> vmm_state" where
  "alloc_zeroed_table s =
     (let (next_table, s1) = alloc_frame s
      in if next_table = 0 then (0, s1) else (next_table, zero_table next_table s1))"

definition get_existing_table :: "vmm_state \<Rightarrow> u64 \<Rightarrow> u64 \<Rightarrow> u64" where
  "get_existing_table s table index =
     (if entry s table index AND PAGE_PRESENT = 0 then 0 else entry s table index AND NOT 0xFFF)"

text \<open>
  The critical section of \<open>ensure_next_table\<close>, which looks again under the lock before it links
  the table this CPU has allocated, and gives the frame back if another CPU was faster.
\<close>

definition install_table :: "u64 \<Rightarrow> u64 \<Rightarrow> u64 \<Rightarrow> vmm_state \<Rightarrow> u64 \<times> vmm_state" where
  "install_table table index new_table s =
     (let nxt = get_existing_table s table index
      in if nxt = 0
         then (new_table, set_entry table index (new_table OR PAGE_PRESENT OR PAGE_WRITABLE OR PAGE_USER) s)
         else (nxt, free_frame new_table s))"

definition ensure_next_table :: "u64 \<Rightarrow> u64 \<Rightarrow> vmm_state \<Rightarrow> u64 \<times> vmm_state" where
  "ensure_next_table table index s =
     (let nxt = get_existing_table s table index
      in if nxt \<noteq> 0 then (nxt, s)
         else let (new_table, s1) = alloc_zeroed_table s
              in if new_table = 0 then (0, s1) else install_table table index new_table s1)"

definition vmm_map :: "u64 \<Rightarrow> u64 \<Rightarrow> u64 \<Rightarrow> u64 \<Rightarrow> vmm_state \<Rightarrow> vmm_state" where
  "vmm_map pml4 virt phys flags s =
     (let (pdpt, s1) = ensure_next_table pml4 (PML4_INDEX virt) s in
      if pdpt = 0 then s1 else
      let (pd, s2) = ensure_next_table pdpt (PDPT_INDEX virt) s1 in
      if pd = 0 then s2 else
      if flags AND PAGE_HUGE \<noteq> 0
      then set_entry pd (PD_INDEX virt) ((phys AND NOT 0x1FFFFF) OR flags OR PAGE_PRESENT) s2
      else
      let (pt, s3) = ensure_next_table pd (PD_INDEX virt) s2 in
      if pt = 0 then s3
      else set_entry pt (PT_INDEX virt) ((phys AND NOT 0xFFF) OR flags OR PAGE_PRESENT) s3)"

partial_function (option) map_range_from ::
  "u64 \<Rightarrow> u64 \<Rightarrow> u64 \<Rightarrow> u64 \<Rightarrow> u64 \<Rightarrow> u64 \<Rightarrow> vmm_state \<Rightarrow> vmm_state option" where
  "map_range_from pml4 virt phys len flags i s =
     (if i < len
      then if (virt + i) mod 0x200000 = 0 \<and> (phys + i) mod 0x200000 = 0 \<and> len - i \<ge> 0x200000
           then map_range_from pml4 virt phys len flags (i + 0x200000)
                  (vmm_map pml4 (virt + i) (phys + i) (flags OR PAGE_HUGE) s)
           else map_range_from pml4 virt phys len flags (i + 0x1000)
                  (vmm_map pml4 (virt + i) (phys + i) flags s)
      else Some s)"

definition vmm_map_range :: "u64 \<Rightarrow> u64 \<Rightarrow> u64 \<Rightarrow> u64 \<Rightarrow> u64 \<Rightarrow> vmm_state \<Rightarrow> vmm_state option" where
  "vmm_map_range pml4 virt phys len flags s = map_range_from pml4 virt phys len flags 0 s"

definition vmm_unmap :: "u64 \<Rightarrow> u64 \<Rightarrow> vmm_state \<Rightarrow> vmm_state" where
  "vmm_unmap pml4 virt s =
     (let pdpt = get_existing_table s pml4 (PML4_INDEX virt) in
      if pdpt = 0 then s else
      let pd = get_existing_table s pdpt (PDPT_INDEX virt) in
      if pd = 0 then s else
      if entry s pd (PD_INDEX virt) AND PAGE_HUGE \<noteq> 0 then set_entry pd (PD_INDEX virt) 0 s
      else let pt = get_existing_table s pd (PD_INDEX virt)
           in if pt = 0 then s else set_entry pt (PT_INDEX virt) 0 s)"

text \<open>The step size is looked up in \<open>current_pml4\<close>, whatever address space is unmapped.\<close>

partial_function (option) unmap_range_from ::
  "u64 \<Rightarrow> u64 \<Rightarrow> u64 \<Rightarrow> u64 \<Rightarrow> vmm_state \<Rightarrow> vmm_state option" where
  "unmap_range_from pml4 virt len i s =
     (if i < len
      then let pdpt = get_existing_table s (current_pml4 s) (PML4_INDEX (virt + i));
               pd = (if pdpt \<noteq> 0 then get_existing_table s pdpt (PDPT_INDEX (virt + i)) else 0)
           in if pd \<noteq> 0 \<and> entry s pd (PD_INDEX (virt + i)) AND PAGE_HUGE \<noteq> 0
              then unmap_range_from pml4 virt len (i + 0x200000) (vmm_unmap pml4 (virt + i) s)
              else unmap_range_from pml4 virt len (i + 0x1000) (vmm_unmap pml4 (virt + i) s)
      else Some s)"

definition vmm_unmap_range :: "u64 \<Rightarrow> u64 \<Rightarrow> u64 \<Rightarrow> vmm_state \<Rightarrow> vmm_state option" where
  "vmm_unmap_range pml4 virt len s = unmap_range_from pml4 virt len 0 s"

definition vmm_get_phys :: "u64 \<Rightarrow> u64 \<Rightarrow> vmm_state \<Rightarrow> u64" where
  "vmm_get_phys pml4 virt s =
     (let pdpt = get_existing_table s pml4 (PML4_INDEX virt) in
      if pdpt = 0 then 0 else
      let pd = get_existing_table s pdpt (PDPT_INDEX virt) in
      if pd = 0 then 0 else
      if entry s pd (PD_INDEX virt) AND PAGE_HUGE \<noteq> 0
      then (entry s pd (PD_INDEX virt) AND NOT 0x1FFFFF) OR (virt AND 0x1FFFFF)
      else let pt = get_existing_table s pd (PD_INDEX virt) in
           if pt = 0 then 0 else (entry s pt (PT_INDEX virt) AND NOT 0xFFF) OR (virt AND 0xFFF))"

definition vmm_get_flags :: "u64 \<Rightarrow> u64 \<Rightarrow> vmm_state \<Rightarrow> u64" where
  "vmm_get_flags pml4 virt s =
     (let pdpt = get_existing_table s pml4 (PML4_INDEX virt) in
      if pdpt = 0 then 0 else
      let pd = get_existing_table s pdpt (PDPT_INDEX virt) in
      if pd = 0 then 0 else
      if entry s pd (PD_INDEX virt) AND PAGE_HUGE \<noteq> 0 then entry s pd (PD_INDEX virt) AND 0xFFF
      else let pt = get_existing_table s pd (PD_INDEX virt) in
           if pt = 0 then 0 else entry s pt (PT_INDEX virt) AND 0xFFF)"

section \<open>Cloning and destroying an address space\<close>

text \<open>Body of the innermost loop of \<open>vmm_clone_address_space\<close>, and of its huge-page case.\<close>

definition cow_flags :: "u64 \<Rightarrow> u64" where
  "cow_flags flags = (flags AND NOT PAGE_WRITABLE) OR PAGE_COW"

definition clone_leaf :: "u64 \<Rightarrow> u64 \<Rightarrow> u64 \<Rightarrow> u64 \<Rightarrow> vmm_state \<Rightarrow> vmm_state" where
  "clone_leaf low src dst i s =
     (let e = entry s src i;
          phys = e AND NOT low;
          flags = e AND 0xFFF;
          wr = flags AND PAGE_WRITABLE \<noteq> 0;
          flags' = (if wr then cow_flags flags else flags);
          s1 = (if wr then set_entry src i (phys OR flags' OR PAGE_PRESENT) s else s);
          s2 = set_entry dst i (phys OR flags' OR PAGE_PRESENT) s1
      in s2\<lparr>frames := pmm_ref_inc phys (frames s2)\<rparr>)"

definition clone_pt :: "u64 \<Rightarrow> u64 \<Rightarrow> vmm_state \<Rightarrow> vmm_state" where
  "clone_pt src_pt dst_pt s =
     fold (\<lambda>l s. if entry s src_pt (of_nat l) AND PAGE_PRESENT \<noteq> 0
                  then clone_leaf 0xFFF src_pt dst_pt (of_nat l) s else s) [0..<512] s"

definition clone_pd :: "u64 \<Rightarrow> u64 \<Rightarrow> vmm_state \<Rightarrow> vmm_state" where
  "clone_pd src_pd dst_pd s =
     fold (\<lambda>k s. if entry s src_pd (of_nat k) AND PAGE_PRESENT \<noteq> 0
                  then if entry s src_pd (of_nat k) AND PAGE_HUGE \<noteq> 0
                       then clone_leaf 0x1FFFFF src_pd dst_pd (of_nat k) s
                       else let src_pt = entry s src_pd (of_nat k) AND NOT 0xFFF;
                                (dst_pt, s1) = ensure_next_table dst_pd (of_nat k) s
                            in clone_pt src_pt dst_pt s1
                  else s) [0..<512] s"

definition clone_pdpt :: "u64 \<Rightarrow> u64 \<Rightarrow> vmm_state \<Rightarrow> vmm_state" where
  "clone_pdpt src_pdpt dst_pdpt s =
     fold (\<lambda>j s. if entry s src_pdpt (of_nat j) AND PAGE_PRESENT \<noteq> 0
                  then let src_pd = entry s src_pdpt (of_nat j) AND NOT 0xFFF;
                           (dst_pd, s1) = ensure_next_table dst_pdpt (of_nat j) s
                       in clone_pd src_pd dst_pd s1
                  else s) [0..<512] s"

definition vmm_clone_address_space :: "u64 \<Rightarrow> vmm_state \<Rightarrow> u64 \<times> vmm_state" where
  "vmm_clone_address_space src_pml4 s =
     (let (dst_pml4, s0) = vmm_create_address_space s
      in (dst_pml4,
          fold (\<lambda>i s. if entry s src_pml4 (of_nat i) AND PAGE_PRESENT \<noteq> 0
                       then let src_pdpt = entry s src_pml4 (of_nat i) AND NOT 0xFFF;
                                (dst_pdpt, s1) = ensure_next_table dst_pml4 (of_nat i) s
                            in clone_pdpt src_pdpt dst_pdpt s1
                       else s) [1..<512] s0))"

text \<open>
  \<open>vmm_destroy_address_space\<close> only reads the tables, frees what the entries of level 1 to 4
  point to, then the root; entry 0 of the PML4, the shared kernel half, is skipped.
\<close>

fun destroy_level :: "nat \<Rightarrow> nat \<Rightarrow> u64 \<Rightarrow> vmm_state \<Rightarrow> vmm_state" where
  "destroy_level 0 first table s = free_frame table s"
| "destroy_level (Suc n) first table s =
     free_frame table
       (fold (\<lambda>i s. if entry s table (of_nat i) AND PAGE_PRESENT \<noteq> 0
                    then destroy_level n 0 (entry s table (of_nat i) AND NOT 0xFFF) s
                    else s) [first..<512] s)"

definition vmm_destroy_address_space :: "u64 \<Rightarrow> vmm_state \<Rightarrow> vmm_state" where
  "vmm_destroy_address_space pml4 s = destroy_level 4 1 pml4 s"


section \<open>What the hardware sees\<close>

text \<open>
  The page walk of the MMU, as the specification of the tables: from a table of level
  \<open>n\<close> to the physical address, the low flag bits and the level of the leaf (1 for a 4 KiB
  page, 2 for a 2 MiB page), or no translation.
\<close>

definition level_index :: "nat \<Rightarrow> u64 \<Rightarrow> u64" where
  "level_index n virt = drop_bit (3 + 9 * n) virt AND 0x1FF"

lemma level_index_simps:
  "PML4_INDEX v = level_index 4 v" "PDPT_INDEX v = level_index 3 v"
  "PD_INDEX v = level_index 2 v" "PT_INDEX v = level_index 1 v"
  by (simp_all add: PML4_INDEX_def PDPT_INDEX_def PD_INDEX_def PT_INDEX_def level_index_def)

lemma level_index_less: "level_index n v < 512"
proof -
  have "(0x1FF :: u64) = mask 9" by (simp add: mask_eq_decr_exp)
  then have "level_index n v = take_bit 9 (drop_bit (3 + 9 * n) v)"
    by (simp only: level_index_def take_bit_eq_mask)
  then have "unat (level_index n v) = take_bit 9 (unat (drop_bit (3 + 9 * n) v))"
    by (simp only: unsigned_take_bit_eq)
  then have "unat (level_index n v) < 2 ^ 9" by (simp only: take_bit_nat_less_exp)
  then show ?thesis by (simp add: word_less_iff_unat)
qed

definition present :: "u64 \<Rightarrow> bool" where
  "present e \<longleftrightarrow> e AND PAGE_PRESENT \<noteq> 0"

definition huge :: "u64 \<Rightarrow> bool" where
  "huge e \<longleftrightarrow> e AND PAGE_HUGE \<noteq> 0"

definition entry_base :: "u64 \<Rightarrow> u64" where
  "entry_base e = e AND NOT 0xFFF"

fun walk :: "vmm_state \<Rightarrow> nat \<Rightarrow> u64 \<Rightarrow> u64 \<Rightarrow> (u64 \<times> u64 \<times> nat) option" where
  "walk s 0 table v = None"
| "walk s (Suc n) table v =
     (let e = entry s table (level_index (Suc n) v)
      in if \<not> present e then None
         else if n = 0 then Some (entry_base e OR (v AND 0xFFF), e AND 0xFFF, 1)
         else if n = 1 \<and> huge e then Some ((e AND NOT 0x1FFFFF) OR (v AND 0x1FFFFF), e AND 0xFFF, 2)
         else walk s n (entry_base e) v)"

text \<open>What a table entry of level 1 or 2 says when the walk ends there.\<close>

definition leaf :: "nat \<Rightarrow> u64 \<Rightarrow> u64 \<Rightarrow> (u64 \<times> u64 \<times> nat) option" where
  "leaf n e v =
     (if \<not> present e then None
      else if n = 1 then Some (entry_base e OR (v AND 0xFFF), e AND 0xFFF, 1)
      else Some ((e AND NOT 0x1FFFFF) OR (v AND 0x1FFFFF), e AND 0xFFF, 2))"

definition translate :: "vmm_state \<Rightarrow> u64 \<Rightarrow> u64 \<Rightarrow> (u64 \<times> u64 \<times> nat) option" where
  "translate s pml4 v = walk s 4 pml4 v"

section \<open>Well-formed page tables\<close>

text \<open>
  \<open>lvl\<close> types the frames that hold tables with their level (0: not a table). Links go one level
  down, no table is linked twice, and tables are frames the PMM counts as used. An entry of a
  level 2 table with the huge bit is a leaf.
\<close>

definition link :: "vmm_state \<Rightarrow> (u64 \<Rightarrow> nat) \<Rightarrow> u64 \<Rightarrow> u64 \<Rightarrow> bool" where
  "link s lvl t i \<longleftrightarrow> 2 \<le> lvl t \<and> i < 512 \<and> present (entry s t i) \<and> \<not> (lvl t = 2 \<and> huge (entry s t i))"

definition vm_wf :: "vmm_state \<Rightarrow> (u64 \<Rightarrow> nat) \<Rightarrow> u64 \<Rightarrow> bool" where
  "vm_wf s lvl p \<longleftrightarrow> pmm_inv (frames s) \<and> lvl p = 4 \<and>
     (\<forall>t. 0 < lvl t \<longrightarrow> is_frame t \<and> t \<noteq> 0 \<and> used (frames s) (frame_no t)) \<and>
     (\<forall>t i. link s lvl t i \<longrightarrow> lvl (entry_base (entry s t i)) = lvl t - 1) \<and>
     (\<forall>t i t' i'. link s lvl t i \<and> link s lvl t' i' \<and>
        entry_base (entry s t i) = entry_base (entry s t' i') \<longrightarrow> t = t' \<and> i = i')"

subsection \<open>Cells of tables\<close>

lemma page_room:
  assumes "page_aligned t"
  shows "unat t + 4096 \<le> 2 ^ 64"
proof -
  have q: "unat t = 4096 * (unat t div 4096)"
    using assms mult_div_mod_eq [of 4096 "unat t"] by (simp add: page_aligned_def)
  have "unat t < 2 ^ 64" using unsigned_less [of t, where 'a = nat] by simp
  then have "unat t div 4096 < 2 ^ 52" by (subst (asm) q) simp
  then show ?thesis by (subst q) simp
qed

lemma unat_cell:
  assumes "page_aligned t" "i < 512"
  shows "unat (t + 8 * i) = unat t + 8 * unat i"
proof -
  have i: "unat i < 512" using assms(2) by (simp add: word_less_iff_unat)
  then have "unat (8 * i) = 8 * unat i" by (simp add: unat_word_ariths)
  moreover have "unat t + 4096 \<le> 2 ^ 64"
    using assms(1) page_room by simp
  ultimately show ?thesis using i by (subst unat_plus_no_wrap) simp_all
qed

lemma cell_aligned: "page_aligned t \<Longrightarrow> i < 512 \<Longrightarrow> aligned8 (t + 8 * i)"
  unfolding aligned8_def by (subst unat_cell) (auto simp: page_aligned_def mod_add_eq [symmetric] intro: mod_mod_cancel)

lemma cell_inj:
  assumes "page_aligned t" "page_aligned u" "i < 512" "j < 512"
  shows "t + 8 * i = u + 8 * j \<longleftrightarrow> t = u \<and> i = j"
proof
  assume "t + 8 * i = u + 8 * j"
  then have eq: "unat t + 8 * unat i = unat u + 8 * unat j"
    using unat_cell assms by metis
  have ij: "unat i < 512" "unat j < 512" using assms by (simp_all add: word_less_iff_unat)
  define q r where "q = unat t div 4096" and "r = unat u div 4096"
  have t: "unat t = 4096 * q" "unat u = 4096 * r"
    using assms(1,2) mult_div_mod_eq [of 4096 "unat t"] mult_div_mod_eq [of 4096 "unat u"]
    by (simp_all add: page_aligned_def q_def r_def)
  then have "512 * q + unat i = 512 * r + unat j" using eq by simp
  then have "(512 * q + unat i) div 512 = (512 * r + unat j) div 512" by simp
  then have "q = r" using ij by simp
  with eq t show "t = u \<and> i = j" by (simp add: word_unat_eq_iff)
qed simp

lemma entry_set_entry:
  assumes "page_aligned t" "page_aligned u" "i < 512" "j < 512"
  shows "entry (set_entry u j v s) t i = (if t = u \<and> i = j then v else entry s t i)"
  using mem.rd_wr [OF cell_aligned [OF assms(1,3)] cell_aligned [OF assms(2,4)], of "phys_mem s" v]
    cell_inj [OF assms] by (simp add: entry_def set_entry_def)

lemma set_entry_frame [simp]:
  "frames (set_entry t i v s) = frames s" "current_pml4 (set_entry t i v s) = current_pml4 s"
  by (simp_all add: set_entry_def)

lemma frames_entry [simp]: "entry (s\<lparr>frames := p\<rparr>) t i = entry s t i"
  by (simp add: entry_def)

lemma zero_table_frame [simp]:
  "frames (zero_table t s) = frames s" "current_pml4 (zero_table t s) = current_pml4 s"
proof -
  have "frames (fold (\<lambda>i. set_entry t (of_nat i) 0) xs s) = frames s \<and>
      current_pml4 (fold (\<lambda>i. set_entry t (of_nat i) 0) xs s) = current_pml4 s" for xs
    by (induction xs arbitrary: s) simp_all
  then show "frames (zero_table t s) = frames s" "current_pml4 (zero_table t s) = current_pml4 s"
    unfolding zero_table_def by blast+
qed

lemma entry_zero_table:
  assumes "page_aligned t" "page_aligned u" "i < 512"
  shows "entry (zero_table u s) t i = (if t = u then 0 else entry s t i)"
proof -
  have fill: "entry (fold (\<lambda>i. set_entry u (of_nat i) 0) xs s) t i =
      (if t = u \<and> i \<in> of_nat ` set xs then 0 else entry s t i)" if "set xs \<subseteq> {..<512}" for xs
    using that
  proof (induction xs arbitrary: s)
    case (Cons x xs)
    have "(of_nat x :: u64) < 512"
      using Cons.prems by (simp add: word_less_iff_unat unat_of_nat_small)
    with Cons show ?case by (auto simp: entry_set_entry assms)
  qed simp
  have "i = of_nat (unat i)" by simp
  then have "i \<in> of_nat ` {0..<512}" using assms(3) by (intro image_eqI) (auto simp: word_less_iff_unat)
  moreover have "set [0..<512] \<subseteq> {..<512 :: nat}" by auto
  ultimately show ?thesis using fill [of "[0..<512]"] by (simp add: zero_table_def del: upt_rec_numeral)
qed

lemma alloc_frame_frame [simp]: "alloc_frame s = (a, s') \<Longrightarrow> phys_mem s' = phys_mem s \<and> current_pml4 s' = current_pml4 s"
  by (auto simp: alloc_frame_def split: prod.splits)

lemma get_existing_table_eq:
  "get_existing_table s t i = (if present (entry s t i) then entry_base (entry s t i) else 0)"
  by (simp add: get_existing_table_def present_def entry_base_def)


subsection \<open>Bits of entries\<close>

lemma page_aligned_bits: "page_aligned t \<longleftrightarrow> (\<forall>n<12. \<not> bit t n)"
proof -
  have "unat t mod 4096 = take_bit 12 (unat t)" by (simp add: take_bit_eq_mod)
  also have "\<dots> = unat (take_bit 12 t)" by (simp only: unsigned_take_bit_eq)
  finally have "page_aligned t \<longleftrightarrow> take_bit 12 t = 0"
    by (simp add: page_aligned_def unsigned_eq_0_iff)
  also have "\<dots> \<longleftrightarrow> (\<forall>n<12. \<not> bit t n)"
    by (auto simp: bit_eq_iff bit_take_bit_iff)
  finally show ?thesis .
qed

lemma low12: "(0xFFF :: u64) = mask 12"
  by (simp add: mask_eq_decr_exp)

lemma entry_base_bit: "bit (entry_base e) n \<longleftrightarrow> bit e n \<and> 12 \<le> n"
  by (simp only: entry_base_def low12 bit_and_iff bit_not_iff bit_mask_iff)
     (auto dest: bit_imp_le_length)

lemma entry_base_aligned: "page_aligned (entry_base e)"
  by (simp add: page_aligned_bits entry_base_bit)

lemma present_bit: "present e \<longleftrightarrow> bit e 0"
  using and_exp_eq_0_iff_not_bit [of e 0] by (simp add: present_def PAGE_PRESENT_def)

lemma huge_bit: "huge e \<longleftrightarrow> bit e 7"
  using and_exp_eq_0_iff_not_bit [of e 7] by (simp add: huge_def PAGE_HUGE_def)

lemma bit_small:
  "bit (1 :: u64) n \<longleftrightarrow> n = 0" "bit (2 :: u64) n \<longleftrightarrow> n = 1" "bit (4 :: u64) n \<longleftrightarrow> n = 2"
  "bit (0x80 :: u64) n \<longleftrightarrow> n = 7" "bit (0x200 :: u64) n \<longleftrightarrow> n = 9"
proof -
  have e: "bit (push_bit k 1 :: u64) n \<longleftrightarrow> n = k" if "k < 64" for k
    using that by (auto simp: bit_exp_iff possible_bit_word)
  show "bit (1 :: u64) n \<longleftrightarrow> n = 0" "bit (2 :: u64) n \<longleftrightarrow> n = 1" "bit (4 :: u64) n \<longleftrightarrow> n = 2"
    "bit (0x80 :: u64) n \<longleftrightarrow> n = 7" "bit (0x200 :: u64) n \<longleftrightarrow> n = 9"
    using e [of 0] e [of 1] e [of 2] e [of 7] e [of 9] by (simp_all add: push_bit_of_1)
qed

lemma table_entry:
  assumes "page_aligned t"
  defines "e \<equiv> t OR PAGE_PRESENT OR PAGE_WRITABLE OR PAGE_USER"
  shows "present e" "\<not> huge e" "entry_base e = t"
proof -
  have b: "bit e n \<longleftrightarrow> bit t n \<or> n = 0 \<or> n = 1 \<or> n = 2" for n
    by (simp only: e_def PAGE_PRESENT_def PAGE_WRITABLE_def PAGE_USER_def bit_or_iff bit_small)
  have low: "\<not> bit t n" if "n < 12" for n using assms(1) that by (simp add: page_aligned_bits)
  show "present e" "\<not> huge e" using low [of 7] by (simp_all add: present_bit huge_bit b)
  show "entry_base e = t"
    using low by (intro bit_word_eqI) (auto simp: entry_base_bit b not_less [symmetric])
qed

lemma present_0 [simp]: "\<not> present 0"
  by (simp add: present_def)

subsection \<open>Allocating a table\<close>

lemma alloc_zeroed_null:
  assumes "pmm_inv (frames s)" "alloc_zeroed_table s = (0, s1)"
  shows "s1 = s" "free_frames (frames s) = {}"
proof -
  obtain a q where aq: "pmm_alloc_frame (frames s) = (a, q)" by fastforce
  have "a = 0" "s1 = s\<lparr>frames := q\<rparr>"
    using assms(2) aq by (auto simp: alloc_zeroed_table_def alloc_frame_def split: if_splits)
  moreover from this aq have "q = frames s" "free_frames (frames s) = {}"
    using alloc_cases [OF assms(1), of 0 q] by blast+
  ultimately show "s1 = s" "free_frames (frames s) = {}" by simp_all
qed

lemma alloc_zeroed:
  assumes inv: "pmm_inv (frames s)" and eq: "alloc_zeroed_table s = (nt, s1)" and nz: "nt \<noteq> 0"
  shows "is_frame nt" "\<not> used (frames s) (frame_no nt)" "pmm_inv (frames s1)"
    "\<And>f. used (frames s1) f \<longleftrightarrow> used (frames s) f \<or> f = frame_no nt"
    "nt \<in> free_frames (frames s)" "free_frames (frames s1) = free_frames (frames s) - {nt}"
    "ref_counts (frames s1) = (ref_counts (frames s))(frame_no nt := 1)"
    "\<And>t i. page_aligned t \<Longrightarrow> i < 512 \<Longrightarrow> entry s1 t i = (if t = nt then 0 else entry s t i)"
    "current_pml4 s1 = current_pml4 s"
proof -
  obtain a q where aq: "pmm_alloc_frame (frames s) = (a, q)" by fastforce
  have nt: "nt = a" and s1: "s1 = zero_table nt (s\<lparr>frames := q\<rparr>)"
    using eq aq nz by (auto simp: alloc_zeroed_table_def alloc_frame_def split: if_splits)
  note aq = aq [folded nt]
  show mem: "nt \<in> free_frames (frames s)" using alloc_free_frames(1) [OF inv aq nz] .
  then show fr: "is_frame nt" "\<not> used (frames s) (frame_no nt)" by (simp_all add: free_frames_def)
  show "pmm_inv (frames s1)" using pmm_inv_alloc [OF inv aq] by (simp add: s1)
  show "free_frames (frames s1) = free_frames (frames s) - {nt}"
    using alloc_free_frames(2) [OF inv aq nz] by (simp add: s1)
  show "ref_counts (frames s1) = (ref_counts (frames s))(frame_no nt := 1)"
    using alloc_free_frames(3) [OF inv aq nz] by (simp add: s1)
  show "used (frames s1) f \<longleftrightarrow> used (frames s) f \<or> f = frame_no nt" for f
    using inv aq nz by (cases rule: alloc_cases) (simp_all add: s1)
  show "entry s1 t i = (if t = nt then 0 else entry s t i)" if "page_aligned t" "i < 512" for t i
    using that fr(1) by (simp add: s1 entry_zero_table is_frame_def)
  show "current_pml4 s1 = current_pml4 s" by (simp add: s1)
qed

lemma ensure_existing: "get_existing_table s t i \<noteq> 0 \<Longrightarrow> ensure_next_table t i s = (get_existing_table s t i, s)"
  by (simp add: ensure_next_table_def)

lemma ensure_new:
  assumes "get_existing_table s t i = 0" "alloc_zeroed_table s = (nt, s1)" "nt \<noteq> 0"
    "get_existing_table s1 t i = 0"
  shows "ensure_next_table t i s = (nt, set_entry t i (nt OR PAGE_PRESENT OR PAGE_WRITABLE OR PAGE_USER) s1)"
  using assms by (simp add: ensure_next_table_def install_table_def)

text \<open>What \<open>ensure_next_table\<close> promises: the slot is linked, tables only grow, no translation changes.\<close>

definition grows :: "vmm_state \<Rightarrow> (u64 \<Rightarrow> nat) \<Rightarrow> vmm_state \<Rightarrow> (u64 \<Rightarrow> nat) \<Rightarrow> u64 \<Rightarrow> bool" where
  "grows s lvl s' lvl' p \<longleftrightarrow> vm_wf s' lvl' p \<and> (\<forall>x. 0 < lvl x \<longrightarrow> lvl' x = lvl x) \<and>
     (\<forall>x j. link s lvl x j \<longrightarrow> link s' lvl' x j \<and> entry_base (entry s' x j) = entry_base (entry s x j)) \<and>
     (\<forall>x v. 0 < lvl x \<longrightarrow> walk s' (lvl x) x v = walk s (lvl x) x v)"

lemma wf_table: "vm_wf s lvl p \<Longrightarrow> 0 < lvl t \<Longrightarrow> page_aligned t \<and> t \<noteq> 0"
  unfolding vm_wf_def is_frame_def by blast

lemma wf_pmm: "vm_wf s lvl p \<Longrightarrow> pmm_inv (frames s)"
  unfolding vm_wf_def by blast

lemma wf_root: "vm_wf s lvl p \<Longrightarrow> lvl p = 4"
  unfolding vm_wf_def by blast

lemma wf_used: "vm_wf s lvl p \<Longrightarrow> 0 < lvl t \<Longrightarrow> is_frame t \<and> t \<noteq> 0 \<and> used (frames s) (frame_no t)"
  unfolding vm_wf_def by blast

lemma wf_link: "vm_wf s lvl p \<Longrightarrow> link s lvl t i \<Longrightarrow> lvl (entry_base (entry s t i)) = lvl t - 1"
  unfolding vm_wf_def by blast

lemma wf_inj:
  "vm_wf s lvl p \<Longrightarrow> link s lvl t i \<Longrightarrow> link s lvl t' i' \<Longrightarrow>
   entry_base (entry s t i) = entry_base (entry s t' i') \<Longrightarrow> t = t' \<and> i = i'"
  unfolding vm_wf_def by blast

lemma walk_step:
  assumes "lvl x = Suc n"
  shows "walk s (Suc n) x v =
    (if link s lvl x (level_index (Suc n) v) then walk s n (entry_base (entry s x (level_index (Suc n) v))) v
     else leaf (Suc n) (entry s x (level_index (Suc n) v)) v)"
proof (cases n)
  case 0
  with assms show ?thesis by (simp add: link_def leaf_def Let_def)
next
  case (Suc k)
  with assms level_index_less [of "Suc n" v] show ?thesis
    by (cases "k = 0"; cases "present (entry s x (level_index (Suc n) v))"; cases "huge (entry s x (level_index (Suc n) v))")
       (auto simp: link_def leaf_def Let_def)
qed

declare walk.simps(2) [simp del]

lemma walk_unchanged:
  assumes wf: "vm_wf s lvl p" "vm_wf s' lvl' p" "\<And>x. 0 < lvl x \<Longrightarrow> lvl' x = lvl x"
    and same: "\<And>x j. 0 < lvl x \<Longrightarrow> j < 512 \<Longrightarrow> (x, j) \<noteq> (t, i) \<Longrightarrow> entry s' x j = entry s x j"
    and slot: "\<And>v. 0 < lvl t \<Longrightarrow> level_index (lvl t) v = i \<Longrightarrow> walk s' (lvl t) t v = walk s (lvl t) t v"
  shows "lvl x = n \<Longrightarrow> walk s' n x v = walk s n x v"
proof (induction n arbitrary: x)
  case (Suc n)
  let ?i = "level_index (Suc n) v"
  show ?case
  proof (cases "(x, ?i) = (t, i)")
    case True
    then show ?thesis using slot Suc.prems by force
  next
    case False
    then have e: "entry s' x ?i = entry s x ?i" using same Suc.prems level_index_less by simp
    then have l: "link s' lvl' x ?i \<longleftrightarrow> link s lvl x ?i" using wf(3) Suc.prems by (simp add: link_def)
    have "lvl (entry_base (entry s x ?i)) = n" if "link s lvl x ?i"
      using wf_link [OF wf(1) that] Suc.prems by simp
    then show ?thesis
      using walk_step [of lvl x n s v] walk_step [of lvl' x n s' v] wf(3) Suc l e by simp
  qed
qed simp

lemma ensure_grows:
  assumes wf: "vm_wf s lvl p" and t: "2 \<le> lvl t" "i < 512"
    and not_leaf: "\<not> (lvl t = 2 \<and> present (entry s t i) \<and> huge (entry s t i))"
    and eq: "ensure_next_table t i s = (nx, s')" and nx: "nx \<noteq> 0"
  shows "\<exists>lvl'. grows s lvl s' lvl' p \<and> link s' lvl' t i \<and> entry_base (entry s' t i) = nx \<and> lvl' nx = lvl t - 1 \<and>
    card (free_frames (frames s)) \<le> card (free_frames (frames s')) + 1"
proof (cases "get_existing_table s t i = 0")
  case False
  then have pr: "present (entry s t i)" by (metis get_existing_table_eq)
  have "(nx, s') = (get_existing_table s t i, s)" using eq ensure_existing [OF False] by metis
  then have r: "nx = entry_base (entry s t i)" "s' = s" using pr by (simp_all add: get_existing_table_eq)
  from pr have "link s lvl t i" using t not_leaf by (simp add: link_def)
  then show ?thesis using wf r wf_link by (intro exI [of _ lvl]) (simp add: grows_def)
next
  case True
  have absent: "\<not> present (entry s t i)"
  proof
    assume pr: "present (entry s t i)"
    then have "link s lvl t i" using t not_leaf by (auto simp: link_def)
    then have "lvl (entry_base (entry s t i)) = lvl t - 1" by (rule wf_link [OF wf])
    then have "entry_base (entry s t i) \<noteq> 0" using wf_table [OF wf, of 0] t by force
    with True pr show False by (simp add: get_existing_table_eq)
  qed
  obtain nt s1 where alloc: "alloc_zeroed_table s = (nt, s1)" by fastforce
  have nz: "nt \<noteq> 0" using eq True alloc nx by (auto simp: ensure_next_table_def split: if_splits)
  have inv: "pmm_inv (frames s)" using wf by (rule wf_pmm)
  note nt = alloc_zeroed [OF inv alloc nz]
  have tab: "lvl nt = 0" using nt(2) wf_used [OF wf, of nt] by blast
  then have tn: "t \<noteq> nt" using t by auto
  have pa: "page_aligned t" "page_aligned nt" using wf_table [OF wf, of t] t nt(1) by (auto simp: is_frame_def)
  note te = table_entry [OF pa(2)]
  let ?e = "nt OR PAGE_PRESENT OR PAGE_WRITABLE OR PAGE_USER"
  have "get_existing_table s1 t i = 0" using nt(8) [OF pa(1) t(2)] tn absent by (simp add: get_existing_table_eq)
  then have s': "nx = nt" "s' = set_entry t i ?e s1"
    using ensure_new [OF True alloc nz] eq by auto
  have ent: "entry s' x j = (if (x, j) = (t, i) then ?e else if x = nt then 0 else entry s x j)"
    if "page_aligned x" "j < 512" for x j
    using nt(8) that pa t(2) by (simp add: s' entry_set_entry)
  define lvl' where "lvl' = lvl(nt := lvl t - 1)"
  have l': "0 < lvl x \<Longrightarrow> lvl' x = lvl x" for x using tab by (auto simp: lvl'_def)
  have lk: "link s' lvl' x j \<longleftrightarrow> link s lvl x j \<or> (x, j) = (t, i)" for x j
  proof (cases "2 \<le> lvl' x \<and> j < 512")
    case True
    then have "page_aligned x" using wf_table [OF wf, of x] pa(2) by (cases "x = nt") (auto simp: lvl'_def)
    then show ?thesis using ent [of x j] True te tn t absent tab
      by (cases "x = nt") (auto simp: link_def lvl'_def)
  next
    case False
    then show ?thesis using l' [of x] t tn by (auto simp: link_def lvl'_def)
  qed
  have base: "entry_base (entry s' x j) = (if (x, j) = (t, i) then nt else entry_base (entry s x j))"
    if "link s' lvl' x j" for x j
  proof -
    have "page_aligned x" "j < 512" "x = nt \<Longrightarrow> (x, j) = (t, i)"
      using that wf_table [OF wf, of x] pa tab lk [of nt j] by (auto simp: link_def lvl'_def split: if_splits)
    then show ?thesis using ent [of x j] te by auto
  qed
  have fresh: "entry_base (entry s x j) \<noteq> nt" if "link s lvl x j" for x j
  proof -
    have "lvl (entry_base (entry s x j)) = lvl x - 1" "2 \<le> lvl x"
      using wf_link [OF wf that] that by (simp_all add: link_def)
    with tab show ?thesis by auto
  qed
  have tab_link: "link s lvl x j \<Longrightarrow> x \<noteq> nt" for x j using tab by (auto simp: link_def)
  have wf': "vm_wf s' lvl' p"
    unfolding vm_wf_def
  proof (intro conjI allI impI)
    show "pmm_inv (frames s')" using nt(3) by (simp add: s')
    show "lvl' p = 4" using l' [of p] wf_root [OF wf] by simp
    fix x assume "0 < lvl' x"
    then show "is_frame x" "x \<noteq> 0" "used (frames s') (frame_no x)"
      using wf_used [OF wf, of x] nt(1,4) nz by (auto simp: s' lvl'_def split: if_splits)
  next
    fix x j assume "link s' lvl' x j"
    then show "lvl' (entry_base (entry s' x j)) = lvl' x - 1"
      using base [of x j] lk [of x j] fresh [of x j] wf_link [OF wf, of x j] tn
      by (cases "link s lvl x j") (auto simp: lvl'_def tab_link)
  next
    fix x j x' j'
    assume a: "link s' lvl' x j \<and> link s' lvl' x' j' \<and> entry_base (entry s' x j) = entry_base (entry s' x' j')"
    show "x = x'" "j = j'"
      using a base [of x j] base [of x' j'] lk [of x j] lk [of x' j'] fresh [of x j] fresh [of x' j']
        wf_inj [OF wf, of x j x' j'] by (auto split: if_splits)
  qed
  have walks: "walk s' (lvl x) x v = walk s (lvl x) x v" for x v
  proof (rule walk_unchanged [OF wf wf' l' _ _ refl])
    show "entry s' x j = entry s x j" if "0 < lvl x" "j < 512" "(x, j) \<noteq> (t, i)" for x j
      using ent [of x j] that wf_table [OF wf, of x] tab by auto
    fix v assume i: "level_index (lvl t) v = i"
    obtain k where k: "lvl t = Suc (Suc k)" using t(1) by (metis add_2_eq_Suc le_Suc_ex)
    have "walk s' (Suc k) nt v = None"
    proof -
      let ?j = "level_index (Suc k) v"
      have "entry s' nt ?j = 0" using ent [of nt ?j] pa(2) tn level_index_less by auto
      moreover have "\<not> link s' lvl' nt ?j" using lk [of nt ?j] tn tab by (auto simp: link_def)
      ultimately show ?thesis using walk_step [of lvl' nt k s' v] k by (simp add: lvl'_def leaf_def)
    qed
    moreover have "\<not> link s lvl t i" using absent by (simp add: link_def)
    moreover have "link s' lvl' t i" "entry_base (entry s' t i) = nt" using lk base by auto
    ultimately show "walk s' (lvl t) t v = walk s (lvl t) t v"
      using walk_step [of lvl t "Suc k" s v] walk_step [of lvl' t "Suc k" s' v] k l' [of t] i absent
      by (simp add: leaf_def)
  qed simp_all
  have "grows s lvl s' lvl' p"
    unfolding grows_def
  proof (intro conjI allI impI)
    fix x j assume l: "link s lvl x j"
    then have "(x, j) \<noteq> (t, i)" using absent by (auto simp: link_def)
    then show "link s' lvl' x j" "entry_base (entry s' x j) = entry_base (entry s x j)"
      using lk [of x j] base [of x j] l by auto
  qed (use wf' l' walks in simp_all)
  moreover have "card (free_frames (frames s)) \<le> card (free_frames (frames s')) + 1"
    using nt(5,6) card_Suc_Diff1 [of "free_frames (frames s)" nt] by (simp add: s' free_frames_stack inv)
  ultimately show ?thesis using lk base s'(1) by (intro exI [of _ lvl']) (auto simp: lvl'_def)
qed


section \<open>Paths\<close>

text \<open>The walk of \<open>v\<close> from table \<open>x\<close> of level \<open>n\<close> goes through table \<open>t\<close>.\<close>

fun visits :: "vmm_state \<Rightarrow> (u64 \<Rightarrow> nat) \<Rightarrow> nat \<Rightarrow> u64 \<Rightarrow> u64 \<Rightarrow> u64 \<Rightarrow> bool" where
  "visits s lvl 0 x v t \<longleftrightarrow> False"
| "visits s lvl (Suc n) x v t \<longleftrightarrow> x = t \<or>
     link s lvl x (level_index (Suc n) v) \<and> visits s lvl n (entry_base (entry s x (level_index (Suc n) v))) v t"

lemma visits_root: "visits s lvl 4 p v p"
  by (simp add: numeral_eq_Suc)

definition same_region :: "nat \<Rightarrow> u64 \<Rightarrow> u64 \<Rightarrow> bool" where
  "same_region k v w \<longleftrightarrow> (\<forall>m. k \<le> m \<and> m \<le> 4 \<longrightarrow> level_index m v = level_index m w)"

lemma visits_level: "vm_wf s lvl p \<Longrightarrow> visits s lvl n x v t \<Longrightarrow> lvl x = n \<Longrightarrow> 0 < lvl t \<and> lvl t \<le> n \<and> (lvl t = n \<longrightarrow> x = t)"
proof (induction n arbitrary: x)
  case (Suc n)
  show ?case
  proof (cases "x = t")
    case False
    then have l: "link s lvl x (level_index (Suc n) v)"
      "visits s lvl n (entry_base (entry s x (level_index (Suc n) v))) v t" using Suc.prems by auto
    then show ?thesis using Suc.IH [OF Suc.prems(1) l(2)] wf_link [OF Suc.prems(1) l(1)] Suc.prems by simp
  qed (use Suc.prems in simp)
qed simp

lemma visits_grows:
  assumes "grows s lvl s' lvl' p" "vm_wf s lvl p"
  shows "visits s lvl n x v t \<Longrightarrow> lvl x = n \<Longrightarrow> visits s' lvl' n x v t"
proof (induction n arbitrary: x)
  case (Suc n)
  let ?i = "level_index (Suc n) v"
  have g: "link s lvl x ?i \<Longrightarrow> link s' lvl' x ?i \<and> entry_base (entry s' x ?i) = entry_base (entry s x ?i)"
    using assms(1) unfolding grows_def by blast
  show ?case
  proof (cases "x = t")
    case False
    then have l: "link s lvl x ?i" "visits s lvl n (entry_base (entry s x ?i)) v t" using Suc.prems by auto
    then have "lvl (entry_base (entry s x ?i)) = n" using wf_link [OF assms(2) l(1)] Suc.prems by simp
    with Suc.IH [OF l(2)] g [OF l(1)] show ?thesis by simp
  qed simp
qed simp

lemma visits_extend:
  assumes "vm_wf s lvl p"
  shows "visits s lvl n x v t \<Longrightarrow> lvl x = n \<Longrightarrow> link s lvl t (level_index (lvl t) v) \<Longrightarrow>
    visits s lvl n x v (entry_base (entry s t (level_index (lvl t) v)))"
proof (induction n arbitrary: x)
  case (Suc n)
  show ?case
  proof (cases "x = t")
    case True
    with Suc.prems obtain k where "n = Suc k" by (cases n) (auto simp: link_def)
    with Suc.prems True show ?thesis by simp
  next
    case False
    then have l: "link s lvl x (level_index (Suc n) v)"
      "visits s lvl n (entry_base (entry s x (level_index (Suc n) v))) v t" using Suc.prems by auto
    then show ?thesis using Suc.IH [OF l(2)] wf_link [OF assms l(1)] Suc.prems by simp
  qed
qed simp

lemma visits_walk:
  assumes "vm_wf s lvl p"
  shows "visits s lvl n x v t \<Longrightarrow> lvl x = n \<Longrightarrow> walk s n x v = walk s (lvl t) t v"
proof (induction n arbitrary: x)
  case (Suc n)
  show ?case
  proof (cases "x = t")
    case True
    with Suc.prems show ?thesis by simp
  next
    case False
    then have l: "link s lvl x (level_index (Suc n) v)"
      "visits s lvl n (entry_base (entry s x (level_index (Suc n) v))) v t" using Suc.prems by auto
    then show ?thesis
      using Suc.IH [OF l(2)] wf_link [OF assms l(1)] walk_step [of lvl x n s v] Suc.prems by simp
  qed
qed simp

lemma visits_unique:
  assumes wf: "vm_wf s lvl p"
  shows "visits s lvl n x v t \<Longrightarrow> visits s lvl n y w t \<Longrightarrow> lvl x = n \<Longrightarrow> lvl y = n \<Longrightarrow>
    x = y \<and> (\<forall>m. lvl t < m \<and> m \<le> n \<longrightarrow> level_index m v = level_index m w)"
proof (induction n arbitrary: x y)
  case (Suc n)
  show ?case
  proof (cases "x = t \<or> y = t")
    case True
    then show ?thesis
      using visits_level [OF wf Suc.prems(1,3)] visits_level [OF wf Suc.prems(2,4)] Suc.prems(3,4) by auto
  next
    case False
    let ?i = "level_index (Suc n) v" and ?j = "level_index (Suc n) w"
    have l: "link s lvl x ?i" "visits s lvl n (entry_base (entry s x ?i)) v t"
      "link s lvl y ?j" "visits s lvl n (entry_base (entry s y ?j)) w t" using Suc.prems False by auto
    have "lvl (entry_base (entry s x ?i)) = n" "lvl (entry_base (entry s y ?j)) = n"
      using wf_link [OF wf l(1)] wf_link [OF wf l(3)] Suc.prems by simp_all
    note IH = Suc.IH [OF l(2,4) this]
    have "x = y \<and> ?i = ?j" using wf_inj [OF wf l(1,3)] IH by blast
    with IH show ?thesis using le_Suc_eq by auto
  qed
qed simp

lemma visits_same:
  assumes wf: "vm_wf s lvl p"
  shows "visits s lvl n x v t \<Longrightarrow> lvl x = n \<Longrightarrow> \<forall>m. lvl t < m \<and> m \<le> n \<longrightarrow> level_index m v = level_index m w \<Longrightarrow>
    visits s lvl n x w t"
proof (induction n arbitrary: x)
  case (Suc n)
  show ?case
  proof (cases "x = t")
    case False
    then have l: "link s lvl x (level_index (Suc n) v)"
      "visits s lvl n (entry_base (entry s x (level_index (Suc n) v))) v t" using Suc.prems by auto
    have b: "lvl (entry_base (entry s x (level_index (Suc n) v))) = n"
      using wf_link [OF wf l(1)] Suc.prems by simp
    then have "lvl t \<le> n" using visits_level [OF wf l(2)] by simp
    then have "level_index (Suc n) v = level_index (Suc n) w" using Suc.prems(3) by simp
    with Suc.IH [OF l(2) b] l Suc.prems(3) show ?thesis by simp
  qed simp
qed simp

text \<open>Writing a leaf entry on the path of \<open>v\<close> changes the translation of that region only.\<close>

lemma set_leaf:
  assumes wf: "vm_wf s lvl p" and vis: "visits s lvl 4 p v t" and lt: "lvl t = 1 \<or> lvl t = 2"
    and e: "lvl t = 2 \<Longrightarrow> present e \<Longrightarrow> huge e"
  defines "s' \<equiv> set_entry t (level_index (lvl t) v) e s"
  shows "vm_wf s' lvl p"
    and "translate s' p w = (if same_region (lvl t) v w then leaf (lvl t) e w else translate s p w)"
proof -
  let ?i = "level_index (lvl t) v"
  have ent: "entry s' x j = (if x = t \<and> j = ?i then e else entry s x j)" if "0 < lvl x" "j < 512" for x j
    using entry_set_entry [of x t j ?i e s] wf_table [OF wf, of x] wf_table [OF wf, of t] that lt level_index_less
    by (auto simp: s'_def)
  have lk: "link s' lvl x j \<longleftrightarrow> link s lvl x j \<and> (x, j) \<noteq> (t, ?i)" for x j
    using ent [of x j] e lt by (cases "(x, j) = (t, ?i)") (auto simp: link_def)
  have same: "entry s' x j = entry s x j" if "link s' lvl x j" for x j
    using that ent [of x j] lk [of x j] by (auto simp: link_def)
  show wf': "vm_wf s' lvl p"
    unfolding vm_wf_def
  proof (intro conjI allI impI)
    show "pmm_inv (frames s')" using wf_pmm [OF wf] by (simp add: s'_def)
    show "lvl p = 4" using wf_root [OF wf] .
    show "is_frame x" "x \<noteq> 0" "used (frames s') (frame_no x)" if "0 < lvl x" for x
      using wf_used [OF wf that] by (simp_all add: s'_def)
    show "lvl (entry_base (entry s' x j)) = lvl x - 1" if "link s' lvl x j" for x j
      using wf_link [OF wf, of x j] same [OF that] lk that by simp
    show "x = x'" "j = j'" if "link s' lvl x j \<and> link s' lvl x' j' \<and> entry_base (entry s' x j) = entry_base (entry s' x' j')"
      for x j x' j'
      using wf_inj [OF wf, of x j x' j'] same [of x j] same [of x' j'] lk that by auto
  qed
  have t': "walk s' (lvl t) t w = (if level_index (lvl t) w = ?i then leaf (lvl t) e w else walk s (lvl t) t w)" for w
  proof -
    obtain k where k: "lvl t = Suc k" using lt by (cases "lvl t") auto
    let ?j = "level_index (Suc k) w"
    have ej: "entry s' t ?j = (if ?j = ?i then e else entry s t ?j)"
      using ent [of t ?j] k level_index_less by simp
    show ?thesis
    proof (cases "?j = ?i")
      case True
      then show ?thesis using walk_step [of lvl t k s' w] ej lk [of t ?j] k by simp
    next
      case False
      have "walk s' k (entry_base (entry s t ?j)) w = walk s k (entry_base (entry s t ?j)) w" if "link s lvl t ?j"
      proof -
        have k1: "k = 1" "lvl (entry_base (entry s t ?j)) = Suc 0"
          using that lt k wf_link [OF wf that] by (auto simp: link_def)
        let ?y = "entry_base (entry s t ?j)"
        have "entry s' ?y (level_index 1 w) = entry s ?y (level_index 1 w)"
          using ent [of ?y "level_index 1 w"] k1 k level_index_less [of 1 w] by auto
        then show ?thesis
          using walk_step [of lvl ?y 0 s' w] walk_step [of lvl ?y 0 s w] k1 by (simp add: link_def)
      qed
      then show ?thesis
        using walk_step [of lvl t k s' w] walk_step [of lvl t k s w] ej lk [of t ?j] k False by auto
    qed
  qed
  have go: "walk s' n x w = (if visits s lvl n x w t then walk s' (lvl t) t w else walk s n x w)"
    if "lvl x = n" for n x
    using that
  proof (induction n arbitrary: x)
    case (Suc n)
    let ?j = "level_index (Suc n) w"
    show ?case
    proof (cases "x = t")
      case True
      then show ?thesis using Suc.prems by simp
    next
      case False
      then have e: "entry s' x ?j = entry s x ?j" "link s' lvl x ?j \<longleftrightarrow> link s lvl x ?j"
        using ent [of x ?j] lk [of x ?j] Suc.prems level_index_less by auto
      have "lvl (entry_base (entry s x ?j)) = n" if "link s lvl x ?j" using wf_link [OF wf that] Suc.prems by simp
      then show ?thesis
        using Suc.IH [of "entry_base (entry s x ?j)"] walk_step [of lvl x n s w] walk_step [of lvl x n s' w]
          Suc.prems False e by auto
    qed
  qed simp
  have region: "same_region (lvl t) v w \<longleftrightarrow> visits s lvl 4 p w t \<and> level_index (lvl t) w = ?i"
  proof -
    have "lvl t \<le> 4" using lt by auto
    then have "same_region (lvl t) v w \<longleftrightarrow>
        level_index (lvl t) v = level_index (lvl t) w \<and> (\<forall>m. lvl t < m \<and> m \<le> 4 \<longrightarrow> level_index m v = level_index m w)"
      unfolding same_region_def by (metis le_neq_implies_less less_imp_le order_refl)
    then show ?thesis
      using visits_same [OF wf vis wf_root [OF wf], of w] visits_unique [OF wf vis _ wf_root [OF wf] wf_root [OF wf], of w]
      by metis
  qed
  show "translate s' p w = (if same_region (lvl t) v w then leaf (lvl t) e w else translate s p w)"
    using go [OF wf_root [OF wf]] t' visits_walk [OF wf _ wf_root [OF wf], of w t] region
    by (auto simp: translate_def)
qed


section \<open>The operations on well-formed tables\<close>

lemma ensure_null:
  assumes "pmm_inv (frames s)" "ensure_next_table t i s = (0, s')"
  shows "s' = s" "free_frames (frames s) = {}"
proof -
  obtain nt s1 where a: "alloc_zeroed_table s = (nt, s1)" by fastforce
  have "nt = 0" "s' = s1"
    using assms(2) a by (auto simp: ensure_next_table_def install_table_def Let_def split: if_splits)
  with alloc_zeroed_null [OF assms(1), of s1] a show "s' = s" "free_frames (frames s) = {}" by auto
qed

lemma ensure_path:
  assumes wf: "vm_wf s lvl p" and vis: "visits s lvl 4 p v t" and t: "2 \<le> lvl t"
    and nl: "\<not> (lvl t = 2 \<and> present (entry s t (level_index 2 v)) \<and> huge (entry s t (level_index 2 v)))"
    and eq: "ensure_next_table t (level_index (lvl t) v) s = (nx, s')" and nx: "nx \<noteq> 0"
  obtains lvl' where "vm_wf s' lvl' p" "visits s' lvl' 4 p v nx" "lvl' nx = lvl t - 1"
    "\<And>w. translate s' p w = translate s p w" "card (free_frames (frames s)) \<le> card (free_frames (frames s')) + 1"
proof -
  let ?i = "level_index (lvl t) v"
  have nl': "\<not> (lvl t = 2 \<and> present (entry s t ?i) \<and> huge (entry s t ?i))" using nl by auto
  from ensure_grows [OF wf t level_index_less nl' eq nx] obtain lvl' where
    l: "grows s lvl s' lvl' p" "link s' lvl' t ?i" "entry_base (entry s' t ?i) = nx" "lvl' nx = lvl t - 1"
      "card (free_frames (frames s)) \<le> card (free_frames (frames s')) + 1" by blast
  have wf': "vm_wf s' lvl' p" and lt: "lvl' t = lvl t" using l(1) t unfolding grows_def by auto
  have "visits s' lvl' 4 p v t" using visits_grows [OF l(1) wf vis wf_root [OF wf]] .
  then have "visits s' lvl' 4 p v nx"
    using visits_extend [OF wf' _ wf_root [OF wf']] l(2,3) lt by metis
  moreover have "translate s' p w = translate s p w" for w
    using l(1) wf_root [OF wf] unfolding grows_def translate_def by (metis zero_less_numeral)
  ultimately show ?thesis using that wf' l by blast
qed

lemma small_entry:
  assumes "flags AND NOT 0xFFF = 0"
  shows "leaf 1 ((phys AND NOT 0xFFF) OR flags OR PAGE_PRESENT) w =
    Some ((phys AND NOT 0xFFF) OR (w AND 0xFFF), flags OR PAGE_PRESENT, 1)"
proof -
  define e where "e = (phys AND NOT 0xFFF) OR flags OR PAGE_PRESENT"
  have fl: "bit flags n \<Longrightarrow> n < 12" for n
  proof -
    have "bit (flags AND NOT 0xFFF) n \<longleftrightarrow> False" using assms by simp
    then show "bit flags n \<Longrightarrow> n < 12"
      by (simp only: low12 bit_and_iff bit_not_iff bit_mask_iff) (auto dest: bit_imp_le_length)
  qed
  have b: "bit e n \<longleftrightarrow> bit phys n \<and> 12 \<le> n \<or> bit flags n \<or> n = 0" for n
    by (simp only: e_def PAGE_PRESENT_def low12 bit_or_iff bit_and_iff bit_not_iff bit_mask_iff bit_small)
       (auto dest: bit_imp_le_length)
  have "present e" unfolding present_bit b by simp
  moreover have "entry_base e = phys AND NOT 0xFFF"
    by (rule bit_word_eqI)
       (simp only: entry_base_bit b low12 bit_and_iff bit_not_iff bit_mask_iff, auto dest: fl bit_imp_le_length)
  moreover have "e AND 0xFFF = flags OR PAGE_PRESENT"
    by (rule bit_word_eqI)
       (simp only: b low12 bit_and_iff bit_or_iff bit_mask_iff PAGE_PRESENT_def bit_small, auto dest: fl)
  ultimately show ?thesis unfolding e_def [symmetric] by (simp add: leaf_def)
qed

lemma huge_entry:
  assumes "flags AND PAGE_HUGE \<noteq> 0"
  shows "present (x OR flags OR PAGE_PRESENT)" "huge (x OR flags OR PAGE_PRESENT)"
  using assms by (simp_all add: huge_bit [unfolded huge_def] huge_bit present_bit bit_or_iff PAGE_PRESENT_def)

lemma map_cases:
  assumes wf: "vm_wf s lvl p" and s': "s' = vmm_map p v phys flags s"
    and small: "flags AND PAGE_HUGE = 0 \<Longrightarrow> \<forall>pa fl. translate s p v \<noteq> Some (pa, fl, 2)"
  defines "k \<equiv> (if flags AND PAGE_HUGE = 0 then 1 else 2)"
  defines "e \<equiv> (phys AND NOT (if k = 1 then 0xFFF else 0x1FFFFF)) OR flags OR PAGE_PRESENT"
  shows "\<exists>lvl'. vm_wf s' lvl' p \<and>
    ((\<forall>w. translate s' p w = translate s p w) \<and> card (free_frames (frames s)) < 4 - k \<or>
     (\<forall>w. translate s' p w = (if same_region k v w then leaf k e w else translate s p w)))"
proof -
  let ?n = "card (free_frames (frames s))"
  obtain pdpt s1 where e1: "ensure_next_table p (level_index 4 v) s = (pdpt, s1)" by fastforce
  obtain pd s2 where e2: "ensure_next_table pdpt (level_index 3 v) s1 = (pd, s2)" by fastforce
  obtain pt s3 where e3: "ensure_next_table pd (level_index 2 v) s2 = (pt, s3)" by fastforce
  have run: "s' = (if pdpt = 0 then s1 else if pd = 0 then s2
      else if k = 2 then set_entry pd (level_index 2 v) e s2
      else if pt = 0 then s3 else set_entry pt (level_index 1 v) e s3)"
    unfolding s' vmm_map_def level_index_simps by (simp add: e1 e2 e3 k_def e_def)
  show ?thesis
  proof (cases "pdpt = 0")
    case True
    then have "s1 = s" "?n = 0" using ensure_null [OF wf_pmm [OF wf], of p _ s1] e1 by auto
    then show ?thesis using True wf by (intro exI [of _ lvl]) (simp add: run k_def)
  next
    case False
    have r: "lvl p = 4" by (rule wf_root [OF wf])
    obtain l1 where l1: "vm_wf s1 l1 p" "visits s1 l1 4 p v pdpt" "l1 pdpt = 3"
      "\<And>w. translate s1 p w = translate s p w" "?n \<le> card (free_frames (frames s1)) + 1"
      using ensure_path [OF wf visits_root, of v pdpt s1] e1 False r by auto
    show ?thesis
    proof (cases "pd = 0")
      case True
      then have "s2 = s1" "card (free_frames (frames s1)) = 0"
        using ensure_null [OF wf_pmm [OF l1(1)], of pdpt _ s2] e2 by auto
      then show ?thesis using True False l1 by (intro exI [of _ l1]) (simp add: run k_def)
    next
      case pd: False
      obtain l2 where l2: "vm_wf s2 l2 p" "visits s2 l2 4 p v pd" "l2 pd = 2"
        "\<And>w. translate s2 p w = translate s1 p w" "card (free_frames (frames s1)) \<le> card (free_frames (frames s2)) + 1"
        using ensure_path [OF l1(1,2), of pd s2] l1(3) e2 pd by auto
      show ?thesis
      proof (cases "flags AND PAGE_HUGE = 0")
        case False
        then have k: "k = 2" by (simp add: k_def)
        have "present e" "huge e" using huge_entry [OF False] by (simp_all add: e_def or.assoc)
        with set_leaf [OF l2(1,2), of e] l2(3,4) l1(4) \<open>pdpt \<noteq> 0\<close> pd
        show ?thesis by (intro exI [of _ l2]) (simp add: run k)
      next
        case True
        then have k: "k = 1" by (simp add: k_def)
        have "translate s2 p v = walk s2 2 pd v"
          using visits_walk [OF l2(1,2) wf_root [OF l2(1)]] l2(3) by (simp add: translate_def)
        then have nl: "\<not> (l2 pd = 2 \<and> present (entry s2 pd (level_index 2 v)) \<and> huge (entry s2 pd (level_index 2 v)))"
          using small [OF True] walk_step [of l2 pd 1 s2 v] l2(3,4) l1(4)
          by (auto simp: numeral_2_eq_2 link_def leaf_def)
        show ?thesis
        proof (cases "pt = 0")
          case True
          then have "s3 = s2" "card (free_frames (frames s2)) = 0"
            using ensure_null [OF wf_pmm [OF l2(1)], of pd _ s3] e3 by auto
          then show ?thesis using True \<open>pdpt \<noteq> 0\<close> pd l1 l2 by (intro exI [of _ l2]) (simp add: run k)
        next
          case pt: False
          obtain l3 where l3: "vm_wf s3 l3 p" "visits s3 l3 4 p v pt" "l3 pt = 1"
            "\<And>w. translate s3 p w = translate s2 p w"
            using ensure_path [OF l2(1,2) _ nl, of pt s3] l2(3) e3 pt by auto
          with set_leaf [OF l3(1,2), of e] l2(4) l1(4) \<open>pdpt \<noteq> 0\<close> pd pt
          show ?thesis by (intro exI [of _ l3]) (simp add: run k)
        qed
      qed
    qed
  qed
qed


text \<open>Writing back what an entry holds changes nothing a walk sees.\<close>

lemma set_entry_self:
  assumes wf: "vm_wf s lvl p" and t: "0 < lvl t" "i < 512"
  shows "translate (set_entry t i (entry s t i) s) p w = translate s p w"
proof -
  let ?s = "set_entry t i (entry s t i) s"
  have ent: "entry ?s x j = entry s x j" if "0 < lvl x" "j < 512" for x j
    using entry_set_entry [of x t j i] wf_table [OF wf, of x] wf_table [OF wf, of t] that t by simp
  have "walk ?s n x w = walk s n x w" if "lvl x = n" for n x
    using that
  proof (induction n arbitrary: x)
    case (Suc n)
    let ?i = "level_index (Suc n) w"
    have e: "entry ?s x ?i = entry s x ?i" using ent Suc.prems level_index_less by simp
    then have "link ?s lvl x ?i \<longleftrightarrow> link s lvl x ?i" by (simp add: link_def)
    then show ?case
      using walk_step [of lvl x n s w] walk_step [of lvl x n ?s w] Suc e wf_link [OF wf, of x ?i] by auto
  qed simp
  from this [OF wf_root [OF wf]] show ?thesis by (simp add: translate_def)
qed

text \<open>How far the tables of a well-formed address space reach for one address.\<close>

lemma wf_existing:
  assumes "vm_wf s lvl p" "3 \<le> lvl t" "i < 512"
  shows "get_existing_table s t i \<noteq> 0 \<longleftrightarrow> link s lvl t i"
  using wf_link [OF assms(1), of t i] wf_table [OF assms(1), of "entry_base (entry s t i)"] assms(2,3)
  by (auto simp: get_existing_table_eq link_def)

lemma path_cases:
  assumes wf: "vm_wf s lvl p"
  obtains (none4) "get_existing_table s p (level_index 4 v) = 0" "translate s p v = None"
  | (none3) pdpt where "get_existing_table s p (level_index 4 v) = pdpt" "pdpt \<noteq> 0"
      "get_existing_table s pdpt (level_index 3 v) = 0" "translate s p v = None"
  | (pd) pdpt pd where "get_existing_table s p (level_index 4 v) = pdpt" "pdpt \<noteq> 0"
      "get_existing_table s pdpt (level_index 3 v) = pd" "pd \<noteq> 0" "lvl pd = 2" "visits s lvl 4 p v pd"
      "translate s p v = walk s 2 pd v" "lvl pdpt = 3"
proof -
  have r: "lvl p = 4" by (rule wf_root [OF wf])
  let ?pdpt = "entry_base (entry s p (level_index 4 v))"
  let ?pd = "entry_base (entry s ?pdpt (level_index 3 v))"
  show ?thesis
  proof (cases "link s lvl p (level_index 4 v)")
    case False
    then have "get_existing_table s p (level_index 4 v) = 0"
      using wf_existing [OF wf, of p "level_index 4 v"] r level_index_less by simp
    moreover have "translate s p v = None"
      using False walk_step [of lvl p 3 s v] r level_index_less [of 4 v]
      by (simp add: translate_def link_def leaf_def)
    ultimately show ?thesis by (rule none4)
  next
    case l4: True
    then have d: "get_existing_table s p (level_index 4 v) = ?pdpt" "?pdpt \<noteq> 0" "lvl ?pdpt = 3"
      using wf_existing [OF wf, of p "level_index 4 v"] wf_link [OF wf l4] r level_index_less
      by (auto simp: get_existing_table_eq link_def)
    have w: "translate s p v = walk s 3 ?pdpt v"
      using l4 walk_step [of lvl p 3 s v] r by (simp add: translate_def)
    have vis: "visits s lvl 4 p v ?pdpt" using visits_extend [OF wf visits_root r] l4 r by simp
    show ?thesis
    proof (cases "link s lvl ?pdpt (level_index 3 v)")
      case False
      then have "get_existing_table s ?pdpt (level_index 3 v) = 0"
        using wf_existing [OF wf, of ?pdpt "level_index 3 v"] d level_index_less by simp
      moreover have "translate s p v = None"
        using False walk_step [of lvl ?pdpt 2 s v] d(3) level_index_less [of 3 v] w
        by (simp add: link_def leaf_def)
      ultimately show ?thesis using none3 d by blast
    next
      case True
      then have e: "get_existing_table s ?pdpt (level_index 3 v) = ?pd" "?pd \<noteq> 0" "lvl ?pd = 2"
        using wf_existing [OF wf, of ?pdpt "level_index 3 v"] wf_link [OF wf True] d level_index_less
        by (auto simp: get_existing_table_eq link_def)
      have "translate s p v = walk s 2 ?pd v" using True walk_step [of lvl ?pdpt 2 s v] d(3) w by simp
      moreover have "visits s lvl 4 p v ?pd" using visits_extend [OF wf vis r] True d(3) by simp
      ultimately show ?thesis using pd [OF d(1,2) e(1,2,3)] d(3) by blast
    qed
  qed
qed

lemma pd_cases:
  assumes wf: "vm_wf s lvl p" and pd: "lvl pd = 2" "visits s lvl 4 p v pd"
  obtains (huge_leaf) "huge (entry s pd (level_index 2 v))"
      "walk s 2 pd v = leaf 2 (entry s pd (level_index 2 v)) v"
  | (absent) "\<not> present (entry s pd (level_index 2 v))" "get_existing_table s pd (level_index 2 v) = 0"
      "walk s 2 pd v = None"
  | (pt) pt where "\<not> huge (entry s pd (level_index 2 v))" "get_existing_table s pd (level_index 2 v) = pt" "pt \<noteq> 0" "lvl pt = 1"
      "visits s lvl 4 p v pt" "walk s 2 pd v = leaf 1 (entry s pt (level_index 1 v)) v"
proof -
  let ?e = "entry s pd (level_index 2 v)"
  have step: "walk s 2 pd v = (if link s lvl pd (level_index 2 v) then walk s 1 (entry_base ?e) v else leaf 2 ?e v)"
    using walk_step [of lvl pd 1 s v] pd(1) by (simp add: numeral_2_eq_2)
  consider "\<not> present ?e" | "present ?e" "huge ?e" | "present ?e" "\<not> huge ?e" by blast
  then show ?thesis
  proof cases
    case 1
    then show ?thesis using absent step by (simp add: link_def leaf_def get_existing_table_eq)
  next
    case 2
    then show ?thesis using huge_leaf step pd(1) by (simp add: link_def)
  next
    case 3
    then have l: "link s lvl pd (level_index 2 v)" using pd(1) level_index_less by (simp add: link_def)
    let ?pt = "entry_base ?e"
    have lv: "lvl ?pt = 1" using wf_link [OF wf l] pd(1) by simp
    then have nz: "?pt \<noteq> 0" using wf_table [OF wf, of ?pt] by simp
    have "visits s lvl 4 p v ?pt" using visits_extend [OF wf pd(2) wf_root [OF wf]] l pd(1) by simp
    moreover have "walk s 1 ?pt v = leaf 1 (entry s ?pt (level_index 1 v)) v"
      using walk_step [of lvl ?pt 0 s v] lv by (simp add: link_def)
    ultimately show ?thesis using pt [of ?pt] 3 step l lv nz by (simp add: get_existing_table_eq)
  qed
qed

lemma leaf_0 [simp]: "leaf n 0 v = None"
  by (simp add: leaf_def)

lemma leaf_SomeD: "leaf n e v = Some (pa, fl, m) \<Longrightarrow> n = 1 \<or> n = 2 \<Longrightarrow> m = n"
  by (auto simp: leaf_def split: if_splits)

lemma get_refines:
  assumes wf: "vm_wf s lvl p" and tr: "translate s p v = Some (pa, fl, n)"
  shows "vmm_get_phys p v s = pa" "vmm_get_flags p v s = fl"
proof -
  have "vmm_get_phys p v s = pa \<and> vmm_get_flags p v s = fl"
    using wf
  proof (cases rule: path_cases [of s lvl p v])
    case (pd pdpt pd)
    show ?thesis
      using wf pd(5,6)
    proof (cases rule: pd_cases)
      case huge_leaf
      then show ?thesis using pd tr
        by (auto simp: vmm_get_phys_def vmm_get_flags_def level_index_simps huge_def leaf_def split: if_splits)
    next
      case absent
      then show ?thesis using pd tr by simp
    next
      case (pt pt)
      then show ?thesis using pd tr
        by (auto simp: vmm_get_phys_def vmm_get_flags_def level_index_simps huge_def leaf_def entry_base_def split: if_splits)
    qed
  qed (use tr in simp_all)
  then show "vmm_get_phys p v s = pa" "vmm_get_flags p v s = fl" by simp_all
qed

lemma same_region_trans: "same_region k v w \<Longrightarrow> k \<le> j \<Longrightarrow> same_region j v w"
  by (simp add: same_region_def)

lemma unmap_refines:
  assumes wf: "vm_wf s lvl p"
  shows "vm_wf (vmm_unmap p v s) lvl p \<and>
    translate (vmm_unmap p v s) p w =
      (case translate s p v of None \<Rightarrow> translate s p w
       | Some (pa, fl, n) \<Rightarrow> if same_region n v w then None else translate s p w)"
  using wf
proof (cases rule: path_cases [of s lvl p v])
  case none4
  then show ?thesis using wf by (simp add: vmm_unmap_def level_index_simps)
next
  case (none3 pdpt)
  then show ?thesis using wf by (simp add: vmm_unmap_def level_index_simps)
next
  case (pd pdpt pd)
  let ?e = "entry s pd (level_index 2 v)"
  have run: "vmm_unmap p v s =
      (if huge ?e then set_entry pd (level_index 2 v) 0 s
       else let pt = get_existing_table s pd (level_index 2 v)
            in if pt = 0 then s else set_entry pt (level_index 1 v) 0 s)"
    using pd by (simp add: vmm_unmap_def level_index_simps huge_def Let_def)
  have clr: "vm_wf (set_entry t (level_index (lvl t) v) 0 s) lvl p \<and>
      translate (set_entry t (level_index (lvl t) v) 0 s) p w = (if same_region (lvl t) v w then None else translate s p w)"
    if "lvl t = 1 \<or> lvl t = 2" "visits s lvl 4 p v t" for t
    using set_leaf [OF wf that(2,1), of 0] by simp
  show ?thesis
    using wf pd(5,6)
  proof (cases rule: pd_cases)
    case huge_leaf
    show ?thesis
    proof (cases "present ?e")
      case True
      then have "\<exists>pa fl. translate s p v = Some (pa, fl, 2)" using huge_leaf pd(7) by (simp add: leaf_def)
      then show ?thesis using clr [of pd] pd(5,6) huge_leaf by (auto simp: run)
    next
      case False
      have "translate s p v = None" using huge_leaf pd(7) False by (simp add: leaf_def)
      moreover have "translate s p w = None" if "same_region 2 v w"
        using set_leaf(2) [OF wf pd(6), of "?e" w] that pd(5) False set_entry_self [OF wf, of pd "level_index 2 v"] level_index_less
        by (simp add: leaf_def)
      ultimately show ?thesis using clr [of pd] pd(5,6) huge_leaf by (auto simp: run)
    qed
  next
    case absent
    show ?thesis
    proof (cases "huge ?e")
      case False
      then show ?thesis using absent pd wf by (simp add: run)
    next
      case True
      have "translate s p w = None" if "same_region 2 v w"
        using set_leaf(2) [OF wf pd(6), of "?e" w] that pd(5) absent set_entry_self [OF wf, of pd "level_index 2 v"] level_index_less
        by (simp add: leaf_def)
      then show ?thesis using clr [of pd] pd(5-7) absent True by (auto simp: run)
    qed
  next
    case (pt pt)
    show ?thesis
    proof (cases "present (entry s pt (level_index 1 v))")
      case True
      then have "\<exists>pa fl. translate s p v = Some (pa, fl, 1)" using pt pd(7) by (simp add: leaf_def)
      then show ?thesis using clr [of pt] pt by (auto simp: run)
    next
      case False
      have "translate s p v = None" using pt pd(7) False by (simp add: leaf_def)
      moreover have "translate s p w = None" if "same_region 1 v w"
        using set_leaf(2) [OF wf pt(5), of "entry s pt (level_index 1 v)" w] that pt(4) False set_entry_self [OF wf, of pt "level_index 1 v"] level_index_less
        by (simp add: leaf_def)
      ultimately show ?thesis using clr [of pt] pt by (auto simp: run)
    qed
  qed
qed


section \<open>Copy-on-write sharing of one page table\<close>

text \<open>What cloning does to a present entry: a writable page becomes read-only and marked.\<close>

definition cow_entry :: "u64 \<Rightarrow> u64" where
  "cow_entry e = (if e AND PAGE_WRITABLE \<noteq> 0 then (e AND NOT PAGE_WRITABLE) OR PAGE_COW else e)"

lemma writable_bit: "e AND PAGE_WRITABLE \<noteq> 0 \<longleftrightarrow> bit e 1"
  using and_exp_eq_0_iff_not_bit [of e 1] by (simp add: PAGE_WRITABLE_def)

lemma cow_entry_bit:
  "bit (cow_entry e) n \<longleftrightarrow> (if bit e 1 then bit e n \<and> n \<noteq> 1 \<or> n = 9 else bit e n)"
  by (simp only: cow_entry_def writable_bit PAGE_COW_def)
     (auto simp only: bit_or_iff bit_and_iff bit_not_iff bit_small PAGE_WRITABLE_def if_True if_False split: if_splits dest: bit_imp_possible_bit)

lemma cow_entry_props:
  "present (cow_entry e) \<longleftrightarrow> present e" "entry_base (cow_entry e) = entry_base e"
  "cow_entry e AND PAGE_WRITABLE = 0"
proof -
  show "present (cow_entry e) \<longleftrightarrow> present e" by (simp add: present_bit cow_entry_bit)
  show "entry_base (cow_entry e) = entry_base e"
    by (rule bit_word_eqI) (auto simp: entry_base_bit cow_entry_bit)
  show "cow_entry e AND PAGE_WRITABLE = 0" proof -
    have "\<not> bit (cow_entry e) 1" unfolding cow_entry_bit by simp
    then show ?thesis using writable_bit by blast
  qed
qed

lemma clone_leaf_entry:
  assumes pr: "present e" and k: "low = 0xFFF \<or> low = 0x1FFFFF"
  defines "flags \<equiv> e AND 0xFFF"
  assumes ok: "low = 0x1FFFFF \<Longrightarrow> \<forall>n. 12 \<le> n \<and> n < 21 \<longrightarrow> \<not> bit e n"
  shows "(e AND NOT low) OR (if flags AND PAGE_WRITABLE \<noteq> 0 then cow_flags flags else flags) OR PAGE_PRESENT = cow_entry e"
proof (rule bit_word_eqI)
  fix n assume n: "n < LENGTH(64)"
  have m: "(0x1FFFFF :: u64) = mask 21" by (simp add: mask_eq_decr_exp)
  have fl: "bit flags j \<longleftrightarrow> bit e j \<and> j < 12" for j
    by (simp only: flags_def low12 bit_and_iff bit_mask_iff) (auto dest: bit_imp_le_length)
  have nl: "bit (e AND NOT low) n \<longleftrightarrow> bit e n \<and> 12 \<le> n"
    using k
  proof
    assume l: "low = 0xFFF"
    show ?thesis unfolding l low12 using n by (simp only: bit_and_iff bit_not_iff bit_mask_iff) auto
  next
    assume l: "low = 0x1FFFFF"
    show ?thesis unfolding l m using ok [OF l] n by (simp only: bit_and_iff bit_not_iff bit_mask_iff) auto
  qed
  have cw: "bit (cow_flags flags) n \<longleftrightarrow> bit flags n \<and> n \<noteq> 1 \<or> n = 9"
    using n by (simp only: cow_flags_def PAGE_WRITABLE_def PAGE_COW_def bit_or_iff bit_and_iff bit_not_iff bit_small) auto
  have w: "flags AND PAGE_WRITABLE \<noteq> 0 \<longleftrightarrow> bit e 1" unfolding writable_bit fl by simp
  have p: "bit e 0" using pr by (simp add: present_bit)
  show "bit ((e AND NOT low) OR (if flags AND PAGE_WRITABLE \<noteq> 0 then cow_flags flags else flags) OR PAGE_PRESENT) n =
      bit (cow_entry e) n"
    unfolding bit_or_iff nl w cow_entry_bit PAGE_PRESENT_def bit_small
    using p by (cases "bit e 1") (auto simp: cw fl)
qed

lemma clone_leaf_effect:
  assumes pa: "page_aligned src" "page_aligned dst" "src \<noteq> dst" and i: "i < 512"
    and pr: "present (entry s src i)"
  defines "s' \<equiv> clone_leaf 0xFFF src dst i s"
  shows "page_aligned t \<Longrightarrow> j < 512 \<Longrightarrow> entry s' t j =
      (if j = i \<and> (t = src \<or> t = dst) then cow_entry (entry s src i) else entry s t j)"
    and "frames s' = pmm_ref_inc (entry_base (entry s src i)) (frames s)"
proof -
  let ?e = "entry s src i"
  let ?f = "if (?e AND 0xFFF) AND PAGE_WRITABLE \<noteq> 0 then cow_flags (?e AND 0xFFF) else ?e AND 0xFFF"
  have v: "(?e AND NOT 0xFFF) OR ?f OR PAGE_PRESENT = cow_entry ?e"
    using clone_leaf_entry [OF pr, of "0xFFF"] by simp
  have nw: "cow_entry ?e = ?e" if "(?e AND 0xFFF) AND PAGE_WRITABLE = 0"
  proof -
    have "bit (?e AND 0xFFF) 1 \<longleftrightarrow> bit ?e 1" unfolding low12 bit_and_iff bit_mask_iff by simp
    then have "\<not> bit ?e 1" using that writable_bit [of "?e AND 0xFFF"] by simp
    then show ?thesis using writable_bit [of ?e] by (simp add: cow_entry_def)
  qed
  have s': "s' = (let s2 = set_entry dst i (cow_entry ?e)
        (if (?e AND 0xFFF) AND PAGE_WRITABLE \<noteq> 0 then set_entry src i (cow_entry ?e) s else s)
      in s2\<lparr>frames := pmm_ref_inc (entry_base ?e) (frames s2)\<rparr>)"
    unfolding s'_def clone_leaf_def Let_def entry_base_def [symmetric] v [unfolded entry_base_def [symmetric]] by simp
  show "entry s' t j = (if j = i \<and> (t = src \<or> t = dst) then cow_entry ?e else entry s t j)"
    if "page_aligned t" "j < 512"
    using entry_set_entry [OF that(1) pa(2) that(2) i] entry_set_entry [OF that(1) pa(1) that(2) i] nw pa(3)
    by (auto simp: s' Let_def)
  show "frames s' = pmm_ref_inc (entry_base ?e) (frames s)"
    by (simp add: s' Let_def)
qed

definition maps_frame :: "vmm_state \<Rightarrow> u64 \<Rightarrow> nat \<Rightarrow> nat \<Rightarrow> bool" where
  "maps_frame s t f l \<longleftrightarrow> present (entry s t (of_nat l)) \<and> frame_no (entry_base (entry s t (of_nat l))) = f"

lemma ref_counts_ref_inc:
  "frame_no a < MAX_FRAMES \<or> f < MAX_FRAMES \<Longrightarrow>
   ref_counts (pmm_ref_inc a q) f = ref_counts q f + (if frame_no a = f then 1 else 0)"
  by (auto simp: pmm_ref_inc_def Let_def)

text \<open>The first \<open>n\<close> entries of \<open>src\<close> have been cloned into \<open>dst\<close>.\<close>

definition cloned :: "nat \<Rightarrow> u64 \<Rightarrow> u64 \<Rightarrow> vmm_state \<Rightarrow> vmm_state \<Rightarrow> bool" where
  "cloned n src dst s s' \<longleftrightarrow>
     (\<forall>t j. page_aligned t \<and> j < 512 \<longrightarrow> entry s' t j =
       (if unat j < n \<and> (t = src \<or> t = dst) \<and> present (entry s src j) then cow_entry (entry s src j) else entry s t j)) \<and>
     (\<forall>f<MAX_FRAMES. ref_counts (frames s') f =
       ref_counts (frames s) f + of_nat (card {l. l < n \<and> maps_frame s src f l})) \<and>
     (\<forall>f. used (frames s') f = used (frames s) f)"

lemma cloned_step:
  assumes pa: "page_aligned src" "page_aligned dst" "src \<noteq> dst" and n: "n < 512"
    and c: "cloned n src dst s r"
  shows "cloned (Suc n) src dst s
    (if entry r src (of_nat n) AND PAGE_PRESENT \<noteq> 0 then clone_leaf 0xFFF src dst (of_nat n) r else r)"
proof -
  have IH: "entry r t j = (if unat j < n \<and> (t = src \<or> t = dst) \<and> present (entry s src j) then cow_entry (entry s src j) else entry s t j)"
      if "page_aligned t" "j < 512" for t j
    using c that unfolding cloned_def by blast
  have IHr: "ref_counts (frames r) f = ref_counts (frames s) f + of_nat (card {l. l < n \<and> maps_frame s src f l})"
      if "f < MAX_FRAMES" for f
    using c that unfolding cloned_def by blast
  have IHu: "used (frames r) f = used (frames s) f" for f using c unfolding cloned_def by blast
  define i :: u64 where "i = of_nat n"
  have i: "i < 512" "unat i = n" using n by (simp_all add: i_def word_less_iff_unat unat_of_nat_small)
  have en: "entry r src i = entry s src i" using IH [of src i] pa i by simp
  have ne: "unat j < Suc n \<longleftrightarrow> unat j < n \<or> j = i" for j
    using i(2) by (metis less_Suc_eq word_unat_eq_iff)
  have cnt: "{l. l < Suc n \<and> maps_frame s src f l} =
      (if maps_frame s src f n then insert n {l. l < n \<and> maps_frame s src f l} else {l. l < n \<and> maps_frame s src f l})" for f
    by (auto simp: less_Suc_eq)
  show ?thesis
  proof (cases "present (entry s src i)")
    case False
    have "\<not> maps_frame s src f n" for f using False by (simp add: maps_frame_def i_def)
    moreover have "entry r t j = (if unat j < Suc n \<and> (t = src \<or> t = dst) \<and> present (entry s src j) then cow_entry (entry s src j) else entry s t j)"
      if "page_aligned t" "j < 512" for t j using IH [OF that] ne [of j] False by auto
    ultimately have "cloned (Suc n) src dst s r"
      unfolding cloned_def using IHr IHu by (simp add: cnt)
    then show ?thesis using False by (simp add: i_def [symmetric] en present_def)
  next
    case True
    let ?q = "clone_leaf 0xFFF src dst i r"
    have pr: "present (entry r src i)" using True en by simp
    note eff = clone_leaf_effect [OF pa i(1) pr]
    have "entry ?q t j = (if unat j < Suc n \<and> (t = src \<or> t = dst) \<and> present (entry s src j) then cow_entry (entry s src j) else entry s t j)"
      if "page_aligned t" "j < 512" for t j
      using eff(1) [OF that] IH [OF that] ne [of j] True en i(2) by auto
    moreover have "ref_counts (frames ?q) f =
        ref_counts (frames s) f + of_nat (card {l. l < Suc n \<and> maps_frame s src f l})" if "f < MAX_FRAMES" for f
    proof -
      have m: "maps_frame s src f n \<longleftrightarrow> frame_no (entry_base (entry s src i)) = f"
        using True by (simp add: maps_frame_def i_def)
      have "ref_counts (frames ?q) f = ref_counts (frames r) f + (if maps_frame s src f n then 1 else 0)"
        unfolding eff(2) m using ref_counts_ref_inc that en by simp
      then show ?thesis using IHr [OF that] by (simp add: cnt add.assoc add.commute)
    qed
    moreover have "used (frames ?q) f = used (frames s) f" for f
      using eff(2) IHu by (simp add: pmm_ref_inc_def Let_def)
    ultimately have "cloned (Suc n) src dst s ?q" unfolding cloned_def by blast
    then show ?thesis using True by (simp add: i_def [symmetric] en present_def)
  qed
qed

lemma clone_pt_cloned:
  assumes "page_aligned src" "page_aligned dst" "src \<noteq> dst"
  shows "cloned 512 src dst s (clone_pt src dst s)"
proof -
  have "n \<le> 512 \<Longrightarrow> cloned n src dst s
    (fold (\<lambda>l s. if entry s src (of_nat l) AND PAGE_PRESENT \<noteq> 0
                  then clone_leaf 0xFFF src dst (of_nat l) s else s) [0..<n] s)" for n
  proof (induction n)
    case 0
    then show ?case by (simp add: cloned_def)
  next
    case (Suc n)
    then show ?case using cloned_step [OF assms, of n s] by simp
  qed
  from this [of 512] show ?thesis by (simp only: clone_pt_def order_refl)
qed


lemma get_phys_after_unmap:
  assumes wf: "vm_wf s lvl p" and tr: "translate s p v = Some (pa, fl, 1)"
  shows "vmm_get_phys p v (vmm_unmap p v s) = v AND 0xFFF"
  using wf
proof (cases rule: path_cases [of s lvl p v])
  case (pd pdpt pd)
  show ?thesis
    using wf pd(5,6)
  proof (cases rule: pd_cases)
    case huge_leaf
    then have "leaf 2 (entry s pd (level_index 2 v)) v = Some (pa, fl, 1)" using pd(7) tr by simp
    from leaf_SomeD [OF this] show ?thesis by simp
  next
    case absent
    then show ?thesis using pd tr by simp
  next
    case (pt pt)
    let ?s = "set_entry pt (level_index 1 v) 0 s"
    have run: "vmm_unmap p v s = ?s"
      using pd pt by (simp add: vmm_unmap_def level_index_simps huge_def Let_def)
    have ent: "entry ?s x j = (if x = pt \<and> j = level_index 1 v then 0 else entry s x j)" if "0 < lvl x" "j < 512" for x j
      using entry_set_entry [of x pt j "level_index 1 v"] wf_table [OF wf, of x] wf_table [OF wf, of pt] that pt(4)
        level_index_less by simp
    have get_cong: "get_existing_table ?s x j = (if x = pt \<and> j = level_index 1 v then 0 else get_existing_table s x j)"
      if "entry ?s x j = (if x = pt \<and> j = level_index 1 v then 0 else entry s x j)" for x j
      using that by (simp add: get_existing_table_def)
    have "p \<noteq> pt" "pdpt \<noteq> pt" "pd \<noteq> pt" using wf_root [OF wf] pd(5,8) pt(4) by auto
    then have same: "get_existing_table ?s p (level_index 4 v) = pdpt" "get_existing_table ?s pdpt (level_index 3 v) = pd"
      "get_existing_table ?s pd (level_index 2 v) = pt" "entry ?s pd (level_index 2 v) = entry s pd (level_index 2 v)"
      using get_cong [OF ent [of p "level_index 4 v"]] get_cong [OF ent [of pdpt "level_index 3 v"]]
        get_cong [OF ent [of pd "level_index 2 v"]] ent [of pd "level_index 2 v"]
        pd pt wf_root [OF wf] level_index_less by simp_all
    have "entry ?s pt (level_index 1 v) = 0" using ent [of pt] pt(4) level_index_less by simp
    then show ?thesis
      using same pd(2,4) pt(1,3) by (simp add: run vmm_get_phys_def level_index_simps huge_def Let_def)
  qed
qed (use tr in simp_all)

lemma same_region_indices:
  "same_region 1 v w \<longleftrightarrow> PML4_INDEX v = PML4_INDEX w \<and> PDPT_INDEX v = PDPT_INDEX w \<and>
     PD_INDEX v = PD_INDEX w \<and> PT_INDEX v = PT_INDEX w"
  "same_region 2 v w \<longleftrightarrow> PML4_INDEX v = PML4_INDEX w \<and> PDPT_INDEX v = PDPT_INDEX w \<and> PD_INDEX v = PD_INDEX w"
proof -
  have m: "1 \<le> m \<and> m \<le> 4 \<longleftrightarrow> m = 1 \<or> m = 2 \<or> m = 3 \<or> m = (4 :: nat)"
    "2 \<le> m \<and> m \<le> 4 \<longleftrightarrow> m = 2 \<or> m = 3 \<or> m = (4 :: nat)" for m by auto
  show "same_region 1 v w \<longleftrightarrow> PML4_INDEX v = PML4_INDEX w \<and> PDPT_INDEX v = PDPT_INDEX w \<and>
     PD_INDEX v = PD_INDEX w \<and> PT_INDEX v = PT_INDEX w"
    "same_region 2 v w \<longleftrightarrow> PML4_INDEX v = PML4_INDEX w \<and> PDPT_INDEX v = PDPT_INDEX w \<and> PD_INDEX v = PD_INDEX w"
    unfolding same_region_def m level_index_simps by blast+
qed

section \<open>Properties\<close>

text \<open>An empty address space with its root at 1 MiB and 32 MiB of free frames.\<close>

definition empty_space :: vmm_state where
  "empty_space = \<lparr>phys_mem = (\<lambda>_. 0), frames = ram_16_48, current_pml4 = 0x100000\<rparr>"

definition empty_lvl :: "u64 \<Rightarrow> nat" where
  "empty_lvl t = (if t = 0x100000 then 4 else 0)"

lemma empty_entry [simp]: "entry empty_space t i = 0"
  by (simp add: entry_def empty_space_def load64_def load32_def load16_def)

lemma empty_wf: "vm_wf empty_space empty_lvl 0x100000"
proof -
  have "\<not> link empty_space empty_lvl t i" for t i by (simp add: link_def)
  moreover have "is_frame 0x100000" "frame_no 0x100000 = 256"
    by (simp_all add: is_frame_def page_aligned_def frame_no_def MAX_FRAMES_def)
  ultimately show ?thesis
    using ram_16_48_inv ram_16_48_used [of 256]
    by (simp add: vm_wf_def empty_lvl_def) (simp add: empty_space_def)
qed

lemma empty_translate [simp]: "translate empty_space 0x100000 v = None"
  using walk_step [of empty_lvl "0x100000" 3 empty_space v]
  by (simp add: translate_def empty_lvl_def link_def leaf_def)

lemma empty_frames: "card (free_frames (frames empty_space)) = 8192"
  using free_count_card [OF ram_16_48_inv]
  by (simp add: empty_space_def pmm_get_free_count_def) (simp add: ram_16_48_def)

text \<open>
  C5. Mapping a 4 KiB page: with three free frames and no 2 MiB mapping in the way, \<open>vmm_map\<close>
  makes exactly that page translate to the given frame with the given flags, leaves every other
  virtual page of the address space as it was, and keeps the tables well formed.
\<close>

theorem vmm_map_correct:
  assumes "vm_wf s lvl p" "flags AND NOT 0xFFF = 0" "flags AND PAGE_HUGE = 0"
    and "\<forall>pa fl. translate s p v \<noteq> Some (pa, fl, 2)" "3 \<le> card (free_frames (frames s))"
  shows "\<exists>lvl'. vm_wf (vmm_map p v phys flags s) lvl' p \<and>
    (\<forall>w. translate (vmm_map p v phys flags s) p w =
       (if same_region 1 v w then Some ((phys AND NOT 0xFFF) OR (w AND 0xFFF), flags OR PAGE_PRESENT, 1)
        else translate s p w))"
  using map_cases [OF assms(1) refl assms(4), where phys = phys and flags = flags] assms(3,5) small_entry [OF assms(2), of phys]
  by auto

theorem vmm_map_correct_witness:
  "translate (vmm_map 0x100000 0x40000000 0x5000 6 empty_space) 0x100000 0x40000123 = Some (0x5123, 7, 1) \<and>
   translate (vmm_map 0x100000 0x40000000 0x5000 6 empty_space) 0x100000 0x40001000 = None"
proof -
  have "same_region 1 0x40000000 (0x40000123 :: u64)" "\<not> same_region 1 0x40000000 (0x40001000 :: u64)"
    unfolding same_region_indices by (simp_all add: PML4_INDEX_def PDPT_INDEX_def PD_INDEX_def PT_INDEX_def)
  with vmm_map_correct [OF empty_wf, of 6 "0x40000000" "0x5000"] empty_frames show ?thesis
    by (auto simp: PAGE_HUGE_def PAGE_PRESENT_def)
qed

text \<open>
  Whatever the flags and even when the frame allocator runs dry half way, \<open>vmm_map\<close> keeps the
  tables well formed and either changes no translation at all or exactly that of the requested
  4 KiB or 2 MiB region; it gives up only when fewer frames are free than tables are missing.
\<close>

theorem vmm_map_safe:
  assumes "vm_wf s lvl p"
    and "flags AND PAGE_HUGE = 0 \<Longrightarrow> \<forall>pa fl. translate s p v \<noteq> Some (pa, fl, 2)"
    and "k = (if flags AND PAGE_HUGE = 0 then 1 else 2)"
  shows "\<exists>lvl'. vm_wf (vmm_map p v phys flags s) lvl' p \<and>
    ((\<forall>w. translate (vmm_map p v phys flags s) p w = translate s p w) \<and> card (free_frames (frames s)) < 4 - k \<or>
     (\<forall>w. translate (vmm_map p v phys flags s) p w =
        (if same_region k v w
         then leaf k ((phys AND NOT (if k = 1 then 0xFFF else 0x1FFFFF)) OR flags OR PAGE_PRESENT) w
         else translate s p w)))"
  using map_cases [OF assms(1) refl assms(2), where phys = phys and flags = flags] unfolding assms(3) by auto

theorem vmm_map_safe_witness:
  "translate (vmm_map 0x100000 0x40000000 0x600000 0x83 empty_space) 0x100000 0x40012345 = Some (0x612345, 0x83, 2)"
proof -
  have "same_region 2 0x40000000 (0x40012345 :: u64)"
    unfolding same_region_indices by (simp add: PML4_INDEX_def PDPT_INDEX_def PD_INDEX_def PT_INDEX_def)
  with vmm_map_safe [OF empty_wf _ refl, of "0x83" "0x40000000" "0x600000"] empty_frames show ?thesis
    by (auto simp: PAGE_HUGE_def PAGE_PRESENT_def leaf_def present_def)
qed

text \<open>One mapped page.\<close>

lemma one_page_mapped:
  obtains lvl where "vm_wf (vmm_map 0x100000 0x40000000 0x5000 6 empty_space) lvl 0x100000"
    "translate (vmm_map 0x100000 0x40000000 0x5000 6 empty_space) 0x100000 0x40000123 = Some (0x5123, 7, 1)"
proof -
  let ?s = "vmm_map 0x100000 0x40000000 0x5000 6 empty_space"
  obtain lvl' where wf: "vm_wf ?s lvl' 0x100000"
    using map_cases [OF empty_wf refl, where v = "0x40000000" and phys = "0x5000" and flags = 6] by (auto simp: PAGE_HUGE_def)
  have e: "leaf 1 ((0x5000 AND NOT 0xFFF) OR 6 OR PAGE_PRESENT) 0x40000123 = Some (0x5123, 7, 1)"
    by (simp add: PAGE_PRESENT_def leaf_def present_def entry_base_def)
  have "same_region 1 0x40000000 (0x40000123 :: u64)"
    unfolding same_region_indices by (simp add: PML4_INDEX_def PDPT_INDEX_def PD_INDEX_def PT_INDEX_def)
  then have "translate ?s 0x100000 0x40000123 = Some (0x5123, 7, 1)"
    using map_cases [OF empty_wf refl, where v = "0x40000000" and phys = "0x5000" and flags = 6] empty_frames e
    by (auto simp: PAGE_HUGE_def)
  with wf show thesis by (rule that)
qed

text \<open>
  C6. Unmapping removes the translation of the page (or 2 MiB page) that contains the address,
  and no other, and keeps the tables well formed.
\<close>

theorem vmm_unmap_correct:
  assumes "vm_wf s lvl p"
  shows "vm_wf (vmm_unmap p v s) lvl p \<and>
    translate (vmm_unmap p v s) p w =
      (case translate s p v of None \<Rightarrow> translate s p w
       | Some (pa, fl, n) \<Rightarrow> if same_region n v w then None else translate s p w)"
  using assms by (rule unmap_refines)

theorem vmm_unmap_correct_witness:
  "translate (vmm_map 0x100000 0x40000000 0x5000 6 empty_space) 0x100000 0x40000123 = Some (0x5123, 7, 1) \<and>
   translate (vmm_unmap 0x100000 0x40000123 (vmm_map 0x100000 0x40000000 0x5000 6 empty_space)) 0x100000 0x40000456 = None"
proof -
  obtain lvl where wf: "vm_wf (vmm_map 0x100000 0x40000000 0x5000 6 empty_space) lvl 0x100000"
    and tr: "translate (vmm_map 0x100000 0x40000000 0x5000 6 empty_space) 0x100000 0x40000123 = Some (0x5123, 7, 1)"
    by (rule one_page_mapped)
  have "same_region 1 0x40000123 (0x40000456 :: u64)"
    unfolding same_region_indices by (simp add: PML4_INDEX_def PDPT_INDEX_def PD_INDEX_def PT_INDEX_def)
  then show ?thesis using vmm_unmap_correct [OF wf, of "0x40000123" "0x40000456"] tr by simp
qed

text \<open>
  C7. For every mapped address \<open>vmm_get_phys\<close> and \<open>vmm_get_flags\<close> report what the hardware
  walk finds, for both page sizes; after \<open>vmm_unmap\<close> of a 4 KiB page, however, \<open>vmm_get_phys\<close>
  returns the offset in the page and not the 0 its header promises.
\<close>

theorem vmm_get_correct:
  assumes "vm_wf s lvl p" "translate s p v = Some (pa, fl, n)"
  shows "vmm_get_phys p v s = pa \<and> vmm_get_flags p v s = fl \<and>
    (n = 1 \<longrightarrow> vmm_get_phys p v (vmm_unmap p v s) = v AND 0xFFF)"
  using get_refines [OF assms] get_phys_after_unmap [OF assms(1)] assms(2) by blast

theorem vmm_get_correct_witness:
  "vmm_get_phys 0x100000 0x40000123 (vmm_map 0x100000 0x40000000 0x5000 6 empty_space) = 0x5123 \<and>
   vmm_get_phys 0x100000 0x40000123
     (vmm_unmap 0x100000 0x40000123 (vmm_map 0x100000 0x40000000 0x5000 6 empty_space)) = 0x123"
proof -
  obtain lvl where "vm_wf (vmm_map 0x100000 0x40000000 0x5000 6 empty_space) lvl 0x100000"
    "translate (vmm_map 0x100000 0x40000000 0x5000 6 empty_space) 0x100000 0x40000123 = Some (0x5123, 7, 1)"
    by (rule one_page_mapped)
  from vmm_get_correct [OF this] show ?thesis by simp
qed

text \<open>
  Two CPUs that both found a slot empty and both allocated a table agree on the one that
  was linked first: the second \<open>install_table\<close> returns the first CPU's table, leaves the slot
  alone, and gives its own frame back to the allocator.
\<close>

theorem ensure_race:
  assumes "page_aligned t" "i < 512" "page_aligned a" "a \<noteq> 0" "get_existing_table s t i = 0"
    and "is_frame b" "pmm_inv (frames s)" "ref_counts (frames s) (frame_no b) = 1"
    and "install_table t i a s = (x, s1)" "install_table t i b s1 = (y, s2)"
  shows "x = a \<and> y = a \<and> get_existing_table s2 t i = a \<and> b \<in> free_frames (frames s2)"
proof -
  let ?e = "a OR PAGE_PRESENT OR PAGE_WRITABLE OR PAGE_USER"
  have s1: "x = a" "s1 = set_entry t i ?e s" using assms(5,9) by (auto simp: install_table_def)
  have "entry s1 t i = ?e" using entry_set_entry [OF assms(1,1,2,2)] s1 by simp
  then have g: "get_existing_table s1 t i = a" using table_entry [OF assms(3)] by (simp add: get_existing_table_eq)
  then have s2: "y = a" "s2 = free_frame b s1" using assms(4,10) by (auto simp: install_table_def)
  have "get_existing_table s2 t i = a" using g unfolding s2 free_frame_def get_existing_table_def frames_entry .
  moreover have "b \<in> free_frames (frames s2)"
    using free_free_frames(1) [OF assms(7,6)] assms(8) by (simp add: s2 s1 free_frame_def)
  ultimately show ?thesis using s1 s2 by simp
qed

theorem ensure_race_witness:
  "fst (install_table 0x100000 5 0x200000
     (snd (install_table 0x100000 5 0x300000
        (empty_space\<lparr>frames := (frames empty_space)\<lparr>ref_counts := (\<lambda>_. 1)\<rparr>\<rparr>)))) = 0x300000"
proof -
  let ?s = "empty_space\<lparr>frames := (frames empty_space)\<lparr>ref_counts := (\<lambda>_. 1)\<rparr>\<rparr>"
  have inv: "pmm_inv (frames ?s)" using ram_16_48_inv by (simp add: empty_space_def pmm_inv_def)
  show ?thesis
    using ensure_race [of "0x100000" 5 "0x300000" ?s "0x200000", OF _ _ _ _ _ _ inv _ surjective_pairing surjective_pairing]
    by (simp add: page_aligned_def is_frame_def frame_no_def MAX_FRAMES_def get_existing_table_def)
qed

text \<open>
  Cloning a page table shares it copy-on-write: every present entry of the source reappears
  in the destination with the same frame, no writable entry is left in either table, absent
  entries stay as they were, and each frame gains one reference per entry that maps it.
\<close>

theorem clone_pt_correct:
  assumes "page_aligned src" "page_aligned dst" "src \<noteq> dst" "j < 512"
    and "s' = clone_pt src dst s" "e = entry s src j"
  shows "(if present e
     then entry s' dst j = cow_entry e \<and> entry s' src j = cow_entry e \<and> present (entry s' dst j) \<and>
       entry_base (entry s' dst j) = entry_base e \<and> entry s' dst j AND PAGE_WRITABLE = 0
     else entry s' dst j = entry s dst j \<and> entry s' src j = e) \<and>
    (\<forall>f<MAX_FRAMES. ref_counts (frames s') f =
       ref_counts (frames s) f + of_nat (card {l. l < 512 \<and> maps_frame s src f l}))"
proof -
  have c: "cloned 512 src dst s s'" using clone_pt_cloned [OF assms(1-3)] assms(5) by simp
  have j: "unat j < 512" using assms(4) by (simp add: word_less_iff_unat)
  have ent: "entry s' t j = (if (t = src \<or> t = dst) \<and> present e then cow_entry e else entry s t j)" if "page_aligned t" for t
    using c that assms(4,6) j unfolding cloned_def by simp
  have "\<forall>f<MAX_FRAMES. ref_counts (frames s') f =
      ref_counts (frames s) f + of_nat (card {l. l < 512 \<and> maps_frame s src f l})"
    using c unfolding cloned_def by blast
  then show ?thesis
    using ent [OF assms(1)] ent [OF assms(2)] assms(6) by (simp add: cow_entry_props)
qed

theorem clone_pt_correct_witness:
  "entry (clone_pt 0x200000 0x300000 (set_entry 0x200000 3 0x5007 empty_space)) 0x300000 3 = 0x5205 \<and>
   entry (clone_pt 0x200000 0x300000 (set_entry 0x200000 3 0x5007 empty_space)) 0x200000 3 = 0x5205"
proof -
  let ?s = "set_entry 0x200000 3 0x5007 empty_space"
  have e: "entry ?s 0x200000 3 = 0x5007"
    by (subst entry_set_entry) (simp_all add: page_aligned_def)
  have "cow_entry 0x5007 = 0x5205" "present 0x5007"
    by (simp_all add: cow_entry_def PAGE_WRITABLE_def PAGE_COW_def present_def PAGE_PRESENT_def)
  then show ?thesis
    using clone_pt_correct [of "0x200000" "0x300000" 3, OF _ _ _ _ refl e [symmetric]]
    by (simp add: page_aligned_def)
qed

end
