(* ===== verification/CString.thy ===== *)
theory CString
  imports Memory
begin

text \<open>
  The memory and string routines (src/kernel/string.c). They run on physical memory; a C string
  is an address. The \<open>rep\<close> instructions are loops that count \<open>rcx\<close> down, eight bytes or one at
  a time. Scans that look for a terminator follow memory as far as it takes, so they are partial.
\<close>

section \<open>Block operations\<close>

fun rep_stosq :: "u64 \<Rightarrow> nat \<Rightarrow> u64 \<Rightarrow> memory \<Rightarrow> u64 \<times> memory" where
  "rep_stosq val 0 d m = (d, m)"
| "rep_stosq val (Suc n) d m = rep_stosq val n (d + 8) (store64 m d val)"

fun rep_stosb :: "u64 \<Rightarrow> nat \<Rightarrow> u64 \<Rightarrow> memory \<Rightarrow> memory" where
  "rep_stosb val 0 d m = m"
| "rep_stosb val (Suc n) d m = rep_stosb val n (d + 1) (m(d := ucast val))"

definition spread_byte :: "u8 \<Rightarrow> u64" where
  "spread_byte c =
     (let val = ucast c;
          val = val OR push_bit 8 val;
          val = val OR push_bit 16 val
      in val OR push_bit 32 val)"

definition memset :: "u64 \<Rightarrow> u8 \<Rightarrow> u64 \<Rightarrow> memory \<Rightarrow> memory" where
  "memset s c n m =
     (let val = spread_byte c;
          (dest_b, m1) = rep_stosq val (unat (n div 8)) s m
      in rep_stosb val (unat (n mod 8)) dest_b m1)"

fun rep_movsq :: "nat \<Rightarrow> u64 \<Rightarrow> u64 \<Rightarrow> memory \<Rightarrow> u64 \<times> u64 \<times> memory" where
  "rep_movsq 0 d s m = (d, s, m)"
| "rep_movsq (Suc n) d s m = rep_movsq n (d + 8) (s + 8) (store64 m d (load64 m s))"

fun rep_movsb :: "nat \<Rightarrow> u64 \<Rightarrow> u64 \<Rightarrow> memory \<Rightarrow> memory" where
  "rep_movsb 0 d s m = m"
| "rep_movsb (Suc n) d s m = rep_movsb n (d + 1) (s + 1) (m(d := m s))"

definition memcpy :: "u64 \<Rightarrow> u64 \<Rightarrow> u64 \<Rightarrow> memory \<Rightarrow> memory" where
  "memcpy dest src n m =
     (let (d_b, s_b, m1) = rep_movsq (unat (n div 8)) dest src m
      in rep_movsb (unat (n mod 8)) d_b s_b m1)"

text \<open>\<open>for (i = n; i != 0; i--) d[i - 1] = s[i - 1]\<close>\<close>

fun copy_backward :: "nat \<Rightarrow> u64 \<Rightarrow> u64 \<Rightarrow> memory \<Rightarrow> memory" where
  "copy_backward 0 d s m = m"
| "copy_backward (Suc i) d s m = copy_backward i d s (m(d + of_nat i := m (s + of_nat i)))"

definition memmove :: "u64 \<Rightarrow> u64 \<Rightarrow> u64 \<Rightarrow> memory \<Rightarrow> memory" where
  "memmove d s n m =
     (if d = s \<or> n = 0 then m
      else if d < s \<or> d \<ge> s + n then memcpy d s n m
      else copy_backward (unat n) d s m)"

fun memcmp_loop :: "nat \<Rightarrow> u64 \<Rightarrow> u64 \<Rightarrow> memory \<Rightarrow> int" where
  "memcmp_loop 0 p1 p2 m = 0"
| "memcmp_loop (Suc n) p1 p2 m =
     (if m p1 \<noteq> m p2 then uint (m p1) - uint (m p2) else memcmp_loop n (p1 + 1) (p2 + 1) m)"

definition memcmp :: "u64 \<Rightarrow> u64 \<Rightarrow> u64 \<Rightarrow> memory \<Rightarrow> int" where
  "memcmp s1 s2 n m = memcmp_loop (unat n) s1 s2 m"

section \<open>Strings\<close>

partial_function (option) strcmp :: "u64 \<Rightarrow> u64 \<Rightarrow> memory \<Rightarrow> int option" where
  "strcmp s1 s2 m =
     (if m s1 \<noteq> 0 \<and> m s1 = m s2 then strcmp (s1 + 1) (s2 + 1) m
      else Some (uint (m s1) - uint (m s2)))"

partial_function (option) strcpy_loop :: "u64 \<Rightarrow> u64 \<Rightarrow> memory \<Rightarrow> memory option" where
  "strcpy_loop d s m =
     (let m' = m(d := m s) in if m s \<noteq> 0 then strcpy_loop (d + 1) (s + 1) m' else Some m')"

definition strcpy :: "u64 \<Rightarrow> u64 \<Rightarrow> memory \<Rightarrow> memory option" where
  "strcpy dest src m = strcpy_loop dest src m"

partial_function (option) strlen_from :: "u64 \<Rightarrow> u64 \<Rightarrow> memory \<Rightarrow> u64 option" where
  "strlen_from s len m = (if m (s + len) \<noteq> 0 then strlen_from s (len + 1) m else Some len)"

definition strlen :: "u64 \<Rightarrow> memory \<Rightarrow> u64 option" where
  "strlen s m = strlen_from s 0 m"

section \<open>Specification\<close>

text \<open>The bytes at an address, and the bytes of a terminated string.\<close>

definition bytes :: "memory \<Rightarrow> u64 \<Rightarrow> nat \<Rightarrow> u8 list" where
  "bytes m a n = map (\<lambda>k. m (a + of_nat k)) [0..<n]"

definition is_cstring :: "memory \<Rightarrow> u64 \<Rightarrow> u8 list \<Rightarrow> bool" where
  "is_cstring m a bs \<longleftrightarrow> bytes m a (length bs) = bs \<and> 0 \<notin> set bs \<and> m (a + of_nat (length bs)) = 0"

text \<open>Memory with a block of bytes written into it.\<close>

definition put_buffer :: "u64 \<Rightarrow> u8 list \<Rightarrow> memory \<Rightarrow> memory" where
  "put_buffer a bs m = (\<lambda>x. if unat (x - a) < length bs then bs ! unat (x - a) else m x)"

lemma bytes_Suc: "bytes m a (Suc n) = m a # bytes m (a + 1) n"
  by (simp add: bytes_def upt_conv_Cons map_Suc_upt [symmetric] algebra_simps del: upt_Suc)

lemma is_cstring_simps [simp]:
  "is_cstring m a [] \<longleftrightarrow> m a = 0"
  "is_cstring m a (b # bs) \<longleftrightarrow> m a = b \<and> b \<noteq> 0 \<and> is_cstring m (a + 1) bs"
  by (auto simp: is_cstring_def bytes_Suc add.assoc) (simp_all add: bytes_def)

lemma bytes_add: "bytes m a (n + k) = bytes m a n @ bytes m (a + of_nat n) k"
proof (induction n arbitrary: a)
  case (Suc n)
  then show ?case by (simp add: bytes_Suc add.assoc)
qed (simp add: bytes_def)

lemma bytes_append: "bytes m a (length xs + length ys) = xs @ ys \<longleftrightarrow>
    bytes m a (length xs) = xs \<and> bytes m (a + of_nat (length xs)) (length ys) = ys"
  by (auto simp: bytes_add) (simp_all add: bytes_def append_eq_append_conv)

lemma bytes_take: "bytes m a n = xs \<Longrightarrow> k \<le> n \<Longrightarrow> bytes m a k = take k xs"
  by (auto simp: bytes_def take_map)

subsection \<open>memset\<close>

lemma store64_spread: "store64 m a (spread_byte c) = (\<lambda>x. if x - a < 8 then c else m x)"
proof
  fix x
  show "store64 m a (spread_byte c) x = (if x - a < 8 then c else m x)"
  proof (cases "x - a < 8")
    case True
    then have lt: "unat (x - a) < 8" by (simp add: word_less_iff_unat)
    have "ucast (drop_bit (8 * unat (x - a)) (spread_byte c)) = c"
    proof (rule bit_word_eqI)
      fix n assume "n < LENGTH(8)"
      then have n: "n < 8" by simp
      consider "unat (x - a) = 0" | "unat (x - a) = 1" | "unat (x - a) = 2" | "unat (x - a) = 3"
        | "unat (x - a) = 4" | "unat (x - a) = 5" | "unat (x - a) = 6" | "unat (x - a) = 7"
        using lt by linarith
      then show "bit (ucast (drop_bit (8 * unat (x - a)) (spread_byte c)) :: u8) n = bit c n"
        using n by cases (auto simp: spread_byte_def Let_def bit_simps dest: bit_imp_le_length)
    qed
    with True show ?thesis by (simp add: store64_def)
  qed (simp add: store64_def)
qed

lemma offset_split:
  assumes "unat (n :: u64) + unat k < 2 ^ 64"
  shows "x - a < n + k \<longleftrightarrow> x - a < n \<or> x - (a + n) < k"
proof -
  have nk: "unat (n + k) = unat n + unat k" using assms by (simp add: unat_plus_no_wrap)
  show ?thesis
  proof (cases "x - a < n")
    case True
    then show ?thesis using nk by (simp add: word_less_iff_unat)
  next
    case False
    then have "n \<le> x - a" by simp
    then have "unat (x - a - n) = unat (x - a) - unat n" by (rule unat_minus_no_wrap)
    then have "unat (x - (a + n)) = unat (x - a) - unat n" by (simp only: diff_diff_eq)
    then show ?thesis using nk False \<open>n \<le> x - a\<close>
      unfolding word_less_iff_unat word_le_iff_unat by linarith
  qed
qed

lemma rep_stosq_spread:
  "8 * n < 2 ^ 64 \<Longrightarrow> rep_stosq (spread_byte c) n d m =
    (d + 8 * of_nat n, \<lambda>x. if x - d < 8 * of_nat n then c else m x)"
proof (induction n arbitrary: d m)
  case (Suc n)
  have "8 * of_nat n = (of_nat (8 * n) :: u64)" by simp
  then have u: "unat (8 * of_nat n :: u64) = 8 * n"
    using Suc.prems unat_of_nat_small [of "8 * n", where 'a = 64] by simp
  have "x - d < 8 + 8 * of_nat n \<longleftrightarrow> x - d < 8 \<or> x - (d + 8) < 8 * of_nat n" for x
    using offset_split [of 8 "8 * of_nat n" x d] u Suc.prems by simp
  then show ?case using Suc by (auto simp: store64_spread fun_eq_iff algebra_simps)
qed simp

lemma rep_stosb_eq:
  "n < 2 ^ 64 \<Longrightarrow> rep_stosb v n d m = (\<lambda>x. if x - d < of_nat n then ucast v else m x)"
proof (induction n arbitrary: d m)
  case (Suc n)
  have u: "unat (of_nat n :: u64) = n" using Suc.prems by (simp add: unat_of_nat_small)
  have "x - d < 1 + of_nat n \<longleftrightarrow> x - d < 1 \<or> x - (d + 1) < of_nat n" for x
    using offset_split [of 1 "of_nat n" x d] u Suc.prems by simp
  moreover have "x - d < 1 \<longleftrightarrow> x = d" for x by (simp add: word_less_iff_unat unat_eq_zero)
  ultimately show ?case using Suc by (auto simp: fun_eq_iff)
qed simp

lemma ucast_spread: "ucast (spread_byte c) = c"
  by (rule bit_word_eqI) (auto simp: spread_byte_def Let_def bit_simps dest: bit_imp_le_length)

lemma memset_eq: "memset s c n m = (\<lambda>x. if x - s < n then c else m x)"
proof -
  have q: "8 * unat (n div 8) < 2 ^ 64"
    using unsigned_less [of n, where 'a = nat] by simp
  have n: "n = 8 * (n div 8) + n mod 8" by (rule mult_div_mod_eq [symmetric])
  have u: "unat (8 * (n div 8)) = 8 * unat (n div 8)"
    using q by (simp add: unat_word_ariths unat_div)
  have "unat (8 * (n div 8)) + unat (n mod 8) < 2 ^ 64"
    unfolding u using unsigned_less [of n, where 'a = nat] by (simp add: unat_mod)
  from offset_split [OF this, of _ s] n
  have "x - s < n \<longleftrightarrow> x - s < 8 * (n div 8) \<or> x - (s + 8 * (n div 8)) < n mod 8" for x by simp
  moreover have "unat (n mod 8) < 2 ^ 64" using unsigned_less [of "n mod 8", where 'a = nat] by simp
  note b = rep_stosb_eq [OF this]
  ultimately show ?thesis
    unfolding memset_def Let_def rep_stosq_spread [OF q]
    by (simp add: b fun_eq_iff ucast_spread del: unat_div_numeral)
qed


subsection \<open>memcpy and memmove\<close>

lemma load64_byte:
  assumes "k < 8"
  shows "ucast (drop_bit (8 * k) (load64 m a)) = m (a + of_nat k)"
proof (rule bit_word_eqI)
  fix n assume "n < LENGTH(8)"
  then have n: "n < 8" by simp
  consider "k = 0" | "k = 1" | "k = 2" | "k = 3" | "k = 4" | "k = 5" | "k = 6" | "k = 7" using assms by linarith
  then show "bit (ucast (drop_bit (8 * k) (load64 m a)) :: u8) n = bit (m (a + of_nat k)) n"
    using n
    by cases (auto simp: load64_def load32_def load16_def bit_simps add.assoc dest: bit_imp_le_length)
qed

lemma store64_load64: "store64 m d (load64 m s) = (\<lambda>x. if x - d < 8 then m (s + (x - d)) else m x)"
proof
  fix x
  have "x - d < 8 \<Longrightarrow> unat (x - d) < 8" by (simp add: word_less_iff_unat)
  then show "store64 m d (load64 m s) x = (if x - d < 8 then m (s + (x - d)) else m x)"
    by (simp add: store64_def load64_byte)
qed

text \<open>
  A forward copy of \<open>n\<close> bytes reads no byte it has already written, a backward copy likewise.
\<close>

definition forward_safe :: "nat \<Rightarrow> u64 \<Rightarrow> u64 \<Rightarrow> bool" where
  "forward_safe n d s \<longleftrightarrow> (\<forall>i<n. \<forall>j<i. s + of_nat i \<noteq> d + of_nat j)"

definition copied :: "u64 \<Rightarrow> u64 \<Rightarrow> u64 \<Rightarrow> memory \<Rightarrow> memory" where
  "copied d s n m = (\<lambda>x. if x - d < n then m (s + (x - d)) else m x)"

lemma forward_safe_shift: "forward_safe (k + n) d s \<Longrightarrow> forward_safe n (d + of_nat k) (s + of_nat k)"
  unfolding forward_safe_def
proof (intro allI impI)
  fix i j
  assume s: "\<forall>i<k + n. \<forall>j<i. s + of_nat i \<noteq> d + of_nat j" and ij: "i < n" "j < i"
  then have "s + of_nat (k + i) \<noteq> d + of_nat (k + j)" by simp
  then show "s + of_nat k + of_nat i \<noteq> d + of_nat k + of_nat j" by (simp add: add.assoc)
qed

lemma copied_split:
  assumes "k + n < 2 ^ 64" "forward_safe (k + n) d s"
  shows "copied (d + of_nat k) (s + of_nat k) (of_nat n) (copied d s (of_nat k) m) = copied d s (of_nat (k + n)) m"
proof
  fix x
  have uk: "unat (of_nat k :: u64) = k" "unat (of_nat n :: u64) = n"
    using assms(1) by (simp_all add: unat_of_nat_small)
  have split: "x - d < of_nat (k + n) \<longleftrightarrow> x - d < of_nat k \<or> x - (d + of_nat k) < of_nat n"
    using offset_split [of "of_nat k" "of_nat n" x d] uk assms(1) by simp
  have off: "s + of_nat k + (x - (d + of_nat k)) = s + (x - d)" by simp
  have unread: "\<not> s + (x - d) - d < of_nat k" if late: "x - (d + of_nat k) < of_nat n"
  proof
    assume "s + (x - d) - d < of_nat k"
    define j where "j = unat (s + (x - d) - d)"
    have j: "j < k" using \<open>s + (x - d) - d < of_nat k\<close> uk by (simp add: j_def word_less_iff_unat)
    define i where "i = k + unat (x - (d + of_nat k))"
    have i: "i < k + n" "j < i" using late uk j by (simp_all add: i_def word_less_iff_unat)
    have "s + of_nat i = s + (x - d)" by (simp add: i_def)
    also have "\<dots> = d + of_nat j" by (simp add: j_def)
    finally show False using assms(2) i by (simp add: forward_safe_def)
  qed
  show "copied (d + of_nat k) (s + of_nat k) (of_nat n) (copied d s (of_nat k) m) x = copied d s (of_nat (k + n)) m x"
    unfolding copied_def off split using unread by auto
qed

lemma rep_movsq_copied:
  "8 * n < 2 ^ 64 \<Longrightarrow> forward_safe (8 * n) d s \<Longrightarrow>
   rep_movsq n d s m = (d + of_nat (8 * n), s + of_nat (8 * n), copied d s (of_nat (8 * n)) m)"
proof (induction n arbitrary: d s m)
  case (Suc n)
  have "forward_safe (8 * n) (d + of_nat 8) (s + of_nat 8)"
    using forward_safe_shift [of 8 "8 * n" d s] Suc.prems(2) by simp
  then have "rep_movsq n (d + 8) (s + 8) (copied d s 8 m) =
      (d + 8 + of_nat (8 * n), s + 8 + of_nat (8 * n), copied (d + 8) (s + 8) (of_nat (8 * n)) (copied d s 8 m))"
    using Suc.IH [of "d + 8" "s + 8" "copied d s 8 m"] Suc.prems(1) by simp
  moreover have "copied (d + 8) (s + 8) (of_nat (8 * n)) (copied d s 8 m) = copied d s (of_nat (8 + 8 * n)) m"
    using copied_split [of 8 "8 * n" d s m] Suc.prems by simp
  moreover have "store64 m d (load64 m s) = copied d s 8 m" by (simp add: store64_load64 copied_def)
  ultimately show ?case by (simp add: add.assoc)
qed (simp add: copied_def)

lemma rep_movsb_copied:
  "n < 2 ^ 64 \<Longrightarrow> forward_safe n d s \<Longrightarrow> rep_movsb n d s m = copied d s (of_nat n) m"
proof (induction n arbitrary: d s m)
  case (Suc n)
  have "forward_safe n (d + 1) (s + 1)" using forward_safe_shift [of 1 n d s] Suc.prems(2) by simp
  then have "rep_movsb n (d + 1) (s + 1) (copied d s 1 m) = copied (d + 1) (s + 1) (of_nat n) (copied d s 1 m)"
    using Suc.IH [of "d + 1" "s + 1"] Suc.prems(1) by simp
  moreover have "copied (d + 1) (s + 1) (of_nat n) (copied d s 1 m) = copied d s (of_nat (1 + n)) m"
    using copied_split [of 1 n d s m] Suc.prems by simp
  moreover have "m(d := m s) = copied d s 1 m"
    by (auto simp: copied_def fun_eq_iff word_less_iff_unat unat_eq_zero)
  ultimately show ?case by simp
qed (simp add: copied_def)

lemma memcpy_copied:
  assumes "forward_safe (unat n) d s"
  shows "memcpy d s n m = copied d s n m"
proof -
  define q r where "q = unat n div 8" and "r = unat n mod 8"
  have n: "unat n = 8 * q + r" "unat (n div 8) = q" "unat (n mod 8) = r"
    by (simp_all add: q_def r_def unat_mod)
  have lt: "8 * q + r < 2 ^ 64" unfolding n(1) [symmetric] using unsigned_less [of n, where 'a = nat] by simp
  have "forward_safe (8 * q) d s" "forward_safe r (d + of_nat (8 * q)) (s + of_nat (8 * q))"
    using assms forward_safe_shift [of "8 * q" r d s] by (simp_all add: n(1)) (simp add: forward_safe_def)
  then have "memcpy d s n m = copied (d + of_nat (8 * q)) (s + of_nat (8 * q)) (of_nat r) (copied d s (of_nat (8 * q)) m)"
    using rep_movsq_copied [of q d s m] rep_movsb_copied lt unfolding memcpy_def n by simp
  also have "\<dots> = copied d s (of_nat (8 * q + r)) m" using copied_split [OF lt] assms n(1) by simp
  also have "of_nat (8 * q + r) = n" unfolding n(1) [symmetric] by simp
  finally show ?thesis .
qed

lemma copy_backward_copied:
  "n < 2 ^ 64 \<Longrightarrow> \<forall>j<n. \<forall>i<j. s + of_nat i \<noteq> d + of_nat j \<Longrightarrow> copy_backward n d s m = copied d s (of_nat n) m"
proof (induction n arbitrary: m)
  case (Suc n)
  let ?m = "m(d + of_nat n := m (s + of_nat n))"
  have u: "unat (of_nat n :: u64) = n" using Suc.prems by (simp add: unat_of_nat_small)
  have IH: "copy_backward n d s ?m = copied d s (of_nat n) ?m" using Suc by simp
  have "copied d s (of_nat n) ?m x = copied d s (of_nat (Suc n)) m x" for x
  proof -
    have split: "x - d < of_nat (Suc n) \<longleftrightarrow> x - d < of_nat n \<or> x = d + of_nat n"
    proof -
      have "x - (d + of_nat n) < 1 \<longleftrightarrow> x = d + of_nat n" by (simp add: word_less_iff_unat unat_eq_zero)
      then show ?thesis using offset_split [of "of_nat n" 1 x d] u Suc.prems(1) by (simp add: add.commute)
    qed
    have unread: "s + (x - d) \<noteq> d + of_nat n" if "x - d < of_nat n"
    proof -
      have "unat (x - d) < n" using that u by (simp add: word_less_iff_unat)
      then have "s + of_nat (unat (x - d)) \<noteq> d + of_nat n" using Suc.prems(2) by blast
      then show ?thesis by simp
    qed
    show ?thesis unfolding copied_def split using unread by auto
  qed
  then show ?case using IH by auto
qed (simp add: copied_def)

lemma no_wrap_eq:
  assumes "unat (a :: u64) + i < 2 ^ 64" "unat b + j < 2 ^ 64"
  shows "a + of_nat i = b + of_nat j \<longleftrightarrow> unat a + i = unat b + j"
proof -
  have "unat (of_nat i :: u64) = i" "unat (of_nat j :: u64) = j" using assms by (simp_all add: unat_of_nat_small)
  then have "unat (a + of_nat i) = unat a + i" "unat (b + of_nat j) = unat b + j"
    using assms by (simp_all add: unat_plus_no_wrap)
  then show ?thesis by (metis word_unat_eq_iff)
qed

lemma memmove_copied:
  assumes "unat s + unat n < 2 ^ 64" "unat d + unat n < 2 ^ 64"
  shows "memmove d s n m = copied d s n m"
proof -
  consider "d = s \<or> n = 0" | "d \<noteq> s" "n \<noteq> 0" "d < s \<or> d \<ge> s + n" | "d \<noteq> s" "n \<noteq> 0" "\<not> (d < s \<or> d \<ge> s + n)"
    by blast
  then show ?thesis
  proof cases
    case 1
    then show ?thesis by (auto simp: memmove_def copied_def)
  next
    case 2
    have "unat (s + n) = unat s + unat n" using assms(1) by (simp add: unat_plus_no_wrap)
    then have "forward_safe (unat n) d s"
      using 2(3) assms no_wrap_eq [of s _ d]
      by (auto simp: forward_safe_def word_less_iff_unat word_le_iff_unat)
    then show ?thesis using 2 by (auto simp: memmove_def memcpy_copied)
  next
    case 3
    then have "unat s < unat d" by (auto simp: word_less_iff_unat word_unat_eq_iff)
    then have "\<forall>j<unat n. \<forall>i<j. s + of_nat i \<noteq> d + of_nat j"
      using assms no_wrap_eq [of s _ d] by auto
    then have "copy_backward (unat n) d s m = copied d s n m"
      using copy_backward_copied [of "unat n" s d m] unsigned_less [of n, where 'a = nat] by simp
    with 3 show ?thesis by (auto simp: memmove_def)
  qed
qed


subsection \<open>Comparison and strings\<close>

lemma memcmp_loop_zero: "memcmp_loop n a b m = 0 \<longleftrightarrow> bytes m a n = bytes m b n"
  by (induction n arbitrary: a b) (auto simp: bytes_Suc bytes_def [of _ _ 0] word_uint_eq_iff [symmetric])

lemma is_cstring_cong:
  "is_cstring m a bs \<Longrightarrow> (\<And>k. k \<le> length bs \<Longrightarrow> m' (a + of_nat k) = m (a + of_nat k)) \<Longrightarrow> is_cstring m' a bs"
  by (auto simp: is_cstring_def bytes_def intro!: nth_equalityI)
     (metis (no_types, lifting) length_map length_upt diff_zero nth_map_upt add_0 nat_less_le)+

definition byte_less :: "(u8 \<times> u8) set" where
  "byte_less = {(x, y). x < y}"

lemma memcmp_loop_less: "memcmp_loop n a b m < 0 \<longleftrightarrow> (bytes m a n, bytes m b n) \<in> lexord byte_less"
  by (induction n arbitrary: a b)
     (auto simp: bytes_Suc bytes_def [of _ _ 0] byte_less_def word_less_def)

lemma strlen_from_cstring:
  "is_cstring m (a + len) bs \<Longrightarrow> strlen_from a len m = Some (len + of_nat (length bs))"
proof (induction bs arbitrary: len)
  case Nil
  then show ?case by (subst strlen_from.simps) simp
next
  case (Cons b bs)
  have "strlen_from a (len + 1) m = Some (len + 1 + of_nat (length bs))"
    using Cons.IH [of "len + 1"] Cons.prems by (simp add: add.assoc)
  then show ?case using Cons.prems by (subst strlen_from.simps) (simp add: add.assoc add.commute)
qed

lemma strcmp_cstring:
  "is_cstring m a bs \<Longrightarrow> is_cstring m b cs \<Longrightarrow>
   \<exists>r. strcmp a b m = Some r \<and> (r = 0 \<longleftrightarrow> bs = cs) \<and> (r < 0 \<longleftrightarrow> (bs, cs) \<in> lexord byte_less)"
proof (induction bs arbitrary: a b cs)
  case Nil
  then show ?case
    using word_gt_0 [of "m b"] by (subst strcmp.simps) (cases cs, auto simp: byte_less_def word_less_def)
next
  case (Cons x bs)
  show ?case
  proof (cases cs)
    case Nil
    with Cons.prems word_gt_0 [of "m a"] show ?thesis
      by (subst strcmp.simps) (auto simp: byte_less_def word_less_def)
  next
    case c: (Cons y cs')
    show ?thesis
    proof (cases "x = y")
      case True
      with Cons.IH [of "a + 1" "b + 1" cs'] Cons.prems c show ?thesis
        by (subst strcmp.simps) (auto simp: byte_less_def)
    next
      case False
      with Cons.prems c show ?thesis
        by (subst strcmp.simps) (auto simp: byte_less_def word_less_def word_uint_eq_iff [symmetric])
    qed
  qed
qed

lemma strcpy_loop_copied:
  "is_cstring m s bs \<Longrightarrow> length bs + 1 < 2 ^ 64 \<Longrightarrow> forward_safe (length bs + 1) d s \<Longrightarrow>
   strcpy_loop d s m = Some (copied d s (of_nat (length bs + 1)) m)"
proof (induction bs arbitrary: d s m)
  case Nil
  have "m(d := m s) = copied d s 1 m"
    by (auto simp: copied_def fun_eq_iff word_less_iff_unat unat_eq_zero)
  with Nil show ?case by (subst strcpy_loop.simps) (simp add: Let_def)
next
  case (Cons b bs)
  have one: "m(d := m s) = copied d s 1 m"
    by (auto simp: copied_def fun_eq_iff word_less_iff_unat unat_eq_zero)
  have safe: "forward_safe (length bs + 1) (d + 1) (s + 1)"
    using forward_safe_shift [of 1 "length bs + 1" d s] Cons.prems(3) by simp
  have unread: "s + of_nat (Suc k) \<noteq> d" if "k \<le> length bs" for k
    using Cons.prems(3) that by (force simp: forward_safe_def dest: spec [of _ "Suc k"])
  have str: "is_cstring (m(d := m s)) (s + 1) bs"
  proof -
    have "(m(d := m s)) (s + 1 + of_nat k) = m (s + 1 + of_nat k)" if "k \<le> length bs" for k
      using unread [OF that] by (simp add: add.assoc)
    moreover have "is_cstring m (s + 1) bs" using Cons.prems(1) by simp
    ultimately show ?thesis by (rule is_cstring_cong [rotated])
  qed
  have "strcpy_loop d s m = strcpy_loop (d + 1) (s + 1) (m(d := m s))"
    using Cons.prems(1) by (subst strcpy_loop.simps) (auto simp: Let_def)
  also have "strcpy_loop (d + 1) (s + 1) (m(d := m s)) = Some (copied (d + 1) (s + 1) (of_nat (length bs + 1)) (m(d := m s)))"
    by (rule Cons.IH [OF str _ safe]) (use Cons.prems(2) in simp)
  also have "copied (d + 1) (s + 1) (of_nat (length bs + 1)) (m(d := m s)) = copied d s (of_nat (1 + (length bs + 1))) m"
    unfolding one using copied_split [of 1 "length bs + 1" d s m] Cons.prems(2,3) by simp
  finally show ?case by simp
qed

section \<open>Properties\<close>

text \<open>
  \<open>memmove\<close> copies correctly however source and destination overlap: the destination
  range gets the bytes the source range held before, and nothing else changes. This covers the
  forward qword copy of \<open>memcpy\<close> and the backward loop.
\<close>

theorem memmove_correct:
  assumes "unat s + unat n < 2 ^ 64" "unat d + unat n < 2 ^ 64"
  shows "bytes (memmove d s n m) d (unat n) = bytes m s (unat n) \<and>
    (\<not> x - d < n \<longrightarrow> memmove d s n m x = m x)"
proof -
  have "d + of_nat k - d < n" if "k < unat n" for k
    using that unat_of_nat_small [of k, where 'a = 64] unsigned_less [of n, where 'a = nat]
    by (simp add: word_less_iff_unat)
  then show ?thesis by (simp add: memmove_copied [OF assms] copied_def bytes_def)
qed

theorem memmove_correct_witness:
  "bytes (memmove 0x1001 0x1000 20 (\<lambda>a. ucast a)) 0x1001 20 = bytes (\<lambda>a. ucast a) 0x1000 20"
  using memmove_correct [of "0x1000" 20 "0x1001"] by simp

text \<open>
  \<open>memset\<close>, split into qword and byte stores, fills exactly the range with the byte, for
  every length and even across the end of the address space.
\<close>

theorem memset_correct:
  "memset s c n m = (\<lambda>x. if x - s < n then c else m x)"
  by (rule memset_eq)

text \<open>
  String routines on terminated strings: \<open>strlen\<close> and \<open>strcmp\<close> return; the length is the
  number of bytes before the terminator, and the comparison is zero, negative or positive as the
  byte strings are equal, smaller or larger in lexicographic order of unsigned bytes.
\<close>

theorem strings_correct:
  assumes "is_cstring m a bs" "is_cstring m b cs"
  shows "strlen a m = Some (of_nat (length bs)) \<and>
    (\<exists>r. strcmp a b m = Some r \<and> (r = 0 \<longleftrightarrow> bs = cs) \<and> (r < 0 \<longleftrightarrow> (bs, cs) \<in> lexord byte_less))"
  using strcmp_cstring [OF assms] strlen_from_cstring [of m a 0 bs] assms(1) by (simp add: strlen_def)

definition ab_memory :: memory where
  "ab_memory a = (if a = 0x10 then 97 else if a = 0x20 then 97 else if a = 0x21 then 98 else 0)"

theorem strings_correct_witness:
  "strlen 0x20 ab_memory = Some 2 \<and> (\<exists>r. strcmp 0x10 0x20 ab_memory = Some r \<and> r < 0)"
proof -
  have a: "is_cstring ab_memory 0x10 [97]" "is_cstring ab_memory 0x20 [97, 98]"
    by (simp_all add: ab_memory_def)
  have "([97], [97, 98 :: u8]) \<in> lexord byte_less" by simp
  then show ?thesis
    using strings_correct [OF a] strings_correct [OF a(2,1)] by auto
qed

text \<open>
  \<open>strcpy\<close> of a terminated string returns and copies it with its terminator, whenever the
  destination does not start inside the source behind its first byte.
\<close>

theorem strcpy_correct:
  assumes "is_cstring m s bs" "length bs + 1 < 2 ^ 64" "forward_safe (length bs + 1) d s"
  shows "strcpy d s m = Some (copied d s (of_nat (length bs + 1)) m)"
  unfolding strcpy_def using assms by (rule strcpy_loop_copied)

end
