(* ===== verification/Printf.thy ===== *)
theory Printf
  imports CString
begin

text \<open>
  The formatter (src/kernel/printf.c). The format and the strings it refers to are in memory; the
  output buffer is an array of its own, and the variable arguments are the stream of 64-bit slots
  that \<open>va_arg\<close> reads one after the other.
\<close>

section \<open>Numbers\<close>

text \<open>
  \<open>itoa\<close> collects the digits from the low end and reverses the buffer. Its callers pass the
  bases 10 and 16; for a base below 2 the C loop would fault or not end.
\<close>

definition digit_char :: "u64 \<Rightarrow> u8" where
  "digit_char rem = (if rem > 9 then ucast (rem - 10) + 97 else ucast rem + 48)"

function itoa_digits :: "u64 \<Rightarrow> u64 \<Rightarrow> u8 list" where
  "itoa_digits base n =
     (if n > 0 \<and> base \<ge> 2 then digit_char (n mod base) # itoa_digits base (n div base) else [])"
  by pat_completeness auto
termination
proof (relation "measure (\<lambda>(base, n). unat n)")
  fix base n :: u64
  assume a: "n > 0 \<and> base \<ge> 2"
  then have "unat n > 0" "unat base \<ge> 2" by (simp_all add: word_less_iff_unat word_le_iff_unat)
  then have "unat n div unat base < unat n" by (intro div_less_dividend) simp_all
  then show "((base, n div base), (base, n)) \<in> measure (\<lambda>(base, n). unat n)"
    by (simp add: unat_div)
qed simp

declare itoa_digits.simps [simp del]

text \<open>\<open>for (i = 0, j = strlen(s) - 1; i < j; i++, j--)\<close> with a swap; \<open>k = j - i\<close> decides.\<close>

function reverse_loop :: "int \<Rightarrow> int \<Rightarrow> u8 list \<Rightarrow> u8 list" where
  "reverse_loop i j s =
     (if i < j
      then reverse_loop (i + 1) (j - 1) (s[nat i := s ! nat j, nat j := s ! nat i])
      else s)"
  by pat_completeness auto
termination by (relation "measure (\<lambda>(i, j, s). nat (j - i))") auto

declare reverse_loop.simps [simp del]

definition reverse_buf :: "u8 list \<Rightarrow> u8 list" where
  "reverse_buf s = reverse_loop 0 (int (length s) - 1) s"

definition itoa :: "u64 \<Rightarrow> u64 \<Rightarrow> u8 list" where
  "itoa n base = reverse_buf (if n = 0 then [48] else itoa_digits base n)"

section \<open>The formatter\<close>

type_synonym out_state = "u64 \<times> u8 carray"

definition put :: "u8 \<Rightarrow> out_state \<Rightarrow> out_state" where
  "put c = (\<lambda>(i, str). (i + 1, str(unat i := c)))"

text \<open>\<open>while (*s != '\0' && i < size - 1) str[i++] = *s++\<close>, over \<open>buf\<close> and over memory.\<close>

fun put_bytes :: "u64 \<Rightarrow> u8 list \<Rightarrow> out_state \<Rightarrow> out_state" where
  "put_bytes lim [] st = st"
| "put_bytes lim (c # cs) st = (if fst st < lim then put_bytes lim cs (put c st) else st)"

function put_string :: "u64 \<Rightarrow> memory \<Rightarrow> u64 \<Rightarrow> out_state \<Rightarrow> out_state" where
  "put_string lim m s st = (if m s \<noteq> 0 \<and> fst st < lim then put_string lim m (s + 1) (put (m s) st) else st)"
  by pat_completeness auto
termination
proof (relation "measure (\<lambda>(lim, m, s, st). unat lim - unat (fst st))")
  fix lim s :: u64 and m :: memory and st :: out_state
  assume "m s \<noteq> 0 \<and> fst st < lim"
  then have "unat (fst st) < unat lim" "unat lim < 2 ^ 64"
    using unsigned_less [of lim, where 'a = nat] by (simp_all add: word_less_iff_unat)
  then have "unat (fst (put (m s) st)) = unat (fst st) + 1"
    by (simp add: put_def split_beta unat_plus_no_wrap)
  then show "((lim, m, s + 1, put (m s) st), (lim, m, s, st)) \<in> measure (\<lambda>(lim, m, s, st). unat lim - unat (fst st))"
    using \<open>unat (fst st) < unat lim\<close> by simp
qed simp

declare put_string.simps [simp del]

text \<open>One conversion: the character behind the percent sign, the arguments and their position.\<close>

definition convert :: "u64 \<Rightarrow> memory \<Rightarrow> u8 \<Rightarrow> (nat \<Rightarrow> u64) \<Rightarrow> nat \<Rightarrow> out_state \<Rightarrow> nat \<times> out_state" where
  "convert lim m c args k st =
     (if c = 99 then (k + 1, put (ucast (args k)) st)
      else if c = 115 then (k + 1, put_string lim m (args k) st)
      else if c = 100
      then let n = args k
           in if sint n < 0 then (k + 1, put_bytes lim (itoa (- n) 10) (put 45 st))
              else (k + 1, put_bytes lim (itoa n 10) st)
      else if c = 117 then (k + 1, put_bytes lim (itoa (args k) 10) st)
      else if c = 120 then (k + 1, put_bytes lim (itoa (args k) 16) st)
      else if c = 112 then (k + 1, put_bytes lim (itoa (args k) 16) st)
      else if c = 37 then (k, put 37 st)
      else (k, put c st))"

partial_function (option) format_loop ::
  "u64 \<Rightarrow> memory \<Rightarrow> (nat \<Rightarrow> u64) \<Rightarrow> u64 \<Rightarrow> nat \<Rightarrow> out_state \<Rightarrow> out_state option" where
  "format_loop lim m args p k st =
     (if m p \<noteq> 0 \<and> fst st < lim
      then if m p \<noteq> 37 then format_loop lim m args (p + 1) k (put (m p) st)
           else let r = convert lim m (m (p + 1)) args k st
                in format_loop lim m args (p + 2) (fst r) (snd r)
      else Some st)"

text \<open>The result is an \<open>int\<close>: the low 32 bits of the position.\<close>

definition vsnprintf ::
  "u8 carray \<Rightarrow> u64 \<Rightarrow> u64 \<Rightarrow> (nat \<Rightarrow> u64) \<Rightarrow> memory \<Rightarrow> (u32 \<times> u8 carray) option" where
  "vsnprintf str bufsize format args m =
     Option.bind (format_loop (bufsize - 1) m args format 0 (0, str))
       (\<lambda>(i, str'). Some (ucast i, str'(unat i := 0)))"

section \<open>Reversal and digits\<close>

lemma reverse_loop_rev:
  "reverse_loop (int (length xs)) (int (length xs + length ys) - 1) (xs @ ys @ zs) = xs @ rev ys @ zs"
proof (induction "length ys" arbitrary: xs ys zs rule: less_induct)
  case less
  show ?case
  proof (cases "length ys < 2")
    case True
    then have "rev ys = ys" by (cases ys) auto
    with True show ?thesis by (subst reverse_loop.simps) auto
  next
    case False
    then obtain y mid w where ys: "ys = y # mid @ [w]"
      by (cases ys; cases "tl ys" rule: rev_cases) auto
    have upd: "(xs @ ys @ zs)[length xs := (xs @ ys @ zs) ! (length xs + length mid + 1),
        length xs + length mid + 1 := (xs @ ys @ zs) ! length xs] = (xs @ [w]) @ mid @ ([y] @ zs)"
      by (simp add: ys nth_append list_update_append)
    have "nat (int (length xs + length ys) - 1) = length xs + length mid + 1" by (simp add: ys)
    then have "reverse_loop (int (length xs)) (int (length xs + length ys) - 1) (xs @ ys @ zs) =
        reverse_loop (int (length xs) + 1) (int (length xs + length ys) - 1 - 1) ((xs @ [w]) @ mid @ ([y] @ zs))"
      using upd by (subst reverse_loop.simps) (simp add: ys)
    also have "\<dots> = (xs @ [w]) @ rev mid @ ([y] @ zs)"
      using less [of mid "xs @ [w]" "[y] @ zs"] by (simp add: ys algebra_simps)
    finally show ?thesis by (simp add: ys)
  qed
qed

lemma reverse_buf_rev: "reverse_buf s = rev s"
  using reverse_loop_rev [of "[]" s "[]"] by (simp add: reverse_buf_def)

definition digit_value :: "u8 \<Rightarrow> nat" where
  "digit_value c = (if c \<ge> 97 then unat c - 87 else unat c - 48)"

text \<open>Reading a numeral back, most significant digit first.\<close>

definition numeral_value :: "nat \<Rightarrow> u8 list \<Rightarrow> nat" where
  "numeral_value base cs = foldl (\<lambda>acc c. acc * base + digit_value c) 0 cs"

lemma digit_value_char:
  assumes "unat r < 16"
  shows "digit_value (digit_char r) = unat r"
proof (cases "r > 9")
  case True
  then have r: "unat r > 9" "unat (r - 10) = unat r - 10"
    by (simp_all add: word_less_iff_unat unat_minus_no_wrap word_le_iff_unat)
  then have "unat (ucast (r - 10) :: u8) = unat r - 10" using assms by (simp add: unat_ucast_small)
  then have "unat (ucast (r - 10) + 97 :: u8) = unat r - 10 + 97"
    using assms by (subst unat_plus_no_wrap) simp_all
  with r show ?thesis using True assms
    by (simp add: digit_char_def digit_value_def word_le_iff_unat)
next
  case False
  then have r: "unat r \<le> 9" by (simp add: word_less_iff_unat)
  then have "unat (ucast r :: u8) = unat r" by (simp add: unat_ucast_small)
  then have "unat (ucast r + 48 :: u8) = unat r + 48" using r by (subst unat_plus_no_wrap) simp_all
  with r show ?thesis using False
    by (simp add: digit_char_def digit_value_def word_le_iff_unat)
qed

lemma itoa_digits_value:
  "base = 10 \<or> base = 16 \<Longrightarrow>
   foldr (\<lambda>c acc. acc * unat base + digit_value c) (itoa_digits base n) 0 = unat n"
proof (induction base n rule: itoa_digits.induct)
  case (1 base n)
  have b: "base \<ge> 2" "unat base = 10 \<or> unat base = 16" "unat base \<le> 16" using 1(2) by auto
  show ?case
  proof (cases "n > 0")
    case True
    have "unat (n mod base) < 16"
      using b mod_less_divisor [of "unat base" "unat n"] by (auto simp: unat_mod)
    then have "digit_value (digit_char (n mod base)) = unat n mod unat base"
      by (simp add: digit_value_char unat_mod)
    then show ?thesis
      using 1 True b by (subst itoa_digits.simps) (simp add: unat_div)
  next
    case False
    then have "n = 0" by (simp add: word_gt_0)
    then show ?thesis by (subst itoa_digits.simps) simp
  qed
qed

lemma itoa_value:
  assumes "base = 10 \<or> base = 16"
  shows "numeral_value (unat base) (itoa n base) = unat n"
  using itoa_digits_value [OF assms, of n]
  by (simp add: itoa_def reverse_buf_rev numeral_value_def foldl_conv_foldr digit_value_def)

lemma itoa_chars:
  assumes "base = 10 \<or> base = 16"
  shows "0 \<notin> set (itoa n base)"
proof -
  have d: "digit_char r \<noteq> 0" if "unat r < 16" for r
  proof
    assume "digit_char r = 0"
    then have "ucast (r - 10) + 97 = (0 :: u8) \<and> r > 9 \<or> ucast r + 48 = (0 :: u8) \<and> \<not> r > 9"
      by (auto simp: digit_char_def split: if_splits)
    moreover have "unat (ucast (r - 10) + 97 :: u8) = unat r - 10 + 97" if "r > 9"
    proof -
      have "unat (r - 10) = unat r - 10" using that by (simp add: word_less_iff_unat unat_minus_no_wrap word_le_iff_unat)
      then have "unat (ucast (r - 10) :: u8) = unat r - 10" using \<open>unat r < 16\<close> by (simp add: unat_ucast_small)
      then show ?thesis using \<open>unat r < 16\<close> by (subst unat_plus_no_wrap) simp_all
    qed
    moreover have "unat (ucast r + 48 :: u8) = unat r + 48"
      using that by (subst unat_plus_no_wrap) (simp_all add: unat_ucast_small)
    ultimately show False by auto
  qed
  have "0 \<notin> set (itoa_digits base n)" using assms
  proof (induction base n rule: itoa_digits.induct)
    case (1 base n)
    have "unat (n mod base) < 16" using 1(2) mod_less_divisor [of "unat base" "unat n"] by (auto simp: unat_mod)
    then show ?case using 1 d by (subst itoa_digits.simps) auto
  qed
  then show ?thesis by (simp add: itoa_def reverse_buf_rev)
qed


section \<open>What a format prints\<close>

text \<open>
  The specification: \<open>renders m args k bs out\<close> says that the format \<open>bs\<close> prints \<open>out\<close> when its first
  conversion takes argument \<open>k\<close>. A format that ends in a lone percent sign prints nothing
  definite: the code steps over the terminator.
\<close>

definition decimal :: "u64 \<Rightarrow> u8 list" where
  "decimal n = (if sint n < 0 then 45 # itoa (- n) 10 else itoa n 10)"

inductive renders :: "memory \<Rightarrow> (nat \<Rightarrow> u64) \<Rightarrow> nat \<Rightarrow> u8 list \<Rightarrow> u8 list \<Rightarrow> bool" for m args where
  r_end: "renders m args k [] []"
| r_plain: "c \<noteq> 37 \<Longrightarrow> renders m args k bs out \<Longrightarrow> renders m args k (c # bs) (c # out)"
| r_char: "renders m args (k + 1) bs out \<Longrightarrow> renders m args k (37 # 99 # bs) (ucast (args k) # out)"
| r_string: "is_cstring m (args k) ss \<Longrightarrow> renders m args (k + 1) bs out \<Longrightarrow>
    renders m args k (37 # 115 # bs) (ss @ out)"
| r_signed: "renders m args (k + 1) bs out \<Longrightarrow> renders m args k (37 # 100 # bs) (decimal (args k) @ out)"
| r_unsigned: "renders m args (k + 1) bs out \<Longrightarrow> renders m args k (37 # 117 # bs) (itoa (args k) 10 @ out)"
| r_hex: "c = 120 \<or> c = 112 \<Longrightarrow> renders m args (k + 1) bs out \<Longrightarrow>
    renders m args k (37 # c # bs) (itoa (args k) 16 @ out)"
| r_other: "c \<notin> {99, 115, 100, 117, 120, 112} \<Longrightarrow> renders m args k bs out \<Longrightarrow>
    renders m args k (37 # c # bs) (c # out)"

lemma put_bytes_full: "\<not> fst st < lim \<Longrightarrow> put_bytes lim cs st = st"
  by (cases cs) simp_all

lemma put_bytes_append: "put_bytes lim (xs @ ys) st = put_bytes lim ys (put_bytes lim xs st)"
  by (induction xs arbitrary: st) (simp_all add: put_bytes_full)

lemma put_string_bytes: "is_cstring m s ss \<Longrightarrow> put_string lim m s st = put_bytes lim ss st"
proof (induction ss arbitrary: s st)
  case Nil
  then show ?case by (subst put_string.simps) simp
next
  case (Cons c ss)
  then show ?case by (subst put_string.simps) auto
qed

lemma format_loop_renders:
  "renders m args k bs out \<Longrightarrow> is_cstring m p bs \<Longrightarrow>
   format_loop lim m args p k st = Some (put_bytes lim out st)"
proof (induction arbitrary: p st rule: renders.induct)
  case (r_end k)
  then show ?case by (subst format_loop.simps) simp
next
  case (r_plain c k bs out)
  then show ?case by (subst format_loop.simps) auto
next
  case (r_char k bs out)
  then show ?case by (subst format_loop.simps) (auto simp: convert_def Let_def add.assoc)
next
  case (r_string k ss bs out)
  then show ?case
    by (subst format_loop.simps) (auto simp: convert_def Let_def add.assoc put_bytes_append put_string_bytes put_bytes_full)
next
  case (r_signed k bs out)
  then show ?case
    by (subst format_loop.simps)
       (auto simp: convert_def Let_def add.assoc put_bytes_append put_bytes_full decimal_def)
next
  case (r_unsigned k bs out)
  then show ?case
    by (subst format_loop.simps) (auto simp: convert_def Let_def add.assoc put_bytes_append put_bytes_full)
next
  case (r_hex c k bs out)
  then show ?case
    by (subst format_loop.simps) (auto simp: convert_def Let_def add.assoc put_bytes_append put_bytes_full)
next
  case (r_other c k bs out)
  then show ?case by (subst format_loop.simps) (auto simp: convert_def Let_def add.assoc)
qed

lemma put_bytes_effect:
  "unat i + n = min (unat i + length out) (unat lim) \<Longrightarrow> i \<le> lim \<Longrightarrow>
   put_bytes lim out (i, str) =
     (i + of_nat n, \<lambda>j. if unat i \<le> j \<and> j < unat i + n then out ! (j - unat i) else str j)"
proof (induction out arbitrary: i n str)
  case Nil
  then show ?case by (auto simp: word_le_iff_unat fun_eq_iff)
next
  case (Cons c out)
  show ?case
  proof (cases "i < lim")
    case True
    then have lt: "unat i < unat lim" "unat lim < 2 ^ 64"
      using unsigned_less [of lim, where 'a = nat] by (simp_all add: word_less_iff_unat)
    then have u: "unat (i + 1) = unat i + 1" by (simp add: unat_plus_no_wrap)
    obtain k where k: "n = Suc k" using Cons.prems(1) lt by (cases n) auto
    define str1 where "str1 = str(unat i := c)"
    have at: "str1 j = (if j = unat i then c else str j)" for j by (simp add: str1_def)
    have "put_bytes lim out (i + 1, str1) =
        (i + 1 + of_nat k, \<lambda>j. if unat (i + 1) \<le> j \<and> j < unat (i + 1) + k then out ! (j - unat (i + 1)) else str1 j)"
      by (rule Cons.IH) (use Cons.prems(1) lt u k in \<open>simp_all add: word_le_iff_unat\<close>)
    moreover have "put_bytes lim (c # out) (i, str) = put_bytes lim out (i + 1, str1)"
      using True by (simp add: put_def str1_def)
    ultimately show ?thesis
      unfolding u at by (auto simp: k fun_eq_iff nth_Cons' split: if_splits)
  next
    case False
    then have "n = 0" "i = lim" using Cons.prems by (auto simp: word_le_iff_unat word_less_iff_unat word_unat_eq_iff)
    then show ?thesis by (auto simp: fun_eq_iff)
  qed
qed

text \<open>The formatter prints the longest prefix of the rendered text that fits.\<close>

lemma vsnprintf_prints:
  assumes "is_cstring m format bs" "renders m args 0 bs out" "1 \<le> unat n"
    and "len = min (length out) (unat n - 1)"
  shows "vsnprintf str n format args m =
    Some (of_nat len, \<lambda>j. if j < len then out ! j else if j = len then 0 else str j)"
proof -
  have n: "unat (n - 1) = unat n - 1" using assms(3) by (intro unat_minus_one) auto
  have "put_bytes (n - 1) out (0, str) = (of_nat len, \<lambda>j. if j < len then out ! j else str j)"
    using put_bytes_effect [of 0 len out "n - 1" str, unfolded unsigned_0 diff_zero] n assms(4) by simp
  moreover have "len < 2 ^ 64" using assms(4) unsigned_less [of n, where 'a = nat] by simp
  then have "unat (of_nat len :: u64) = len" by (simp add: unat_of_nat_small)
  moreover have "ucast (of_nat len :: u64) = (of_nat len :: u32)"
    by (simp add: unsigned_of_nat word_of_nat_eq_iff take_bit_take_bit)
  ultimately show ?thesis
    using format_loop_renders [OF assms(2,1), of "n - 1" "(0, str)"]
    by (simp add: vsnprintf_def fun_eq_iff)
qed

section \<open>Properties\<close>

text \<open>
  Round trip of numbers: the digits \<open>itoa\<close> prints in base 10 or 16, collected low end first
  and reversed in place, denote exactly the number printed.
\<close>

theorem itoa_correct:
  assumes "base = 10 \<or> base = 16"
  shows "numeral_value (unat base) (itoa n base) = unat n \<and> 0 \<notin> set (itoa n base)"
  using itoa_value [OF assms] itoa_chars [OF assms] by simp

theorem itoa_correct_witness:
  "numeral_value 16 (itoa 0xBEEF 16) = 0xBEEF \<and> 0 \<notin> set (itoa 0xBEEF 16)"
  using itoa_correct [of 16 "0xBEEF"] by simp

text \<open>
  C12. Formatting: with room for at least the terminator, \<open>vsnprintf\<close> returns, prints the longest
  prefix of the rendered text that fits, terminates it, returns its length and writes no byte of
  the buffer behind the terminator. A size of 0 is outside: \<open>size - 1\<close> then wraps and no write
  is checked.
\<close>

theorem vsnprintf_correct:
  assumes "is_cstring m format bs" "renders m args 0 bs out" "1 \<le> unat n"
    and "len = min (length out) (unat n - 1)"
  shows "vsnprintf str n format args m =
    Some (of_nat len, \<lambda>j. if j < len then out ! j else if j = len then 0 else str j)"
  by (rule vsnprintf_prints [OF assms])

text \<open>The format \<open>n=%u\<close> at address 0.\<close>

definition n_format :: memory where
  "n_format a = (if a = 0 then 110 else if a = 1 then 61 else if a = 2 then 37 else if a = 3 then 117 else 0)"

theorem vsnprintf_correct_witness:
  "\<exists>str'. vsnprintf (\<lambda>_. 0) 5 0 (\<lambda>_. 305) n_format = Some (4, str') \<and> str' 0 = 110 \<and> str' 1 = 61 \<and> str' 2 = 51 \<and> str' 4 = 0"
proof -
  have d: "itoa_digits 10 n = (if n = 0 then [] else digit_char (n mod 10) # itoa_digits 10 (n div 10))" for n
    by (subst itoa_digits.simps) (simp add: word_gt_0)
  have "itoa_digits 10 305 = [53, 48, 51]"
    by (subst d, subst d, subst d, subst d) (simp add: digit_char_def)
  then have i: "itoa 305 10 = [51, 48, 53]" by (simp add: itoa_def reverse_buf_rev)
  have r: "renders n_format (\<lambda>_. 305) 0 [110, 61, 37, 117] (110 # 61 # itoa 305 10 @ [])"
    by (rule r_plain, simp, rule r_plain, simp, rule r_unsigned, rule r_end)
  have c: "is_cstring n_format 0 [110, 61, 37, 117]" by (simp add: n_format_def)
  have "vsnprintf (\<lambda>_. 0) 5 0 (\<lambda>_. 305) n_format =
      Some (of_nat 4, \<lambda>j. if j < 4 then (110 # 61 # itoa 305 10 @ []) ! j else if j = 4 then 0 else 0)"
    by (rule vsnprintf_correct [OF c r]) (simp_all add: i)
  then show ?thesis unfolding i by (intro exI conjI) (assumption | simp)+
qed

end
