(* ===== verification/Ata.thy ===== *)
theory Ata
  imports CString
begin

text \<open>
  The ATA driver (src/kernel/ata.c): programmed I/O on the primary channel. The hardware is a
  parameter, a record of port operations on a device state. Buffers are lists of 512 bytes.
\<close>

section \<open>Ports and registers\<close>

record 'd port_io =
  inb :: "u16 \<Rightarrow> 'd \<Rightarrow> u8 \<times> 'd"
  inw :: "u16 \<Rightarrow> 'd \<Rightarrow> u16 \<times> 'd"
  outb :: "u16 \<Rightarrow> u8 \<Rightarrow> 'd \<Rightarrow> 'd"
  outw :: "u16 \<Rightarrow> u16 \<Rightarrow> 'd \<Rightarrow> 'd"

definition ATA_PRIMARY_IO :: u16 where "ATA_PRIMARY_IO = 0x1F0"
definition ATA_REG_DATA :: u16 where "ATA_REG_DATA = 0"
definition ATA_REG_SECCOUNT :: u16 where "ATA_REG_SECCOUNT = 2"
definition ATA_REG_LBA_LOW :: u16 where "ATA_REG_LBA_LOW = 3"
definition ATA_REG_LBA_MID :: u16 where "ATA_REG_LBA_MID = 4"
definition ATA_REG_LBA_HIGH :: u16 where "ATA_REG_LBA_HIGH = 5"
definition ATA_REG_DRIVE :: u16 where "ATA_REG_DRIVE = 6"
definition ATA_REG_COMMAND :: u16 where "ATA_REG_COMMAND = 7"
definition ATA_REG_STATUS :: u16 where "ATA_REG_STATUS = 7"
definition ATA_CMD_READ_PIO :: u8 where "ATA_CMD_READ_PIO = 0x20"
definition ATA_CMD_WRITE_PIO :: u8 where "ATA_CMD_WRITE_PIO = 0x30"
definition ATA_CMD_CACHE_FLUSH :: u8 where "ATA_CMD_CACHE_FLUSH = 0xE7"
definition ATA_CMD_IDENTIFY :: u8 where "ATA_CMD_IDENTIFY = 0xEC"
definition ATA_SR_BSY :: u8 where "ATA_SR_BSY = 0x80"
definition ATA_SR_DRQ :: u8 where "ATA_SR_DRQ = 0x08"
definition ATA_SR_ERR :: u8 where "ATA_SR_ERR = 0x01"

lemmas ata_ports = ATA_PRIMARY_IO_def ATA_REG_DATA_def ATA_REG_SECCOUNT_def ATA_REG_LBA_LOW_def
  ATA_REG_LBA_MID_def ATA_REG_LBA_HIGH_def ATA_REG_DRIVE_def ATA_REG_COMMAND_def ATA_REG_STATUS_def

lemmas ata_codes = ATA_CMD_READ_PIO_def ATA_CMD_WRITE_PIO_def ATA_CMD_CACHE_FLUSH_def ATA_CMD_IDENTIFY_def
  ATA_SR_BSY_def ATA_SR_DRQ_def ATA_SR_ERR_def

section \<open>The driver\<close>

text \<open>\<open>while (timeout--)\<close>: at most a million polls.\<close>

fun ata_wait_loop :: "'d port_io \<Rightarrow> nat \<Rightarrow> u8 \<Rightarrow> bool \<Rightarrow> 'd \<Rightarrow> int \<times> 'd" where
  "ata_wait_loop io 0 b want d = (-2, d)"
| "ata_wait_loop io (Suc n) b want d =
     (let (status, d1) = inb io (ATA_PRIMARY_IO + ATA_REG_STATUS) d
      in if status AND ATA_SR_ERR \<noteq> 0 then (-1, d1)
         else if want then (if status AND b \<noteq> 0 then (0, d1) else ata_wait_loop io n b want d1)
         else (if status AND b = 0 then (0, d1) else ata_wait_loop io n b want d1))"

definition ata_wait :: "'d port_io \<Rightarrow> u8 \<Rightarrow> bool \<Rightarrow> 'd \<Rightarrow> int \<times> 'd" where
  "ata_wait io b want d = ata_wait_loop io 1000000 b want d"

text \<open>The six register writes that start a command on one sector.\<close>

definition ata_command :: "'d port_io \<Rightarrow> u32 \<Rightarrow> u8 \<Rightarrow> 'd \<Rightarrow> 'd" where
  "ata_command io lba cmd d =
     (let d = outb io (ATA_PRIMARY_IO + ATA_REG_DRIVE) (0xE0 OR (ucast (drop_bit 24 lba) AND 0x0F)) d;
          d = outb io (ATA_PRIMARY_IO + ATA_REG_SECCOUNT) 1 d;
          d = outb io (ATA_PRIMARY_IO + ATA_REG_LBA_LOW) (ucast lba) d;
          d = outb io (ATA_PRIMARY_IO + ATA_REG_LBA_MID) (ucast (drop_bit 8 lba)) d;
          d = outb io (ATA_PRIMARY_IO + ATA_REG_LBA_HIGH) (ucast (drop_bit 16 lba)) d
      in outb io (ATA_PRIMARY_IO + ATA_REG_COMMAND) cmd d)"

text \<open>\<open>n\<close> words from the data port, low byte first, and \<open>n\<close> words to it.\<close>

fun read_words :: "'d port_io \<Rightarrow> nat \<Rightarrow> 'd \<Rightarrow> u8 list \<times> 'd" where
  "read_words io 0 d = ([], d)"
| "read_words io (Suc n) d =
     (let (w, d1) = inw io (ATA_PRIMARY_IO + ATA_REG_DATA) d;
          (bs, d2) = read_words io n d1
      in (ucast w # ucast (drop_bit 8 w) # bs, d2))"

fun write_words :: "'d port_io \<Rightarrow> u8 list \<Rightarrow> 'd \<Rightarrow> 'd" where
  "write_words io (lo # hi # bs) d =
     write_words io bs (outw io (ATA_PRIMARY_IO + ATA_REG_DATA) (ucast lo OR push_bit 8 (ucast hi)) d)"
| "write_words io _ d = d"

definition ata_init :: "'d port_io \<Rightarrow> 'd \<Rightarrow> int \<times> 'd" where
  "ata_init io d =
     (let d = outb io (ATA_PRIMARY_IO + ATA_REG_DRIVE) 0xA0 d;
          d = outb io (ATA_PRIMARY_IO + ATA_REG_SECCOUNT) 0 d;
          d = outb io (ATA_PRIMARY_IO + ATA_REG_LBA_LOW) 0 d;
          d = outb io (ATA_PRIMARY_IO + ATA_REG_LBA_MID) 0 d;
          d = outb io (ATA_PRIMARY_IO + ATA_REG_LBA_HIGH) 0 d;
          d = outb io (ATA_PRIMARY_IO + ATA_REG_COMMAND) ATA_CMD_IDENTIFY d;
          (status, d) = inb io (ATA_PRIMARY_IO + ATA_REG_STATUS) d
      in if status = 0 then (-1, d)
         else let (r, d) = ata_wait io ATA_SR_BSY False d
              in if r \<noteq> 0 then (-1, d)
                 else let (r, d) = ata_wait io ATA_SR_DRQ True d
                      in if r \<noteq> 0 then (-1, d)
                         else (0, snd (read_words io 256 d)))"

text \<open>A failed wait leaves the caller's buffer as it was and reports nothing.\<close>

definition ata_read_sector :: "'d port_io \<Rightarrow> u32 \<Rightarrow> u8 list \<Rightarrow> 'd \<Rightarrow> u8 list \<times> 'd" where
  "ata_read_sector io lba buffer d =
     (let (r, d) = ata_wait io ATA_SR_BSY False d
      in if r \<noteq> 0 then (buffer, d)
         else let d = ata_command io lba ATA_CMD_READ_PIO d;
                  (r, d) = ata_wait io ATA_SR_BSY False d
              in if r \<noteq> 0 then (buffer, d)
                 else let (r, d) = ata_wait io ATA_SR_DRQ True d
                      in if r \<noteq> 0 then (buffer, d) else read_words io 256 d)"

definition ata_write_sector :: "'d port_io \<Rightarrow> u32 \<Rightarrow> u8 list \<Rightarrow> 'd \<Rightarrow> 'd" where
  "ata_write_sector io lba buffer d =
     (let (r, d) = ata_wait io ATA_SR_BSY False d
      in if r \<noteq> 0 then d
         else let d = ata_command io lba ATA_CMD_WRITE_PIO d;
                  (r, d) = ata_wait io ATA_SR_BSY False d
              in if r \<noteq> 0 then d
                 else let (r, d) = ata_wait io ATA_SR_DRQ True d
                      in if r \<noteq> 0 then d
                         else let d = write_words io buffer d;
                                  d = outb io (ATA_PRIMARY_IO + ATA_REG_COMMAND) ATA_CMD_CACHE_FLUSH d
                              in snd (ata_wait io ATA_SR_BSY False d))"

section \<open>The contract of a block device\<close>

text \<open>
  What the file system needs: reads return the sector, writes replace it, both leave every
  other sector alone. \<open>sec\<close> is the content of the device, \<open>valid\<close> the range of addresses.
\<close>

locale block_device =
  fixes rd :: "u32 \<Rightarrow> u8 list \<Rightarrow> 'd \<Rightarrow> u8 list \<times> 'd"
    and wr :: "u32 \<Rightarrow> u8 list \<Rightarrow> 'd \<Rightarrow> 'd"
    and sec :: "'d \<Rightarrow> u32 \<Rightarrow> u8 list"
    and inv :: "'d \<Rightarrow> bool"
    and valid :: "u32 \<Rightarrow> bool"
  assumes rd_data: "inv d \<Longrightarrow> valid lba \<Longrightarrow> fst (rd lba buf d) = sec d lba"
    and rd_state: "inv d \<Longrightarrow> valid lba \<Longrightarrow> inv (snd (rd lba buf d)) \<and> sec (snd (rd lba buf d)) = sec d"
    and wr_state: "inv d \<Longrightarrow> valid lba \<Longrightarrow> length buf = 512 \<Longrightarrow>
      inv (wr lba buf d) \<and> sec (wr lba buf d) = (sec d)(lba := buf)"
    and sec_length: "inv d \<Longrightarrow> length (sec d lba) = 512"

section \<open>A drive that follows the PIO protocol\<close>

text \<open>
  The hypotheses above are satisfiable by hardware: this drive answers the ports as the ATA
  standard describes for 28-bit PIO commands. It is the device the driver is interpreted on.
\<close>

datatype transfer = Idle | ToHost "u8 list" | FromHost u32 "u8 list"

record drive =
  sectors :: "u32 \<Rightarrow> u8 list"
  reg_drive :: u8
  reg_low :: u8
  reg_mid :: u8
  reg_high :: u8
  xfer :: transfer

definition lba28 :: "drive \<Rightarrow> u32" where
  "lba28 d = ucast (reg_low d) OR push_bit 8 (ucast (reg_mid d)) OR push_bit 16 (ucast (reg_high d)) OR
     push_bit 24 (ucast (reg_drive d AND 0x0F))"

fun drive_inb :: "u16 \<Rightarrow> drive \<Rightarrow> u8 \<times> drive" where
  "drive_inb p d = (if p = 0x1F7 then (case xfer d of Idle \<Rightarrow> 0x50 | ToHost _ \<Rightarrow> 0x58 | FromHost _ _ \<Rightarrow> 0x58) else 0, d)"

fun drive_inw :: "u16 \<Rightarrow> drive \<Rightarrow> u16 \<times> drive" where
  "drive_inw p d =
     (case xfer d of
        ToHost (lo # hi # bs) \<Rightarrow>
          (ucast lo OR push_bit 8 (ucast hi), d\<lparr>xfer := (if bs = [] then Idle else ToHost bs)\<rparr>)
      | _ \<Rightarrow> (0, d))"

fun drive_outb :: "u16 \<Rightarrow> u8 \<Rightarrow> drive \<Rightarrow> drive" where
  "drive_outb p v d =
     (if p = 0x1F6 then d\<lparr>reg_drive := v\<rparr>
      else if p = 0x1F3 then d\<lparr>reg_low := v\<rparr>
      else if p = 0x1F4 then d\<lparr>reg_mid := v\<rparr>
      else if p = 0x1F5 then d\<lparr>reg_high := v\<rparr>
      else if p = 0x1F7 then
        (if v = 0x20 then d\<lparr>xfer := ToHost (sectors d (lba28 d))\<rparr>
         else if v = 0x30 then d\<lparr>xfer := FromHost (lba28 d) []\<rparr>
         else d)
      else d)"

fun drive_outw :: "u16 \<Rightarrow> u16 \<Rightarrow> drive \<Rightarrow> drive" where
  "drive_outw p w d =
     (case xfer d of
        FromHost lba bs \<Rightarrow>
          (let bs' = bs @ [ucast w, ucast (drop_bit 8 w)]
           in if length bs' = 512 then d\<lparr>sectors := (sectors d)(lba := bs'), xfer := Idle\<rparr>
              else d\<lparr>xfer := FromHost lba bs'\<rparr>)
      | _ \<Rightarrow> d)"

definition pio_drive :: "drive port_io" where
  "pio_drive = \<lparr>inb = drive_inb, inw = drive_inw, outb = drive_outb, outw = drive_outw\<rparr>"

definition drive_ok :: "drive \<Rightarrow> bool" where
  "drive_ok d \<longleftrightarrow> xfer d = Idle \<and> (\<forall>lba. length (sectors d lba) = 512)"

definition lba_ok :: "u32 \<Rightarrow> bool" where
  "lba_ok lba \<longleftrightarrow> unat lba < 2 ^ 28"

lemma wait_loop_ready:
  "0 < n \<Longrightarrow> ata_wait_loop pio_drive n ATA_SR_BSY False d = (0, d)"
  "0 < n \<Longrightarrow> xfer d \<noteq> Idle \<Longrightarrow> ata_wait_loop pio_drive n ATA_SR_DRQ True d = (0, d)"
  by (cases n; simp add: pio_drive_def ata_ports ata_codes split: transfer.splits)+

lemma wait_ready:
  "ata_wait pio_drive ATA_SR_BSY False d = (0, d)"
  "xfer d \<noteq> Idle \<Longrightarrow> ata_wait pio_drive ATA_SR_DRQ True d = (0, d)"
  by (simp_all add: ata_wait_def wait_loop_ready)

lemma bit_nibble: "bit ((0xE0 OR (x AND 0x0F)) AND 0x0F :: u8) k \<longleftrightarrow> bit x k \<and> k < 4"
proof -
  have m: "(0x0F :: u8) = mask 4" "(0xE0 :: u8) = push_bit 5 (mask 3)" by (simp_all add: mask_eq_decr_exp)
  show ?thesis unfolding m by (auto simp: bit_simps dest: bit_imp_le_length)
qed

lemma lba_ok_take: "lba_ok lba \<Longrightarrow> take_bit 28 lba = lba"
  by (simp add: lba_ok_def word_unat_eq_iff unsigned_take_bit_eq take_bit_nat_eq_self_iff)

lemma lba28_command:
  fixes lba :: u32
  shows "ucast (ucast lba :: u8) OR push_bit 8 (ucast (ucast (drop_bit 8 lba) :: u8)) OR
    push_bit 16 (ucast (ucast (drop_bit 16 lba) :: u8)) OR
    push_bit 24 (ucast ((0xE0 OR (ucast (drop_bit 24 lba) AND 0x0F)) AND 0x0F :: u8)) = take_bit 28 lba" (is "?v = _")
proof (rule bit_word_eqI)
  fix n assume "n < LENGTH(32)"
  then have n: "n < 32" by simp
  consider "n < 8" | "8 \<le> n" "n < 16" | "16 \<le> n" "n < 24" | "24 \<le> n" "n < 28" | "28 \<le> n" using n by linarith
  then show "bit ?v n = bit (take_bit 28 lba) n"
    by cases (use n in \<open>auto simp: bit_or_iff bit_push_bit_iff bit_unsigned_iff bit_drop_bit_eq bit_nibble bit_take_bit_iff\<close>)
qed

section \<open>The driver on this drive\<close>

lemma word_bytes:
  fixes lo hi :: u8
  shows "ucast (ucast lo OR push_bit 8 (ucast hi) :: u16) = lo"
    "ucast (drop_bit 8 (ucast lo OR push_bit 8 (ucast hi) :: u16)) = hi"
    "ucast (drop_bit 8 (ucast lo :: u16) OR drop_bit 8 (push_bit 8 (ucast hi))) = hi"
proof -
  have "\<not> bit lo (8 + n)" for n using bit_imp_le_length [of lo "8 + n"] by auto
  then show "ucast (ucast lo OR push_bit 8 (ucast hi) :: u16) = lo"
    "ucast (drop_bit 8 (ucast lo OR push_bit 8 (ucast hi) :: u16)) = hi"
    "ucast (drop_bit 8 (ucast lo :: u16) OR drop_bit 8 (push_bit 8 (ucast hi))) = hi"
    by (auto intro!: bit_word_eqI simp: bit_simps)
qed

lemma read_words_drive:
  "length bs = 2 * n \<Longrightarrow> 0 < n \<Longrightarrow> xfer d = ToHost bs \<Longrightarrow>
    read_words pio_drive n d = (bs, d\<lparr>xfer := Idle\<rparr>)"
proof (induction n arbitrary: bs d)
  case (Suc n)
  from Suc.prems(1) obtain lo hi cs where bs: "bs = lo # hi # cs" and cs: "length cs = 2 * n"
    by (cases bs; cases "tl bs") auto
  show ?case
  proof (cases "n = 0")
    case True then show ?thesis using Suc.prems cs by (simp add: pio_drive_def bs word_bytes)
  next
    case False
    then have ne: "cs \<noteq> []" using cs by auto
    have "read_words pio_drive n (d\<lparr>xfer := ToHost cs\<rparr>) = (cs, d\<lparr>xfer := ToHost cs, xfer := Idle\<rparr>)"
      using False by (intro Suc.IH cs) auto
    moreover have "inw pio_drive p d = (ucast lo OR push_bit 8 (ucast hi), d\<lparr>xfer := ToHost cs\<rparr>)" for p
      using Suc.prems(3) ne by (simp add: pio_drive_def bs)
    ultimately show ?thesis by (simp add: bs word_bytes)
  qed
qed simp

lemma write_words_drive:
  "even (length bs) \<Longrightarrow> xfer d = FromHost lba sent \<Longrightarrow> length sent + length bs = 512 \<Longrightarrow> bs \<noteq> [] \<Longrightarrow>
    write_words pio_drive bs d = d\<lparr>sectors := (sectors d)(lba := sent @ bs), xfer := Idle\<rparr>"
proof (induction "pio_drive" bs d arbitrary: sent rule: write_words.induct)
  case (1 lo hi bs d)
  show ?case
  proof (cases "bs = []")
    case True then show ?thesis using 1 by (simp add: pio_drive_def word_bytes)
  next
    case False
    then have ne: "length sent + 2 \<noteq> 512" using 1(4) by (cases bs) auto
    have "outw pio_drive p (ucast lo OR push_bit 8 (ucast hi)) d = d\<lparr>xfer := FromHost lba (sent @ [lo, hi])\<rparr>" for p
      using ne 1(3) by (simp add: pio_drive_def word_bytes)
    then show ?thesis using 1(1) [of "sent @ [lo, hi]"] 1(2-5) False by simp
  qed
qed auto

lemma ata_command_drive:
  obtains d' where "ata_command pio_drive lba cmd d = outb pio_drive 0x1F7 cmd d'"
    "lba28 d' = take_bit 28 lba" "sectors d' = sectors d" "xfer d' = xfer d"
proof
  let ?d = "d\<lparr>reg_drive := 0xE0 OR (ucast (drop_bit 24 lba) AND 0x0F), reg_low := ucast lba,
    reg_mid := ucast (drop_bit 8 lba), reg_high := ucast (drop_bit 16 lba)\<rparr>"
  show "ata_command pio_drive lba cmd d = outb pio_drive 0x1F7 cmd ?d"
    by (simp add: ata_command_def pio_drive_def ata_ports Let_def)
  show "lba28 ?d = take_bit 28 lba" unfolding lba28_def using lba28_command by simp
qed simp_all

lemma ata_read_drive:
  assumes "drive_ok d"
  shows "fst (ata_read_sector pio_drive lba buf d) = sectors d (take_bit 28 lba) \<and>
    drive_ok (snd (ata_read_sector pio_drive lba buf d)) \<and>
    sectors (snd (ata_read_sector pio_drive lba buf d)) = sectors d"
proof -
  obtain d' where d': "ata_command pio_drive lba ATA_CMD_READ_PIO d = outb pio_drive 0x1F7 ATA_CMD_READ_PIO d'"
    "lba28 d' = take_bit 28 lba" "sectors d' = sectors d" "xfer d' = xfer d" by (rule ata_command_drive)
  have c: "ata_command pio_drive lba ATA_CMD_READ_PIO d = d'\<lparr>xfer := ToHost (sectors d (take_bit 28 lba))\<rparr>"
    using d' by (simp add: pio_drive_def ata_codes)
  have "length (sectors d (take_bit 28 lba)) = 2 * 256" using assms(1) by (simp add: drive_ok_def)
  from read_words_drive [OF this, of "d'\<lparr>xfer := ToHost (sectors d (take_bit 28 lba))\<rparr>"]
  have "ata_read_sector pio_drive lba buf d = (sectors d (take_bit 28 lba), d'\<lparr>xfer := Idle\<rparr>)"
    by (simp add: ata_read_sector_def wait_ready c)
  then show ?thesis using assms(1) d'(3) by (simp add: drive_ok_def)
qed

lemma ata_write_drive:
  assumes "drive_ok d" "length buf = 512"
  shows "drive_ok (ata_write_sector pio_drive lba buf d) \<and>
    sectors (ata_write_sector pio_drive lba buf d) = (sectors d)(take_bit 28 lba := buf)"
proof -
  obtain d' where d': "ata_command pio_drive lba ATA_CMD_WRITE_PIO d = outb pio_drive 0x1F7 ATA_CMD_WRITE_PIO d'"
    "lba28 d' = take_bit 28 lba" "sectors d' = sectors d" "xfer d' = xfer d" by (rule ata_command_drive)
  have c: "ata_command pio_drive lba ATA_CMD_WRITE_PIO d = d'\<lparr>xfer := FromHost (take_bit 28 lba) []\<rparr>"
    using d' by (simp add: pio_drive_def ata_codes)
  have f: "outb pio_drive (ATA_PRIMARY_IO + ATA_REG_COMMAND) ATA_CMD_CACHE_FLUSH x = x" for x
    by (simp add: pio_drive_def ata_ports ata_codes)
  have "buf \<noteq> []" "even (length buf)" using assms(2) by auto
  from write_words_drive [OF this(2) _ _ this(1), of "d'\<lparr>xfer := FromHost (take_bit 28 lba) []\<rparr>" "take_bit 28 lba" "[]"]
  have "ata_write_sector pio_drive lba buf d = d'\<lparr>sectors := (sectors d)(take_bit 28 lba := buf), xfer := Idle\<rparr>"
    using assms(2) by (simp add: ata_write_sector_def wait_ready c f d'(3))
  then show ?thesis using assms by (simp add: drive_ok_def)
qed

interpretation ata: block_device "ata_read_sector pio_drive" "ata_write_sector pio_drive" sectors drive_ok lba_ok
  by unfold_locales (use ata_read_drive ata_write_drive in \<open>auto simp: lba_ok_take drive_ok_def\<close>)

section \<open>What the file system may rely on\<close>

text \<open>On a drive that follows the PIO protocol a read returns the last sector written at that address and every other
  sector is untouched, in any order of calls and with any previous buffer contents; only the low 28 bits of an
  address reach the drive, so addresses that agree modulo \<open>2^28\<close> name the same sector.\<close>

theorem ata_rw_correct:
  assumes "drive_ok d" "length buf = 512"
  shows "fst (ata_read_sector pio_drive a old (ata_write_sector pio_drive b buf d)) =
      (if take_bit 28 a = take_bit 28 b then buf else fst (ata_read_sector pio_drive a old d)) \<and>
    drive_ok (snd (ata_read_sector pio_drive a old (ata_write_sector pio_drive b buf d)))"
  using assms ata_read_drive ata_write_drive [OF assms, of b] by auto

definition blank_drive :: drive where
  "blank_drive = \<lparr>sectors = (\<lambda>_. replicate 512 0), reg_drive = 0, reg_low = 0, reg_mid = 0, reg_high = 0, xfer = Idle\<rparr>"

theorem ata_rw_correct_witness:
  "fst (ata_read_sector pio_drive 0x10000007 [] (ata_write_sector pio_drive 7 (replicate 512 0xAB) blank_drive)) =
    replicate 512 0xAB"
proof -
  have t: "take_bit 28 (0x10000007 :: u32) = take_bit 28 7" by simp
  have "drive_ok blank_drive" by (simp add: drive_ok_def blank_drive_def)
  from ata_rw_correct [OF this, of "replicate 512 0xAB" "0x10000007" "[]" 7] t show ?thesis by simp
qed

lemma ata_wait_loop_result: "fst (ata_wait_loop io n b want d) \<in> {0, -1, -2}"
  by (induction n arbitrary: d; cases want) (simp_all add: split_beta Let_def)

lemma read_words_length: "length (fst (read_words io n d)) = 2 * n"
  by (induction n arbitrary: d) (auto simp: split_beta Let_def)

text \<open>Whatever the device answers, every wait ends with 0, -1 (error bit) or -2 (a million polls), so reads and
  writes return; a read replaces all 512 bytes of the buffer or leaves it exactly as it was, and
  its caller cannot tell which.\<close>

theorem ata_read_total:
  "fst (ata_wait io b want d) \<in> {0, -1, -2} \<and>
   (fst (ata_read_sector io lba buf d) = buf \<or> length (fst (ata_read_sector io lba buf d)) = 512)"
  unfolding ata_read_sector_def ata_wait_def
  by (auto simp: ata_wait_loop_result [simplified] read_words_length Let_def split_beta simp del: ata_wait_loop.simps read_words.simps)

end
