(* ===== verification/Vfs.thy ===== *)
theory Vfs
  imports Ata
begin

text \<open>
  The file system: the one-sector cache and the tar walk of src/kernel/tar.c, and the file
  descriptors of src/kernel/vfs.c on top. The two sector operations of ata.c are the arguments
  \<open>rd\<close> and \<open>wr\<close> of the definitions; what is proved of the files rests on their contract, the
  locale \<open>block_device\<close>, which \<open>Ata\<close> interprets on the driver. A result \<open>None\<close> of a
  partial definition means that the C code does not return or reads past an object.
\<close>

type_synonym 'd reader = "u32 \<Rightarrow> u8 list \<Rightarrow> 'd \<Rightarrow> u8 list \<times> 'd"
type_synonym 'd writer = "u32 \<Rightarrow> u8 list \<Rightarrow> 'd \<Rightarrow> 'd"

section \<open>The sector cache\<close>

record 'd tar_state =
  disk :: 'd
  tar_start_lba :: u32
  cache_lba :: u32
  cache_data :: "u8 list"
  cache_valid :: bool

definition cached_read_sector :: "'d reader \<Rightarrow> u32 \<Rightarrow> 'd tar_state \<Rightarrow> u8 list \<times> 'd tar_state" where
  "cached_read_sector rd lba s =
     (if cache_valid s \<and> cache_lba s = lba then (cache_data s, s)
      else let (data, d) = rd lba (cache_data s) (disk s)
           in (data, s\<lparr>disk := d, cache_lba := lba, cache_data := data, cache_valid := True\<rparr>))"

definition cached_write_sector :: "'d writer \<Rightarrow> u32 \<Rightarrow> u8 list \<Rightarrow> 'd tar_state \<Rightarrow> 'd tar_state" where
  "cached_write_sector wr lba buffer s =
     s\<lparr>disk := wr lba buffer (disk s), cache_lba := lba, cache_data := buffer, cache_valid := True\<rparr>"

section \<open>The tar walk\<close>

text \<open>Eleven octal digits at most; the shift drops the bits above 32.\<close>

fun octal_loop :: "nat \<Rightarrow> u8 list \<Rightarrow> u32 \<Rightarrow> u32" where
  "octal_loop (Suc i) (c # cs) res =
     (if c < 0x30 \<or> c > 0x37 then res else octal_loop i cs (push_bit 3 res OR (ucast c - 0x30)))"
| "octal_loop _ _ res = res"

definition octal_to_int :: "u8 list \<Rightarrow> u32" where
  "octal_to_int oct = octal_loop 11 oct 0"

text \<open>The size field lies 124 bytes into the header.\<close>

definition header_size :: "u8 list \<Rightarrow> u32" where
  "header_size buffer = octal_to_int (drop 124 buffer)"

definition sectors_of :: "u32 \<Rightarrow> u32" where
  "sectors_of n = 1 + (n + 511) div 512"

text \<open>\<open>strcmp\<close> and \<open>strcpy\<close> of \<open>CString\<close> on two byte objects.\<close>

fun strcmp_bytes :: "u8 list \<Rightarrow> u8 list \<Rightarrow> int option" where
  "strcmp_bytes (a # as) (b # bs) =
     (if a \<noteq> 0 \<and> a = b then strcmp_bytes as bs else Some (uint a - uint b))"
| "strcmp_bytes _ _ = None"

fun strcpy_bytes :: "u8 list \<Rightarrow> u8 list option" where
  "strcpy_bytes [] = None"
| "strcpy_bytes (b # bs) = (if b = 0 then Some [0] else map_option ((#) b) (strcpy_bytes bs))"

definition tar_init_disk :: "u32 \<Rightarrow> 'd tar_state \<Rightarrow> 'd tar_state" where
  "tar_init_disk start_lba s = s\<lparr>tar_start_lba := start_lba\<rparr>"

partial_function (option) find_loop ::
  "'d reader \<Rightarrow> u8 list \<Rightarrow> u32 \<Rightarrow> 'd tar_state \<Rightarrow> ((u32 \<times> u32) option \<times> 'd tar_state) option" where
  "find_loop rd name current_lba s =
     (let r = cached_read_sector rd current_lba s; buffer = fst r; s1 = snd r
      in if buffer ! 0 = 0 then Some (None, s1)
         else case strcmp_bytes buffer (name @ [0]) of
                None \<Rightarrow> None
              | Some c \<Rightarrow>
                  if c = 0 then Some (Some (current_lba + 1, header_size buffer), s1)
                  else let current_lba' = current_lba + sectors_of (header_size buffer)
                       in if current_lba' > tar_start_lba s1 + 20000 then Some (None, s1)
                          else find_loop rd name current_lba' s1)"

definition tar_find_file ::
  "'d reader \<Rightarrow> u8 list \<Rightarrow> 'd tar_state \<Rightarrow> ((u32 \<times> u32) option \<times> 'd tar_state) option" where
  "tar_find_file rd name s = find_loop rd name (tar_start_lba s) s"

partial_function (option) index_loop ::
  "'d reader \<Rightarrow> int \<Rightarrow> int \<Rightarrow> u32 \<Rightarrow> 'd tar_state \<Rightarrow> (u8 list option \<times> 'd tar_state) option" where
  "index_loop rd index current_idx current_lba s =
     (let r = cached_read_sector rd current_lba s; buffer = fst r; s1 = snd r
      in if buffer ! 0 = 0 then Some (None, s1)
         else if current_idx = index then map_option (\<lambda>n. (Some n, s1)) (strcpy_bytes buffer)
         else let current_lba' = current_lba + sectors_of (header_size buffer)
              in if current_lba' > tar_start_lba s1 + 20000 then Some (None, s1)
                 else index_loop rd index (current_idx + 1) current_lba' s1)"

definition tar_get_file_by_index ::
  "'d reader \<Rightarrow> int \<Rightarrow> 'd tar_state \<Rightarrow> (u8 list option \<times> 'd tar_state) option" where
  "tar_get_file_by_index rd index s = index_loop rd index 0 (tar_start_lba s) s"

section \<open>File descriptors\<close>

definition MAX_FDS :: nat where "MAX_FDS = 16"

record fd_t =
  start_lba :: u32
  fsize :: u32
  offset :: u32
  in_use :: bool

record 'd vfs_state =
  tar :: "'d tar_state"
  fd_table :: "fd_t carray"

definition fd_open :: "int \<Rightarrow> 'd vfs_state \<Rightarrow> bool" where
  "fd_open fd s \<longleftrightarrow> 0 \<le> fd \<and> fd < int MAX_FDS \<and> in_use (fd_table s (nat fd))"

definition vfs_init :: "'d vfs_state \<Rightarrow> 'd vfs_state" where
  "vfs_init s = s\<lparr>fd_table := (\<lambda>i. if i < MAX_FDS then (fd_table s i)\<lparr>in_use := False\<rparr> else fd_table s i)\<rparr>"

definition vfs_open :: "'d reader \<Rightarrow> u8 list \<Rightarrow> 'd vfs_state \<Rightarrow> (int \<times> 'd vfs_state) option" where
  "vfs_open rd path s =
     (case tar_find_file rd path (tar s) of
        None \<Rightarrow> None
      | Some (None, t) \<Rightarrow> Some (-1, s\<lparr>tar := t\<rparr>)
      | Some (Some (lba, n), t) \<Rightarrow>
          (case find (\<lambda>i. \<not> in_use (fd_table s i)) [0..<MAX_FDS] of
             None \<Rightarrow> Some (-1, s\<lparr>tar := t\<rparr>)
           | Some i \<Rightarrow> Some (int i, s\<lparr>tar := t, fd_table := (fd_table s)(i :=
               \<lparr>start_lba = lba, fsize = n, offset = 0, in_use = True\<rparr>)\<rparr>)))"

text \<open>\<open>memcpy (buffer + k, bs, length bs)\<close>\<close>

definition patch :: "u8 list \<Rightarrow> nat \<Rightarrow> u8 list \<Rightarrow> u8 list" where
  "patch buf k bs = take k buf @ bs @ drop (k + length bs) buf"

definition chunk :: "u32 \<Rightarrow> u32 \<Rightarrow> u32" where
  "chunk off left = (if 512 - off mod 512 > left then left else 512 - off mod 512)"

lemma chunk_progress: "done < count \<Longrightarrow> 0 < unat (chunk off (count - done)) \<and>
    unat (chunk off (count - done)) \<le> unat count - unat done \<and>
    unat (done + chunk off (count - done)) = unat done + unat (chunk off (count - done))"
proof -
  assume lt: "done < count"
  have m: "unat (off mod 512) < 512" by (simp add: unat_mod)
  then have "unat (512 - off mod 512) = 512 - unat (off mod 512)"
    by (subst unat_minus_no_wrap) (auto simp: word_le_iff_unat)
  moreover have "unat (count - done) = unat count - unat done"
    using lt by (simp add: unat_minus_no_wrap word_le_iff_unat word_less_iff_unat)
  ultimately have c: "0 < unat (chunk off (count - done)) \<and> unat (chunk off (count - done)) \<le> unat count - unat done"
    using lt m by (auto simp: chunk_def word_less_iff_unat)
  moreover have "unat done + unat (chunk off (count - done)) < 2 ^ LENGTH(32)"
    using c unsigned_less [of count, where 'a = nat] by linarith
  ultimately show ?thesis using unat_plus_no_wrap by blast
qed

lemma chunk_step: "done < count \<Longrightarrow> unat count - unat (done + chunk off (count - done)) < unat count - unat done"
  using chunk_progress [of "done" count off] unfolding word_less_iff_unat by linarith

text \<open>The sector buffer of the C code starts with arbitrary contents, an argument here.\<close>

function read_loop ::
  "'d reader \<Rightarrow> u32 \<Rightarrow> u32 \<Rightarrow> u32 \<Rightarrow> u32 \<Rightarrow> u8 list \<Rightarrow> u8 list \<Rightarrow> 'd \<Rightarrow> u8 list \<times> 'd" where
  "read_loop rd start count off bytes_read sector_buf buffer d =
     (if \<not> bytes_read < count then (buffer, d)
      else let lba = start + off div 512;
               sector_offset = off mod 512;
               to_copy = chunk off (count - bytes_read)
           in if sector_offset = 0 \<and> to_copy = 512
              then let (bs, d') = rd lba (take 512 (drop (unat bytes_read) buffer)) d
                   in read_loop rd start count (off + to_copy) (bytes_read + to_copy) sector_buf
                        (patch buffer (unat bytes_read) bs) d'
              else let (bs, d') = rd lba sector_buf d
                   in read_loop rd start count (off + to_copy) (bytes_read + to_copy) bs
                        (patch buffer (unat bytes_read) (take (unat to_copy) (drop (unat sector_offset) bs))) d')"
  by pat_completeness auto
termination
  by (relation "measure (\<lambda>(rd, start, count, off, bytes_read, sector_buf, buffer, d). unat count - unat bytes_read)")
    (simp_all add: chunk_step del: not_less, metis chunk_step)

definition vfs_read ::
  "'d reader \<Rightarrow> int \<Rightarrow> u8 list \<Rightarrow> u8 list \<Rightarrow> u32 \<Rightarrow> 'd vfs_state \<Rightarrow> int \<times> u8 list \<times> 'd vfs_state" where
  "vfs_read rd fd sector_buf buffer count s =
     (if \<not> fd_open fd s then (-1, buffer, s)
      else let f = fd_table s (nat fd)
           in if offset f \<ge> fsize f then (0, buffer, s)
              else let count = (if count > fsize f - offset f then fsize f - offset f else count);
                       s1 = s\<lparr>fd_table := (fd_table s)(nat fd := f\<lparr>offset := offset f + count\<rparr>)\<rparr>;
                       (buffer', d) = read_loop rd (start_lba f) count (offset f) 0 sector_buf buffer (disk (tar s1))
                   in (sint count, buffer', s1\<lparr>tar := (tar s1)\<lparr>disk := d\<rparr>\<rparr>))"

function write_loop ::
  "'d reader \<Rightarrow> 'd writer \<Rightarrow> u32 \<Rightarrow> u32 \<Rightarrow> u32 \<Rightarrow> u32 \<Rightarrow> u8 list \<Rightarrow> u8 list \<Rightarrow> 'd tar_state \<Rightarrow> 'd tar_state" where
  "write_loop rd wr start count off bytes_written sector_buf buffer t =
     (if \<not> bytes_written < count then t
      else let lba = start + off div 512;
               to_write = chunk off (count - bytes_written);
               (bs, d) = rd lba sector_buf (disk t);
               bs' = patch bs (unat (off mod 512)) (take (unat to_write) (drop (unat bytes_written) buffer))
           in write_loop rd wr start count (off + to_write) (bytes_written + to_write) bs' buffer
                (cached_write_sector wr lba bs' (t\<lparr>disk := d\<rparr>)))"
  by pat_completeness auto
termination
  by (relation "measure (\<lambda>(rd, wr, start, count, off, bytes_written, sector_buf, buffer, t).
      unat count - unat bytes_written)")
    (simp_all add: chunk_step del: not_less)

text \<open>The test \<open>offset + count > size\<close> is in 32-bit arithmetic.\<close>

definition vfs_write ::
  "'d reader \<Rightarrow> 'd writer \<Rightarrow> int \<Rightarrow> u8 list \<Rightarrow> u8 list \<Rightarrow> u32 \<Rightarrow> 'd vfs_state \<Rightarrow> int \<times> 'd vfs_state" where
  "vfs_write rd wr fd sector_buf buffer count s =
     (if \<not> fd_open fd s then (-1, s)
      else let f = fd_table s (nat fd);
               count = (if offset f + count > fsize f then fsize f - offset f else count);
               s1 = s\<lparr>fd_table := (fd_table s)(nat fd := f\<lparr>offset := offset f + count\<rparr>)\<rparr>
           in (sint count, s1\<lparr>tar := write_loop rd wr (start_lba f) count (offset f) 0 sector_buf buffer (tar s1)\<rparr>))"

definition vfs_size :: "int \<Rightarrow> 'd vfs_state \<Rightarrow> u32" where
  "vfs_size fd s = (if fd_open fd s then fsize (fd_table s (nat fd)) else 0)"

definition vfs_close :: "int \<Rightarrow> 'd vfs_state \<Rightarrow> 'd vfs_state" where
  "vfs_close fd s =
     (if 0 \<le> fd \<and> fd < int MAX_FDS
      then s\<lparr>fd_table := (fd_table s)(nat fd := (fd_table s (nat fd))\<lparr>in_use := False\<rparr>)\<rparr> else s)"

definition vfs_readdir ::
  "'d reader \<Rightarrow> int \<Rightarrow> 'd vfs_state \<Rightarrow> (u8 list option \<times> 'd vfs_state) option" where
  "vfs_readdir rd index s =
     map_option (\<lambda>(r, t). (r, s\<lparr>tar := t\<rparr>)) (tar_get_file_by_index rd index (tar s))"

declare read_loop.simps [simp del] write_loop.simps [simp del]

section \<open>What the files hold\<close>

text \<open>
  Byte \<open>k\<close> of a file that starts at sector \<open>start\<close>, storing one byte, and storing a list of bytes.
\<close>

definition file_byte :: "(u32 \<Rightarrow> u8 list) \<Rightarrow> u32 \<Rightarrow> nat \<Rightarrow> u8" where
  "file_byte c start k = c (start + of_nat (k div 512)) ! (k mod 512)"

definition file_bytes :: "(u32 \<Rightarrow> u8 list) \<Rightarrow> u32 \<Rightarrow> nat \<Rightarrow> nat \<Rightarrow> u8 list" where
  "file_bytes c start k n = map (file_byte c start) [k..<k + n]"

definition store_byte :: "(u32 \<Rightarrow> u8 list) \<Rightarrow> u32 \<Rightarrow> nat \<Rightarrow> u8 \<Rightarrow> u32 \<Rightarrow> u8 list" where
  "store_byte c start k b = (let lba = start + of_nat (k div 512) in c(lba := (c lba)[k mod 512 := b]))"

fun store_bytes :: "(u32 \<Rightarrow> u8 list) \<Rightarrow> u32 \<Rightarrow> nat \<Rightarrow> u8 list \<Rightarrow> u32 \<Rightarrow> u8 list" where
  "store_bytes c start k [] = c"
| "store_bytes c start k (b # bs) = store_bytes (store_byte c start k b) start (Suc k) bs"

text \<open>The headers of the archive, from sector \<open>cur\<close> up to the safety limit \<open>last\<close>.\<close>

fun tar_chain :: "(u32 \<Rightarrow> u8 list) \<Rightarrow> u32 \<Rightarrow> nat \<Rightarrow> u32 \<Rightarrow> u32 list" where
  "tar_chain c limit 0 cur = []"
| "tar_chain c limit (Suc n) cur =
     (if c cur ! 0 = 0 then []
      else cur # (let nx = cur + sectors_of (header_size (c cur))
                  in if nx > limit then [] else tar_chain c limit n nx))"

definition entry_name :: "u8 list \<Rightarrow> u8 list" where
  "entry_name buffer = takeWhile (\<lambda>b. b \<noteq> 0) buffer"

text \<open>The cache holds a copy of what the disk holds.\<close>

definition cache_ok :: "('d \<Rightarrow> bool) \<Rightarrow> ('d \<Rightarrow> u32 \<Rightarrow> u8 list) \<Rightarrow> 'd tar_state \<Rightarrow> bool" where
  "cache_ok dev_ok contents t \<longleftrightarrow> dev_ok (disk t) \<and>
     (cache_valid t \<longrightarrow> cache_data t = contents (disk t) (cache_lba t))"

lemma div_mod_within:
  assumes "k mod 512 + i < (512 :: nat)"
  shows "(k + i) div 512 = k div 512" "(k + i) mod 512 = k mod 512 + i"
proof -
  have i: "i < 512" using assms by simp
  with assms show "(k + i) div 512 = k div 512" by (subst div_add1_eq) simp
  have "(k + i) mod 512 = (k mod 512 + i) mod 512" by (rule mod_add_left_eq [symmetric])
  then show "(k + i) mod 512 = k mod 512 + i" using assms by simp
qed

lemma nth_take_drop: "i < n \<Longrightarrow> r \<le> length xs \<Longrightarrow> take n (drop r xs) ! i = xs ! (r + i)"
  by simp

lemma file_chunk:
  assumes "length (c (start + of_nat (k div 512))) = 512" "k mod 512 + n \<le> 512"
  shows "file_bytes c start k n = take n (drop (k mod 512) (c (start + of_nat (k div 512))))"
proof (rule nth_equalityI)
  fix i assume "i < length (file_bytes c start k n)"
  then have i: "i < n" by (simp add: file_bytes_def)
  have lt: "k mod 512 + i < 512" using i assms(2) by linarith
  have "file_bytes c start k n ! i = file_byte c start (k + i)" using i by (simp add: file_bytes_def)
  also have "\<dots> = c (start + of_nat (k div 512)) ! (k mod 512 + i)"
    by (simp only: file_byte_def div_mod_within [OF lt])
  finally show "file_bytes c start k n ! i = take n (drop (k mod 512) (c (start + of_nat (k div 512)))) ! i"
    using nth_take_drop [OF i, of "k mod 512" "c (start + of_nat (k div 512))"] assms(1) by simp
qed (use assms in \<open>simp add: file_bytes_def\<close>)

lemma file_bytes_append: "file_bytes c start k (m + n) = file_bytes c start k m @ file_bytes c start (k + m) n"
  using upt_add_eq_append [of k "k + m" n] by (simp add: file_bytes_def add.assoc)

lemma length_file_bytes [simp]: "length (file_bytes c start k n) = n"
  by (simp add: file_bytes_def)

lemma store_bytes_append: "store_bytes c start k (as @ bs) = store_bytes (store_bytes c start k as) start (k + length as) bs"
  by (induction as arbitrary: c k) auto

lemma store_chunk:
  assumes "length (c (start + of_nat (k div 512))) = 512" "k mod 512 + length bs \<le> 512"
  shows "store_bytes c start k bs =
    c(start + of_nat (k div 512) := patch (c (start + of_nat (k div 512))) (k mod 512) bs)"
  using assms
proof (induction bs arbitrary: c k)
  case Nil then show ?case by (simp add: patch_def)
next
  case (Cons b bs)
  let ?lba = "start + of_nat (k div 512)"
  show ?case
  proof (cases bs)
    case Nil
    then show ?thesis using Cons.prems by (simp add: store_byte_def Let_def patch_def upd_conv_take_nth_drop)
  next
    case (Cons b' bs')
    then have lt: "k mod 512 + 1 < 512" using Cons.prems by simp
    then have s: "Suc k div 512 = k div 512" "Suc k mod 512 = Suc (k mod 512)"
      by (simp_all add: div_Suc mod_Suc)
    define c' where "c' = store_byte c start k b"
    have "length (c' ?lba) = 512" using Cons.prems by (simp add: c'_def store_byte_def Let_def)
    then have "store_bytes c' start (Suc k) bs = c'(?lba := patch (c' ?lba) (Suc (k mod 512)) bs)"
      using Cons.prems(2) by (intro Cons.IH [of c' "Suc k", unfolded s]) simp_all
    then have "store_bytes c start k (b # bs) =
        (store_byte c start k b)(?lba := patch (store_byte c start k b ?lba) (Suc (k mod 512)) bs)"
      by (simp only: store_bytes.simps c'_def)
    also have "patch (store_byte c start k b ?lba) (Suc (k mod 512)) bs = patch (c ?lba) (k mod 512) (b # bs)"
      using Cons.prems lt by (simp add: store_byte_def Let_def patch_def upd_conv_take_nth_drop take_Suc_conv_app_nth add.commute)
    finally show ?thesis by (simp only: store_byte_def Let_def fun_upd_upd)
  qed
qed

lemma patch_patch:
  "k + length as + length bs \<le> length buf \<Longrightarrow> patch (patch buf k as) (k + length as) bs = patch buf k (as @ bs)"
  by (simp add: patch_def add.assoc add.commute add.left_commute)

lemma length_patch [simp]: "k + length bs \<le> length buf \<Longrightarrow> length (patch buf k bs) = length buf"
  by (simp add: patch_def)

lemma patch_Nil [simp]: "patch buf k [] = buf"
  by (simp add: patch_def)

lemma unat_chunk: "unat (chunk off left) = min (512 - unat off mod 512) (unat left)"
proof -
  have "unat (512 - off mod 512) = 512 - unat off mod 512"
    by (subst unat_minus_no_wrap) (auto simp: word_le_iff_unat unat_mod intro: less_imp_le)
  then show ?thesis by (simp add: chunk_def word_less_iff_unat min_def)
qed

lemma div_512_of_nat: "(off :: u32) div 512 = of_nat (unat off div 512)"
proof -
  have "unat off div 512 < 2 ^ LENGTH(32)" using unsigned_less [of off, where 'a = nat] by (simp add: div_le_dividend le_less_trans)
  then show ?thesis by (simp add: word_unat_eq_iff unat_of_nat_small del: of_nat_unat)
qed

text \<open>One turn of either loop, in natural numbers.\<close>

lemma chunk_turn:
  fixes off "done" count :: u32
  assumes "done < count" "unat off + (unat count - unat done) < 2 ^ 32"
  defines "n \<equiv> unat (chunk off (count - done))"
  shows "0 < n" "n \<le> unat count - unat done" "unat (done + chunk off (count - done)) = unat done + n"
    "unat (off + chunk off (count - done)) = unat off + n" "unat off mod 512 + n \<le> 512"
proof -
  show p: "0 < n" "n \<le> unat count - unat done" "unat (done + chunk off (count - done)) = unat done + n"
    using chunk_progress [OF assms(1), of off] by (simp_all add: n_def)
  show "unat (off + chunk off (count - done)) = unat off + n"
    using p assms(2) unfolding n_def by (subst unat_plus_no_wrap) simp_all
  have "n \<le> 512 - unat off mod 512" by (simp add: n_def unat_chunk)
  then show "unat off mod 512 + n \<le> 512" using mod_less_divisor [of 512 "unat off"] by linarith
qed

definition sectors_valid :: "(u32 \<Rightarrow> bool) \<Rightarrow> u32 \<Rightarrow> nat \<Rightarrow> nat \<Rightarrow> bool" where
  "sectors_valid ok start k n \<longleftrightarrow> (\<forall>i<n. ok (start + of_nat ((k + i) div 512)))"

lemma sectors_valid_first: "sectors_valid ok start k n \<Longrightarrow> 0 < n \<Longrightarrow> ok (start + of_nat (k div 512))"
  unfolding sectors_valid_def by (metis add.right_neutral)

lemma sectors_valid_rest: "sectors_valid ok start k n \<Longrightarrow> m \<le> n \<Longrightarrow> sectors_valid ok start (k + m) (n - m)"
  unfolding sectors_valid_def by (metis add.assoc add.commute less_diff_conv)

lemma sector_eq_iff:
  assumes "j < 2 ^ 32" "k < 2 ^ 32"
  shows "start + of_nat (j div 512) = start + (of_nat (k div 512) :: u32) \<longleftrightarrow> j div 512 = k div 512"
proof -
  have "j div 512 < 2 ^ LENGTH(32)" "k div 512 < 2 ^ LENGTH(32)" using assms by simp_all
  then show ?thesis by (metis add_left_cancel unat_of_nat_small)
qed

lemma file_byte_store_byte:
  assumes "length (c (start + of_nat (j div 512))) = 512" "j < 2 ^ 32" "k < 2 ^ 32"
  shows "file_byte (store_byte c start j b) start k = (if k = j then b else file_byte c start k)"
proof (cases "k div 512 = j div 512")
  case True
  then have "k mod 512 = j mod 512 \<longleftrightarrow> k = j" by (metis mult_div_mod_eq)
  then show ?thesis using assms True by (auto simp: file_byte_def store_byte_def Let_def nth_list_update)
next
  case False
  then show ?thesis using sector_eq_iff [OF assms(3,2), of start]
    by (auto simp: file_byte_def store_byte_def Let_def)
qed

lemma length_store_byte: "length (store_byte c start k b x) = length (c x)"
  by (simp add: store_byte_def Let_def)

lemma file_byte_store:
  "(\<And>x. length (c x) = 512) \<Longrightarrow> j + length bs \<le> 2 ^ 32 \<Longrightarrow> k < 2 ^ 32 \<Longrightarrow>
   file_byte (store_bytes c start j bs) start k =
     (if j \<le> k \<and> k < j + length bs then bs ! (k - j) else file_byte c start k)"
proof (induction bs arbitrary: c j)
  case (Cons b bs)
  have "file_byte (store_bytes (store_byte c start j b) start (Suc j) bs) start k =
     (if Suc j \<le> k \<and> k < Suc j + length bs then bs ! (k - Suc j) else file_byte (store_byte c start j b) start k)"
    using Cons.prems by (intro Cons.IH) (simp_all add: length_store_byte)
  moreover have "file_byte (store_byte c start j b) start k = (if k = j then b else file_byte c start k)"
    using Cons.prems by (intro file_byte_store_byte) simp_all
  ultimately show ?case by (auto simp: nth_Cons')
qed auto

lemma file_bytes_stored:
  assumes "\<And>x. length (c x) = 512" "j + length bs \<le> 2 ^ 32"
  shows "file_bytes (store_bytes c start j bs) start j (length bs) = bs"
  by (rule nth_equalityI) (use assms in \<open>auto simp: file_bytes_def file_byte_store\<close>)

lemma store_bytes_other:
  "(\<And>i. i < length bs \<Longrightarrow> x \<noteq> start + of_nat ((j + i) div 512)) \<Longrightarrow> store_bytes c start j bs x = c x"
proof (induction bs arbitrary: c j)
  case (Cons b bs)
  have "x \<noteq> start + of_nat ((Suc j + i) div 512)" if "i < length bs" for i
    using Cons.prems [of "Suc i"] that by simp
  moreover have "store_byte c start j b x = c x"
    using Cons.prems [of 0] by (simp add: store_byte_def Let_def)
  ultimately show ?case using Cons.IH [of "Suc j" "store_byte c start j b"] by simp
qed simp

lemma sectors_of_bounds: "1 \<le> unat (sectors_of n)" "unat (sectors_of n) \<le> 2 ^ 23"
proof -
  have "unat ((n + 511) div 512) \<le> (2 ^ 32 - 1) div 512"
    using unsigned_less [of "n + 511", where 'a = nat] by (simp add: div_le_mono)
  then show "1 \<le> unat (sectors_of n)" "unat (sectors_of n) \<le> 2 ^ 23"
    unfolding sectors_of_def by (simp_all add: unat_plus_no_wrap)
qed

lemma next_header:
  assumes "cur \<le> limit" "unat limit + 2 ^ 23 < 2 ^ 32"
  shows "unat cur < unat (cur + sectors_of n)"
proof -
  have "unat (cur + sectors_of n) = unat cur + unat (sectors_of n)"
    using assms sectors_of_bounds [of n] by (intro unat_plus_no_wrap) (simp add: word_le_iff_unat)
  then show ?thesis using sectors_of_bounds [of n] by simp
qed

lemma strcmp_bytes_name:
  "0 \<notin> set name \<Longrightarrow> length name < length buf \<Longrightarrow>
   \<exists>c. strcmp_bytes buf (name @ [0]) = Some c \<and> (c = 0 \<longleftrightarrow> entry_name buf = name)"
proof (induction name arbitrary: buf)
  case Nil then show ?case by (cases buf) (auto simp: entry_name_def word_uint_eq_iff)
next
  case (Cons a name)
  then obtain b bs where buf: "buf = b # bs" "length name < length bs" by (cases buf) auto
  with Cons.IH [of bs] Cons.prems show ?case by (auto simp: entry_name_def word_uint_eq_iff)
qed

lemma strcpy_bytes_name: "0 \<in> set buf \<Longrightarrow> strcpy_bytes buf = Some (entry_name buf @ [0])"
  by (induction buf) (auto simp: entry_name_def)

section \<open>Reading and writing on a block device\<close>

text \<open>One turn of the read loop, whichever of its two branches copies.\<close>

context block_device
begin

lemma rd_sector:
  assumes "inv d" "valid lba"
  obtains d' where "rd lba buf d = (sec d lba, d')" "inv d'" "sec d' = sec d"
  using rd_data [OF assms, of buf] rd_state [OF assms, of buf] by (metis prod.collapse)

lemma read_turn:
  assumes d: "inv d" "valid (start + of_nat (unat off div 512))" and lt: "bytes_read < count"
    and c: "c = chunk off (count - bytes_read)" and n: "unat off mod 512 + unat c \<le> 512"
  obtains sb' d' where "inv d'" "sec d' = sec d"
    "read_loop rd start count off bytes_read sb buffer d =
      read_loop rd start count (off + c) (bytes_read + c) sb'
        (patch buffer (unat bytes_read) (file_bytes (sec d) start (unat off) (unat c))) d'"
proof -
  let ?lba = "start + of_nat (unat off div 512)"
  have fb: "file_bytes (sec d) start (unat off) (unat c) = take (unat c) (drop (unat off mod 512) (sec d ?lba))"
    using sec_length [OF d(1)] n by (intro file_chunk) auto
  have lba: "start + off div 512 = ?lba" by (simp only: div_512_of_nat)
  have m: "unat (off mod 512) = unat off mod 512" by (simp add: unat_mod)
  show thesis
  proof (cases "off mod 512 = 0 \<and> c = 512")
    case True
    obtain d1 where r: "rd ?lba (take 512 (drop (unat bytes_read) buffer)) d = (sec d ?lba, d1)" "inv d1" "sec d1 = sec d"
      using rd_sector d by metis
    have "unat off mod 512 = 0" using True m by simp
    then have "file_bytes (sec d) start (unat off) (unat c) = sec d ?lba"
      using True fb sec_length [OF d(1)] by simp
    with r True lt have "read_loop rd start count off bytes_read sb buffer d =
      read_loop rd start count (off + c) (bytes_read + c) sb
        (patch buffer (unat bytes_read) (file_bytes (sec d) start (unat off) (unat c))) d1"
      by (subst read_loop.simps) (simp add: c [symmetric] lba)
    with r(2,3) show thesis by (rule that)
  next
    case False
    obtain d1 where r: "rd ?lba sb d = (sec d ?lba, d1)" "inv d1" "sec d1 = sec d"
      using rd_sector d by metis
    with False lt have "read_loop rd start count off bytes_read sb buffer d =
      read_loop rd start count (off + c) (bytes_read + c) (sec d ?lba)
        (patch buffer (unat bytes_read) (file_bytes (sec d) start (unat off) (unat c))) d1"
      by (subst read_loop.simps) (auto simp: c [symmetric] lba fb m Let_def)
    with r(2,3) show thesis by (rule that)
  qed
qed

lemma read_loop_bytes:
  "inv d \<Longrightarrow> bytes_read \<le> count \<Longrightarrow> unat off + (unat count - unat bytes_read) < 2 ^ 32 \<Longrightarrow>
   unat count \<le> length buffer \<Longrightarrow> sectors_valid valid start (unat off) (unat count - unat bytes_read) \<Longrightarrow>
   \<exists>d'. read_loop rd start count off bytes_read sb buffer d =
       (patch buffer (unat bytes_read) (file_bytes (sec d) start (unat off) (unat count - unat bytes_read)), d') \<and>
     inv d' \<and> sec d' = sec d"
proof (induction "unat count - unat bytes_read" arbitrary: off bytes_read sb buffer d rule: less_induct)
  case less
  show ?case
  proof (cases "bytes_read < count")
    case False
    then have "unat count - unat bytes_read = 0" by (simp add: word_less_iff_unat)
    then show ?thesis using False less.prems(1) by (subst read_loop.simps) (simp add: file_bytes_def)
  next
    case True
    define c n where "c = chunk off (count - bytes_read)" and "n = unat c"
    note turn = chunk_turn [OF True less.prems(3), folded c_def, folded n_def]
    have "0 < unat count - unat bytes_read" using turn by linarith
    then obtain sb' d1 where d1: "inv d1" "sec d1 = sec d"
      and step: "read_loop rd start count off bytes_read sb buffer d =
        read_loop rd start count (off + c) (bytes_read + c) sb'
          (patch buffer (unat bytes_read) (file_bytes (sec d) start (unat off) n)) d1"
      using read_turn [OF less.prems(1) sectors_valid_first [OF less.prems(5)] True c_def] turn(5)
      unfolding n_def by metis
    let ?b = "patch buffer (unat bytes_read) (file_bytes (sec d) start (unat off) n)"
    have rest: "unat count - unat (bytes_read + c) = unat count - unat bytes_read - n"
      using turn by simp
    have "\<exists>d'. read_loop rd start count (off + c) (bytes_read + c) sb' ?b d1 =
       (patch ?b (unat (bytes_read + c)) (file_bytes (sec d1) start (unat (off + c)) (unat count - unat (bytes_read + c))), d') \<and>
       inv d' \<and> sec d' = sec d1"
    proof (rule less.hyps)
      show "bytes_read + c \<le> count" "unat count \<le> length ?b"
        using turn less.prems(2,4) by (simp_all add: word_le_iff_unat)
      show "sectors_valid valid start (unat (off + c)) (unat count - unat (bytes_read + c))"
        unfolding rest turn(4) using less.prems(5) turn(2) by (rule sectors_valid_rest)
    qed (use turn less.prems d1 in \<open>simp_all add: rest\<close>)
    moreover have "patch ?b (unat (bytes_read + c)) (file_bytes (sec d) start (unat (off + c)) (unat count - unat (bytes_read + c))) =
      patch buffer (unat bytes_read) (file_bytes (sec d) start (unat off) (unat count - unat bytes_read))"
      using patch_patch [of "unat bytes_read" "file_bytes (sec d) start (unat off) n"
          "file_bytes (sec d) start (unat off + n) (unat count - unat bytes_read - n)" buffer]
        turn less.prems(2,4) file_bytes_append [of "sec d" start "unat off" n "unat count - unat bytes_read - n"]
      by (simp add: rest word_le_iff_unat)
    ultimately show ?thesis using step d1 by simp
  qed
qed

lemma cached_read:
  assumes "cache_ok inv sec t" "valid lba"
  shows "fst (cached_read_sector rd lba t) = sec (disk t) lba \<and> cache_ok inv sec (snd (cached_read_sector rd lba t)) \<and>
    sec (disk (snd (cached_read_sector rd lba t))) = sec (disk t) \<and>
    tar_start_lba (snd (cached_read_sector rd lba t)) = tar_start_lba t"
  using assms rd_data [of "disk t" lba "cache_data t"] rd_state [of "disk t" lba "cache_data t"]
  by (auto simp: cached_read_sector_def cache_ok_def split_beta Let_def)

lemma cached_write:
  assumes "cache_ok inv sec t" "valid lba" "length buf = 512"
  shows "cache_ok inv sec (cached_write_sector wr lba buf t) \<and>
    sec (disk (cached_write_sector wr lba buf t)) = (sec (disk t))(lba := buf) \<and>
    tar_start_lba (cached_write_sector wr lba buf t) = tar_start_lba t"
  using assms wr_state [of "disk t" lba buf] by (auto simp: cached_write_sector_def cache_ok_def)

lemma write_turn:
  assumes t: "cache_ok inv sec t" "valid (start + of_nat (unat off div 512))" and lt: "bytes_written < count"
    and c: "c = chunk off (count - bytes_written)" and n: "unat off mod 512 + unat c \<le> 512"
    and len: "unat bytes_written + unat c \<le> length buffer"
  obtains sb' t' where "cache_ok inv sec t'" "tar_start_lba t' = tar_start_lba t"
    "sec (disk t') = store_bytes (sec (disk t)) start (unat off) (take (unat c) (drop (unat bytes_written) buffer))"
    "write_loop rd wr start count off bytes_written sb buffer t =
      write_loop rd wr start count (off + c) (bytes_written + c) sb' buffer t'"
proof -
  let ?lba = "start + of_nat (unat off div 512)"
  let ?bs = "take (unat c) (drop (unat bytes_written) buffer)"
  have lba: "start + off div 512 = ?lba" by (simp only: div_512_of_nat)
  have m: "unat (off mod 512) = unat off mod 512" by (simp add: unat_mod)
  have dev: "inv (disk t)" using t(1) by (simp add: cache_ok_def)
  obtain d1 where r: "rd ?lba sb (disk t) = (sec (disk t) ?lba, d1)" "inv d1" "sec d1 = sec (disk t)"
    using rd_sector [OF dev t(2)] by metis
  let ?new = "patch (sec (disk t) ?lba) (unat off mod 512) ?bs"
  have lbs: "length ?bs = unat c" using len by simp
  have l: "length (sec (disk t) ?lba) = 512" using sec_length [OF dev] .
  then have "length ?new = 512" using n lbs by simp
  moreover have ok: "cache_ok inv sec (t\<lparr>disk := d1\<rparr>)" using t(1) r(2,3) by (simp add: cache_ok_def)
  ultimately have w: "cache_ok inv sec (cached_write_sector wr ?lba ?new (t\<lparr>disk := d1\<rparr>)) \<and>
    sec (disk (cached_write_sector wr ?lba ?new (t\<lparr>disk := d1\<rparr>))) = (sec (disk t))(?lba := ?new) \<and>
    tar_start_lba (cached_write_sector wr ?lba ?new (t\<lparr>disk := d1\<rparr>)) = tar_start_lba t"
    using cached_write [OF _ t(2), of "t\<lparr>disk := d1\<rparr>" ?new] r(3) by simp
  have "store_bytes (sec (disk t)) start (unat off) ?bs = (sec (disk t))(?lba := ?new)"
    using l n lbs by (intro store_chunk) simp_all
  moreover have "write_loop rd wr start count off bytes_written sb buffer t =
    write_loop rd wr start count (off + c) (bytes_written + c) ?new buffer
      (cached_write_sector wr ?lba ?new (t\<lparr>disk := d1\<rparr>))"
    using lt r(1) by (subst write_loop.simps) (simp add: c [symmetric] lba m Let_def)
  ultimately show thesis using w that by metis
qed

lemma write_loop_bytes:
  "cache_ok inv sec t \<Longrightarrow> bytes_written \<le> count \<Longrightarrow> unat off + (unat count - unat bytes_written) < 2 ^ 32 \<Longrightarrow>
   unat count \<le> length buffer \<Longrightarrow> sectors_valid valid start (unat off) (unat count - unat bytes_written) \<Longrightarrow>
   cache_ok inv sec (write_loop rd wr start count off bytes_written sb buffer t) \<and>
   tar_start_lba (write_loop rd wr start count off bytes_written sb buffer t) = tar_start_lba t \<and>
   sec (disk (write_loop rd wr start count off bytes_written sb buffer t)) =
     store_bytes (sec (disk t)) start (unat off) (take (unat count - unat bytes_written) (drop (unat bytes_written) buffer))"
proof (induction "unat count - unat bytes_written" arbitrary: off bytes_written sb t rule: less_induct)
  case less
  show ?case
  proof (cases "bytes_written < count")
    case False
    then have "unat count - unat bytes_written = 0" by (simp add: word_less_iff_unat)
    moreover have "write_loop rd wr start count off bytes_written sb buffer t = t"
      using False by (subst write_loop.simps) simp
    ultimately show ?thesis using less.prems(1) by simp
  next
    case True
    define c n where "c = chunk off (count - bytes_written)" and "n = unat c"
    note turn = chunk_turn [OF True less.prems(3), folded c_def, folded n_def]
    have left: "0 < unat count - unat bytes_written" "unat bytes_written + n \<le> length buffer"
      using turn less.prems(2,4) by (simp_all add: word_le_iff_unat)
    define as bs where "as = take n (drop (unat bytes_written) buffer)"
      and "bs = take (unat count - unat bytes_written - n) (drop (unat bytes_written + n) buffer)"
    obtain sb' t1 where t1: "cache_ok inv sec t1" "tar_start_lba t1 = tar_start_lba t"
      "sec (disk t1) = store_bytes (sec (disk t)) start (unat off) as"
      and step: "write_loop rd wr start count off bytes_written sb buffer t =
        write_loop rd wr start count (off + c) (bytes_written + c) sb' buffer t1"
      using write_turn [OF less.prems(1) sectors_valid_first [OF less.prems(5) left(1)] True c_def] turn(5) left(2)
      unfolding n_def as_def by metis
    have rest: "unat count - unat (bytes_written + c) = unat count - unat bytes_written - n" using turn by simp
    have valid: "sectors_valid valid start (unat (off + c)) (unat count - unat (bytes_written + c))"
      unfolding rest turn(4) using less.prems(5) turn(2) by (rule sectors_valid_rest)
    have len: "length as = n" using left(2) by (simp add: as_def)
    have "take (n + (unat count - unat bytes_written - n)) (drop (unat bytes_written) buffer) = as @ bs"
      unfolding take_add as_def bs_def drop_drop by (simp only: add.commute)
    then have "take (unat count - unat bytes_written) (drop (unat bytes_written) buffer) = as @ bs"
      unfolding le_add_diff_inverse [OF turn(2)] .
    then have "store_bytes (sec (disk t)) start (unat off) (take (unat count - unat bytes_written) (drop (unat bytes_written) buffer)) =
      store_bytes (sec (disk t1)) start (unat (off + c)) bs"
      by (simp only: t1(3) store_bytes_append len turn(4))
    moreover have "bytes_written + c \<le> count" using turn less.prems(2) by (simp add: word_le_iff_unat)
    note ih = less.hyps [OF _ t1(1) this _ less.prems(4) valid, of sb']
    have small: "unat count - unat (bytes_written + c) < unat count - unat bytes_written"
      "unat (off + c) + (unat count - unat (bytes_written + c)) < 2 ^ 32"
      using turn less.prems(3) left(1) unfolding rest by linarith+
    have "take (unat count - unat (bytes_written + c)) (drop (unat (bytes_written + c)) buffer) = bs"
      by (simp only: bs_def turn(3) diff_diff_left)
    with ih [OF small] t1(2) calculation show ?thesis unfolding step by simp
  qed
qed

lemma vfs_read_bytes:
  assumes "inv (disk (tar s))" "fd_open fd s" "f = fd_table s (nat fd)"
    and "n = min (unat count) (unat (fsize f) - unat (offset f))"
    and "n \<le> length buffer" "unat count < 2 ^ 31" "sectors_valid valid (start_lba f) (unat (offset f)) n"
  shows "\<exists>s'. vfs_read rd fd sb buffer count s =
      (int n, patch buffer 0 (file_bytes (sec (disk (tar s))) (start_lba f) (unat (offset f)) n), s') \<and>
    inv (disk (tar s')) \<and> sec (disk (tar s')) = sec (disk (tar s)) \<and>
    fd_table s' = (fd_table s)(nat fd := f\<lparr>offset := offset f + of_nat n\<rparr>)"
proof (cases "fsize f \<le> offset f")
  case True
  then have "n = 0" using assms(4) by (simp add: word_le_iff_unat)
  then show ?thesis using True assms(1-3) by (simp add: vfs_read_def file_bytes_def)
next
  case False
  define c where "c = (if count > fsize f - offset f then fsize f - offset f else count)"
  have "unat (fsize f - offset f) = unat (fsize f) - unat (offset f)"
    using False by (simp add: unat_minus_no_wrap)
  then have c: "unat c = n" using assms(4) by (simp add: c_def word_less_iff_unat)
  then have cn: "c = of_nat n" by auto
  have "unat (offset f) + n < 2 ^ 32"
    using False assms(4) unsigned_less [of "fsize f", where 'a = nat] by (auto simp: word_le_iff_unat)
  then have "\<exists>d'. read_loop rd (start_lba f) c (offset f) 0 sb buffer (disk (tar s)) =
       (patch buffer (unat (0 :: u32)) (file_bytes (sec (disk (tar s))) (start_lba f) (unat (offset f)) (unat c - unat (0 :: u32))), d') \<and>
     inv d' \<and> sec d' = sec (disk (tar s))"
    using assms(1,5,7) c by (intro read_loop_bytes) simp_all
  then obtain d' where d': "read_loop rd (start_lba f) c (offset f) 0 sb buffer (disk (tar s)) =
       (patch buffer 0 (file_bytes (sec (disk (tar s))) (start_lba f) (unat (offset f)) n), d')"
     "inv d'" "sec d' = sec (disk (tar s))" using c by auto
  have "sint c = int n" using c assms(4,6) by (simp add: sint_small)
  then show ?thesis
    using False assms(2,3) d' by (simp add: vfs_read_def Let_def c_def [unfolded assms(3), symmetric] cn)
qed

lemma vfs_write_bytes:
  assumes "cache_ok inv sec (tar s)" "fd_open fd s" "f = fd_table s (nat fd)" "offset f \<le> fsize f"
    and "unat (offset f) + unat count < 2 ^ 32"
    and "n = min (unat count) (unat (fsize f) - unat (offset f))"
    and "n \<le> length buffer" "unat count < 2 ^ 31" "sectors_valid valid (start_lba f) (unat (offset f)) n"
  shows "\<exists>s'. vfs_write rd wr fd sb buffer count s = (int n, s') \<and> cache_ok inv sec (tar s') \<and>
    sec (disk (tar s')) = store_bytes (sec (disk (tar s))) (start_lba f) (unat (offset f)) (take n buffer) \<and>
    fd_table s' = (fd_table s)(nat fd := f\<lparr>offset := offset f + of_nat n\<rparr>)"
proof -
  define c where "c = (if offset f + count > fsize f then fsize f - offset f else count)"
  have "unat (offset f + count) = unat (offset f) + unat count" using assms(5) by (intro unat_plus_no_wrap) simp
  moreover have "unat (fsize f - offset f) = unat (fsize f) - unat (offset f)"
    using assms(4) by (simp add: unat_minus_no_wrap)
  ultimately have c: "unat c = n" using assms(6) by (auto simp: c_def word_less_iff_unat)
  then have cn: "c = of_nat n" by auto
  define t where "t = write_loop rd wr (start_lba f) c (offset f) 0 sb buffer (tar s)"
  have lt: "unat (offset f) + n < 2 ^ 32" using assms(5,6) by simp
  have t: "cache_ok inv sec t" "sec (disk t) = store_bytes (sec (disk (tar s))) (start_lba f) (unat (offset f)) (take n buffer)"
    using write_loop_bytes [OF assms(1), of 0 c "offset f" buffer "start_lba f" sb] assms(7,9) lt c
    by (simp_all add: t_def)
  have "sint c = int n" using c assms(6,8) by (simp add: sint_small)
  then have "vfs_write rd wr fd sb buffer count s =
      (int n, s\<lparr>fd_table := (fd_table s)(nat fd := f\<lparr>offset := offset f + of_nat n\<rparr>), tar := t\<rparr>)"
    using assms(2) unfolding vfs_write_def Let_def t_def by (simp add: assms(3) c_def [unfolded assms(3), symmetric] cn)
  then show ?thesis using t by simp
qed

text \<open>Both walks visit the headers of \<open>tar_chain\<close>, in order.\<close>

lemma find_loop_chain:
  "cache_ok inv sec t \<Longrightarrow> cur \<le> tar_start_lba t + 20000 \<Longrightarrow> unat (tar_start_lba t + 20000) + 2 ^ 23 < 2 ^ 32 \<Longrightarrow>
   \<forall>lba. lba \<le> tar_start_lba t + 20000 \<longrightarrow> valid lba \<Longrightarrow> unat (tar_start_lba t + 20000) - unat cur < fuel \<Longrightarrow>
   0 \<notin> set name \<Longrightarrow> length name < 512 \<Longrightarrow>
   \<exists>t'. find_loop rd name cur t = Some (map_option (\<lambda>l. (l + 1, header_size (sec (disk t) l)))
       (find (\<lambda>l. entry_name (sec (disk t) l) = name) (tar_chain (sec (disk t)) (tar_start_lba t + 20000) fuel cur)), t') \<and>
     cache_ok inv sec t' \<and> sec (disk t') = sec (disk t) \<and> tar_start_lba t' = tar_start_lba t"
proof (induction fuel arbitrary: cur t)
  case (Suc fuel)
  obtain t1 where r: "cached_read_sector rd cur t = (sec (disk t) cur, t1)"
    "cache_ok inv sec t1" "sec (disk t1) = sec (disk t)" "tar_start_lba t1 = tar_start_lba t"
    using cached_read [OF Suc.prems(1), of cur] Suc.prems(2,4) by (metis prod.collapse)
  let ?buf = "sec (disk t) cur"
  have "length ?buf = 512" using Suc.prems(1) sec_length by (simp add: cache_ok_def)
  then obtain c where c: "strcmp_bytes ?buf (name @ [0]) = Some c" "c = 0 \<longleftrightarrow> entry_name ?buf = name"
    using strcmp_bytes_name [OF Suc.prems(6), of ?buf] Suc.prems(7) by auto
  define nx where "nx = cur + sectors_of (header_size ?buf)"
  have nx: "unat cur < unat nx" unfolding nx_def using next_header [OF Suc.prems(2,3)] .
  show ?case
  proof (cases "?buf ! 0 = 0 \<or> c = 0 \<or> nx > tar_start_lba t + 20000")
    case True
    then show ?thesis using r c by (subst find_loop.simps) (auto simp: Let_def nx_def)
  next
    case False
    then have step: "find_loop rd name cur t = find_loop rd name nx t1"
      using r c(1) by (subst find_loop.simps) (simp add: Let_def nx_def)
    have le: "nx \<le> tar_start_lba t + 20000" using False not_less by blast
    then have "unat (tar_start_lba t + 20000) - unat nx < fuel"
      using nx Suc.prems(5) by (simp add: word_le_iff_unat)
    with Suc.IH [of t1 nx] r Suc.prems le have
      "\<exists>t'. find_loop rd name nx t1 = Some (map_option (\<lambda>l. (l + 1, header_size (sec (disk t) l)))
       (find (\<lambda>l. entry_name (sec (disk t) l) = name) (tar_chain (sec (disk t)) (tar_start_lba t + 20000) fuel nx)), t') \<and>
       cache_ok inv sec t' \<and> sec (disk t') = sec (disk t) \<and> tar_start_lba t' = tar_start_lba t"
      by simp
    moreover have "find (\<lambda>l. entry_name (sec (disk t) l) = name) (tar_chain (sec (disk t)) (tar_start_lba t + 20000) (Suc fuel) cur) =
      find (\<lambda>l. entry_name (sec (disk t) l) = name) (tar_chain (sec (disk t)) (tar_start_lba t + 20000) fuel nx)"
      using False c(2) by (simp add: Let_def nx_def [symmetric])
    ultimately show ?thesis unfolding step by simp
  qed
qed simp

lemma index_loop_chain:
  "cache_ok inv sec t \<Longrightarrow> cur \<le> tar_start_lba t + 20000 \<Longrightarrow> unat (tar_start_lba t + 20000) + 2 ^ 23 < 2 ^ 32 \<Longrightarrow>
   \<forall>lba. lba \<le> tar_start_lba t + 20000 \<longrightarrow> valid lba \<and> (sec (disk t) lba ! 0 = 0 \<or> 0 \<in> set (sec (disk t) lba)) \<Longrightarrow>
   unat (tar_start_lba t + 20000) - unat cur < fuel \<Longrightarrow> idx \<le> index \<Longrightarrow>
   ch = tar_chain (sec (disk t)) (tar_start_lba t + 20000) fuel cur \<Longrightarrow>
   \<exists>t'. index_loop rd index idx cur t = Some (if nat (index - idx) < length ch
       then Some (entry_name (sec (disk t) (ch ! nat (index - idx))) @ [0]) else None, t') \<and>
     cache_ok inv sec t' \<and> sec (disk t') = sec (disk t) \<and> tar_start_lba t' = tar_start_lba t"
proof (induction fuel arbitrary: cur t idx ch)
  case (Suc fuel)
  obtain t1 where r: "cached_read_sector rd cur t = (sec (disk t) cur, t1)"
    "cache_ok inv sec t1" "sec (disk t1) = sec (disk t)" "tar_start_lba t1 = tar_start_lba t"
    using cached_read [OF Suc.prems(1), of cur] Suc.prems(2,4) by (metis prod.collapse)
  let ?buf = "sec (disk t) cur"
  define nx where "nx = cur + sectors_of (header_size ?buf)"
  have nx: "unat cur < unat nx" unfolding nx_def using next_header [OF Suc.prems(2,3)] .
  show ?case
  proof (cases "?buf ! 0 = 0 \<or> idx = index \<or> nx > tar_start_lba t + 20000")
    case True
    have "?buf ! 0 \<noteq> 0 \<Longrightarrow> strcpy_bytes ?buf = Some (entry_name ?buf @ [0])"
      using Suc.prems(2,4) strcpy_bytes_name by blast
    with True show ?thesis
      using r Suc.prems(6,7) by (subst index_loop.simps) (auto simp: Let_def nx_def)
  next
    case False
    then have step: "index_loop rd index idx cur t = index_loop rd index (idx + 1) nx t1"
      using r by (subst index_loop.simps) (simp add: Let_def nx_def)
    have le: "nx \<le> tar_start_lba t + 20000" using False not_less by blast
    then have small: "unat (tar_start_lba t + 20000) - unat nx < fuel" "idx + 1 \<le> index"
      using nx Suc.prems(5,6) False by (simp_all add: word_le_iff_unat)
    define ch' where "ch' = tar_chain (sec (disk t)) (tar_start_lba t + 20000) fuel nx"
    have ch: "ch = cur # ch'" using False Suc.prems(7) by (simp add: Let_def nx_def [symmetric] ch'_def)
    have "nat (index - idx) = Suc (nat (index - (idx + 1)))" using small(2) by simp
    with Suc.IH [of t1 nx "idx + 1" ch'] r Suc.prems(3,4) le small show ?thesis
      unfolding step by (simp add: ch ch'_def [symmetric] cong: if_cong)
  qed
qed simp

end

section \<open>Properties\<close>

definition archive :: "(u32 \<Rightarrow> u8 list) \<Rightarrow> u32 \<Rightarrow> u32 list" where
  "archive c start = tar_chain c (start + 20000) 20001 start"

text \<open>The archive lies on readable sectors and its end does not come near the end of the address range.\<close>

definition archive_ok :: "(u32 \<Rightarrow> bool) \<Rightarrow> u32 \<Rightarrow> bool" where
  "archive_ok ok start \<longleftrightarrow> unat start + 20000 + 2 ^ 23 < 2 ^ 32 \<and> (\<forall>lba. lba \<le> start + 20000 \<longrightarrow> ok lba)"

lemma archive_limit:
  assumes "archive_ok ok start"
  shows "start \<le> start + 20000" "unat (start + 20000) + 2 ^ 23 < 2 ^ 32"
    "\<forall>lba. lba \<le> start + 20000 \<longrightarrow> ok lba" "unat (start + 20000) - unat start < 20001"
proof -
  have "unat (start + 20000) = unat start + 20000"
    using assms by (subst unat_plus_no_wrap) (simp_all add: archive_ok_def)
  with assms show "start \<le> start + 20000" "unat (start + 20000) + 2 ^ 23 < 2 ^ 32"
    "\<forall>lba. lba \<le> start + 20000 \<longrightarrow> ok lba" "unat (start + 20000) - unat start < 20001"
    by (simp_all add: archive_ok_def word_le_iff_unat)
qed

text \<open>C13. Opening a path: on a coherent cache the walk over the archive returns, and the result is decided by the
  first header of the archive that carries the name: no such header or no free descriptor gives -1, otherwise the
  lowest free descriptor is filled with the sector behind that header and its size, at offset 0. Nothing on
  the disk changes and the cache stays coherent.\<close>

theorem vfs_open_correct:
  assumes "block_device rd wr sec dev_ok valid" "cache_ok dev_ok sec (tar s)" "archive_ok valid (tar_start_lba (tar s))"
    and "0 \<notin> set path" "length path < 512"
    and "e = find (\<lambda>l. entry_name (sec (disk (tar s)) l) = path) (archive (sec (disk (tar s))) (tar_start_lba (tar s)))"
    and "slot = find (\<lambda>i. \<not> in_use (fd_table s i)) [0..<16]"
  shows "\<exists>fd s'. vfs_open rd path s = Some (fd, s') \<and> cache_ok dev_ok sec (tar s') \<and>
    sec (disk (tar s')) = sec (disk (tar s)) \<and>
    (case (e, slot) of
       (Some l, Some i) \<Rightarrow> fd = int i \<and> fd_table s' = (fd_table s)(i :=
         \<lparr>start_lba = l + 1, fsize = header_size (sec (disk (tar s)) l), offset = 0, in_use = True\<rparr>)
     | _ \<Rightarrow> fd = -1 \<and> fd_table s' = fd_table s)"
proof -
  note lim = archive_limit [OF assms(3)]
  obtain t' where "tar_find_file rd path (tar s) =
      Some (map_option (\<lambda>l. (l + 1, header_size (sec (disk (tar s)) l))) e, t')"
    "cache_ok dev_ok sec t'" "sec (disk t') = sec (disk (tar s))"
    using block_device.find_loop_chain [OF assms(1,2) lim assms(4,5)]
    unfolding tar_find_file_def assms(6) archive_def by blast
  then show ?thesis
    unfolding vfs_open_def MAX_FDS_def assms(7) [symmetric]
    by (cases e; cases slot) simp_all
qed

text \<open>A drive with an archive at sector 0: one file, \<open>a\<close>, of five bytes.\<close>

definition tar_drive :: drive where
  "tar_drive = blank_drive\<lparr>sectors := (sectors blank_drive)(
     0 := 97 # replicate 123 0 @ [53] @ replicate 387 0, 1 := [104, 101, 108, 108, 111] @ replicate 507 0)\<rparr>"

definition tar_fs :: "drive vfs_state" where
  "tar_fs = \<lparr>tar = \<lparr>disk = tar_drive, tar_start_lba = 0, cache_lba = 0, cache_data = replicate 512 0, cache_valid = False\<rparr>,
     fd_table = (\<lambda>_. \<lparr>start_lba = 0, fsize = 0, offset = 0, in_use = False\<rparr>)\<rparr>"

lemma tar_fs_ok: "cache_ok drive_ok sectors (tar tar_fs)" "archive_ok lba_ok (tar_start_lba (tar tar_fs))"
  "drive_ok (disk (tar tar_fs))"
  by (auto simp: cache_ok_def tar_fs_def drive_ok_def tar_drive_def blank_drive_def archive_ok_def lba_ok_def word_le_iff_unat)

lemma tar_drive_header: "header_size (sectors tar_drive 0) = 5" "entry_name (sectors tar_drive 0) = [97]"
proof -
  have "drop 124 (sectors tar_drive 0) = 53 # 0 # replicate 386 0"
    using replicate_Suc [of 386 "0 :: u8"] by (simp add: tar_drive_def)
  moreover have "octal_loop (Suc (Suc n)) (53 # 0 # xs) 0 = 5" for n xs by simp
  from this [of 9 "replicate 386 0"] have "octal_loop 11 (53 # 0 # replicate 386 0) 0 = 5" by simp
  ultimately show "header_size (sectors tar_drive 0) = 5" by (simp add: header_size_def octal_to_int_def)
  show "entry_name (sectors tar_drive 0) = [97]"
    using replicate_Suc [of 122 "0 :: u8"] by (simp add: tar_drive_def entry_name_def)
qed

lemma tar_drive_archive: "archive (sectors tar_drive) 0 = [0]"
proof -
  have chain: "tar_chain c limit 20001 cur = (if c cur ! 0 = 0 then []
      else cur # (let nx = cur + sectors_of (header_size (c cur)) in if nx > limit then [] else tar_chain c limit 20000 nx))"
    "tar_chain c limit 20000 cur = (if c cur ! 0 = 0 then []
      else cur # (let nx = cur + sectors_of (header_size (c cur)) in if nx > limit then [] else tar_chain c limit 19999 nx))"
    for c limit cur
    using tar_chain.simps(2) [of c limit 20000 cur] tar_chain.simps(2) [of c limit 19999 cur] by simp_all
  have "sectors tar_drive 0 ! 0 = 97" "sectors tar_drive 2 ! 0 = 0" by (simp_all add: tar_drive_def blank_drive_def)
  then show ?thesis
    by (simp add: archive_def chain tar_drive_header sectors_of_def Let_def del: tar_chain.simps)
qed

theorem vfs_open_correct_witness:
  "\<exists>s'. vfs_open (ata_read_sector pio_drive) [97] tar_fs = Some (0, s') \<and>
    fd_table s' 0 = \<lparr>start_lba = 1, fsize = 5, offset = 0, in_use = True\<rparr>"
proof -
  have e: "find (\<lambda>l. entry_name (sectors (disk (tar tar_fs)) l) = [97])
      (archive (sectors (disk (tar tar_fs))) (tar_start_lba (tar tar_fs))) = Some 0"
    by (simp add: tar_fs_def tar_drive_archive tar_drive_header)
  have i: "find (\<lambda>i. \<not> in_use (fd_table tar_fs i)) [0..<16] = Some 0" by (simp add: tar_fs_def upt_rec)
  show ?thesis
    using vfs_open_correct [OF ata.block_device_axioms tar_fs_ok(1,2), of "[97]", OF _ _ e [symmetric] i [symmetric]]
    by (auto simp: tar_fs_def tar_drive_header)
qed

text \<open>Listing: \<open>vfs_readdir\<close> returns for every index, with the terminated name of that entry of the archive or -1
  behind the last entry, and keeps disk and cache.\<close>

theorem vfs_readdir_correct:
  assumes "block_device rd wr sec dev_ok valid" "cache_ok dev_ok sec (tar s)" "archive_ok valid (tar_start_lba (tar s))"
    and "\<forall>lba. lba \<le> tar_start_lba (tar s) + 20000 \<longrightarrow>
      sec (disk (tar s)) lba ! 0 = 0 \<or> 0 \<in> set (sec (disk (tar s)) lba)"
    and "0 \<le> index" "ch = archive (sec (disk (tar s))) (tar_start_lba (tar s))"
  shows "\<exists>s'. vfs_readdir rd index s = Some (if nat index < length ch
      then Some (entry_name (sec (disk (tar s)) (ch ! nat index)) @ [0]) else None, s') \<and>
    cache_ok dev_ok sec (tar s') \<and> sec (disk (tar s')) = sec (disk (tar s)) \<and> fd_table s' = fd_table s"
proof -
  note lim = archive_limit [OF assms(3)]
  have "\<forall>lba. lba \<le> tar_start_lba (tar s) + 20000 \<longrightarrow> valid lba \<and>
      (sec (disk (tar s)) lba ! 0 = 0 \<or> 0 \<in> set (sec (disk (tar s)) lba))" using lim(3) assms(4) by blast
  from block_device.index_loop_chain [OF assms(1,2) lim(1,2) this lim(4) assms(5) refl]
  show ?thesis unfolding vfs_readdir_def tar_get_file_by_index_def assms(6) archive_def by auto
qed

theorem vfs_readdir_correct_witness:
  "\<exists>s'. vfs_readdir (ata_read_sector pio_drive) 0 tar_fs = Some (Some [97, 0], s')"
proof -
  have z: "0 \<in> set (sectors tar_drive lba)" for lba by (simp add: tar_drive_def blank_drive_def)
  from vfs_readdir_correct [OF ata.block_device_axioms tar_fs_ok(1,2), of 0, OF _ _ refl]
  show ?thesis using z by (simp add: tar_fs_def tar_drive_archive tar_drive_header) blast
qed

text \<open>C14. Reading: a read returns the number of bytes left in the file or the count, whichever is smaller, copies
  exactly those bytes of the file to the front of the buffer, across sector boundaries and with whole sectors read in
  place, moves the descriptor by that number, and touches no other descriptor and nothing on the disk.\<close>

theorem vfs_read_correct:
  assumes "block_device rd wr sec dev_ok valid" "dev_ok (disk (tar s))" "fd_open fd s" "f = fd_table s (nat fd)"
    and "n = min (unat count) (unat (fsize f) - unat (offset f))"
    and "n \<le> length buffer" "unat count < 2 ^ 31" "sectors_valid valid (start_lba f) (unat (offset f)) n"
  shows "\<exists>s'. vfs_read rd fd sb buffer count s =
      (int n, patch buffer 0 (file_bytes (sec (disk (tar s))) (start_lba f) (unat (offset f)) n), s') \<and>
    dev_ok (disk (tar s')) \<and> sec (disk (tar s')) = sec (disk (tar s)) \<and>
    fd_table s' = (fd_table s)(nat fd := f\<lparr>offset := offset f + of_nat n\<rparr>)"
  using block_device.vfs_read_bytes [OF assms] by blast

text \<open>The same file system with the file open on the descriptors 0 and 1.\<close>

definition opened_fs :: "drive vfs_state" where
  "opened_fs = tar_fs\<lparr>fd_table := (\<lambda>i. \<lparr>start_lba = 1, fsize = 5, offset = 2, in_use = i < 2\<rparr>)\<rparr>"

lemma opened_fs_ok: "cache_ok drive_ok sectors (tar opened_fs)" "drive_ok (disk (tar opened_fs))"
  "fd_open 0 opened_fs" "fd_open 1 opened_fs"
  "sectors_valid lba_ok 1 2 3"
  using tar_fs_ok by (auto simp: opened_fs_def fd_open_def MAX_FDS_def sectors_valid_def lba_ok_def)

theorem vfs_read_correct_witness:
  "\<exists>s'. vfs_read (ata_read_sector pio_drive) 0 [] (replicate 10 0) 9 opened_fs =
    (3, [108, 108, 111, 0, 0, 0, 0, 0, 0, 0], s')"
proof -
  have f: "file_bytes (sectors (disk (tar opened_fs))) 1 2 3 = [108, 108, 111]"
    by (simp add: file_bytes_def upt_rec file_byte_def opened_fs_def tar_fs_def tar_drive_def)
  have b: "replicate 10 (0 :: u8) = [0, 0, 0, 0, 0, 0, 0, 0, 0, 0]" by (simp add: numeral_eq_Suc)
  show ?thesis
    using vfs_read_correct [OF ata.block_device_axioms opened_fs_ok(2,3) refl, of 3 9 "replicate 10 0" "[]"]
      opened_fs_ok(5) f by (auto simp: opened_fs_def patch_def b)
qed

text \<open>C15. Writing: as long as \<open>offset + count\<close> fits 32 bits, a write stores the bytes that fit into the file at its
  offset and nothing else: every other byte of the sectors it touches, every other sector and every other
  descriptor is as before, and the cache is coherent afterwards.\<close>

theorem vfs_write_correct:
  assumes "block_device rd wr sec dev_ok valid" "cache_ok dev_ok sec (tar s)" "fd_open fd s" "f = fd_table s (nat fd)"
    and "offset f \<le> fsize f" "unat (offset f) + unat count < 2 ^ 32"
    and "n = min (unat count) (unat (fsize f) - unat (offset f))"
    and "n \<le> length buffer" "unat count < 2 ^ 31" "sectors_valid valid (start_lba f) (unat (offset f)) n"
  shows "\<exists>s'. vfs_write rd wr fd sb buffer count s = (int n, s') \<and> cache_ok dev_ok sec (tar s') \<and>
    fd_table s' = (fd_table s)(nat fd := f\<lparr>offset := offset f + of_nat n\<rparr>) \<and>
    (\<forall>k. k < 2 ^ 32 \<longrightarrow> file_byte (sec (disk (tar s'))) (start_lba f) k =
       (if unat (offset f) \<le> k \<and> k < unat (offset f) + n then buffer ! (k - unat (offset f))
        else file_byte (sec (disk (tar s))) (start_lba f) k)) \<and>
    (\<forall>x. (\<forall>k<unat (fsize f). x \<noteq> start_lba f + of_nat (k div 512)) \<longrightarrow>
       sec (disk (tar s')) x = sec (disk (tar s)) x)"
proof -
  obtain s' where s': "vfs_write rd wr fd sb buffer count s = (int n, s')" "cache_ok dev_ok sec (tar s')"
    "sec (disk (tar s')) = store_bytes (sec (disk (tar s))) (start_lba f) (unat (offset f)) (take n buffer)"
    "fd_table s' = (fd_table s)(nat fd := f\<lparr>offset := offset f + of_nat n\<rparr>)"
    using block_device.vfs_write_bytes [OF assms] by blast
  have len: "length (take n buffer) = n" using assms(8) by simp
  have n: "unat (offset f) + n \<le> unat (fsize f)" using assms(5,7) by (simp add: word_le_iff_unat)
  have sl: "length (sec (disk (tar s)) x) = 512" for x
    using assms(1,2) block_device.sec_length by (fastforce simp: cache_ok_def)
  have "file_byte (sec (disk (tar s'))) (start_lba f) k =
     (if unat (offset f) \<le> k \<and> k < unat (offset f) + n then buffer ! (k - unat (offset f))
      else file_byte (sec (disk (tar s))) (start_lba f) k)" if "k < 2 ^ 32" for k
    using that len n unsigned_less [of "fsize f", where 'a = nat]
    by (subst s'(3), subst file_byte_store) (auto simp: sl)
  moreover have "sec (disk (tar s')) x = sec (disk (tar s)) x"
    if "\<forall>k<unat (fsize f). x \<noteq> start_lba f + of_nat (k div 512)" for x
    unfolding s'(3) by (rule store_bytes_other) (use that n len in auto)
  ultimately show ?thesis using s' by blast
qed

theorem vfs_write_correct_witness:
  "\<exists>s'. vfs_write (ata_read_sector pio_drive) (ata_write_sector pio_drive) 0 [] [1, 2, 3, 4, 5, 6, 7, 8, 9] 9 opened_fs = (3, s') \<and>
    file_byte (sectors (disk (tar s'))) 1 3 = 2 \<and> file_byte (sectors (disk (tar s'))) 1 5 = 0"
proof -
  have "file_byte (sectors (disk (tar opened_fs))) 1 5 = 0"
    by (simp add: file_byte_def opened_fs_def tar_fs_def tar_drive_def)
  then show ?thesis
    using vfs_write_correct [OF ata.block_device_axioms opened_fs_ok(1,3) refl, of 9 3 "[1, 2, 3, 4, 5, 6, 7, 8, 9]" "[]"]
      opened_fs_ok(5) by (auto simp: opened_fs_def)
qed

text \<open>What one descriptor writes another descriptor of the same file reads back, at whatever offset and length, although
  writes go through the sector cache and reads do not.\<close>

theorem vfs_write_read:
  assumes "block_device rd wr sec dev_ok valid" "cache_ok dev_ok sec (tar s)" "fd_open fd s" "f = fd_table s (nat fd)"
    and "fd_open fd' s" "fd' \<noteq> fd" "fd_table s (nat fd') = f"
    and "offset f \<le> fsize f" "unat (offset f) + unat count < 2 ^ 32"
    and "n = min (unat count) (unat (fsize f) - unat (offset f))"
    and "n \<le> length buffer" "n \<le> length buffer'" "unat count < 2 ^ 31"
    and "sectors_valid valid (start_lba f) (unat (offset f)) n"
  shows "\<exists>s' s''. vfs_write rd wr fd sb buffer count s = (int n, s') \<and>
    vfs_read rd fd' sb' buffer' count s' = (int n, patch buffer' 0 (take n buffer), s'')"
proof -
  obtain s' where s': "vfs_write rd wr fd sb buffer count s = (int n, s')" "cache_ok dev_ok sec (tar s')"
    "sec (disk (tar s')) = store_bytes (sec (disk (tar s))) (start_lba f) (unat (offset f)) (take n buffer)"
    "fd_table s' = (fd_table s)(nat fd := f\<lparr>offset := offset f + of_nat n\<rparr>)"
    using block_device.vfs_write_bytes [OF assms(1-4,8,9,10,11,13,14)] by blast
  have ne: "nat fd' \<noteq> nat fd" using assms(3,5,6) by (auto simp: fd_open_def)
  then have fd': "fd_open fd' s'" "f = fd_table s' (nat fd')" using assms(5,7) s'(4) by (auto simp: fd_open_def)
  have sl: "length (sec (disk (tar s)) x) = 512" for x
    using assms(1,2) block_device.sec_length by (fastforce simp: cache_ok_def)
  have len: "length (take n buffer) = n" using assms(11) by simp
  have "unat (offset f) + n \<le> 2 ^ 32"
    using assms(9,10) by simp
  then have fb: "file_bytes (sec (disk (tar s'))) (start_lba f) (unat (offset f)) n = take n buffer"
    using file_bytes_stored [of "sec (disk (tar s))" "unat (offset f)" "take n buffer"] sl len s'(3) by simp
  have "dev_ok (disk (tar s'))" using s'(2) by (simp add: cache_ok_def)
  from block_device.vfs_read_bytes [OF assms(1) this fd' assms(10,12,13,14), of sb']
  show ?thesis unfolding fb using s'(1) by blast
qed

theorem vfs_write_read_witness:
  "\<exists>s' s''. vfs_write (ata_read_sector pio_drive) (ata_write_sector pio_drive) 0 [] [1, 2, 3, 4] 4 opened_fs = (3, s') \<and>
    vfs_read (ata_read_sector pio_drive) 1 [] [0, 0, 0, 0] 4 s' = (3, [1, 2, 3, 0], s'')"
  using vfs_write_read [OF ata.block_device_axioms opened_fs_ok(1,3) refl opened_fs_ok(4), of 4 3 "[1, 2, 3, 4]" "[0, 0, 0, 0]" "[]" "[]"]
    opened_fs_ok(5) by (auto simp: opened_fs_def patch_def)

text \<open>The clamp of a write is computed in 32 bits: a count that wraps the sum below the file size is not clamped at
  all, so the write runs over the end of the file and the descriptor moves backwards.\<close>

theorem vfs_write_wraps:
  assumes "fd_open fd s" "f = fd_table s (nat fd)" "unat (offset f) + unat count \<ge> 2 ^ 32"
    and "unat (offset f) + unat count - 2 ^ 32 \<le> unat (fsize f)"
  shows "fst (vfs_write rd wr fd sb buffer count s) = sint count \<and>
    offset (fd_table (snd (vfs_write rd wr fd sb buffer count s)) (nat fd)) = offset f + count \<and> offset f + count < offset f"
proof -
  have "unat (offset f + count) = unat (offset f) + unat count - 2 ^ 32"
    using assms(3) unsigned_less [of "offset f", where 'a = nat] unsigned_less [of count, where 'a = nat]
    by (simp add: unat_word_ariths mod_if)
  moreover have "unat count < 2 ^ 32" using unsigned_less [of count, where 'a = nat] by simp
  ultimately have "\<not> offset f + count > fsize f" "offset f + count < offset f"
    using assms(3,4) by (simp_all add: word_less_iff_unat)
  then show ?thesis using assms(1,2) by (simp add: vfs_write_def Let_def)
qed

theorem vfs_write_wraps_witness:
  "fst (vfs_write (ata_read_sector pio_drive) (ata_write_sector pio_drive) 0 [] [] 0xFFFFFFFF opened_fs) = -1 \<and>
    offset (fd_table (snd (vfs_write (ata_read_sector pio_drive) (ata_write_sector pio_drive) 0 [] [] 0xFFFFFFFF opened_fs)) 0) = 1"
  using vfs_write_wraps [OF opened_fs_ok(3) refl, of "0xFFFFFFFF" "ata_read_sector pio_drive" "ata_write_sector pio_drive" "[]" "[]"]
  by (simp add: opened_fs_def)

end
