(* ===== verification/Links.thy ===== *)
theory Links
  imports Prelude
begin

text \<open>
  Singly linked lists through next pointers, shared by the window list and the run queues: a
  chain from a head pointer through the next function to the null pointer, and what following,
  pushing and unlinking do to it.
\<close>

fun chain :: "(u64 \<Rightarrow> u64) \<Rightarrow> u64 \<Rightarrow> u64 list \<Rightarrow> bool" where
  "chain nx p [] \<longleftrightarrow> p = 0"
| "chain nx p (q # qs) \<longleftrightarrow> p = q \<and> q \<noteq> 0 \<and> chain nx (nx q) qs"

lemma chain_null [simp]: "chain nx 0 ps \<longleftrightarrow> ps = []"
  by (cases ps) auto

lemma chain_nonnull: "p \<noteq> 0 \<Longrightarrow> chain nx p ps \<longleftrightarrow> (\<exists>qs. ps = p # qs \<and> chain nx (nx p) qs)"
  by (cases ps) auto

lemma chain_unique: "chain nx p ps \<Longrightarrow> chain nx p qs \<Longrightarrow> ps = qs"
  by (induction ps arbitrary: p qs) (auto simp: chain_nonnull)

lemma chain_suffix: "chain nx p (as @ q # bs) \<Longrightarrow> chain nx q (q # bs)"
  by (induction as arbitrary: p) auto

lemma chain_distinct: "chain nx p ps \<Longrightarrow> distinct ps"
proof (induction ps arbitrary: p)
  case (Cons q qs)
  have "q \<notin> set qs"
  proof
    assume "q \<in> set qs"
    then obtain as bs where qs: "qs = as @ q # bs" by (auto simp: in_set_conv_decomp)
    have "chain nx q (q # qs)" using Cons.prems by auto
    moreover have "chain nx q (q # bs)" using Cons.prems chain_suffix [of nx p "q # as" q bs] by (simp add: qs)
    ultimately have "qs = bs" using chain_unique by blast
    then show False by (simp add: qs)
  qed
  with Cons show ?case by auto
qed simp

lemma chain_nonzero: "chain nx p ps \<Longrightarrow> 0 \<notin> set ps"
  by (induction ps arbitrary: p) auto

lemma chain_cong: "(\<And>q. q \<in> set ps \<Longrightarrow> nx q = nx' q) \<Longrightarrow> chain nx p ps \<longleftrightarrow> chain nx' p ps"
  by (induction ps arbitrary: p) auto

lemma chain_upd_other [simp]: "q \<notin> set ps \<Longrightarrow> chain (nx(q := v)) p ps \<longleftrightarrow> chain nx p ps"
  by (rule chain_cong) auto

lemma chain_push: "chain nx p ps \<Longrightarrow> q \<noteq> 0 \<Longrightarrow> q \<notin> set ps \<Longrightarrow> chain (nx(q := p)) q (q # ps)"
  by simp

text \<open>Replacing what follows an element.\<close>

lemma chain_replace_tail:
  assumes "chain nx p (as @ q # bs)" "chain nx r cs" "q \<notin> set cs"
  shows "chain (nx(q := r)) p (as @ q # cs)"
  using assms
proof (induction as arbitrary: p)
  case (Cons a as)
  have "distinct (a # as @ q # bs)" using Cons.prems(1) by (metis append_Cons chain_distinct)
  then have "a \<noteq> q" by auto
  with Cons show ?case by auto
qed auto

lemma chain_snoc:
  assumes "chain nx p (as @ [a])" "q \<noteq> 0" "q \<notin> set (as @ [a])"
  shows "chain (nx(q := 0, a := q)) p (as @ [a, q])"
proof (rule chain_replace_tail)
  show "chain (nx(q := 0)) p (as @ [a])" using assms by simp
  show "chain (nx(q := 0)) q [q]" using assms(2) by simp
  show "a \<notin> set [q]" using assms(3) by auto
qed

lemma chain_unlink_first: "chain nx p (p # ps) \<Longrightarrow> chain nx (nx p) ps"
  by simp

lemma chain_unlink:
  assumes "chain nx p (as @ a # q # bs)"
  shows "chain (nx(a := nx q)) p (as @ a # bs)"
proof (rule chain_replace_tail [OF assms])
  have "chain nx q (q # bs)" using chain_suffix [of nx p "as @ [a]" q bs] assms by simp
  then show "chain nx (nx q) bs" by simp
  show "a \<notin> set bs" using chain_distinct [OF assms] by auto
qed

section \<open>Disjoint parts\<close>

lemma distinct_concat_apart:
  "distinct (concat (map f ps)) \<Longrightarrow> a \<in> set ps \<Longrightarrow> b \<in> set ps \<Longrightarrow> a \<noteq> b \<Longrightarrow> set (f a) \<inter> set (f b) = {}"
  by (induction ps) auto

lemma distinct_concat_filter:
  "distinct (concat (map f ps)) \<Longrightarrow> distinct (concat (map f (filter P ps)))"
proof (induction ps)
  case (Cons q ps)
  then have "set (f q) \<inter> set (concat (map f ps)) = {}" by simp
  moreover have "set (concat (map f (filter P ps))) \<subseteq> set (concat (map f ps))" by auto
  ultimately have "set (f q) \<inter> set (concat (map f (filter P ps))) = {}" by blast
  with Cons show ?case by simp
qed simp

end
