(* ===== verification/Graphics.thy ===== *)
theory Graphics
  imports Vmm Kmalloc
begin

text \<open>
  The framebuffer console of src/kernel/graphics.c: drawing into a back buffer of 32-bit pixels
  and copying it to the screen. The back buffer is an array of pixels (None for a null pointer), the
  framebuffer a byte memory at \<open>fb_addr\<close>. A buffer argument is an array, or None for null.
\<close>

section \<open>State\<close>

record rect_t =
  rx :: int
  ry :: int
  rw :: int
  rh :: int

record gfx =
  fb_addr :: u64
  backbuffer :: "u32 carray option"
  fb_width :: u32
  fb_height :: u32
  fb_pitch :: u32
  fb_bpp :: u8
  framebuffer :: memory

record fb_tag =
  tag_addr :: u64
  tag_pitch :: u32
  tag_width :: u32
  tag_height :: u32
  tag_bpp :: u8

section \<open>Operations\<close>

text \<open>The corners are computed first; only then are the origin and the corners clamped.\<close>

definition clip_rect :: "gfx \<Rightarrow> rect_t \<Rightarrow> bool \<times> rect_t" where
  "clip_rect g r =
     (let x2 = i32 (rx r + rw r);
          y2 = i32 (ry r + rh r);
          x = (if rx r < 0 then 0 else rx r);
          y = (if ry r < 0 then 0 else ry r);
          x2 = (if x2 > sint (fb_width g) then sint (fb_width g) else x2);
          y2 = (if y2 > sint (fb_height g) then sint (fb_height g) else y2);
          w = i32 (x2 - x);
          h = i32 (y2 - y)
      in (w > 0 \<and> h > 0, \<lparr>rx = x, ry = y, rw = w, rh = h\<rparr>))"

text \<open>\<open>fb_pitch * fb_height\<close> is a 32-bit product. The fresh back buffer has arbitrary contents \<open>junk\<close>.\<close>

definition graphics_init ::
  "fb_tag \<Rightarrow> u64 \<Rightarrow> u32 carray \<Rightarrow> gfx \<Rightarrow> vmm_state \<Rightarrow> kmalloc_state \<Rightarrow> (gfx \<times> vmm_state \<times> kmalloc_state) option" where
  "graphics_init tag cr3 junk g v k =
     (let g1 = g\<lparr>fb_width := tag_width tag, fb_height := tag_height tag, fb_pitch := tag_pitch tag,
                fb_bpp := tag_bpp tag, fb_addr := tag_addr tag\<rparr>;
          fb_size = ucast (fb_pitch g1 * fb_height g1)
      in case vmm_map_range cr3 (fb_addr g1) (tag_addr tag) fb_size (PAGE_WRITABLE OR PAGE_PRESENT OR 8 OR 16) v of
           None \<Rightarrow> None
         | Some v' \<Rightarrow>
             (case kmalloc fb_size k of
                None \<Rightarrow> None
              | Some (p, k') \<Rightarrow> Some (g1\<lparr>backbuffer := (if p = 0 then None else Some junk)\<rparr>, v', k')))"

definition font8x8_basic :: "u8 \<Rightarrow> u8 list" where
  "font8x8_basic c = (case map_of
    [(0x20, [0x00, 0x00, 0x00, 0x00, 0x00, 0x00, 0x00, 0x00]),
     (0x41, [0x18, 0x3C, 0x66, 0x7E, 0x66, 0x66, 0x66, 0x00]),
     (0x42, [0x7C, 0x66, 0x66, 0x7C, 0x66, 0x66, 0x7C, 0x00]),
     (0x43, [0x3C, 0x66, 0x60, 0x60, 0x60, 0x66, 0x3C, 0x00]),
     (0x44, [0x78, 0x6C, 0x66, 0x66, 0x66, 0x6C, 0x78, 0x00]),
     (0x45, [0x7E, 0x60, 0x60, 0x7C, 0x60, 0x60, 0x7E, 0x00]),
     (0x46, [0x7E, 0x60, 0x60, 0x7C, 0x60, 0x60, 0x60, 0x00]),
     (0x47, [0x3C, 0x66, 0x60, 0x6E, 0x66, 0x66, 0x3C, 0x00]),
     (0x48, [0x66, 0x66, 0x66, 0x7E, 0x66, 0x66, 0x66, 0x00]),
     (0x49, [0x3C, 0x18, 0x18, 0x18, 0x18, 0x18, 0x3C, 0x00]),
     (0x4A, [0x1E, 0x0C, 0x0C, 0x0C, 0x0C, 0x6C, 0x38, 0x00]),
     (0x4B, [0x66, 0x6C, 0x78, 0x70, 0x78, 0x6C, 0x66, 0x00]),
     (0x4C, [0x60, 0x60, 0x60, 0x60, 0x60, 0x60, 0x7E, 0x00]),
     (0x4D, [0x63, 0x77, 0x7F, 0x6B, 0x63, 0x63, 0x63, 0x00]),
     (0x4E, [0x63, 0x73, 0x7B, 0x6F, 0x67, 0x63, 0x63, 0x00]),
     (0x4F, [0x3C, 0x66, 0x66, 0x66, 0x66, 0x66, 0x3C, 0x00]),
     (0x50, [0x7C, 0x66, 0x66, 0x7C, 0x60, 0x60, 0x60, 0x00]),
     (0x51, [0x3C, 0x66, 0x66, 0x66, 0x66, 0x3C, 0x0E, 0x00]),
     (0x52, [0x7C, 0x66, 0x66, 0x7C, 0x78, 0x6C, 0x66, 0x00]),
     (0x53, [0x3C, 0x66, 0x60, 0x3C, 0x06, 0x66, 0x3C, 0x00]),
     (0x54, [0x7E, 0x18, 0x18, 0x18, 0x18, 0x18, 0x18, 0x00]),
     (0x55, [0x66, 0x66, 0x66, 0x66, 0x66, 0x66, 0x3C, 0x00]),
     (0x56, [0x66, 0x66, 0x66, 0x66, 0x66, 0x3C, 0x18, 0x00]),
     (0x57, [0x63, 0x63, 0x63, 0x6B, 0x7F, 0x77, 0x63, 0x00]),
     (0x58, [0x66, 0x66, 0x3C, 0x18, 0x3C, 0x66, 0x66, 0x00]),
     (0x59, [0x66, 0x66, 0x66, 0x3C, 0x18, 0x18, 0x18, 0x00]),
     (0x5A, [0x7E, 0x06, 0x0C, 0x18, 0x30, 0x60, 0x7E, 0x00]),
     (0x30, [0x3C, 0x66, 0x6E, 0x76, 0x66, 0x66, 0x3C, 0x00]),
     (0x31, [0x18, 0x38, 0x18, 0x18, 0x18, 0x18, 0x3C, 0x00]),
     (0x32, [0x3C, 0x66, 0x06, 0x0C, 0x18, 0x30, 0x7E, 0x00]),
     (0x33, [0x3C, 0x66, 0x06, 0x1C, 0x06, 0x66, 0x3C, 0x00]),
     (0x34, [0x0C, 0x1C, 0x2C, 0x4C, 0x7E, 0x0C, 0x0C, 0x00]),
     (0x35, [0x7E, 0x60, 0x60, 0x7C, 0x06, 0x06, 0x7C, 0x00]),
     (0x36, [0x3C, 0x66, 0x60, 0x7C, 0x66, 0x66, 0x3C, 0x00]),
     (0x37, [0x7E, 0x06, 0x0C, 0x18, 0x18, 0x18, 0x18, 0x00]),
     (0x38, [0x3C, 0x66, 0x66, 0x3C, 0x66, 0x66, 0x3C, 0x00]),
     (0x39, [0x3C, 0x66, 0x66, 0x3E, 0x06, 0x66, 0x3C, 0x00]),
     (0x3E, [0x60, 0x30, 0x18, 0x0C, 0x18, 0x30, 0x60, 0x00]),
     (0x3A, [0x00, 0x18, 0x18, 0x00, 0x18, 0x18, 0x00, 0x00]),
     (0x2C, [0x00, 0x00, 0x00, 0x00, 0x00, 0x18, 0x18, 0x30]),
     (0x2E, [0x00, 0x00, 0x00, 0x00, 0x00, 0x18, 0x18, 0x00]),
     (0x61, [0x00, 0x00, 0x3C, 0x06, 0x3E, 0x66, 0x3E, 0x00]),
     (0x62, [0x60, 0x60, 0x7C, 0x66, 0x66, 0x66, 0x7C, 0x00]),
     (0x63, [0x00, 0x00, 0x3C, 0x60, 0x60, 0x66, 0x3C, 0x00]),
     (0x64, [0x06, 0x06, 0x3E, 0x66, 0x66, 0x66, 0x3E, 0x00]),
     (0x65, [0x00, 0x00, 0x3C, 0x66, 0x7E, 0x60, 0x3C, 0x00]),
     (0x66, [0x0E, 0x18, 0x3E, 0x18, 0x18, 0x18, 0x18, 0x00]),
     (0x67, [0x00, 0x00, 0x3E, 0x66, 0x66, 0x3E, 0x06, 0x3C]),
     (0x68, [0x60, 0x60, 0x7C, 0x66, 0x66, 0x66, 0x66, 0x00]),
     (0x69, [0x18, 0x00, 0x38, 0x18, 0x18, 0x18, 0x3C, 0x00]),
     (0x6A, [0x06, 0x00, 0x06, 0x06, 0x06, 0x06, 0x06, 0x3C]),
     (0x6B, [0x60, 0x60, 0x66, 0x6C, 0x78, 0x6C, 0x66, 0x00]),
     (0x6C, [0x38, 0x18, 0x18, 0x18, 0x18, 0x18, 0x3C, 0x00]),
     (0x6D, [0x00, 0x00, 0x66, 0x7F, 0x7F, 0x6B, 0x63, 0x00]),
     (0x6E, [0x00, 0x00, 0x7C, 0x66, 0x66, 0x66, 0x66, 0x00]),
     (0x6F, [0x00, 0x00, 0x3C, 0x66, 0x66, 0x66, 0x3C, 0x00]),
     (0x70, [0x00, 0x00, 0x7C, 0x66, 0x66, 0x7C, 0x60, 0x60]),
     (0x71, [0x00, 0x00, 0x3E, 0x66, 0x66, 0x3E, 0x06, 0x06]),
     (0x72, [0x00, 0x00, 0x7C, 0x66, 0x60, 0x60, 0x60, 0x00]),
     (0x73, [0x00, 0x00, 0x3E, 0x60, 0x3C, 0x06, 0x7C, 0x00]),
     (0x74, [0x18, 0x18, 0x3E, 0x18, 0x18, 0x18, 0x0E, 0x00]),
     (0x75, [0x00, 0x00, 0x66, 0x66, 0x66, 0x66, 0x3E, 0x00]),
     (0x76, [0x00, 0x00, 0x66, 0x66, 0x66, 0x3C, 0x18, 0x00]),
     (0x77, [0x00, 0x00, 0x63, 0x6B, 0x7F, 0x3E, 0x36, 0x00]),
     (0x78, [0x00, 0x00, 0x66, 0x3C, 0x18, 0x3C, 0x66, 0x00]),
     (0x79, [0x00, 0x00, 0x66, 0x66, 0x66, 0x3E, 0x06, 0x3C]),
     (0x7A, [0x00, 0x00, 0x7E, 0x0C, 0x18, 0x30, 0x7E, 0x00])] c of
      None \<Rightarrow> replicate 8 0
    | Some rows \<Rightarrow> rows)"

definition char_pixel :: "u8 \<Rightarrow> u32 \<Rightarrow> u32 \<Rightarrow> u32 \<Rightarrow> u32 \<Rightarrow> nat \<Rightarrow> nat \<Rightarrow> u32 carray \<Rightarrow> u32 carray" where
  "char_pixel c w x y color i j buf =
     (if font8x8_basic c ! i AND push_bit (7 - j) 1 \<noteq> 0
      then let px = x + of_nat j; py = y + of_nat i
           in if px < w then buf(unat (py * w + px) := color) else buf
      else buf)"

definition graphics_draw_char ::
  "u32 carray option \<Rightarrow> u32 \<Rightarrow> u32 \<Rightarrow> u32 \<Rightarrow> u8 \<Rightarrow> u32 \<Rightarrow> u32 carray option" where
  "graphics_draw_char dest w x y c color =
     (case dest of
        None \<Rightarrow> None
      | Some buf \<Rightarrow>
          if c \<ge> 128 then Some buf
          else Some (fold (\<lambda>i. fold (char_pixel c w x y color i) [0..<8]) [0..<8] buf))"

text \<open>The string is the bytes before the terminator.\<close>

fun draw_string_from ::
  "nat \<Rightarrow> u32 carray option \<Rightarrow> u32 \<Rightarrow> u32 \<Rightarrow> u32 \<Rightarrow> u8 list \<Rightarrow> u32 \<Rightarrow> u32 carray option" where
  "draw_string_from i dest w x y [] color = dest"
| "draw_string_from i dest w x y (c # cs) color =
     (if c = 0 then dest
      else draw_string_from (Suc i) (graphics_draw_char dest w (x + of_nat i * 8) y c color) w x y cs color)"

definition graphics_draw_string ::
  "u32 carray option \<Rightarrow> u32 \<Rightarrow> u32 \<Rightarrow> u32 \<Rightarrow> u8 list \<Rightarrow> u32 \<Rightarrow> u32 carray option" where
  "graphics_draw_string dest w x y str color = (if dest = None then None else draw_string_from 0 dest w x y str color)"

text \<open>\<open>memcpy\<close> of \<open>n\<close> bytes of a pixel array, from pixel \<open>k\<close> on, to the address \<open>dst\<close>.\<close>

definition pixel_byte :: "u32 carray \<Rightarrow> nat \<Rightarrow> nat \<Rightarrow> u8" where
  "pixel_byte bb k b = ucast (drop_bit (8 * (b mod 4)) (bb (k + b div 4)))"

definition blit :: "u64 \<Rightarrow> u32 carray \<Rightarrow> nat \<Rightarrow> u64 \<Rightarrow> memory \<Rightarrow> memory" where
  "blit dst bb k n m = (\<lambda>a. if a - dst < n then pixel_byte bb k (unat (a - dst)) else m a)"

definition graphics_swap :: "gfx \<Rightarrow> gfx" where
  "graphics_swap g =
     (case backbuffer g of
        None \<Rightarrow> g
      | Some bb \<Rightarrow>
          if fb_addr g = 0 then g
          else g\<lparr>framebuffer := blit (fb_addr g) bb 0 (ucast (fb_pitch g * fb_height g)) (framebuffer g)\<rparr>)"

definition swap_row :: "gfx \<Rightarrow> u32 carray \<Rightarrow> rect_t \<Rightarrow> nat \<Rightarrow> memory \<Rightarrow> memory" where
  "swap_row g bb r row m =
     (let line = of_int (ry r + int row) :: u64;
          dst = fb_addr g + line * ucast (fb_pitch g) + of_int (rx r) * 4;
          src = unat (line * ucast (fb_width g) + of_int (rx r))
      in blit dst bb src (of_int (rw r) * 4) m)"

definition swap_rect :: "gfx \<Rightarrow> u32 carray \<Rightarrow> rect_t \<Rightarrow> memory \<Rightarrow> memory" where
  "swap_rect g bb rect m =
     (let (visible, r) = clip_rect g rect
      in if visible then fold (swap_row g bb r) [0..<nat (rh r)] m else m)"

definition graphics_swap_rects :: "rect_t list \<Rightarrow> gfx \<Rightarrow> gfx" where
  "graphics_swap_rects rects g =
     (case backbuffer g of
        None \<Rightarrow> g
      | Some bb \<Rightarrow>
          if fb_addr g = 0 then g
          else g\<lparr>framebuffer := fold (swap_rect g bb) rects (framebuffer g)\<rparr>)"

definition graphics_put_pixel :: "u32 \<Rightarrow> u32 \<Rightarrow> u32 \<Rightarrow> gfx \<Rightarrow> gfx" where
  "graphics_put_pixel x y color g =
     (case backbuffer g of
        None \<Rightarrow> g
      | Some bb \<Rightarrow>
          if x \<ge> fb_width g \<or> y \<ge> fb_height g then g
          else g\<lparr>backbuffer := Some (bb(unat (y * fb_width g + x) := color))\<rparr>)"

definition graphics_draw_cursor :: "u32 \<Rightarrow> u32 \<Rightarrow> gfx \<Rightarrow> gfx" where
  "graphics_draw_cursor x y g =
     (if backbuffer g = None then g
      else fold (\<lambda>i. fold (\<lambda>j g.
          if j < i div 2 + 1 then graphics_put_pixel (x + of_nat j) (y + of_nat i) 0xFFFFFFFF g else g) [0..<10]) [0..<15] g)"

definition graphics_clear :: "u32 \<Rightarrow> gfx \<Rightarrow> gfx" where
  "graphics_clear color g =
     (case backbuffer g of
        None \<Rightarrow> g
      | Some bb \<Rightarrow> g\<lparr>backbuffer := Some (fold (\<lambda>i bb. bb(i := color)) [0..<unat (fb_width g * fb_height g)] bb)\<rparr>)"

definition graphics_clear_rect :: "int \<Rightarrow> int \<Rightarrow> int \<Rightarrow> int \<Rightarrow> u32 \<Rightarrow> gfx \<Rightarrow> gfx" where
  "graphics_clear_rect x y w h color g =
     (case backbuffer g of
        None \<Rightarrow> g
      | Some bb \<Rightarrow>
          (let (visible, r) = clip_rect g \<lparr>rx = x, ry = y, rw = w, rh = h\<rparr>
           in if \<not> visible then g
              else g\<lparr>backbuffer := Some (fold (\<lambda>py. fold (\<lambda>px bb.
                  bb(unat (of_int (ry r + int py) * ucast (fb_width g) + of_int (rx r) :: u64) + px := color))
                [0..<nat (rw r)]) [0..<nat (rh r)] bb)\<rparr>))"

definition graphics_draw_rect :: "u32 \<Rightarrow> u32 \<Rightarrow> u32 \<Rightarrow> u32 \<Rightarrow> u32 \<Rightarrow> gfx \<Rightarrow> gfx" where
  "graphics_draw_rect x y w h color g =
     (if backbuffer g = None then g
      else fold (\<lambda>i. fold (\<lambda>j. graphics_put_pixel (x + of_nat j) (y + of_nat i) color) [0..<unat w]) [0..<unat h] g)"

definition graphics_fill_rect_buffer ::
  "u32 carray option \<Rightarrow> u32 \<Rightarrow> u32 \<Rightarrow> u32 \<Rightarrow> u32 \<Rightarrow> u32 \<Rightarrow> u32 \<Rightarrow> u32 carray option" where
  "graphics_fill_rect_buffer dest buf_w x y w h color =
     map_option (fold (\<lambda>i. fold (\<lambda>j buf.
       buf(unat (ucast (y + of_nat i) * ucast buf_w + ucast x :: u64) + j := color)) [0..<unat w]) [0..<unat h]) dest"

text \<open>\<open>x + w\<close> is a 32-bit sum.\<close>

definition graphics_draw_line_buffer :: "u32 \<Rightarrow> u32 \<Rightarrow> u32 \<Rightarrow> u32 carray \<Rightarrow> gfx \<Rightarrow> gfx" where
  "graphics_draw_line_buffer x y w line g =
     (case backbuffer g of
        None \<Rightarrow> g
      | Some bb \<Rightarrow>
          if x + w > fb_width g \<or> y \<ge> fb_height g then g
          else let dst = unat (ucast y * ucast (fb_width g) + ucast x :: u64)
               in g\<lparr>backbuffer := Some (\<lambda>k. if dst \<le> k \<and> k < dst + unat w then line (k - dst) else bb k)\<rparr>)"

definition graphics_get_width :: "gfx \<Rightarrow> u32" where "graphics_get_width g = fb_width g"
definition graphics_get_height :: "gfx \<Rightarrow> u32" where "graphics_get_height g = fb_height g"
definition graphics_get_fb_addr :: "gfx \<Rightarrow> u64" where "graphics_get_fb_addr g = fb_addr g"

section \<open>Pixels\<close>

text \<open>A pixel of the back buffer, a pixel as the framebuffer shows it, and when a rectangle contains a point.\<close>

definition pixel :: "gfx \<Rightarrow> u32 \<Rightarrow> u32 \<Rightarrow> u32" where
  "pixel g px py = (case backbuffer g of None \<Rightarrow> 0 | Some bb \<Rightarrow> bb (unat (py * fb_width g + px)))"

definition shown :: "gfx \<Rightarrow> u32 \<Rightarrow> u32 \<Rightarrow> u32" where
  "shown g px py = load32 (framebuffer g) (fb_addr g + ucast py * ucast (fb_pitch g) + ucast px * 4)"

definition on_screen :: "gfx \<Rightarrow> u32 \<Rightarrow> u32 \<Rightarrow> bool" where
  "on_screen g px py \<longleftrightarrow> px < fb_width g \<and> py < fb_height g"

definition in_rect :: "rect_t \<Rightarrow> int \<Rightarrow> int \<Rightarrow> bool" where
  "in_rect r px py \<longleftrightarrow> rx r \<le> px \<and> px < rx r + rw r \<and> ry r \<le> py \<and> py < ry r + rh r"

text \<open>The back buffer exists and its indices fit 32 bits.\<close>

definition drawable :: "gfx \<Rightarrow> bool" where
  "drawable g \<longleftrightarrow> backbuffer g \<noteq> None \<and> unat (fb_width g) * unat (fb_height g) \<le> 2 ^ 32"

lemma pixel_index:
  assumes "drawable g" "on_screen g px py"
  shows "unat (py * fb_width g + px) = unat py * unat (fb_width g) + unat px"
proof -
  have "unat py * unat (fb_width g) + unat px < (unat py + 1) * unat (fb_width g)"
    using assms(2) by (simp add: on_screen_def word_less_iff_unat)
  also have "\<dots> \<le> unat (fb_height g) * unat (fb_width g)"
    using assms(2) by (intro mult_le_mono1) (simp add: on_screen_def word_less_iff_unat)
  finally have lt: "unat py * unat (fb_width g) + unat px < 2 ^ 32"
    using assms(1) by (simp add: drawable_def mult.commute)
  then show ?thesis by (simp add: unat_word_ariths)
qed

lemma row_col_unique:
  assumes "x < (n :: nat)" "x' < n" "y * n + x = y' * n + x'"
  shows "y = y' \<and> x = x'"
  using arg_cong [OF assms(3), of "\<lambda>k. k div n"] arg_cong [OF assms(3), of "\<lambda>k. k mod n"] assms(1,2) by simp

lemma put_pixel_pixel:
  assumes "drawable g" "on_screen g px py"
  shows "pixel (graphics_put_pixel x y color g) px py = (if x = px \<and> y = py then color else pixel g px py)"
proof (cases "on_screen g x y")
  case True
  have "unat (y * fb_width g + x) = unat (py * fb_width g + px) \<longleftrightarrow> x = px \<and> y = py"
    unfolding pixel_index [OF assms] pixel_index [OF assms(1) True]
    using row_col_unique [of "unat x" "unat (fb_width g)" "unat px" "unat y" "unat py"] True assms(2)
    by (auto simp: on_screen_def word_less_iff_unat word_unat_eq_iff)
  with True assms show ?thesis
    by (auto simp: graphics_put_pixel_def pixel_def on_screen_def drawable_def not_le [symmetric] split: option.splits)
next
  case False
  with assms have "\<not> (x = px \<and> y = py)" by auto
  with False show ?thesis
    by (auto simp: graphics_put_pixel_def pixel_def on_screen_def not_less split: option.splits)
qed

definition same_screen :: "gfx \<Rightarrow> gfx \<Rightarrow> bool" where
  "same_screen g h \<longleftrightarrow> fb_width h = fb_width g \<and> fb_height h = fb_height g \<and> fb_pitch h = fb_pitch g \<and>
     fb_addr h = fb_addr g \<and> framebuffer h = framebuffer g \<and> (backbuffer h = None \<longleftrightarrow> backbuffer g = None)"

lemma same_screen_refl [simp]: "same_screen g g"
  and same_screen_trans: "same_screen g h \<Longrightarrow> same_screen h k \<Longrightarrow> same_screen g k"
  by (auto simp: same_screen_def)

lemma same_screenD: "same_screen g h \<Longrightarrow> drawable g \<Longrightarrow> drawable h"
  "same_screen g h \<Longrightarrow> on_screen g px py \<Longrightarrow> on_screen h px py"
  by (auto simp: same_screen_def drawable_def on_screen_def)

lemma put_pixel_screen: "same_screen g (graphics_put_pixel x y color g)"
  by (simp add: graphics_put_pixel_def same_screen_def split: option.splits)

text \<open>A loop whose turns each paint some points paints their union.\<close>

lemma fold_paint:
  assumes step: "\<And>k h. k < n \<Longrightarrow> same_screen g h \<Longrightarrow>
      same_screen h (f k h) \<and> pixel (f k h) px py = (if P k then c else pixel h px py)"
  shows "same_screen g (fold f [0..<n] g) \<and>
    pixel (fold f [0..<n] g) px py = (if \<exists>k<n. P k then c else pixel g px py)"
  using step
proof (induction n)
  case (Suc n)
  let ?h = "fold f [0..<n] g"
  have IH: "same_screen g ?h \<and> pixel ?h px py = (if \<exists>k<n. P k then c else pixel g px py)"
    using Suc by simp
  then have "same_screen ?h (f n ?h) \<and> pixel (f n ?h) px py = (if P n then c else pixel ?h px py)"
    using Suc.prems by blast
  with IH show ?case using same_screen_trans less_Suc_eq by auto
qed simp

lemma offset_reached: "(\<exists>j<unat w. x + of_nat j = (px :: u32)) \<longleftrightarrow> px - x < w"
proof
  assume "\<exists>j<unat w. x + of_nat j = px"
  then obtain j where j: "j < unat w" "x + of_nat j = px" by blast
  then have "px - x = of_nat j" by auto
  moreover have "unat (of_nat j :: u32) = j"
    using j(1) unsigned_less [of w, where 'a = nat] by (intro unat_of_nat_small) simp
  ultimately show "px - x < w" using j(1) by (simp add: word_less_iff_unat)
next
  assume "px - x < w"
  then show "\<exists>j<unat w. x + of_nat j = px"
    by (intro exI [of _ "unat (px - x)"]) (simp add: word_less_iff_unat)
qed

lemma draw_rect_paint:
  assumes "drawable g" "on_screen g px py"
  shows "same_screen g (graphics_draw_rect x y w h color g) \<and>
    pixel (graphics_draw_rect x y w h color g) px py = (if px - x < w \<and> py - y < h then color else pixel g px py)"
proof -
  let ?row = "\<lambda>i. fold (\<lambda>j. graphics_put_pixel (x + of_nat j) (y + of_nat i) color) [0..<unat w]"
  have row: "same_screen k (?row i k) \<and> pixel (?row i k) px py =
      (if \<exists>j<unat w. x + of_nat j = px \<and> y + of_nat i = py then color else pixel k px py)"
    if "same_screen g k" for i k
  proof (rule fold_paint)
    fix j l assume "same_screen k l"
    then have "drawable l" "on_screen l px py" using that assms same_screenD same_screen_trans by blast+
    then show "same_screen l (graphics_put_pixel (x + of_nat j) (y + of_nat i) color l) \<and>
      pixel (graphics_put_pixel (x + of_nat j) (y + of_nat i) color l) px py =
        (if x + of_nat j = px \<and> y + of_nat i = py then color else pixel l px py)"
      using put_pixel_pixel put_pixel_screen by simp
  qed
  have "same_screen g (fold ?row [0..<unat h] g) \<and> pixel (fold ?row [0..<unat h] g) px py =
      (if \<exists>i<unat h. \<exists>j<unat w. x + of_nat j = px \<and> y + of_nat i = py then color else pixel g px py)"
    by (rule fold_paint) (rule row)
  moreover have "(\<exists>i<unat h. \<exists>j<unat w. x + of_nat j = px \<and> y + of_nat i = py) \<longleftrightarrow> px - x < w \<and> py - y < h"
    using offset_reached [of w x px] offset_reached [of h y py] by blast
  ultimately show ?thesis using assms(1) by (auto simp: graphics_draw_rect_def drawable_def)
qed

section \<open>Copying to the screen\<close>

text \<open>A 32-bit linear framebuffer in which no row overlaps the next.\<close>

definition screen_ok :: "gfx \<Rightarrow> bool" where
  "screen_ok g \<longleftrightarrow> fb_addr g \<noteq> 0 \<and> 4 * unat (fb_width g) \<le> unat (fb_pitch g) \<and>
     unat (fb_pitch g) * unat (fb_height g) < 2 ^ 31"

definition rect_small :: "rect_t \<Rightarrow> bool" where
  "rect_small r \<longleftrightarrow> \<bar>rx r\<bar> < 2 ^ 30 \<and> \<bar>ry r\<bar> < 2 ^ 30 \<and> \<bar>rw r\<bar> < 2 ^ 30 \<and> \<bar>rh r\<bar> < 2 ^ 30"

text \<open>Byte offsets into the framebuffer, and what a copy that starts at offset \<open>d\<close> does to offset \<open>k\<close>.\<close>

lemma blit_at:
  assumes "k < 2 ^ 32" "d < 2 ^ 32" "n < 2 ^ 32"
  shows "blit (a + of_nat d) bb i (of_nat n) m (a + of_nat k) =
    (if d \<le> k \<and> k < d + n then pixel_byte bb i (k - d) else m (a + of_nat k))"
proof -
  have n: "unat (of_nat n :: u64) = n" using assms(3) by (intro unat_of_nat_small) simp
  have sub: "a + of_nat k - (a + of_nat d) = of_nat k - (of_nat d :: u64)" by simp
  show ?thesis
  proof (cases "d \<le> k")
    case True
    then have "of_nat k - of_nat d = (of_nat (k - d) :: u64)" by (simp add: of_nat_diff)
    moreover have "unat (of_nat (k - d) :: u64) = k - d" using assms(1) by (intro unat_of_nat_small) simp
    ultimately show ?thesis using True n by (auto simp: blit_def sub word_less_iff_unat)
  next
    case False
    have "\<not> of_nat k - of_nat d < (of_nat n :: u64)"
    proof
      assume "of_nat k - of_nat d < (of_nat n :: u64)"
      define e where "e = unat (of_nat k - of_nat d :: u64)"
      have e: "e < n" "of_nat k - of_nat d = (of_nat e :: u64)"
        using \<open>of_nat k - of_nat d < _\<close> n by (simp_all add: e_def word_less_iff_unat)
      then have "(of_nat k :: u64) = of_nat (d + e)" by (simp add: algebra_simps)
      moreover have "unat (of_nat k :: u64) = k" using assms(1) by (intro unat_of_nat_small) simp
      moreover have "unat (of_nat (d + e) :: u64) = d + e" using assms e(1) by (intro unat_of_nat_small) simp
      ultimately show False using False by simp
    qed
    then show ?thesis using False by (simp add: blit_def sub)
  qed
qed

lemma pixel_byte_word:
  "ucast (pixel_byte bb i (4 * j)) OR push_bit 8 (ucast (pixel_byte bb i (4 * j + 1))) = (ucast (bb (i + j)) :: u16)"
  "ucast (pixel_byte bb i (4 * j + 2)) OR push_bit 8 (ucast (pixel_byte bb i (4 * j + 3))) =
    (ucast (drop_bit 16 (bb (i + j))) :: u16)"
proof -
  have "(4 * j + 1) div 4 = j" "(4 * j + 2) div 4 = j" "(4 * j + 3) div 4 = j"
    "(4 * j + 1) mod 4 = 1" "(4 * j + 2) mod 4 = 2" "(4 * j + 3) mod 4 = 3" by presburger+
  note quarters = this
  show "ucast (pixel_byte bb i (4 * j)) OR push_bit 8 (ucast (pixel_byte bb i (4 * j + 1))) = (ucast (bb (i + j)) :: u16)"
    "ucast (pixel_byte bb i (4 * j + 2)) OR push_bit 8 (ucast (pixel_byte bb i (4 * j + 3))) =
      (ucast (drop_bit 16 (bb (i + j))) :: u16)"
    unfolding pixel_byte_def quarters by (auto intro!: bit_word_eqI simp: bit_simps)
qed

lemma load32_pixel:
  assumes "\<And>b. b < 4 \<Longrightarrow> m (a + of_nat b) = pixel_byte bb i (4 * j + b)"
  shows "load32 m a = bb (i + j)"
proof -
  have "load16 m a = ucast (bb (i + j))" "load16 m (a + 2) = ucast (drop_bit 16 (bb (i + j)))"
    using assms [of 0] assms [of 1] assms [of 2] assms [of 3] pixel_byte_word [of bb i j]
    by (simp_all add: load16_def add.assoc)
  then show ?thesis by (auto intro!: bit_word_eqI simp: load32_def bit_simps)
qed

lemma load32_same:
  assumes "\<And>b. b < 4 \<Longrightarrow> m (a + of_nat b) = m' (a + of_nat b)"
  shows "load32 m a = load32 m' a"
  using assms [of 0] assms [of 1] assms [of 2] assms [of 3] by (simp add: load32_def load16_def add.assoc)

text \<open>One row, then one rectangle, of the copy, as seen at a point of the screen.\<close>

lemma swap_row_shown:
  assumes ok: "screen_ok g" "on_screen g px py" "drawable g" "backbuffer g = Some bb"
    and r: "0 \<le> rx r" "rx r + rw r \<le> sint (fb_width g)" "0 < rw r" "0 \<le> ry r"
    and row: "ry r + int row < sint (fb_height g)" and pos: "unat (fb_height g) < 2 ^ 31" "unat (fb_width g) < 2 ^ 31"
    and a: "a = fb_addr g + ucast py * ucast (fb_pitch g) + ucast px * 4"
  shows "load32 (swap_row g bb r row m) a =
    (if int (unat py) = ry r + int row \<and> rx r \<le> int (unat px) \<and> int (unat px) < rx r + rw r
     then pixel g px py else load32 m a)"
proof -
  define line x w where "line = nat (ry r + int row)" and "x = nat (rx r)" and "w = nat (rw r)"
  define W H P where "W = unat (fb_width g)" and "H = unat (fb_height g)" and "P = unat (fb_pitch g)"
  define Y X where "Y = unat py" and "X = unat px"
  have W: "sint (fb_width g) = int W" "sint (fb_height g) = int H"
    using pos by (simp_all add: W_def H_def sint_small)
  have "ry r + int row < int H" "rx r + rw r \<le> int W" using r row unfolding W by simp_all
  then have "line < H" "x + w \<le> W" "0 < w" using r by (simp_all add: line_def x_def w_def nat_less_iff)
  moreover have "Y < H" "X < W" "4 * W \<le> P" "P * H < 2 ^ 31"
    using ok(1,2) by (simp_all add: W_def H_def P_def Y_def X_def screen_ok_def on_screen_def word_less_iff_unat)
  ultimately have lt: "line < H" "x + w \<le> W" "Y < H" "X < W" "4 * W \<le> P" "P * H < 2 ^ 31" "0 < w" by blast+
  have off: "L * P + 4 * k < 2 ^ 31" if "L < H" "k < W" for L k
  proof -
    have "L * P + 4 * k < (L + 1) * P" using that lt by simp
    also have "\<dots> \<le> H * P" using that by (intro mult_le_mono1) simp
    finally show ?thesis using lt by (simp add: mult.commute)
  qed
  have "P * 1 \<le> P * H" using lt(3) by (intro mult_le_mono2) simp
  then have w4: "4 * w < 2 ^ 31" using lt by linarith
  have a': "a + of_nat b = fb_addr g + of_nat (Y * P + 4 * X + b)" for b
    by (simp add: a Y_def X_def P_def algebra_simps)
  have dst: "fb_addr g + (of_int (ry r + int row) :: u64) * ucast (fb_pitch g) + of_int (rx r) * 4 =
      fb_addr g + of_nat (line * P + 4 * x)" "(of_int (rw r) * 4 :: u64) = of_nat (4 * w)"
    using r by (simp_all add: line_def x_def w_def P_def algebra_simps)
  have src: "unat ((of_int (ry r + int row) :: u64) * ucast (fb_width g) + of_int (rx r)) = line * W + x"
  proof -
    have "(of_int (ry r + int row) :: u64) * ucast (fb_width g) + of_int (rx r) = of_nat (line * W + x)"
      using r by (simp add: line_def x_def W_def algebra_simps)
    moreover have "line * W + x \<le> line * P + 4 * x" using lt by (intro add_le_mono mult_le_mono) auto
    ultimately show ?thesis using off [of line x] lt by (simp add: unat_of_nat_small del: of_nat_add of_nat_mult)
  qed
  define i where "i = line * W + x"
  have at: "swap_row g bb r row m (a + of_nat b) =
      (if line * P + 4 * x \<le> Y * P + 4 * X + b \<and> Y * P + 4 * X + b < line * P + 4 * x + 4 * w
       then pixel_byte bb i (Y * P + 4 * X + b - (line * P + 4 * x)) else m (a + of_nat b))" if "b < 4" for b
    unfolding swap_row_def Let_def dst src a' i_def
    using off [of line x] off [of Y X] lt that w4 by (intro blit_at) auto
  have "int line = ry r + int row" "int x = rx r" "int w = rw r" using r by (simp_all add: line_def x_def w_def)
  then have cond: "int (unat py) = ry r + int row \<and> rx r \<le> int (unat px) \<and> int (unat px) < rx r + rw r \<longleftrightarrow>
      Y = line \<and> x \<le> X \<and> X < x + w"
    unfolding Y_def X_def by linarith
  show ?thesis
  proof (cases "Y = line \<and> x \<le> X \<and> X < x + w")
    case True
    have "load32 (swap_row g bb r row m) a = bb (i + (X - x))"
    proof (rule load32_pixel)
      fix b :: nat assume b: "b < 4"
      have "Y * P + 4 * X + b - (line * P + 4 * x) = 4 * (X - x) + b" using True by (simp add: diff_mult_distrib2)
      with at [OF b] True b show "swap_row g bb r row m (a + of_nat b) = pixel_byte bb i (4 * (X - x) + b)" by simp
    qed
    also have "i + (X - x) = unat (py * fb_width g + px)"
      using True pixel_index [OF ok(3,2)] by (simp add: i_def W_def Y_def X_def)
    finally show ?thesis unfolding cond using True ok(4) by (simp add: pixel_def)
  next
    case False
    have "load32 (swap_row g bb r row m) a = load32 m a"
    proof (rule load32_same)
      fix b :: nat assume b: "b < 4"
      have "\<not> (line * P + 4 * x \<le> Y * P + 4 * X + b \<and> Y * P + 4 * X + b < line * P + 4 * x + 4 * w)"
      proof (cases Y line rule: linorder_cases)
        case less
        then have "(Y + 1) * P \<le> line * P" by (intro mult_le_mono1) simp
        then show ?thesis using lt b by simp
      next
        case greater
        then have "(line + 1) * P \<le> Y * P" by (intro mult_le_mono1) simp
        then show ?thesis using lt b by simp
      next
        case equal
        then show ?thesis using False lt b by auto
      qed
      with at [OF b] show "swap_row g bb r row m (a + of_nat b) = m (a + of_nat b)" by simp
    qed
    then show ?thesis unfolding cond using False by auto
  qed
qed

lemma clip_extent:
  assumes "\<bar>k\<bar> < 2 ^ 30" "\<bar>n\<bar> < 2 ^ 30" "0 \<le> l" "l < 2 ^ 30"
  shows "i32 (min (k + n) l - max 0 k) = min (k + n) l - max 0 k"
proof (rule i32_small)
  show "min (k + n) l - max 0 k < 2 ^ 31" using assms by (auto simp: min_def max_def)
  show "- (2 ^ 31) \<le> min (k + n) l - max 0 k" using assms by (auto simp: min_def max_def)
qed

lemma swap_rect_shown:
  assumes ok: "screen_ok g" "on_screen g px py" "drawable g" "backbuffer g = Some bb" "rect_small r"
    and pos: "unat (fb_height g) < 2 ^ 30" "unat (fb_width g) < 2 ^ 30"
    and a: "a = fb_addr g + ucast py * ucast (fb_pitch g) + ucast px * 4"
  shows "load32 (swap_rect g bb r m) a =
    (if in_rect r (int (unat px)) (int (unat py)) then pixel g px py else load32 m a)"
proof -
  obtain v c where c: "clip_rect g r = (v, c)" by (cases "clip_rect g r")
  define W H X Y where "W = int (unat (fb_width g))" and "H = int (unat (fb_height g))"
    and "X = int (unat px)" and "Y = int (unat py)"
  have W: "sint (fb_width g) = W" "sint (fb_height g) = H"
    using pos by (simp_all add: W_def H_def sint_small)
  have bounds: "0 \<le> X" "X < W" "0 \<le> Y" "Y < H" "W < 2 ^ 30" "H < 2 ^ 30"
    using ok(2) pos unfolding W_def H_def X_def Y_def
    by (simp_all add: on_screen_def word_less_iff_unat del: of_nat_unat)
  have small: "i32 (rx r + rw r) = rx r + rw r" "i32 (ry r + rh r) = ry r + rh r"
    using ok(5) by (auto simp: rect_small_def)
  have clamp: "(if k < 0 then 0 else k) = max 0 k" "(if k > l then l else k) = min k l" for k l :: int by simp_all
  have extent: "i32 (min (rx r + rw r) W - max 0 (rx r)) = min (rx r + rw r) W - max 0 (rx r)"
    "i32 (min (ry r + rh r) H - max 0 (ry r)) = min (ry r + rh r) H - max 0 (ry r)"
    using ok(5) bounds by (simp_all add: clip_extent rect_small_def)
  have "clip_rect g r = (0 < min (rx r + rw r) W - max 0 (rx r) \<and> 0 < min (ry r + rh r) H - max 0 (ry r),
      \<lparr>rx = max 0 (rx r), ry = max 0 (ry r), rw = min (rx r + rw r) W - max 0 (rx r),
        rh = min (ry r + rh r) H - max 0 (ry r)\<rparr>)"
    unfolding clip_rect_def Let_def small W clamp extent ..
  then have cs: "rx c = max 0 (rx r)" "ry c = max 0 (ry r)" "rw c = min (rx r + rw r) W - rx c" "rh c = min (ry r + rh r) H - ry c"
    "v \<longleftrightarrow> 0 < rw c \<and> 0 < rh c"
    unfolding c prod.inject by simp_all
  have inside: "in_rect r X Y \<longleftrightarrow> in_rect c X Y" using bounds by (auto simp: in_rect_def cs(1-4))
  show ?thesis
  proof (cases v)
    case False
    then have "\<not> in_rect c X Y" using cs(5) by (auto simp: in_rect_def)
    with False c inside show ?thesis by (simp add: swap_rect_def X_def Y_def)
  next
    case True
    have row: "load32 (swap_row g bb c k t) a =
        (if Y = ry c + int k \<and> rx c \<le> X \<and> X < rx c + rw c then pixel g px py else load32 t a)"
      if "k < nat (rh c)" for k t
      unfolding X_def Y_def
      using True that cs bounds W ok pos a by (intro swap_row_shown) (auto simp: max_def min_def split: if_splits)
    have "load32 (fold (swap_row g bb c) [0..<n] m) a =
        (if (\<exists>k<n. Y = ry c + int k) \<and> rx c \<le> X \<and> X < rx c + rw c then pixel g px py else load32 m a)"
      if "n \<le> nat (rh c)" for n
      using that by (induction n) (auto simp: row less_Suc_eq)
    from this [of "nat (rh c)"] have "load32 (swap_rect g bb r m) a =
        (if (\<exists>k<nat (rh c). Y = ry c + int k) \<and> rx c \<le> X \<and> X < rx c + rw c then pixel g px py else load32 m a)"
      using True c by (simp add: swap_rect_def)
    moreover have "(\<exists>k<nat (rh c). Y = ry c + int k) \<longleftrightarrow> ry c \<le> Y \<and> Y < ry c + rh c"
      by (auto intro!: exI [of _ "nat (Y - ry c)"])
    ultimately show ?thesis using inside by (auto simp: in_rect_def X_def Y_def)
  qed
qed

lemma fold_swap_rect_shown:
  assumes "screen_ok g" "on_screen g px py" "drawable g" "backbuffer g = Some bb"
    and "unat (fb_height g) < 2 ^ 30" "unat (fb_width g) < 2 ^ 30"
    and "a = fb_addr g + ucast py * ucast (fb_pitch g) + ucast px * 4" "\<forall>r\<in>set rs. rect_small r"
  shows "load32 (fold (swap_rect g bb) rs m) a =
    (if \<exists>r\<in>set rs. in_rect r (int (unat px)) (int (unat py)) then pixel g px py else load32 m a)"
  using assms(8)
proof (induction rs arbitrary: m)
  case (Cons r rs)
  then have "load32 (swap_rect g bb r m) a =
      (if in_rect r (int (unat px)) (int (unat py)) then pixel g px py else load32 m a)"
    using assms by (intro swap_rect_shown) auto
  with Cons show ?case by simp
qed simp

section \<open>Properties\<close>

text \<open>Filling a rectangle paints exactly the points of the rectangle that lie on the screen, for every origin and size:
  coordinates wrap at 32 bits as the code computes them, nothing off the screen is written, no other pixel changes, and the
  geometry and the visible framebuffer stay.\<close>

theorem graphics_draw_rect_correct:
  assumes "drawable g" "on_screen g px py"
  shows "pixel (graphics_draw_rect x y w h color g) px py = (if px - x < w \<and> py - y < h then color else pixel g px py) \<and>
    same_screen g (graphics_draw_rect x y w h color g)"
  using draw_rect_paint [OF assms] by simp

text \<open>A screen of two by two pixels.\<close>

definition tiny_screen :: gfx where
  "tiny_screen = \<lparr>fb_addr = 0x1000, backbuffer = Some of_nat, fb_width = 2, fb_height = 2, fb_pitch = 8, fb_bpp = 32,
     framebuffer = (\<lambda>_. 0xFF)\<rparr>"

lemma tiny_screen_ok: "drawable tiny_screen" "screen_ok tiny_screen" "on_screen tiny_screen 1 1" "on_screen tiny_screen 1 0"
  by (simp_all add: drawable_def screen_ok_def on_screen_def tiny_screen_def)

theorem graphics_draw_rect_correct_witness:
  "pixel (graphics_draw_rect 0xFFFFFFFF 1 3 9 7 tiny_screen) 1 1 = 7 \<and>
   pixel (graphics_draw_rect 0xFFFFFFFF 1 3 9 7 tiny_screen) 1 0 = 1"
  using graphics_draw_rect_correct [OF tiny_screen_ok(1,3), of "0xFFFFFFFF" 1 3 9 7]
    graphics_draw_rect_correct [OF tiny_screen_ok(1,4), of "0xFFFFFFFF" 1 3 9 7]
  by (simp add: pixel_def tiny_screen_def)

text \<open>Copying rectangles to the screen: afterwards a point of the screen shows the back buffer if one of the rectangles
  contains it and what it showed before otherwise, for rectangles that reach over the edges too.\<close>

theorem graphics_swap_rects_correct:
  assumes "screen_ok g" "on_screen g px py" "drawable g"
    and "unat (fb_height g) < 2 ^ 30" "unat (fb_width g) < 2 ^ 30" "\<forall>r\<in>set rs. rect_small r"
  shows "shown (graphics_swap_rects rs g) px py =
    (if \<exists>r\<in>set rs. in_rect r (int (unat px)) (int (unat py)) then pixel g px py else shown g px py)"
proof -
  obtain bb where bb: "backbuffer g = Some bb" using assms(3) by (auto simp: drawable_def)
  show ?thesis
    using fold_swap_rect_shown [OF assms(1-3) bb assms(4,5) refl assms(6)] bb assms(1)
    by (simp add: graphics_swap_rects_def shown_def screen_ok_def)
qed

theorem graphics_swap_rects_correct_witness:
  "shown (graphics_swap_rects [\<lparr>rx = 1, ry = -1, rw = 5, rh = 3\<rparr>] tiny_screen) 1 1 = 3"
  using graphics_swap_rects_correct [OF tiny_screen_ok(2,3,1), of "[\<lparr>rx = 1, ry = -1, rw = 5, rh = 3\<rparr>]"]
  by (simp add: tiny_screen_def rect_small_def in_rect_def pixel_def)

text \<open>\<open>x + w\<close> wraps in the bounds test of the scanline copy: a line that starts close to \<open>2^32\<close> passes the test.\<close>

theorem draw_line_wraps:
  assumes "backbuffer g = Some bb" "x \<noteq> 0" "y < fb_height g" "unat x = 2 ^ 32 - unat w" "w \<noteq> 0"
  shows "\<exists>bb'. backbuffer (graphics_draw_line_buffer x y w line g) = Some bb' \<and>
    bb' (unat (ucast y * ucast (fb_width g) + ucast x :: u64)) = line 0"
proof -
  have "x + w = 0" using assms(4) unsigned_less [of w, where 'a = nat] by (simp add: word_unat_eq_iff unat_word_ariths)
  moreover have "\<not> fb_height g \<le> y" "0 < unat w" using assms(3,5) by (simp_all add: unat_gt_0)
  ultimately show ?thesis using assms(1) by (simp add: graphics_draw_line_buffer_def Let_def)
qed

end
