(* ===== verification/Window.thy ===== *)
theory Window
  imports Graphics Links
begin

text \<open>
  The window manager of src/kernel/window.c: the linked list of windows and their reference
  counts, the dirty rectangles, the event ring of a window, mouse handling and compositing. Windows
  live in a store indexed by their address; kmalloc and kfree are the ones of \<open>Kmalloc\<close>. A result None of
  an operation is a loop that does not end on a damaged list.
\<close>

section \<open>State\<close>

record gui_event_t =
  ev_type :: u32
  ev_x :: u32
  ev_y :: u32
  ev_data :: u32

record window_t =
  win_id :: u32
  win_x :: u32
  win_y :: u32
  win_w :: u32
  win_h :: u32
  title_color :: u32
  bg_color :: u32
  win_buffer :: u64
  owner_pid :: u64
  win_dirty :: bool
  destroyed :: bool
  refcount :: u32
  event_queue :: "gui_event_t carray"
  event_head :: u8
  event_tail :: u8
  win_next :: u64

record window_snapshot_t =
  snap_x :: u32
  snap_y :: u32
  snap_w :: u32
  snap_h :: u32
  snap_title_color :: u32
  snap_bg_color :: u32
  snap_buffer :: u64

record window_hit_t =
  hit_win :: u64
  local_x :: u32
  local_y :: u32
  in_title :: bool
  in_body :: bool

text \<open>\<open>dirty_rects\<close> is the part of the array below \<open>dirty_count\<close>.\<close>

record win_state =
  wins :: "u64 \<Rightarrow> window_t"
  window_list :: u64
  next_window_id :: u32
  dirty_rects :: "rect_t list"
  cursor_x :: int
  cursor_y :: int
  cursor_initialized :: bool
  dragging_window :: u64
  drag_off_x :: int
  drag_off_y :: int
  last_mb :: u8
  last_mx :: int
  last_my :: int
  win_heap :: kmalloc_state
  screen :: gfx

definition DESKTOP_COLOR :: u32 where "DESKTOP_COLOR = 0xFF112233"
definition WINDOW_TITLE_HEIGHT :: int where "WINDOW_TITLE_HEIGHT = 25"
definition WINDOW_SHADOW_OFFSET :: int where "WINDOW_SHADOW_OFFSET = 5"
definition CURSOR_W :: int where "CURSOR_W = 10"
definition CURSOR_H :: int where "CURSOR_H = 15"
definition WINDOW_MAX_DIRTY_RECTS :: nat where "WINDOW_MAX_DIRTY_RECTS = 32"

text \<open>\<open>sizeof(window_t)\<close> on x86_64.\<close>

definition WINDOW_SIZE :: u64 where "WINDOW_SIZE = 328"

definition upd_win :: "u64 \<Rightarrow> (window_t \<Rightarrow> window_t) \<Rightarrow> win_state \<Rightarrow> win_state" where
  "upd_win p f s = s\<lparr>wins := (wins s)(p := f (wins s p))\<rparr>"

section \<open>Rectangles\<close>

definition make_rect :: "int \<Rightarrow> int \<Rightarrow> int \<Rightarrow> int \<Rightarrow> rect_t" where
  "make_rect x y w h = \<lparr>rx = x, ry = y, rw = w, rh = h\<rparr>"

definition rect_union :: "rect_t \<Rightarrow> rect_t \<Rightarrow> rect_t" where
  "rect_union a b =
     (let x1 = (if rx a < rx b then rx a else rx b);
          y1 = (if ry a < ry b then ry a else ry b);
          x2 = (if i32 (rx a + rw a) > i32 (rx b + rw b) then i32 (rx a + rw a) else i32 (rx b + rw b));
          y2 = (if i32 (ry a + rh a) > i32 (ry b + rh b) then i32 (ry a + rh a) else i32 (ry b + rh b))
      in make_rect x1 y1 (i32 (x2 - x1)) (i32 (y2 - y1)))"

definition rect_intersect :: "rect_t \<Rightarrow> rect_t \<Rightarrow> rect_t option" where
  "rect_intersect a b =
     (let x1 = (if rx a > rx b then rx a else rx b);
          y1 = (if ry a > ry b then ry a else ry b);
          x2 = (if i32 (rx a + rw a) < i32 (rx b + rw b) then i32 (rx a + rw a) else i32 (rx b + rw b));
          y2 = (if i32 (ry a + rh a) < i32 (ry b + rh b) then i32 (ry a + rh a) else i32 (ry b + rh b))
      in if x2 \<le> x1 \<or> y2 \<le> y1 then None
         else Some (make_rect x1 y1 (i32 (x2 - x1)) (i32 (y2 - y1))))"

definition window_outer_rect :: "window_t \<Rightarrow> rect_t" where
  "window_outer_rect w = make_rect (sint (win_x w)) (sint (win_y w))
     (i32 (sint (win_w w) + WINDOW_SHADOW_OFFSET)) (i32 (sint (win_h w) + WINDOW_SHADOW_OFFSET))"

definition cursor_rect :: "int \<Rightarrow> int \<Rightarrow> rect_t" where
  "cursor_rect x y = make_rect x y CURSOR_W CURSOR_H"

definition screen_rect :: "win_state \<Rightarrow> rect_t" where
  "screen_rect s = make_rect 0 0 (sint (graphics_get_width (screen s))) (sint (graphics_get_height (screen s)))"

section \<open>Dirty rectangles\<close>

text \<open>The first rectangle that overlaps the new one grows to cover it.\<close>

fun merge_dirty :: "rect_t \<Rightarrow> rect_t list \<Rightarrow> rect_t list option" where
  "merge_dirty clipped [] = None"
| "merge_dirty clipped (r # rs) =
     (case rect_intersect r clipped of
        Some _ \<Rightarrow> Some (rect_union r clipped # rs)
      | None \<Rightarrow> map_option ((#) r) (merge_dirty clipped rs))"

definition queue_dirty_rect :: "rect_t \<Rightarrow> win_state \<Rightarrow> win_state" where
  "queue_dirty_rect rect s =
     (case rect_intersect rect (screen_rect s) of
        None \<Rightarrow> s
      | Some clipped \<Rightarrow>
          (case merge_dirty clipped (dirty_rects s) of
             Some rs \<Rightarrow> s\<lparr>dirty_rects := rs\<rparr>
           | None \<Rightarrow>
               if length (dirty_rects s) < WINDOW_MAX_DIRTY_RECTS
               then s\<lparr>dirty_rects := dirty_rects s @ [clipped]\<rparr>
               else s\<lparr>dirty_rects := [rect_union (hd (dirty_rects s)) clipped]\<rparr>))"

section \<open>Reference counts\<close>

definition free_window :: "u64 \<Rightarrow> win_state \<Rightarrow> win_state option" where
  "free_window w s =
     (if w = 0 then Some s
      else case (if win_buffer (wins s w) \<noteq> 0 then kfree (win_buffer (wins s w)) (win_heap s) else Some (win_heap s)) of
             None \<Rightarrow> None
           | Some h \<Rightarrow> map_option (\<lambda>h'. s\<lparr>win_heap := h'\<rparr>) (kfree w h))"

definition retain_window_locked :: "u64 \<Rightarrow> win_state \<Rightarrow> win_state" where
  "retain_window_locked w s = (if w = 0 then s else upd_win w (\<lambda>v. v\<lparr>refcount := refcount v + 1\<rparr>) s)"

definition release_window_locked :: "u64 \<Rightarrow> win_state \<Rightarrow> win_state option" where
  "release_window_locked w s =
     (if w = 0 \<or> refcount (wins s w) = 0 then Some s
      else let s1 = upd_win w (\<lambda>v. v\<lparr>refcount := refcount v - 1\<rparr>) s
           in if destroyed (wins s1 w) \<and> refcount (wins s1 w) = 0 then free_window w s1 else Some s1)"

definition snapshot :: "window_t \<Rightarrow> window_snapshot_t" where
  "snapshot w = \<lparr>snap_x = win_x w, snap_y = win_y w, snap_w = win_w w, snap_h = win_h w,
     snap_title_color = title_color w, snap_bg_color = bg_color w, snap_buffer = win_buffer w\<rparr>"

text \<open>The held windows with their snapshots, in list order, at most \<open>n\<close> of them.\<close>

fun snapshot_from :: "nat \<Rightarrow> u64 \<Rightarrow> win_state \<Rightarrow> (u64 \<times> window_snapshot_t) list \<times> win_state" where
  "snapshot_from 0 cur s = ([], s)"
| "snapshot_from (Suc n) cur s =
     (if cur = 0 then ([], s)
      else let s1 = retain_window_locked cur s;
               (rest, s2) = snapshot_from n (win_next (wins s1 cur)) s1
           in ((cur, snapshot (wins s1 cur)) # rest, s2))"

definition snapshot_window_list :: "nat \<Rightarrow> win_state \<Rightarrow> (u64 \<times> window_snapshot_t) list \<times> win_state" where
  "snapshot_window_list max_count s = snapshot_from max_count (window_list s) s"

fun release_window_refs_locked :: "u64 list \<Rightarrow> win_state \<Rightarrow> win_state option" where
  "release_window_refs_locked [] s = Some s"
| "release_window_refs_locked (w # ws) s =
     Option.bind (release_window_locked w s) (release_window_refs_locked ws)"

section \<open>Hit test\<close>

definition no_hit :: window_hit_t where
  "no_hit = \<lparr>hit_win = 0, local_x = 0, local_y = 0, in_title = False, in_body = False\<rparr>"

text \<open>The right and lower edges are 32-bit sums, compared as signed numbers.\<close>

definition snap_contains :: "window_snapshot_t \<Rightarrow> int \<Rightarrow> int \<Rightarrow> bool" where
  "snap_contains v mx my \<longleftrightarrow>
     \<not> (mx < sint (snap_x v) \<or> mx \<ge> sint (snap_x v + snap_w v)) \<and>
     \<not> (my < sint (snap_y v) \<or> my \<ge> sint (snap_y v + snap_h v))"

fun find_window_hit :: "(u64 \<times> window_snapshot_t) list \<Rightarrow> int \<Rightarrow> int \<Rightarrow> window_hit_t" where
  "find_window_hit [] mx my = no_hit"
| "find_window_hit ((w, v) # rest) mx my =
     (if \<not> snap_contains v mx my then find_window_hit rest mx my
      else if my < i32 (sint (snap_y v) + WINDOW_TITLE_HEIGHT)
      then \<lparr>hit_win = w, local_x = of_int (i32 (mx - sint (snap_x v))),
            local_y = of_int (i32 (my - sint (snap_y v))), in_title = True, in_body = False\<rparr>
      else \<lparr>hit_win = w, local_x = of_int (i32 (mx - sint (snap_x v))),
            local_y = of_int (i32 (i32 (my - sint (snap_y v)) - WINDOW_TITLE_HEIGHT)), in_title = False, in_body = True\<rparr>)"

section \<open>Operations on windows\<close>

definition window_init :: "win_state \<Rightarrow> win_state" where
  "window_init s =
     (let s1 = s\<lparr>window_list := 0, dirty_rects := [], cursor_initialized := False\<rparr>
      in queue_dirty_rect (screen_rect s1) s1)"

text \<open>The result of kmalloc is used without a test.\<close>

definition window_create :: "u32 \<Rightarrow> u32 \<Rightarrow> u32 \<Rightarrow> u32 \<Rightarrow> u32 \<Rightarrow> win_state \<Rightarrow> (u64 \<times> win_state) option" where
  "window_create x y w h bg s =
     (case kmalloc WINDOW_SIZE (win_heap s) of
        None \<Rightarrow> None
      | Some (p, heap') \<Rightarrow>
          (let s1 = upd_win p (\<lambda>v. v\<lparr>win_id := next_window_id s, win_x := x, win_y := y, win_w := w, win_h := h,
                 bg_color := bg, title_color := 0xFF555555, win_buffer := 0, owner_pid := 0, win_dirty := True,
                 destroyed := False, refcount := 0, event_head := 0, event_tail := 0, win_next := window_list s\<rparr>)
                 (s\<lparr>win_heap := heap', next_window_id := next_window_id s + 1\<rparr>);
               s2 = s1\<lparr>window_list := p\<rparr>
           in Some (p, queue_dirty_rect (window_outer_rect (wins s2 p)) s2)))"

definition window_mark_dirty :: "u64 \<Rightarrow> win_state \<Rightarrow> win_state" where
  "window_mark_dirty p s =
     (if p = 0 then s
      else let s1 = upd_win p (\<lambda>v. v\<lparr>win_dirty := True\<rparr>) s in queue_dirty_rect (window_outer_rect (wins s1 p)) s1)"

definition window_mark_region_dirty :: "u64 \<Rightarrow> int \<Rightarrow> int \<Rightarrow> int \<Rightarrow> int \<Rightarrow> win_state \<Rightarrow> win_state" where
  "window_mark_region_dirty p x y w h s =
     (if p = 0 then s
      else let s1 = upd_win p (\<lambda>v. v\<lparr>win_dirty := True\<rparr>) s
           in queue_dirty_rect (make_rect (i32 (sint (win_x (wins s1 p)) + x))
                (i32 (i32 (sint (win_y (wins s1 p)) + WINDOW_TITLE_HEIGHT) + y)) w h) s1)"

definition window_needs_redraw :: "win_state \<Rightarrow> bool" where
  "window_needs_redraw s \<longleftrightarrow> length (dirty_rects s) \<noteq> 0"

definition window_push_event :: "gui_event_t \<Rightarrow> window_t \<Rightarrow> window_t" where
  "window_push_event e w =
     (let nxt = (event_tail w + 1) mod 16
      in if nxt = event_head w then w
         else w\<lparr>event_queue := (event_queue w)(unat (event_tail w) := e), event_tail := nxt\<rparr>)"

partial_function (option) get_by_id_from :: "u32 \<Rightarrow> u64 \<Rightarrow> win_state \<Rightarrow> u64 option" where
  "get_by_id_from i cur s =
     (if cur = 0 then Some 0
      else if win_id (wins s cur) = i then Some (if destroyed (wins s cur) then 0 else cur)
      else get_by_id_from i (win_next (wins s cur)) s)"

definition window_get_by_id :: "u32 \<Rightarrow> win_state \<Rightarrow> u64 option" where
  "window_get_by_id i s = get_by_id_from i (window_list s) s"

definition window_set_owner :: "u64 \<Rightarrow> u64 \<Rightarrow> win_state \<Rightarrow> win_state" where
  "window_set_owner p pid s =
     (if p = 0 then s
      else if destroyed (wins s p) then s else upd_win p (\<lambda>v. v\<lparr>owner_pid := pid\<rparr>) s)"

definition window_set_buffer :: "u64 \<Rightarrow> u64 \<Rightarrow> win_state \<Rightarrow> win_state" where
  "window_set_buffer p buf s =
     (if p = 0 then s
      else if destroyed (wins s p) then s
      else let s1 = upd_win p (\<lambda>v. v\<lparr>win_buffer := buf, win_dirty := True\<rparr>) s
           in queue_dirty_rect (window_outer_rect (wins s1 p)) s1)"

text \<open>The next event of a ring, and the walk to the window that owns it: 1 with an event, 0 when empty, -1 when there
  is no such window.\<close>

definition pop_event :: "window_t \<Rightarrow> (gui_event_t \<times> window_t) option" where
  "pop_event w =
     (if event_head w = event_tail w then None
      else Some (event_queue w (unat (event_head w)), w\<lparr>event_head := (event_head w + 1) mod 16\<rparr>))"

partial_function (option) pop_event_from :: "u32 \<Rightarrow> u64 \<Rightarrow> win_state \<Rightarrow> (int \<times> gui_event_t option \<times> win_state) option" where
  "pop_event_from i cur s =
     (if cur = 0 then Some (-1, None, s)
      else if win_id (wins s cur) = i
      then if destroyed (wins s cur) then Some (-1, None, s)
           else case pop_event (wins s cur) of
                  None \<Rightarrow> Some (0, None, s)
                | Some (e, w) \<Rightarrow> Some (1, Some e, upd_win cur (\<lambda>_. w) s)
      else pop_event_from i (win_next (wins s cur)) s)"

definition window_pop_event :: "u32 \<Rightarrow> win_state \<Rightarrow> (int \<times> gui_event_t option \<times> win_state) option" where
  "window_pop_event i s = pop_event_from i (window_list s) s"

definition unlink_window :: "u64 \<Rightarrow> u64 \<Rightarrow> win_state \<Rightarrow> win_state" where
  "unlink_window prev cur s =
     (let s1 = (if prev \<noteq> 0 then upd_win prev (\<lambda>v. v\<lparr>win_next := win_next (wins s cur)\<rparr>) s
                else s\<lparr>window_list := win_next (wins s cur)\<rparr>)
      in if dragging_window s1 = cur then s1\<lparr>dragging_window := 0\<rparr> else s1)"

partial_function (option) destroy_from :: "u64 \<Rightarrow> u64 \<Rightarrow> u64 \<Rightarrow> win_state \<Rightarrow> win_state option" where
  "destroy_from pid prev cur s =
     (if cur = 0 then Some s
      else if owner_pid (wins s cur) = pid
      then let s1 = unlink_window prev cur (queue_dirty_rect (window_outer_rect (wins s cur)) s);
               nxt = win_next (wins s1 cur);
               s2 = upd_win cur (\<lambda>v. v\<lparr>destroyed := True\<rparr>) s1
           in case (if refcount (wins s2 cur) = 0 then free_window cur s2 else Some s2) of
                None \<Rightarrow> None
              | Some s3 \<Rightarrow> destroy_from pid prev nxt s3
      else destroy_from pid cur (win_next (wins s cur)) s)"

definition window_destroy_by_pid :: "u64 \<Rightarrow> win_state \<Rightarrow> win_state option" where
  "window_destroy_by_pid pid s = destroy_from pid 0 (window_list s) s"

section \<open>Mouse handling\<close>

text \<open>
  \<open>window_update\<close> takes the lock twice: it first holds the windows it looks at, then acts on them. The
  mouse position and buttons are arguments. The parts of the second critical section come first.
\<close>

partial_function (option) find_prev :: "u64 \<Rightarrow> u64 \<Rightarrow> win_state \<Rightarrow> u64 option" where
  "find_prev w prev s =
     (if prev \<noteq> 0 \<and> win_next (wins s prev) \<noteq> w then find_prev w (win_next (wins s prev)) s else Some prev)"

definition raise_window :: "u64 \<Rightarrow> win_state \<Rightarrow> win_state option" where
  "raise_window w s =
     (if w = window_list s then Some s
      else map_option (\<lambda>prev.
          if prev = 0 then s
          else let old_rect = window_outer_rect (wins s w);
                   s1 = upd_win prev (\<lambda>v. v\<lparr>win_next := win_next (wins s w)\<rparr>) s;
                   s2 = upd_win w (\<lambda>v. v\<lparr>win_next := window_list s1\<rparr>) s1;
                   s3 = queue_dirty_rect old_rect (s2\<lparr>window_list := w\<rparr>)
               in queue_dirty_rect (window_outer_rect (wins s3 w)) s3)
        (find_prev w (window_list s) s))"

definition mouse_event :: "u32 \<Rightarrow> u32 \<Rightarrow> int \<Rightarrow> int \<Rightarrow> window_t \<Rightarrow> gui_event_t" where
  "mouse_event kind data mx my w = \<lparr>ev_type = kind, ev_x = of_int (i32 (mx - sint (win_x w))),
     ev_y = of_int (i32 (i32 (my - sint (win_y w)) - WINDOW_TITLE_HEIGHT)), ev_data = data\<rparr>"

definition press_window :: "window_hit_t \<Rightarrow> int \<Rightarrow> int \<Rightarrow> win_state \<Rightarrow> win_state option" where
  "press_window hit mx my s =
     (let w = hit_win hit
      in if w = 0 \<or> destroyed (wins s w) then Some s
         else if in_title hit
         then raise_window w (s\<lparr>dragging_window := w, drag_off_x := i32 (mx - sint (win_x (wins s w))),
                drag_off_y := i32 (my - sint (win_y (wins s w)))\<rparr>)
         else if in_body hit \<and> last_mb s AND 1 = 0
         then Some (upd_win w (\<lambda>v. window_push_event (mouse_event 1 1 mx my v) v) s)
         else Some s)"

definition drag_window :: "int \<Rightarrow> int \<Rightarrow> win_state \<Rightarrow> win_state" where
  "drag_window mx my s =
     (let w = dragging_window s
      in if destroyed (wins s w) then s\<lparr>dragging_window := 0\<rparr>
         else let old_rect = window_outer_rect (wins s w);
                  s1 = upd_win w (\<lambda>v. v\<lparr>win_x := of_int (i32 (mx - drag_off_x s)),
                         win_y := of_int (i32 (my - drag_off_y s)), win_dirty := True\<rparr>) s;
                  s2 = queue_dirty_rect old_rect s1
              in queue_dirty_rect (window_outer_rect (wins s2 w)) s2)"

definition move_mouse :: "window_hit_t \<Rightarrow> int \<Rightarrow> int \<Rightarrow> win_state \<Rightarrow> win_state" where
  "move_mouse hit mx my s =
     (let s1 = queue_dirty_rect (cursor_rect (cursor_x s) (cursor_y s)) s;
          s2 = queue_dirty_rect (cursor_rect mx my) s1;
          w = hit_win hit
      in if w \<noteq> 0 \<and> in_body hit \<and> \<not> destroyed (wins s2 w)
         then upd_win w (\<lambda>v. window_push_event (mouse_event 2 0 mx my v) v) s2 else s2)"

text \<open>The values that live across the two critical sections.\<close>

record update_locals =
  held_windows :: "(u64 \<times> window_snapshot_t) list"
  drag_candidate :: u64
  cursor_was_initialized :: bool

definition update_hold :: "int \<Rightarrow> int \<Rightarrow> win_state \<Rightarrow> update_locals \<times> win_state" where
  "update_hold mx my s =
     (let s1 = (if cursor_initialized s then s else s\<lparr>cursor_initialized := True, cursor_x := mx, cursor_y := my\<rparr>);
          (held, s2) = snapshot_window_list 16 s1
      in (\<lparr>held_windows = held, drag_candidate = dragging_window s1,
           cursor_was_initialized = cursor_initialized s\<rparr>, s2))"

definition update_act :: "update_locals \<Rightarrow> int \<Rightarrow> int \<Rightarrow> u8 \<Rightarrow> win_state \<Rightarrow> win_state option" where
  "update_act l mx my mb s =
     (let moved = (mx \<noteq> last_mx s \<or> my \<noteq> last_my s);
          press_hit = (if mb AND 1 \<noteq> 0 \<and> drag_candidate l = 0 then find_window_hit (held_windows l) mx my else no_hit);
          move_hit = (if moved then find_window_hit (held_windows l) mx my else no_hit);
          s1 = (if cursor_was_initialized l then s else queue_dirty_rect (cursor_rect mx my) s)
      in case (if mb AND 1 \<noteq> 0
               then if dragging_window s1 = 0 then press_window press_hit mx my s1 else Some (drag_window mx my s1)
               else Some (s1\<lparr>dragging_window := 0\<rparr>)) of
           None \<Rightarrow> None
         | Some s2 \<Rightarrow>
             (let s3 = (if moved then move_mouse move_hit mx my s2 else s2);
                  s4 = s3\<lparr>cursor_x := mx, cursor_y := my, last_mb := mb, last_mx := mx, last_my := my\<rparr>
              in map_option (\<lambda>s5. if dragging_window s5 \<noteq> 0 \<and> destroyed (wins s5 (dragging_window s5))
                     then s5\<lparr>dragging_window := 0\<rparr> else s5)
                   (release_window_refs_locked (map fst (held_windows l)) s4)))"

definition window_update :: "int \<Rightarrow> int \<Rightarrow> u8 \<Rightarrow> win_state \<Rightarrow> win_state option" where
  "window_update mx my mb s =
     (if cursor_initialized s \<and> dragging_window s = 0 \<and> mx = last_mx s \<and> my = last_my s \<and> mb = last_mb s then Some s
      else let (l, s1) = update_hold mx my s in update_act l mx my mb s1)"

section \<open>Compositing\<close>

definition draw_rect_clipped :: "rect_t \<Rightarrow> int \<Rightarrow> int \<Rightarrow> int \<Rightarrow> int \<Rightarrow> u32 \<Rightarrow> gfx \<Rightarrow> gfx" where
  "draw_rect_clipped clip x y w h color g =
     (case rect_intersect clip (make_rect x y w h) of
        None \<Rightarrow> g
      | Some i \<Rightarrow> graphics_draw_rect (of_int (rx i)) (of_int (ry i)) (of_int (rw i)) (of_int (rh i)) color g)"

text \<open>A window without a buffer is filled; otherwise its pixels are read from memory, row by row.\<close>

definition draw_window_buffer_clipped :: "memory \<Rightarrow> rect_t \<Rightarrow> window_snapshot_t \<Rightarrow> gfx \<Rightarrow> gfx" where
  "draw_window_buffer_clipped m clip v g =
     (let x0 = sint (snap_x v);
          y0 = i32 (sint (snap_y v) + WINDOW_TITLE_HEIGHT);
          w = sint (snap_w v);
          h = i32 (sint (snap_h v) - WINDOW_TITLE_HEIGHT)
      in if snap_buffer v = 0 then draw_rect_clipped clip x0 y0 w h (snap_bg_color v) g
         else case rect_intersect clip (make_rect x0 y0 w h) of
                None \<Rightarrow> g
              | Some i \<Rightarrow>
                  (let src_x = i32 (rx i - x0); src_y = i32 (ry i - y0)
                   in fold (\<lambda>y. fold (\<lambda>x g.
                        let idx = of_int (src_y + int y) * ucast (snap_w v) + of_int (src_x + int x) :: u64;
                            color = load32 m (snap_buffer v + 4 * idx)
                        in graphics_put_pixel (of_int (rx i + int x)) (of_int (ry i + int y)) color g)
                      [0..<nat (rw i)]) [0..<nat (rh i)] g))"

definition draw_window_clipped :: "memory \<Rightarrow> rect_t \<Rightarrow> window_snapshot_t \<Rightarrow> gfx \<Rightarrow> gfx" where
  "draw_window_clipped m clip v g =
     (let x = sint (snap_x v); y = sint (snap_y v); w = sint (snap_w v); h = sint (snap_h v);
          g = draw_rect_clipped clip (i32 (x + WINDOW_SHADOW_OFFSET)) (i32 (y + WINDOW_SHADOW_OFFSET)) w h 0xAA000000 g;
          g = draw_window_buffer_clipped m clip v g;
          g = draw_rect_clipped clip x y w WINDOW_TITLE_HEIGHT (snap_title_color v) g;
          g = draw_rect_clipped clip x y w 1 0xFFFFFFFF g;
          g = draw_rect_clipped clip x (i32 (i32 (y + h) - 1)) w 1 0xFFFFFFFF g;
          g = draw_rect_clipped clip x y 1 h 0xFFFFFFFF g
      in draw_rect_clipped clip (i32 (i32 (x + w) - 1)) y 1 h 0xFFFFFFFF g)"

text \<open>The windows are painted back to front into every dirty rectangle, then the cursor, if it lies in one of them, and
  the rectangles are copied to the screen.\<close>

definition redraw_rect :: "memory \<Rightarrow> window_snapshot_t list \<Rightarrow> rect_t \<Rightarrow> gfx \<Rightarrow> gfx" where
  "redraw_rect m snaps r g =
     fold (draw_window_clipped m r) (rev snaps) (graphics_clear_rect (rx r) (ry r) (rw r) (rh r) DESKTOP_COLOR g)"

definition draw_hold :: "win_state \<Rightarrow> (rect_t list \<times> (u64 \<times> window_snapshot_t) list) \<times> win_state" where
  "draw_hold s =
     (let (held, s1) = snapshot_window_list 16 (s\<lparr>dirty_rects := []\<rparr>) in ((dirty_rects s, held), s1))"

definition draw_paint :: "memory \<Rightarrow> rect_t list \<Rightarrow> window_snapshot_t list \<Rightarrow> rect_t \<Rightarrow> gfx \<Rightarrow> gfx" where
  "draw_paint m redraw snaps cursor g =
     (let g1 = fold (redraw_rect m snaps) redraw g;
          g2 = (if \<exists>r\<in>set redraw. rect_intersect r cursor \<noteq> None
                then graphics_draw_cursor (of_int (rx cursor)) (of_int (ry cursor)) g1 else g1)
      in graphics_swap_rects redraw g2)"

definition window_draw_all :: "memory \<Rightarrow> win_state \<Rightarrow> win_state option" where
  "window_draw_all m s =
     (if dirty_rects s = [] then Some s
      else let ((redraw, held), s1) = draw_hold s;
               cursor = cursor_rect (cursor_x s1) (cursor_y s1);
               s2 = s1\<lparr>screen := draw_paint m redraw (map snd held) cursor (screen s1)\<rparr>
           in release_window_refs_locked (map fst held) s2)"

section \<open>What a rectangle covers\<close>

lemma rect_small_edges: "rect_small r \<Longrightarrow> i32 (rx r + rw r) = rx r + rw r" "rect_small r \<Longrightarrow> i32 (ry r + rh r) = ry r + rh r"
  by (auto simp: rect_small_def)

lemma rect_intersect_None:
  assumes "rect_small a" "rect_small b" "rect_intersect a b = None"
  shows "\<not> (in_rect a x y \<and> in_rect b x y)"
proof -
  have i: "i32 (rx a + rw a) = rx a + rw a" "i32 (ry a + rh a) = ry a + rh a"
    "i32 (rx b + rw b) = rx b + rw b" "i32 (ry b + rh b) = ry b + rh b"
    using assms(1,2) by (simp_all add: rect_small_edges)
  show ?thesis using assms(3) unfolding rect_intersect_def Let_def i
    by (auto simp: in_rect_def split: if_splits)
qed

lemma rect_intersect_Some:
  assumes "rect_small a" "rect_small b" "rect_intersect a b = Some c"
  shows "in_rect c x y \<longleftrightarrow> in_rect a x y \<and> in_rect b x y" "0 < rw c" "0 < rh c"
proof -
  define X1 Y1 X2 Y2 where "X1 = max (rx a) (rx b)" and "Y1 = max (ry a) (ry b)"
    and "X2 = min (rx a + rw a) (rx b + rw b)" and "Y2 = min (ry a + rh a) (ry b + rh b)"
  have i: "i32 (rx a + rw a) = rx a + rw a" "i32 (ry a + rh a) = ry a + rh a"
    "i32 (rx b + rw b) = rx b + rw b" "i32 (ry b + rh b) = ry b + rh b"
    using assms(1,2) by (simp_all add: rect_small_edges)
  have corner: "(if k > l then k else l) = max k l" "(if k < l then k else l) = min k l" for k l :: int by simp_all
  have eq: "rect_intersect a b = (if X2 \<le> X1 \<or> Y2 \<le> Y1 then None else Some (make_rect X1 Y1 (i32 (X2 - X1)) (i32 (Y2 - Y1))))"
    unfolding rect_intersect_def Let_def i corner X1_def X2_def Y1_def Y2_def ..
  have lt: "X1 < X2" "Y1 < Y2" using assms(3) unfolding eq by (simp_all split: if_splits)
  have "X2 - X1 \<le> rw a" "Y2 - Y1 \<le> rh a" by (simp_all add: X1_def X2_def Y1_def Y2_def)
  then have "X2 - X1 < 2 ^ 31" "Y2 - Y1 < 2 ^ 31" using assms(1) by (auto simp: rect_small_def)
  then have "i32 (X2 - X1) = X2 - X1" "i32 (Y2 - Y1) = Y2 - Y1" using lt by simp_all
  then have c: "c = make_rect X1 Y1 (X2 - X1) (Y2 - Y1)" using assms(3) lt unfolding eq by simp
  show "in_rect c x y \<longleftrightarrow> in_rect a x y \<and> in_rect b x y"
    by (auto simp: c make_rect_def in_rect_def X1_def X2_def Y1_def Y2_def)
  show "0 < rw c" "0 < rh c" using lt by (simp_all add: c make_rect_def)
qed

text \<open>A rectangle that lies within a screen of the given size and is not empty.\<close>

definition rect_within :: "int \<Rightarrow> int \<Rightarrow> rect_t \<Rightarrow> bool" where
  "rect_within W H r \<longleftrightarrow> 0 \<le> rx r \<and> 0 \<le> ry r \<and> 0 < rw r \<and> 0 < rh r \<and> rx r + rw r \<le> W \<and> ry r + rh r \<le> H"

lemma rect_within_small: "rect_within W H r \<Longrightarrow> W < 2 ^ 30 \<Longrightarrow> H < 2 ^ 30 \<Longrightarrow> rect_small r"
  by (auto simp: rect_within_def rect_small_def)

lemma rect_union_covers:
  assumes "rect_within W H a" "rect_within W H b" "W < 2 ^ 30" "H < 2 ^ 30"
  shows "rect_within W H (rect_union a b)" "in_rect a x y \<or> in_rect b x y \<Longrightarrow> in_rect (rect_union a b) x y"
proof -
  define X1 Y1 X2 Y2 where "X1 = min (rx a) (rx b)" and "Y1 = min (ry a) (ry b)"
    and "X2 = max (rx a + rw a) (rx b + rw b)" and "Y2 = max (ry a + rh a) (ry b + rh b)"
  note small = rect_within_small [OF assms(1,3,4)] rect_within_small [OF assms(2-4)]
  have i: "i32 (rx a + rw a) = rx a + rw a" "i32 (ry a + rh a) = ry a + rh a"
    "i32 (rx b + rw b) = rx b + rw b" "i32 (ry b + rh b) = ry b + rh b"
    using small by (simp_all add: rect_small_edges)
  have corner: "(if k > l then k else l) = max k l" "(if k < l then k else l) = min k l" for k l :: int by simp_all
  have X: "0 \<le> X1" "X1 < X2" "X2 \<le> W" "0 \<le> Y1" "Y1 < Y2" "Y2 \<le> H"
    using assms(1,2) by (auto simp: rect_within_def X1_def X2_def Y1_def Y2_def min_def max_def)
  then have "i32 (X2 - X1) = X2 - X1" "i32 (Y2 - Y1) = Y2 - Y1" using assms(3,4) by simp_all
  then have u: "rect_union a b = make_rect X1 Y1 (X2 - X1) (Y2 - Y1)"
    unfolding rect_union_def Let_def i corner X1_def X2_def Y1_def Y2_def by simp
  show "rect_within W H (rect_union a b)" using X by (simp add: u rect_within_def make_rect_def)
  show "in_rect a x y \<or> in_rect b x y \<Longrightarrow> in_rect (rect_union a b) x y"
    by (auto simp: u make_rect_def in_rect_def X1_def X2_def Y1_def Y2_def)
qed

lemma merge_dirty_covers:
  assumes "merge_dirty c rs = Some rs'" "\<forall>r\<in>set rs. rect_within W H r" "rect_within W H c" "W < 2 ^ 30" "H < 2 ^ 30"
  shows "(\<forall>r\<in>set rs'. rect_within W H r) \<and> length rs' = length rs \<and>
    ((\<exists>r\<in>set rs. in_rect r x y) \<or> in_rect c x y \<longrightarrow> (\<exists>r\<in>set rs'. in_rect r x y))"
  using assms(1,2)
proof (induction rs arbitrary: rs')
  case (Cons r rs)
  show ?case
  proof (cases "rect_intersect r c")
    case None
    then obtain ts where "rs' = r # ts" "merge_dirty c rs = Some ts" using Cons.prems(1) by auto
    with Cons show ?thesis by auto
  next
    case (Some o')
    then have "rs' = rect_union r c # rs" using Cons.prems(1) by simp
    then show ?thesis using rect_union_covers [OF _ assms(3-5), of r] Cons.prems(2) by auto
  qed
qed simp

definition covered :: "rect_t list \<Rightarrow> int \<Rightarrow> int \<Rightarrow> bool" where
  "covered rs x y \<longleftrightarrow> (\<exists>r\<in>set rs. in_rect r x y)"

definition dirty_ok :: "win_state \<Rightarrow> bool" where
  "dirty_ok s \<longleftrightarrow> unat (fb_width (screen s)) < 2 ^ 30 \<and> unat (fb_height (screen s)) < 2 ^ 30 \<and>
     length (dirty_rects s) \<le> WINDOW_MAX_DIRTY_RECTS \<and>
     (\<forall>r\<in>set (dirty_rects s). rect_within (sint (fb_width (screen s))) (sint (fb_height (screen s))) r)"

lemma queue_dirty_frame [simp]:
  "wins (queue_dirty_rect r s) = wins s" "window_list (queue_dirty_rect r s) = window_list s"
  "dragging_window (queue_dirty_rect r s) = dragging_window s" "win_heap (queue_dirty_rect r s) = win_heap s"
  "screen (queue_dirty_rect r s) = screen s" "next_window_id (queue_dirty_rect r s) = next_window_id s"
  by (simp_all add: queue_dirty_rect_def split: option.splits)

lemma queue_dirty_covers:
  assumes "dirty_ok s" "rect_small rect"
  shows "dirty_ok (queue_dirty_rect rect s)"
    and "length (dirty_rects s) < WINDOW_MAX_DIRTY_RECTS \<Longrightarrow>
      covered (dirty_rects s) x y \<or> in_rect rect x y \<and> in_rect (screen_rect s) x y \<Longrightarrow>
      covered (dirty_rects (queue_dirty_rect rect s)) x y"
proof -
  define W H where "W = sint (fb_width (screen s))" and "H = sint (fb_height (screen s))"
  have W: "0 \<le> W" "W < 2 ^ 30" "0 \<le> H" "H < 2 ^ 30"
    using assms(1) by (auto simp: dirty_ok_def W_def H_def sint_small simp del: of_nat_unat)
  have ok: "\<forall>r\<in>set (dirty_rects s). rect_within W H r" "length (dirty_rects s) \<le> WINDOW_MAX_DIRTY_RECTS"
    using assms(1) by (simp_all add: dirty_ok_def W_def H_def)
  have scr: "screen_rect s = make_rect 0 0 W H"
    by (simp add: screen_rect_def W_def H_def graphics_get_width_def graphics_get_height_def)
  have small: "rect_small (screen_rect s)" using W by (simp add: scr make_rect_def rect_small_def)
  have "dirty_ok (queue_dirty_rect rect s) \<and>
    (length (dirty_rects s) < WINDOW_MAX_DIRTY_RECTS \<longrightarrow>
      covered (dirty_rects s) x y \<or> in_rect rect x y \<and> in_rect (screen_rect s) x y \<longrightarrow>
      covered (dirty_rects (queue_dirty_rect rect s)) x y)"
  proof (cases "rect_intersect rect (screen_rect s)")
    case None
    then show ?thesis
      using assms rect_intersect_None [OF assms(2) small None] by (auto simp: queue_dirty_rect_def)
  next
    case (Some c)
    note cut = rect_intersect_Some [OF assms(2) small Some]
    have c: "rect_within W H c"
      using cut(2,3) cut(1) [of "rx c" "ry c"] cut(1) [of "rx c + rw c - 1" "ry c + rh c - 1"]
      by (simp add: scr make_rect_def in_rect_def rect_within_def)
    show ?thesis
    proof (cases "merge_dirty c (dirty_rects s)")
      case None
      have "length (dirty_rects s) = WINDOW_MAX_DIRTY_RECTS \<Longrightarrow> rect_within W H (rect_union (hd (dirty_rects s)) c)"
        using ok(1) c W by (intro rect_union_covers; cases "dirty_rects s") (auto simp: WINDOW_MAX_DIRTY_RECTS_def)
      with None show ?thesis
        using assms(1) ok c cut Some unfolding dirty_ok_def covered_def W_def H_def
        by (auto simp: queue_dirty_rect_def WINDOW_MAX_DIRTY_RECTS_def)
    next
      case m: (Some rs')
      from merge_dirty_covers [OF m ok(1) c W(2,4)] show ?thesis
        using assms(1) ok cut m Some unfolding dirty_ok_def covered_def W_def H_def
        by (auto simp: queue_dirty_rect_def)
    qed
  qed
  then show "dirty_ok (queue_dirty_rect rect s)"
    and "length (dirty_rects s) < WINDOW_MAX_DIRTY_RECTS \<Longrightarrow>
      covered (dirty_rects s) x y \<or> in_rect rect x y \<and> in_rect (screen_rect s) x y \<Longrightarrow>
      covered (dirty_rects (queue_dirty_rect rect s)) x y" by blast+
qed

section \<open>The event ring\<close>

text \<open>
  A bounded queue: an operation that adds an element unless the queue is full, and one that takes
  the oldest. Whatever is called in whatever order, elements come out in the order they were
  accepted, none lost and none twice.
\<close>

datatype 'e queue_call = Push 'e | Pop

locale bounded_fifo =
  fixes push :: "'e \<Rightarrow> 'q \<Rightarrow> 'q"
    and pop :: "'q \<Rightarrow> ('e \<times> 'q) option"
    and contents :: "'q \<Rightarrow> 'e list"
    and ok :: "'q \<Rightarrow> bool"
    and cap :: nat
  assumes push_ok: "ok q \<Longrightarrow> ok (push e q) \<and>
      contents (push e q) = (if length (contents q) < cap then contents q @ [e] else contents q)"
    and pop_empty: "ok q \<Longrightarrow> contents q = [] \<Longrightarrow> pop q = None"
    and pop_first: "ok q \<Longrightarrow> contents q = e # es \<Longrightarrow> \<exists>q'. pop q = Some (e, q') \<and> ok q' \<and> contents q' = es"
    and within: "ok q \<Longrightarrow> length (contents q) \<le> cap"
begin

text \<open>The accepted pushes and the results of the pops of a sequence of calls, with the final queue.\<close>

fun calls :: "'e queue_call list \<Rightarrow> 'q \<Rightarrow> 'e list \<times> 'e list \<times> 'q" where
  "calls [] q = ([], [], q)"
| "calls (Push e # cs) q =
     (let (ins, outs, q') = calls cs (push e q)
      in (if length (contents q) < cap then e # ins else ins, outs, q'))"
| "calls (Pop # cs) q =
     (case pop q of
        None \<Rightarrow> calls cs q
      | Some (e, q1) \<Rightarrow> let (ins, outs, q') = calls cs q1 in (ins, e # outs, q'))"

lemma calls_order:
  "ok q \<Longrightarrow> calls cs q = (ins, outs, q') \<Longrightarrow> ok q' \<and> outs @ contents q' = contents q @ ins"
proof (induction cs arbitrary: q ins outs)
  case (Cons c cs)
  show ?case
  proof (cases c)
    case (Push e)
    with Cons push_ok [of q e] show ?thesis by (auto simp: Let_def split: prod.splits if_splits)
  next
    case Pop
    show ?thesis
    proof (cases "contents q")
      case Nil
      with Cons Pop pop_empty show ?thesis by simp
    next
      case c: (Cons e es)
      then obtain q1 where q1: "pop q = Some (e, q1)" "ok q1" "contents q1 = es" using pop_first Cons.prems(1) by blast
      obtain ins1 outs1 q2 where r: "calls cs q1 = (ins1, outs1, q2)" by (metis prod_cases3)
      with Cons.prems(2) Pop q1(1) have "ins = ins1" "outs = e # outs1" "q' = q2" by auto
      with Cons.IH [OF q1(2)] r q1(3) c show ?thesis by auto
    qed
  qed
qed simp

end

definition ring_ok :: "window_t \<Rightarrow> bool" where
  "ring_ok w \<longleftrightarrow> unat (event_head w) < 16 \<and> unat (event_tail w) < 16"

definition ring_length :: "window_t \<Rightarrow> nat" where
  "ring_length w = (unat (event_tail w) + 16 - unat (event_head w)) mod 16"

definition events :: "window_t \<Rightarrow> gui_event_t list" where
  "events w = map (\<lambda>k. event_queue w ((unat (event_head w) + k) mod 16)) [0..<ring_length w]"

text \<open>Indices modulo the ring size, without division.\<close>

lemma ring_index:
  "h < (16 :: nat) \<Longrightarrow> t < 16 \<Longrightarrow> (t + 16 - h) mod 16 = (if h \<le> t then t - h else t + 16 - h)"
  "h < (16 :: nat) \<Longrightarrow> k < 16 \<Longrightarrow> (h + k) mod 16 = (if h + k < 16 then h + k else h + k - 16)"
  "h < (16 :: nat) \<Longrightarrow> (h + 1) mod 16 = (if h = 15 then 0 else h + 1)"
  by (auto simp: mod_if)

lemma unat_ring_next: "unat (i :: u8) < 16 \<Longrightarrow> unat ((i + 1) mod 16) = (unat i + 1) mod 16"
  by (simp add: unat_mod unat_word_ariths mod_if)

lemma ring_push:
  assumes "ring_ok w"
  shows "ring_ok (window_push_event e w)"
    "events (window_push_event e w) = (if length (events w) < 15 then events w @ [e] else events w)"
proof -
  define h t where "h = unat (event_head w)" and "t = unat (event_tail w)"
  have ht: "h < 16" "t < 16" using assms by (simp_all add: ring_ok_def h_def t_def)
  have nx: "unat ((event_tail w + 1) mod 16) = (t + 1) mod 16" using ht by (simp add: t_def unat_ring_next)
  have full: "(event_tail w + 1) mod 16 = event_head w \<longleftrightarrow> (t + 1) mod 16 = h"
    using nx by (simp add: h_def word_unat_eq_iff)
  have len: "length (events w) = (t + 16 - h) mod 16" by (simp add: events_def ring_length_def h_def t_def)
  have lt: "(t + 16 - h) mod 16 < 15 \<longleftrightarrow> (t + 1) mod 16 \<noteq> h"
    unfolding ring_index(1) [OF ht] ring_index(3) [OF ht(2)] using ht by auto
  show "ring_ok (window_push_event e w)"
    using assms nx by (simp add: window_push_event_def Let_def ring_ok_def)
  show "events (window_push_event e w) = (if length (events w) < 15 then events w @ [e] else events w)"
  proof (cases "(t + 1) mod 16 = h")
    case True
    then show ?thesis using full len lt by (simp add: window_push_event_def Let_def)
  next
    case False
    define n where "n = (t + 16 - h) mod 16"
    have nd: "n = (if h \<le> t then t - h else t + 16 - h)" unfolding n_def by (rule ring_index(1) [OF ht])
    have t1: "(t + 1) mod 16 < 16" by simp
    have n: "((t + 1) mod 16 + 16 - h) mod 16 = Suc n"
      unfolding ring_index(1) [OF ht(1) t1] using False ht unfolding nd ring_index(3) [OF ht(2)] by auto
    have hn: "(h + n) mod 16 = t"
      using ht nd by (subst ring_index(2)) auto
    have old: "(h + k) mod 16 \<noteq> t" if "k < n" for k
      using that ht nd by (subst ring_index(2)) (auto split: if_splits)
    have "events (window_push_event e w) =
        map (\<lambda>k. ((event_queue w)(t := e)) ((h + k) mod 16)) [0..<Suc n]"
      using False full nx n by (simp add: window_push_event_def Let_def events_def ring_length_def h_def t_def)
    also have "\<dots> = events w @ [e]"
      using old hn by (simp add: events_def ring_length_def n_def h_def [symmetric] t_def [symmetric])
    finally show ?thesis using len lt False by simp
  qed
qed

lemma ring_pop:
  assumes "ring_ok w"
  shows "events w = [] \<Longrightarrow> pop_event w = None"
    "events w = e # es \<Longrightarrow> \<exists>w'. pop_event w = Some (e, w') \<and> ring_ok w' \<and> events w' = es"
proof -
  define h t where "h = unat (event_head w)" and "t = unat (event_tail w)"
  have ht: "h < 16" "t < 16" using assms by (simp_all add: ring_ok_def h_def t_def)
  have nx: "unat ((event_head w + 1) mod 16) = (h + 1) mod 16" using ht by (simp add: h_def unat_ring_next)
  have empty: "event_head w = event_tail w \<longleftrightarrow> h = t" by (simp add: h_def t_def word_unat_eq_iff)
  have ev: "events w = map (\<lambda>k. event_queue w ((h + k) mod 16)) [0..<(t + 16 - h) mod 16]"
    by (simp add: events_def ring_length_def h_def t_def)
  have zero: "(t + 16 - h) mod 16 = 0 \<longleftrightarrow> h = t" unfolding ring_index(1) [OF ht] using ht by auto
  show "events w = [] \<Longrightarrow> pop_event w = None" using ev empty zero by (simp add: pop_event_def)
  assume c: "events w = e # es"
  then have "h \<noteq> t" using ev zero by auto
  then obtain n where n: "(t + 16 - h) mod 16 = Suc n" using zero by (cases "(t + 16 - h) mod 16") auto
  have h1: "(h + 1) mod 16 < 16" by simp
  have n': "(t + 16 - (h + 1) mod 16) mod 16 = n"
    using n \<open>h \<noteq> t\<close> ht unfolding ring_index(1) [OF ht] ring_index(1) [OF h1 ht(2)]
    unfolding ring_index(3) [OF ht(1)] by (auto split: if_splits)
  have step: "(Suc h mod 16 + k) mod 16 = Suc (h + k) mod 16" for k
    using mod_add_left_eq [of "Suc h" 16 k] by simp
  let ?w = "w\<lparr>event_head := (event_head w + 1) mod 16\<rparr>"
  have "events w = event_queue w h # map (\<lambda>k. event_queue w ((h + Suc k) mod 16)) [0..<n]"
    using ht(1) unfolding ev n by (simp add: upt_conv_Cons map_Suc_upt [symmetric] del: upt_Suc)
  then have "e = event_queue w h" "es = map (\<lambda>k. event_queue w ((h + Suc k) mod 16)) [0..<n]" using c by simp_all
  moreover have "events ?w = map (\<lambda>k. event_queue w ((h + Suc k) mod 16)) [0..<n]"
    using n' by (simp add: events_def ring_length_def nx step t_def [symmetric])
  moreover have "pop_event w = Some (event_queue w h, ?w)"
    using \<open>h \<noteq> t\<close> empty by (simp add: pop_event_def h_def)
  moreover have "ring_ok ?w" using assms nx by (simp add: ring_ok_def)
  ultimately show "\<exists>w'. pop_event w = Some (e, w') \<and> ring_ok w' \<and> events w' = es" by blast
qed

interpretation ring: bounded_fifo window_push_event pop_event events ring_ok 15
proof unfold_locales
  fix q :: window_t and e es
  show "ring_ok q \<Longrightarrow> ring_ok (window_push_event e q) \<and>
      events (window_push_event e q) = (if length (events q) < 15 then events q @ [e] else events q)"
    using ring_push by blast
  show "ring_ok q \<Longrightarrow> events q = [] \<Longrightarrow> pop_event q = None" by (rule ring_pop)
  show "ring_ok q \<Longrightarrow> events q = e # es \<Longrightarrow> \<exists>q'. pop_event q = Some (e, q') \<and> ring_ok q' \<and> events q' = es"
    by (rule ring_pop)
  show "ring_ok q \<Longrightarrow> length (events q) \<le> 15"
    by (simp add: events_def ring_length_def less_Suc_eq_le [symmetric])
qed

section \<open>The window list and the heap\<close>

definition nexts :: "win_state \<Rightarrow> u64 \<Rightarrow> u64" where
  "nexts s = (\<lambda>p. win_next (wins s p))"

text \<open>The heap blocks of a window, everything but its link, and the allocated addresses.\<close>

definition cells :: "win_state \<Rightarrow> u64 \<Rightarrow> u64 list" where
  "cells s p = (if win_buffer (wins s p) \<noteq> 0 then [win_buffer (wins s p), p] else [p])"

definition body :: "window_t \<Rightarrow> window_t" where
  "body w = w\<lparr>win_next := 0\<rparr>"

definition alive :: "kmalloc_state \<Rightarrow> u64 set" where
  "alive h = {p. \<exists>m. (unat p, m) \<in> heap_live h}"

definition win_list_ok :: "win_state \<Rightarrow> u64 list \<Rightarrow> bool" where
  "win_list_ok s ps \<longleftrightarrow> chain (nexts s) (window_list s) ps \<and> (\<forall>p\<in>set ps. \<not> destroyed (wins s p)) \<and>
     heap_inv (win_heap s) \<and> distinct (concat (map (cells s) ps)) \<and> set (concat (map (cells s) ps)) \<subseteq> alive (win_heap s)"

lemma cells_cong [simp]: "cells (queue_dirty_rect r s) = cells s" "cells (s\<lparr>win_heap := h\<rparr>) = cells s"
  by (rule ext, simp add: cells_def)+

lemma kfree_alive:
  assumes "heap_inv h" "p \<in> alive h"
  shows "\<exists>h'. kfree p h = Some h' \<and> heap_inv h' \<and> alive h' = alive h - {p}"
proof -
  obtain m where m: "(unat p, m) \<in> heap_live h" using assms(2) by (auto simp: alive_def)
  then obtain h' where h': "kfree p h = Some h'" "heap_inv h'" "heap_live h' = heap_live h - {(unat p, m)}"
    using heap.free_block [OF assms(1)] by blast
  have "k = m" if "(unat p, k) \<in> heap_live h" for k
    using heap.blocks_apart [OF assms(1) that m] by auto
  then have "alive h' = alive h - {p}"
    unfolding alive_def h'(3) by (auto simp: word_unat_eq_iff)
  with h' show ?thesis by blast
qed

lemma kmalloc_alive:
  assumes "heap_inv h"
  shows "\<exists>p h'. kmalloc n h = Some (p, h') \<and> heap_inv h' \<and>
    (if p = 0 then alive h' = alive h else p \<notin> alive h \<and> alive h' = insert p (alive h))"
proof -
  obtain p h' where h': "kmalloc n h = Some (p, h')" "heap_inv h'" using heap.malloc_returns [OF assms] by blast
  show ?thesis
  proof (cases "p = 0")
    case True
    then show ?thesis using h' heap.malloc_null [OF assms] by (auto simp: alive_def)
  next
    case False
    obtain m where "heap_live h' = insert (unat p, m) (heap_live h)" "\<forall>k. (unat p, k) \<notin> heap_live h"
      using heap.malloc_block [OF assms h'(1) False] by blast
    then have "p \<notin> alive h \<and> alive h' = insert p (alive h)" by (auto simp: alive_def word_unat_eq_iff)
    with h' False show ?thesis by auto
  qed
qed

lemma free_window_ok:
  assumes "heap_inv (win_heap s)" "distinct (cells s p)" "set (cells s p) \<subseteq> alive (win_heap s)" "p \<noteq> 0"
  shows "\<exists>h'. free_window p s = Some (s\<lparr>win_heap := h'\<rparr>) \<and> heap_inv h' \<and> alive h' = alive (win_heap s) - set (cells s p)"
proof (cases "win_buffer (wins s p) = 0")
  case True
  then obtain h' where "kfree p (win_heap s) = Some h'" "heap_inv h'" "alive h' = alive (win_heap s) - {p}"
    using kfree_alive [OF assms(1), of p] assms(3) by (auto simp: cells_def)
  then show ?thesis using True assms(4) by (intro exI [of _ h']) (simp add: free_window_def cells_def)
next
  case False
  let ?b = "win_buffer (wins s p)"
  obtain h1 where h1: "kfree ?b (win_heap s) = Some h1" "heap_inv h1" "alive h1 = alive (win_heap s) - {?b}"
    using kfree_alive [OF assms(1), of ?b] assms(3) False by (auto simp: cells_def)
  moreover have "p \<in> alive h1" using h1(3) assms(2,3) False by (auto simp: cells_def)
  then obtain h' where "kfree p h1 = Some h'" "heap_inv h'" "alive h' = alive h1 - {p}"
    using kfree_alive [OF h1(2)] by blast
  ultimately show ?thesis using False assms(4) by (auto simp: free_window_def cells_def)
qed

lemma nexts_upd_win: "nexts (upd_win p f s) = (nexts s)(p := win_next (f (wins s p)))"
  by (auto simp: nexts_def upd_win_def)

lemma upd_win_frame [simp]:
  "window_list (upd_win p f s) = window_list s" "win_heap (upd_win p f s) = win_heap s"
  "dragging_window (upd_win p f s) = dragging_window s" "wins (upd_win p f s) q = (if q = p then f (wins s p) else wins s q)"
  "screen (upd_win p f s) = screen s" "dirty_rects (upd_win p f s) = dirty_rects s"
  "next_window_id (upd_win p f s) = next_window_id s"
  by (simp_all add: upd_win_def)

lemma nexts_cong [simp]:
  "nexts (queue_dirty_rect r s) = nexts s" "nexts (s\<lparr>win_heap := h\<rparr>) = nexts s"
  "nexts (s\<lparr>window_list := p\<rparr>) = nexts s" "nexts (s\<lparr>dragging_window := p\<rparr>) = nexts s"
  by (simp_all add: nexts_def)

lemma body_fields:
  assumes "body v = body w"
  shows "win_buffer v = win_buffer w" "owner_pid v = owner_pid w" "refcount v = refcount w"
    "destroyed v = destroyed w" "win_id v = win_id w" "event_queue v = event_queue w"
proof -
  show "win_buffer v = win_buffer w" using arg_cong [OF assms, of win_buffer] by (simp add: body_def)
  show "owner_pid v = owner_pid w" using arg_cong [OF assms, of owner_pid] by (simp add: body_def)
  show "refcount v = refcount w" using arg_cong [OF assms, of refcount] by (simp add: body_def)
  show "destroyed v = destroyed w" using arg_cong [OF assms, of destroyed] by (simp add: body_def)
  show "win_id v = win_id w" using arg_cong [OF assms, of win_id] by (simp add: body_def)
  show "event_queue v = event_queue w" using arg_cong [OF assms, of event_queue] by (simp add: body_def)
qed

lemma body_cells: "body (wins s p) = body (wins t p) \<Longrightarrow> cells s p = cells t p"
  by (drule body_fields(1)) (simp add: cells_def)

text \<open>What taking a window out of the list does to the chain.\<close>

lemma unlink_chain:
  assumes "chain (nexts s) (window_list s) (as @ q # rest)" "prev = (if as = [] then 0 else last as)"
  shows "chain (nexts (unlink_window prev q s)) (window_list (unlink_window prev q s)) (as @ rest)"
    "body (wins (unlink_window prev q s) r) = body (wins s r)"
    "win_next (wins (unlink_window prev q s) q) = win_next (wins s q)"
    "win_heap (unlink_window prev q s) = win_heap s"
    "dragging_window (unlink_window prev q s) = (if dragging_window s = q then 0 else dragging_window s)"
proof -
  show "body (wins (unlink_window prev q s) r) = body (wins s r)" "win_heap (unlink_window prev q s) = win_heap s"
    "dragging_window (unlink_window prev q s) = (if dragging_window s = q then 0 else dragging_window s)"
    by (simp_all add: unlink_window_def Let_def body_def)
  have "chain (nexts (unlink_window prev q s)) (window_list (unlink_window prev q s)) (as @ rest) \<and>
    win_next (wins (unlink_window prev q s) q) = win_next (wins s q)"
  proof (cases as rule: rev_cases)
    case Nil
    then show ?thesis using assms by (simp add: unlink_window_def Let_def) (simp add: nexts_def)
  next
    case (snoc as' a)
    have a: "prev = a" using assms(2) snoc by simp
    have "a \<noteq> 0" using chain_nonzero [OF assms(1)] snoc by auto
    moreover have "a \<noteq> q" using chain_distinct [OF assms(1)] snoc by auto
    moreover have "chain ((nexts s)(a := nexts s q)) (window_list s) (as' @ a # rest)"
      using assms(1) snoc by (intro chain_unlink) simp
    ultimately show ?thesis using a snoc
      by (simp add: unlink_window_def Let_def nexts_upd_win) (simp add: nexts_def)
  qed
  then show "chain (nexts (unlink_window prev q s)) (window_list (unlink_window prev q s)) (as @ rest)"
    "win_next (wins (unlink_window prev q s) q) = win_next (wins s q)" by blast+
qed

definition victims :: "u64 \<Rightarrow> win_state \<Rightarrow> u64 list \<Rightarrow> u64 list" where
  "victims pid s ps = filter (\<lambda>p. owner_pid (wins s p) = pid) ps"

text \<open>The blocks released at once: those of the victims nobody holds.\<close>

definition freed_cells :: "u64 \<Rightarrow> win_state \<Rightarrow> u64 list \<Rightarrow> u64 set" where
  "freed_cells pid s ps = (\<Union>p\<in>{p\<in>set (victims pid s ps). refcount (wins s p) = 0}. set (cells s p))"

text \<open>One victim, at the head of what is left of the list.\<close>

lemma destroy_step:
  assumes c: "chain (nexts s) (window_list s) (as @ q # rest)" "prev = (if as = [] then 0 else last as)"
    and victim: "owner_pid (wins s q) = pid"
    and heap: "heap_inv (win_heap s)" "distinct (cells s q)" "set (cells s q) \<subseteq> alive (win_heap s)"
  obtains s' where "destroy_from pid prev q s = destroy_from pid prev (nexts s q) s'"
    "chain (nexts s') (window_list s') (as @ rest)" "heap_inv (win_heap s')"
    "alive (win_heap s') = alive (win_heap s) - (if refcount (wins s q) = 0 then set (cells s q) else {})"
    "\<And>r. body (wins s' r) = body (if r = q then (wins s q)\<lparr>destroyed := True\<rparr> else wins s r)"
    "dragging_window s' = (if dragging_window s = q then 0 else dragging_window s)"
proof -
  define s0 where "s0 = queue_dirty_rect (window_outer_rect (wins s q)) s"
  define s1 where "s1 = unlink_window prev q s0"
  define s2 where "s2 = upd_win q (\<lambda>v. v\<lparr>destroyed := True\<rparr>) s1"
  have "chain (nexts s0) (window_list s0) (as @ q # rest)" using c(1) by (simp add: s0_def)
  note u = unlink_chain [OF this c(2), folded s1_def]
  have q0: "q \<noteq> 0" using chain_nonzero [OF c(1)] by auto
  have nx: "win_next (wins s1 q) = nexts s q" using u(3) by (simp add: s0_def nexts_def)
  have b1: "body (wins s1 r) = body (wins s r)" for r using u(2) by (simp add: s0_def)
  have n2: "nexts s2 = nexts s1" by (auto simp: s2_def nexts_upd_win nexts_def)
  have b2: "body (wins s2 r) = body (if r = q then (wins s q)\<lparr>destroyed := True\<rparr> else wins s r)" for r
  proof (cases "r = q")
    case True
    have "body ((wins s1 q)\<lparr>destroyed := True\<rparr>) = (body (wins s1 q))\<lparr>destroyed := True\<rparr>"
      "body ((wins s q)\<lparr>destroyed := True\<rparr>) = (body (wins s q))\<lparr>destroyed := True\<rparr>" by (simp_all add: body_def)
    with True b1 [of q] show ?thesis by (simp add: s2_def)
  qed (use b1 in \<open>simp add: s2_def\<close>)
  have cell2: "cells s2 q = cells s q" using body_fields(1) [OF b2 [of q]] by (simp add: cells_def)
  have ref2: "refcount (wins s2 q) = refcount (wins s q)" using body_fields(3) [OF b2 [of q]] by simp
  have h2: "win_heap s2 = win_heap s" using u(4) by (simp add: s2_def s0_def)
  have step: "destroy_from pid prev q s =
      (case (if refcount (wins s2 q) = 0 then free_window q s2 else Some s2) of
         None \<Rightarrow> None | Some s3 \<Rightarrow> destroy_from pid prev (nexts s q) s3)"
    using q0 victim by (subst destroy_from.simps) (simp add: Let_def s2_def s1_def s0_def nx [unfolded s1_def s0_def] cong: option.case_cong)
  have chain2: "chain (nexts s2) (window_list s2) (as @ rest)" unfolding n2 using u(1) by (simp add: s2_def)
  have drag2: "dragging_window s2 = (if dragging_window s = q then 0 else dragging_window s)"
    using u(5) by (simp add: s2_def s0_def)
  show thesis
  proof (cases "refcount (wins s q) = 0")
    case True
    obtain h' where h': "free_window q s2 = Some (s2\<lparr>win_heap := h'\<rparr>)" "heap_inv h'"
      "alive h' = alive (win_heap s2) - set (cells s2 q)"
      using free_window_ok [of s2 q] heap q0 by (auto simp: h2 cell2)
    show thesis
      by (rule that [of "s2\<lparr>win_heap := h'\<rparr>"]) (use True step ref2 h' chain2 drag2 b2 cell2 h2 in simp_all)
  next
    case False
    show thesis by (rule that [of s2]) (use False step ref2 chain2 drag2 b2 heap h2 in simp_all)
  qed
qed

lemma freed_cells_subset: "freed_cells pid s ps \<subseteq> set (concat (map (cells s) ps))"
  by (auto simp: freed_cells_def victims_def)

lemma freed_cells_Cons: "freed_cells pid s (q # ps) =
    (if owner_pid (wins s q) = pid \<and> refcount (wins s q) = 0 then set (cells s q) else {}) \<union> freed_cells pid s ps"
  by (auto simp: freed_cells_def victims_def)

lemma freed_cells_cong:
  assumes "\<And>q. q \<in> set ps \<Longrightarrow> body (wins t q) = body (wins s q)"
  shows "freed_cells pid t ps = freed_cells pid s ps"
proof -
  have "owner_pid (wins t q) = owner_pid (wins s q) \<and> refcount (wins t q) = refcount (wins s q) \<and> cells t q = cells s q"
    if "q \<in> set ps" for q
    using body_fields(2,3) [OF assms [OF that]] body_cells [OF assms [OF that]] by simp
  then show ?thesis unfolding freed_cells_def victims_def by (intro SUP_cong) auto
qed

lemma destroy_from_list:
  "chain (nexts s) (window_list s) (as @ rest) \<Longrightarrow> prev = (if as = [] then 0 else last as) \<Longrightarrow>
   cur = (if rest = [] then 0 else hd rest) \<Longrightarrow> heap_inv (win_heap s) \<Longrightarrow>
   distinct (concat (map (cells s) rest)) \<Longrightarrow> set (concat (map (cells s) rest)) \<subseteq> alive (win_heap s) \<Longrightarrow>
   \<exists>s'. destroy_from pid prev cur s = Some s' \<and>
     chain (nexts s') (window_list s') (as @ filter (\<lambda>p. owner_pid (wins s p) \<noteq> pid) rest) \<and>
     heap_inv (win_heap s') \<and> alive (win_heap s') = alive (win_heap s) - freed_cells pid s rest \<and>
     (\<forall>p. body (wins s' p) = body (if p \<in> set (victims pid s rest) then (wins s p)\<lparr>destroyed := True\<rparr> else wins s p)) \<and>
     dragging_window s' = (if dragging_window s \<in> set (victims pid s rest) then 0 else dragging_window s)"
proof (induction rest arbitrary: as prev cur s)
  case Nil
  then show ?case by (subst destroy_from.simps) (simp add: freed_cells_def victims_def)
next
  case (Cons q rest)
  have q0: "q \<noteq> 0" using chain_nonzero [OF Cons.prems(1)] by auto
  have dist: "q \<notin> set rest" using chain_distinct [OF Cons.prems(1)] by auto
  have nx: "nexts s q = (if rest = [] then 0 else hd rest)"
    using chain_suffix [OF Cons.prems(1)] q0 by (cases rest) auto
  show ?case
  proof (cases "owner_pid (wins s q) = pid")
    case False
    have step: "destroy_from pid prev cur s = destroy_from pid q (nexts s q) s"
      using Cons.prems(3) q0 False by (subst destroy_from.simps) (simp add: nexts_def)
    have "freed_cells pid s (q # rest) = freed_cells pid s rest" "victims pid s (q # rest) = victims pid s rest"
      using False by (simp_all add: freed_cells_Cons victims_def)
    moreover have "\<exists>s'. destroy_from pid q (nexts s q) s = Some s' \<and>
     chain (nexts s') (window_list s') ((as @ [q]) @ filter (\<lambda>p. owner_pid (wins s p) \<noteq> pid) rest) \<and>
     heap_inv (win_heap s') \<and> alive (win_heap s') = alive (win_heap s) - freed_cells pid s rest \<and>
     (\<forall>p. body (wins s' p) = body (if p \<in> set (victims pid s rest) then (wins s p)\<lparr>destroyed := True\<rparr> else wins s p)) \<and>
     dragging_window s' = (if dragging_window s \<in> set (victims pid s rest) then 0 else dragging_window s)"
      using Cons.prems nx by (intro Cons.IH) auto
    ultimately show ?thesis using False unfolding step by simp
  next
    case True
    obtain s1 where step: "destroy_from pid prev cur s = destroy_from pid prev (nexts s q) s1"
      and c1: "chain (nexts s1) (window_list s1) (as @ rest)" "heap_inv (win_heap s1)"
      and a1: "alive (win_heap s1) = alive (win_heap s) - (if refcount (wins s q) = 0 then set (cells s q) else {})"
      and b1: "\<And>r. body (wins s1 r) = body (if r = q then (wins s q)\<lparr>destroyed := True\<rparr> else wins s r)"
      and d1: "dragging_window s1 = (if dragging_window s = q then 0 else dragging_window s)"
      using destroy_step [OF Cons.prems(1,2) True Cons.prems(4)] Cons.prems(3,5,6) by auto
    have same: "body (wins s1 r) = body (wins s r)" if "r \<in> set rest" for r using b1 [of r] that dist by auto
    have cells1: "map (cells s1) rest = map (cells s) rest" by (rule map_cong) (auto intro: body_cells same)
    have own1: "owner_pid (wins s1 r) = owner_pid (wins s r)" for r
      using body_fields(2) [OF b1 [of r]] by (auto split: if_splits)
    have v1: "victims pid s1 rest = victims pid s rest" by (simp add: victims_def own1)
    have f1: "freed_cells pid s1 rest = freed_cells pid s rest" using same by (rule freed_cells_cong)
    have apart: "set (cells s q) \<inter> set (concat (map (cells s) rest)) = {}" using Cons.prems(5) by auto
    have "\<exists>s'. destroy_from pid prev (nexts s q) s1 = Some s' \<and>
     chain (nexts s') (window_list s') (as @ filter (\<lambda>p. owner_pid (wins s1 p) \<noteq> pid) rest) \<and>
     heap_inv (win_heap s') \<and> alive (win_heap s') = alive (win_heap s1) - freed_cells pid s1 rest \<and>
     (\<forall>p. body (wins s' p) = body (if p \<in> set (victims pid s1 rest) then (wins s1 p)\<lparr>destroyed := True\<rparr> else wins s1 p)) \<and>
     dragging_window s' = (if dragging_window s1 \<in> set (victims pid s1 rest) then 0 else dragging_window s1)"
      using Cons.prems(2,5,6) c1 nx apart by (intro Cons.IH) (auto simp: cells1 a1)
    then obtain s' where s': "destroy_from pid prev (nexts s q) s1 = Some s'"
      "chain (nexts s') (window_list s') (as @ filter (\<lambda>p. owner_pid (wins s p) \<noteq> pid) rest)"
      "heap_inv (win_heap s')" "alive (win_heap s') = alive (win_heap s1) - freed_cells pid s rest"
      "\<And>p. body (wins s' p) = body (if p \<in> set (victims pid s rest) then (wins s1 p)\<lparr>destroyed := True\<rparr> else wins s1 p)"
      "dragging_window s' = (if dragging_window s1 \<in> set (victims pid s rest) then 0 else dragging_window s1)"
      unfolding own1 v1 f1 by blast
    have v: "set (victims pid s (q # rest)) = insert q (set (victims pid s rest))" using True by (simp add: victims_def)
    have qv: "q \<notin> set (victims pid s rest)" using dist by (simp add: victims_def)
    have mark: "body (x\<lparr>destroyed := True\<rparr>) = (body x)\<lparr>destroyed := True\<rparr>" for x by (simp add: body_def)
    have "body (wins s' p) = body (if p \<in> set (victims pid s (q # rest)) then (wins s p)\<lparr>destroyed := True\<rparr> else wins s p)" for p
      using s'(5) [of p] b1 [of p] qv by (auto simp: v mark)
    moreover have "0 \<notin> set (victims pid s rest)" using chain_nonzero [OF Cons.prems(1)] by (auto simp: victims_def)
    then have "dragging_window s' = (if dragging_window s \<in> set (victims pid s (q # rest)) then 0 else dragging_window s)"
      using s'(6) d1 by (auto simp: v)
    moreover have "alive (win_heap s') = alive (win_heap s) - freed_cells pid s (q # rest)"
      using s'(4) a1 True by (auto simp: freed_cells_Cons)
    ultimately show ?thesis unfolding step using s'(1-3) True by auto
  qed
qed

lemma get_by_id_list:
  "chain (nexts s) p ps \<Longrightarrow> \<forall>q\<in>set ps. \<not> destroyed (wins s q) \<Longrightarrow>
   get_by_id_from i p s = Some (case find (\<lambda>q. win_id (wins s q) = i) ps of None \<Rightarrow> 0 | Some q \<Rightarrow> q)"
proof (induction ps arbitrary: p)
  case Nil then show ?case by (subst get_by_id_from.simps) simp
next
  case (Cons q ps)
  then show ?case by (subst get_by_id_from.simps) (auto simp: nexts_def)
qed

lemma get_by_list:
  "win_list_ok s ps \<Longrightarrow>
   window_get_by_id i s = Some (case find (\<lambda>q. win_id (wins s q) = i) ps of None \<Rightarrow> 0 | Some q \<Rightarrow> q)"
  unfolding window_get_by_id_def win_list_ok_def by (elim conjE) (rule get_by_id_list)

section \<open>Holding windows\<close>

definition retained :: "u64 set \<Rightarrow> win_state \<Rightarrow> win_state" where
  "retained ws s = s\<lparr>wins := (\<lambda>p. if p \<in> ws then (wins s p)\<lparr>refcount := refcount (wins s p) + 1\<rparr> else wins s p)\<rparr>"

lemma retained_insert: "q \<notin> A \<Longrightarrow> retained A (retained {q} s) = retained (insert q A) s"
  by (intro win_state.equality ext) (auto simp: retained_def)

lemma snapshot_from_list:
  "chain (nexts s) cur ps \<Longrightarrow> snapshot_from n cur s =
    (map (\<lambda>p. (p, snapshot (wins s p))) (take n ps), retained (set (take n ps)) s)"
proof (induction n arbitrary: cur ps s)
  case 0 then show ?case by (simp add: retained_def)
next
  case (Suc n)
  show ?case
  proof (cases ps)
    case Nil then show ?thesis using Suc.prems by (simp add: retained_def)
  next
    case (Cons q qs)
    then have q: "cur = q" "q \<noteq> 0" "chain (nexts s) (nexts s q) qs" "q \<notin> set qs"
      using Suc.prems chain_distinct [OF Suc.prems] by auto
    define s1 where "s1 = retain_window_locked q s"
    have "(wins s)(q := (wins s q)\<lparr>refcount := refcount (wins s q) + 1\<rparr>) =
        (\<lambda>p. if p \<in> {q} then (wins s p)\<lparr>refcount := refcount (wins s p) + 1\<rparr> else wins s p)" by auto
    then have s1: "s1 = retained {q} s" using q(2) by (simp add: s1_def retain_window_locked_def upd_win_def retained_def)
    have n1: "nexts s1 = nexts s" by (auto simp: s1 retained_def nexts_def)
    have same: "wins s1 p = wins s p" if "p \<in> set qs" for p using that q(4) by (auto simp: s1 retained_def)
    have "snapshot_from n (nexts s q) s1 =
        (map (\<lambda>p. (p, snapshot (wins s1 p))) (take n qs), retained (set (take n qs)) s1)"
      using q(3) n1 by (intro Suc.IH) simp
    moreover have "map (\<lambda>p. (p, snapshot (wins s1 p))) (take n qs) = map (\<lambda>p. (p, snapshot (wins s p))) (take n qs)"
      by (rule map_cong) (auto simp: same dest: in_set_takeD)
    moreover have "retained (set (take n qs)) s1 = retained (insert q (set (take n qs))) s"
      unfolding s1 using q(4) by (intro retained_insert) (auto dest: in_set_takeD)
    moreover have "snapshot (wins s1 q) = snapshot (wins s q)" by (simp add: s1 retained_def snapshot_def)
    moreover have "win_next (wins s1 q) = nexts s q" using n1 by (metis nexts_def)
    ultimately show ?thesis using q Cons by (simp add: s1_def [symmetric])
  qed
qed

lemma release_list:
  "distinct ws \<Longrightarrow> \<forall>p\<in>set ws. p \<noteq> 0 \<and> refcount (wins s p) \<noteq> 0 \<Longrightarrow> heap_inv (win_heap s) \<Longrightarrow>
   distinct (concat (map (cells s) ws)) \<Longrightarrow> set (concat (map (cells s) ws)) \<subseteq> alive (win_heap s) \<Longrightarrow>
   \<exists>s'. release_window_refs_locked ws s = Some s' \<and> heap_inv (win_heap s') \<and>
     alive (win_heap s') = alive (win_heap s) -
       (\<Union>p\<in>{p\<in>set ws. destroyed (wins s p) \<and> refcount (wins s p) = 1}. set (cells s p)) \<and>
     window_list s' = window_list s \<and> dragging_window s' = dragging_window s \<and>
     (\<forall>p. wins s' p = (if p \<in> set ws then (wins s p)\<lparr>refcount := refcount (wins s p) - 1\<rparr> else wins s p))"
proof (induction ws arbitrary: s)
  case Nil then show ?case by simp
next
  case (Cons q ws)
  define s1 where "s1 = upd_win q (\<lambda>v. v\<lparr>refcount := refcount v - 1\<rparr>) s"
  define fr where "fr = (destroyed (wins s q) \<and> refcount (wins s q) = 1)"
  have q: "q \<noteq> 0" "refcount (wins s q) \<noteq> 0" "q \<notin> set ws" using Cons.prems by auto
  have cells1: "cells s1 p = cells s p" for p by (simp add: s1_def cells_def)
  have rel: "release_window_locked q s = (if fr then free_window q s1 else Some s1)"
    using q by (auto simp: release_window_locked_def s1_def fr_def Let_def)
  have h1: "win_heap s1 = win_heap s" by (simp add: s1_def)
  obtain h where h: "release_window_locked q s = Some (s1\<lparr>win_heap := h\<rparr>)" "heap_inv h"
    "alive h = alive (win_heap s) - (if fr then set (cells s q) else {})"
  proof (cases fr)
    case True
    obtain h where "free_window q s1 = Some (s1\<lparr>win_heap := h\<rparr>)" "heap_inv h" "alive h = alive (win_heap s1) - set (cells s1 q)"
      using free_window_ok [of s1 q] Cons.prems q(1) by (auto simp: h1 cells1)
    then show thesis using that True by (simp add: rel h1 cells1)
  next
    case False
    have "s1\<lparr>win_heap := win_heap s1\<rparr> = s1" by (cases s1) simp
    then show thesis using that [of "win_heap s"] Cons.prems(3) rel h1 False by simp
  qed
  define s2 where "s2 = s1\<lparr>win_heap := h\<rparr>"
  have h2: "win_heap s2 = h" by (simp add: s2_def)
  have w2: "wins s2 p = (if p = q then (wins s q)\<lparr>refcount := refcount (wins s q) - 1\<rparr> else wins s p)" for p
    by (simp add: s2_def s1_def)
  have cells2: "cells s2 p = cells s p" for p by (simp add: s2_def s1_def cells_def)
  have "set (cells s q) \<inter> set (concat (map (cells s) ws)) = {}" using Cons.prems(4) by auto
  then have "set (concat (map (cells s2) ws)) \<subseteq> alive (win_heap s2)" using Cons.prems(5) h(3) by (auto simp: cells2 h2)
  moreover have "\<forall>p\<in>set ws. p \<noteq> 0 \<and> refcount (wins s2 p) \<noteq> 0" using Cons.prems(2) q(3) by (auto simp: w2)
  ultimately obtain s' where s': "release_window_refs_locked ws s2 = Some s'" "heap_inv (win_heap s')"
     "alive (win_heap s') = alive (win_heap s2) -
       (\<Union>p\<in>{p\<in>set ws. destroyed (wins s2 p) \<and> refcount (wins s2 p) = 1}. set (cells s2 p))"
     "window_list s' = window_list s2" "dragging_window s' = dragging_window s2"
     "\<And>p. wins s' p = (if p \<in> set ws then (wins s2 p)\<lparr>refcount := refcount (wins s2 p) - 1\<rparr> else wins s2 p)"
    using Cons.IH [of s2] Cons.prems h(2) by (auto simp: cells2 h2)
  have "{p\<in>set ws. destroyed (wins s2 p) \<and> refcount (wins s2 p) = 1} = {p\<in>set ws. destroyed (wins s p) \<and> refcount (wins s p) = 1}"
    using q(3) by (auto simp: w2)
  then have "alive (win_heap s') = alive (win_heap s) -
       (\<Union>p\<in>{p\<in>set (q # ws). destroyed (wins s p) \<and> refcount (wins s p) = 1}. set (cells s p))"
    using s'(3) h(3) by (auto simp: h2 cells2 fr_def split: if_splits)
  moreover have "wins s' p = (if p \<in> set (q # ws) then (wins s p)\<lparr>refcount := refcount (wins s p) - 1\<rparr> else wins s p)" for p
    using s'(6) [of p] q(3) by (auto simp: w2)
  moreover have "release_window_refs_locked (q # ws) s = Some s'" using h(1) s'(1) by (simp add: s2_def)
  moreover have "window_list s' = window_list s" "dragging_window s' = dragging_window s"
    using s'(4,5) by (simp_all add: s2_def s1_def)
  ultimately show ?case using s'(2) by blast
qed

lemma window_create_ok:
  assumes "win_list_ok s ps"
  shows "\<exists>p s'. window_create x y w h bg s = Some (p, s') \<and>
    (if p = 0 then window_list s' = 0
     else win_list_ok s' (p # ps) \<and> p \<notin> set ps \<and> window_list s' = p \<and> win_id (wins s' p) = next_window_id s \<and>
       next_window_id s' = next_window_id s + 1 \<and> events (wins s' p) = [] \<and> ring_ok (wins s' p) \<and>
       owner_pid (wins s' p) = 0 \<and> refcount (wins s' p) = 0 \<and> (\<forall>q. q \<noteq> p \<longrightarrow> wins s' q = wins s q))"
proof -
  have ok: "heap_inv (win_heap s)" "chain (nexts s) (window_list s) ps"
    "set (concat (map (cells s) ps)) \<subseteq> alive (win_heap s)" "distinct (concat (map (cells s) ps))"
    using assms by (simp_all add: win_list_ok_def)
  obtain p heap' where k: "kmalloc WINDOW_SIZE (win_heap s) = Some (p, heap')" "heap_inv heap'"
    "if p = 0 then alive heap' = alive (win_heap s) else p \<notin> alive (win_heap s) \<and> alive heap' = insert p (alive (win_heap s))"
    using kmalloc_alive [OF ok(1)] by blast
  define f :: "window_t \<Rightarrow> window_t" where "f = (\<lambda>v. v\<lparr>win_id := next_window_id s, win_x := x, win_y := y, win_w := w, win_h := h,
     bg_color := bg, title_color := 0xFF555555, win_buffer := 0, owner_pid := 0, win_dirty := True,
     destroyed := False, refcount := 0, event_head := 0, event_tail := 0, win_next := window_list s\<rparr>)"
  define s2 where "s2 = (upd_win p f (s\<lparr>win_heap := heap', next_window_id := next_window_id s + 1\<rparr>))\<lparr>window_list := p\<rparr>"
  have c: "window_create x y w h bg s = Some (p, queue_dirty_rect (window_outer_rect (wins s2 p)) s2)"
    by (simp add: window_create_def k(1) s2_def f_def Let_def)
  show ?thesis
  proof (cases "p = 0")
    case True then show ?thesis using c by (simp add: s2_def)
  next
    case False
    have ps: "set ps \<subseteq> alive (win_heap s)" using ok(3) by (auto simp: cells_def split: if_splits)
    with k(3) False have new: "p \<notin> set ps" by auto
    have w2: "wins s2 q = (if q = p then f (wins s p) else wins s q)" for q by (simp add: s2_def)
    have cells2: "cells s2 p = [p]" "\<And>q. q \<in> set ps \<Longrightarrow> cells s2 q = cells s q"
      using new by (auto simp: cells_def w2 f_def)
    have cm: "map (cells s2) ps = map (cells s) ps" using cells2(2) by (intro map_cong) auto
    have "nexts s2 = (nexts s)(p := window_list s)"
      by (auto simp: s2_def nexts_upd_win f_def) (simp add: nexts_def upd_win_def f_def)
    then have "chain (nexts s2) p (p # ps)" using ok(2) False new by simp
    moreover have "distinct (concat (map (cells s2) (p # ps)))" "set (concat (map (cells s2) (p # ps))) \<subseteq> alive heap'"
      using ok(3,4) k(3) False unfolding list.map cm cells2(1) by auto
    ultimately have "win_list_ok s2 (p # ps)"
      using assms new k(2) by (auto simp: win_list_ok_def s2_def f_def)
    then have "win_list_ok (queue_dirty_rect r s2) (p # ps)" for r
      by (simp add: win_list_ok_def)
    then show ?thesis using c False new w2
      by (simp add: f_def ring_ok_def events_def ring_length_def) (simp add: s2_def)
  qed
qed

lemma destroy_keeps_ok:
  assumes ok: "win_list_ok s ps"
  shows "\<exists>s'. window_destroy_by_pid pid s = Some s' \<and>
    win_list_ok s' (filter (\<lambda>p. owner_pid (wins s p) \<noteq> pid) ps) \<and>
    alive (win_heap s') = alive (win_heap s) - freed_cells pid s ps \<and>
    (\<forall>p. body (wins s' p) = body (if p \<in> set (victims pid s ps) then (wins s p)\<lparr>destroyed := True\<rparr> else wins s p)) \<and>
    dragging_window s' = (if dragging_window s \<in> set (victims pid s ps) then 0 else dragging_window s)"
proof -
  let ?keep = "filter (\<lambda>p. owner_pid (wins s p) \<noteq> pid) ps"
  note c = ok [unfolded win_list_ok_def]
  have "window_list s = (if ps = [] then 0 else hd ps)" using c by (cases ps) auto
  with c obtain s' where s': "destroy_from pid 0 (window_list s) s = Some s'"
    "chain (nexts s') (window_list s') ?keep" "heap_inv (win_heap s')"
    "alive (win_heap s') = alive (win_heap s) - freed_cells pid s ps"
    "\<And>p. body (wins s' p) = body (if p \<in> set (victims pid s ps) then (wins s p)\<lparr>destroyed := True\<rparr> else wins s p)"
    "dragging_window s' = (if dragging_window s \<in> set (victims pid s ps) then 0 else dragging_window s)"
    using destroy_from_list [of s "[]" ps 0 "window_list s" pid] by auto
  have same: "body (wins s' p) = body (wins s p)" if "p \<in> set ?keep" for p
    using s'(5) [of p] that by (auto simp: victims_def)
  have cm: "map (cells s') ?keep = map (cells s) ?keep" using same by (intro map_cong) (auto intro: body_cells)
  have "distinct (concat (map (cells s) ?keep))" using c distinct_concat_filter by blast
  moreover have "set (cells s p) \<inter> freed_cells pid s ps = {}" if "p \<in> set ?keep" for p
    using that distinct_concat_apart [of "cells s" ps p] c by (auto simp: freed_cells_def victims_def)
  then have "set (concat (map (cells s) ?keep)) \<subseteq> alive (win_heap s) - freed_cells pid s ps"
    using c by auto
  ultimately have "win_list_ok s' ?keep"
    unfolding win_list_ok_def cm using s'(2-4) c body_fields(4) [OF same] by auto
  then show ?thesis using s'(1,4,5,6) by (auto simp: window_destroy_by_pid_def)
qed

lemma hold_destroy_release:
  assumes ok: "win_list_ok s ps" and few: "length ps \<le> 16" "\<forall>p\<in>set ps. refcount (wins s p) = 0"
  shows "\<exists>held s1 s2 s3. snapshot_window_list 16 s = (held, s1) \<and> map fst held = ps \<and>
    window_destroy_by_pid pid s1 = Some s2 \<and> alive (win_heap s2) = alive (win_heap s) \<and>
    release_window_refs_locked ps s2 = Some s3 \<and>
    win_list_ok s3 (filter (\<lambda>p. owner_pid (wins s p) \<noteq> pid) ps) \<and>
    alive (win_heap s3) = alive (win_heap s) - (\<Union>p\<in>set (victims pid s ps). set (cells s p)) \<and>
    (\<forall>p\<in>set ps. refcount (wins s3 p) = 0)"
proof -
  note c = ok [unfolded win_list_ok_def]
  define s1 where "s1 = retained (set ps) s"
  have snap: "snapshot_window_list 16 s = (map (\<lambda>p. (p, snapshot (wins s p))) ps, s1)"
    unfolding snapshot_window_list_def s1_def using snapshot_from_list [of s "window_list s" ps 16] c few(1) by simp
  have n1: "nexts s1 = nexts s" by (auto simp: s1_def retained_def nexts_def)
  have cells1: "cells s1 = cells s" by (auto simp: s1_def retained_def cells_def)
  have fld: "owner_pid (wins s1 p) = owner_pid (wins s p)" "destroyed (wins s1 p) = destroyed (wins s p)"
    "window_list s1 = window_list s" "win_heap s1 = win_heap s" "win_buffer (wins s1 p) = win_buffer (wins s p)"
    for p by (simp_all add: s1_def retained_def)
  have ref1: "refcount (wins s1 p) = 1" if "p \<in> set ps" for p using that few(2) by (simp add: s1_def retained_def)
  have ok1: "win_list_ok s1 ps" using c by (simp add: win_list_ok_def n1 cells1 fld)
  have v1: "victims pid s1 ps = victims pid s ps" by (simp add: victims_def fld)
  have f1: "freed_cells pid s1 ps = {}" using ref1 by (auto simp: freed_cells_def victims_def)
  let ?keep = "filter (\<lambda>p. owner_pid (wins s p) \<noteq> pid) ps"
  obtain s2 where s2: "window_destroy_by_pid pid s1 = Some s2" "win_list_ok s2 ?keep"
    "alive (win_heap s2) = alive (win_heap s)"
    "\<And>p. body (wins s2 p) = body (if p \<in> set (victims pid s ps) then (wins s1 p)\<lparr>destroyed := True\<rparr> else wins s1 p)"
    using destroy_keeps_ok [OF ok1, of pid] unfolding v1 f1 fld by auto
  have "cells s2 p = cells s p" for p
    using body_fields(1) [OF s2(4) [of p]] fld(5) by (simp add: cells_def split: if_splits)
  then have cells2: "cells s2 = cells s" by (rule ext)
  have ref2: "refcount (wins s2 p) = 1" if "p \<in> set ps" for p
    using body_fields(3) [OF s2(4) [of p]] ref1 [OF that] by auto
  have des2: "destroyed (wins s2 p) \<longleftrightarrow> p \<in> set (victims pid s ps)" if "p \<in> set ps" for p
    using body_fields(4) [OF s2(4) [of p]] c that fld by auto
  have nz: "\<forall>p\<in>set ps. p \<noteq> 0 \<and> refcount (wins s2 p) \<noteq> 0" using chain_nonzero c ref2 by fastforce
  have dist: "distinct ps" using c chain_distinct by blast
  obtain s3 where s3: "release_window_refs_locked ps s2 = Some s3" "heap_inv (win_heap s3)"
    "alive (win_heap s3) = alive (win_heap s2) -
       (\<Union>p\<in>{p\<in>set ps. destroyed (wins s2 p) \<and> refcount (wins s2 p) = 1}. set (cells s2 p))"
    "window_list s3 = window_list s2"
    "\<And>p. wins s3 p = (if p \<in> set ps then (wins s2 p)\<lparr>refcount := refcount (wins s2 p) - 1\<rparr> else wins s2 p)"
    using release_list [OF dist nz] s2(2,3) c by (auto simp: win_list_ok_def cells2)
  have vs: "{p\<in>set ps. destroyed (wins s2 p) \<and> refcount (wins s2 p) = 1} = set (victims pid s ps)"
    using des2 ref2 by (auto simp: victims_def)
  have alive3: "alive (win_heap s3) = alive (win_heap s) - (\<Union>p\<in>set (victims pid s ps). set (cells s p))"
    using s3(3) s2(3) by (simp add: vs cells2)
  have n3: "nexts s3 = nexts s2" by (auto simp: nexts_def s3(5))
  have "cells s3 p = cells s2 p" for p by (simp add: cells_def s3(5))
  then have cells3: "cells s3 = cells s" using cells2 by (simp add: fun_eq_iff)
  have "set (cells s p) \<inter> set (cells s q) = {}" if "p \<in> set ?keep" "q \<in> set (victims pid s ps)" for p q
    using that c by (intro distinct_concat_apart [of "cells s" ps]) (auto simp: victims_def)
  then have "set (concat (map (cells s) ?keep)) \<inter> (\<Union>p\<in>set (victims pid s ps). set (cells s p)) = {}" by auto
  then have "win_list_ok s3 ?keep"
    using s2(2,3) s3(2,4,5) alive3 c by (simp add: win_list_ok_def n3 cells3 cells2) blast
  moreover have "\<forall>p\<in>set ps. refcount (wins s3 p) = 0" using s3(5) ref2 by simp
  moreover have "map fst (map (\<lambda>p. (p, snapshot (wins s p))) ps) = ps" by (simp add: comp_def)
  ultimately show ?thesis using snap s2(1,3) s3(1) alive3 by blast
qed

section \<open>Properties\<close>

text \<open>Dirty rectangles: as long as one of the 32 slots is free, queueing a rectangle keeps every rectangle inside
  the screen and loses no point: what was to be redrawn and what of the new rectangle lies on the screen is covered.\<close>

theorem dirty_rect_covers:
  assumes "dirty_ok s" "rect_small rect" "length (dirty_rects s) < WINDOW_MAX_DIRTY_RECTS"
  shows "dirty_ok (queue_dirty_rect rect s) \<and>
    (\<forall>x y. covered (dirty_rects s) x y \<or> in_rect rect x y \<and> in_rect (screen_rect s) x y \<longrightarrow>
       covered (dirty_rects (queue_dirty_rect rect s)) x y)"
  using queue_dirty_covers [OF assms(1,2)] assms(3) by blast

text \<open>A desktop of 100 by 100 pixels with an empty window list.\<close>

definition desk :: win_state where
  "desk = \<lparr>wins = (\<lambda>_. \<lparr>win_id = 0, win_x = 0, win_y = 0, win_w = 0, win_h = 0, title_color = 0, bg_color = 0, win_buffer = 0,
       owner_pid = 0, win_dirty = False, destroyed = False, refcount = 0,
       event_queue = (\<lambda>_. \<lparr>ev_type = 0, ev_x = 0, ev_y = 0, ev_data = 0\<rparr>), event_head = 0, event_tail = 0, win_next = 0\<rparr>),
     window_list = 0, next_window_id = 1, dirty_rects = [make_rect 10 10 5 5], cursor_x = 0, cursor_y = 0,
     cursor_initialized = False, dragging_window = 0, drag_off_x = 0, drag_off_y = 0, last_mb = 0, last_mx = 0, last_my = 0,
     win_heap = fresh_heap, screen = tiny_screen\<lparr>fb_width := 100, fb_height := 100\<rparr>\<rparr>"

lemma desk_ok: "dirty_ok desk" "win_list_ok desk []"
  using fresh_heap_ok by (auto simp: dirty_ok_def desk_def tiny_screen_def WINDOW_MAX_DIRTY_RECTS_def rect_within_def
      make_rect_def win_list_ok_def heap_inv_def)

theorem dirty_rect_covers_witness:
  "covered (dirty_rects (queue_dirty_rect (make_rect (-3) 12 20 1) desk)) 2 12 \<and>
   covered (dirty_rects (queue_dirty_rect (make_rect (-3) 12 20 1) desk)) 11 11"
  using dirty_rect_covers [OF desk_ok(1), of "make_rect (-3) 12 20 1"]
  by (auto simp: rect_small_def make_rect_def desk_def WINDOW_MAX_DIRTY_RECTS_def covered_def in_rect_def
      screen_rect_def graphics_get_width_def graphics_get_height_def tiny_screen_def)

text \<open>A full dirty list: when all 32 slots are taken and the new rectangle touches none of them, 31 of the
  rectangles are forgotten, so windows that were to be redrawn there stay stale.\<close>

theorem dirty_rect_overflow:
  assumes "length (dirty_rects s) = WINDOW_MAX_DIRTY_RECTS" "rect_intersect rect (screen_rect s) = Some c"
    and "\<forall>r\<in>set (dirty_rects s). rect_intersect r c = None"
  shows "dirty_rects (queue_dirty_rect rect s) = [rect_union (hd (dirty_rects s)) c]"
proof -
  have "merge_dirty c rs = None" if "\<forall>r\<in>set rs. rect_intersect r c = None" for rs
    using that by (induction rs) auto
  with assms show ?thesis by (simp add: queue_dirty_rect_def)
qed

theorem dirty_rect_overflow_witness:
  "dirty_rects (queue_dirty_rect (make_rect 50 50 2 2) (desk\<lparr>dirty_rects := replicate 32 (make_rect 10 10 5 5)\<rparr>)) =
    [make_rect 10 10 42 42]"
proof -
  have "rect_intersect (make_rect 50 50 2 2) (screen_rect (desk\<lparr>dirty_rects := replicate 32 (make_rect 10 10 5 5)\<rparr>)) =
      Some (make_rect 50 50 2 2)"
    by (simp add: rect_intersect_def make_rect_def screen_rect_def desk_def tiny_screen_def
        graphics_get_width_def graphics_get_height_def Let_def)
  moreover have "rect_intersect (make_rect 10 10 5 5) (make_rect 50 50 2 2) = None"
    "rect_union (make_rect 10 10 5 5) (make_rect 50 50 2 2) = make_rect 10 10 42 42"
    by (simp_all add: rect_intersect_def rect_union_def make_rect_def Let_def)
  ultimately show ?thesis
    using dirty_rect_overflow [of "desk\<lparr>dirty_rects := replicate 32 (make_rect 10 10 5 5)\<rparr>" "make_rect 50 50 2 2"]
    by (simp add: WINDOW_MAX_DIRTY_RECTS_def)
qed

text \<open>The event ring is a queue of 15 events: for every sequence of pushes and pops on a window, what came out
  followed by what is still queued is what was queued before followed by the pushes that found room, in order; a
  full ring drops the newest event and nothing else.\<close>

theorem window_events_fifo:
  assumes "ring_ok w" "ring.calls cs w = (accepted, taken, w')"
  shows "taken @ events w' = events w @ accepted \<and> length (events w') \<le> 15"
  using ring.calls_order [OF assms] ring.within by blast

theorem window_events_fifo_witness:
  "\<exists>accepted w'. ring.calls [Push \<lparr>ev_type = 1, ev_x = 2, ev_y = 3, ev_data = 4\<rparr>, Pop] (wins desk 0) = (accepted, accepted, w') \<and>
    events w' = []"
proof -
  have ok: "ring_ok (wins desk 0)" "events (wins desk 0) = []" by (simp_all add: ring_ok_def desk_def events_def ring_length_def)
  let ?cs = "[Push \<lparr>ev_type = 1, ev_x = 2, ev_y = 3, ev_data = 4\<rparr>, Pop]"
  obtain accepted taken w' where r: "ring.calls ?cs (wins desk 0) = (accepted, taken, w')" by (metis prod_cases3)
  from r have "length taken = 1 \<and> length accepted = 1"
    by (auto simp: ok window_push_event_def pop_event_def desk_def Let_def events_def ring_length_def)
  with window_events_fifo [OF ok(1) r] ok(2) r show ?thesis by (cases taken; cases "events w'") auto
qed

text \<open>Creating a window: with memory left it becomes the head of the list under a fresh id, found by that id, with
  its own heap block, an empty event ring and no holder, and no other window changes; when kmalloc fails the code goes on
  with the null pointer and loses the whole list.\<close>

theorem window_create_correct:
  assumes "win_list_ok s ps" "next_window_id s \<notin> (\<lambda>p. win_id (wins s p)) ` set ps"
  shows "\<exists>p s'. window_create x y w h bg s = Some (p, s') \<and>
    (if p = 0 then window_list s' = 0
     else win_list_ok s' (p # ps) \<and> p \<notin> set ps \<and> window_get_by_id (next_window_id s) s' = Some p \<and>
       events (wins s' p) = [] \<and> refcount (wins s' p) = 0 \<and> (\<forall>q\<in>set ps. wins s' q = wins s q \<and>
         (\<forall>i. win_id (wins s q) = i \<longrightarrow> window_get_by_id i s' = window_get_by_id i s)))"
proof -
  obtain p s' where c: "window_create x y w h bg s = Some (p, s')"
    "if p = 0 then window_list s' = 0
     else win_list_ok s' (p # ps) \<and> p \<notin> set ps \<and> window_list s' = p \<and> win_id (wins s' p) = next_window_id s \<and>
       next_window_id s' = next_window_id s + 1 \<and> events (wins s' p) = [] \<and> ring_ok (wins s' p) \<and>
       owner_pid (wins s' p) = 0 \<and> refcount (wins s' p) = 0 \<and> (\<forall>q. q \<noteq> p \<longrightarrow> wins s' q = wins s q)"
    using window_create_ok [OF assms(1)] by blast
  show ?thesis
  proof (cases "p = 0")
    case False
    with c(2) have s': "win_list_ok s' (p # ps)" "p \<notin> set ps" "window_list s' = p" "win_id (wins s' p) = next_window_id s"
      "events (wins s' p) = []" "refcount (wins s' p) = 0" "\<And>q. q \<noteq> p \<Longrightarrow> wins s' q = wins s q" by auto
    have same: "wins s' q = wins s q" if "q \<in> set ps" for q using that s'(2,7) by metis
    have get: "window_get_by_id i s' = Some (case find (\<lambda>q. win_id (wins s' q) = i) (p # ps) of None \<Rightarrow> 0 | Some q \<Rightarrow> q)"
      "window_get_by_id i s = Some (case find (\<lambda>q. win_id (wins s q) = i) ps of None \<Rightarrow> 0 | Some q \<Rightarrow> q)" for i
      using get_by_list [OF s'(1)] get_by_list [OF assms(1)] by blast+
    have "find (\<lambda>q. win_id (wins s' q) = i) ps = find (\<lambda>q. win_id (wins s q) = i) ps" for i
      using same by (intro find_cong) auto
    then have "window_get_by_id i s' = window_get_by_id i s" if "i \<in> (\<lambda>p. win_id (wins s p)) ` set ps" for i
      using get [of i] that assms(2) s'(4) by auto
    moreover have "window_get_by_id (next_window_id s) s' = Some p" using get(1) s'(4) by simp
    ultimately show ?thesis using c(1) s' same False by auto
  qed (use c in auto)
qed

lemma desk_create:
  obtains s where "window_create 10 20 30 40 7 desk = Some (0x1000018, s)"
proof -
  obtain h where "kmalloc WINDOW_SIZE fresh_heap = Some (0x1000018, h)"
    using kmalloc_refines [OF fresh_heap_ok, of WINDOW_SIZE] by (auto simp: round_up8_def heap_lo_def WINDOW_SIZE_def)
  then show thesis using that by (auto simp: window_create_def desk_def Let_def)
qed

text \<open>A desktop with one window, of process 0.\<close>

lemma one_window:
  obtains s where "win_list_ok s [0x1000018]" "owner_pid (wins s 0x1000018) = 0" "refcount (wins s 0x1000018) = 0"
proof -
  obtain s where s: "window_create 10 20 30 40 7 desk = Some (0x1000018, s)" by (rule desk_create)
  show thesis using window_create_ok [OF desk_ok(2), of 10 20 30 40 7] s that by auto
qed

theorem window_create_correct_witness:
  "\<exists>s. window_create 10 20 30 40 7 desk = Some (0x1000018, s) \<and> win_list_ok s [0x1000018] \<and>
    window_get_by_id 1 s = Some 0x1000018"
proof -
  obtain s where s: "window_create 10 20 30 40 7 desk = Some (0x1000018, s)" by (rule desk_create)
  have "next_window_id desk = 1" by (simp add: desk_def)
  with window_create_correct [OF desk_ok(2), of 10 20 30 40 7] s show ?thesis by auto
qed

text \<open>C16. Destroying the windows of a process: the call returns, the list is the old one without exactly the windows of that
  process, which are marked destroyed; of those the ones nobody holds give back their buffer and their own block, each
  once, and every other block stays allocated; a drag of a victim ends.\<close>

theorem window_destroy_correct:
  assumes "win_list_ok s ps"
  shows "\<exists>s'. window_destroy_by_pid pid s = Some s' \<and>
    win_list_ok s' (filter (\<lambda>p. owner_pid (wins s p) \<noteq> pid) ps) \<and>
    alive (win_heap s') = alive (win_heap s) - freed_cells pid s ps \<and>
    (\<forall>p. body (wins s' p) = body (if p \<in> set (victims pid s ps) then (wins s p)\<lparr>destroyed := True\<rparr> else wins s p)) \<and>
    dragging_window s' = (if dragging_window s \<in> set (victims pid s ps) then 0 else dragging_window s)"
  using destroy_keeps_ok [OF assms] .

theorem window_destroy_correct_witness:
  "\<exists>s s'. win_list_ok s [0x1000018] \<and> window_destroy_by_pid 0 s = Some s' \<and> win_list_ok s' [] \<and>
    0x1000018 \<notin> alive (win_heap s') \<and> destroyed (wins s' 0x1000018)"
proof -
  obtain s where s: "win_list_ok s [0x1000018]" "owner_pid (wins s 0x1000018) = 0" "refcount (wins s 0x1000018) = 0"
    by (rule one_window)
  have v: "victims 0 s [0x1000018] = [0x1000018]" by (simp add: victims_def s(2))
  have f: "0x1000018 \<in> freed_cells 0 s [0x1000018]" using v s(3) by (simp add: freed_cells_def cells_def)
  obtain s' where s': "window_destroy_by_pid 0 s = Some s'" "win_list_ok s' []" "0x1000018 \<notin> alive (win_heap s')"
    "body (wins s' 0x1000018) = body ((wins s 0x1000018)\<lparr>destroyed := True\<rparr>)"
    using window_destroy_correct [OF s(1), of 0] v f s(2) by auto
  then show ?thesis using s(1) body_fields(4) [OF s'(4)] by auto
qed

text \<open>C17. No use after free: when a redraw holds the windows of the list and a process is destroyed before it lets go, the
  destruction releases no memory at all; letting go releases exactly the buffers and blocks of the destroyed windows, and the
  list of the others is intact.\<close>

theorem window_hold_safe:
  assumes "win_list_ok s ps" "length ps \<le> 16" "\<forall>p\<in>set ps. refcount (wins s p) = 0"
  shows "\<exists>held s1 s2 s3. snapshot_window_list 16 s = (held, s1) \<and> map fst held = ps \<and>
    window_destroy_by_pid pid s1 = Some s2 \<and> alive (win_heap s2) = alive (win_heap s) \<and>
    release_window_refs_locked ps s2 = Some s3 \<and>
    win_list_ok s3 (filter (\<lambda>p. owner_pid (wins s p) \<noteq> pid) ps) \<and>
    alive (win_heap s3) = alive (win_heap s) - (\<Union>p\<in>set (victims pid s ps). set (cells s p)) \<and>
    (\<forall>p\<in>set ps. refcount (wins s3 p) = 0)"
  using hold_destroy_release [OF assms] .

theorem window_hold_safe_witness:
  "\<exists>s held s1 s2 s3. win_list_ok s [0x1000018] \<and> snapshot_window_list 16 s = (held, s1) \<and>
    window_destroy_by_pid 0 s1 = Some s2 \<and> 0x1000018 \<in> alive (win_heap s2) \<and>
    release_window_refs_locked [0x1000018] s2 = Some s3 \<and> 0x1000018 \<notin> alive (win_heap s3)"
proof -
  obtain s where s: "win_list_ok s [0x1000018]" "owner_pid (wins s 0x1000018) = 0" "refcount (wins s 0x1000018) = 0"
    by (rule one_window)
  have "0x1000018 \<in> set (cells s 0x1000018)" "0x1000018 \<in> alive (win_heap s)"
    using s(1) by (auto simp: cells_def win_list_ok_def split: if_splits)
  then show ?thesis using window_hold_safe [OF s(1), of 0] s by (auto simp: victims_def)
qed

end
