(* ===== verification/Elf.thy ===== *)
theory Elf
  imports Vmm CString
begin

text \<open>
  The ELF loader (src/kernel/elf.c): it reads the headers of an image that lies in memory, builds a
  fresh address space and copies every loadable segment page by page into new frames. The headers
  are read through their pointers again and again, as the code does.
\<close>

section \<open>Headers\<close>

definition ELF_MAGIC :: u32 where "ELF_MAGIC = 0x464C457F"
definition PT_LOAD :: u32 where "PT_LOAD = 1"

text \<open>The fields the loader uses, at their offsets in the packed structures.\<close>

record elf_header_t =
  e_magic :: u32
  e_entry :: u64
  e_phoff :: u64
  e_phentsize :: u16
  e_phnum :: u16

record elf_phdr_t =
  p_type :: u32
  p_flags :: u32
  p_offset :: u64
  p_vaddr :: u64
  p_filesz :: u64
  p_memsz :: u64

definition elf_header :: "memory \<Rightarrow> u64 \<Rightarrow> elf_header_t" where
  "elf_header m a = \<lparr>e_magic = load32 m a, e_entry = load64 m (a + 24), e_phoff = load64 m (a + 32),
     e_phentsize = load16 m (a + 54), e_phnum = load16 m (a + 56)\<rparr>"

definition elf_phdr :: "memory \<Rightarrow> u64 \<Rightarrow> elf_phdr_t" where
  "elf_phdr m a = \<lparr>p_type = load32 m a, p_flags = load32 m (a + 4), p_offset = load64 m (a + 8),
     p_vaddr = load64 m (a + 16), p_filesz = load64 m (a + 32), p_memsz = load64 m (a + 40)\<rparr>"

section \<open>Loading\<close>

text \<open>Which bytes of the file belong to page \<open>p\<close>: offset in the page, offset in the file, count.\<close>

definition page_extent :: "elf_phdr_t \<Rightarrow> u64 \<Rightarrow> u64 \<Rightarrow> u64 \<times> u64 \<times> u64" where
  "page_extent ph vaddr_start p =
     (let copy_offset_in_page = (if p = 0 then vaddr_start AND 0xFFF else 0);
          copy_size = (if p = 0 then 4096 - copy_offset_in_page else 4096);
          copy_src_offset = (if p = 0 then p_offset ph + p * 4096
                             else p_offset ph + p * 4096 - (vaddr_start AND 0xFFF));
          bytes_from_file =
            (if copy_src_offset < p_offset ph + p_filesz ph
             then if p_offset ph + p_filesz ph - copy_src_offset > copy_size then copy_size
                  else p_offset ph + p_filesz ph - copy_src_offset
             else 0)
      in (copy_offset_in_page, copy_src_offset, bytes_from_file))"

text \<open>Clearing a frame and copying the file bytes into it.\<close>

definition fill_page :: "u64 \<Rightarrow> u64 \<Rightarrow> u64 \<Rightarrow> u64 \<Rightarrow> u64 \<Rightarrow> memory \<Rightarrow> memory" where
  "fill_page elf_data phdr vaddr_start p frame m =
     (let m1 = memset frame 0 4096 m;
          (off, src, n) = page_extent (elf_phdr m1 phdr) vaddr_start p
      in if n = 0 then m1 else memcpy (frame + off) (elf_data + src) n m1)"

definition load_page :: "u64 \<Rightarrow> u64 \<Rightarrow> u64 \<Rightarrow> u64 \<Rightarrow> u64 \<Rightarrow> u64 \<Rightarrow> vmm_state \<Rightarrow> vmm_state" where
  "load_page elf_data phdr pml4 flags vaddr_start p s =
     (let current_vpage = (vaddr_start AND NOT 0xFFF) + p * 4096;
          (frame, s1) = alloc_frame s;
          s2 = vmm_map pml4 current_vpage frame flags s1
      in s2\<lparr>phys_mem := fill_page elf_data phdr vaddr_start p frame (phys_mem s2)\<rparr>)"

definition segment_flags :: "elf_phdr_t \<Rightarrow> u64" where
  "segment_flags ph = (if p_flags ph AND 2 \<noteq> 0 then PAGE_USER OR PAGE_WRITABLE else PAGE_USER)"

definition segment_pages :: "elf_phdr_t \<Rightarrow> u64" where
  "segment_pages ph =
     (let page_start = p_vaddr ph AND NOT 0xFFF;
          page_end = (p_vaddr ph + p_memsz ph + 4095) AND NOT 0xFFF
      in (page_end - page_start) div 4096)"

definition load_segment :: "u64 \<Rightarrow> u64 \<Rightarrow> u64 \<Rightarrow> vmm_state \<Rightarrow> vmm_state" where
  "load_segment elf_data phdr pml4 s =
     (let ph = elf_phdr (phys_mem s) phdr
      in if p_type ph = PT_LOAD
         then fold (\<lambda>p. load_page elf_data phdr pml4 (segment_flags ph) (p_vaddr ph) (of_nat p))
                [0..<unat (segment_pages ph)] s
         else s)"

text \<open>\<open>i * header->phentsize\<close> is a product of ints.\<close>

definition phdr_address :: "memory \<Rightarrow> u64 \<Rightarrow> nat \<Rightarrow> u64" where
  "phdr_address m elf_data i =
     (let h = elf_header m elf_data
      in elf_data + e_phoff h + of_int (i32 (int i * int (unat (e_phentsize h)))))"

function load_segments :: "u64 \<Rightarrow> u64 \<Rightarrow> nat \<Rightarrow> vmm_state \<Rightarrow> vmm_state" where
  "load_segments elf_data pml4 i s =
     (if i < unat (e_phnum (elf_header (phys_mem s) elf_data))
      then load_segments elf_data pml4 (i + 1)
             (load_segment elf_data (phdr_address (phys_mem s) elf_data i) pml4 s)
      else s)"
  by pat_completeness auto
termination
proof (relation "measure (\<lambda>(_, _, i, _). 65536 - i)")
  fix elf_data pml4 :: u64 and i :: nat and s :: vmm_state
  assume "i < unat (e_phnum (elf_header (phys_mem s) elf_data))"
  moreover have "unat (n :: u16) < 65536" for n using unsigned_less [of n, where 'a = nat] by simp
  ultimately have "i < 65536" by (meson less_trans)
  then show "((elf_data, pml4, i + 1, load_segment elf_data (phdr_address (phys_mem s) elf_data i) pml4 s),
      elf_data, pml4, i, s) \<in> measure (\<lambda>(_, _, i, _). 65536 - i)" by simp
qed simp

declare load_segments.simps [simp del]

text \<open>The result is the entry point and the root of the new address space.\<close>

definition elf_load :: "u64 \<Rightarrow> vmm_state \<Rightarrow> (u64 \<times> u64) option \<times> vmm_state" where
  "elf_load elf_data s =
     (if e_magic (elf_header (phys_mem s) elf_data) \<noteq> ELF_MAGIC then (None, s)
      else let (pml4, s1) = vmm_create_address_space s;
               entry = e_entry (elf_header (phys_mem s1) elf_data)
           in (Some (entry, pml4), load_segments elf_data pml4 0 s1))"

section \<open>Contents of a page\<close>

lemma unat_and_fff: "unat ((x :: u64) AND 0xFFF) = unat x mod 4096"
proof -
  have "(0xFFF :: u64) = mask 12" by (simp add: mask_eq_decr_exp)
  then have "x AND 0xFFF = take_bit 12 x" by (simp add: take_bit_eq_mask)
  then show ?thesis by (simp add: take_bit_eq_mod unat_mod)
qed

lemma page_base: "((x :: u64) AND NOT 0xFFF) + (x AND 0xFFF) = x"
proof -
  have "(x AND NOT 0xFFF) AND (x AND 0xFFF) = 0" "(x AND NOT 0xFFF) OR (x AND 0xFFF) = x"
    by (rule bit_word_eqI, auto simp: bit_simps)+
  then show ?thesis using word_plus_and_or [of "x AND NOT 0xFFF" "x AND 0xFFF"] by simp
qed

text \<open>The three numbers as naturals: the page starts \<open>d\<close> bytes before the segment.\<close>

lemma page_extent_unat:
  assumes ext: "page_extent ph V p = (off, src, n)"
    and room: "unat (p_offset ph) + unat (p_filesz ph) < 2 ^ 64" "unat (p_offset ph) + 4096 * unat p < 2 ^ 64"
  shows "unat off = (if p = 0 then unat V mod 4096 else 0)"
    and "unat src + unat V mod 4096 = unat (p_offset ph) + 4096 * unat p + unat off"
    and "unat n = min (unat (p_offset ph) + unat (p_filesz ph) - unat src) (4096 - unat off)"
proof -
  let ?d = "unat V mod 4096"
  have d: "?d < 4096" "unat (V AND 0xFFF) = ?d" by (simp_all add: unat_and_fff)
  have p: "unat (p * 4096) = 4096 * unat p" using room(2) by (simp add: unat_word_ariths)
  then have op: "unat (p_offset ph + p * 4096) = unat (p_offset ph) + 4096 * unat p"
    using room(2) by (simp add: unat_plus_no_wrap)
  have of: "unat (p_offset ph + p_filesz ph) = unat (p_offset ph) + unat (p_filesz ph)"
    using room(1) by (simp add: unat_plus_no_wrap)
  have o: "off = (if p = 0 then V AND 0xFFF else 0)"
    and s: "src = (if p = 0 then p_offset ph + p * 4096 else p_offset ph + p * 4096 - (V AND 0xFFF))"
    and nn: "n = (if src < p_offset ph + p_filesz ph
             then if p_offset ph + p_filesz ph - src > 4096 - off then 4096 - off
                  else p_offset ph + p_filesz ph - src else 0)"
    using ext by (auto simp: page_extent_def Let_def)
  show uo: "unat off = (if p = 0 then ?d else 0)" by (simp add: o d)
  have "unat p > 0" if "p \<noteq> 0" using that by (simp add: unat_gt_0)
  then have us: "unat src = (if p = 0 then unat (p_offset ph) else unat (p_offset ph) + 4096 * unat p - ?d)"
    using d op by (auto simp: s unat_minus_no_wrap word_le_iff_unat)
  then show "unat src + ?d = unat (p_offset ph) + 4096 * unat p + unat off"
    using d uo \<open>p \<noteq> 0 \<Longrightarrow> unat p > 0\<close> by auto
  have "unat (4096 - off) = 4096 - unat off" using uo d by (simp add: unat_minus_no_wrap word_le_iff_unat)
  moreover have "unat (p_offset ph + p_filesz ph - src) = unat (p_offset ph) + unat (p_filesz ph) - unat src"
    if "src < p_offset ph + p_filesz ph" using that of by (simp add: unat_minus_no_wrap order_less_imp_le)
  ultimately show "unat n = min (unat (p_offset ph) + unat (p_filesz ph) - unat src) (4096 - unat off)"
    unfolding nn using of by (auto simp: word_less_iff_unat min_def)
qed

lemma extent_arith:
  fixes k :: nat
  assumes "s + d = off + q + f" "n = min (off + z - s) (4096 - f)" "d \<le> q + k" "f \<le> k" "k < 4096"
  shows "k - f < n \<longleftrightarrow> q + k - d < z"
  using assms by linarith

text \<open>The headers are read from memory, so they are the same where memory is.\<close>

lemma elf_phdr_cong:
  assumes "\<And>j. j < 56 \<Longrightarrow> m' (a + j) = m (a + j)"
  shows "elf_phdr m' a = elf_phdr m a"
proof -
  have "m' a = m a" using assms [of 0] by simp
  then show ?thesis
    by (simp add: elf_phdr_def load64_def load32_def load16_def add.assoc assms)
qed

text \<open>The number of pages, as a natural.\<close>

lemma segment_pages_bound:
  assumes "p < segment_pages ph" "unat (p_memsz ph) + 8192 < 2 ^ 64"
  shows "4096 * unat p < unat (p_memsz ph) + 4095"
proof -
  let ?V = "p_vaddr ph"
  define W where "W = ?V + p_memsz ph + 4095"
  have base: "?V AND NOT 0xFFF = ?V - (?V AND 0xFFF)" "W AND NOT 0xFFF = W - (W AND 0xFFF)"
    using page_base [of ?V] page_base [of W] by (simp_all add: eq_diff_eq)
  have d: "unat (?V AND 0xFFF) < 4096" "unat (W AND 0xFFF) < 4096" by (simp_all add: unat_and_fff)
  define g where "g = p_memsz ph + (4095 + (?V AND 0xFFF))"
  have "unat (4095 + (?V AND 0xFFF)) = 4095 + unat (?V AND 0xFFF)" using d by (simp add: unat_plus_no_wrap)
  then have g: "unat g = unat (p_memsz ph) + (4095 + unat (?V AND 0xFFF))"
    unfolding g_def using d assms(2) by (subst unat_plus_no_wrap) simp_all
  have "(W AND NOT 0xFFF) - (?V AND NOT 0xFFF) = g - (W AND 0xFFF)"
    unfolding base by (simp add: W_def g_def)
  moreover have "(W AND 0xFFF) \<le> g" using g d by (simp add: word_le_iff_unat)
  ultimately have "unat (segment_pages ph) = (unat g - unat (W AND 0xFFF)) div 4096"
    by (simp add: segment_pages_def W_def unat_minus_no_wrap)
  then have "Suc (unat p) \<le> unat g div 4096"
    using assms(1) div_le_mono [of "unat g - unat (W AND 0xFFF)" "unat g" 4096] by (simp add: word_less_iff_unat)
  then have "4096 * Suc (unat p) \<le> unat g"
    using times_div_less_eq_dividend [of 4096 "unat g"] by (meson mult_le_mono2 order_trans)
  then show ?thesis using g d by simp
qed

text \<open>The byte \<open>k\<close> of page \<open>p\<close> is copied exactly when its distance \<open>w\<close> from the start of the segment lies in the file.\<close>

lemma page_in_file:
  assumes ext: "page_extent ph V p = (off, src, n)" and k: "k < 4096"
    and room: "unat (p_offset ph) + unat (p_filesz ph) + 4096 < 2 ^ 64" "unat (p_offset ph) + 4096 * unat p < 2 ^ 64"
    and w: "w = p * 4096 + k - (V AND 0xFFF)"
  shows "k - off < n \<longleftrightarrow> w < p_filesz ph"
proof -
  have u: "unat off = (if p = 0 then unat V mod 4096 else 0)"
    "unat src + unat V mod 4096 = unat (p_offset ph) + 4096 * unat p + unat off"
    "unat n = min (unat (p_offset ph) + unat (p_filesz ph) - unat src) (4096 - unat off)"
    using page_extent_unat [OF ext _ room(2)] room(1) by simp_all
  have d: "unat (V AND 0xFFF) = unat V mod 4096" "unat V mod 4096 < 4096" by (simp_all add: unat_and_fff)
  have p4: "unat (p * 4096) = 4096 * unat p" using room(2) by (simp add: unat_word_ariths)
  have pos: "p \<noteq> 0 \<Longrightarrow> 4096 \<le> 4096 * unat p" by (simp add: Suc_le_eq unat_gt_0)
  have kn: "unat k < 4096" using k by (simp add: word_less_iff_unat)
  have pk: "unat (p * 4096 + k) = 4096 * unat p + unat k"
  proof -
    have "4096 * unat p + unat k < 2 ^ 64"
      using kn p4 unsigned_less [of "p * 4096", where 'a = nat] by (cases "unat p < 2 ^ 52") auto
    then show ?thesis using p4 by (simp add: unat_plus_no_wrap)
  qed
  show ?thesis
  proof (cases "off \<le> k")
    case True
    then have ko: "unat (k - off) = unat k - unat off" "unat off \<le> unat k"
      by (simp_all add: unat_minus_no_wrap word_le_iff_unat)
    have le: "unat V mod 4096 \<le> 4096 * unat p + unat k"
      using ko u(1) d pos by (cases "p = 0") auto
    then have "unat w = 4096 * unat p + unat k - unat V mod 4096"
      unfolding w using pk d by (simp add: unat_minus_no_wrap word_le_iff_unat)
    then show ?thesis unfolding word_less_iff_unat ko(1)
      using extent_arith [OF u(2,3) le ko(2) kn] by simp
  next
    case False
    then have lt: "unat k < unat off" by (simp add: word_le_iff_unat)
    then have p0: "p = 0" "unat off = unat V mod 4096" using u(1) by (auto split: if_splits)
    have "unat w = 2 ^ 64 + unat k - unat V mod 4096"
      using lt p0 d by (simp add: w unat_sub_if_size word_size)
    then have "\<not> w < p_filesz ph" using room(1) d by (simp add: word_less_iff_unat)
    moreover have "\<not> k - off < n"
    proof -
      have "unat (k - off) = 2 ^ 64 + unat k - unat off" using lt by (simp add: unat_sub_if_size word_size)
      then have "4096 \<le> unat (k - off)" using p0 d by simp
      moreover have "unat n \<le> 4096" unfolding u(3) by simp
      ultimately show ?thesis by (simp add: word_less_iff_unat)
    qed
    ultimately show ?thesis by simp
  qed
qed

text \<open>The copy never overlaps its source when the file bytes of the segment lie outside the frame.\<close>

lemma page_copy_safe:
  assumes ext: "page_extent ph V p = (off, src, n)"
    and room: "unat (p_offset ph) + unat (p_filesz ph) + 4096 < 2 ^ 64" "unat (p_offset ph) + 4096 * unat p < 2 ^ 64"
    and apart: "\<And>i j. i < 4096 \<Longrightarrow> j < p_filesz ph \<Longrightarrow> frame + i \<noteq> elf_data + p_offset ph + j"
  shows "forward_safe (unat n) (frame + off) (elf_data + src)"
  unfolding forward_safe_def
proof (intro allI impI)
  fix i j assume ij: "i < unat n" "j < i"
  have u: "unat off = (if p = 0 then unat V mod 4096 else 0)"
    "unat src + unat V mod 4096 = unat (p_offset ph) + 4096 * unat p + unat off"
    "unat n = min (unat (p_offset ph) + unat (p_filesz ph) - unat src) (4096 - unat off)"
    using page_extent_unat [OF ext _ room(2)] room(1) by simp_all
  have i64: "i < 2 ^ 64" "j < 2 ^ 64" using ij unsigned_less [of n, where 'a = nat] by simp_all
  have no: "unat n \<le> 4096 - unat off" "unat n \<le> unat (p_offset ph) + unat (p_filesz ph) - unat src" using u(3) by simp_all
  have "unat (off + of_nat j) = unat off + j" using ij no i64 by (subst unat_plus_no_wrap) (simp_all add: unat_of_nat_small)
  then have fj: "off + of_nat j < 4096" using ij no by (simp add: word_less_iff_unat)
  define q where "q = src - p_offset ph + of_nat i"
  have "p \<noteq> 0 \<Longrightarrow> 4096 \<le> 4096 * unat p" by (simp add: Suc_le_eq unat_gt_0)
  moreover have "unat V mod 4096 < 4096" by simp
  ultimately have le: "unat (p_offset ph) \<le> unat src" using u by (cases "p = 0") auto
  then have "unat (src - p_offset ph) = unat src - unat (p_offset ph)"
    by (simp add: unat_minus_no_wrap word_le_iff_unat)
  then have "unat q = unat src - unat (p_offset ph) + i" unfolding q_def
    using ij no i64 room(1) by (subst unat_plus_no_wrap) (simp_all add: unat_of_nat_small)
  then have "q < p_filesz ph" using ij no le by (simp add: word_less_iff_unat)
  from apart [OF fj this] show "elf_data + src + of_nat i \<noteq> frame + off + of_nat j"
    by (simp add: q_def add.assoc)
qed

lemma fill_page_bytes:
  assumes ph: "ph = elf_phdr m phdr" and k: "k < 4096"
    and room: "unat (p_offset ph) + unat (p_filesz ph) + 4096 < 2 ^ 64" "unat (p_offset ph) + 4096 * unat p < 2 ^ 64"
    and apart: "\<And>i j. i < 4096 \<Longrightarrow> j < p_filesz ph \<Longrightarrow> frame + i \<noteq> elf_data + p_offset ph + j"
    and apart_hdr: "\<And>i j. i < 4096 \<Longrightarrow> j < 56 \<Longrightarrow> frame + i \<noteq> phdr + j"
  shows "fill_page elf_data phdr (p_vaddr ph) p frame m (frame + k) =
    (let w = (p_vaddr ph AND NOT 0xFFF) + p * 4096 + k - p_vaddr ph
     in if w < p_filesz ph then m (elf_data + p_offset ph + w) else 0)"
proof -
  let ?V = "p_vaddr ph"
  define m1 where "m1 = memset frame 0 4096 m"
  have m1: "m1 x = (if x - frame < 4096 then 0 else m x)" for x by (simp add: m1_def memset_eq)
  have far: "\<not> x - frame < 4096" if "\<And>i. i < 4096 \<Longrightarrow> frame + i \<noteq> x" for x
    using that [of "x - frame"] by auto
  have img: "m1 (elf_data + p_offset ph + j) = m (elf_data + p_offset ph + j)" if "j < p_filesz ph" for j
    using far [OF apart [OF _ that]] by (simp add: m1)
  have "elf_phdr m1 phdr = elf_phdr m phdr"
    by (rule elf_phdr_cong) (use far [OF apart_hdr] in \<open>simp add: m1\<close>)
  then have hdr: "elf_phdr m1 phdr = ph" by (simp add: ph)
  obtain off src n where ext: "page_extent ph ?V p = (off, src, n)" by (metis prod_cases3)
  define w where "w = (?V AND NOT 0xFFF) + p * 4096 + k - ?V"
  have w: "w = p * 4096 + k - (?V AND 0xFFF)" using page_base [of ?V] by (simp add: w_def algebra_simps)
  have "src + (?V AND 0xFFF) = p_offset ph + p * 4096 + off"
    using ext by (auto simp: page_extent_def Let_def split: if_splits)
  then have idx: "src + (k - off) = p_offset ph + w" by (simp add: w algebra_simps)
  have fill: "fill_page elf_data phdr ?V p frame m (frame + k) =
      (if k - off < n then m1 (elf_data + src + (k - off)) else 0)"
  proof (cases "n = 0")
    case True
    then show ?thesis using k by (simp add: fill_page_def m1_def [symmetric] hdr ext m1 Let_def)
  next
    case False
    then have "fill_page elf_data phdr ?V p frame m = copied (frame + off) (elf_data + src) n m1"
      using page_copy_safe [OF ext room apart]
      by (simp add: fill_page_def m1_def [symmetric] hdr ext Let_def memcpy_copied)
    then show ?thesis using k by (simp add: copied_def m1 algebra_simps)
  qed
  have e: "elf_data + src + (k - off) = elf_data + p_offset ph + w" using idx by (simp add: add.assoc)
  show ?thesis unfolding Let_def w_def [symmetric] fill e
    using page_in_file [OF ext k room w] img by simp
qed

section \<open>Properties\<close>

text \<open>C18. A segment's page: when the file part of the segment and its header lie outside the new frame and the sizes
  do not wrap, the frame holds at every address of the page the file byte of that address, and zero before the segment
  and behind its file part (the bss).\<close>

theorem elf_page_correct:
  assumes "ph = elf_phdr m phdr" "p < segment_pages ph" "p_filesz ph \<le> p_memsz ph"
    and "unat (p_offset ph) + unat (p_memsz ph) + 8192 < 2 ^ 64"
    and "\<forall>i<4096. (\<forall>j<p_filesz ph. frame + i \<noteq> elf_data + p_offset ph + j) \<and> (\<forall>j<56. frame + i \<noteq> phdr + j)"
  shows "\<forall>k<4096. fill_page elf_data phdr (p_vaddr ph) p frame m (frame + k) =
    (let w = (p_vaddr ph AND NOT 0xFFF) + p * 4096 + k - p_vaddr ph
     in if w < p_filesz ph then m (elf_data + p_offset ph + w) else 0)"
proof (intro allI impI fill_page_bytes assms(1))
  have "unat (p_filesz ph) \<le> unat (p_memsz ph)" using assms(3) by (simp add: word_le_iff_unat)
  then show "unat (p_offset ph) + unat (p_filesz ph) + 4096 < 2 ^ 64" using assms(4) by simp
  show "unat (p_offset ph) + 4096 * unat p < 2 ^ 64"
    using segment_pages_bound [OF assms(2)] assms(4) by simp
qed (use assms(5) in auto)

text \<open>An image whose only program header loads 3 bytes at address 4094 with room for 6.\<close>

definition small_image :: memory where
  "small_image = (\<lambda>_. 0)(0x2040 := 1, 0x2048 := 0x80, 0x2050 := 0xFE, 0x2051 := 0x0F, 0x2060 := 3, 0x2068 := 6,
     0x2080 := 0xAA, 0x2081 := 0xBB, 0x2082 := 0xCC)"

lemma small_phdr: "elf_phdr small_image 0x2040 =
    \<lparr>p_type = 1, p_flags = 0, p_offset = 0x80, p_vaddr = 0xFFE, p_filesz = 3, p_memsz = 6\<rparr>"
  by (simp add: elf_phdr_def load64_def load32_def load16_def small_image_def)

theorem elf_page_correct_witness:
  "fill_page 0x2000 0x2040 0xFFE 1 0x9000 small_image 0x9000 = 0xCC \<and>
   fill_page 0x2000 0x2040 0xFFE 1 0x9000 small_image 0x9001 = 0 \<and>
   fill_page 0x2000 0x2040 0xFFE 0 0x9000 small_image 0x9FFF = 0xBB"
proof -
  have "0x9000 + i \<noteq> 0x2080 + j \<and> 0x9000 + i \<noteq> 0x2040 + j" if "i < 4096" "j < 56" for i j :: u64
  proof -
    have "unat i < 4096" "unat j < 56" using that by (simp_all add: word_less_iff_unat)
    then have "unat (0x9000 + i) \<noteq> unat (0x2080 + j)" "unat (0x9000 + i) \<noteq> unat (0x2040 + j)"
      by (simp_all add: unat_plus_no_wrap)
    then show ?thesis by metis
  qed
  then have apart: "\<forall>i<4096. (\<forall>j<3. 0x9000 + i \<noteq> 0x2000 + 0x80 + j) \<and> (\<forall>j<56. 0x9000 + i \<noteq> (0x2040 :: u64) + j)"
    by (auto simp: order_less_trans [of _ 3 56])
  note t = elf_page_correct [OF small_phdr [symmetric], of _ "0x9000" "0x2000"]
  have "\<forall>k<4096. fill_page 0x2000 0x2040 0xFFE p 0x9000 small_image (0x9000 + k) =
      (let w = p * 4096 + k - 0xFFE in if w < 3 then small_image (0x2080 + w) else 0)" if "p < 2" for p
    using t [of p] apart that by (simp add: segment_pages_def Let_def)
  from this [of 0, THEN spec, of "0xFFF"] this [of 1, THEN spec, of 0] this [of 1, THEN spec, of 1] show ?thesis
    by (simp add: small_image_def Let_def)
qed

text \<open>A wrong magic number is refused without a change; otherwise the loader returns the entry point of the header.\<close>

theorem elf_load_magic:
  "elf_load elf_data s = (None, s) \<longleftrightarrow> load32 (phys_mem s) elf_data \<noteq> ELF_MAGIC"
  by (auto simp: elf_load_def elf_header_def Let_def split: prod.splits)

end
