(* ===== verification/Task.thy ===== *)
theory Task
  imports Elf Window
begin

text \<open>
  Tasks, run queues and the scheduler (src/kernel/task.c) with the per-CPU data of src/kernel/cpu.c. Tasks
  and CPUs live in stores indexed by their address, the run queue of a CPU is the linked list of the
  code; the kernel heap is the one of the window manager and the page tables, stacks and
  frames lie in the memory of \<open>Vmm\<close>. A run queue operation is one critical section of its lock. A result None
  is a loop that does not return.
\<close>

section \<open>State\<close>

datatype task_state_t = TASK_READY | TASK_RUNNING | TASK_EXITED

record task_t =
  task_id :: u64
  task_rsp :: u64
  stack_bottom :: u64
  user_stack_bottom :: u64
  kernel_rsp :: u64
  task_pml4 :: u64
  task_state :: task_state_t
  task_cpu :: int
  timeslice :: u32
  task_ticks :: u64
  task_next :: u64

record runqueue_t =
  rq_head :: u64
  rq_tail :: u64
  rq_count :: u32

text \<open>\<open>tss_rsp0\<close> is the ring-0 stack of the TSS; the rest of the GDT and the TSS is in \<open>Gdt\<close>.\<close>

record cpu_t =
  user_stack :: u64
  kernel_stack :: u64
  cpu_self :: u64
  current_task :: u64
  cpu_id :: u8
  need_resched :: u8
  cpu_ticks :: u64
  idle_ticks :: u64
  tss_rsp0 :: u64
  runqueue :: runqueue_t
  idle_task :: u64

text \<open>\<open>gs_cpu\<close> is the address in the GS base of the CPU that runs the code, what \<open>get_cpu()\<close> reads.\<close>

record kern =
  tasks :: "u64 \<Rightarrow> task_t"
  cpu_at :: "u64 \<Rightarrow> cpu_t"
  cpu_table :: "u64 carray"
  cpu_count :: nat
  gs_cpu :: u64
  next_id :: u64
  cr3 :: u64
  desktop :: win_state
  vm :: vmm_state

definition TASK_DEFAULT_TIMESLICE :: u32 where "TASK_DEFAULT_TIMESLICE = 4"

text \<open>\<open>sizeof(task_t)\<close>, and \<open>sizeof(cpu_t)\<close> with its packed GDT and TSS, on x86_64.\<close>

definition TASK_SIZE :: u64 where "TASK_SIZE = 80"
definition CPU_SIZE :: u64 where "CPU_SIZE = 298"

definition upd_task :: "u64 \<Rightarrow> (task_t \<Rightarrow> task_t) \<Rightarrow> kern \<Rightarrow> kern" where
  "upd_task t f s = s\<lparr>tasks := (tasks s)(t := f (tasks s t))\<rparr>"

definition upd_cpu :: "u64 \<Rightarrow> (cpu_t \<Rightarrow> cpu_t) \<Rightarrow> kern \<Rightarrow> kern" where
  "upd_cpu c f s = s\<lparr>cpu_at := (cpu_at s)(c := f (cpu_at s c))\<rparr>"

text \<open>kmalloc and kfree on the one kernel heap.\<close>

definition k_malloc :: "u64 \<Rightarrow> kern \<Rightarrow> (u64 \<times> kern) option" where
  "k_malloc n s = map_option (\<lambda>(p, h). (p, s\<lparr>desktop := (desktop s)\<lparr>win_heap := h\<rparr>\<rparr>)) (kmalloc n (win_heap (desktop s)))"

definition k_free :: "u64 \<Rightarrow> kern \<Rightarrow> kern option" where
  "k_free p s = map_option (\<lambda>h. s\<lparr>desktop := (desktop s)\<lparr>win_heap := h\<rparr>\<rparr>) (kfree p (win_heap (desktop s)))"

section \<open>CPUs\<close>

text \<open>The table has 64 slots; neither initialiser checks the bound.\<close>

definition fresh_cpu :: "u64 \<Rightarrow> u8 \<Rightarrow> kern \<Rightarrow> kern" where
  "fresh_cpu c i s =
     (let s1 = upd_cpu c (\<lambda>v. v\<lparr>cpu_id := i, current_task := 0, cpu_self := c, kernel_stack := 0,
             user_stack := 0, need_resched := 0\<rparr>) s
      in s1\<lparr>cpu_table := (cpu_table s1)(cpu_count s1 := c), cpu_count := cpu_count s1 + 1, gs_cpu := c\<rparr>)"

definition cpu_early_init :: "u64 \<Rightarrow> kern \<Rightarrow> kern" where
  "cpu_early_init bsp_cpu s = fresh_cpu bsp_cpu 0 s"

definition cpu_init :: "u8 \<Rightarrow> kern \<Rightarrow> kern option" where
  "cpu_init apic_id s =
     (if apic_id = 0 then Some s
      else map_option (\<lambda>(c, s1). fresh_cpu c apic_id s1) (k_malloc CPU_SIZE s))"

definition cpu_get_count :: "kern \<Rightarrow> nat" where
  "cpu_get_count s = cpu_count s"

definition cpu_get_by_index :: "kern \<Rightarrow> nat \<Rightarrow> u64" where
  "cpu_get_by_index s i = cpu_table s i"

section \<open>Run queues\<close>

definition enqueue_task :: "u64 \<Rightarrow> u64 \<Rightarrow> kern \<Rightarrow> kern" where
  "enqueue_task c t s =
     (let s1 = upd_task t (\<lambda>v. v\<lparr>task_next := 0\<rparr>) s;
          tail = rq_tail (runqueue (cpu_at s1 c));
          s2 = (if tail \<noteq> 0
                then upd_cpu c (\<lambda>v. v\<lparr>runqueue := (runqueue v)\<lparr>rq_tail := t\<rparr>\<rparr>) (upd_task tail (\<lambda>v. v\<lparr>task_next := t\<rparr>) s1)
                else upd_cpu c (\<lambda>v. v\<lparr>runqueue := (runqueue v)\<lparr>rq_head := t, rq_tail := t\<rparr>\<rparr>) s1)
      in upd_cpu c (\<lambda>v. v\<lparr>runqueue := (runqueue v)\<lparr>rq_count := rq_count (runqueue v) + 1\<rparr>\<rparr>) s2)"

definition dequeue_task :: "u64 \<Rightarrow> kern \<Rightarrow> u64 \<times> kern" where
  "dequeue_task c s =
     (let rq = runqueue (cpu_at s c)
      in if rq_head rq = 0 then (0, s)
         else let task = rq_head rq;
                  rq1 = rq\<lparr>rq_head := task_next (tasks s task)\<rparr>;
                  rq2 = (if rq_head rq1 = 0 then rq1\<lparr>rq_tail := 0\<rparr> else rq1)
              in (task, upd_cpu c (\<lambda>v. v\<lparr>runqueue := rq2\<lparr>rq_count := rq_count rq2 - 1\<rparr>\<rparr>) s))"

text \<open>The load of a CPU is a signed int: its queue and its running task unless that is the idle task.\<close>

definition cpu_load :: "kern \<Rightarrow> u64 \<Rightarrow> int" where
  "cpu_load s c =
     (let n = sint (rq_count (runqueue (cpu_at s c))); t = current_task (cpu_at s c)
      in if t \<noteq> 0 \<and> task_id (tasks s t) \<noteq> 0 then i32 (n + 1) else n)"

definition pick_least_loaded_cpu :: "kern \<Rightarrow> u64" where
  "pick_least_loaded_cpu s =
     fst (fold (\<lambda>i (least, min_load).
         let cpu = cpu_get_by_index s i; load = cpu_load s cpu
         in if load < min_load then (cpu, load) else (least, min_load))
       [1..<cpu_get_count s] (cpu_get_by_index s 0, cpu_load s (cpu_get_by_index s 0)))"

section \<open>Creating tasks\<close>

definition task_init_global :: "kern \<Rightarrow> kern" where
  "task_init_global s = s\<lparr>next_id := 1\<rparr>"

definition task_init_per_cpu :: "kern \<Rightarrow> kern option" where
  "task_init_per_cpu s =
     (let cpu = gs_cpu s;
          s1 = upd_cpu cpu (\<lambda>v. v\<lparr>runqueue := \<lparr>rq_head = 0, rq_tail = 0, rq_count = 0\<rparr>\<rparr>) s
      in map_option (\<lambda>(idle, s2).
           let s3 = upd_task idle (\<lambda>v. v\<lparr>task_id := 0, task_state := TASK_RUNNING, task_cpu := uint (cpu_id (cpu_at s2 cpu)),
                  task_next := 0, task_rsp := 0, kernel_rsp := 0, stack_bottom := 0, user_stack_bottom := 0,
                  timeslice := 0, task_pml4 := cr3 s2\<rparr>) s2
           in upd_cpu cpu (\<lambda>v. v\<lparr>idle_task := idle, current_task := idle, cpu_ticks := 0, idle_ticks := 0\<rparr>) s3)
         (k_malloc TASK_SIZE s1))"

text \<open>\<open>*(--stack) = value\<close>, and the 22 qwords of an interrupt frame, which is 15 registers, the
  interrupt number, an error code, and RIP, CS, RFLAGS, RSP and SS.\<close>

definition push64 :: "u64 \<Rightarrow> u64 \<times> memory \<Rightarrow> u64 \<times> memory" where
  "push64 v = (\<lambda>(sp, m). (sp - 8, store64 m (sp - 8) v))"

definition push_frame :: "u64 \<Rightarrow> u64 \<Rightarrow> u64 \<Rightarrow> u64 \<Rightarrow> u64 \<Rightarrow> memory \<Rightarrow> u64 \<times> memory" where
  "push_frame ss rsp cs rip stack m = fold push64 ([ss, rsp, 0x202, cs, rip, 0, 0] @ replicate 15 0) (stack, m)"

definition STACK_SIZE :: u64 where "STACK_SIZE = 4096 * 4"

definition take_id :: "u64 \<Rightarrow> kern \<Rightarrow> kern" where
  "take_id t s = (upd_task t (\<lambda>v. v\<lparr>task_id := next_id s\<rparr>) s)\<lparr>next_id := next_id s + 1\<rparr>"

text \<open>The end of the three creators: the new task is ready and goes to the least loaded CPU.\<close>

definition launch :: "u64 \<Rightarrow> u64 \<Rightarrow> kern \<Rightarrow> kern" where
  "launch t stack s =
     (let s1 = upd_task t (\<lambda>v. v\<lparr>task_rsp := stack, task_state := TASK_READY,
                timeslice := TASK_DEFAULT_TIMESLICE, task_ticks := 0\<rparr>) s;
          target = pick_least_loaded_cpu s1;
          s2 = upd_task t (\<lambda>v. v\<lparr>task_cpu := uint (cpu_id (cpu_at s1 target))\<rparr>) s1
      in enqueue_task target t s2)"

text \<open>
  In \<open>*(--stack) = (uint64_t)stack + 8\<close> the C standard leaves open which value of \<open>stack\<close> the right side reads;
  the stack pointer slot is the argument \<open>rsp\<close>, a function of the stack top.
\<close>

definition task_create :: "(u64 \<Rightarrow> u64) \<Rightarrow> u64 \<Rightarrow> kern \<Rightarrow> (u64 \<times> kern) option" where
  "task_create rsp start s =
     Option.bind (k_malloc TASK_SIZE s) (\<lambda>(t, s1).
       let s2 = take_id t s1;
           s3 = upd_task t (\<lambda>v. v\<lparr>task_pml4 := cr3 s2\<rparr>) s2
       in map_option (\<lambda>(bottom, s4).
            let stack = bottom + STACK_SIZE;
                s5 = upd_task t (\<lambda>v. v\<lparr>stack_bottom := bottom, user_stack_bottom := 0, kernel_rsp := stack\<rparr>) s4;
                (sp, m) = push_frame 0x10 (rsp stack) 0x08 start stack (phys_mem (vm s5))
            in (t, launch t sp (s5\<lparr>vm := (vm s5)\<lparr>phys_mem := m\<rparr>\<rparr>)))
          (k_malloc STACK_SIZE s3))"

text \<open>The two stacks of a user task and its ring 3 frame, as \<open>task_create_user\<close> and \<open>task_exec\<close> build them.\<close>

definition user_stacks :: "u64 \<Rightarrow> u64 \<Rightarrow> kern \<Rightarrow> (u64 \<times> kern) option" where
  "user_stacks t start s =
     Option.bind (k_malloc STACK_SIZE s) (\<lambda>(ubottom, s1).
       let s2 = upd_task t (\<lambda>v. v\<lparr>user_stack_bottom := ubottom\<rparr>) s1;
           ustack = ubottom + STACK_SIZE
       in map_option (\<lambda>(kbottom, s3).
            let kstack = kbottom + STACK_SIZE;
                s4 = upd_task t (\<lambda>v. v\<lparr>stack_bottom := kbottom, kernel_rsp := kstack\<rparr>) s3;
                (sp, m) = push_frame 0x1B ustack 0x23 start kstack (phys_mem (vm s4))
            in (t, launch t sp (s4\<lparr>vm := (vm s4)\<lparr>phys_mem := m\<rparr>\<rparr>)))
          (k_malloc STACK_SIZE s2))"

definition task_create_user :: "u64 \<Rightarrow> kern \<Rightarrow> (u64 \<times> kern) option" where
  "task_create_user start s =
     Option.bind (k_malloc TASK_SIZE s) (\<lambda>(t, s1).
       let s2 = take_id t s1;
           (pml4, v2) = vmm_create_address_space (vm s2);
           s3 = upd_task t (\<lambda>v. v\<lparr>task_pml4 := pml4\<rparr>) (s2\<lparr>vm := v2\<rparr>)
       in user_stacks t start s3)"

definition task_exec :: "u64 \<Rightarrow> kern \<Rightarrow> (u64 \<times> kern) option" where
  "task_exec elf_data s =
     (let (loaded, v) = elf_load elf_data (vm s); s0 = s\<lparr>vm := v\<rparr>
      in case loaded of
           None \<Rightarrow> Some (0, s0)
         | Some (start, pml4) \<Rightarrow>
             Option.bind (k_malloc TASK_SIZE s0) (\<lambda>(t, s1).
               let s2 = take_id t s1;
                   s3 = upd_task t (\<lambda>v. v\<lparr>task_pml4 := pml4\<rparr>) s2
               in user_stacks t start s3))"

text \<open>\<open>task_fork\<close> copies the saved kernel stack of the parent and clears the qword at its lowest address.\<close>

definition task_fork :: "kern \<Rightarrow> (u64 \<times> kern) option" where
  "task_fork s =
     (let cpu = gs_cpu s; parent = current_task (cpu_at s cpu)
      in Option.bind (k_malloc TASK_SIZE s) (\<lambda>(child, s1).
           let s2 = take_id child s1;
               (pml4, v2) = vmm_clone_address_space (task_pml4 (tasks s2 parent)) (vm s2);
               s3 = upd_task child (\<lambda>v. v\<lparr>task_pml4 := pml4\<rparr>) (s2\<lparr>vm := v2\<rparr>)
           in Option.bind (k_malloc STACK_SIZE s3) (\<lambda>(kbottom, s4).
                let s5 = upd_task child (\<lambda>v. v\<lparr>stack_bottom := kbottom\<rparr>) s4
                in map_option (\<lambda>(ubottom, s6).
                     let s7 = upd_task child (\<lambda>v. v\<lparr>user_stack_bottom := ubottom\<rparr>) s6;
                         used = kernel_rsp (tasks s7 parent) - task_rsp (tasks s7 parent);
                         m = memcpy (stack_bottom (tasks s7 child) + STACK_SIZE - used) (task_rsp (tasks s7 parent)) used
                               (phys_mem (vm s7));
                         krsp = stack_bottom (tasks s7 child) + STACK_SIZE;
                         m1 = store64 m (krsp - used) 0;
                         s8 = upd_task child (\<lambda>v. v\<lparr>kernel_rsp := krsp, task_rsp := krsp - used, task_state := TASK_READY,
                                task_cpu := task_cpu (tasks s7 parent), timeslice := TASK_DEFAULT_TIMESLICE, task_ticks := 0\<rparr>)
                                (s7\<lparr>vm := (vm s7)\<lparr>phys_mem := m1\<rparr>\<rparr>);
                         s9 = enqueue_task cpu child s8
                     in (task_id (tasks s9 child), s9))
                   (if user_stack_bottom (tasks s5 parent) \<noteq> 0 then k_malloc (4096 * 4) s5 else Some (0, s5)))))"

section \<open>Scheduling\<close>

definition task_reap :: "u64 \<Rightarrow> kern \<Rightarrow> kern option" where
  "task_reap t s =
     (let s1 = (if task_pml4 (tasks s t) \<noteq> 0
                then s\<lparr>vm := vmm_destroy_address_space (task_pml4 (tasks s t)) (vm s)\<rparr> else s)
      in Option.bind (map_option (\<lambda>d. s1\<lparr>desktop := d\<rparr>) (window_destroy_by_pid (task_id (tasks s1 t)) (desktop s1))) (\<lambda>s2.
         Option.bind (if stack_bottom (tasks s2 t) \<noteq> 0 then k_free (stack_bottom (tasks s2 t)) s2 else Some s2) (\<lambda>s3.
         Option.bind (if user_stack_bottom (tasks s3 t) \<noteq> 0 then k_free (user_stack_bottom (tasks s3 t)) s3 else Some s3)
           (k_free t))))"

fun steal_from :: "u64 \<Rightarrow> u64 list \<Rightarrow> kern \<Rightarrow> u64 \<times> kern" where
  "steal_from self [] s = (0, s)"
| "steal_from self (victim # vs) s =
     (if victim = self then steal_from self vs s
      else let (task, s1) = dequeue_task victim s
           in if task \<noteq> 0
              then (task, upd_task task (\<lambda>v. v\<lparr>task_cpu := uint (cpu_id (cpu_at s1 self))\<rparr>) s1)
              else steal_from self vs s1)"

definition task_steal :: "kern \<Rightarrow> u64 \<times> kern" where
  "task_steal s = steal_from (gs_cpu s) (map (cpu_get_by_index s) [0..<cpu_get_count s]) s"

text \<open>The search for the next task: it reaps finished tasks and puts a task that is already running back; the
  result 0 stands for nothing to run.\<close>

definition next_candidate :: "kern \<Rightarrow> u64 \<times> kern" where
  "next_candidate s =
     (let (task, s1) = dequeue_task (gs_cpu s) s in if task = 0 then task_steal s1 else (task, s1))"

partial_function (option) pick_next :: "kern \<Rightarrow> (u64 \<times> kern) option" where
  "pick_next s =
     (case next_candidate s of (task, s1) \<Rightarrow>
        if task = 0 then Some (0, s1)
        else if task_state (tasks s1 task) = TASK_EXITED
        then (case task_reap task s1 of None \<Rightarrow> None | Some s2 \<Rightarrow> pick_next s2)
        else if task_state (tasks s1 task) = TASK_READY then Some (task, s1)
        else pick_next (enqueue_task (gs_cpu s1) task s1))"

definition requeue_current :: "u64 \<Rightarrow> kern \<Rightarrow> kern" where
  "requeue_current rsp s =
     (let cpu = gs_cpu s;
          s1 = upd_cpu cpu (\<lambda>v. v\<lparr>need_resched := 0\<rparr>) s;
          cur = current_task (cpu_at s1 cpu);
          s2 = upd_task cur (\<lambda>v. v\<lparr>task_rsp := rsp\<rparr>) s1
      in if task_state (tasks s2 cur) = TASK_RUNNING
         then let s3 = upd_task cur (\<lambda>v. v\<lparr>task_state := TASK_READY\<rparr>) s2
              in if task_id (tasks s3 cur) \<noteq> 0 then enqueue_task cpu cur s3 else s3
         else s2)"

text \<open>\<open>tss_set_rsp0\<close>, \<open>syscall_set_kernel_stack\<close> and \<open>vmm_switch_address_space\<close>.\<close>

definition tss_set_rsp0 :: "u64 \<Rightarrow> kern \<Rightarrow> kern" where
  "tss_set_rsp0 rsp s = upd_cpu (gs_cpu s) (\<lambda>v. v\<lparr>tss_rsp0 := rsp\<rparr>) s"

definition syscall_set_kernel_stack :: "u64 \<Rightarrow> kern \<Rightarrow> kern" where
  "syscall_set_kernel_stack stack s = upd_cpu (gs_cpu s) (\<lambda>v. v\<lparr>kernel_stack := stack\<rparr>) s"

definition vmm_switch_address_space :: "u64 \<Rightarrow> kern \<Rightarrow> kern" where
  "vmm_switch_address_space pml4 s = s\<lparr>cr3 := pml4\<rparr>"

definition switch_to :: "u64 \<Rightarrow> kern \<Rightarrow> kern" where
  "switch_to t s =
     (let cpu = gs_cpu s;
          t' = (if t = 0 then idle_task (cpu_at s cpu) else t);
          s1 = upd_cpu cpu (\<lambda>v. v\<lparr>current_task := t'\<rparr>) s;
          s2 = upd_task t' (\<lambda>v. v\<lparr>task_state := TASK_RUNNING,
                 timeslice := (if task_id v = 0 then 0 else TASK_DEFAULT_TIMESLICE)\<rparr>) s1;
          s3 = tss_set_rsp0 (kernel_rsp (tasks s2 t')) s2;
          s4 = syscall_set_kernel_stack (kernel_rsp (tasks s3 t')) s3
      in vmm_switch_address_space (task_pml4 (tasks s4 t')) s4)"

definition task_schedule :: "u64 \<Rightarrow> kern \<Rightarrow> (u64 \<times> kern) option" where
  "task_schedule current_rsp s =
     (if current_task (cpu_at s (gs_cpu s)) = 0 then Some (current_rsp, s)
      else map_option (\<lambda>(t, s1).
          let s2 = switch_to t s1 in (task_rsp (tasks s2 (current_task (cpu_at s2 (gs_cpu s2)))), s2))
        (pick_next (requeue_current current_rsp s)))"

definition task_request_reschedule :: "kern \<Rightarrow> kern" where
  "task_request_reschedule s = upd_cpu (gs_cpu s) (\<lambda>v. v\<lparr>need_resched := 1\<rparr>) s"

definition task_needs_schedule :: "kern \<Rightarrow> int" where
  "task_needs_schedule s = uint (need_resched (cpu_at s (gs_cpu s)))"

definition task_timer_tick :: "kern \<Rightarrow> kern" where
  "task_timer_tick s =
     (let cpu = gs_cpu s;
          current = current_task (cpu_at s cpu);
          s1 = upd_cpu cpu (\<lambda>v. v\<lparr>cpu_ticks := cpu_ticks v + 1\<rparr>) s;
          s2 = (if current \<noteq> 0
                then let s' = upd_task current (\<lambda>v. v\<lparr>task_ticks := task_ticks v + 1\<rparr>) s1
                     in if task_id (tasks s' current) = 0 then upd_cpu cpu (\<lambda>v. v\<lparr>idle_ticks := idle_ticks v + 1\<rparr>) s' else s'
                else s1);
          resched = upd_cpu cpu (\<lambda>v. v\<lparr>need_resched := 1\<rparr>)
      in if current = 0 then resched s2
         else if task_state (tasks s2 current) \<noteq> TASK_RUNNING then resched s2
         else if task_id (tasks s2 current) = 0
         then if rq_count (runqueue (cpu_at s2 cpu)) \<noteq> 0 then resched s2 else s2
         else let s3 = (if timeslice (tasks s2 current) > 0
                        then upd_task current (\<lambda>v. v\<lparr>timeslice := timeslice v - 1\<rparr>) s2 else s2)
              in if timeslice (tasks s3 current) = 0 then resched s3 else s3)"

section \<open>Task snapshots\<close>

record task_info_t =
  info_id :: u64
  info_cpu :: u32
  info_ticks :: u64
  info_state :: u32

fun state_number :: "task_state_t \<Rightarrow> u32" where
  "state_number TASK_READY = 0"
| "state_number TASK_RUNNING = 1"
| "state_number TASK_EXITED = 2"

definition task_info :: "kern \<Rightarrow> u64 \<Rightarrow> u64 \<Rightarrow> task_info_t" where
  "task_info s c t = \<lparr>info_id = task_id (tasks s t), info_cpu = ucast (cpu_id (cpu_at s c)),
     info_ticks = task_ticks (tasks s t), info_state = state_number (task_state (tasks s t))\<rparr>"

text \<open>At most \<open>n\<close> tasks of a queue.\<close>

fun queue_infos :: "nat \<Rightarrow> u64 \<Rightarrow> u64 \<Rightarrow> kern \<Rightarrow> task_info_t list" where
  "queue_infos 0 c cur s = []"
| "queue_infos (Suc n) c cur s =
     (if cur = 0 then [] else task_info s c cur # queue_infos n c (task_next (tasks s cur)) s)"

definition cpu_infos :: "nat \<Rightarrow> u64 \<Rightarrow> kern \<Rightarrow> task_info_t list" where
  "cpu_infos room c s =
     (let cur = current_task (cpu_at s c);
          first = (if cur \<noteq> 0 \<and> room > 0 then [task_info s c cur] else [])
      in first @ queue_infos (room - length first) c (rq_head (runqueue (cpu_at s c))) s)"

definition task_get_all_info :: "u32 \<Rightarrow> kern \<Rightarrow> task_info_t list" where
  "task_get_all_info max_tasks s =
     fold (\<lambda>i out. out @ cpu_infos (unat max_tasks - length out) (cpu_get_by_index s i) s) [0..<cpu_get_count s] []"

section \<open>Run queues are queues\<close>

definition task_links :: "kern \<Rightarrow> u64 \<Rightarrow> u64" where
  "task_links s = (\<lambda>t. task_next (tasks s t))"

definition rq_ok :: "kern \<Rightarrow> u64 \<Rightarrow> u64 list \<Rightarrow> bool" where
  "rq_ok s c ts \<longleftrightarrow> chain (task_links s) (rq_head (runqueue (cpu_at s c))) ts \<and>
     rq_tail (runqueue (cpu_at s c)) = (if ts = [] then 0 else last ts) \<and>
     rq_count (runqueue (cpu_at s c)) = of_nat (length ts)"

lemma upd_simps [simp]:
  "tasks (upd_cpu c f s) = tasks s" "cpu_at (upd_task t g s) = cpu_at s"
  "tasks (upd_task t g s) = (tasks s)(t := g (tasks s t))" "cpu_at (upd_cpu c f s) = (cpu_at s)(c := f (cpu_at s c))"
  "cpu_table (upd_cpu c f s) = cpu_table s" "cpu_table (upd_task t g s) = cpu_table s"
  "cpu_count (upd_cpu c f s) = cpu_count s" "cpu_count (upd_task t g s) = cpu_count s"
  "gs_cpu (upd_cpu c f s) = gs_cpu s" "gs_cpu (upd_task t g s) = gs_cpu s"
  "next_id (upd_cpu c f s) = next_id s" "next_id (upd_task t g s) = next_id s"
  "cr3 (upd_cpu c f s) = cr3 s" "cr3 (upd_task t g s) = cr3 s"
  "desktop (upd_cpu c f s) = desktop s" "desktop (upd_task t g s) = desktop s"
  "vm (upd_cpu c f s) = vm s" "vm (upd_task t g s) = vm s"
  by (simp_all add: upd_cpu_def upd_task_def)

text \<open>What a queue operation leaves alone: everything but the links and the queue itself.\<close>

definition core :: "task_t \<Rightarrow> task_t" where
  "core t = t\<lparr>task_next := 0, task_cpu := 0\<rparr>"

definition cpu_core :: "cpu_t \<Rightarrow> cpu_t" where
  "cpu_core c = c\<lparr>runqueue := \<lparr>rq_head = 0, rq_tail = 0, rq_count = 0\<rparr>\<rparr>"

definition frame_eq :: "kern \<Rightarrow> kern \<Rightarrow> bool" where
  "frame_eq s s' \<longleftrightarrow> (\<forall>t. core (tasks s' t) = core (tasks s t)) \<and> (\<forall>c. cpu_core (cpu_at s' c) = cpu_core (cpu_at s c)) \<and>
     cpu_table s' = cpu_table s \<and> cpu_count s' = cpu_count s \<and> gs_cpu s' = gs_cpu s \<and> next_id s' = next_id s \<and>
     cr3 s' = cr3 s \<and> desktop s' = desktop s \<and> vm s' = vm s"

lemma core_fields:
  "core a = core b \<Longrightarrow> task_id a = task_id b \<and> task_rsp a = task_rsp b \<and> stack_bottom a = stack_bottom b \<and>
     user_stack_bottom a = user_stack_bottom b \<and> kernel_rsp a = kernel_rsp b \<and> task_pml4 a = task_pml4 b \<and>
     task_state a = task_state b \<and> timeslice a = timeslice b \<and> task_ticks a = task_ticks b"
  by (cases a; cases b) (simp add: core_def)

lemma cpu_core_fields:
  "cpu_core a = cpu_core b \<Longrightarrow> current_task a = current_task b \<and> idle_task a = idle_task b \<and> cpu_id a = cpu_id b \<and>
     cpu_self a = cpu_self b \<and> need_resched a = need_resched b \<and> cpu_ticks a = cpu_ticks b \<and> idle_ticks a = idle_ticks b"
  by (cases a; cases b) (simp add: cpu_core_def)

lemma enqueue_frame: "frame_eq s (enqueue_task c t s)"
  by (auto simp: frame_eq_def enqueue_task_def Let_def core_def cpu_core_def)

lemma dequeue_frame: "frame_eq s (snd (dequeue_task c s))"
  by (auto simp: frame_eq_def dequeue_task_def Let_def core_def cpu_core_def)

lemma enqueue_ok:
  assumes "rq_ok s c ts" "t \<noteq> 0" "t \<notin> set ts"
  shows "rq_ok (enqueue_task c t s) c (ts @ [t])"
proof (cases ts rule: rev_cases)
  case Nil
  with assms show ?thesis
    by (simp add: rq_ok_def enqueue_task_def Let_def task_links_def)
next
  case (snoc as a)
  have ch: "chain (task_links s) (rq_head (runqueue (cpu_at s c))) (as @ [a])" and tail: "rq_tail (runqueue (cpu_at s c)) = a"
    using assms(1) by (simp_all add: rq_ok_def snoc)
  have a: "a \<noteq> 0" "t \<noteq> a" using chain_nonzero [OF ch] assms(3) by (auto simp: snoc)
  have "task_links (enqueue_task c t s) = (task_links s)(t := 0, a := t)"
    using a by (auto simp: task_links_def enqueue_task_def Let_def tail)
  then show ?thesis using chain_snoc [OF ch assms(2)] assms a
    by (simp add: rq_ok_def snoc) (simp add: enqueue_task_def Let_def tail a)
qed

lemma enqueue_other:
  assumes "rq_ok s c ts" "rq_ok s d us" "c \<noteq> d" "t \<notin> set us" "set ts \<inter> set us = {}"
  shows "rq_ok (enqueue_task c t s) d us"
proof -
  have "rq_tail (runqueue (cpu_at s c)) \<notin> set us \<or> rq_tail (runqueue (cpu_at s c)) = 0"
    using assms(1,5) by (cases ts rule: rev_cases) (auto simp: rq_ok_def)
  then have "task_links (enqueue_task c t s) q = task_links s q" if "q \<in> set us" for q
    using that assms(4) by (auto simp: task_links_def enqueue_task_def Let_def)
  then have ch: "chain (task_links (enqueue_task c t s)) p us = chain (task_links s) p us" for p
    by (rule chain_cong)
  have "cpu_at (enqueue_task c t s) d = cpu_at s d" using assms(3) by (simp add: enqueue_task_def Let_def)
  then show ?thesis using assms(2) unfolding rq_ok_def ch by simp
qed

lemma dequeue_empty: "rq_ok s c [] \<Longrightarrow> dequeue_task c s = (0, s)"
  by (simp add: rq_ok_def dequeue_task_def Let_def)

lemma dequeue_ok:
  assumes "rq_ok s c (t # ts)"
  shows "\<exists>s'. dequeue_task c s = (t, s') \<and> rq_ok s' c ts \<and> tasks s' = tasks s \<and> (\<forall>d. d \<noteq> c \<longrightarrow> cpu_at s' d = cpu_at s d)"
proof -
  have "task_next (tasks s t) = 0 \<longleftrightarrow> ts = []" using assms by (cases ts) (auto simp: rq_ok_def task_links_def)
  with assms show ?thesis
    by (auto simp: rq_ok_def dequeue_task_def Let_def task_links_def)
qed

section \<open>All run queues together\<close>

definition cpus_of :: "kern \<Rightarrow> u64 list" where
  "cpus_of s = map (cpu_get_by_index s) [0..<cpu_get_count s]"

text \<open>The queues \<open>Q\<close> of the CPUs \<open>cs\<close> hold distinct tasks.\<close>

definition queues_ok :: "kern \<Rightarrow> u64 list \<Rightarrow> (u64 \<Rightarrow> u64 list) \<Rightarrow> bool" where
  "queues_ok s cs Q \<longleftrightarrow> distinct cs \<and> (\<forall>c\<in>set cs. rq_ok s c (Q c)) \<and> distinct (concat (map Q cs))"

definition queued :: "u64 list \<Rightarrow> (u64 \<Rightarrow> u64 list) \<Rightarrow> u64 set" where
  "queued cs Q = (\<Union>c\<in>set cs. set (Q c))"

lemma queued_nonzero: "queues_ok s cs Q \<Longrightarrow> 0 \<notin> queued cs Q"
  by (auto simp: queues_ok_def queued_def rq_ok_def dest: chain_nonzero)

lemma distinct_concat_iff:
  "distinct cs \<Longrightarrow> distinct (concat (map Q cs)) \<longleftrightarrow> (\<forall>c\<in>set cs. distinct (Q c)) \<and>
     (\<forall>c\<in>set cs. \<forall>d\<in>set cs. c \<noteq> d \<longrightarrow> set (Q c) \<inter> set (Q d) = {})"
proof (induction cs)
  case (Cons a cs)
  then have "distinct (concat (map Q cs)) \<longleftrightarrow> (\<forall>c\<in>set cs. distinct (Q c)) \<and>
      (\<forall>c\<in>set cs. \<forall>d\<in>set cs. c \<noteq> d \<longrightarrow> set (Q c) \<inter> set (Q d) = {})" "a \<notin> set cs" by simp_all
  moreover have "set (Q a) \<inter> set (concat (map Q cs)) = {} \<longleftrightarrow> (\<forall>d\<in>set cs. set (Q a) \<inter> set (Q d) = {})" by auto
  moreover have "set (Q c) \<inter> set (Q a) = {} \<longleftrightarrow> set (Q a) \<inter> set (Q c) = {}" for c by blast
  moreover have "c \<in> set cs \<Longrightarrow> c \<noteq> a \<and> a \<noteq> c" for c using Cons.prems by auto
  ultimately show ?case unfolding list.map concat.simps distinct_append list.set ball_simps
    by (simp cong: conj_cong) blast
qed simp

lemma queues_apart:
  "queues_ok s cs Q \<Longrightarrow> c \<in> set cs \<Longrightarrow> d \<in> set cs \<Longrightarrow> c \<noteq> d \<Longrightarrow> set (Q c) \<inter> set (Q d) = {}"
  unfolding queues_ok_def using distinct_concat_iff [of cs Q] by blast

lemma queues_enqueue:
  assumes "queues_ok s cs Q" "c \<in> set cs" "t \<noteq> 0" "t \<notin> queued cs Q"
  shows "queues_ok (enqueue_task c t s) cs (Q(c := Q c @ [t]))"
proof -
  have new: "t \<notin> set (Q d)" if "d \<in> set cs" for d using assms(4) that by (auto simp: queued_def)
  have "rq_ok (enqueue_task c t s) d ((Q(c := Q c @ [t])) d)" if "d \<in> set cs" for d
    using that assms(1,2,3) new [of d] new [of c] enqueue_ok [of s c "Q c" t] queues_apart [OF assms(1,2), of d]
      enqueue_other [of s c "Q c" d "Q d" t] by (cases "d = c") (auto simp: queues_ok_def)
  moreover have "distinct (concat (map (Q(c := Q c @ [t])) cs))"
    using assms(1) new queues_apart [OF assms(1)] by (auto simp: queues_ok_def distinct_concat_iff assms(2))
  ultimately show ?thesis using assms(1) by (simp add: queues_ok_def)
qed

lemma queues_dequeue:
  assumes "queues_ok s cs Q" "c \<in> set cs" "Q c = t # ts"
  shows "\<exists>s'. dequeue_task c s = (t, s') \<and> queues_ok s' cs (Q(c := ts)) \<and> frame_eq s s'"
proof -
  obtain s' where s': "dequeue_task c s = (t, s')" "rq_ok s' c ts" "tasks s' = tasks s" "\<And>d. d \<noteq> c \<Longrightarrow> cpu_at s' d = cpu_at s d"
    using dequeue_ok [of s c t ts] assms unfolding queues_ok_def by metis
  have "rq_ok s' d ((Q(c := ts)) d)" if "d \<in> set cs" for d
    using that assms(1) s'(2-4) by (cases "d = c") (auto simp: queues_ok_def rq_ok_def task_links_def)
  moreover have "distinct (concat (map (Q(c := ts)) cs))"
  proof -
    have d: "distinct cs" "\<forall>d\<in>set cs. distinct (Q d)"
      using assms(1) distinct_concat_iff [of cs Q] by (simp_all add: queues_ok_def)
    have ts: "distinct ts" "set ts \<subseteq> set (Q c)" using d(2) assms(2,3) by fastforce+
    have "\<forall>a\<in>set cs. \<forall>b\<in>set cs. a \<noteq> b \<longrightarrow> set ((Q(c := ts)) a) \<inter> set ((Q(c := ts)) b) = {}"
      using queues_apart [OF assms(1)] ts(2) assms(2) by (simp add: fun_upd_def) blast
    then show ?thesis using d ts(1) by (simp add: distinct_concat_iff)
  qed
  ultimately have "queues_ok s' cs (Q(c := ts))" using assms(1) by (simp add: queues_ok_def)
  then show ?thesis using s'(1) dequeue_frame [of s c] by auto
qed

section \<open>The scheduler\<close>

text \<open>
  What holds between scheduler runs: every queue is intact, queued tasks are ready and no idle tasks, and each CPU runs a
  task of its own that is not queued.
\<close>

definition sched_ok :: "kern \<Rightarrow> (u64 \<Rightarrow> u64 list) \<Rightarrow> bool" where
  "sched_ok s Q \<longleftrightarrow> queues_ok s (cpus_of s) Q \<and> gs_cpu s \<in> set (cpus_of s) \<and>
     (\<forall>t\<in>queued (cpus_of s) Q. task_state (tasks s t) = TASK_READY \<and> task_id (tasks s t) \<noteq> 0) \<and>
     (\<forall>c\<in>set (cpus_of s). current_task (cpu_at s c) \<noteq> 0 \<and> current_task (cpu_at s c) \<notin> queued (cpus_of s) Q \<and>
        task_state (tasks s (current_task (cpu_at s c))) \<noteq> TASK_READY \<and>
        idle_task (cpu_at s c) \<noteq> 0 \<and> task_id (tasks s (idle_task (cpu_at s c))) = 0 \<and>
        (task_id (tasks s (current_task (cpu_at s c))) = 0 \<longrightarrow> current_task (cpu_at s c) = idle_task (cpu_at s c))) \<and>
     (\<forall>c\<in>set (cpus_of s). \<forall>d\<in>set (cpus_of s). c \<noteq> d \<longrightarrow>
        current_task (cpu_at s c) \<noteq> current_task (cpu_at s d) \<and> idle_task (cpu_at s c) \<noteq> idle_task (cpu_at s d))"

text \<open>The abstract scheduler: the own queue first, then the others in the order of the CPU table.\<close>

definition requeued :: "kern \<Rightarrow> (u64 \<Rightarrow> u64 list) \<Rightarrow> u64 \<Rightarrow> u64 list" where
  "requeued s Q =
     (let me = gs_cpu s; cur = current_task (cpu_at s me)
      in if task_state (tasks s cur) = TASK_RUNNING \<and> task_id (tasks s cur) \<noteq> 0 then Q(me := Q me @ [cur]) else Q)"

definition sched_pick :: "u64 \<Rightarrow> u64 list \<Rightarrow> (u64 \<Rightarrow> u64 list) \<Rightarrow> u64 \<times> (u64 \<Rightarrow> u64 list)" where
  "sched_pick me cs Q =
     (case find (\<lambda>c. Q c \<noteq> []) (me # filter (\<lambda>c. c \<noteq> me) cs) of
        None \<Rightarrow> (0, Q)
      | Some c \<Rightarrow> (hd (Q c), Q(c := tl (Q c))))"

lemma frame_eq_refl: "frame_eq s s"
  by (simp add: frame_eq_def)

lemma frame_eq_trans: "frame_eq s t \<Longrightarrow> frame_eq t u \<Longrightarrow> frame_eq s u"
  by (simp add: frame_eq_def)

lemma frame_eq_cpus_of: "frame_eq s s' \<Longrightarrow> cpus_of s' = cpus_of s"
  by (simp add: frame_eq_def cpus_of_def cpu_get_by_index_def cpu_get_count_def)

lemma queues_ok_cong:
  assumes "queues_ok s cs Q" "task_links s' = task_links s" "\<And>c. runqueue (cpu_at s' c) = runqueue (cpu_at s c)"
  shows "queues_ok s' cs Q"
  using assms by (simp add: queues_ok_def rq_ok_def)

lemma retarget_task:
  "frame_eq s (upd_task t (\<lambda>v. v\<lparr>task_cpu := n\<rparr>) s)"
  "queues_ok s cs Q \<Longrightarrow> queues_ok (upd_task t (\<lambda>v. v\<lparr>task_cpu := n\<rparr>) s) cs Q"
proof -
  show "frame_eq s (upd_task t (\<lambda>v. v\<lparr>task_cpu := n\<rparr>) s)" by (simp add: frame_eq_def core_def)
  assume "queues_ok s cs Q"
  then show "queues_ok (upd_task t (\<lambda>v. v\<lparr>task_cpu := n\<rparr>) s) cs Q"
    by (rule queues_ok_cong) (auto simp: task_links_def)
qed

lemma take_queued:
  assumes "queues_ok s cs Q" "c \<in> set cs" "Q c = t # ts"
  shows "queued cs (Q(c := ts)) = queued cs Q - {t}" "t \<in> queued cs Q"
proof -
  define rest where "rest = (\<Union>d\<in>set cs - {c}. set (Q d))"
  have un: "(\<Union>d\<in>set cs. set (F d)) = set (F c) \<union> (\<Union>d\<in>set cs - {c}. set (F d))" for F :: "u64 \<Rightarrow> u64 list"
    using assms(2) by blast
  have q: "queued cs (Q(c := ts)) = set ts \<union> rest" "queued cs Q = insert t (set ts \<union> rest)"
    unfolding queued_def rest_def un using assms(3) by simp_all
  have "t \<notin> rest" unfolding rest_def using queues_apart [OF assms(1,2)] assms(3) by fastforce
  moreover have "distinct (Q c)" using assms(1,2) distinct_concat_iff [of cs Q] by (simp add: queues_ok_def)
  then have "t \<notin> set ts" using assms(3) by simp
  ultimately show "queued cs (Q(c := ts)) = queued cs Q - {t}" "t \<in> queued cs Q" by (auto simp: q)
qed

lemma steal_from_spec:
  assumes "queues_ok s cs Q" "set vs \<subseteq> set cs"
  shows "case find (\<lambda>c. Q c \<noteq> []) (filter (\<lambda>c. c \<noteq> self) vs) of
      None \<Rightarrow> steal_from self vs s = (0, s)
    | Some c \<Rightarrow> c \<in> set cs \<and> (\<exists>s'. steal_from self vs s = (hd (Q c), s') \<and> queues_ok s' cs (Q(c := tl (Q c))) \<and> frame_eq s s')"
  using assms(2)
proof (induction vs)
  case (Cons v vs)
  show ?case
  proof (cases "v = self \<or> Q v = []")
    case True
    have "rq_ok s v (Q v)" using assms(1) Cons.prems by (auto simp: queues_ok_def)
    then have e: "steal_from self (v # vs) s = steal_from self vs s" using True dequeue_empty [of s v] by auto
    have f: "find (\<lambda>c. Q c \<noteq> []) (filter (\<lambda>c. c \<noteq> self) (v # vs)) = find (\<lambda>c. Q c \<noteq> []) (filter (\<lambda>c. c \<noteq> self) vs)"
      using True by auto
    show ?thesis unfolding e f using Cons by simp
  next
    case False
    then obtain t ts where q: "Q v = t # ts" by (meson list.exhaust)
    have v: "v \<in> set cs" using Cons.prems by simp
    obtain s1 where s1: "dequeue_task v s = (t, s1)" "queues_ok s1 cs (Q(v := ts))" "frame_eq s s1"
      using queues_dequeue [OF assms(1) v q] by blast
    have "t \<noteq> 0" using queued_nonzero [OF assms(1)] v q by (auto simp: queued_def)
    then have e: "steal_from self (v # vs) s = (t, upd_task t (\<lambda>w. w\<lparr>task_cpu := uint (cpu_id (cpu_at s1 self))\<rparr>) s1)"
      using False s1(1) by simp
    have f: "find (\<lambda>c. Q c \<noteq> []) (filter (\<lambda>c. c \<noteq> self) (v # vs)) = Some v" using False by simp
    show ?thesis unfolding e f using v q s1(2) retarget_task frame_eq_trans [OF s1(3)] by auto
  qed
qed simp

lemma next_candidate_spec:
  assumes ok: "queues_ok s (cpus_of s) Q" and me: "gs_cpu s \<in> set (cpus_of s)"
    and pick: "sched_pick (gs_cpu s) (cpus_of s) Q = (t, Q')"
  shows "\<exists>s'. next_candidate s = (t, s') \<and> queues_ok s' (cpus_of s) Q' \<and> frame_eq s s' \<and>
    (t = 0 \<longrightarrow> queued (cpus_of s) Q = {} \<and> Q' = Q) \<and>
    (t \<noteq> 0 \<longrightarrow> t \<in> queued (cpus_of s) Q \<and> queued (cpus_of s) Q' = queued (cpus_of s) Q - {t})"
proof (cases "Q (gs_cpu s)")
  case (Cons u us)
  obtain s1 where s1: "dequeue_task (gs_cpu s) s = (u, s1)" "queues_ok s1 (cpus_of s) (Q(gs_cpu s := us))" "frame_eq s s1"
    using queues_dequeue [OF ok me Cons] by blast
  have "u \<in> queued (cpus_of s) Q" using me Cons by (auto simp: queued_def intro: bexI [of _ "gs_cpu s"])
  moreover from this have "u \<noteq> 0" using queued_nonzero [OF ok] by auto
  moreover have "t = u" "Q' = Q(gs_cpu s := us)" using pick Cons by (auto simp: sched_pick_def)
  moreover have "queued (cpus_of s) (Q(gs_cpu s := us)) = queued (cpus_of s) Q - {u}"
    using take_queued [OF ok me Cons] by blast
  ultimately show ?thesis using s1 by (simp add: next_candidate_def)
next
  case Nil
  have "rq_ok s (gs_cpu s) (Q (gs_cpu s))" using ok me by (auto simp: queues_ok_def)
  then have n: "next_candidate s = steal_from (gs_cpu s) (cpus_of s) s"
    using dequeue_empty [of s "gs_cpu s"] Nil by (simp add: next_candidate_def task_steal_def cpus_of_def)
  note st = steal_from_spec [OF ok order_refl, of "gs_cpu s"]
  show ?thesis
  proof (cases "find (\<lambda>c. Q c \<noteq> []) (filter (\<lambda>c. c \<noteq> gs_cpu s) (cpus_of s))")
    case None
    then have "\<forall>c\<in>set (cpus_of s). Q c = []" using Nil by (auto simp: find_None_iff)
    then have "queued (cpus_of s) Q = {}" by (auto simp: queued_def)
    moreover have "t = 0" "Q' = Q" using pick Nil None by (simp_all add: sched_pick_def)
    ultimately show ?thesis using n st None ok frame_eq_refl by auto
  next
    case (Some c)
    then obtain u us where q: "Q c = u # us" by (auto simp: find_Some_iff) (metis list.exhaust)
    with st Some obtain s' where s': "c \<in> set (cpus_of s)" "steal_from (gs_cpu s) (cpus_of s) s = (u, s')"
      "queues_ok s' (cpus_of s) (Q(c := us))" "frame_eq s s'" by auto
    have "t = u" "Q' = Q(c := us)" using pick Nil Some q by (simp_all add: sched_pick_def)
    then show ?thesis using n s' take_queued [OF ok s'(1) q] queued_nonzero [OF ok] by auto
  qed
qed

lemma requeue_spec:
  assumes ok: "sched_ok s Q"
  defines "me \<equiv> gs_cpu s" and "cur \<equiv> current_task (cpu_at s (gs_cpu s))"
  shows "queues_ok (requeue_current rsp s) (cpus_of s) (requeued s Q)"
    and "core (tasks (requeue_current rsp s) t) = core (if t = cur then (tasks s cur)\<lparr>task_rsp := rsp,
           task_state := (if task_state (tasks s cur) = TASK_RUNNING then TASK_READY else task_state (tasks s cur))\<rparr>
         else tasks s t)"
    and "cpu_core (cpu_at (requeue_current rsp s) c) = cpu_core (if c = me then (cpu_at s me)\<lparr>need_resched := 0\<rparr> else cpu_at s c)"
    and "cpus_of (requeue_current rsp s) = cpus_of s" "gs_cpu (requeue_current rsp s) = gs_cpu s"
      "next_id (requeue_current rsp s) = next_id s" "cr3 (requeue_current rsp s) = cr3 s"
      "desktop (requeue_current rsp s) = desktop s" "vm (requeue_current rsp s) = vm s"
proof -
  define s2 where "s2 = upd_task cur (\<lambda>v. v\<lparr>task_rsp := rsp, task_state :=
      (if task_state v = TASK_RUNNING then TASK_READY else task_state v)\<rparr>) (upd_cpu me (\<lambda>v. v\<lparr>need_resched := 0\<rparr>) s)"
  define again where "again \<longleftrightarrow> task_state (tasks s cur) = TASK_RUNNING \<and> task_id (tasks s cur) \<noteq> 0"
  have rq: "requeue_current rsp s = (if again then enqueue_task me cur s2 else s2)"
    by (simp add: requeue_current_def Let_def me_def cur_def s2_def again_def upd_task_def upd_cpu_def)
  note o = ok [unfolded sched_ok_def]
  have me: "me \<in> set (cpus_of s)" "cur \<noteq> 0" "cur \<notin> queued (cpus_of s) Q" using o by (auto simp: me_def cur_def)
  have "queues_ok s (cpus_of s) Q" using o by blast
  then have q2: "queues_ok s2 (cpus_of s) Q"
    by (rule queues_ok_cong) (auto simp: s2_def task_links_def)
  have req: "requeued s Q = (if again then Q(me := Q me @ [cur]) else Q)"
    by (simp add: requeued_def again_def me_def cur_def Let_def)
  show "queues_ok (requeue_current rsp s) (cpus_of s) (requeued s Q)"
    unfolding req rq using queues_enqueue [OF q2 me] q2 by simp
  have fr: "frame_eq s2 (requeue_current rsp s)" using enqueue_frame [of s2 me cur] frame_eq_refl by (simp add: rq)
  show "core (tasks (requeue_current rsp s) t) = core (if t = cur then (tasks s cur)\<lparr>task_rsp := rsp,
           task_state := (if task_state (tasks s cur) = TASK_RUNNING then TASK_READY else task_state (tasks s cur))\<rparr>
         else tasks s t)"
    using fr by (simp add: frame_eq_def s2_def)
  show "cpu_core (cpu_at (requeue_current rsp s) c) = cpu_core (if c = me then (cpu_at s me)\<lparr>need_resched := 0\<rparr> else cpu_at s c)"
    using fr by (simp add: frame_eq_def s2_def)
  have "cpus_of s2 = cpus_of s" by (simp add: s2_def cpus_of_def cpu_get_by_index_def cpu_get_count_def)
  then show "cpus_of (requeue_current rsp s) = cpus_of s" using frame_eq_cpus_of [OF fr] by simp
  show "gs_cpu (requeue_current rsp s) = gs_cpu s" "next_id (requeue_current rsp s) = next_id s"
    "cr3 (requeue_current rsp s) = cr3 s" "desktop (requeue_current rsp s) = desktop s" "vm (requeue_current rsp s) = vm s"
    using fr by (simp_all add: frame_eq_def s2_def)
qed

text \<open>A ready candidate ends the search at once, so no task is ever reaped.\<close>

lemma pick_next_ready:
  assumes "next_candidate s = (t, s')" "t \<noteq> 0 \<Longrightarrow> task_state (tasks s' t) = TASK_READY"
  shows "pick_next s = Some (t, s')"
  by (subst pick_next.simps) (use assms in simp)

lemma queued_requeued:
  assumes "gs_cpu s \<in> set cs"
  defines "cur \<equiv> current_task (cpu_at s (gs_cpu s))"
  shows "queued cs (requeued s Q) = queued cs Q \<union>
    (if task_state (tasks s cur) = TASK_RUNNING \<and> task_id (tasks s cur) \<noteq> 0 then {cur} else {})"
proof -
  have "queued cs (Q(gs_cpu s := Q (gs_cpu s) @ [cur])) = queued cs Q \<union> {cur}"
    using assms(1) by (auto simp: queued_def split: if_splits)
  then show ?thesis by (simp add: requeued_def cur_def Let_def)
qed

lemma switch_to_spec:
  fixes s t
  defines "me \<equiv> gs_cpu s"
  defines "nxt \<equiv> (if t = 0 then idle_task (cpu_at s me) else t)"
  shows "tasks (switch_to t s) = (tasks s)(nxt := (tasks s nxt)\<lparr>task_state := TASK_RUNNING,
      timeslice := (if task_id (tasks s nxt) = 0 then 0 else TASK_DEFAULT_TIMESLICE)\<rparr>)"
    and "cpu_at (switch_to t s) = (cpu_at s)(me := (cpu_at s me)\<lparr>current_task := nxt,
      tss_rsp0 := kernel_rsp (tasks s nxt), kernel_stack := kernel_rsp (tasks s nxt)\<rparr>)"
    and "cr3 (switch_to t s) = task_pml4 (tasks s nxt)"
    and "cpus_of (switch_to t s) = cpus_of s" "gs_cpu (switch_to t s) = me" "desktop (switch_to t s) = desktop s"
      "vm (switch_to t s) = vm s" "next_id (switch_to t s) = next_id s"
  by (simp_all add: switch_to_def Let_def nxt_def me_def tss_set_rsp0_def syscall_set_kernel_stack_def
      vmm_switch_address_space_def cpus_of_def cpu_get_by_index_def cpu_get_count_def)

text \<open>The state after a run, apart from links and queues.\<close>

definition switched :: "u64 \<Rightarrow> u64 \<Rightarrow> kern \<Rightarrow> kern \<Rightarrow> bool" where
  "switched rsp nxt s s' \<longleftrightarrow>
     (let me = gs_cpu s; cur = current_task (cpu_at s me);
          saved = (tasks s)(cur := (tasks s cur)\<lparr>task_rsp := rsp, task_state :=
            (if task_state (tasks s cur) = TASK_RUNNING then TASK_READY else task_state (tasks s cur))\<rparr>)
      in (\<forall>x. core (tasks s' x) = core (if x = nxt then (saved nxt)\<lparr>task_state := TASK_RUNNING,
              timeslice := (if task_id (tasks s nxt) = 0 then 0 else TASK_DEFAULT_TIMESLICE)\<rparr> else saved x)) \<and>
         (\<forall>c. current_task (cpu_at s' c) = (if c = me then nxt else current_task (cpu_at s c)) \<and>
            idle_task (cpu_at s' c) = idle_task (cpu_at s c)) \<and>
         need_resched (cpu_at s' me) = 0 \<and>
         tss_rsp0 (cpu_at s' me) = kernel_rsp (tasks s nxt) \<and> kernel_stack (cpu_at s' me) = kernel_rsp (tasks s nxt) \<and>
         cr3 s' = task_pml4 (tasks s nxt) \<and> cpus_of s' = cpus_of s \<and> gs_cpu s' = me \<and>
         next_id s' = next_id s \<and> desktop s' = desktop s \<and> vm s' = vm s)"

lemma core_cong: "core a = core b \<Longrightarrow>
    core (a\<lparr>task_state := st, timeslice := n\<rparr>) = core (b\<lparr>task_state := st, timeslice := n\<rparr>)"
  by (cases a; cases b) (simp add: core_def)

lemma schedule_switched:
  assumes ok: "sched_ok s Q" and pick: "sched_pick (gs_cpu s) (cpus_of s) (requeued s Q) = (t, Q')"
  defines "nxt \<equiv> (if t = 0 then idle_task (cpu_at s (gs_cpu s)) else t)"
  shows "\<exists>s'. task_schedule rsp s = Some (task_rsp (tasks s' nxt), s') \<and> switched rsp nxt s s' \<and>
    queues_ok s' (cpus_of s) Q' \<and>
    (t = 0 \<longrightarrow> queued (cpus_of s) Q' = {} \<and> queued (cpus_of s) (requeued s Q) = {}) \<and>
    (t \<noteq> 0 \<longrightarrow> t \<in> queued (cpus_of s) (requeued s Q) \<and>
       queued (cpus_of s) Q' = queued (cpus_of s) (requeued s Q) - {t})"
proof -
  define cur where "cur = current_task (cpu_at s (gs_cpu s))"
  let ?s1 = "requeue_current rsp s"
  note o = ok [unfolded sched_ok_def]
  note r = requeue_spec [OF ok, of rsp, folded cur_def]
  have me: "gs_cpu s \<in> set (cpus_of s)" using o by blast
  obtain s2 where s2: "next_candidate ?s1 = (t, s2)" "queues_ok s2 (cpus_of s) Q'" "frame_eq ?s1 s2"
    "t = 0 \<longrightarrow> queued (cpus_of s) (requeued s Q) = {} \<and> Q' = requeued s Q"
    "t \<noteq> 0 \<longrightarrow> t \<in> queued (cpus_of s) (requeued s Q) \<and> queued (cpus_of s) Q' = queued (cpus_of s) (requeued s Q) - {t}"
    using next_candidate_spec [of ?s1 "requeued s Q" t Q'] r(1,4,5) me pick by auto
  define saved where "saved = (tasks s)(cur := (tasks s cur)\<lparr>task_rsp := rsp, task_state :=
      (if task_state (tasks s cur) = TASK_RUNNING then TASK_READY else task_state (tasks s cur))\<rparr>)"
  have tcore: "core (tasks s2 x) = core (saved x)" for x
    using s2(3) r(2) [of x] by (simp add: frame_eq_def saved_def)
  have fixd: "task_id (saved x) = task_id (tasks s x)" "kernel_rsp (saved x) = kernel_rsp (tasks s x)"
    "task_pml4 (saved x) = task_pml4 (tasks s x)" for x by (simp_all add: saved_def)
  have ccore: "cpu_core (cpu_at s2 c) = cpu_core (if c = gs_cpu s then (cpu_at s (gs_cpu s))\<lparr>need_resched := 0\<rparr> else cpu_at s c)" for c
    using s2(3) r(3) [of c] by (simp add: frame_eq_def)
  have "task_state (tasks s2 t) = TASK_READY" if "t \<noteq> 0"
    using that s2(5) core_fields [OF tcore [of t]] queued_requeued [OF me, of Q] o
    by (auto simp: cur_def saved_def split: if_splits)
  then have pn: "pick_next ?s1 = Some (t, s2)" using pick_next_ready [OF s2(1)] by blast
  let ?s3 = "switch_to t s2"
  have g: "gs_cpu s2 = gs_cpu s" "idle_task (cpu_at s2 (gs_cpu s)) = idle_task (cpu_at s (gs_cpu s))"
    using s2(3) r(5) cpu_core_fields [OF ccore [of "gs_cpu s"]] by (simp_all add: frame_eq_def)
  note sw = switch_to_spec [of t s2, unfolded g, folded nxt_def]
  have "task_schedule rsp s = Some (task_rsp (tasks ?s3 nxt), ?s3)"
    using pn o me by (simp add: task_schedule_def sw Let_def)
  moreover have "switched rsp nxt s ?s3"
  proof -
    have "core (tasks ?s3 x) = core (if x = nxt then (saved nxt)\<lparr>task_state := TASK_RUNNING,
        timeslice := (if task_id (tasks s nxt) = 0 then 0 else TASK_DEFAULT_TIMESLICE)\<rparr> else saved x)" for x
      using tcore [of x] core_cong [OF tcore [of nxt]] core_fields [OF tcore [of nxt]] by (simp add: sw fixd)
    moreover have "cr3 ?s3 = task_pml4 (tasks s nxt)" "kernel_rsp (tasks s2 nxt) = kernel_rsp (tasks s nxt)"
      using core_fields [OF tcore [of nxt]] by (simp_all add: sw fixd)
    moreover have "current_task (cpu_at ?s3 c) = (if c = gs_cpu s then nxt else current_task (cpu_at s c))"
      "idle_task (cpu_at ?s3 c) = idle_task (cpu_at s c)" for c
      using cpu_core_fields [OF ccore [of c]] by (auto simp: sw)
    moreover have "need_resched (cpu_at ?s3 (gs_cpu s)) = 0"
      using cpu_core_fields [OF ccore [of "gs_cpu s"]] by (simp add: sw)
    moreover have "cpus_of ?s3 = cpus_of s" "desktop ?s3 = desktop s" "vm ?s3 = vm s" "next_id ?s3 = next_id s"
      using s2(3) r(4-9) frame_eq_cpus_of [OF s2(3)] by (simp_all add: sw frame_eq_def)
    ultimately show ?thesis unfolding switched_def Let_def cur_def [symmetric] saved_def [symmetric] by (simp add: sw)
  qed
  moreover have "queues_ok ?s3 (cpus_of s) Q'"
    using s2(2) by (rule queues_ok_cong) (auto simp: sw task_links_def)
  ultimately show ?thesis using s2(4,5) by blast
qed

lemma switched_tasks:
  assumes "switched rsp nxt s s'"
  shows "task_id (tasks s' x) = task_id (tasks s x)"
    and "task_state (tasks s' nxt) = TASK_RUNNING"
    and "x \<noteq> nxt \<Longrightarrow> task_state (tasks s' x) = (if x = current_task (cpu_at s (gs_cpu s)) \<and>
      task_state (tasks s x) = TASK_RUNNING then TASK_READY else task_state (tasks s x))"
  using core_fields [of "tasks s' x"] core_fields [of "tasks s' nxt"] assms
  by (auto simp: switched_def Let_def split: if_splits)

text \<open>The tasks that still have something to do: the queued ones and the running ones, idle tasks left out.\<close>

definition runnable :: "kern \<Rightarrow> (u64 \<Rightarrow> u64 list) \<Rightarrow> u64 set" where
  "runnable s Q = queued (cpus_of s) Q \<union>
     {t. t \<in> (\<lambda>c. current_task (cpu_at s c)) ` set (cpus_of s) \<and> task_state (tasks s t) = TASK_RUNNING \<and> task_id (tasks s t) \<noteq> 0}"

lemma schedule_ok:
  assumes ok: "sched_ok s Q" and pick: "sched_pick (gs_cpu s) (cpus_of s) (requeued s Q) = (t, Q')"
  defines "nxt \<equiv> (if t = 0 then idle_task (cpu_at s (gs_cpu s)) else t)"
  shows "\<exists>s'. task_schedule rsp s = Some (task_rsp (tasks s' nxt), s') \<and> switched rsp nxt s s' \<and> sched_ok s' Q' \<and>
    runnable s' Q' = runnable s Q"
proof -
  define me where "me = gs_cpu s"
  define cur where "cur = current_task (cpu_at s me)"
  define again where "again \<longleftrightarrow> task_state (tasks s cur) = TASK_RUNNING \<and> task_id (tasks s cur) \<noteq> 0"
  note o = ok [unfolded sched_ok_def, folded me_def]
  obtain s' where s': "task_schedule rsp s = Some (task_rsp (tasks s' nxt), s')" "switched rsp nxt s s'"
    "queues_ok s' (cpus_of s) Q'" "t = 0 \<longrightarrow> queued (cpus_of s) Q' = {} \<and> queued (cpus_of s) (requeued s Q) = {}"
    "t \<noteq> 0 \<longrightarrow> t \<in> queued (cpus_of s) (requeued s Q) \<and> queued (cpus_of s) Q' = queued (cpus_of s) (requeued s Q) - {t}"
    using schedule_switched [OF ok pick, of rsp] unfolding nxt_def by blast
  have me: "me \<in> set (cpus_of s)" using o by blast
  have q: "queued (cpus_of s) (requeued s Q) = queued (cpus_of s) Q \<union> (if again then {cur} else {})"
    using queued_requeued [of s "cpus_of s" Q] me by (simp add: again_def cur_def me_def)
  note sw = s'(2) [unfolded switched_def Let_def, folded me_def cur_def]
  note st = switched_tasks [OF s'(2), folded me_def, folded cur_def]
  have cp: "cpus_of s' = cpus_of s" "gs_cpu s' = me" using sw by simp_all
  have cu: "current_task (cpu_at s' c) = (if c = me then nxt else current_task (cpu_at s c))"
    "idle_task (cpu_at s' c) = idle_task (cpu_at s c)" for c using sw by simp_all
  have nq: "nxt \<notin> queued (cpus_of s) Q'" using s'(4,5) by (auto simp: nxt_def)
  have q': "x \<in> queued (cpus_of s) Q' \<Longrightarrow> x \<in> queued (cpus_of s) Q \<or> again \<and> x = cur" for x
    using s'(4,5) q by (auto split: if_splits)
  have idn: "task_id (tasks s nxt) = 0 \<Longrightarrow> nxt = idle_task (cpu_at s me)"
    using s'(5) q o by (auto simp: nxt_def again_def me_def split: if_splits)
  have other: "current_task (cpu_at s c) \<noteq> nxt" if "c \<in> set (cpus_of s)" "c \<noteq> me" for c
  proof (cases "t = 0")
    case True
    then show ?thesis using o that me by (auto simp: nxt_def me_def) metis
  next
    case False
    then have "nxt \<in> queued (cpus_of s) Q \<or> nxt = cur" using s'(5) q by (auto simp: nxt_def split: if_splits)
    then show ?thesis using o that me by (auto simp: cur_def)
  qed
  have notcur: "current_task (cpu_at s c) \<noteq> cur" if "c \<in> set (cpus_of s)" "c \<noteq> me" for c
    using o that me by (auto simp: cur_def)
  have "sched_ok s' Q'"
    unfolding sched_ok_def cp cu
  proof (intro conjI ballI impI)
    show "queues_ok s' (cpus_of s) Q'" by (rule s'(3))
    show "me \<in> set (cpus_of s)" by (rule me)
    fix x assume x: "x \<in> queued (cpus_of s) Q'"
    then have "x \<noteq> nxt" using nq by auto
    then show "task_state (tasks s' x) = TASK_READY" "task_id (tasks s' x) \<noteq> 0"
      using st(1,3) [of x] q' [OF x] o by (auto simp: again_def)
  next
    fix c assume c: "c \<in> set (cpus_of s)"
    let ?t = "if c = me then nxt else current_task (cpu_at s c)"
    show "?t \<noteq> 0" using o c by (auto simp: nxt_def me_def)
    show "?t \<notin> queued (cpus_of s) Q'" using nq q' [of ?t] o c notcur [OF c] by auto
    show "task_state (tasks s' ?t) \<noteq> TASK_READY"
      using st(2) st(3) [of ?t] o c other [OF c] notcur [OF c] by (auto split: if_splits)
    show "idle_task (cpu_at s c) \<noteq> 0" "task_id (tasks s' (idle_task (cpu_at s c))) = 0" using o c st(1) by auto
    show "?t = idle_task (cpu_at s c)" if "task_id (tasks s' ?t) = 0"
      using that st(1) o c idn by (auto split: if_splits)
  next
    fix c d assume c: "c \<in> set (cpus_of s)" "d \<in> set (cpus_of s)" "c \<noteq> d"
    then show "(if c = me then nxt else current_task (cpu_at s c)) \<noteq> (if d = me then nxt else current_task (cpu_at s d))"
      using other [of c] other [of d] o by auto
    show "idle_task (cpu_at s c) \<noteq> idle_task (cpu_at s d)" using o c by blast
  qed
  moreover have "runnable s' Q' = runnable s Q"
  proof -
    define others where "others = {t. t \<in> (\<lambda>c. current_task (cpu_at s c)) ` (set (cpus_of s) - {me}) \<and>
        task_state (tasks s t) = TASK_RUNNING \<and> task_id (tasks s t) \<noteq> 0}"
    have "runnable s Q = queued (cpus_of s) (requeued s Q) \<union> others"
      using me unfolding runnable_def others_def q by (auto simp: again_def cur_def)
    moreover have "task_state (tasks s' x) = task_state (tasks s x) \<and> x \<noteq> nxt"
      if "x \<in> (\<lambda>c. current_task (cpu_at s c)) ` (set (cpus_of s) - {me})" for x
      using that st(3) [of x] other notcur by auto
    then have "runnable s' Q' = queued (cpus_of s) Q' \<union> others \<union> (if task_id (tasks s nxt) \<noteq> 0 then {nxt} else {})"
      using me st(2) unfolding runnable_def cp cu others_def st(1) by auto
    moreover have "queued (cpus_of s) Q' \<union> (if task_id (tasks s nxt) \<noteq> 0 then {nxt} else {}) = queued (cpus_of s) (requeued s Q)"
      using s'(4,5) o me q by (auto simp: nxt_def me_def again_def)
    ultimately show ?thesis by auto
  qed
  ultimately show ?thesis using s'(1,2) by blast
qed

section \<open>Runs of the scheduler\<close>

text \<open>
  A run: scheduler calls one after the other, each on some CPU with the stack pointer it interrupted. A call is one step, although the code
  holds a lock only within an operation on one queue: two calls that overlap in time are not covered.
\<close>

fun run_sched :: "(u64 \<times> u64) list \<Rightarrow> kern \<Rightarrow> kern option" where
  "run_sched [] s = Some s"
| "run_sched ((c, rsp) # calls) s =
     (case task_schedule rsp (s\<lparr>gs_cpu := c\<rparr>) of None \<Rightarrow> None | Some (_, s') \<Rightarrow> run_sched calls s')"

lemma on_cpu:
  "sched_ok s Q \<Longrightarrow> c \<in> set (cpus_of s) \<Longrightarrow> sched_ok (s\<lparr>gs_cpu := c\<rparr>) Q"
  "runnable (s\<lparr>gs_cpu := c\<rparr>) Q = runnable s Q" "cpus_of (s\<lparr>gs_cpu := c\<rparr>) = cpus_of s"
proof -
  show cp: "cpus_of (s\<lparr>gs_cpu := c\<rparr>) = cpus_of s" by (simp add: cpus_of_def cpu_get_by_index_def cpu_get_count_def)
  show "runnable (s\<lparr>gs_cpu := c\<rparr>) Q = runnable s Q" by (simp add: runnable_def cp)
  assume a: "sched_ok s Q" "c \<in> set (cpus_of s)"
  then have "queues_ok s (cpus_of s) Q" by (simp add: sched_ok_def)
  then have "queues_ok (s\<lparr>gs_cpu := c\<rparr>) (cpus_of s) Q" by (rule queues_ok_cong) (simp_all add: task_links_def)
  with a show "sched_ok (s\<lparr>gs_cpu := c\<rparr>) Q" by (simp add: sched_ok_def cp)
qed

text \<open>One call on any CPU, with the abstract choice spelled out by \<open>switched\<close> where it is needed.\<close>

lemma schedule_on:
  assumes "sched_ok s Q" "c \<in> set (cpus_of s)"
  defines "s0 \<equiv> s\<lparr>gs_cpu := c\<rparr>"
  obtains t Q' s' where "sched_pick c (cpus_of s) (requeued s0 Q) = (t, Q')"
    "task_schedule rsp s0 = Some (task_rsp (tasks s' (if t = 0 then idle_task (cpu_at s c) else t)), s')"
    "switched rsp (if t = 0 then idle_task (cpu_at s c) else t) s0 s'" "sched_ok s' Q'"
    "runnable s' Q' = runnable s Q" "cpus_of s' = cpus_of s"
proof -
  obtain t Q' where p: "sched_pick c (cpus_of s) (requeued s0 Q) = (t, Q')" by fastforce
  have ok: "sched_ok s0 Q" unfolding s0_def by (rule on_cpu(1) [OF assms(1,2)])
  have s0: "gs_cpu s0 = c" "cpus_of s0 = cpus_of s" "cpu_at s0 = cpu_at s" "runnable s0 Q = runnable s Q"
    unfolding s0_def on_cpu(2,3) by simp_all
  obtain s' where s': "task_schedule rsp s0 = Some (task_rsp (tasks s' (if t = 0 then idle_task (cpu_at s c) else t)), s')"
    "switched rsp (if t = 0 then idle_task (cpu_at s c) else t) s0 s'" "sched_ok s' Q'" "runnable s' Q' = runnable s Q"
    using schedule_ok [OF ok, unfolded s0, OF p, of rsp] by blast
  have "cpus_of s' = cpus_of s" using s'(2) by (simp add: switched_def Let_def s0)
  with that p s' show ?thesis by blast
qed

lemma run_sched_ok:
  assumes "sched_ok s Q" "fst ` set calls \<subseteq> set (cpus_of s)"
  shows "\<exists>s' Q'. run_sched calls s = Some s' \<and> sched_ok s' Q' \<and> runnable s' Q' = runnable s Q \<and>
    cpus_of s' = cpus_of s \<and> desktop s' = desktop s \<and> vm s' = vm s \<and> next_id s' = next_id s"
  using assms
proof (induction calls arbitrary: s Q)
  case (Cons call calls)
  obtain c rsp where call: "call = (c, rsp)" by fastforce
  have c: "c \<in> set (cpus_of s)" using Cons.prems(2) call by simp
  obtain t Q1 s1 where s1: "task_schedule rsp (s\<lparr>gs_cpu := c\<rparr>) = Some (task_rsp (tasks s1 (if t = 0 then idle_task (cpu_at s c) else t)), s1)"
    "switched rsp (if t = 0 then idle_task (cpu_at s c) else t) (s\<lparr>gs_cpu := c\<rparr>) s1" "sched_ok s1 Q1"
    "runnable s1 Q1 = runnable s Q" "cpus_of s1 = cpus_of s"
    by (rule schedule_on [OF Cons.prems(1) c, of rsp])
  have "desktop s1 = desktop s" "vm s1 = vm s" "next_id s1 = next_id s"
    using s1(2) unfolding switched_def Let_def by simp_all
  moreover have "fst ` set calls \<subseteq> set (cpus_of s1)" using Cons.prems(2) s1(5) by simp
  with Cons.IH [OF s1(3)] obtain s' Q' where "run_sched calls s1 = Some s'" "sched_ok s' Q'" "runnable s' Q' = runnable s1 Q1"
    "cpus_of s' = cpus_of s1" "desktop s' = desktop s1" "vm s' = vm s1" "next_id s' = next_id s1" by blast
  moreover have "run_sched (call # calls) s = run_sched calls s1" by (simp add: call s1(1))
  ultimately show ?case using s1(4,5) by metis
qed auto

text \<open>A task that is nowhere stays away.\<close>

definition gone :: "kern \<Rightarrow> (u64 \<Rightarrow> u64 list) \<Rightarrow> u64 \<Rightarrow> bool" where
  "gone s Q t \<longleftrightarrow> t \<notin> queued (cpus_of s) Q \<and> t \<notin> (\<lambda>c. current_task (cpu_at s c)) ` set (cpus_of s)"

lemma schedule_gone:
  assumes ok: "sched_ok s Q" and c: "c \<in> set (cpus_of s)" and id: "task_id (tasks s x) \<noteq> 0" "x \<notin> queued (cpus_of s) Q"
    and run: "x = current_task (cpu_at s c) \<and> task_state (tasks s x) = TASK_EXITED \<or> gone s Q x"
  shows "\<exists>r s' Q'. task_schedule rsp (s\<lparr>gs_cpu := c\<rparr>) = Some (r, s') \<and> sched_ok s' Q' \<and> gone s' Q' x \<and>
    task_id (tasks s' x) \<noteq> 0 \<and> cpus_of s' = cpus_of s"
proof -
  let ?s0 = "s\<lparr>gs_cpu := c\<rparr>"
  have cp: "cpus_of ?s0 = cpus_of s" by (rule on_cpu(3))
  have s0: "gs_cpu ?s0 = c" "cpu_at ?s0 = cpu_at s" by simp_all
  obtain t Q' where p: "sched_pick c (cpus_of s) (requeued ?s0 Q) = (t, Q')" by fastforce
  define nxt where "nxt = (if t = 0 then idle_task (cpu_at s c) else t)"
  have ok0: "sched_ok ?s0 Q" by (rule on_cpu(1) [OF ok c])
  obtain s' where s': "task_schedule rsp ?s0 = Some (task_rsp (tasks s' nxt), s')" "switched rsp nxt ?s0 s'" "sched_ok s' Q'"
    using schedule_ok [OF ok0, of t Q' rsp] p unfolding cp s0 nxt_def by blast
  have notin: "x \<notin> queued (cpus_of s) (requeued ?s0 Q)"
    using queued_requeued [of ?s0 "cpus_of s" Q] c id(2) run by (auto simp: gone_def)
  have q: "x \<notin> queued (cpus_of s) Q'" "t \<noteq> 0 \<Longrightarrow> t \<in> queued (cpus_of s) (requeued ?s0 Q)"
    using schedule_switched [OF ok0, of t Q' rsp] p notin unfolding cp s0 by (cases "t = 0"; auto)+
  have "task_id (tasks s (idle_task (cpu_at s c))) = 0" using ok c by (auto simp: sched_ok_def)
  then have "nxt \<noteq> x" using q(2) notin id by (auto simp: nxt_def split: if_splits)
  moreover have "current_task (cpu_at s d) \<noteq> x" if "d \<in> set (cpus_of s)" "d \<noteq> c" for d
    using run that ok c by (auto simp: gone_def sched_ok_def)
  moreover have "cpus_of s' = cpus_of s" using s'(2) cp by (simp add: switched_def Let_def)
  moreover have "current_task (cpu_at s' d) = (if d = c then nxt else current_task (cpu_at s d))" for d
    using s'(2) by (simp add: switched_def Let_def)
  ultimately have "gone s' Q' x" using q(1) by (auto simp: gone_def split: if_splits)
  with s' \<open>cpus_of s' = cpus_of s\<close> id(1) switched_tasks(1) [OF s'(2)] show ?thesis by auto
qed

lemma run_gone:
  assumes "sched_ok s Q" "gone s Q x" "task_id (tasks s x) \<noteq> 0" "fst ` set calls \<subseteq> set (cpus_of s)"
  shows "\<exists>s' Q'. run_sched calls s = Some s' \<and> sched_ok s' Q' \<and> gone s' Q' x"
  using assms
proof (induction calls arbitrary: s Q)
  case (Cons call calls)
  obtain c rsp where call: "call = (c, rsp)" by fastforce
  obtain r s1 Q1 where "task_schedule rsp (s\<lparr>gs_cpu := c\<rparr>) = Some (r, s1)" "sched_ok s1 Q1" "gone s1 Q1 x"
    "task_id (tasks s1 x) \<noteq> 0" "cpus_of s1 = cpus_of s"
    using schedule_gone [OF Cons.prems(1), of c x rsp] Cons.prems call by (auto simp: gone_def)
  with Cons.IH [of s1 Q1] Cons.prems(4) show ?case by (simp add: call)
qed auto

text \<open>Position \<open>k\<close> of the own queue is reached after \<open>k + 1\<close> calls.\<close>

lemma round_robin:
  assumes "sched_ok s Q" "c \<in> set (cpus_of s)" "Q c = xs @ t # ys" "length rs = Suc (length xs)"
  shows "\<exists>s'. run_sched (map (\<lambda>r. (c, r)) rs) s = Some s' \<and> current_task (cpu_at s' c) = t \<and> task_state (tasks s' t) = TASK_RUNNING"
  using assms
proof (induction xs arbitrary: s Q rs ys)
  case Nil
  obtain r where rs: "rs = [r]" using Nil.prems(4) by (cases rs) auto
  obtain u Q1 s1 where s1: "sched_pick c (cpus_of s) (requeued (s\<lparr>gs_cpu := c\<rparr>) Q) = (u, Q1)"
    "task_schedule r (s\<lparr>gs_cpu := c\<rparr>) = Some (task_rsp (tasks s1 (if u = 0 then idle_task (cpu_at s c) else u)), s1)"
    "switched r (if u = 0 then idle_task (cpu_at s c) else u) (s\<lparr>gs_cpu := c\<rparr>) s1"
    by (rule schedule_on [OF Nil.prems(1,2), of r])
  have "u = t" using s1(1) Nil.prems(3) by (auto simp: sched_pick_def requeued_def Let_def split: if_splits)
  moreover have "t \<noteq> 0"
    using queued_nonzero [of s "cpus_of s" Q] Nil.prems by (auto simp: sched_ok_def queued_def)
  ultimately show ?case using s1(2,3) switched_tasks(2) [OF s1(3)] by (simp add: rs switched_def Let_def)
next
  case (Cons x xs)
  obtain r rs' where rs: "rs = r # rs'" "length rs' = Suc (length xs)" using Cons.prems(4) by (cases rs) auto
  obtain u Q1 s1 where s1: "sched_pick c (cpus_of s) (requeued (s\<lparr>gs_cpu := c\<rparr>) Q) = (u, Q1)"
    "task_schedule r (s\<lparr>gs_cpu := c\<rparr>) = Some (task_rsp (tasks s1 (if u = 0 then idle_task (cpu_at s c) else u)), s1)"
    "sched_ok s1 Q1" "cpus_of s1 = cpus_of s"
    by (rule schedule_on [OF Cons.prems(1,2), of r])
  obtain zs where "Q1 c = xs @ t # zs"
    using s1(1) Cons.prems(3) by (auto simp: sched_pick_def requeued_def Let_def split: if_splits)
  then show ?case using Cons.IH [OF s1(3), of zs rs'] s1 Cons.prems(2) rs by simp
qed

section \<open>Time slices and load\<close>

text \<open>What a tick does to a running task that is not idle.\<close>

lemma timer_tick:
  assumes "current_task (cpu_at s (gs_cpu s)) = t" "t \<noteq> 0" "task_state (tasks s t) = TASK_RUNNING" "task_id (tasks s t) \<noteq> 0"
  shows "tasks (task_timer_tick s) = (tasks s)(t := (tasks s t)\<lparr>task_ticks := task_ticks (tasks s t) + 1,
      timeslice := (if timeslice (tasks s t) > 0 then timeslice (tasks s t) - 1 else 0)\<rparr>)"
    and "cpu_at (task_timer_tick s) = (cpu_at s)(gs_cpu s := (cpu_at s (gs_cpu s))\<lparr>cpu_ticks := cpu_ticks (cpu_at s (gs_cpu s)) + 1,
      need_resched := (if timeslice (tasks s t) \<le> 1 then 1 else need_resched (cpu_at s (gs_cpu s)))\<rparr>)"
    and "gs_cpu (task_timer_tick s) = gs_cpu s"
proof -
  have le: "timeslice (tasks s t) \<le> 1 \<longleftrightarrow> timeslice (tasks s t) = 0 \<or> timeslice (tasks s t) = 1"
    by (auto simp: word_le_iff_unat unat_eq_one le_Suc_eq unat_eq_zero)
  have z: "\<not> 0 < timeslice (tasks s t) \<longleftrightarrow> timeslice (tasks s t) = 0" by (simp add: word_neq_0_conv [symmetric])
  show "tasks (task_timer_tick s) = (tasks s)(t := (tasks s t)\<lparr>task_ticks := task_ticks (tasks s t) + 1,
      timeslice := (if timeslice (tasks s t) > 0 then timeslice (tasks s t) - 1 else 0)\<rparr>)"
    using assms z by (auto simp: task_timer_tick_def Let_def)
  show "gs_cpu (task_timer_tick s) = gs_cpu s"
    by (simp add: task_timer_tick_def Let_def)
  show "cpu_at (task_timer_tick s) = (cpu_at s)(gs_cpu s := (cpu_at s (gs_cpu s))\<lparr>cpu_ticks := cpu_ticks (cpu_at s (gs_cpu s)) + 1,
      need_resched := (if timeslice (tasks s t) \<le> 1 then 1 else need_resched (cpu_at s (gs_cpu s)))\<rparr>)"
    using assms z by (auto simp: task_timer_tick_def Let_def le)
qed

lemma timer_ticks:
  assumes "current_task (cpu_at s (gs_cpu s)) = t" "t \<noteq> 0" "task_state (tasks s t) = TASK_RUNNING" "task_id (tasks s t) \<noteq> 0"
  shows "(let s' = (task_timer_tick ^^ k) s
    in gs_cpu s' = gs_cpu s \<and> current_task (cpu_at s' (gs_cpu s)) = t \<and>
       task_state (tasks s' t) = TASK_RUNNING \<and> task_id (tasks s' t) = task_id (tasks s t) \<and>
       unat (timeslice (tasks s' t)) = unat (timeslice (tasks s t)) - k \<and>
       task_ticks (tasks s' t) = task_ticks (tasks s t) + of_nat k \<and>
       need_resched (cpu_at s' (gs_cpu s)) =
         (if 0 < k \<and> unat (timeslice (tasks s t)) \<le> k then 1 else need_resched (cpu_at s (gs_cpu s))))"
proof (induction k)
  case 0
  then show ?case using assms by (simp add: Let_def)
next
  case (Suc k)
  let ?s = "(task_timer_tick ^^ k) s"
  have IH: "gs_cpu ?s = gs_cpu s" "current_task (cpu_at ?s (gs_cpu s)) = t" "task_state (tasks ?s t) = TASK_RUNNING"
    "task_id (tasks ?s t) = task_id (tasks s t)" "unat (timeslice (tasks ?s t)) = unat (timeslice (tasks s t)) - k"
    "task_ticks (tasks ?s t) = task_ticks (tasks s t) + of_nat k"
    "need_resched (cpu_at ?s (gs_cpu s)) = (if 0 < k \<and> unat (timeslice (tasks s t)) \<le> k then 1 else need_resched (cpu_at s (gs_cpu s)))"
    using Suc by (simp_all add: Let_def)
  note tick = timer_tick [of ?s t, unfolded IH, OF refl assms(2) refl assms(4)]
  have ts: "unat (if 0 < timeslice (tasks ?s t) then timeslice (tasks ?s t) - 1 else 0) = unat (timeslice (tasks s t)) - Suc k"
    using IH(5) by (auto simp: word_less_iff_unat unat_minus_no_wrap word_le_iff_unat)
  have le: "timeslice (tasks ?s t) \<le> 1 \<longleftrightarrow> unat (timeslice (tasks s t)) \<le> Suc k"
    using IH(5) by (auto simp: word_le_iff_unat)
  show ?case unfolding funpow.simps comp_apply Let_def tick
    using IH ts le by (simp add: algebra_simps)
qed

lemma least_loaded_fold:
  fixes L :: "u64 \<Rightarrow> int"
  defines "step \<equiv> \<lambda>c (least, m). if L c < m then (c, L c) else (least, m)"
  shows "fst (fold step cs (c0, L c0)) \<in> set (c0 # cs) \<and> snd (fold step cs (c0, L c0)) = L (fst (fold step cs (c0, L c0))) \<and>
    (\<forall>c\<in>set (c0 # cs). L (fst (fold step cs (c0, L c0))) \<le> L c)"
proof (induction cs arbitrary: c0)
  case (Cons c cs)
  show ?case
  proof (cases "L c < L c0")
    case True
    then show ?thesis using Cons [of c] by (auto simp: step_def)
  next
    case False
    then show ?thesis using Cons [of c0] by (auto simp: step_def)
  qed
qed simp

lemma least_loaded:
  assumes "0 < cpu_count s"
  shows "pick_least_loaded_cpu s \<in> set (cpus_of s) \<and> (\<forall>c\<in>set (cpus_of s). cpu_load s (pick_least_loaded_cpu s) \<le> cpu_load s c)"
proof -
  let ?cs = "map (cpu_get_by_index s) [1..<cpu_get_count s]"
  have cs: "cpus_of s = cpu_get_by_index s 0 # ?cs"
    using assms by (simp add: cpus_of_def cpu_get_count_def upt_conv_Cons)
  have "pick_least_loaded_cpu s = fst (fold (\<lambda>c (least, m). if cpu_load s c < m then (c, cpu_load s c) else (least, m)) ?cs
      (cpu_get_by_index s 0, cpu_load s (cpu_get_by_index s 0)))"
    by (simp add: pick_least_loaded_cpu_def fold_map comp_def Let_def)
  then show ?thesis using least_loaded_fold [of "cpu_load s" ?cs "cpu_get_by_index s 0"] unfolding cs by simp
qed

section \<open>Properties\<close>

text \<open>C19. One run of the scheduler against the abstract one: the interrupted task goes to the end of the queue of its CPU when it is
  still running, the head of that queue comes next, then the head of the first other queue in the order of the CPU
  table, then the idle task; the CPU gets the kernel stack and the address space of the next task, its saved stack pointer is
  returned, and the invariant of all queues holds again.\<close>

theorem task_schedule_correct:
  assumes "sched_ok s Q" "sched_pick (gs_cpu s) (cpus_of s) (requeued s Q) = (t, Q')"
    and "nxt = (if t = 0 then idle_task (cpu_at s (gs_cpu s)) else t)"
  shows "\<exists>s'. task_schedule rsp s = Some (task_rsp (tasks s' nxt), s') \<and> sched_ok s' Q' \<and> switched rsp nxt s s'"
  using schedule_ok [OF assms(1,2)] unfolding assms(3) by blast

text \<open>A CPU that runs task 1 with task 2 in its queue.\<close>

definition two_tasks :: kern where
  "two_tasks = \<lparr>tasks = (\<lambda>t. \<lparr>task_id = (if t = 0x300 then 1 else if t = 0x400 then 2 else 0), task_rsp = t + 8, stack_bottom = 0,
       user_stack_bottom = 0, kernel_rsp = t + 16, task_pml4 = 0x100000,
       task_state = (if t = 0x400 then TASK_READY else TASK_RUNNING), task_cpu = 0, timeslice = 4, task_ticks = 0, task_next = 0\<rparr>),
     cpu_at = (\<lambda>_. \<lparr>user_stack = 0, kernel_stack = 0, cpu_self = 0x100, current_task = 0x300, cpu_id = 0, need_resched = 0,
       cpu_ticks = 0, idle_ticks = 0, tss_rsp0 = 0, runqueue = \<lparr>rq_head = 0x400, rq_tail = 0x400, rq_count = 1\<rparr>, idle_task = 0x200\<rparr>),
     cpu_table = (\<lambda>_. 0x100), cpu_count = 1, gs_cpu = 0x100, next_id = 3, cr3 = 0x100000, desktop = desk, vm = empty_space\<rparr>"

lemma two_tasks_cpus: "cpus_of two_tasks = [0x100]"
  by (simp add: cpus_of_def two_tasks_def cpu_get_by_index_def cpu_get_count_def)

lemma two_tasks_ok: "sched_ok two_tasks (\<lambda>_. [0x400])"
  unfolding sched_ok_def two_tasks_cpus
  by (simp add: queues_ok_def queued_def rq_ok_def task_links_def) (simp add: two_tasks_def)

lemma two_tasks_pick:
  "gs_cpu two_tasks = 0x100" "requeued two_tasks (\<lambda>_. [0x400]) = (\<lambda>_. [0x400])(0x100 := [0x400, 0x300])"
  "sched_pick 0x100 [0x100] ((\<lambda>_. [0x400])(0x100 := [0x400, 0x300])) = (0x400, (\<lambda>_. [0x400])(0x100 := [0x300]))"
  by (auto simp: requeued_def two_tasks_def sched_pick_def Let_def)

theorem task_schedule_correct_witness:
  "\<exists>s'. task_schedule 0x1234 two_tasks = Some (0x408, s') \<and> sched_ok s' ((\<lambda>_. [0x400])(0x100 := [0x300])) \<and>
    current_task (cpu_at s' 0x100) = 0x400 \<and> task_rsp (tasks s' 0x300) = 0x1234"
proof -
  obtain s' where s': "task_schedule 0x1234 two_tasks = Some (task_rsp (tasks s' 0x400), s')"
    "sched_ok s' ((\<lambda>_. [0x400])(0x100 := [0x300]))" "switched 0x1234 0x400 two_tasks s'"
    using task_schedule_correct [OF two_tasks_ok, unfolded two_tasks_pick(1,2) two_tasks_cpus, OF two_tasks_pick(3) refl, of "0x1234"]
    by auto
  have "core (tasks s' 0x400) = core ((tasks two_tasks 0x400)\<lparr>task_state := TASK_RUNNING, timeslice := 4\<rparr>)"
    "core (tasks s' 0x300) = core ((tasks two_tasks 0x300)\<lparr>task_rsp := 0x1234, task_state := TASK_READY\<rparr>)"
    "current_task (cpu_at s' 0x100) = 0x400"
    using s'(3) by (simp_all add: switched_def Let_def) (simp_all add: two_tasks_def TASK_DEFAULT_TIMESLICE_def)
  with s' core_fields [of "tasks s' 0x400"] core_fields [of "tasks s' 0x300"] show ?thesis
    by (simp add: two_tasks_def)
qed

text \<open>C20. No task is lost, doubled or reaped: after any number of scheduler runs on any CPUs, one after the other, every queue is intact, the set of
  tasks that have something to do is the same, and neither a page table nor a frame, heap block or window has changed.\<close>

theorem sched_runs_conserve:
  assumes "sched_ok s Q" "fst ` set calls \<subseteq> set (cpus_of s)"
  shows "\<exists>s' Q'. run_sched calls s = Some s' \<and> sched_ok s' Q' \<and> runnable s' Q' = runnable s Q \<and>
    cpus_of s' = cpus_of s \<and> desktop s' = desktop s \<and> vm s' = vm s"
  using run_sched_ok [OF assms] by blast

theorem sched_runs_conserve_witness:
  "\<exists>s' Q'. run_sched [(0x100, 1), (0x100, 2)] two_tasks = Some s' \<and> sched_ok s' Q' \<and> runnable s' Q' = {0x300, 0x400}"
proof -
  have "runnable two_tasks (\<lambda>_. [0x400]) = {0x300, 0x400}"
    by (auto simp: runnable_def two_tasks_cpus queued_def) (simp_all add: two_tasks_def)
  then show ?thesis using sched_runs_conserve [OF two_tasks_ok, of "[(0x100, 1), (0x100, 2)]"]
    by (auto simp: two_tasks_cpus)
qed

text \<open>C21. An exited task leaks: once its CPU has rescheduled, the task is on no queue and on no CPU, and it stays so whatever runs
  follow, while the stacks, page tables and windows it owns are still allocated; \<open>task_reap\<close> never sees it.\<close>

theorem exited_task_leaks:
  assumes "sched_ok s Q" "c \<in> set (cpus_of s)" "x = current_task (cpu_at s c)"
    and "task_state (tasks s x) = TASK_EXITED" "task_id (tasks s x) \<noteq> 0" "fst ` set calls \<subseteq> set (cpus_of s)"
  shows "\<exists>s' Q'. run_sched ((c, rsp) # calls) s = Some s' \<and> sched_ok s' Q' \<and> gone s' Q' x \<and>
    desktop s' = desktop s \<and> vm s' = vm s"
proof -
  have nq: "x \<notin> queued (cpus_of s) Q" using assms(1-3) by (auto simp: sched_ok_def)
  obtain r s1 Q1 where s1: "task_schedule rsp (s\<lparr>gs_cpu := c\<rparr>) = Some (r, s1)" "sched_ok s1 Q1" "gone s1 Q1 x"
    "task_id (tasks s1 x) \<noteq> 0" "cpus_of s1 = cpus_of s"
    using schedule_gone [OF assms(1,2,5) nq, of rsp] assms(3,4) by blast
  obtain s' Q' where s': "run_sched calls s1 = Some s'" "sched_ok s' Q'" "gone s' Q' x"
    using run_gone [OF s1(2-4), of calls] assms(6) unfolding s1(5) by blast
  have all: "fst ` set ((c, rsp) # calls) \<subseteq> set (cpus_of s)" using assms(2,6) by simp
  show ?thesis using run_sched_ok [OF assms(1) all] s' s1(1) by auto
qed

theorem exited_task_leaks_witness:
  "\<exists>s' Q'. run_sched [(0x100, 1), (0x100, 2)] (upd_task 0x300 (\<lambda>v. v\<lparr>task_state := TASK_EXITED\<rparr>) two_tasks) = Some s' \<and>
    sched_ok s' Q' \<and> gone s' Q' 0x300"
proof -
  let ?s = "upd_task 0x300 (\<lambda>v. v\<lparr>task_state := TASK_EXITED\<rparr>) two_tasks"
  have cp: "cpus_of ?s = [0x100]" by (simp add: cpus_of_def two_tasks_def upd_task_def cpu_get_by_index_def cpu_get_count_def)
  have "sched_ok ?s (\<lambda>_. [0x400])" unfolding sched_ok_def cp
    by (simp add: queues_ok_def queued_def rq_ok_def task_links_def) (simp add: two_tasks_def)
  from exited_task_leaks [OF this, of "0x100" "0x300" "[(0x100, 2)]" 1] show ?thesis
    by (simp add: cp) (auto simp: two_tasks_def)
qed

text \<open>C22. Bounded waiting: a task that stands at position \<open>k\<close> of a queue runs after \<open>k + 1\<close> scheduler runs of that CPU.\<close>

theorem sched_bounded_wait:
  assumes "sched_ok s Q" "c \<in> set (cpus_of s)" "Q c = xs @ t # ys" "length rs = Suc (length xs)"
  shows "\<exists>s'. run_sched (map (\<lambda>r. (c, r)) rs) s = Some s' \<and> current_task (cpu_at s' c) = t \<and> task_state (tasks s' t) = TASK_RUNNING"
  by (rule round_robin [OF assms])

theorem sched_bounded_wait_witness:
  "\<exists>s'. run_sched [(0x100, 0x1234)] two_tasks = Some s' \<and> current_task (cpu_at s' 0x100) = 0x400"
  using sched_bounded_wait [OF two_tasks_ok, of "0x100" "[]" "0x400" "[]" "[0x1234]"] by (auto simp: two_tasks_cpus)

text \<open>Preemption: a running task that is not idle gets exactly its time slice. The flag that asks for a reschedule is
  untouched before the last tick of the slice and set from that tick on, and every tick is counted.\<close>

theorem timeslice_preempts:
  assumes "current_task (cpu_at s (gs_cpu s)) = t" "t \<noteq> 0" "task_state (tasks s t) = TASK_RUNNING" "task_id (tasks s t) \<noteq> 0"
    and "need_resched (cpu_at s (gs_cpu s)) = 0" "0 < timeslice (tasks s t)"
  shows "task_needs_schedule ((task_timer_tick ^^ k) s) = (if unat (timeslice (tasks s t)) \<le> k then 1 else 0) \<and>
    task_ticks (tasks ((task_timer_tick ^^ k) s) t) = task_ticks (tasks s t) + of_nat k"
  using timer_ticks [OF assms(1-4), of k] assms(5,6) by (auto simp: task_needs_schedule_def Let_def word_less_iff_unat)

theorem timeslice_preempts_witness:
  "task_needs_schedule ((task_timer_tick ^^ 3) two_tasks) = 0 \<and> task_needs_schedule ((task_timer_tick ^^ 4) two_tasks) = 1"
  using timeslice_preempts [of two_tasks "0x300" 3] timeslice_preempts [of two_tasks "0x300" 4] by (simp add: two_tasks_def)

text \<open>A new task goes to a CPU of the table whose load is minimal.\<close>

theorem least_loaded_correct:
  assumes "0 < cpu_count s"
  shows "pick_least_loaded_cpu s \<in> set (cpus_of s) \<and> (\<forall>c\<in>set (cpus_of s). cpu_load s (pick_least_loaded_cpu s) \<le> cpu_load s c)"
  by (rule least_loaded [OF assms])

theorem least_loaded_correct_witness:
  "pick_least_loaded_cpu two_tasks = 0x100"
  using least_loaded_correct [of two_tasks] two_tasks_cpus by (simp add: two_tasks_def)

end
