(* ===== verification/Spawn.thy ===== *)
theory Spawn
  imports Task Vfs
begin

text \<open>
  What the creators of tasks build (\<open>task_create\<close>, \<open>task_create_user\<close>, \<open>task_fork\<close> and \<open>task_exec_file\<close> of
  src/kernel/task.c): the interrupt frame on the new stack, the copied stack of a fork, and the file that is read and handed to
  the ELF loader.
\<close>

section \<open>Executing a file\<close>

text \<open>
  \<open>task_exec_file\<close> reads the whole file into a heap buffer. The file system state stands beside the kernel state;
  \<open>junk\<close> is the uninitialised sector buffer of \<open>vfs_read\<close>.
\<close>

definition read_buffer :: "u64 \<Rightarrow> nat \<Rightarrow> memory \<Rightarrow> u8 list" where
  "read_buffer a n m = map (\<lambda>k. m (a + of_nat k)) [0..<n]"

definition task_exec_file ::
  "'d reader \<Rightarrow> u8 list \<Rightarrow> u8 list \<Rightarrow> 'd vfs_state \<Rightarrow> kern \<Rightarrow> (u64 \<times> 'd vfs_state \<times> kern) option" where
  "task_exec_file rd junk path v s =
     Option.bind (vfs_open rd path v) (\<lambda>(fd, v1).
       if fd < 0 then Some (0, v1, s)
       else let n = vfs_size fd v1
            in Option.bind (k_malloc (ucast n) s) (\<lambda>(buf, s1).
                 let (got, bytes, v2) = vfs_read rd fd junk (read_buffer buf (unat n) (phys_mem (vm s1))) n v1;
                     v3 = vfs_close fd v2;
                     s2 = s1\<lparr>vm := (vm s1)\<lparr>phys_mem := put_buffer buf bytes (phys_mem (vm s1))\<rparr>\<rparr>
                 in Option.bind (task_exec buf s2) (\<lambda>(task, s3).
                      map_option (\<lambda>s4. (task, v3, s4)) (k_free buf s3))))"

section \<open>Frames\<close>

lemma disjoint8_cells:
  assumes "i < j" "j < 2 ^ 60"
  shows "disjoint8 (a - of_nat (8 * i)) (a - of_nat (8 * j))"
proof -
  have u: "unat (of_nat (8 * i) :: u64) = 8 * i" "unat (of_nat (8 * j) :: u64) = 8 * j"
    using assms by (intro unat_of_nat_small; simp)+
  have d: "(a - x) - (a - y) = y - x" for x y :: u64 by simp
  have "j < 1152921504606846976" using assms(2) by simp
  then have "8 \<le> 8 * j - 8 * i" "8 \<le> 8 * i + 18446744073709551616 - 8 * j" using assms(1) by linarith+
  moreover have "unat (of_nat (8 * j) - of_nat (8 * i) :: u64) = 8 * j - 8 * i"
    "unat (of_nat (8 * i) - of_nat (8 * j) :: u64) = 8 * i + 18446744073709551616 - 8 * j"
    unfolding unat_sub_if_size u using assms by (simp_all add: word_size)
  ultimately show ?thesis unfolding disjoint8_def d word_le_iff_unat by simp
qed

lemma push_all:
  assumes "length vs < 2 ^ 60"
  shows "\<exists>m'. fold push64 vs (sp, m) = (sp - of_nat (8 * length vs), m') \<and>
    (\<forall>k<length vs. load64 m' (sp - of_nat (8 * Suc k)) = vs ! k)"
  using assms
proof (induction vs rule: rev_induct)
  case (snoc v vs)
  obtain m1 where IH: "fold push64 vs (sp, m) = (sp - of_nat (8 * length vs), m1)"
    "\<forall>k<length vs. load64 m1 (sp - of_nat (8 * Suc k)) = vs ! k" using snoc by auto
  let ?a = "sp - of_nat (8 * Suc (length vs))"
  have step: "fold push64 (vs @ [v]) (sp, m) = (?a, store64 m1 ?a v)"
    using IH(1) by (simp add: push64_def algebra_simps)
  have "load64 (store64 m1 ?a v) (sp - of_nat (8 * Suc k)) = (vs @ [v]) ! k"
    if "k < length (vs @ [v])" for k
  proof (cases "k = length vs")
    case True then show ?thesis by (simp only: load64_store64_same nth_append_length)
  next
    case False
    then have k: "k < length vs" using that by simp
    have "disjoint8 (sp - of_nat (8 * Suc k)) ?a"
      using disjoint8_cells [of "Suc k" "Suc (length vs)" sp] snoc.prems k by simp
    then have "load64 (store64 m1 ?a v) (sp - of_nat (8 * Suc k)) = load64 m1 (sp - of_nat (8 * Suc k))"
      by (rule load64_store64_other)
    also have "\<dots> = (vs @ [v]) ! k" using IH(2) k by (simp only: nth_append if_True)
    finally show ?thesis .
  qed
  then show ?case using step by (intro exI [of _ "store64 m1 ?a v"]) simp
qed simp

text \<open>The frame in the order of the structure \<open>interrupt_frame\<close>, lowest address first.\<close>

definition frame_words :: "u64 \<Rightarrow> u64 \<Rightarrow> u64 \<Rightarrow> u64 \<Rightarrow> u64 list" where
  "frame_words rip cs rsp ss = replicate 15 0 @ [0, 0, rip, cs, 0x202, rsp, ss]"

lemma push_frame_words:
  "\<exists>m'. push_frame ss rsp cs rip stack m = (stack - 176, m') \<and>
    (\<forall>k<22. load64 m' (stack - 176 + of_nat (8 * k)) = frame_words rip cs rsp ss ! k)"
proof -
  let ?vs = "[ss, rsp, 0x202, cs, rip, 0, 0] @ replicate 15 0"
  have rv: "frame_words rip cs rsp ss = rev ?vs" by (simp add: frame_words_def)
  have len: "length ?vs = 22" by simp
  obtain m' where m': "fold push64 ?vs (stack, m) = (stack - of_nat (8 * 22), m')"
    "\<forall>k<22. load64 m' (stack - of_nat (8 * Suc k)) = ?vs ! k"
    using push_all [of ?vs stack m] unfolding len by auto
  have "load64 m' (stack - 176 + of_nat (8 * k)) = frame_words rip cs rsp ss ! k" if "k < 22" for k
  proof -
    have "of_nat (8 * Suc (21 - k)) = (176 - of_nat (8 * k) :: u64)"
    proof -
      have "8 * Suc (21 - k) = 176 - 8 * k" using that by simp
      then show ?thesis using that by (simp only: of_nat_diff [of "8 * k" 176]) simp
    qed
    then have "stack - 176 + of_nat (8 * k) = stack - of_nat (8 * Suc (21 - k))" by simp
    moreover have "load64 m' (stack - of_nat (8 * Suc (21 - k))) = ?vs ! (21 - k)"
      by (rule m'(2) [rule_format]) simp
    ultimately have "load64 m' (stack - 176 + of_nat (8 * k)) = ?vs ! (21 - k)" by (simp only:)
    also have "\<dots> = rev ?vs ! k" using rev_nth [of k ?vs] that unfolding len by simp
    finally show ?thesis by (simp only: rv)
  qed
  then show ?thesis using m'(1) by (simp add: push_frame_def)
qed

section \<open>New tasks\<close>

text \<open>A task that no queue, CPU or idle slot refers to may change freely.\<close>

definition unused_task :: "kern \<Rightarrow> (u64 \<Rightarrow> u64 list) \<Rightarrow> u64 \<Rightarrow> bool" where
  "unused_task s Q t \<longleftrightarrow> t \<noteq> 0 \<and> t \<notin> queued (cpus_of s) Q \<and>
     (\<forall>c\<in>set (cpus_of s). t \<noteq> current_task (cpu_at s c) \<and> t \<noteq> idle_task (cpu_at s c))"

lemma sched_ok_fresh:
  assumes "sched_ok s Q" "unused_task s Q t" "\<And>x. x \<noteq> t \<Longrightarrow> tasks s' x = tasks s x" "cpu_at s' = cpu_at s"
    "cpu_table s' = cpu_table s" "cpu_count s' = cpu_count s" "gs_cpu s' = gs_cpu s"
  shows "sched_ok s' Q \<and> unused_task s' Q t \<and> cpus_of s' = cpus_of s"
proof -
  have cp: "cpus_of s' = cpus_of s" using assms by (simp add: cpus_of_def cpu_get_by_index_def cpu_get_count_def)
  have tq: "tasks s' x = tasks s x" if "x \<in> queued (cpus_of s) Q" for x
    using assms(2,3) that by (metis unused_task_def)
  have tc: "tasks s' (current_task (cpu_at s c)) = tasks s (current_task (cpu_at s c))"
    "tasks s' (idle_task (cpu_at s c)) = tasks s (idle_task (cpu_at s c))" if "c \<in> set (cpus_of s)" for c
    using assms(2,3) that by (metis unused_task_def)+
  have "rq_ok s' c (Q c) = rq_ok s c (Q c)" if "c \<in> set (cpus_of s)" for c
  proof -
    have "task_links s' q = task_links s q" if "q \<in> set (Q c)" for q
    proof -
      have "q \<in> queued (cpus_of s) Q" using that \<open>c \<in> set (cpus_of s)\<close> by (auto simp: queued_def)
      then show ?thesis by (simp add: task_links_def tq)
    qed
    then have "chain (task_links s') p (Q c) = chain (task_links s) p (Q c)" for p by (rule chain_cong)
    then show ?thesis by (simp add: rq_ok_def assms(4))
  qed
  then have "queues_ok s' (cpus_of s) Q" using assms(1) by (simp add: sched_ok_def queues_ok_def)
  then have "sched_ok s' Q" using assms(1) tq tc by (simp add: sched_ok_def cp assms(4,7))
  then show ?thesis using assms(2) cp by (simp add: unused_task_def assms(4))
qed

lemma sched_ok_enqueue:
  assumes ok: "sched_ok s Q" and t: "unused_task s Q t" and c: "c \<in> set (cpus_of s)"
    and rd: "task_state (tasks s t) = TASK_READY" "task_id (tasks s t) \<noteq> 0"
  shows "sched_ok (enqueue_task c t s) (Q(c := Q c @ [t]))"
proof -
  let ?s = "enqueue_task c t s"
  have fr: "frame_eq s ?s" by (rule enqueue_frame)
  have cp: "cpus_of ?s = cpus_of s" by (rule frame_eq_cpus_of [OF fr])
  have core: "core (tasks ?s x) = core (tasks s x)" "cpu_core (cpu_at ?s d) = cpu_core (cpu_at s d)" for x d
    using fr by (simp_all add: frame_eq_def)
  have f: "task_id (tasks ?s x) = task_id (tasks s x)" "task_state (tasks ?s x) = task_state (tasks s x)"
    "current_task (cpu_at ?s d) = current_task (cpu_at s d)" "idle_task (cpu_at ?s d) = idle_task (cpu_at s d)" for x d
    using core_fields [OF core(1)] cpu_core_fields [OF core(2)] by blast+
  have "queues_ok ?s (cpus_of s) (Q(c := Q c @ [t]))"
    using queues_enqueue [of s "cpus_of s" Q c t] ok t c by (simp add: sched_ok_def unused_task_def)
  moreover have "queued (cpus_of s) (Q(c := Q c @ [t])) = insert t (queued (cpus_of s) Q)"
    using c by (auto simp: queued_def split: if_splits)
  moreover have "gs_cpu ?s = gs_cpu s" using fr by (simp add: frame_eq_def)
  ultimately show ?thesis using ok t rd unfolding sched_ok_def cp f
    by (auto simp: unused_task_def)
qed

text \<open>What \<open>launch\<close> does: the prepared task is ready, carries its first stack pointer and ends a queue of minimal load.\<close>

lemma launch_spec:
  assumes ok: "sched_ok s Q" and t: "unused_task s Q t" and id: "task_id (tasks s t) \<noteq> 0" and n: "0 < cpu_count s"
  obtains c where "c \<in> set (cpus_of s)" "\<forall>d\<in>set (cpus_of s). cpu_load s c \<le> cpu_load s d"
    "sched_ok (launch t sp s) (Q(c := Q c @ [t]))"
    "core (tasks (launch t sp s) t) = core ((tasks s t)\<lparr>task_rsp := sp, task_state := TASK_READY,
       timeslice := TASK_DEFAULT_TIMESLICE, task_ticks := 0\<rparr>)"
    "\<forall>x. x \<noteq> t \<longrightarrow> core (tasks (launch t sp s) x) = core (tasks s x)"
    "vm (launch t sp s) = vm s" "desktop (launch t sp s) = desktop s" "next_id (launch t sp s) = next_id s"
    "cpus_of (launch t sp s) = cpus_of s"
proof -
  define s1 where "s1 = upd_task t (\<lambda>v. v\<lparr>task_rsp := sp, task_state := TASK_READY,
                timeslice := TASK_DEFAULT_TIMESLICE, task_ticks := 0\<rparr>) s"
  define c where "c = pick_least_loaded_cpu s1"
  define s2 where "s2 = upd_task t (\<lambda>v. v\<lparr>task_cpu := uint (cpu_id (cpu_at s1 c))\<rparr>) s1"
  have l: "launch t sp s = enqueue_task c t s2" by (simp add: launch_def s1_def s2_def c_def Let_def)
  have ok2: "sched_ok s2 Q" "unused_task s2 Q t" "cpus_of s2 = cpus_of s"
    using sched_ok_fresh [OF ok t, of s2] by (simp_all add: s2_def s1_def)
  have cp1: "cpus_of s1 = cpus_of s" by (simp add: s1_def cpus_of_def cpu_get_by_index_def cpu_get_count_def)
  have load: "cpu_load s1 d = cpu_load s d" if "d \<in> set (cpus_of s)" for d
    using t that by (simp add: cpu_load_def s1_def unused_task_def Let_def)
  have c: "c \<in> set (cpus_of s)" "\<forall>d\<in>set (cpus_of s). cpu_load s c \<le> cpu_load s d"
  proof -
    have "0 < cpu_count s1" using n by (simp add: s1_def)
    from least_loaded [OF this] have l1: "c \<in> set (cpus_of s)" "\<forall>d\<in>set (cpus_of s). cpu_load s1 c \<le> cpu_load s1 d"
      unfolding c_def [symmetric] cp1 by blast+
    then show "c \<in> set (cpus_of s)" "\<forall>d\<in>set (cpus_of s). cpu_load s c \<le> cpu_load s d" using load by auto
  qed
  have rd: "task_state (tasks s2 t) = TASK_READY" "task_id (tasks s2 t) \<noteq> 0" using id by (simp_all add: s2_def s1_def)
  have fr: "frame_eq s2 (enqueue_task c t s2)" by (rule enqueue_frame)
  show thesis
  proof (rule that [OF c])
    show "sched_ok (launch t sp s) (Q(c := Q c @ [t]))"
      unfolding l using sched_ok_enqueue [OF ok2(1,2) _ rd] c(1) ok2(3) by simp
    show "core (tasks (launch t sp s) t) = core ((tasks s t)\<lparr>task_rsp := sp, task_state := TASK_READY,
       timeslice := TASK_DEFAULT_TIMESLICE, task_ticks := 0\<rparr>)"
      using fr unfolding l by (simp add: frame_eq_def s2_def s1_def core_def)
    show "\<forall>x. x \<noteq> t \<longrightarrow> core (tasks (launch t sp s) x) = core (tasks s x)"
      using fr unfolding l by (simp add: frame_eq_def s2_def s1_def)
    show "vm (launch t sp s) = vm s" "desktop (launch t sp s) = desktop s" "next_id (launch t sp s) = next_id s"
      using fr unfolding l by (simp_all add: frame_eq_def s2_def s1_def)
    show "cpus_of (launch t sp s) = cpus_of s" unfolding l using frame_eq_cpus_of [OF fr] ok2(3) by simp
  qed
qed

text \<open>The heap of the kernel is intact and the tasks in use that lie in it are blocks of it.\<close>

definition task_heap_ok :: "kern \<Rightarrow> (u64 \<Rightarrow> u64 list) \<Rightarrow> bool" where
  "task_heap_ok s Q \<longleftrightarrow> heap_inv (win_heap (desktop s)) \<and>
     (\<forall>t. heap_lo \<le> unat t \<and> unat t \<le> heap_hi \<and> \<not> unused_task s Q t \<longrightarrow> t \<in> alive (win_heap (desktop s)))"

lemma heap_block_bounds:
  assumes "heap_inv h" "(p, m) \<in> heap_live h"
  shows "heap_lo \<le> p \<and> p \<le> heap_hi"
proof -
  obtain bs where bs: "heap_ok h bs" using assms(1) by (auto simp: heap_inv_def)
  show ?thesis using live_in_heap [OF bs, of p m] assms(2) unfolding heap_live_ok [OF bs] by simp
qed

lemma k_malloc_spec:
  assumes "heap_inv (win_heap (desktop s))"
  shows "\<exists>p h. k_malloc n s = Some (p, s\<lparr>desktop := (desktop s)\<lparr>win_heap := h\<rparr>\<rparr>) \<and> heap_inv h \<and>
    alive h = alive (win_heap (desktop s)) \<union> ({p} - {0}) \<and>
    (p \<noteq> 0 \<longrightarrow> p \<notin> alive (win_heap (desktop s)) \<and> heap_lo \<le> unat p \<and> unat p \<le> heap_hi) \<and>
    kmalloc n (win_heap (desktop s)) = Some (p, h)"
proof -
  obtain p h where k: "kmalloc n (win_heap (desktop s)) = Some (p, h)" "heap_inv h"
    "if p = 0 then alive h = alive (win_heap (desktop s))
     else p \<notin> alive (win_heap (desktop s)) \<and> alive h = insert p (alive (win_heap (desktop s)))"
    using kmalloc_alive [OF assms] by blast
  moreover have "heap_lo \<le> unat p \<and> unat p \<le> heap_hi" if nz: "p \<noteq> 0"
  proof -
    obtain m where "(unat p, m) \<in> heap_live h" using heap.malloc_block [OF assms k(1) nz] by blast
    then show ?thesis using heap_block_bounds k(2) by blast
  qed
  ultimately show ?thesis by (intro exI [of _ p] exI [of _ h]) (auto simp: k_malloc_def split: if_splits)
qed

lemma task_create_ok:
  assumes ok: "sched_ok s Q" and hp: "task_heap_ok s Q" and id: "next_id s \<noteq> 0"
  shows "\<exists>t s'. task_create rsp start s = Some (t, s') \<and> (t \<noteq> 0 \<longrightarrow>
    (\<exists>c\<in>set (cpus_of s). (\<forall>d\<in>set (cpus_of s). cpu_load s c \<le> cpu_load s d) \<and> sched_ok s' (Q(c := Q c @ [t])) \<and>
       unused_task s Q t \<and> (\<forall>x. x \<noteq> t \<longrightarrow> core (tasks s' x) = core (tasks s x)) \<and>
       next_id s' = next_id s + 1 \<and> task_id (tasks s' t) = next_id s \<and> task_pml4 (tasks s' t) = cr3 s \<and>
       kernel_rsp (tasks s' t) = stack_bottom (tasks s' t) + STACK_SIZE \<and>
       task_rsp (tasks s' t) = kernel_rsp (tasks s' t) - 176 \<and>
       alive (win_heap (desktop s')) = alive (win_heap (desktop s)) \<union> ({t, stack_bottom (tasks s' t)} - {0}) \<and>
       (\<forall>k<22. load64 (phys_mem (vm s')) (task_rsp (tasks s' t) + of_nat (8 * k)) =
          frame_words start 0x08 (rsp (kernel_rsp (tasks s' t))) 0x10 ! k)))"
proof -
  have hi: "heap_inv (win_heap (desktop s))" using hp by (simp add: task_heap_ok_def)
  obtain t h1 where s1: "k_malloc TASK_SIZE s = Some (t, s\<lparr>desktop := (desktop s)\<lparr>win_heap := h1\<rparr>\<rparr>)" "heap_inv h1"
    "alive h1 = alive (win_heap (desktop s)) \<union> ({t} - {0})" "t \<noteq> 0 \<longrightarrow> t \<notin> alive (win_heap (desktop s)) \<and> heap_lo \<le> unat t \<and> unat t \<le> heap_hi"
    using k_malloc_spec [OF hi, of TASK_SIZE] by blast
  define s3 where "s3 = upd_task t (\<lambda>v. v\<lparr>task_id := next_id s, task_pml4 := cr3 s\<rparr>)
      (s\<lparr>desktop := (desktop s)\<lparr>win_heap := h1\<rparr>, next_id := next_id s + 1\<rparr>)"
  have d3: "win_heap (desktop s3) = h1" by (simp add: s3_def)
  obtain b h2 where s4: "k_malloc STACK_SIZE s3 = Some (b, s3\<lparr>desktop := (desktop s3)\<lparr>win_heap := h2\<rparr>\<rparr>)"
    "alive h2 = alive h1 \<union> ({b} - {0})"
    using k_malloc_spec [of s3 STACK_SIZE] s1(2) unfolding d3 by blast
  let ?stack = "b + STACK_SIZE"
  obtain m where m: "push_frame 0x10 (rsp ?stack) 0x08 start ?stack (phys_mem (vm s)) = (?stack - 176, m)"
    "\<forall>k<22. load64 m (?stack - 176 + of_nat (8 * k)) = frame_words start 0x08 (rsp ?stack) 0x10 ! k"
    using push_frame_words by blast
  define s6 where "s6 = upd_task t (\<lambda>v. v\<lparr>stack_bottom := b, user_stack_bottom := 0, kernel_rsp := ?stack\<rparr>)
      (s3\<lparr>desktop := (desktop s3)\<lparr>win_heap := h2\<rparr>, vm := (vm s)\<lparr>phys_mem := m\<rparr>\<rparr>)"
  have take: "upd_task t (\<lambda>v. v\<lparr>task_pml4 := cr3 (take_id t (s\<lparr>desktop := (desktop s)\<lparr>win_heap := h1\<rparr>\<rparr>))\<rparr>)
      (take_id t (s\<lparr>desktop := (desktop s)\<lparr>win_heap := h1\<rparr>\<rparr>)) = s3"
    by (simp add: s3_def take_id_def upd_task_def)
  have run: "task_create rsp start s = Some (t, launch t (?stack - 176) s6)"
  proof -
    have "vm s3 = vm s" by (simp add: s3_def)
    moreover have "(upd_task t (\<lambda>v. v\<lparr>stack_bottom := b, user_stack_bottom := 0, kernel_rsp := ?stack\<rparr>)
        (s3\<lparr>desktop := (desktop s3)\<lparr>win_heap := h2\<rparr>\<rparr>))\<lparr>vm := (vm s)\<lparr>phys_mem := m\<rparr>\<rparr> = s6"
      by (simp add: s6_def upd_task_def)
    ultimately show ?thesis unfolding task_create_def s1(1) bind.bind_lunit prod.case Let_def take s4(1) by (simp add: m(1))
  qed
  show ?thesis
  proof (cases "t = 0")
    case False
    have un: "unused_task s Q t" using hp False s1(4) by (auto simp: task_heap_ok_def)
    have six: "tasks s6 = (tasks s)(t := (tasks s t)\<lparr>task_id := next_id s, task_pml4 := cr3 s, stack_bottom := b,
         user_stack_bottom := 0, kernel_rsp := ?stack\<rparr>)" "cpu_at s6 = cpu_at s" "cpu_table s6 = cpu_table s"
      "cpu_count s6 = cpu_count s" "gs_cpu s6 = gs_cpu s" "next_id s6 = next_id s + 1" "phys_mem (vm s6) = m"
      "win_heap (desktop s6) = h2"
      by (simp_all add: s6_def s3_def)
    have ok6: "sched_ok s6 Q" "unused_task s6 Q t" "cpus_of s6 = cpus_of s"
      using sched_ok_fresh [OF ok un, of s6] by (simp_all add: six)
    have "0 < cpu_count s6" using ok by (auto simp: sched_ok_def cpus_of_def cpu_get_count_def six)
    moreover have "task_id (tasks s6 t) \<noteq> 0" using id by (simp add: six)
    ultimately obtain c where c: "c \<in> set (cpus_of s6)" "\<forall>d\<in>set (cpus_of s6). cpu_load s6 c \<le> cpu_load s6 d"
      "sched_ok (launch t (?stack - 176) s6) (Q(c := Q c @ [t]))"
      "core (tasks (launch t (?stack - 176) s6) t) = core ((tasks s6 t)\<lparr>task_rsp := ?stack - 176, task_state := TASK_READY,
         timeslice := TASK_DEFAULT_TIMESLICE, task_ticks := 0\<rparr>)"
      "\<forall>x. x \<noteq> t \<longrightarrow> core (tasks (launch t (?stack - 176) s6) x) = core (tasks s6 x)"
      "vm (launch t (?stack - 176) s6) = vm s6" "desktop (launch t (?stack - 176) s6) = desktop s6"
      "next_id (launch t (?stack - 176) s6) = next_id s6"
      using launch_spec [OF ok6(1,2), of "?stack - 176"] by metis
    have load: "cpu_load s6 d = cpu_load s d" if "d \<in> set (cpus_of s)" for d
    proof -
      have "current_task (cpu_at s d) \<noteq> t" using un that by (auto simp: unused_task_def)
      then show ?thesis by (simp add: cpu_load_def six Let_def)
    qed
    show ?thesis
      using run c core_fields [OF c(4)] un six ok6(3) load m(2) s1(3) s4(2) by (intro exI [of _ t] exI [of _ "launch t (?stack - 176) s6"]) auto
  qed (use run in auto)
qed

section \<open>Fork\<close>

text \<open>Two blocks of the heap, seen as memory.\<close>

lemma blocks_forward_safe:
  assumes inv: "heap_inv h" and blk: "(unat a, k) \<in> heap_live h" "(unat b, l) \<in> heap_live h" "a \<noteq> b"
    and room: "x + n \<le> k" "y + n \<le> l"
  shows "forward_safe n (a + of_nat x) (b + of_nat y)"
  unfolding forward_safe_def
proof (intro allI impI)
  fix i j assume ij: "i < n" "j < i"
  obtain bs where bs: "heap_ok h bs" using inv by (auto simp: heap_inv_def)
  have lim: "unat a + k \<le> heap_hi" "unat b + l \<le> heap_hi"
    using live_in_heap [OF bs] blk unfolding heap_live_ok [OF bs] by blast+
  have small: "(heap_hi :: nat) < 2 ^ 64" by (simp add: heap_hi_def)
  have "unat (a + of_nat (x + j)) = unat a + (x + j)" "unat (b + of_nat (y + i)) = unat b + (y + i)"
    using ij room lim small by (subst unat_plus_no_wrap; simp add: unat_of_nat_small)+
  moreover have "unat a + k < unat b \<or> unat b + l < unat a"
    using heap.blocks_apart [OF inv blk(1,2)] blk(3) by (metis Pair_inject word_unat_eq_iff)
  ultimately have "unat (b + of_nat (y + i)) \<noteq> unat (a + of_nat (x + j))" using ij room by linarith
  then show "b + of_nat y + of_nat i \<noteq> a + of_nat x + of_nat j" by (auto simp: add.assoc)
qed

text \<open>The copied stack: \<open>n\<close> qwords of the parent, the lowest one cleared.\<close>

lemma fork_frame:
  fixes m :: memory
  assumes fs: "forward_safe (8 * n) d s" and n: "0 < n" "n < 2 ^ 59"
  defines "m' \<equiv> store64 (memcpy d s (of_nat (8 * n)) m) d 0"
  shows "load64 m' d = 0" and "k < n \<Longrightarrow> 0 < k \<Longrightarrow> load64 m' (d + of_nat (8 * k)) = load64 m (s + of_nat (8 * k))"
proof -
  show "load64 m' d = 0" by (simp add: m'_def load64_store64_same)
  assume k: "k < n" "0 < k"
  have u: "unat (of_nat (8 * n) :: u64) = 8 * n" using n by (intro unat_of_nat_small) simp
  have "memcpy d s (of_nat (8 * n)) m = copied d s (of_nat (8 * n)) m"
    by (rule memcpy_copied) (simp only: u fs)
  moreover have "disjoint8 (d + of_nat (8 * k)) d"
    using disjoint8_cells [of 0 k "d + of_nat (8 * k)"] k n by (simp add: disjoint8_def conj_commute)
  ultimately have "load64 m' (d + of_nat (8 * k)) = load64 (copied d s (of_nat (8 * n)) m) (d + of_nat (8 * k))"
    by (simp only: m'_def load64_store64_other)
  also have "\<dots> = load64 m (s + of_nat (8 * k))"
  proof (rule load64_cong)
    fix j :: u64 assume "j < 8"
    then have j: "unat j < 8" by (simp add: word_less_iff_unat)
    have uk: "unat (of_nat (8 * k) :: u64) = 8 * k" using n k by (intro unat_of_nat_small) simp
    have "8 * k + unat j < 2 ^ LENGTH(64)" using n k j by simp
    then have "unat (of_nat (8 * k) + j) = 8 * k + unat j"
      using unat_plus_no_wrap [of "of_nat (8 * k)" j] by (simp only: uk)
    then have "of_nat (8 * k) + j < (of_nat (8 * n) :: u64)"
      using j k by (simp only: word_less_iff_unat u)
    then show "copied d s (of_nat (8 * n)) m (d + of_nat (8 * k) + j) = m (s + of_nat (8 * k) + j)"
      by (simp only: copied_def add.assoc add_diff_cancel_left' if_True)
  qed
  finally show "load64 m' (d + of_nat (8 * k)) = load64 m (s + of_nat (8 * k))" .
qed

text \<open>The parent runs on a kernel stack of its own, with \<open>n\<close> qwords saved on it.\<close>

definition stack_in_use :: "kern \<Rightarrow> u64 \<Rightarrow> nat \<Rightarrow> bool" where
  "stack_in_use s t n \<longleftrightarrow> (\<exists>k. (unat (stack_bottom (tasks s t)), k) \<in> heap_live (win_heap (desktop s)) \<and> 16384 \<le> k) \<and>
     kernel_rsp (tasks s t) = stack_bottom (tasks s t) + STACK_SIZE \<and>
     task_rsp (tasks s t) = kernel_rsp (tasks s t) - of_nat (8 * n) \<and> 0 < n \<and> 8 * n \<le> 16384"

lemma stack_copy_safe:
  assumes inv: "heap_inv h" and k: "kmalloc STACK_SIZE h = Some (b, h')" "b \<noteq> 0"
    and a: "(unat a, k) \<in> heap_live h" "16384 \<le> k" and n: "8 * n \<le> 16384"
  shows "forward_safe (8 * n) (b + STACK_SIZE - of_nat (8 * n)) (a + STACK_SIZE - of_nat (8 * n))"
proof -
  obtain l where l: "block_fits STACK_SIZE l" "heap_live h' = insert (unat b, l) (heap_live h)" "\<forall>k. (unat b, k) \<notin> heap_live h"
    using heap.malloc_block [OF inv k] by blast
  have inv': "heap_inv h'" using heap.malloc_returns [OF inv, of STACK_SIZE] k(1) by auto
  have l16: "16384 \<le> l" using l(1) by (simp add: block_fits_def round_up8_def STACK_SIZE_def)
  have "a \<noteq> b" using l(3) a(1) by auto
  have e: "x + STACK_SIZE - of_nat (8 * n) = x + of_nat (16384 - 8 * n)" for x :: u64
    using n by (simp only: of_nat_diff STACK_SIZE_def) simp
  show ?thesis unfolding e
    by (rule blocks_forward_safe [OF inv', of b l a k]) (use l a l16 n \<open>a \<noteq> b\<close> in auto)
qed

lemma task_fork_ok:
  assumes ok: "sched_ok s Q" and hp: "task_heap_ok s Q" and id: "next_id s \<noteq> 0"
    and par: "parent = current_task (cpu_at s (gs_cpu s))" "stack_in_use s parent n"
    and cl: "vmm_clone_address_space (task_pml4 (tasks s parent)) (vm s) = (pml4, v)"
    and al: "kmalloc TASK_SIZE (win_heap (desktop s)) = Some (child, h)" "child \<noteq> 0" "kmalloc STACK_SIZE h = Some (stack, h')" "stack \<noteq> 0"
  shows "\<exists>s'. task_fork s = Some (next_id s, s') \<and> next_id s' = next_id s + 1 \<and> unused_task s Q child \<and>
    sched_ok s' (Q(gs_cpu s := Q (gs_cpu s) @ [child])) \<and>
    task_id (tasks s' child) = next_id s \<and> task_pml4 (tasks s' child) = pml4 \<and> task_state (tasks s' child) = TASK_READY \<and>
    (\<forall>x. x \<noteq> child \<longrightarrow> core (tasks s' x) = core (tasks s x)) \<and>
    stack_bottom (tasks s' child) = stack \<and> kernel_rsp (tasks s' child) = stack + STACK_SIZE \<and>
    task_rsp (tasks s' child) = stack + STACK_SIZE - of_nat (8 * n) \<and>
    load64 (phys_mem (vm s')) (task_rsp (tasks s' child)) = 0 \<and>
    (\<forall>k. 0 < k \<and> k < n \<longrightarrow> load64 (phys_mem (vm s')) (task_rsp (tasks s' child) + of_nat (8 * k)) =
       load64 (phys_mem v) (task_rsp (tasks s parent) + of_nat (8 * k)))"
proof -
  have hi: "heap_inv (win_heap (desktop s))" using hp by (simp add: task_heap_ok_def)
  note st = par(2) [unfolded stack_in_use_def]
  obtain k where k: "(unat (stack_bottom (tasks s parent)), k) \<in> heap_live (win_heap (desktop s))" "16384 \<le> k" using st by blast
  obtain c h1 where s1: "k_malloc TASK_SIZE s = Some (c, s\<lparr>desktop := (desktop s)\<lparr>win_heap := h1\<rparr>\<rparr>)" "heap_inv h1"
    "c \<noteq> 0 \<longrightarrow> c \<notin> alive (win_heap (desktop s)) \<and> heap_lo \<le> unat c \<and> unat c \<le> heap_hi" "kmalloc TASK_SIZE (win_heap (desktop s)) = Some (c, h1)"
    using k_malloc_spec [OF hi, of TASK_SIZE] by blast
  have ch: "c = child" "h1 = h" using s1(4) al(1) by simp_all
  define s3 where "s3 = upd_task c (\<lambda>v. v\<lparr>task_id := next_id s, task_pml4 := pml4\<rparr>)
      (s\<lparr>desktop := (desktop s)\<lparr>win_heap := h1\<rparr>, next_id := next_id s + 1, vm := v\<rparr>)"
  have d3: "win_heap (desktop s3) = h1" by (simp add: s3_def)
  obtain b h2 where s4: "k_malloc STACK_SIZE s3 = Some (b, s3\<lparr>desktop := (desktop s3)\<lparr>win_heap := h2\<rparr>\<rparr>)" "heap_inv h2"
    "kmalloc STACK_SIZE h1 = Some (b, h2)"
    using k_malloc_spec [of s3 STACK_SIZE] s1(2) unfolding d3 by blast
  have bs: "b = stack" using s4(3) al(3) by (simp add: ch(2))
  define s5 where "s5 = upd_task c (\<lambda>v. v\<lparr>stack_bottom := b\<rparr>) (s3\<lparr>desktop := (desktop s3)\<lparr>win_heap := h2\<rparr>\<rparr>)"
  have d5: "win_heap (desktop s5) = h2" by (simp add: s5_def)
  obtain ub h3 where s6: "(if user_stack_bottom (tasks s5 parent) \<noteq> 0 then k_malloc (4096 * 4) s5 else Some (0, s5)) =
      Some (ub, s5\<lparr>desktop := (desktop s5)\<lparr>win_heap := h3\<rparr>\<rparr>)"
  proof (cases "user_stack_bottom (tasks s5 parent) = 0")
    case True
    then show thesis using that [of 0 h2] d5 by simp
  next
    case False
    then show thesis using that k_malloc_spec [of s5 "4096 * 4"] s4(2) unfolding d5 by auto
  qed
  define s7 where "s7 = upd_task c (\<lambda>v. v\<lparr>user_stack_bottom := ub\<rparr>) (s5\<lparr>desktop := (desktop s5)\<lparr>win_heap := h3\<rparr>\<rparr>)"
  define used where "used = kernel_rsp (tasks s7 parent) - task_rsp (tasks s7 parent)"
  define krsp where "krsp = stack_bottom (tasks s7 c) + STACK_SIZE"
  define m where "m = store64 (memcpy (krsp - used) (task_rsp (tasks s7 parent)) used (phys_mem (vm s7))) (krsp - used) 0"
  define s8 where "s8 = upd_task c (\<lambda>v. v\<lparr>kernel_rsp := krsp, task_rsp := krsp - used, task_state := TASK_READY,
      task_cpu := task_cpu (tasks s7 parent), timeslice := TASK_DEFAULT_TIMESLICE, task_ticks := 0\<rparr>)
      (s7\<lparr>vm := (vm s7)\<lparr>phys_mem := m\<rparr>\<rparr>)"
  define s9 where "s9 = enqueue_task (gs_cpu s) c s8"
  have clone: "vmm_clone_address_space (task_pml4 (tasks (take_id c (s\<lparr>desktop := (desktop s)\<lparr>win_heap := h1\<rparr>\<rparr>)) parent))
      (vm (take_id c (s\<lparr>desktop := (desktop s)\<lparr>win_heap := h1\<rparr>\<rparr>))) = (pml4, v)"
    using cl by (auto simp: take_id_def)
  have take: "upd_task c (\<lambda>v. v\<lparr>task_pml4 := pml4\<rparr>) ((take_id c (s\<lparr>desktop := (desktop s)\<lparr>win_heap := h1\<rparr>\<rparr>))\<lparr>vm := v\<rparr>) = s3"
    by (simp add: s3_def take_id_def upd_task_def)
  have run: "task_fork s = Some (task_id (tasks s9 c), s9)"
    unfolding task_fork_def Let_def par(1) [symmetric] s1(1) bind.bind_lunit prod.case clone take s4(1)
      s5_def [symmetric] s6 option.map s7_def [symmetric] used_def [symmetric] krsp_def [symmetric] m_def [symmetric]
      s8_def [symmetric] s9_def [symmetric] ..
  have un: "unused_task s Q c" using hp al(2) s1(3) by (auto simp: task_heap_ok_def ch(1))
  have me: "gs_cpu s \<in> set (cpus_of s)" using ok by (simp add: sched_ok_def)
  have pc: "parent \<noteq> c" using un me by (auto simp: unused_task_def par(1))
  have seven: "tasks s7 = (tasks s)(c := (tasks s c)\<lparr>task_id := next_id s, task_pml4 := pml4, stack_bottom := b,
      user_stack_bottom := ub\<rparr>)" "phys_mem (vm s7) = phys_mem v"
    by (simp_all add: s7_def s5_def s3_def)
  have p7: "tasks s7 parent = tasks s parent" using pc by (simp add: seven)
  have u: "used = of_nat (8 * n)" "krsp = b + STACK_SIZE" using st
    unfolding used_def p7 krsp_def by (simp_all add: seven(1))
  have eight: "tasks s8 = (tasks s)(c := (tasks s c)\<lparr>task_id := next_id s, task_pml4 := pml4, stack_bottom := b,
      user_stack_bottom := ub, kernel_rsp := krsp, task_rsp := krsp - used, task_state := TASK_READY,
      task_cpu := task_cpu (tasks s parent), timeslice := TASK_DEFAULT_TIMESLICE, task_ticks := 0\<rparr>)"
    "cpu_at s8 = cpu_at s" "cpu_table s8 = cpu_table s" "cpu_count s8 = cpu_count s" "gs_cpu s8 = gs_cpu s" "phys_mem (vm s8) = m"
    using pc by (simp_all add: s8_def seven(1)) (simp_all add: s7_def s5_def s3_def)
  have ok8: "sched_ok s8 Q" "unused_task s8 Q c" "cpus_of s8 = cpus_of s"
    using sched_ok_fresh [OF ok un, of s8] by (simp_all add: eight)
  have rd: "task_state (tasks s8 c) = TASK_READY" "task_id (tasks s8 c) \<noteq> 0" using id by (simp_all add: eight)
  have fr: "frame_eq s8 s9" unfolding s9_def by (rule enqueue_frame)
  then have core: "core (tasks s9 x) = core (tasks s8 x)" "vm s9 = vm s8" for x by (simp_all add: frame_eq_def)
  have ok9: "sched_ok s9 (Q(gs_cpu s := Q (gs_cpu s) @ [c]))"
    unfolding s9_def using sched_ok_enqueue [OF ok8(1,2) _ rd] me ok8(3) by simp
  note f = core_fields [OF core(1) [of c]]
  have b0: "b \<noteq> 0" using al(4) by (simp add: bs)
  obtain k1 where k1: "(unat (stack_bottom (tasks s parent)), k1) \<in> heap_live h1" "16384 \<le> k1"
    using k heap.malloc_null [OF hi] heap.malloc_block [OF hi s1(4)] s1(4) al(2) ch(1) by blast
  have "forward_safe (8 * n) (krsp - used) (task_rsp (tasks s parent))"
    using stack_copy_safe [OF s1(2) s4(3) b0 k1, of n] st by (simp add: u)
  then have mem: "load64 m (krsp - used) = 0"
    "0 < i \<Longrightarrow> i < n \<Longrightarrow> load64 m (krsp - used + of_nat (8 * i)) = load64 (phys_mem v) (task_rsp (tasks s parent) + of_nat (8 * i))" for i
    using fork_frame [where n = n and d = "krsp - used" and s = "task_rsp (tasks s parent)" and m = "phys_mem v"] st unfolding m_def p7 seven(2) u(1) by simp_all
  have "core (tasks s9 x) = core (tasks s x)" if "x \<noteq> c" for x using core(1) [of x] that by (simp add: eight)
  moreover have "next_id s9 = next_id s + 1" using fr by (simp add: frame_eq_def s8_def s7_def s5_def s3_def)
  ultimately show ?thesis using run ok9 un f mem core(2) u
    by - (rule exI [of _ s9], simp add: eight ch(1) bs)
qed

section \<open>Properties\<close>

text \<open>Creating a kernel task: with memory left it gets the next id and blocks of its own, ends the queue of a CPU with the least
  load and nothing else changes; on its stack lies the frame that starts it at the entry point in ring 0 with interrupts
  enabled, and its saved stack pointer is the address of that frame.\<close>

theorem task_create_correct:
  assumes "sched_ok s Q" "task_heap_ok s Q" "next_id s \<noteq> 0"
  shows "\<exists>t s'. task_create rsp start s = Some (t, s') \<and> (t \<noteq> 0 \<longrightarrow>
    (\<exists>c\<in>set (cpus_of s). (\<forall>d\<in>set (cpus_of s). cpu_load s c \<le> cpu_load s d) \<and> sched_ok s' (Q(c := Q c @ [t])) \<and>
       unused_task s Q t \<and> (\<forall>x. x \<noteq> t \<longrightarrow> core (tasks s' x) = core (tasks s x)) \<and>
       next_id s' = next_id s + 1 \<and> task_id (tasks s' t) = next_id s \<and> task_pml4 (tasks s' t) = cr3 s \<and>
       kernel_rsp (tasks s' t) = stack_bottom (tasks s' t) + STACK_SIZE \<and>
       task_rsp (tasks s' t) = kernel_rsp (tasks s' t) - 176 \<and>
       alive (win_heap (desktop s')) = alive (win_heap (desktop s)) \<union> ({t, stack_bottom (tasks s' t)} - {0}) \<and>
       (\<forall>k<22. load64 (phys_mem (vm s')) (task_rsp (tasks s' t) + of_nat (8 * k)) =
          frame_words start 0x08 (rsp (kernel_rsp (tasks s' t))) 0x10 ! k)))"
  by (rule task_create_ok [OF assms])

lemma two_tasks_heap: "task_heap_ok two_tasks (\<lambda>_. [0x400])"
proof -
  have "unused_task two_tasks (\<lambda>_. [0x400]) t" if "heap_lo \<le> unat t" for t
  proof -
    have "\<not> heap_lo \<le> unat (a :: u64)" if "a \<in> {0, 0x200, 0x300, 0x400}" for a using that by (auto simp: heap_lo_def)
    then have "t \<notin> {0, 0x200, 0x300, 0x400}" using that by blast
    then show ?thesis unfolding unused_task_def two_tasks_cpus by (simp add: queued_def) (simp add: two_tasks_def)
  qed
  moreover have "heap_inv (win_heap (desktop two_tasks))"
    using fresh_heap_ok by (auto simp: two_tasks_def desk_def heap_inv_def)
  ultimately show ?thesis by (auto simp: task_heap_ok_def)
qed

theorem task_create_correct_witness:
  "\<exists>t s'. task_create (\<lambda>top. top) 0xC0DE two_tasks = Some (t, s') \<and> (t = 0 \<or>
    task_id (tasks s' t) = 3 \<and> load64 (phys_mem (vm s')) (task_rsp (tasks s' t) + 136) = 0xC0DE)"
proof -
  have "next_id two_tasks \<noteq> 0" "next_id two_tasks = 3" by (simp_all add: two_tasks_def)
  with task_create_correct [OF two_tasks_ok two_tasks_heap, of "\<lambda>top. top" "0xC0DE"] obtain t s' where
    t: "task_create (\<lambda>top. top) 0xC0DE two_tasks = Some (t, s')"
    "t \<noteq> 0 \<longrightarrow> task_id (tasks s' t) = 3 \<and> (\<forall>k<22. load64 (phys_mem (vm s')) (task_rsp (tasks s' t) + of_nat (8 * k)) =
          frame_words 0xC0DE 0x08 (kernel_rsp (tasks s' t)) 0x10 ! k)" by auto
  have "frame_words 0xC0DE 0x08 r 0x10 ! 17 = 0xC0DE" for r by (simp add: frame_words_def nth_append)
  with t have "t \<noteq> 0 \<longrightarrow> load64 (phys_mem (vm s')) (task_rsp (tasks s' t) + 136) = 0xC0DE"
    by (auto dest!: spec [of _ 17])
  with t show ?thesis by blast
qed

text \<open>C23. Fork, when the heap has a block for the child and one for its stack: the block \<open>child\<close> was in no use as a task, it gets the
  next id, which is the result, the cloned address space, and in the block \<open>stack\<close> a copy of the parent's kernel stack, and it ends
  the queue of the CPU of the parent; no other task changes. Only the lowest qword of the copy is cleared. The interrupt stub pops that one
  into R15; the saved RAX, 15th in the frame, is that of the parent, so the child does not see the result 0 that the comment promises.\<close>

theorem task_fork_correct:
  assumes "sched_ok s Q" "task_heap_ok s Q" "next_id s \<noteq> 0"
    and "parent = current_task (cpu_at s (gs_cpu s))" "stack_in_use s parent n"
    and "vmm_clone_address_space (task_pml4 (tasks s parent)) (vm s) = (pml4, v)"
    and "kmalloc TASK_SIZE (win_heap (desktop s)) = Some (child, h)" "child \<noteq> 0" "kmalloc STACK_SIZE h = Some (stack, h')" "stack \<noteq> 0"
  shows "\<exists>s'. task_fork s = Some (next_id s, s') \<and> next_id s' = next_id s + 1 \<and> unused_task s Q child \<and>
    sched_ok s' (Q(gs_cpu s := Q (gs_cpu s) @ [child])) \<and>
    task_id (tasks s' child) = next_id s \<and> task_pml4 (tasks s' child) = pml4 \<and> task_state (tasks s' child) = TASK_READY \<and>
    (\<forall>x. x \<noteq> child \<longrightarrow> core (tasks s' x) = core (tasks s x)) \<and>
    stack_bottom (tasks s' child) = stack \<and> kernel_rsp (tasks s' child) = stack + STACK_SIZE \<and>
    task_rsp (tasks s' child) = stack + STACK_SIZE - of_nat (8 * n) \<and>
    load64 (phys_mem (vm s')) (task_rsp (tasks s' child)) = 0 \<and>
    (\<forall>k. 0 < k \<and> k < n \<longrightarrow> load64 (phys_mem (vm s')) (task_rsp (tasks s' child) + of_nat (8 * k)) =
       load64 (phys_mem v) (task_rsp (tasks s parent) + of_nat (8 * k)))"
  by (rule task_fork_ok [OF assms])

text \<open>The running task with a kernel stack on the heap and 22 saved qwords.\<close>

definition forking :: "kmalloc_state \<Rightarrow> kern" where
  "forking h = two_tasks\<lparr>desktop := (desktop two_tasks)\<lparr>win_heap := h\<rparr>,
     tasks := (tasks two_tasks)(0x300 := (tasks two_tasks 0x300)\<lparr>stack_bottom := 0x1000018, kernel_rsp := 0x1004018,
       task_rsp := 0x1004018 - of_nat (8 * 22)\<rparr>)\<rparr>"

lemma forking_ok:
  obtains h where "kmalloc STACK_SIZE fresh_heap = Some (0x1000018, h)" "heap_inv h" "sched_ok (forking h) (\<lambda>_. [0x400])"
    "task_heap_ok (forking h) (\<lambda>_. [0x400])" "stack_in_use (forking h) 0x300 22"
    "heap_ok h [(16384, False), (16760784, True)]"
proof -
  have fits: "round_up8 STACK_SIZE = 16384" by (simp add: round_up8_def STACK_SIZE_def)
  obtain h where h: "kmalloc STACK_SIZE fresh_heap = Some (0x1000018, h)" and hb: "heap_ok h [(16384, False), (16760784, True)]"
    using kmalloc_refines [OF fresh_heap_ok, of STACK_SIZE] by (auto simp: fits heap_lo_def)
  have inv0: "heap_inv fresh_heap" using fresh_heap_ok by (auto simp: heap_inv_def)
  have inv: "heap_inv h" using heap.malloc_returns [OF inv0, of STACK_SIZE] h by auto
  obtain m where m: "block_fits STACK_SIZE m" "(unat (0x1000018 :: u64), m) \<in> heap_live h"
    using heap.malloc_block [OF inv0 h] by auto
  have cp: "cpus_of (forking h) = [0x100]"
    by (simp add: forking_def two_tasks_def cpus_of_def cpu_get_by_index_def cpu_get_count_def)
  have ok: "sched_ok (forking h) (\<lambda>_. [0x400])"
    unfolding sched_ok_def cp
    by (simp add: queues_ok_def queued_def rq_ok_def task_links_def) (simp add: forking_def two_tasks_def)
  have hp: "task_heap_ok (forking h) (\<lambda>_. [0x400])"
  proof -
    have "unused_task (forking h) (\<lambda>_. [0x400]) t" if "heap_lo \<le> unat t" for t
    proof -
      have "\<not> heap_lo \<le> unat (a :: u64)" if "a \<in> {0, 0x200, 0x300, 0x400}" for a using that by (auto simp: heap_lo_def)
      then have "t \<notin> {0, 0x200, 0x300, 0x400}" using that by blast
      then show ?thesis unfolding unused_task_def cp by (simp add: queued_def) (simp add: forking_def two_tasks_def)
    qed
    then show ?thesis using inv by (auto simp: task_heap_ok_def forking_def)
  qed
  have "16384 \<le> m" using m(1) by (simp add: block_fits_def fits)
  then have "stack_in_use (forking h) 0x300 22"
    using m(2) by (auto simp: stack_in_use_def forking_def STACK_SIZE_def)
  with that h hb inv ok hp show thesis by blast
qed

text \<open>There is room for the child and its stack behind the stack of the parent.\<close>

lemma forking_room:
  assumes "heap_ok h [(16384, False), (16760784, True)]"
  obtains h1 h2 where "kmalloc TASK_SIZE h = Some (0x1004030, h1)" "kmalloc STACK_SIZE h1 = Some (0x1004098, h2)"
proof -
  obtain h1 where h1: "kmalloc TASK_SIZE h = Some (0x1004030, h1)" "heap_ok h1 [(16384, False), (80, False), (16760680, True)]"
    using kmalloc_refines [OF assms, of TASK_SIZE] by (auto simp: round_up8_def TASK_SIZE_def heap_lo_def)
  obtain h2 where "kmalloc STACK_SIZE h1 = Some (0x1004098, h2)"
    using kmalloc_refines [OF h1(2), of STACK_SIZE] by (auto simp: round_up8_def STACK_SIZE_def heap_lo_def)
  with h1(1) that show thesis by blast
qed

theorem task_fork_correct_witness:
  "\<exists>h s'. kmalloc STACK_SIZE fresh_heap = Some (0x1000018, h) \<and> task_fork (forking h) = Some (3, s') \<and>
    task_id (tasks s' 0x1004030) = 3 \<and> stack_bottom (tasks s' 0x1004030) = 0x1004098 \<and>
    sched_ok s' ((\<lambda>_. [0x400])(gs_cpu (forking h) := [0x400, 0x1004030]))"
proof -
  obtain h where h: "kmalloc STACK_SIZE fresh_heap = Some (0x1000018, h)" "heap_inv h" "sched_ok (forking h) (\<lambda>_. [0x400])"
    "task_heap_ok (forking h) (\<lambda>_. [0x400])" "stack_in_use (forking h) 0x300 22" "heap_ok h [(16384, False), (16760784, True)]"
    by (rule forking_ok)
  have f: "next_id (forking h) = 3" "next_id (forking h) \<noteq> 0" "0x300 = current_task (cpu_at (forking h) (gs_cpu (forking h)))"
    by (simp_all add: forking_def two_tasks_def)
  obtain pml4 v where cl: "vmm_clone_address_space (task_pml4 (tasks (forking h) 0x300)) (vm (forking h)) = (pml4, v)" by fastforce
  obtain h1 h2 where al: "kmalloc TASK_SIZE (win_heap (desktop (forking h))) = Some (0x1004030, h1)"
    "kmalloc STACK_SIZE h1 = Some (0x1004098, h2)"
    using forking_room [OF h(6)] by (auto simp: forking_def)
  show ?thesis
    using task_fork_correct [OF h(3,4) f(2,3) h(5) cl al(1) _ al(2)] h(1) unfolding f(1) by auto
qed

end
