(* ===== verification/Net.thy ===== *)
theory Net
  imports CString
begin

text \<open>
  The network stack (src/kernel/net.c): Ethernet, ARP, IPv4, ICMP, UDP and TCP framing. A received frame lies in memory
  and is read through pointers with the lengths the code takes from it; a frame to send is the list of its bytes, and what
  \<open>e1000_send_packet\<close> gets is collected in \<open>sent\<close>. The result of a receive handler that a socket is bound to is an
  upcall, which \<open>Tcp\<close> and \<open>Dhcp\<close> answer.
\<close>

section \<open>Byte order and headers\<close>

definition swap16 :: "u16 \<Rightarrow> u16" where
  "swap16 x = push_bit 8 (x AND 0x00ff) OR drop_bit 8 (x AND 0xff00)"

definition swap32 :: "u32 \<Rightarrow> u32" where
  "swap32 x = push_bit 24 (x AND 0x000000ff) OR push_bit 8 (x AND 0x0000ff00) OR
     drop_bit 8 (x AND 0x00ff0000) OR drop_bit 24 (x AND 0xff000000)"

text \<open>A 16 or 32-bit field of a packed structure, stored little endian.\<close>

definition le16 :: "u16 \<Rightarrow> u8 list" where
  "le16 x = [ucast x, ucast (drop_bit 8 x)]"

definition le32 :: "u32 \<Rightarrow> u8 list" where
  "le32 x = [ucast x, ucast (drop_bit 8 x), ucast (drop_bit 16 x), ucast (drop_bit 24 x)]"

definition ETHERTYPE_IPV4 :: u16 where "ETHERTYPE_IPV4 = 0x0800"
definition ETHERTYPE_ARP :: u16 where "ETHERTYPE_ARP = 0x0806"
definition ARP_HTYPE_ETHERNET :: u16 where "ARP_HTYPE_ETHERNET = 1"
definition ARP_PTYPE_IPV4 :: u16 where "ARP_PTYPE_IPV4 = 0x0800"
definition ARP_OP_REQUEST :: u16 where "ARP_OP_REQUEST = 1"
definition ARP_OP_REPLY :: u16 where "ARP_OP_REPLY = 2"
definition IPV4_PROTO_ICMP :: u8 where "IPV4_PROTO_ICMP = 1"
definition IPV4_PROTO_TCP :: u8 where "IPV4_PROTO_TCP = 6"
definition IPV4_PROTO_UDP :: u8 where "IPV4_PROTO_UDP = 17"
definition ICMP_TYPE_ECHO_REPLY :: u8 where "ICMP_TYPE_ECHO_REPLY = 0"
definition ICMP_TYPE_ECHO_REQUEST :: u8 where "ICMP_TYPE_ECHO_REQUEST = 8"

section \<open>State\<close>

record arp_entry_t =
  arp_ip :: "u8 list"
  arp_mac :: "u8 list"
  arp_valid :: bool

record 'h binding_t =
  bind_port :: u16
  bind_handler :: 'h
  bind_valid :: bool

text \<open>
  The tables have their 32 and 16 entries. \<open>sent\<close> collects the frames handed to the network card, and \<open>overrun\<close> records
  that a copy went past the size of the buffer it asked kmalloc for, which is a 16-bit sum. kmalloc is taken to succeed here; the code
  does not test its result. It rounds the size up to 8 bytes, so a copy that is longer by less may still be inside the block.
\<close>

record ('u, 't) net_state =
  rx_packet_count :: u64
  tx_packet_count :: u64
  my_ip :: "u8 list"
  my_mac :: "u8 list"
  arp_cache :: "arp_entry_t list"
  udp_bindings :: "'u binding_t list"
  tcp_bindings :: "'t binding_t list"
  sent :: "u8 list list"
  overrun :: bool

definition ARP_CACHE_SIZE :: nat where "ARP_CACHE_SIZE = 32"
definition UDP_MAX_BINDINGS :: nat where "UDP_MAX_BINDINGS = 16"
definition TCP_MAX_BINDINGS :: nat where "TCP_MAX_BINDINGS = 16"

definition broadcast_mac :: "u8 list" where "broadcast_mac = replicate 6 0xFF"

text \<open>\<open>net_init\<close> clears the tables; the zero of a handler is \<open>null_u\<close> or \<open>null_t\<close>.\<close>

definition net_init :: "u8 list \<Rightarrow> 'u \<Rightarrow> 't \<Rightarrow> ('u, 't, 'z) net_state_scheme \<Rightarrow> ('u, 't, 'z) net_state_scheme" where
  "net_init mac null_u null_t s = s\<lparr>my_mac := mac,
     arp_cache := replicate ARP_CACHE_SIZE \<lparr>arp_ip = replicate 4 0, arp_mac = replicate 6 0, arp_valid = False\<rparr>,
     udp_bindings := replicate UDP_MAX_BINDINGS \<lparr>bind_port = 0, bind_handler = null_u, bind_valid = False\<rparr>,
     tcp_bindings := replicate TCP_MAX_BINDINGS \<lparr>bind_port = 0, bind_handler = null_t, bind_valid = False\<rparr>\<rparr>"

text \<open>The first free slot of a table of bindings is taken; a full table is left as it is.\<close>

fun bind_first :: "u16 \<Rightarrow> 'h \<Rightarrow> 'h binding_t list \<Rightarrow> 'h binding_t list" where
  "bind_first port h [] = []"
| "bind_first port h (b # bs) =
     (if \<not> bind_valid b then \<lparr>bind_port = port, bind_handler = h, bind_valid = True\<rparr> # bs else b # bind_first port h bs)"

definition net_udp_bind :: "u16 \<Rightarrow> 'u \<Rightarrow> ('u, 't, 'z) net_state_scheme \<Rightarrow> ('u, 't, 'z) net_state_scheme" where
  "net_udp_bind port h s = s\<lparr>udp_bindings := bind_first port h (udp_bindings s)\<rparr>"

definition net_tcp_bind :: "u16 \<Rightarrow> 't \<Rightarrow> ('u, 't, 'z) net_state_scheme \<Rightarrow> ('u, 't, 'z) net_state_scheme" where
  "net_tcp_bind port h s = s\<lparr>tcp_bindings := bind_first port h (tcp_bindings s)\<rparr>"

section \<open>Checksum\<close>

fun sum_words :: "u8 list \<Rightarrow> u32 \<Rightarrow> u32" where
  "sum_words (a # b # bs) acc = sum_words bs (acc + (ucast a OR push_bit 8 (ucast b)))"
| "sum_words [a] acc = acc + ucast a"
| "sum_words [] acc = acc"

lemma unat_and_ffff: "unat ((x :: u32) AND 0xFFFF) = unat x mod 65536"
proof -
  have "(0xFFFF :: u32) = mask 16" by (simp add: mask_eq_decr_exp)
  then have "x AND 0xFFFF = take_bit 16 x" by (simp add: take_bit_eq_mask)
  then show ?thesis by (simp add: take_bit_eq_mod unat_mod)
qed

lemma unat_drop_16: "unat (drop_bit 16 (x :: u32)) = unat x div 65536"
  by (simp add: unat_drop_bit_eq drop_bit_eq_div)

lemma fold_step: "unat (((x :: u32) AND 0xFFFF) + drop_bit 16 x) = unat x mod 65536 + unat x div 65536"
proof -
  have "unat x < 2 ^ 32" using unsigned_less [of x, where 'a = nat] by simp
  then have "unat x div 65536 < 65536" by simp
  moreover have "unat x mod 65536 < 65536" by simp
  ultimately have "unat (x AND 0xFFFF) + unat (drop_bit 16 x) < 2 ^ LENGTH(32)"
    unfolding unat_and_ffff unat_drop_16 by simp
  then show ?thesis by (simp only: unat_plus_no_wrap unat_and_ffff unat_drop_16)
qed

function fold_carry :: "u32 \<Rightarrow> u32" where
  "fold_carry acc = (if drop_bit 16 acc \<noteq> 0 then fold_carry ((acc AND 0xFFFF) + drop_bit 16 acc) else acc)"
  by pat_completeness auto
termination
proof (relation "measure unat")
  fix acc :: u32
  assume "drop_bit 16 acc \<noteq> 0"
  then have "0 < unat acc div 65536" by (metis unat_drop_16 unat_gt_0)
  moreover have "unat acc = 65536 * (unat acc div 65536) + unat acc mod 65536" by simp
  ultimately have "unat acc mod 65536 + unat acc div 65536 < unat acc" by linarith
  then show "((acc AND 0xFFFF) + drop_bit 16 acc, acc) \<in> measure unat" by (simp add: fold_step)
qed simp

declare fold_carry.simps [simp del]

definition net_checksum :: "u8 list \<Rightarrow> u16" where
  "net_checksum bs = NOT (ucast (fold_carry (sum_words bs 0)))"

section \<open>Sending\<close>

text \<open>\<open>sizeof\<close> of the headers is 14, 20, 8 (ICMP, UDP) and 20 (TCP); every total is a \<open>uint16_t\<close>.\<close>

definition net_send_eth :: "u8 list \<Rightarrow> u16 \<Rightarrow> u8 list \<Rightarrow> u16 \<Rightarrow> ('u, 't, 'z) net_state_scheme \<Rightarrow> ('u, 't, 'z) net_state_scheme" where
  "net_send_eth dest_mac type data len s =
     (let total_len = 14 + len;
          frame = dest_mac @ my_mac s @ le16 (swap16 type) @ take (unat len) data
      in s\<lparr>sent := sent s @ [take (unat total_len) frame], tx_packet_count := tx_packet_count s + 1,
           overrun := overrun s \<or> unat total_len < 14 + unat len\<rparr>)"

definition arp_packet :: "u16 \<Rightarrow> u8 list \<Rightarrow> u8 list \<Rightarrow> ('u, 't, 'z) net_state_scheme \<Rightarrow> u8 list" where
  "arp_packet oper dst_mac dst_ip s =
     le16 (swap16 ARP_HTYPE_ETHERNET) @ le16 (swap16 ARP_PTYPE_IPV4) @ [6, 4] @ le16 (swap16 oper) @
     my_mac s @ my_ip s @ dst_mac @ dst_ip"

definition net_send_arp_request :: "u8 list \<Rightarrow> ('u, 't, 'z) net_state_scheme \<Rightarrow> ('u, 't, 'z) net_state_scheme" where
  "net_send_arp_request target_ip s =
     net_send_eth broadcast_mac ETHERTYPE_ARP (arp_packet ARP_OP_REQUEST (replicate 6 0) target_ip s) 28 s"

definition ipv4_header :: "u16 \<Rightarrow> u8 \<Rightarrow> u16 \<Rightarrow> u8 list \<Rightarrow> u8 list \<Rightarrow> u8 list" where
  "ipv4_header total_len proto checksum src_ip dst_ip =
     [0x45, 0] @ le16 (swap16 total_len) @ le16 (swap16 0) @ le16 (swap16 0) @ [64, proto] @ le16 checksum @ src_ip @ dst_ip"

definition net_send_ipv4 :: "u8 list \<Rightarrow> u8 list \<Rightarrow> u8 \<Rightarrow> u8 list \<Rightarrow> u16 \<Rightarrow> ('u, 't, 'z) net_state_scheme \<Rightarrow> ('u, 't, 'z) net_state_scheme" where
  "net_send_ipv4 dest_ip dest_mac proto data len s =
     (let total_len = 20 + len;
          checksum = net_checksum (ipv4_header total_len proto 0 (my_ip s) dest_ip);
          packet = ipv4_header total_len proto checksum (my_ip s) dest_ip @ take (unat len) data
      in net_send_eth dest_mac ETHERTYPE_IPV4 packet total_len
           (s\<lparr>overrun := overrun s \<or> unat total_len < 20 + unat len\<rparr>))"

section \<open>The ARP cache\<close>

fun arp_insert :: "u8 list \<Rightarrow> u8 list \<Rightarrow> arp_entry_t list \<Rightarrow> arp_entry_t list" where
  "arp_insert ip mac [] = []"
| "arp_insert ip mac (e # es) =
     (if \<not> arp_valid e \<or> arp_ip e = ip then \<lparr>arp_ip = ip, arp_mac = mac, arp_valid = True\<rparr> # es
      else e # arp_insert ip mac es)"

text \<open>The search loop of the senders.\<close>

definition arp_lookup :: "u8 list \<Rightarrow> ('u, 't, 'z) net_state_scheme \<Rightarrow> u8 list option" where
  "arp_lookup ip s = map_option arp_mac (find (\<lambda>e. arp_valid e \<and> arp_ip e = ip) (arp_cache s))"

definition net_handle_arp :: "memory \<Rightarrow> u64 \<Rightarrow> u16 \<Rightarrow> ('u, 't, 'z) net_state_scheme \<Rightarrow> ('u, 't, 'z) net_state_scheme" where
  "net_handle_arp m data len s =
     (if len < 28 then s
      else if swap16 (load16 m data) \<noteq> ARP_HTYPE_ETHERNET \<or> swap16 (load16 m (data + 2)) \<noteq> ARP_PTYPE_IPV4 then s
      else let src_mac = bytes m (data + 8) 6; src_ip = bytes m (data + 14) 4; dst_ip = bytes m (data + 24) 4;
               s1 = s\<lparr>arp_cache := arp_insert src_ip src_mac (arp_cache s)\<rparr>
           in if swap16 (load16 m (data + 6)) = ARP_OP_REQUEST \<and> dst_ip = my_ip s1
              then net_send_eth src_mac ETHERTYPE_ARP (arp_packet ARP_OP_REPLY src_mac src_ip s1) 28 s1
              else s1)"

section \<open>Receiving\<close>

text \<open>A call of a bound handler, with pointers into the received frame.\<close>

datatype ('u, 't) upcall =
  UdpCall 'u "u8 list" u16 u16 u64 u16
| TcpCall 't "u8 list" u16 u16 u64 u64 u16

definition find_binding :: "u16 \<Rightarrow> 'h binding_t list \<Rightarrow> 'h option" where
  "find_binding port bs = map_option bind_handler (find (\<lambda>b. bind_valid b \<and> bind_port b = port) bs)"

definition net_handle_icmp :: "memory \<Rightarrow> u8 list \<Rightarrow> u64 \<Rightarrow> u64 \<Rightarrow> u16 \<Rightarrow> ('u, 't, 'z) net_state_scheme \<Rightarrow> ('u, 't, 'z) net_state_scheme" where
  "net_handle_icmp m src_mac ip data len s =
     (if len < 8 then s
      else if m data = ICMP_TYPE_ECHO_REQUEST
      then let reply = (bytes m data (unat len)) [0 := ICMP_TYPE_ECHO_REPLY, 2 := 0, 3 := 0];
               checksum = net_checksum reply;
               reply' = reply[2 := ucast checksum, 3 := ucast (drop_bit 8 checksum)]
           in net_send_ipv4 (bytes m (ip + 12) 4) src_mac IPV4_PROTO_ICMP reply' len s
      else s)"

definition net_handle_udp :: "memory \<Rightarrow> u64 \<Rightarrow> u64 \<Rightarrow> u16 \<Rightarrow> ('u, 't, 'z) net_state_scheme \<Rightarrow> ('u, 't) upcall option" where
  "net_handle_udp m ip data len s =
     (if len < 8 then None
      else let src_port = swap16 (load16 m data); dst_port = swap16 (load16 m (data + 2));
               udp_len = swap16 (load16 m (data + 4))
           in if udp_len < 8 \<or> udp_len > len then None
              else map_option (\<lambda>h. UdpCall h (bytes m (ip + 12) 4) src_port dst_port (data + 8) (udp_len - 8))
                     (find_binding dst_port (udp_bindings s)))"

definition net_handle_tcp :: "memory \<Rightarrow> u64 \<Rightarrow> u64 \<Rightarrow> u16 \<Rightarrow> ('u, 't, 'z) net_state_scheme \<Rightarrow> ('u, 't) upcall option" where
  "net_handle_tcp m ip data len s =
     (if len < 20 then None
      else let src_port = swap16 (load16 m data); dst_port = swap16 (load16 m (data + 2));
               header_len = drop_bit 4 (m (data + 12)) * 4
           in if header_len < 20 \<or> ucast header_len > len then None
              else map_option (\<lambda>h. TcpCall h (bytes m (ip + 12) 4) src_port dst_port data
                       (data + ucast header_len) (len - ucast header_len))
                     (find_binding dst_port (tcp_bindings s)))"

definition net_handle_ipv4 ::
  "memory \<Rightarrow> u8 list \<Rightarrow> u64 \<Rightarrow> u16 \<Rightarrow> ('u, 't, 'z) net_state_scheme \<Rightarrow> ('u, 't) upcall option \<times> ('u, 't, 'z) net_state_scheme" where
  "net_handle_ipv4 m src_mac data len s =
     (if len < 20 then (None, s)
      else let dst_ip = bytes m (data + 16) 4
           in if dst_ip \<noteq> my_ip s \<and> dst_ip \<noteq> take 4 broadcast_mac then (None, s)
              else let hlen = (m data AND 0x0F) * 4;
                       payload = data + ucast hlen;
                       payload_len = swap16 (load16 m (data + 2)) - ucast hlen
                   in if m (data + 9) = IPV4_PROTO_ICMP then (None, net_handle_icmp m src_mac data payload payload_len s)
                      else if m (data + 9) = IPV4_PROTO_UDP then (net_handle_udp m data payload payload_len s, s)
                      else if m (data + 9) = IPV4_PROTO_TCP then (net_handle_tcp m data payload payload_len s, s)
                      else (None, s))"

definition net_handle_packet ::
  "memory \<Rightarrow> u64 \<Rightarrow> u16 \<Rightarrow> ('u, 't, 'z) net_state_scheme \<Rightarrow> ('u, 't) upcall option \<times> ('u, 't, 'z) net_state_scheme" where
  "net_handle_packet m data len s =
     (if len < 14 then (None, s)
      else let s1 = s\<lparr>rx_packet_count := rx_packet_count s + 1\<rparr>;
               type = swap16 (load16 m (data + 12));
               payload = data + 14; payload_len = len - 14
           in if type = ETHERTYPE_ARP then (None, net_handle_arp m payload payload_len s1)
              else if type = ETHERTYPE_IPV4 then net_handle_ipv4 m (bytes m (data + 6) 6) payload payload_len s1
              else (None, s1))"

section \<open>Sending over UDP, TCP and ICMP\<close>

text \<open>
  A sender that does not find the hardware address asks for it and polls the card until the address is there or the time is
  over. \<open>polls\<close> are the \<open>e1000_poll\<close> calls that fit into that time, one after the other: such a call can receive
  frames, so it may change the whole state of the stack (the functions work on any extension of \<open>net_state\<close>), and it is
  \<open>None\<close> when it does not return.
\<close>

fun await_arp :: "u8 list \<Rightarrow> (('u, 't, 'z) net_state_scheme \<Rightarrow> ('u, 't, 'z) net_state_scheme option) list \<Rightarrow>
    ('u, 't, 'z) net_state_scheme \<Rightarrow> (u8 list option \<times> ('u, 't, 'z) net_state_scheme) option" where
  "await_arp ip [] s = Some (None, s)"
| "await_arp ip (p # ps) s =
     (case p s of None \<Rightarrow> None
      | Some s1 \<Rightarrow> (case arp_lookup ip s1 of Some mac \<Rightarrow> Some (Some mac, s1) | None \<Rightarrow> await_arp ip ps s1))"

definition resolve :: "u8 list \<Rightarrow> (('u, 't, 'z) net_state_scheme \<Rightarrow> ('u, 't, 'z) net_state_scheme option) list \<Rightarrow>
    ('u, 't, 'z) net_state_scheme \<Rightarrow> (u8 list option \<times> ('u, 't, 'z) net_state_scheme) option" where
  "resolve ip polls s =
     (case arp_lookup ip s of Some mac \<Rightarrow> Some (Some mac, s) | None \<Rightarrow> await_arp ip polls (net_send_arp_request ip s))"

definition tcp_header :: "u16 \<Rightarrow> u16 \<Rightarrow> u32 \<Rightarrow> u32 \<Rightarrow> u8 \<Rightarrow> u16 \<Rightarrow> u8 list" where
  "tcp_header src_port dst_port seq ack flags checksum =
     le16 (swap16 src_port) @ le16 (swap16 dst_port) @ le32 (swap32 seq) @ le32 (swap32 ack) @
     [0x50, flags] @ le16 (swap16 8192) @ le16 checksum @ [0, 0]"

definition tcp_pseudo :: "u8 list \<Rightarrow> u8 list \<Rightarrow> u16 \<Rightarrow> u8 list" where
  "tcp_pseudo src_ip dst_ip total_len = src_ip @ dst_ip @ [0, IPV4_PROTO_TCP] @ le16 (swap16 total_len)"

definition net_send_tcp ::
  "(('u, 't, 'z) net_state_scheme \<Rightarrow> ('u, 't, 'z) net_state_scheme option) list \<Rightarrow> u8 list \<Rightarrow> u16 \<Rightarrow> u16 \<Rightarrow> u32 \<Rightarrow> u32 \<Rightarrow>
   u8 \<Rightarrow> u8 list \<Rightarrow> u16 \<Rightarrow> ('u, 't, 'z) net_state_scheme \<Rightarrow> ('u, 't, 'z) net_state_scheme option" where
  "net_send_tcp polls target_ip src_port dst_port seq ack flags data len s =
     (case resolve target_ip polls s of
        None \<Rightarrow> None
      | Some (None, s1) \<Rightarrow> Some s1
      | Some (Some target_mac, s1) \<Rightarrow>
          let total_len = 20 + len;
              segment = tcp_header src_port dst_port seq ack flags 0 @ take (unat len) data;
              checksum = net_checksum (tcp_pseudo (my_ip s1) target_ip total_len @ take (unat total_len) segment);
              segment' = tcp_header src_port dst_port seq ack flags checksum @ take (unat len) data
          in Some (net_send_ipv4 target_ip target_mac IPV4_PROTO_TCP (take (unat total_len) segment') total_len
               (s1\<lparr>overrun := overrun s1 \<or> unat total_len < 20 + unat len\<rparr>)))"

definition net_send_udp ::
  "u8 list \<Rightarrow> u16 \<Rightarrow> u16 \<Rightarrow> u8 list \<Rightarrow> u16 \<Rightarrow> ('u, 't, 'z) net_state_scheme \<Rightarrow> ('u, 't, 'z) net_state_scheme" where
  "net_send_udp target_ip src_port dst_port data len s =
     (case (if target_ip = replicate 4 255 then Some broadcast_mac else arp_lookup target_ip s) of
        None \<Rightarrow> s
      | Some target_mac \<Rightarrow>
          let total_len = 8 + len;
              packet = le16 (swap16 src_port) @ le16 (swap16 dst_port) @ le16 (swap16 total_len) @ le16 0 @ take (unat len) data
          in net_send_ipv4 target_ip target_mac IPV4_PROTO_UDP (take (unat total_len) packet) total_len
               (s\<lparr>overrun := overrun s \<or> unat total_len < 8 + unat len\<rparr>))"

definition net_ping ::
  "(('u, 't, 'z) net_state_scheme \<Rightarrow> ('u, 't, 'z) net_state_scheme option) list \<Rightarrow> u8 list \<Rightarrow>
   ('u, 't, 'z) net_state_scheme \<Rightarrow> ('u, 't, 'z) net_state_scheme option" where
  "net_ping polls target_ip s =
     (case resolve target_ip polls s of
        None \<Rightarrow> None
      | Some (None, s1) \<Rightarrow> Some s1
      | Some (Some target_mac, s1) \<Rightarrow>
          let req = (\<lambda>checksum. [ICMP_TYPE_ECHO_REQUEST, 0] @ le16 checksum @ le16 (swap16 0x1234) @ le16 (swap16 1))
          in Some (net_send_ipv4 target_ip target_mac IPV4_PROTO_ICMP (req (net_checksum (req 0))) 8 s1))"

definition net_get_rx_count :: "('u, 't, 'z) net_state_scheme \<Rightarrow> u64" where "net_get_rx_count s = rx_packet_count s"
definition net_get_tx_count :: "('u, 't, 'z) net_state_scheme \<Rightarrow> u64" where "net_get_tx_count s = tx_packet_count s"
definition net_get_ip :: "('u, 't, 'z) net_state_scheme \<Rightarrow> u8 list" where "net_get_ip s = my_ip s"

definition net_set_ip :: "u8 list \<Rightarrow> ('u, 't, 'z) net_state_scheme \<Rightarrow> ('u, 't, 'z) net_state_scheme" where
  "net_set_ip ip s = s\<lparr>my_ip := ip\<rparr>"

section \<open>The checksum as arithmetic modulo 65535\<close>

text \<open>The sum of the 16-bit words, and its one's complement reduction.\<close>

fun word_total :: "u8 list \<Rightarrow> nat" where
  "word_total (a # b # bs) = unat a + 256 * unat b + word_total bs"
| "word_total [a] = unat a"
| "word_total [] = 0"

definition reduce16 :: "nat \<Rightarrow> nat" where
  "reduce16 n = (if n = 0 then 0 else if n mod 65535 = 0 then 65535 else n mod 65535)"

lemma byte_less: "unat (a :: u8) < 256"
  using unsigned_less [of a, where 'a = nat] by simp

lemma word_of_bytes: "unat (ucast a OR push_bit 8 (ucast b) :: u32) = unat (a :: u8) + 256 * unat (b :: u8)"
proof -
  have "(ucast a :: u32) AND push_bit 8 (ucast b) = 0"
    by (rule bit_word_eqI) (auto simp: bit_simps dest: bit_imp_le_length)
  then have "ucast a OR push_bit 8 (ucast b) = ucast a + (push_bit 8 (ucast b) :: u32)"
    using word_plus_and_or [of "ucast a :: u32" "push_bit 8 (ucast b)"] by simp
  moreover have "unat (push_bit 8 (ucast b) :: u32) = 256 * unat b"
    using byte_less [of b] by (simp add: push_bit_eq_mult unat_word_ariths unat_ucast_small)
  moreover have "unat (ucast a :: u32) = unat a" using byte_less [of a] by (simp add: unat_ucast_small)
  ultimately show ?thesis using byte_less [of a] byte_less [of b] by (simp add: unat_plus_no_wrap)
qed

lemma sum_words_total:
  "unat acc + word_total bs < 2 ^ 32 \<Longrightarrow> unat (sum_words bs acc) = unat acc + word_total bs"
proof (induction bs acc rule: sum_words.induct)
  case (1 a b bs acc)
  then have "unat (acc + (ucast a OR push_bit 8 (ucast b))) = unat acc + (unat a + 256 * unat b)"
    unfolding word_of_bytes [symmetric] by (intro unat_plus_no_wrap) (simp add: word_of_bytes)
  with 1 show ?case by simp
next
  case (2 a acc)
  then show ?case using byte_less [of a] by (simp add: unat_plus_no_wrap unat_ucast_small)
qed simp

lemma word_total_bound: "word_total bs \<le> 65535 * length bs"
proof (induction bs rule: word_total.induct)
  case (1 a b bs)
  then show ?case using byte_less [of a] byte_less [of b] by simp
next
  case (2 a)
  then show ?case using byte_less [of a] by simp
qed simp

lemma reduce_step: "reduce16 (n mod 65536 + n div 65536) = reduce16 n"
proof -
  have n: "n = (n mod 65536 + n div 65536) + 65535 * (n div 65536)" by simp
  then have "n mod 65535 = (n mod 65536 + n div 65536) mod 65535" by (metis mod_mult_self2)
  moreover have "n mod 65536 + n div 65536 = 0 \<longleftrightarrow> n = 0" by (metis n add_is_0 mult_0_right)
  ultimately show ?thesis by (simp add: reduce16_def)
qed

lemma fold_carry_reduce: "unat (fold_carry x) = reduce16 (unat x)"
proof (induction x rule: fold_carry.induct)
  case (1 x)
  show ?case
  proof (cases "drop_bit 16 x = 0")
    case True
    then have "unat x div 65536 = 0" by (metis unat_drop_16 unat_0)
    then have "unat x < 65536" by simp
    then have "unat x < 65535 \<or> unat x = 65535" by linarith
    then have "reduce16 (unat x) = unat x" by (auto simp: reduce16_def)
    then show ?thesis using True by (subst fold_carry.simps) simp
  next
    case False
    then show ?thesis using 1 by (subst fold_carry.simps) (simp add: fold_step reduce_step)
  qed
qed

lemma reduce_le: "reduce16 n \<le> 65535" "reduce16 n \<le> n"
proof -
  have "n mod 65535 < 65535" by simp
  then show "reduce16 n \<le> 65535" unfolding reduce16_def by (simp add: order_less_imp_le)
  show "reduce16 n \<le> n"
  proof (cases "n < 65535")
    case True then show ?thesis by (simp add: reduce16_def)
  next
    case False
    have "n mod 65535 < 65535" by simp
    with False show ?thesis unfolding reduce16_def by auto
  qed
qed

lemma unat_complement: "unat (NOT (x :: u16)) = 65535 - unat x"
proof -
  have "NOT x = - 1 - x" by (simp add: not_eq_complement)
  moreover have "unat (- 1 - x) = unat (- 1 :: u16) - unat x" by (rule unat_minus_no_wrap) simp
  moreover have "unat (- 1 :: u16) = 65535" by (simp add: unsigned_minus_1_eq_mask mask_eq_exp_minus_1)
  ultimately show ?thesis by simp
qed

lemma net_checksum_unat:
  assumes "length bs < 65536"
  shows "unat (net_checksum bs) = 65535 - reduce16 (word_total bs)"
proof -
  have "65535 * length bs < 2 ^ 32" using assms by simp
  then have "word_total bs < 2 ^ 32" using word_total_bound [of bs] by linarith
  then have f: "unat (fold_carry (sum_words bs 0)) = reduce16 (word_total bs)"
    using sum_words_total [of 0 bs] by (simp add: fold_carry_reduce)
  then have "unat (ucast (fold_carry (sum_words bs 0)) :: u16) = reduce16 (word_total bs)"
    using reduce_le(1) [of "word_total bs"] by (subst unat_ucast_small) simp_all
  then show ?thesis unfolding net_checksum_def by (simp add: unat_complement)
qed

lemma word_total_append: "even (length xs) \<Longrightarrow> word_total (xs @ ys) = word_total xs + word_total ys"
  by (induction xs rule: word_total.induct) auto

lemma word_total_le16: "word_total (le16 c @ ys) = unat c + word_total ys"
proof -
  have "unat (ucast c :: u8) = unat c mod 256" by (simp add: unsigned_ucast_eq take_bit_eq_mod)
  moreover have "unat c div 256 < 256" using unsigned_less [of c, where 'a = nat] by simp
  then have "unat (ucast (drop_bit 8 c) :: u8) = unat c div 256"
    by (simp add: unsigned_ucast_eq take_bit_eq_mod unat_drop_bit_eq drop_bit_eq_div)
  ultimately show ?thesis by (simp add: le16_def)
qed

text \<open>A field set to the checksum of the rest makes the whole verify.\<close>

lemma checksum_verifies:
  assumes "even (length pre)" "length pre + length post < 65533"
  shows "net_checksum (pre @ le16 (net_checksum (pre @ le16 0 @ post)) @ post) = 0"
proof -
  let ?zero = "pre @ le16 0 @ post" and ?n = "word_total (pre @ le16 0 @ post)"
  have len: "length ?zero < 65536" "\<And>c. length (pre @ le16 c @ post) < 65536" using assms(2) by (simp_all add: le16_def)
  have n: "?n = word_total pre + word_total post" using assms(1) by (simp add: word_total_append word_total_le16)
  have c: "unat (net_checksum ?zero) = 65535 - reduce16 ?n" by (rule net_checksum_unat [OF len(1)])
  have "word_total (pre @ le16 (net_checksum ?zero) @ post) = ?n + (65535 - reduce16 ?n)"
    using assms(1) by (simp add: word_total_append word_total_le16 c n)
  also have "reduce16 \<dots> = 65535"
  proof -
    have le: "reduce16 ?n \<le> 65535" "reduce16 ?n \<le> ?n" by (rule reduce_le)+
    have "(?n - reduce16 ?n) mod 65535 = 0"
    proof (cases "?n = 0 \<or> ?n mod 65535 = 0")
      case True
      then show ?thesis using le(2) mod_eq_dvd_iff_nat [of 65535 ?n 65535] by (auto simp: reduce16_def)
    next
      case False
      then show ?thesis by (simp add: reduce16_def minus_mod_eq_mult_div)
    qed
    then have "(?n - reduce16 ?n + 65535) mod 65535 = 0" by simp
    moreover have "?n + (65535 - reduce16 ?n) = ?n - reduce16 ?n + 65535" using le by simp
    ultimately show ?thesis by (simp add: reduce16_def)
  qed
  finally have "unat (net_checksum (pre @ le16 (net_checksum ?zero) @ post)) = 0"
    using net_checksum_unat [OF len(2)] by simp
  then show ?thesis by (simp add: unat_eq_zero)
qed

section \<open>Frames that are sent\<close>

definition addresses_ok :: "('u, 't, 'z) net_state_scheme \<Rightarrow> bool" where
  "addresses_ok s \<longleftrightarrow> length (my_mac s) = 6 \<and> length (my_ip s) = 4"

lemma length_fields [simp]:
  "length (le16 x) = 2" "length (le32 y) = 4" "length (tcp_header a b c d e f) = 20"
  "length (tcp_pseudo i j n) = length i + length j + 4" "length (ipv4_header n p k i j) = 12 + length i + length j"
  by (simp_all add: le16_def le32_def tcp_header_def tcp_pseudo_def ipv4_header_def)

lemma take_more: "length xs \<le> n \<Longrightarrow> take n xs = xs"
  by simp

lemma send_eth_frame:
  assumes "length dest = 6" "addresses_ok s" "length data = unat len" "14 + unat len < 65536"
  shows "net_send_eth dest type data len s = s\<lparr>sent := sent s @ [dest @ my_mac s @ le16 (swap16 type) @ data],
    tx_packet_count := tx_packet_count s + 1\<rparr>"
proof -
  have "unat (14 + len) = 14 + unat len" using assms(4) by (simp add: unat_plus_no_wrap)
  then show ?thesis using assms(1-3) by (simp add: net_send_eth_def addresses_ok_def Let_def)
qed

lemma ipv4_header_verifies:
  assumes "length src = 4" "length dst = 4"
  shows "net_checksum (ipv4_header n p (net_checksum (ipv4_header n p 0 src dst)) src dst) = 0"
proof -
  let ?pre = "[0x45, 0] @ le16 (swap16 n) @ le16 (swap16 0) @ le16 (swap16 0) @ [64, p]"
  have h: "ipv4_header n p c src dst = ?pre @ le16 c @ src @ dst" for c by (simp add: ipv4_header_def)
  show ?thesis unfolding h by (rule checksum_verifies) (simp_all add: assms)
qed

lemma send_ipv4_frame:
  assumes "length dest_ip = 4" "length mac = 6" "addresses_ok s" "length data = unat len" "34 + unat len < 65536"
  shows "\<exists>c. net_send_ipv4 dest_ip mac proto data len s =
    s\<lparr>sent := sent s @ [mac @ my_mac s @ le16 (swap16 ETHERTYPE_IPV4) @ ipv4_header (20 + len) proto c (my_ip s) dest_ip @ data],
      tx_packet_count := tx_packet_count s + 1\<rparr> \<and> net_checksum (ipv4_header (20 + len) proto c (my_ip s) dest_ip) = 0"
proof -
  let ?c = "net_checksum (ipv4_header (20 + len) proto 0 (my_ip s) dest_ip)"
  have u: "unat (20 + len) = 20 + unat len" using assms(5) by (simp add: unat_plus_no_wrap)
  have "net_send_eth mac ETHERTYPE_IPV4 (ipv4_header (20 + len) proto ?c (my_ip s) dest_ip @ data) (20 + len) s =
      s\<lparr>sent := sent s @ [mac @ my_mac s @ le16 (swap16 ETHERTYPE_IPV4) @ ipv4_header (20 + len) proto ?c (my_ip s) dest_ip @ data],
        tx_packet_count := tx_packet_count s + 1\<rparr>"
    using assms u by (intro send_eth_frame) (simp_all add: addresses_ok_def)
  moreover have "net_checksum (ipv4_header (20 + len) proto ?c (my_ip s) dest_ip) = 0"
    using assms by (intro ipv4_header_verifies) (simp_all add: addresses_ok_def)
  ultimately show ?thesis using assms(4) u
    by (intro exI [of _ ?c]) (simp add: net_send_ipv4_def Let_def)
qed

lemma tcp_segment_verifies:
  assumes "length src = 4" "length dst = 4" "length data \<le> 60000"
    and c: "c = net_checksum (tcp_pseudo src dst n @ tcp_header sp dp seq ack flags 0 @ data)"
  shows "net_checksum (tcp_pseudo src dst n @ tcp_header sp dp seq ack flags c @ data) = 0"
proof -
  let ?pre = "tcp_pseudo src dst n @ le16 (swap16 sp) @ le16 (swap16 dp) @ le32 (swap32 seq) @ le32 (swap32 ack) @
      [0x50, flags] @ le16 (swap16 8192)"
  have h: "tcp_pseudo src dst n @ tcp_header sp dp seq ack flags x @ data = ?pre @ le16 x @ [0, 0] @ data" for x
    by (simp add: tcp_header_def)
  show ?thesis unfolding c h by (rule checksum_verifies) (use assms in simp_all)
qed

section \<open>The address cache\<close>

definition arp_find :: "u8 list \<Rightarrow> arp_entry_t list \<Rightarrow> u8 list option" where
  "arp_find ip es = map_option arp_mac (find (\<lambda>e. arp_valid e \<and> arp_ip e = ip) es)"

text \<open>The valid entries come first and have different addresses.\<close>

fun arp_ok :: "arp_entry_t list \<Rightarrow> bool" where
  "arp_ok [] \<longleftrightarrow> True"
| "arp_ok (e # es) \<longleftrightarrow> (if arp_valid e then (\<forall>x\<in>set es. arp_valid x \<longrightarrow> arp_ip x \<noteq> arp_ip e) \<and> arp_ok es
     else \<forall>x\<in>set es. \<not> arp_valid x)"

lemma arp_find_none: "\<forall>x\<in>set es. arp_valid x \<longrightarrow> arp_ip x \<noteq> ip \<Longrightarrow> arp_find ip es = None"
  by (auto simp: arp_find_def find_None_iff)

lemma arp_ok_free: "\<forall>x\<in>set es. \<not> arp_valid x \<Longrightarrow> arp_ok es"
  by (induction es) auto

lemma arp_lookup_find: "arp_lookup ip s = arp_find ip (arp_cache s)"
  by (simp add: arp_lookup_def arp_find_def)

lemma arp_insert_valid: "x \<in> set (arp_insert ip mac es) \<Longrightarrow> arp_valid x \<Longrightarrow> arp_ip x = ip \<or> x \<in> set es"
  by (induction es) (auto split: if_splits)

lemma arp_insert_ok:
  "arp_ok es \<Longrightarrow> arp_ok (arp_insert ip mac es) \<and> length (arp_insert ip mac es) = length es \<and>
   (\<forall>ip'. arp_find ip' (arp_insert ip mac es) =
      (if ip' = ip \<and> (arp_find ip es \<noteq> None \<or> (\<exists>e\<in>set es. \<not> arp_valid e)) then Some mac else arp_find ip' es))"
proof (induction es)
  case (Cons e es)
  show ?case
  proof (cases "\<not> arp_valid e \<or> arp_ip e = ip")
    case True
    then show ?thesis using Cons.prems
      by (cases "arp_valid e") (auto simp: arp_find_def find_None_iff arp_ok_free)
  next
    case False
    have "\<forall>x\<in>set (arp_insert ip mac es). arp_valid x \<longrightarrow> arp_ip x \<noteq> arp_ip e"
    proof (intro ballI impI)
      fix x assume "x \<in> set (arp_insert ip mac es)" "arp_valid x"
      then have "arp_ip x = ip \<or> x \<in> set es" by (rule arp_insert_valid)
      then show "arp_ip x \<noteq> arp_ip e" using False Cons.prems \<open>arp_valid x\<close> by auto
    qed
    with False Cons show ?thesis by (auto simp: arp_find_def)
  qed
qed (simp add: arp_find_def)

section \<open>Properties\<close>

text \<open>Learning addresses: a well-formed ARP packet of 28 bytes makes the cache answer with its sender when the sender was known
  or a slot is free, changes no other answer, keeps the cache well formed, and is answered by exactly one reply frame to
  the sender when it asks for the own address.\<close>

theorem arp_correct:
  assumes "arp_ok (arp_cache s)" "addresses_ok s" "28 \<le> len"
    and "swap16 (load16 m p) = ARP_HTYPE_ETHERNET" "swap16 (load16 m (p + 2)) = ARP_PTYPE_IPV4"
    and "ip = bytes m (p + 14) 4" "mac = bytes m (p + 8) 6"
  shows "arp_ok (arp_cache (net_handle_arp m p len s)) \<and>
    (\<forall>ip'. arp_lookup ip' (net_handle_arp m p len s) =
       (if ip' = ip \<and> (arp_lookup ip s \<noteq> None \<or> (\<exists>e\<in>set (arp_cache s). \<not> arp_valid e)) then Some mac else arp_lookup ip' s)) \<and>
    sent (net_handle_arp m p len s) = sent s @
      (if swap16 (load16 m (p + 6)) = ARP_OP_REQUEST \<and> bytes m (p + 24) 4 = my_ip s
       then [mac @ my_mac s @ le16 (swap16 ETHERTYPE_ARP) @ arp_packet ARP_OP_REPLY mac ip s] else [])"
proof -
  define s1 where "s1 = s\<lparr>arp_cache := arp_insert ip mac (arp_cache s)\<rparr>"
  have run: "net_handle_arp m p len s =
      (if swap16 (load16 m (p + 6)) = ARP_OP_REQUEST \<and> bytes m (p + 24) 4 = my_ip s
       then net_send_eth mac ETHERTYPE_ARP (arp_packet ARP_OP_REPLY mac ip s1) 28 s1 else s1)"
    using assms(3-7) by (simp add: net_handle_arp_def s1_def Let_def not_less [symmetric])
  have ap: "arp_packet ARP_OP_REPLY mac ip s1 = arp_packet ARP_OP_REPLY mac ip s" by (simp add: arp_packet_def s1_def)
  have s1: "arp_cache s1 = arp_insert ip mac (arp_cache s)" "sent s1 = sent s" by (simp_all add: s1_def)
  have send: "net_send_eth mac ETHERTYPE_ARP (arp_packet ARP_OP_REPLY mac ip s) 28 s1 =
      s1\<lparr>sent := sent s @ [mac @ my_mac s @ le16 (swap16 ETHERTYPE_ARP) @ arp_packet ARP_OP_REPLY mac ip s],
        tx_packet_count := tx_packet_count s1 + 1\<rparr>"
    using send_eth_frame [of mac s1 "arp_packet ARP_OP_REPLY mac ip s" 28 ETHERTYPE_ARP] assms(2,6,7)
    by (simp add: addresses_ok_def s1_def arp_packet_def bytes_def)
  show ?thesis unfolding run ap send arp_lookup_find
    using arp_insert_ok [OF assms(1), of ip mac] by (simp add: s1)
qed

text \<open>A state with an empty cache, and an ARP request for its address from 10.0.2.2.\<close>

definition net0 :: "(unit, unit) net_state" where
  "net0 = net_init [1, 2, 3, 4, 5, 6] () () \<lparr>rx_packet_count = 0, tx_packet_count = 0, my_ip = [10, 0, 2, 15], my_mac = [],
     arp_cache = [], udp_bindings = [], tcp_bindings = [], sent = [], overrun = False\<rparr>"

definition put_list :: "u64 \<Rightarrow> u8 list \<Rightarrow> memory" where
  "put_list a bs = (\<lambda>x. if unat (x - a) < length bs then bs ! unat (x - a) else 0)"

definition arp_request :: memory where
  "arp_request = put_list 0x1000 [0, 1, 8, 0, 6, 4, 0, 1, 0xA, 0xB, 0xC, 0xD, 0xE, 0xF, 10, 0, 2, 2, 0, 0, 0, 0, 0, 0, 10, 0, 2, 15]"

theorem arp_correct_witness:
  "arp_lookup [10, 0, 2, 2] (net_handle_arp arp_request 0x1000 28 net0) = Some [0xA, 0xB, 0xC, 0xD, 0xE, 0xF] \<and>
   length (sent (net_handle_arp arp_request 0x1000 28 net0)) = 1"
proof -
  have f: "swap16 (load16 arp_request 0x1000) = ARP_HTYPE_ETHERNET" "swap16 (load16 arp_request (0x1000 + 2)) = ARP_PTYPE_IPV4"
    "swap16 (load16 arp_request (0x1000 + 6)) = ARP_OP_REQUEST"
    by (simp_all add: load16_def arp_request_def put_list_def swap16_def ARP_HTYPE_ETHERNET_def ARP_PTYPE_IPV4_def ARP_OP_REQUEST_def)
  have b: "[10, 0, 2, 2] = bytes arp_request (0x1000 + 14) 4" "[0xA, 0xB, 0xC, 0xD, 0xE, 0xF] = bytes arp_request (0x1000 + 8) 6"
    "bytes arp_request (0x1000 + 24) 4 = my_ip net0"
    by (simp_all add: bytes_def arp_request_def put_list_def net0_def net_init_def upt_rec)
  have ok: "arp_ok (arp_cache net0)" "addresses_ok net0" "sent net0 = []" "\<exists>e\<in>set (arp_cache net0). \<not> arp_valid e"
    by (simp_all add: net0_def net_init_def ARP_CACHE_SIZE_def addresses_ok_def numeral_eq_Suc)
  from arp_correct [OF ok(1,2) _ f(1,2) b(1,2), of 28] f(3) b(3) ok(3,4) show ?thesis by simp
qed

text \<open>The frame that carries a UDP datagram; its checksum field is zero, which IPv4 allows.\<close>

definition udp_frame :: "('u, 't, 'z) net_state_scheme \<Rightarrow> u8 list \<Rightarrow> u8 list \<Rightarrow> u16 \<Rightarrow> u16 \<Rightarrow> u8 list \<Rightarrow> u8 list \<Rightarrow> bool" where
  "udp_frame s mac ip sp dp data f \<longleftrightarrow> (\<exists>header.
     f = mac @ my_mac s @ le16 (swap16 ETHERTYPE_IPV4) @ header @
         le16 (swap16 sp) @ le16 (swap16 dp) @ le16 (swap16 (8 + of_nat (length data))) @ le16 0 @ data \<and>
     length header = 20 \<and> take 4 (drop 16 header) = ip \<and> take 2 (drop 2 header) = le16 (swap16 (28 + of_nat (length data))) \<and>
     net_checksum header = 0)"

lemma send_udp_frame:
  assumes "addresses_ok s" "unat len \<le> length data" "unat len \<le> 1472" "length ip = 4"
    and "(if ip = replicate 4 255 then Some broadcast_mac else arp_lookup ip s) = Some mac" "length mac = 6"
  shows "\<exists>f. net_send_udp ip sp dp data len s = s\<lparr>sent := sent s @ [f], tx_packet_count := tx_packet_count s + 1\<rparr> \<and>
    udp_frame s mac ip sp dp (take (unat len) data) f"
proof -
  have u: "unat (8 + len) = 8 + unat len" using assms(3) by (simp add: unat_plus_no_wrap)
  have l: "of_nat (length (take (unat len) data)) = len" using assms(2) by (simp add: min_absorb2)
  let ?p = "le16 (swap16 sp) @ le16 (swap16 dp) @ le16 (swap16 (8 + len)) @ le16 0 @ take (unat len) data"
  have p: "length ?p = unat (8 + len)" using assms(2) u by simp
  obtain h where h: "net_send_ipv4 ip mac IPV4_PROTO_UDP ?p (8 + len) s =
      s\<lparr>sent := sent s @ [mac @ my_mac s @ le16 (swap16 ETHERTYPE_IPV4) @
          ipv4_header (20 + (8 + len)) IPV4_PROTO_UDP h (my_ip s) ip @ ?p], tx_packet_count := tx_packet_count s + 1\<rparr>"
      "net_checksum (ipv4_header (20 + (8 + len)) IPV4_PROTO_UDP h (my_ip s) ip) = 0"
    using send_ipv4_frame [OF assms(4,6,1) p, of IPV4_PROTO_UDP] u assms(3) by auto
  let ?header = "ipv4_header (20 + (8 + len)) IPV4_PROTO_UDP h (my_ip s) ip"
  let ?f = "mac @ my_mac s @ le16 (swap16 ETHERTYPE_IPV4) @ ?header @ ?p"
  have "length (my_ip s) = 4" using assms(1) by (simp add: addresses_ok_def)
  then have "length ?header = 20 \<and> take 4 (drop 16 ?header) = ip \<and> take 2 (drop 2 ?header) = le16 (swap16 (28 + len))"
    using assms(4) by (simp add: ipv4_header_def le16_def)
  then have "udp_frame s mac ip sp dp (take (unat len) data) ?f"
    using h(2) unfolding udp_frame_def l by (intro exI [of _ ?header]) simp
  moreover have "take (unat (8 + len)) ?p = ?p" using p by (metis order_refl take_all)
  then have "net_send_udp ip sp dp data len s = net_send_ipv4 ip mac IPV4_PROTO_UDP ?p (8 + len) s"
    using assms(5) u by (simp add: net_send_udp_def Let_def)
  ultimately show ?thesis using h(1) by (intro exI [of _ ?f]) simp
qed

text \<open>The frame that carries a TCP segment: a valid IPv4 header and a segment whose checksum verifies.\<close>

definition tcp_frame ::
  "('u, 't, 'z) net_state_scheme \<Rightarrow> u8 list \<Rightarrow> u8 list \<Rightarrow> u16 \<Rightarrow> u16 \<Rightarrow> u32 \<Rightarrow> u32 \<Rightarrow> u8 \<Rightarrow> u8 list \<Rightarrow> u8 list \<Rightarrow> bool" where
  "tcp_frame s mac ip sp dp seq ack flags data f \<longleftrightarrow> (\<exists>header c.
     f = mac @ my_mac s @ le16 (swap16 ETHERTYPE_IPV4) @ header @ tcp_header sp dp seq ack flags c @ data \<and>
     length header = 20 \<and> take 4 (drop 16 header) = ip \<and> take 2 (drop 2 header) = le16 (swap16 (40 + of_nat (length data))) \<and>
     net_checksum header = 0 \<and>
     net_checksum (tcp_pseudo (my_ip s) ip (20 + of_nat (length data)) @ tcp_header sp dp seq ack flags c @ data) = 0)"

lemma send_tcp_frame:
  assumes "addresses_ok s" "length ip = 4" "length data = unat len" "unat len \<le> 1460"
    and "arp_lookup ip s = Some mac" "length mac = 6"
  shows "\<exists>f. net_send_tcp polls ip sp dp seq ack flags data len s =
      Some (s\<lparr>sent := sent s @ [f], tx_packet_count := tx_packet_count s + 1\<rparr>) \<and> tcp_frame s mac ip sp dp seq ack flags data f"
proof -
  have u: "unat (20 + len) = 20 + unat len" using assms(4) by (simp add: unat_plus_no_wrap)
  have l: "of_nat (length data) = len" using assms(3) by simp
  let ?c = "net_checksum (tcp_pseudo (my_ip s) ip (20 + len) @ tcp_header sp dp seq ack flags 0 @ data)"
  let ?segment = "tcp_header sp dp seq ack flags ?c @ data"
  have verify: "net_checksum (tcp_pseudo (my_ip s) ip (20 + len) @ ?segment) = 0"
    by (rule tcp_segment_verifies) (use assms in \<open>simp_all add: addresses_ok_def\<close>)
  obtain h where h: "net_send_ipv4 ip mac IPV4_PROTO_TCP ?segment (20 + len) s =
      s\<lparr>sent := sent s @ [mac @ my_mac s @ le16 (swap16 ETHERTYPE_IPV4) @
          ipv4_header (20 + (20 + len)) IPV4_PROTO_TCP h (my_ip s) ip @ ?segment], tx_packet_count := tx_packet_count s + 1\<rparr>"
      "net_checksum (ipv4_header (20 + (20 + len)) IPV4_PROTO_TCP h (my_ip s) ip) = 0"
    using send_ipv4_frame [of ip mac s ?segment "20 + len" IPV4_PROTO_TCP] assms u by auto
  let ?header = "ipv4_header (20 + (20 + len)) IPV4_PROTO_TCP h (my_ip s) ip"
  let ?f = "mac @ my_mac s @ le16 (swap16 ETHERTYPE_IPV4) @ ?header @ ?segment"
  have "length (my_ip s) = 4" using assms(1) by (simp add: addresses_ok_def)
  then have "length ?header = 20 \<and> take 4 (drop 16 ?header) = ip \<and> take 2 (drop 2 ?header) = le16 (swap16 (40 + len))"
    using assms(2) by (simp add: ipv4_header_def le16_def)
  then have frame: "tcp_frame s mac ip sp dp seq ack flags data ?f"
    using h(2) verify unfolding tcp_frame_def l by (intro exI [of _ ?header] exI [of _ ?c]) simp
  have "net_send_tcp polls ip sp dp seq ack flags data len s =
      Some (net_send_ipv4 ip mac IPV4_PROTO_TCP ?segment (20 + len) s)"
    using assms(3,5) u by (simp add: net_send_tcp_def resolve_def Let_def)
  with h(1) frame show ?thesis by (intro exI [of _ ?f]) simp
qed

text \<open>C24. Sending a TCP segment to a known address hands exactly one frame to the card: the segment behind an IPv4 header behind
  an Ethernet header, in which both checksums verify, and nothing is written past a buffer.\<close>

theorem net_send_tcp_correct:
  assumes "addresses_ok s" "length ip = 4" "length data = unat len" "unat len \<le> 1460"
    and "arp_lookup ip s = Some mac" "length mac = 6"
  shows "\<exists>header c. net_send_tcp polls ip sp dp seq ack flags data len s =
      Some (s\<lparr>sent := sent s @ [mac @ my_mac s @ le16 (swap16 ETHERTYPE_IPV4) @ header @ tcp_header sp dp seq ack flags c @ data],
        tx_packet_count := tx_packet_count s + 1\<rparr>) \<and>
    length header = 20 \<and> take 4 (drop 16 header) = ip \<and> take 2 (drop 2 header) = le16 (swap16 (40 + len)) \<and>
    net_checksum header = 0 \<and>
    net_checksum (tcp_pseudo (my_ip s) ip (20 + len) @ tcp_header sp dp seq ack flags c @ data) = 0"
proof -
  have "of_nat (length data) = len" using assms(3) by simp
  with send_tcp_frame [OF assms] show ?thesis unfolding tcp_frame_def by fastforce
qed

theorem net_send_tcp_correct_witness:
  "map_option (length \<circ> sent)
     (net_send_tcp [] [10, 0, 2, 2] 1 2 3 4 0x10 [65] 1 (net_handle_arp arp_request 0x1000 28 net0)) = Some 2"
proof -
  let ?s = "net_handle_arp arp_request 0x1000 28 net0"
  have f: "swap16 (load16 arp_request 0x1000) = ARP_HTYPE_ETHERNET" "swap16 (load16 arp_request (0x1000 + 2)) = ARP_PTYPE_IPV4"
    "swap16 (load16 arp_request (0x1000 + 6)) = ARP_OP_REQUEST"
    by (simp_all add: load16_def arp_request_def put_list_def swap16_def ARP_HTYPE_ETHERNET_def ARP_PTYPE_IPV4_def ARP_OP_REQUEST_def)
  have b: "bytes arp_request (0x1000 + 14) 4 = [10, 0, 2, 2]" "bytes arp_request (0x1000 + 8) 6 = [0xA, 0xB, 0xC, 0xD, 0xE, 0xF]"
    "bytes arp_request (0x1000 + 24) 4 = my_ip net0"
    by (simp_all add: bytes_def arp_request_def put_list_def net0_def net_init_def upt_rec)
  have s: "?s = net_send_eth [0xA, 0xB, 0xC, 0xD, 0xE, 0xF] ETHERTYPE_ARP (arp_packet ARP_OP_REPLY [0xA, 0xB, 0xC, 0xD, 0xE, 0xF]
      [10, 0, 2, 2] (net0\<lparr>arp_cache := arp_insert [10, 0, 2, 2] [0xA, 0xB, 0xC, 0xD, 0xE, 0xF] (arp_cache net0)\<rparr>)) 28
      (net0\<lparr>arp_cache := arp_insert [10, 0, 2, 2] [0xA, 0xB, 0xC, 0xD, 0xE, 0xF] (arp_cache net0)\<rparr>)"
    using f b by (simp add: net_handle_arp_def Let_def)
  have s1: "addresses_ok ?s" "arp_lookup [10, 0, 2, 2] ?s = Some [0xA, 0xB, 0xC, 0xD, 0xE, 0xF]" "length (sent ?s) = 1"
    unfolding s by (simp_all add: net_send_eth_def Let_def net0_def net_init_def ARP_CACHE_SIZE_def addresses_ok_def
        arp_lookup_def numeral_eq_Suc)
  have "length [65 :: u8] = unat (1 :: u16)" "unat (1 :: u16) \<le> 1460" by simp_all
  from net_send_tcp_correct [OF s1(1) _ this s1(2), of "[]" 1 2 3 4 "0x10"] s1(3) show ?thesis by auto
qed

text \<open>What an echo reply holds is decided by the length field of the IPv4 header, not by the length of the frame: the reply
  copies as many bytes as the field says, whatever was received, and from 65522 on the buffer of the frame, whose size
  is computed in 16 bits, is overrun.\<close>

theorem echo_length_trusted:
  assumes "addresses_ok s" "34 \<le> len" "swap16 (load16 m (p + 12)) = ETHERTYPE_IPV4" "bytes m (p + 30) 4 = my_ip s"
    and "m (p + 14) = 0x45" "m (p + 23) = IPV4_PROTO_ICMP" "m (p + 34) = ICMP_TYPE_ECHO_REQUEST"
    and "n = swap16 (load16 m (p + 16))" "28 \<le> unat n" "\<not> overrun s"
  shows "(overrun (snd (net_handle_packet m p len s)) \<longleftrightarrow> 65522 \<le> unat n) \<and>
    (unat n < 65522 \<longrightarrow> length (last (sent (snd (net_handle_packet m p len s)))) = 14 + unat n)"
proof -
  let ?k = "n - 20"
  let ?s1 = "s\<lparr>rx_packet_count := rx_packet_count s + 1\<rparr>"
  let ?data = "p + 14 + 20"
  have k: "unat ?k = unat n - 20" using assms(9) by (simp add: unat_minus_no_wrap word_le_nat_alt)
  have addr: "p + 14 + 16 = p + 30" "p + 14 + 2 = p + 16" "p + 14 + 9 = p + 23" "p + 14 + 20 = p + 34" by (simp_all add: algebra_simps)
  have hl: "ucast ((0x45 :: u8) AND 0x0F) * 4 = (20 :: u64)" "ucast ((0x45 AND 0x0F) * 4 :: u8) = (20 :: u64)"
    "ucast ((0x45 AND 0x0F) * 4 :: u8) = (20 :: u16)" by simp_all
  define reply where "reply = (bytes m ?data (unat ?k)) [0 := ICMP_TYPE_ECHO_REPLY, 2 := 0, 3 := 0]"
  define reply' where "reply' = reply[2 := ucast (net_checksum reply), 3 := ucast (drop_bit 8 (net_checksum reply))]"
  have len: "length reply' = unat ?k" by (simp add: reply'_def reply_def bytes_def)
  have "unat (len - 14) = unat len - 14" using assms(2) by (simp add: unat_minus_no_wrap word_le_nat_alt)
  then have guards: "\<not> len < 14" "\<not> len - 14 < 20" "\<not> ?k < 8"
    using assms(2,9) k by (simp_all add: word_less_nat_alt word_le_nat_alt)
  have icmp: "net_handle_icmp m (bytes m (p + 6) 6) (p + 14) ?data ?k ?s1 =
      net_send_ipv4 (bytes m (p + 14 + 12) 4) (bytes m (p + 6) 6) IPV4_PROTO_ICMP reply' ?k ?s1"
    using guards(3) assms(7) unfolding net_handle_icmp_def Let_def reply_def reply'_def addr by simp
  have ipv4: "net_handle_ipv4 m (bytes m (p + 6) 6) (p + 14) (len - 14) ?s1 =
      (None, net_handle_icmp m (bytes m (p + 6) 6) (p + 14) ?data ?k ?s1)"
    using guards(2) assms(4-6,8) hl unfolding net_handle_ipv4_def Let_def addr by (simp add: add.commute [of 34 p])
  have run: "snd (net_handle_packet m p len s) =
      net_send_ipv4 (bytes m (p + 14 + 12) 4) (bytes m (p + 6) 6) IPV4_PROTO_ICMP reply' ?k ?s1"
    using guards(1) assms(3) ipv4 icmp
    by (simp add: net_handle_packet_def Let_def ETHERTYPE_IPV4_def ETHERTYPE_ARP_def)
  have n16: "unat n < 65536" using unsigned_less [of n, where 'a = nat] by simp
  have t: "20 + ?k = n" by simp
  have over: "unat (14 + n) = (if 65522 \<le> unat n then unat n - 65522 else 14 + unat n)"
    using n16 by (auto simp: unat_word_ariths mod_if)
  show ?thesis
    unfolding run net_send_ipv4_def net_send_eth_def Let_def t over using assms(1,9,10) k len n16
    by (auto simp: addresses_ok_def bytes_def)
qed

text \<open>An echo request of 42 bytes whose IPv4 length field says 65528.\<close>

definition long_echo :: memory where
  "long_echo = put_list 0x1000 ([1, 2, 3, 4, 5, 6, 0xA, 0xB, 0xC, 0xD, 0xE, 0xF, 8, 0] @
     [0x45, 0, 0xFF, 0xF8, 0, 0, 0, 0, 64, 1, 0, 0, 10, 0, 2, 2, 10, 0, 2, 15] @ [8, 0, 0, 0, 0x12, 0x34, 0, 1])"

theorem echo_length_trusted_witness: "overrun (snd (net_handle_packet long_echo 0x1000 42 net0))"
proof -
  have f: "swap16 (load16 long_echo (0x1000 + 12)) = ETHERTYPE_IPV4" "bytes long_echo (0x1000 + 30) 4 = my_ip net0"
    "long_echo (0x1000 + 14) = 0x45" "long_echo (0x1000 + 23) = IPV4_PROTO_ICMP" "long_echo (0x1000 + 34) = ICMP_TYPE_ECHO_REQUEST"
    "(65528 :: u16) = swap16 (load16 long_echo (0x1000 + 16))"
    by (simp_all add: load16_def bytes_def long_echo_def put_list_def swap16_def ETHERTYPE_IPV4_def net0_def net_init_def
        IPV4_PROTO_ICMP_def ICMP_TYPE_ECHO_REQUEST_def upt_rec)
  have "addresses_ok net0" "\<not> overrun net0" by (simp_all add: net0_def net_init_def addresses_ok_def)
  from echo_length_trusted [OF this(1) _ f _ this(2), of 42] show ?thesis by simp
qed

end
