(* ===== verification/Tcp.thy ===== *)
theory Tcp
  imports Net
begin

text \<open>
  The TCP client (src/kernel/tcp.c): a table of 16 connections on top of \<open>Net\<close>, the active open and the handler of incoming
  segments. Every send can poll the card while it waits for a hardware address and so receive other frames, also for the
  same connection: the state that the code reads after a send is the one the polls left.
\<close>

section \<open>Connections\<close>

datatype tcp_state_t = TCP_STATE_CLOSED | TCP_STATE_LISTEN | TCP_STATE_SYN_SENT | TCP_STATE_SYN_RECEIVED
  | TCP_STATE_ESTABLISHED | TCP_STATE_FIN_WAIT_1 | TCP_STATE_FIN_WAIT_2 | TCP_STATE_CLOSE_WAIT | TCP_STATE_CLOSING
  | TCP_STATE_LAST_ACK | TCP_STATE_TIME_WAIT

record tcp_conn_t =
  remote_ip :: "u8 list"
  local_port :: u16
  remote_port :: u16
  conn_state :: tcp_state_t
  conn_seq :: u32
  conn_ack :: u32
  remote_seq :: u32
  remote_ack :: u32

text \<open>The handlers that are bound to TCP ports: \<open>tcp_handle_packet\<close> is the only one.\<close>

datatype tcp_fn = NullTcp | TcpHandlePacket

record 'u tcp_vars = "('u, tcp_fn) net_state" +
  connections :: "tcp_conn_t list"
  next_local_port :: u16

definition MAX_CONNECTIONS :: nat where "MAX_CONNECTIONS = 16"

definition TCP_FLAG_FIN :: u8 where "TCP_FLAG_FIN = 1"
definition TCP_FLAG_SYN :: u8 where "TCP_FLAG_SYN = 2"
definition TCP_FLAG_RST :: u8 where "TCP_FLAG_RST = 4"
definition TCP_FLAG_ACK :: u8 where "TCP_FLAG_ACK = 16"

definition tcp_init :: "('u, 'z) tcp_vars_scheme \<Rightarrow> ('u, 'z) tcp_vars_scheme" where
  "tcp_init s = s\<lparr>connections := replicate MAX_CONNECTIONS \<lparr>remote_ip = replicate 4 0, local_port = 0, remote_port = 0,
     conn_state = TCP_STATE_CLOSED, conn_seq = 0, conn_ack = 0, remote_seq = 0, remote_ack = 0\<rparr>\<rparr>"

text \<open>The first element of a list with a property, by its index.\<close>

fun first_index :: "('a \<Rightarrow> bool) \<Rightarrow> 'a list \<Rightarrow> nat option" where
  "first_index P [] = None"
| "first_index P (x # xs) = (if P x then Some 0 else map_option Suc (first_index P xs))"

definition conn_matches :: "u8 list \<Rightarrow> u16 \<Rightarrow> u16 \<Rightarrow> tcp_conn_t \<Rightarrow> bool" where
  "conn_matches src_ip src_port dst_port c \<longleftrightarrow> conn_state c \<noteq> TCP_STATE_CLOSED \<and> local_port c = dst_port \<and>
     remote_port c = src_port \<and> remote_ip c = src_ip"

definition upd_conn :: "nat \<Rightarrow> (tcp_conn_t \<Rightarrow> tcp_conn_t) \<Rightarrow> ('u, 'z) tcp_vars_scheme \<Rightarrow> ('u, 'z) tcp_vars_scheme" where
  "upd_conn i f s = s\<lparr>connections := (connections s)[i := f (connections s ! i)]\<rparr>"

text \<open>The state of the stack after polls, which may not return.\<close>

type_synonym ('u, 'z) poll = "('u, 'z) tcp_vars_scheme \<Rightarrow> ('u, 'z) tcp_vars_scheme option"

section \<open>The handler of incoming segments\<close>

text \<open>\<open>polls k\<close> are the polls of the \<open>k\<close>-th send of the call.\<close>

definition syn_ack_received :: "('u, 'z) poll list \<Rightarrow> u8 list \<Rightarrow> u16 \<Rightarrow> nat \<Rightarrow> u32 \<Rightarrow> u32 \<Rightarrow> ('u, 'z) poll" where
  "syn_ack_received polls src_ip src_port i seq ack s =
     (let s1 = upd_conn i (\<lambda>c. c\<lparr>conn_state := TCP_STATE_ESTABLISHED, remote_seq := seq + 1, conn_ack := seq + 1,
                 remote_ack := ack\<rparr>) s;
          conn = connections s1 ! i
      in net_send_tcp polls src_ip (local_port conn) src_port (conn_seq conn) (conn_ack conn) TCP_FLAG_ACK [] 0 s1)"

definition fin_received :: "(nat \<Rightarrow> ('u, 'z) poll list) \<Rightarrow> u8 list \<Rightarrow> u16 \<Rightarrow> nat \<Rightarrow> u32 \<Rightarrow> ('u, 'z) poll" where
  "fin_received polls src_ip src_port i seq s =
     (let s1 = upd_conn i (\<lambda>c. c\<lparr>conn_state := TCP_STATE_CLOSE_WAIT, conn_ack := seq + 1\<rparr>) s;
          conn = connections s1 ! i
      in case net_send_tcp (polls 0) src_ip (local_port conn) src_port (conn_seq conn) (conn_ack conn) TCP_FLAG_ACK [] 0 s1 of
           None \<Rightarrow> None
         | Some s2 \<Rightarrow>
             let conn2 = connections s2 ! i
             in case net_send_tcp (polls 1) src_ip (local_port conn2) src_port (conn_seq conn2) (conn_ack conn2)
                       (TCP_FLAG_FIN OR TCP_FLAG_ACK) [] 0 s2 of
                  None \<Rightarrow> None
                | Some s3 \<Rightarrow> Some (upd_conn i (\<lambda>c. c\<lparr>conn_state := TCP_STATE_LAST_ACK, conn_seq := conn_seq c + 1\<rparr>) s3))"

definition tcp_handle_packet ::
  "(nat \<Rightarrow> ('u, 'z) poll list) \<Rightarrow> memory \<Rightarrow> u8 list \<Rightarrow> u16 \<Rightarrow> u16 \<Rightarrow> u64 \<Rightarrow> ('u, 'z) poll" where
  "tcp_handle_packet polls m src_ip src_port dst_port tcp s =
     (let flags = m (tcp + 13); seq = swap32 (load32 m (tcp + 4)); ack = swap32 (load32 m (tcp + 8))
      in case first_index (conn_matches src_ip src_port dst_port) (connections s) of
           None \<Rightarrow>
             if flags AND TCP_FLAG_SYN \<noteq> 0
             then net_send_tcp (polls 0) src_ip dst_port src_port 0 (seq + 1) (TCP_FLAG_RST OR TCP_FLAG_ACK) [] 0 s
             else Some s
         | Some i \<Rightarrow>
             case conn_state (connections s ! i) of
               TCP_STATE_SYN_SENT \<Rightarrow>
                 if flags AND TCP_FLAG_SYN \<noteq> 0 \<and> flags AND TCP_FLAG_ACK \<noteq> 0
                 then syn_ack_received (polls 0) src_ip src_port i seq ack s else Some s
             | TCP_STATE_ESTABLISHED \<Rightarrow>
                 if flags AND TCP_FLAG_FIN \<noteq> 0 then fin_received polls src_ip src_port i seq s else Some s
             | TCP_STATE_LAST_ACK \<Rightarrow>
                 if flags AND TCP_FLAG_ACK \<noteq> 0 then Some (upd_conn i (\<lambda>c. c\<lparr>conn_state := TCP_STATE_CLOSED\<rparr>) s) else Some s
             | _ \<Rightarrow> Some s)"

section \<open>Opening a connection\<close>

definition tcp_connect :: "('u, 'z) poll list \<Rightarrow> u8 list \<Rightarrow> u16 \<Rightarrow> ('u, 'z) poll" where
  "tcp_connect polls ip port s =
     (case first_index (\<lambda>c. conn_state c = TCP_STATE_CLOSED) (connections s) of
        None \<Rightarrow> Some s
      | Some i \<Rightarrow>
          let s1 = upd_conn i (\<lambda>c. c\<lparr>remote_ip := ip, remote_port := port, local_port := next_local_port s,
                     conn_state := TCP_STATE_SYN_SENT, conn_seq := 0x12345678, conn_ack := 0\<rparr>)
                     (s\<lparr>next_local_port := next_local_port s + 1\<rparr>);
              s2 = net_tcp_bind (local_port (connections s1 ! i)) TcpHandlePacket s1;
              conn = connections s2 ! i
          in case net_send_tcp polls ip (local_port conn) port (conn_seq conn) 0 TCP_FLAG_SYN [] 0 s2 of
               None \<Rightarrow> None
             | Some s3 \<Rightarrow> Some (upd_conn i (\<lambda>c. c\<lparr>conn_seq := conn_seq c + 1\<rparr>) s3))"

section \<open>The table of connections\<close>

lemma first_index_SomeD:
  "first_index P xs = Some i \<Longrightarrow> i < length xs \<and> P (xs ! i) \<and> (\<forall>j<i. \<not> P (xs ! j))"
proof (induction xs arbitrary: i)
  case (Cons x xs)
  then show ?case by (auto simp: nth_Cons split: if_splits nat.splits)
qed simp

lemma first_index_None: "first_index P xs = None \<longleftrightarrow> (\<forall>x\<in>set xs. \<not> P x)"
  by (induction xs) auto

lemma first_indexI: "i < length xs \<Longrightarrow> P (xs ! i) \<Longrightarrow> (\<And>j. j < i \<Longrightarrow> \<not> P (xs ! j)) \<Longrightarrow> first_index P xs = Some i"
proof (induction xs arbitrary: i)
  case (Cons x xs)
  show ?case
  proof (cases i)
    case 0
    then show ?thesis using Cons.prems by simp
  next
    case (Suc k)
    have "\<not> P x" using Cons.prems(3) [of 0] Suc by simp
    moreover have "\<not> P (xs ! j)" if "j < k" for j using Cons.prems(3) [of "Suc j"] Suc that by simp
    then have "first_index P xs = Some k" using Cons.prems(1,2) Suc by (intro Cons.IH) simp_all
    ultimately show ?thesis using Suc by simp
  qed
qed simp

lemma upd_conn_net [simp]:
  "my_ip (upd_conn i f s) = my_ip s" "my_mac (upd_conn i f s) = my_mac s" "arp_cache (upd_conn i f s) = arp_cache s"
  "sent (upd_conn i f s) = sent s" "tcp_bindings (upd_conn i f s) = tcp_bindings s" "overrun (upd_conn i f s) = overrun s"
  "arp_lookup ip (upd_conn i f s) = arp_lookup ip s" "addresses_ok (upd_conn i f s) = addresses_ok s"
  "next_local_port (upd_conn i f s) = next_local_port s"
  "connections (upd_conn i f s) = (connections s)[i := f (connections s ! i)]"
  by (simp_all add: upd_conn_def arp_lookup_def addresses_ok_def)

text \<open>The same frame from any state with the same addresses.\<close>

lemma tcp_frame_cong: "my_ip t = my_ip s \<Longrightarrow> my_mac t = my_mac s \<Longrightarrow> tcp_frame t = tcp_frame s"
  by (intro ext) (simp add: tcp_frame_def)

text \<open>The state after a control segment was sent to a known address.\<close>

definition with_frame :: "u8 list \<Rightarrow> ('u, 'z) tcp_vars_scheme \<Rightarrow> ('u, 'z) tcp_vars_scheme" where
  "with_frame f s = s\<lparr>sent := sent s @ [f], tx_packet_count := tx_packet_count s + 1\<rparr>"

lemma with_frame_simps [simp]:
  "connections (with_frame f s) = connections s" "sent (with_frame f s) = sent s @ [f]" "my_ip (with_frame f s) = my_ip s"
  "my_mac (with_frame f s) = my_mac s" "tcp_bindings (with_frame f s) = tcp_bindings s"
  "arp_lookup ip (with_frame f s) = arp_lookup ip s" "addresses_ok (with_frame f s) = addresses_ok s"
  "next_local_port (with_frame f s) = next_local_port s" "overrun (with_frame f s) = overrun s"
  by (simp_all add: with_frame_def arp_lookup_def addresses_ok_def)

text \<open>A peer whose hardware address is known.\<close>

definition knows :: "u8 list \<Rightarrow> u8 list \<Rightarrow> ('u, 'z) tcp_vars_scheme \<Rightarrow> bool" where
  "knows ip mac s \<longleftrightarrow> addresses_ok s \<and> length ip = 4 \<and> arp_lookup ip s = Some mac \<and> length mac = 6"

lemma knows_kept [simp]:
  "knows ip mac (upd_conn i f s) = knows ip mac s" "knows ip mac (with_frame g s) = knows ip mac s"
  by (simp_all add: knows_def)

lemma send_control:
  assumes "knows ip mac s"
  shows "\<exists>f. net_send_tcp polls ip sp dp seq ack flags [] 0 s = Some (with_frame f s) \<and>
    tcp_frame s mac ip sp dp seq ack flags [] f"
  using send_tcp_frame [of s ip "[]" 0 mac polls sp dp seq ack flags] assms by (simp add: knows_def with_frame_def)

text \<open>The part of the state that sending segments leaves alone.\<close>

definition sent_more :: "('u, 'z) tcp_vars_scheme \<Rightarrow> u8 list list \<Rightarrow> ('u, 'z) tcp_vars_scheme \<Rightarrow> bool" where
  "sent_more s fs t \<longleftrightarrow> sent t = sent s @ fs \<and> my_ip t = my_ip s \<and> my_mac t = my_mac s \<and> tcp_bindings t = tcp_bindings s \<and>
     (\<forall>ip mac. knows ip mac t = knows ip mac s)"

lemma sent_more_frame: "sent_more s fs t \<Longrightarrow> tcp_frame t = tcp_frame s"
  by (rule tcp_frame_cong) (simp_all add: sent_more_def)

section \<open>The protocol machine\<close>

text \<open>What a segment with the given flags does to a connection: the client side of the protocol with a passive close.\<close>

inductive tcp_step :: "tcp_state_t \<Rightarrow> u8 \<Rightarrow> tcp_state_t \<Rightarrow> bool" where
  open_done: "flags AND TCP_FLAG_SYN \<noteq> 0 \<Longrightarrow> flags AND TCP_FLAG_ACK \<noteq> 0 \<Longrightarrow>
    tcp_step TCP_STATE_SYN_SENT flags TCP_STATE_ESTABLISHED"
| peer_closes: "flags AND TCP_FLAG_FIN \<noteq> 0 \<Longrightarrow> tcp_step TCP_STATE_ESTABLISHED flags TCP_STATE_LAST_ACK"
| close_done: "flags AND TCP_FLAG_ACK \<noteq> 0 \<Longrightarrow> tcp_step TCP_STATE_LAST_ACK flags TCP_STATE_CLOSED"

inductive_cases tcp_stepE: "tcp_step st flags st'"

lemmas tcp_step_intros = open_done peer_closes close_done

lemma handle_unmatched:
  assumes "knows ip mac s" "first_index (conn_matches ip sp dp) (connections s) = None"
  shows "\<exists>fs. tcp_handle_packet polls m ip sp dp a s = Some (s\<lparr>sent := sent s @ fs, tx_packet_count := tx_packet_count s + of_nat (length fs)\<rparr>) \<and>
    (if m (a + 13) AND TCP_FLAG_SYN \<noteq> 0
     then \<exists>f. fs = [f] \<and> tcp_frame s mac ip dp sp 0 (swap32 (load32 m (a + 4)) + 1) (TCP_FLAG_RST OR TCP_FLAG_ACK) [] f else fs = [])"
proof (cases "m (a + 13) AND TCP_FLAG_SYN = 0")
  case True
  then show ?thesis using assms(2) by (intro exI [of _ "[]"]) (simp add: tcp_handle_packet_def)
next
  case False
  obtain f where "net_send_tcp (polls 0) ip dp sp 0 (swap32 (load32 m (a + 4)) + 1) (TCP_FLAG_RST OR TCP_FLAG_ACK) [] 0 s =
      Some (with_frame f s)" "tcp_frame s mac ip dp sp 0 (swap32 (load32 m (a + 4)) + 1) (TCP_FLAG_RST OR TCP_FLAG_ACK) [] f"
    using send_control [OF assms(1)] by blast
  with False assms(2) show ?thesis
    by (intro exI [of _ "[f]"]) (simp add: tcp_handle_packet_def Let_def with_frame_def)
qed

lemma handle_syn_ack:
  assumes "knows ip mac s" "first_index (conn_matches ip sp dp) (connections s) = Some i"
    and "conn_state (connections s ! i) = TCP_STATE_SYN_SENT"
    and "m (a + 13) AND TCP_FLAG_SYN \<noteq> 0" "m (a + 13) AND TCP_FLAG_ACK \<noteq> 0"
  shows "\<exists>t f. tcp_handle_packet polls m ip sp dp a s = Some t \<and> sent_more s [f] t \<and>
    connections t = (connections s)[i := (connections s ! i)\<lparr>conn_state := TCP_STATE_ESTABLISHED,
       remote_seq := swap32 (load32 m (a + 4)) + 1, conn_ack := swap32 (load32 m (a + 4)) + 1,
       remote_ack := swap32 (load32 m (a + 8))\<rparr>] \<and>
    tcp_frame s mac ip (local_port (connections s ! i)) sp (conn_seq (connections s ! i)) (swap32 (load32 m (a + 4)) + 1)
      TCP_FLAG_ACK [] f"
proof -
  let ?s1 = "upd_conn i (\<lambda>c. c\<lparr>conn_state := TCP_STATE_ESTABLISHED, remote_seq := swap32 (load32 m (a + 4)) + 1,
     conn_ack := swap32 (load32 m (a + 4)) + 1, remote_ack := swap32 (load32 m (a + 8))\<rparr>) s"
  have i: "i < length (connections s)" using first_index_SomeD [OF assms(2)] by simp
  have "knows ip mac ?s1" using assms(1) by simp
  then obtain f where f: "net_send_tcp (polls 0) ip (local_port (connections ?s1 ! i)) sp (conn_seq (connections ?s1 ! i))
      (conn_ack (connections ?s1 ! i)) TCP_FLAG_ACK [] 0 ?s1 = Some (with_frame f ?s1)"
    "tcp_frame ?s1 mac ip (local_port (connections ?s1 ! i)) sp (conn_seq (connections ?s1 ! i))
      (conn_ack (connections ?s1 ! i)) TCP_FLAG_ACK [] f"
    using send_control by blast
  moreover have "tcp_frame ?s1 = tcp_frame s" by (rule tcp_frame_cong) simp_all
  ultimately show ?thesis using assms(2-5) i
    by (intro exI [of _ "with_frame f ?s1"] exI [of _ f])
      (simp add: tcp_handle_packet_def syn_ack_received_def Let_def sent_more_def)
qed

lemma handle_fin:
  assumes "knows ip mac s" "first_index (conn_matches ip sp dp) (connections s) = Some i"
    and "conn_state (connections s ! i) = TCP_STATE_ESTABLISHED" "m (a + 13) AND TCP_FLAG_FIN \<noteq> 0"
  shows "\<exists>t f g. tcp_handle_packet polls m ip sp dp a s = Some t \<and> sent_more s [f, g] t \<and>
    connections t = (connections s)[i := (connections s ! i)\<lparr>conn_ack := swap32 (load32 m (a + 4)) + 1,
       conn_state := TCP_STATE_LAST_ACK, conn_seq := conn_seq (connections s ! i) + 1\<rparr>] \<and>
    tcp_frame s mac ip (local_port (connections s ! i)) sp (conn_seq (connections s ! i)) (swap32 (load32 m (a + 4)) + 1)
      TCP_FLAG_ACK [] f \<and>
    tcp_frame s mac ip (local_port (connections s ! i)) sp (conn_seq (connections s ! i)) (swap32 (load32 m (a + 4)) + 1)
      (TCP_FLAG_FIN OR TCP_FLAG_ACK) [] g"
proof -
  let ?ack = "swap32 (load32 m (a + 4)) + 1"
  let ?s1 = "upd_conn i (\<lambda>c. c\<lparr>conn_state := TCP_STATE_CLOSE_WAIT, conn_ack := ?ack\<rparr>) s"
  let ?lp = "local_port (connections s ! i)" and ?sq = "conn_seq (connections s ! i)"
  have i: "i < length (connections s)" using first_index_SomeD [OF assms(2)] by simp
  have fr: "tcp_frame ?s1 = tcp_frame s" "\<And>f. tcp_frame (with_frame f ?s1) = tcp_frame s" by (rule tcp_frame_cong; simp)+
  have "knows ip mac ?s1" using assms(1) by simp
  then obtain f where f: "net_send_tcp (polls 0) ip ?lp sp ?sq ?ack TCP_FLAG_ACK [] 0 ?s1 = Some (with_frame f ?s1)"
    "tcp_frame s mac ip ?lp sp ?sq ?ack TCP_FLAG_ACK [] f"
    using send_control unfolding fr(1) [symmetric] by blast
  have "knows ip mac (with_frame f ?s1)" using assms(1) by simp
  then obtain g where g: "net_send_tcp (polls 1) ip ?lp sp ?sq ?ack (TCP_FLAG_FIN OR TCP_FLAG_ACK) [] 0 (with_frame f ?s1) =
      Some (with_frame g (with_frame f ?s1))" "tcp_frame s mac ip ?lp sp ?sq ?ack (TCP_FLAG_FIN OR TCP_FLAG_ACK) [] g"
    using send_control unfolding fr(2) [of f, symmetric] by blast
  have "tcp_handle_packet polls m ip sp dp a s = fin_received polls ip sp i (swap32 (load32 m (a + 4))) s"
    using assms(2-4) by (simp add: tcp_handle_packet_def Let_def)
  then show ?thesis using f g i
    by - (rule exI [of _ "upd_conn i (\<lambda>c. c\<lparr>conn_state := TCP_STATE_LAST_ACK, conn_seq := conn_seq c + 1\<rparr>) (with_frame g (with_frame f ?s1))"],
        rule exI [of _ f], rule exI [of _ g], simp add: fin_received_def Let_def sent_more_def)
qed

lemma handle_last_ack:
  assumes "first_index (conn_matches ip sp dp) (connections s) = Some i"
    and "conn_state (connections s ! i) = TCP_STATE_LAST_ACK" "m (a + 13) AND TCP_FLAG_ACK \<noteq> 0"
  shows "\<exists>t. tcp_handle_packet polls m ip sp dp a s = Some t \<and> sent_more s [] t \<and>
    connections t = (connections s)[i := (connections s ! i)\<lparr>conn_state := TCP_STATE_CLOSED\<rparr>]"
  using assms by (simp add: tcp_handle_packet_def Let_def sent_more_def)

lemma handle_idle:
  assumes "first_index (conn_matches ip sp dp) (connections s) = Some i"
    and "\<not> (\<exists>q. tcp_step (conn_state (connections s ! i)) (m (a + 13)) q)"
  shows "tcp_handle_packet polls m ip sp dp a s = Some s"
proof (cases "conn_state (connections s ! i)")
  case TCP_STATE_SYN_SENT
  then show ?thesis using assms tcp_step_intros(1) by (auto simp: tcp_handle_packet_def Let_def)
next
  case TCP_STATE_ESTABLISHED
  then show ?thesis using assms tcp_step_intros(2) by (auto simp: tcp_handle_packet_def Let_def)
next
  case TCP_STATE_LAST_ACK
  then show ?thesis using assms tcp_step_intros(3) by (auto simp: tcp_handle_packet_def Let_def)
qed (use assms in \<open>simp_all add: tcp_handle_packet_def Let_def\<close>)

section \<open>Properties\<close>

lemma handle_step:
  assumes known: "knows ip mac s" and Some: "first_index (conn_matches ip sp dp) (connections s) = Some i"
    and q: "tcp_step (conn_state (connections s ! i)) (m (a + 13)) q"
  shows "\<exists>t. tcp_handle_packet polls m ip sp dp a s = Some t \<and> tcp_bindings t = tcp_bindings s \<and>
    (\<exists>c. connections t = (connections s)[i := c] \<and> conn_state c = q \<and> local_port c = dp \<and> remote_port c = sp \<and> remote_ip c = ip)"
proof -
  have i: "conn_matches ip sp dp (connections s ! i)" using first_index_SomeD [OF Some] by auto
  note match = i [unfolded conn_matches_def]
  have slot: "\<exists>t. tcp_handle_packet polls m ip sp dp a s = Some t \<and> tcp_bindings t = tcp_bindings s \<and>
    (\<exists>c. connections t = (connections s)[i := c] \<and> conn_state c = q \<and> local_port c = dp \<and> remote_port c = sp \<and> remote_ip c = ip)"
    if "tcp_handle_packet polls m ip sp dp a s = Some t" "sent_more s fs t" "connections t = (connections s)[i := c]"
      "conn_state c = q" "local_port c = dp" "remote_port c = sp" "remote_ip c = ip" for t fs c
    using that unfolding sent_more_def by blast
  from q consider (1) "conn_state (connections s ! i) = TCP_STATE_SYN_SENT" "m (a + 13) AND TCP_FLAG_SYN \<noteq> 0"
      "m (a + 13) AND TCP_FLAG_ACK \<noteq> 0" "q = TCP_STATE_ESTABLISHED"
    | (2) "conn_state (connections s ! i) = TCP_STATE_ESTABLISHED" "m (a + 13) AND TCP_FLAG_FIN \<noteq> 0" "q = TCP_STATE_LAST_ACK"
    | (3) "conn_state (connections s ! i) = TCP_STATE_LAST_ACK" "m (a + 13) AND TCP_FLAG_ACK \<noteq> 0" "q = TCP_STATE_CLOSED"
    by (auto elim: tcp_stepE)
  then show ?thesis
  proof cases
    case 1
    from handle_syn_ack [where m = m and a = a and polls = polls, OF known Some 1(1-3)]
    obtain t f where "tcp_handle_packet polls m ip sp dp a s = Some t" "sent_more s [f] t"
      "connections t = (connections s)[i := (connections s ! i)\<lparr>conn_state := TCP_STATE_ESTABLISHED,
         remote_seq := swap32 (load32 m (a + 4)) + 1, conn_ack := swap32 (load32 m (a + 4)) + 1,
         remote_ack := swap32 (load32 m (a + 8))\<rparr>]"
      by blast
    then show ?thesis by (rule slot) (use match 1 in simp_all)
  next
    case 2
    from handle_fin [where m = m and a = a and polls = polls, OF known Some 2(1,2)]
    obtain t f g where "tcp_handle_packet polls m ip sp dp a s = Some t" "sent_more s [f, g] t"
      "connections t = (connections s)[i := (connections s ! i)\<lparr>conn_ack := swap32 (load32 m (a + 4)) + 1,
         conn_state := TCP_STATE_LAST_ACK, conn_seq := conn_seq (connections s ! i) + 1\<rparr>]"
      by blast
    then show ?thesis by (rule slot) (use match 2 in simp_all)
  next
    case 3
    from handle_last_ack [where m = m and a = a and polls = polls, OF Some 3(1,2)]
    obtain t where "tcp_handle_packet polls m ip sp dp a s = Some t" "sent_more s [] t"
      "connections t = (connections s)[i := (connections s ! i)\<lparr>conn_state := TCP_STATE_CLOSED\<rparr>]" by blast
    then show ?thesis by (rule slot) (use match 3 in simp_all)
  qed
qed

text \<open>C25. A segment from a peer with a known hardware address moves the connection it belongs to exactly as the protocol machine
  says, and no other connection; a segment that the machine has no step for changes nothing at all, and a segment without a
  connection changes no connection.\<close>

theorem tcp_handle_refines:
  assumes "knows ip mac s"
  shows "\<exists>t. tcp_handle_packet polls m ip sp dp a s = Some t \<and> length (connections t) = length (connections s) \<and>
    tcp_bindings t = tcp_bindings s \<and>
    (case first_index (conn_matches ip sp dp) (connections s) of
       None \<Rightarrow> connections t = connections s
     | Some i \<Rightarrow> (\<forall>j. j \<noteq> i \<longrightarrow> connections t ! j = connections s ! j) \<and>
         local_port (connections t ! i) = dp \<and> remote_port (connections t ! i) = sp \<and> remote_ip (connections t ! i) = ip \<and>
         (tcp_step (conn_state (connections s ! i)) (m (a + 13)) (conn_state (connections t ! i)) \<or>
          \<not> (\<exists>q. tcp_step (conn_state (connections s ! i)) (m (a + 13)) q) \<and> t = s))"
proof (cases "first_index (conn_matches ip sp dp) (connections s)")
  case None
  then show ?thesis using handle_unmatched [OF assms None, of polls m a] by auto
next
  case (Some i)
  have i: "i < length (connections s)" "conn_matches ip sp dp (connections s ! i)" using first_index_SomeD [OF Some] by auto
  note match = i(2) [unfolded conn_matches_def]
  show ?thesis
  proof (cases "\<exists>q. tcp_step (conn_state (connections s ! i)) (m (a + 13)) q")
    case False
    then show ?thesis using handle_idle [where m = m and a = a and polls = polls, OF Some False] Some match by simp
  next
    case True
    then obtain q where q: "tcp_step (conn_state (connections s ! i)) (m (a + 13)) q" by blast
    from handle_step [where m = m and a = a and polls = polls, OF assms Some q] show ?thesis using Some q i by fastforce
  qed
qed

lemma connect_known:
  assumes "knows ip mac s" "first_index (\<lambda>c. conn_state c = TCP_STATE_CLOSED) (connections s) = Some i"
  defines "lp \<equiv> next_local_port s"
  shows "\<exists>t f. tcp_connect polls ip port s = Some t \<and> connections t = (connections s)[i := (connections s ! i)\<lparr>remote_ip := ip,
       remote_port := port, local_port := lp, conn_state := TCP_STATE_SYN_SENT, conn_ack := 0, conn_seq := 0x12345679\<rparr>] \<and>
    sent t = sent s @ [f] \<and> knows ip mac t \<and> my_ip t = my_ip s \<and> my_mac t = my_mac s \<and>
    tcp_bindings t = bind_first lp TcpHandlePacket (tcp_bindings s) \<and>
    tcp_frame s mac ip lp port 0x12345678 0 TCP_FLAG_SYN [] f"
proof -
  let ?s1 = "upd_conn i (\<lambda>c. c\<lparr>remote_ip := ip, remote_port := port, local_port := lp,
     conn_state := TCP_STATE_SYN_SENT, conn_seq := 0x12345678, conn_ack := 0\<rparr>) (s\<lparr>next_local_port := lp + 1\<rparr>)"
  let ?s2 = "net_tcp_bind lp TcpHandlePacket ?s1"
  have i: "i < length (connections s)" using first_index_SomeD [OF assms(2)] by simp
  have lookup: "arp_lookup ip ?s2 = arp_lookup ip s" by (simp add: arp_lookup_def net_tcp_bind_def)
  then have k: "knows ip mac ?s2" using assms(1) by (simp add: knows_def addresses_ok_def net_tcp_bind_def)
  then obtain f where f: "net_send_tcp polls ip lp port 0x12345678 0 TCP_FLAG_SYN [] 0 ?s2 = Some (with_frame f ?s2)"
    "tcp_frame ?s2 mac ip lp port 0x12345678 0 TCP_FLAG_SYN [] f"
    using send_control by blast
  have fr: "tcp_frame ?s2 = tcp_frame s" by (rule tcp_frame_cong) (simp_all add: net_tcp_bind_def)
  have c: "connections ?s2 = connections ?s1" "connections ?s1 ! i = (connections s ! i)\<lparr>remote_ip := ip, remote_port := port,
     local_port := lp, conn_state := TCP_STATE_SYN_SENT, conn_seq := 0x12345678, conn_ack := 0\<rparr>"
    using i by (simp_all add: net_tcp_bind_def)
  let ?t = "upd_conn i (\<lambda>c. c\<lparr>conn_seq := conn_seq c + 1\<rparr>) (with_frame f ?s2)"
  have run: "tcp_connect polls ip port s = Some ?t" using f(1) assms(2) c by (simp add: tcp_connect_def Let_def lp_def)
  have "connections ?t = (connections s)[i := (connections s ! i)\<lparr>remote_ip := ip, remote_port := port, local_port := lp,
      conn_state := TCP_STATE_SYN_SENT, conn_ack := 0, conn_seq := 0x12345679\<rparr>]"
    using c i by simp
  moreover have "sent ?s2 = sent s" "my_ip ?s2 = my_ip s" "my_mac ?s2 = my_mac s"
    "tcp_bindings ?s2 = bind_first lp TcpHandlePacket (tcp_bindings s)" by (simp_all add: net_tcp_bind_def)
  ultimately show ?thesis using run f(2) k unfolding fr by (intro exI [of _ ?t] exI [of _ f]) simp
qed

text \<open>A slot that is changed so that it matches is the match when no slot matched before.\<close>

lemma changed_match:
  assumes "i < length cs" "\<forall>j<i. \<not> P (cs ! j)" "P c"
  shows "first_index P (cs[i := c]) = Some i"
  using assms by (intro first_indexI) auto

text \<open>C26. A whole session with a known peer: connect, the peer's SYN-ACK, its FIN and its last ACK. The connection runs through its
  four states, exactly four frames with the right sequence and acknowledgement numbers are sent, and the slot is free
  again; the port stays bound.\<close>

theorem tcp_session:
  assumes "knows ip mac s" "first_index (\<lambda>c. conn_state c = TCP_STATE_CLOSED) (connections s) = Some i"
    and "\<forall>c\<in>set (connections s). \<not> conn_matches ip port (next_local_port s) c"
    and "m1 (a1 + 13) AND TCP_FLAG_SYN \<noteq> 0" "m1 (a1 + 13) AND TCP_FLAG_ACK \<noteq> 0" "m2 (a2 + 13) AND TCP_FLAG_FIN \<noteq> 0"
    and "m3 (a3 + 13) AND TCP_FLAG_ACK \<noteq> 0"
    and "n1 = swap32 (load32 m1 (a1 + 4)) + 1" "n2 = swap32 (load32 m2 (a2 + 4)) + 1" "lp = next_local_port s"
  shows "\<exists>s1 s2 s3 s4 f1 f2 f3 f4. tcp_connect p ip port s = Some s1 \<and> tcp_handle_packet p1 m1 ip port lp a1 s1 = Some s2 \<and>
    tcp_handle_packet p2 m2 ip port lp a2 s2 = Some s3 \<and> tcp_handle_packet p3 m3 ip port lp a3 s3 = Some s4 \<and>
    map (\<lambda>t. conn_state (connections t ! i)) [s1, s2, s3, s4] =
      [TCP_STATE_SYN_SENT, TCP_STATE_ESTABLISHED, TCP_STATE_LAST_ACK, TCP_STATE_CLOSED] \<and>
    sent s4 = sent s @ [f1, f2, f3, f4] \<and>
    tcp_frame s mac ip lp port 0x12345678 0 TCP_FLAG_SYN [] f1 \<and> tcp_frame s mac ip lp port 0x12345679 n1 TCP_FLAG_ACK [] f2 \<and>
    tcp_frame s mac ip lp port 0x12345679 n2 TCP_FLAG_ACK [] f3 \<and>
    tcp_frame s mac ip lp port 0x12345679 n2 (TCP_FLAG_FIN OR TCP_FLAG_ACK) [] f4 \<and>
    first_index (\<lambda>c. conn_state c = TCP_STATE_CLOSED) (connections s4) = Some i \<and>
    (\<forall>j. j \<noteq> i \<longrightarrow> connections s4 ! j = connections s ! j) \<and>
    tcp_bindings s4 = bind_first lp TcpHandlePacket (tcp_bindings s)"
proof -
  let ?P = "conn_matches ip port lp" and ?closed = "\<lambda>c. conn_state c = TCP_STATE_CLOSED"
  have i: "i < length (connections s)" "\<forall>j<i. \<not> ?closed (connections s ! j)" using first_index_SomeD [OF assms(2)] by auto
  have free: "\<forall>j<i. \<not> ?P (connections s ! j)" using assms(3,10) i(1) by (metis nth_mem order.strict_trans)
  define c1 where "c1 = (connections s ! i)\<lparr>remote_ip := ip, remote_port := port, local_port := lp,
    conn_state := TCP_STATE_SYN_SENT, conn_ack := 0, conn_seq := 0x12345679\<rparr>"
  obtain s1 f1 where s1: "tcp_connect p ip port s = Some s1" "connections s1 = (connections s)[i := c1]"
      "sent s1 = sent s @ [f1]" "knows ip mac s1" "my_ip s1 = my_ip s" "my_mac s1 = my_mac s"
      "tcp_bindings s1 = bind_first lp TcpHandlePacket (tcp_bindings s)"
    and f1: "tcp_frame s mac ip lp port 0x12345678 0 TCP_FLAG_SYN [] f1"
    using connect_known [OF assms(1,2), of p port] unfolding c1_def assms(10) by blast
  have m1: "first_index ?P (connections s1) = Some i"
    unfolding s1(2) using i(1) free by (intro changed_match) (simp_all add: conn_matches_def c1_def)
  have fr1: "tcp_frame s1 = tcp_frame s" using s1(5,6) by (rule tcp_frame_cong)
  have st1: "conn_state (connections s1 ! i) = TCP_STATE_SYN_SENT" using s1(2) i(1) by (simp add: c1_def)
  define c2 where "c2 = c1\<lparr>conn_state := TCP_STATE_ESTABLISHED, remote_seq := n1, conn_ack := n1,
    remote_ack := swap32 (load32 m1 (a1 + 8))\<rparr>"
  obtain s2 f2 where s2: "tcp_handle_packet p1 m1 ip port lp a1 s1 = Some s2" "connections s2 = (connections s)[i := c2]"
      "sent_more s1 [f2] s2"
    and f2: "tcp_frame s mac ip lp port 0x12345679 n1 TCP_FLAG_ACK [] f2"
    using handle_syn_ack [where m = m1 and a = a1 and polls = p1, OF s1(4) m1 st1 assms(4,5)] s1(2) i(1) assms(8)
    unfolding fr1 by (auto simp: c1_def c2_def)
  have k2: "knows ip mac s2" "sent s2 = sent s @ [f1, f2]" using s1 s2(3) by (simp_all add: sent_more_def)
  have m2: "first_index ?P (connections s2) = Some i"
    unfolding s2(2) using i(1) free by (intro changed_match) (simp_all add: conn_matches_def c1_def c2_def)
  have fr2: "tcp_frame s2 = tcp_frame s" using sent_more_frame [OF s2(3)] fr1 by simp
  have st2: "conn_state (connections s2 ! i) = TCP_STATE_ESTABLISHED" using s2(2) i(1) by (simp add: c2_def)
  define c3 where "c3 = c2\<lparr>conn_ack := n2, conn_state := TCP_STATE_LAST_ACK, conn_seq := conn_seq c2 + 1\<rparr>"
  obtain s3 f3 f4 where s3: "tcp_handle_packet p2 m2 ip port lp a2 s2 = Some s3" "connections s3 = (connections s)[i := c3]"
      "sent_more s2 [f3, f4] s3"
    and f3: "tcp_frame s mac ip lp port 0x12345679 n2 TCP_FLAG_ACK [] f3"
      "tcp_frame s mac ip lp port 0x12345679 n2 (TCP_FLAG_FIN OR TCP_FLAG_ACK) [] f4"
    using handle_fin [where m = m2 and a = a2 and polls = p2, OF k2(1) m2 st2 assms(6)] s2(2) i(1) assms(9)
    unfolding fr2 by (auto simp: c1_def c2_def c3_def)
  have m3: "first_index ?P (connections s3) = Some i"
    unfolding s3(2) using i(1) free by (intro changed_match) (simp_all add: conn_matches_def c1_def c2_def c3_def)
  have st3: "conn_state (connections s3 ! i) = TCP_STATE_LAST_ACK" using s3(2) i(1) by (simp add: c3_def)
  obtain s4 where s4: "tcp_handle_packet p3 m3 ip port lp a3 s3 = Some s4" "sent_more s3 [] s4"
      "connections s4 = (connections s)[i := c3\<lparr>conn_state := TCP_STATE_CLOSED\<rparr>]"
    using handle_last_ack [where m = m3 and a = a3 and polls = p3, OF m3 st3 assms(7)] s3(2) i(1) by auto
  have end4: "first_index ?closed (connections s4) = Some i" "\<forall>j. j \<noteq> i \<longrightarrow> connections s4 ! j = connections s ! j"
    "conn_state (connections s4 ! i) = TCP_STATE_CLOSED"
    using i by (simp_all add: s4(3) changed_match)
  have "sent s4 = sent s @ [f1, f2, f3, f4]" "tcp_bindings s4 = bind_first lp TcpHandlePacket (tcp_bindings s)"
    using k2(2) s1(7) s2(3) s3(3) s4(2) by (simp_all add: sent_more_def)
  with s1(1) s2(1) s3(1) s4(1) st1 st2 st3 end4 f1 f2 f3 show ?thesis
    by - (rule exI [of _ s1], rule exI [of _ s2], rule exI [of _ s3], rule exI [of _ s4], rule exI [of _ f1], rule exI [of _ f2],
        rule exI [of _ f3], rule exI [of _ f4], simp)
qed

text \<open>Ports are never unbound: once the 16 bindings are used up, a new connection sends its SYN but no segment that comes back to its
  port is delivered, so that it is never established.\<close>

theorem tcp_bindings_exhausted:
  assumes "knows ip mac s" "first_index (\<lambda>c. conn_state c = TCP_STATE_CLOSED) (connections s) = Some i"
    and "\<forall>b\<in>set (tcp_bindings s). bind_valid b \<and> bind_port b \<noteq> next_local_port s"
  shows "\<exists>t f. tcp_connect polls ip port s = Some t \<and> conn_state (connections t ! i) = TCP_STATE_SYN_SENT \<and>
    sent t = sent s @ [f] \<and> tcp_frame s mac ip (next_local_port s) port 0x12345678 0 TCP_FLAG_SYN [] f \<and>
    tcp_bindings t = tcp_bindings s \<and>
    \<not> (\<exists>m q data len h. swap16 (load16 m (data + 2)) = local_port (connections t ! i) \<and> net_handle_tcp m q data len t = Some h)"
proof -
  have full: "bind_first p h bs = bs" if "\<forall>b\<in>set bs. bind_valid b" for p and h :: tcp_fn and bs
    using that by (induction bs) auto
  have i: "i < length (connections s)" using first_index_SomeD [OF assms(2)] by simp
  have "find_binding (next_local_port s) (tcp_bindings s) = None"
    using assms(3) by (auto simp: find_binding_def find_None_iff)
  then have none: "\<not> (\<exists>m q data len h. swap16 (load16 m (data + 2)) = next_local_port s \<and> net_handle_tcp m q data len t = Some h)"
    if "tcp_bindings t = tcp_bindings s" for t :: "('a, 'b) tcp_vars_scheme"
    using that by (auto simp: net_handle_tcp_def Let_def split: if_splits)
  obtain t f where t: "tcp_connect polls ip port s = Some t" "conn_state (connections t ! i) = TCP_STATE_SYN_SENT"
    "local_port (connections t ! i) = next_local_port s" "sent t = sent s @ [f]" "tcp_bindings t = tcp_bindings s"
    "tcp_frame s mac ip (next_local_port s) port 0x12345678 0 TCP_FLAG_SYN [] f"
    using connect_known [OF assms(1,2), of polls port] i full [of "tcp_bindings s"] assms(3) by auto
  with none [OF t(5)] show ?thesis by auto
qed

text \<open>A stack that knows its peer 10.0.2.2, and segments with given flags.\<close>

definition tcp0 :: "unit tcp_vars" where
  "tcp0 = tcp_init \<lparr>rx_packet_count = 0, tx_packet_count = 0, my_ip = [10, 0, 2, 15], my_mac = [1, 2, 3, 4, 5, 6],
     arp_cache = [\<lparr>arp_ip = [10, 0, 2, 2], arp_mac = [0xA, 0xB, 0xC, 0xD, 0xE, 0xF], arp_valid = True\<rparr>],
     udp_bindings = [], tcp_bindings = replicate 16 \<lparr>bind_port = 0, bind_handler = NullTcp, bind_valid = False\<rparr>,
     sent = [], overrun = False, connections = [], next_local_port = 49152\<rparr>"

definition segment :: "u8 \<Rightarrow> memory" where
  "segment flags = put_list 0x2000 [0, 80, 0xC0, 0, 0, 0, 0, 5, 0x12, 0x34, 0x56, 0x79, 0x50, flags]"

lemma segment_flags [simp]: "segment flags (0x2000 + 13) = flags"
  by (simp add: segment_def put_list_def)

lemma tcp0_knows: "knows [10, 0, 2, 2] [0xA, 0xB, 0xC, 0xD, 0xE, 0xF] tcp0"
  by (simp add: knows_def tcp0_def tcp_init_def addresses_ok_def arp_lookup_def)

lemma tcp0_slots:
  "first_index (\<lambda>c. conn_state c = TCP_STATE_CLOSED) (connections tcp0) = Some 0"
  "\<forall>c\<in>set (connections tcp0). \<not> conn_matches ip port (next_local_port tcp0) c"
  "first_index (conn_matches ip port lp) (connections tcp0) = None" "sent tcp0 = []" "next_local_port tcp0 = 49152"
  by (simp_all add: tcp0_def tcp_init_def MAX_CONNECTIONS_def conn_matches_def numeral_eq_Suc first_index_None)

theorem tcp_handle_refines_witness:
  "\<exists>t. tcp_handle_packet (\<lambda>k. []) (segment 2) [10, 0, 2, 2] 80 49152 0x2000 tcp0 = Some t \<and> connections t = connections tcp0"
  using tcp_handle_refines [OF tcp0_knows, where polls = "\<lambda>k. []" and m = "segment 2" and a = "0x2000" and sp = 80 and dp = 49152]
    tcp0_slots(3) by auto

theorem tcp_session_witness:
  "\<exists>s1 s2 s3 s4. tcp_connect [] [10, 0, 2, 2] 80 tcp0 = Some s1 \<and>
     tcp_handle_packet (\<lambda>k. []) (segment 0x12) [10, 0, 2, 2] 80 49152 0x2000 s1 = Some s2 \<and>
     tcp_handle_packet (\<lambda>k. []) (segment 0x11) [10, 0, 2, 2] 80 49152 0x2000 s2 = Some s3 \<and>
     tcp_handle_packet (\<lambda>k. []) (segment 0x10) [10, 0, 2, 2] 80 49152 0x2000 s3 = Some s4 \<and> length (sent s4) = 4"
proof -
  have f: "segment 0x12 (0x2000 + 13) AND TCP_FLAG_SYN \<noteq> 0" "segment 0x12 (0x2000 + 13) AND TCP_FLAG_ACK \<noteq> 0"
    "segment 0x11 (0x2000 + 13) AND TCP_FLAG_FIN \<noteq> 0" "segment 0x10 (0x2000 + 13) AND TCP_FLAG_ACK \<noteq> 0"
    unfolding segment_flags by (simp_all add: TCP_FLAG_SYN_def TCP_FLAG_ACK_def TCP_FLAG_FIN_def)
  from tcp_session [where p = "[]" and ?m1.0 = "segment 0x12" and ?m2.0 = "segment 0x11" and ?m3.0 = "segment 0x10" and ?a1.0 = "0x2000"
      and ?a2.0 = "0x2000" and ?a3.0 = "0x2000" and ?p1.0 = "\<lambda>k. []" and ?p2.0 = "\<lambda>k. []" and ?p3.0 = "\<lambda>k. []" and port = 80, OF tcp0_knows tcp0_slots(1,2) f refl refl tcp0_slots(5) [symmetric]]
  obtain s1 s2 s3 s4 f1 f2 f3 f4 where run: "tcp_connect [] [10, 0, 2, 2] 80 tcp0 = Some s1"
      "tcp_handle_packet (\<lambda>k. []) (segment 0x12) [10, 0, 2, 2] 80 49152 0x2000 s1 = Some s2"
      "tcp_handle_packet (\<lambda>k. []) (segment 0x11) [10, 0, 2, 2] 80 49152 0x2000 s2 = Some s3"
      "tcp_handle_packet (\<lambda>k. []) (segment 0x10) [10, 0, 2, 2] 80 49152 0x2000 s3 = Some s4"
    and "sent s4 = [] @ [f1, f2, f3, f4]" unfolding tcp0_slots(4) by blast
  then have "length (sent s4) = 4" by simp
  with run show ?thesis by blast
qed

text \<open>The same stack after 16 ports were bound.\<close>

definition tcp0_full :: "unit tcp_vars" where
  "tcp0_full = tcp0\<lparr>tcp_bindings := map (\<lambda>p. \<lparr>bind_port = of_nat p, bind_handler = TcpHandlePacket, bind_valid = True\<rparr>) [0..<16]\<rparr>"

theorem tcp_bindings_exhausted_witness:
  "\<exists>t. tcp_connect [] [10, 0, 2, 2] 80 tcp0_full = Some t \<and>
     \<not> (\<exists>m q data len h. swap16 (load16 m (data + 2)) = local_port (connections t ! 0) \<and> net_handle_tcp m q data len t = Some h)"
proof -
  have k: "knows [10, 0, 2, 2] [0xA, 0xB, 0xC, 0xD, 0xE, 0xF] tcp0_full"
    using tcp0_knows by (simp add: knows_def tcp0_full_def addresses_ok_def arp_lookup_def)
  have "first_index (\<lambda>c. conn_state c = TCP_STATE_CLOSED) (connections tcp0_full) = Some 0"
    "\<forall>b\<in>set (tcp_bindings tcp0_full). bind_valid b \<and> bind_port b \<noteq> next_local_port tcp0_full"
    using tcp0_slots(1,5) by (simp_all add: tcp0_full_def upt_rec)
  from tcp_bindings_exhausted [OF k this, of "[]" 80] show ?thesis by blast
qed

end
