(* ===== verification/Dhcp.thy ===== *)
theory Dhcp
  imports Tcp
begin

text \<open>
  The DHCP client (src/kernel/dhcp.c): DISCOVER and REQUEST packets, and the handler of the replies with its loop over the
  options. Its variables extend the state of \<open>Tcp\<close>, because the handler runs inside the network stack.
\<close>

section \<open>Packets\<close>

text \<open>The handlers that are bound to UDP ports: \<open>dhcp_handle\<close> is the only one.\<close>

datatype udp_fn = NullUdp | DhcpHandle

record dhcp_vars = "udp_fn tcp_vars" +
  dhcp_xid :: u32
  dhcp_offered_ip :: "u8 list"
  dhcp_server_ip :: "u8 list"

definition DHCP_BOOTREQUEST :: u8 where "DHCP_BOOTREQUEST = 1"
definition DHCP_BOOTREPLY :: u8 where "DHCP_BOOTREPLY = 2"
definition DHCP_HTYPE_ETHERNET :: u8 where "DHCP_HTYPE_ETHERNET = 1"
definition DHCP_HLEN_ETHERNET :: u8 where "DHCP_HLEN_ETHERNET = 6"
definition DHCP_MAGIC_COOKIE :: u32 where "DHCP_MAGIC_COOKIE = 0x63825363"
definition DHCP_MSG_DISCOVER :: u8 where "DHCP_MSG_DISCOVER = 1"
definition DHCP_MSG_OFFER :: u8 where "DHCP_MSG_OFFER = 2"
definition DHCP_MSG_REQUEST :: u8 where "DHCP_MSG_REQUEST = 3"
definition DHCP_MSG_ACK :: u8 where "DHCP_MSG_ACK = 5"
definition DHCP_OPT_MSG_TYPE :: u8 where "DHCP_OPT_MSG_TYPE = 53"
definition DHCP_OPT_REQ_IP :: u8 where "DHCP_OPT_REQ_IP = 50"
definition DHCP_OPT_SERVER :: u8 where "DHCP_OPT_SERVER = 54"
definition DHCP_OPT_END :: u8 where "DHCP_OPT_END = 255"

text \<open>The 240 bytes of \<open>dhcp_packet_t\<close> before the options, with the fields that the client sets and zeros elsewhere.\<close>

definition dhcp_header :: "u32 \<Rightarrow> u16 \<Rightarrow> u8 list \<Rightarrow> u8 list" where
  "dhcp_header xid flags mac =
     [DHCP_BOOTREQUEST, DHCP_HTYPE_ETHERNET, DHCP_HLEN_ETHERNET, 0] @ le32 (swap32 xid) @ [0, 0] @ le16 (swap16 flags) @
     replicate 16 0 @ mac @ replicate 10 0 @ replicate 192 0 @ le32 (swap32 DHCP_MAGIC_COOKIE)"

definition broadcast_ip :: "u8 list" where "broadcast_ip = replicate 4 255"

definition dhcp_init :: "'z dhcp_vars_scheme \<Rightarrow> 'z dhcp_vars_scheme" where
  "dhcp_init s = net_udp_bind 68 DhcpHandle s"

text \<open>\<open>mac\<close> is what \<open>e1000_get_mac\<close> returns.\<close>

definition dhcp_discover :: "u8 list \<Rightarrow> 'z dhcp_vars_scheme \<Rightarrow> 'z dhcp_vars_scheme" where
  "dhcp_discover mac s =
     (let total_len = 240 + 4;
          pkt = dhcp_header (dhcp_xid s) 0x8000 mac @ [DHCP_OPT_MSG_TYPE, 1, DHCP_MSG_DISCOVER, DHCP_OPT_END]
      in net_send_udp broadcast_ip 68 67 pkt total_len s)"

section \<open>Replies\<close>

text \<open>The loop over the options, from the offset \<open>pos\<close> of the packet on; the result is \<open>msg_type\<close> and \<open>dhcp_server_ip\<close>.\<close>

function option_loop :: "memory \<Rightarrow> u64 \<Rightarrow> nat \<Rightarrow> nat \<Rightarrow> u8 \<Rightarrow> u8 list \<Rightarrow> u8 \<times> u8 list" where
  "option_loop m data len pos msg_type server =
     (let opt = data + of_nat pos
      in if pos < len \<and> m opt \<noteq> DHCP_OPT_END
         then let type = m opt; opt_len = m (opt + 1); opt2 = opt + 2;
                  msg_type' = (if type = DHCP_OPT_MSG_TYPE then m opt2 else msg_type);
                  server' = (if type \<noteq> DHCP_OPT_MSG_TYPE \<and> type = DHCP_OPT_SERVER then bytes m opt2 4 else server)
              in option_loop m data len (pos + 2 + unat opt_len) msg_type' server'
         else (msg_type, server))"
  by pat_completeness auto
termination
  by (relation "measure (\<lambda>(m, data, len, pos, t, s). len - pos)") auto

declare option_loop.simps [simp del]

text \<open>
  The REQUEST asks for 12 bytes for its options, 252 in all, and 16 are written. kmalloc rounds the size up to 256, so the other
  4 are still inside the block, but they are not sent.
\<close>

definition dhcp_request :: "u8 list \<Rightarrow> 'z dhcp_vars_scheme \<Rightarrow> 'z dhcp_vars_scheme" where
  "dhcp_request mac s =
     (let total_len = 240 + 12;
          options = [DHCP_OPT_MSG_TYPE, 1, DHCP_MSG_REQUEST] @ [DHCP_OPT_REQ_IP, 4] @ dhcp_offered_ip s @
                    [DHCP_OPT_SERVER, 4] @ dhcp_server_ip s @ [DHCP_OPT_END];
          req = dhcp_header (dhcp_xid s) 0 mac @ options
      in net_send_udp broadcast_ip 68 67 req total_len (s\<lparr>overrun := overrun s \<or> unat total_len < length req\<rparr>))"

definition dhcp_handle :: "u8 list \<Rightarrow> memory \<Rightarrow> u64 \<Rightarrow> u16 \<Rightarrow> 'z dhcp_vars_scheme \<Rightarrow> 'z dhcp_vars_scheme" where
  "dhcp_handle mac m data len s =
     (if len < 240 then s
      else if m data \<noteq> DHCP_BOOTREPLY \<or> swap32 (load32 m (data + 236)) \<noteq> DHCP_MAGIC_COOKIE then s
      else if load32 m (data + 4) \<noteq> swap32 (dhcp_xid s) then s
      else case option_loop m data (unat len) 240 0 (dhcp_server_ip s) of
             (msg_type, server) \<Rightarrow>
               let s1 = s\<lparr>dhcp_server_ip := server\<rparr>; yiaddr = bytes m (data + 16) 4
               in if msg_type = DHCP_MSG_OFFER then dhcp_request mac (s1\<lparr>dhcp_offered_ip := yiaddr\<rparr>)
                  else if msg_type = DHCP_MSG_ACK then net_set_ip yiaddr s1
                  else s1)"

section \<open>Options as a list\<close>

fun encode_options :: "(u8 \<times> u8 list) list \<Rightarrow> u8 list" where
  "encode_options [] = [DHCP_OPT_END]"
| "encode_options ((t, v) # os) = t # of_nat (length v) # v @ encode_options os"

definition option_ok :: "u8 \<times> u8 list \<Rightarrow> bool" where
  "option_ok tv = (case tv of (t, v) \<Rightarrow> t \<noteq> DHCP_OPT_END \<and> length v < 256 \<and> (t = DHCP_OPT_MSG_TYPE \<longrightarrow> v \<noteq> []) \<and>
     (t = DHCP_OPT_SERVER \<longrightarrow> 4 \<le> length v))"

text \<open>What a list of options says: the last message type and the last server address.\<close>

fun read_options :: "(u8 \<times> u8 list) list \<Rightarrow> u8 \<Rightarrow> u8 list \<Rightarrow> u8 \<times> u8 list" where
  "read_options [] t s = (t, s)"
| "read_options ((o1, v) # os) t s =
     read_options os (if o1 = DHCP_OPT_MSG_TYPE then hd v else t) (if o1 = DHCP_OPT_SERVER then take 4 v else s)"

lemma option_loop_read:
  assumes "bytes m (data + of_nat pos) (length (encode_options os)) = encode_options os" "\<forall>tv\<in>set os. option_ok tv"
  shows "option_loop m data (pos + length (encode_options os)) pos t s = read_options os t s"
  using assms
proof (induction os arbitrary: pos t s)
  case Nil
  then have "m (data + of_nat pos) = DHCP_OPT_END" by (simp add: bytes_Suc)
  then show ?case by (simp add: option_loop.simps)
next
  case (Cons tv os)
  obtain o1 v where tv: "tv = (o1, v)" by (cases tv)
  let ?a = "data + of_nat pos"
  have ok: "o1 \<noteq> DHCP_OPT_END" "length v < 256" "o1 = DHCP_OPT_MSG_TYPE \<Longrightarrow> v \<noteq> []" "o1 = DHCP_OPT_SERVER \<Longrightarrow> 4 \<le> length v"
    using Cons.prems(2) tv by (auto simp: option_ok_def)
  have mem: "m ?a = o1" "m (?a + 1) = of_nat (length v)"
    and rest: "bytes m (?a + 2) (length v + length (encode_options os)) = v @ encode_options os"
    using Cons.prems(1) tv by (simp_all add: bytes_Suc add.assoc)
  have v: "bytes m (?a + 2) (length v) = v"
    and more: "bytes m (?a + 2 + of_nat (length v)) (length (encode_options os)) = encode_options os"
    using rest by (simp_all add: bytes_append)
  have next_pos: "data + of_nat (pos + 2 + length v) = ?a + 2 + of_nat (length v)" by (simp add: add.assoc)
  have n: "unat (of_nat (length v) :: u8) = length v" using ok(2) by (simp add: unat_of_nat_small)
  have ty: "m (?a + 2) = hd v" if "o1 = DHCP_OPT_MSG_TYPE"
    using v ok(3) [OF that] by (cases v) (simp_all add: bytes_Suc)
  have sv: "bytes m (?a + 2) 4 = take 4 v" if "o1 = DHCP_OPT_SERVER"
    using bytes_take [OF v ok(4) [OF that]] .
  have diff: "DHCP_OPT_MSG_TYPE \<noteq> DHCP_OPT_SERVER" by (simp add: DHCP_OPT_MSG_TYPE_def DHCP_OPT_SERVER_def)
  have "option_loop m data (pos + 2 + length v + length (encode_options os)) (pos + 2 + length v) t' s' = read_options os t' s'"
    for t' s' using Cons.IH [of "pos + 2 + length v"] Cons.prems(2) more unfolding next_pos by simp
  then show ?case using mem n ok(1) ty sv diff tv
    by (subst option_loop.simps) (simp add: add.assoc Let_def)
qed

section \<open>Properties\<close>

lemma read_options_server:
  "length s = 4 \<Longrightarrow> \<forall>tv\<in>set os. option_ok tv \<Longrightarrow> length (snd (read_options os t s)) = 4"
proof (induction os arbitrary: t s)
  case (Cons tv os)
  then show ?case by (cases tv) (auto simp: option_ok_def)
qed simp

lemma dhcp_header_length: "length mac = 6 \<Longrightarrow> length (dhcp_header xid flags mac) = 240"
  by (simp add: dhcp_header_def)

lemma request_frame:
  assumes "addresses_ok s" "length mac = 6" "length (dhcp_offered_ip s) = 4" "length (dhcp_server_ip s) = 4"
  shows "\<exists>f. dhcp_request mac s = s\<lparr>overrun := True, sent := sent s @ [f], tx_packet_count := tx_packet_count s + 1\<rparr> \<and>
    udp_frame s broadcast_mac broadcast_ip 68 67 (dhcp_header (dhcp_xid s) 0 mac @ [DHCP_OPT_MSG_TYPE, 1, DHCP_MSG_REQUEST,
      DHCP_OPT_REQ_IP, 4] @ dhcp_offered_ip s @ [DHCP_OPT_SERVER, 4, hd (dhcp_server_ip s)]) f"
proof -
  obtain b0 bs where b: "dhcp_server_ip s = b0 # bs" "length bs = 3" using assms(4) by (cases "dhcp_server_ip s") auto
  let ?req = "dhcp_header (dhcp_xid s) 0 mac @ [DHCP_OPT_MSG_TYPE, 1, DHCP_MSG_REQUEST] @ [DHCP_OPT_REQ_IP, 4] @ dhcp_offered_ip s @
    [DHCP_OPT_SERVER, 4] @ dhcp_server_ip s @ [DHCP_OPT_END]"
  have l: "length (dhcp_header (dhcp_xid s) 0 mac) = 240" by (rule dhcp_header_length [OF assms(2)])
  have len: "length ?req = 256" "unat (252 :: u16) = 252" using assms(3,4) l by simp_all
  have cut: "take 252 ?req = dhcp_header (dhcp_xid s) 0 mac @ [DHCP_OPT_MSG_TYPE, 1, DHCP_MSG_REQUEST, DHCP_OPT_REQ_IP, 4] @
      dhcp_offered_ip s @ [DHCP_OPT_SERVER, 4, hd (dhcp_server_ip s)]"
    using assms(3) l b by simp
  let ?s = "s\<lparr>overrun := True\<rparr>"
  have "addresses_ok ?s" using assms(1) by (simp add: addresses_ok_def)
  moreover have "length broadcast_ip = 4" "length broadcast_mac = 6" by (simp_all add: broadcast_ip_def broadcast_mac_def)
  ultimately obtain f where "net_send_udp broadcast_ip 68 67 ?req 252 ?s =
      ?s\<lparr>sent := sent ?s @ [f], tx_packet_count := tx_packet_count ?s + 1\<rparr>"
    "udp_frame ?s broadcast_mac broadcast_ip 68 67 (take 252 ?req) f"
    using send_udp_frame [of ?s 252 ?req broadcast_ip broadcast_mac 68 67] len by (auto simp: broadcast_ip_def)
  moreover have "udp_frame ?s = udp_frame s" by (intro ext) (simp add: udp_frame_def)
  ultimately show ?thesis using len cut by (intro exI [of _ f]) (simp add: dhcp_request_def Let_def)
qed

text \<open>C27. A reply with the right transaction number: an OFFER is answered by one broadcast REQUEST for the offered address, an ACK sets
  the address of the host, anything else only records the server. The REQUEST that leaves ends inside its server option:
  the last three bytes of the server address and the end mark are written past the 12 bytes counted for the options.\<close>

theorem dhcp_handle_correct:
  assumes "addresses_ok s" "length mac = 6" "length (dhcp_server_ip s) = 4"
    and "m data = DHCP_BOOTREPLY" "swap32 (load32 m (data + 236)) = DHCP_MAGIC_COOKIE" "load32 m (data + 4) = swap32 (dhcp_xid s)"
    and "bytes m (data + 240) (length (encode_options os)) = encode_options os" "\<forall>tv\<in>set os. option_ok tv"
    and "unat len = 240 + length (encode_options os)" "(mt, sv) = read_options os 0 (dhcp_server_ip s)"
    and "yi = bytes m (data + 16) 4"
  shows "if mt = DHCP_MSG_OFFER
    then \<exists>f. dhcp_handle mac m data len s = s\<lparr>dhcp_server_ip := sv, dhcp_offered_ip := yi, overrun := True,
           sent := sent s @ [f], tx_packet_count := tx_packet_count s + 1\<rparr> \<and>
         udp_frame s broadcast_mac broadcast_ip 68 67 (dhcp_header (dhcp_xid s) 0 mac @ [DHCP_OPT_MSG_TYPE, 1, DHCP_MSG_REQUEST,
           DHCP_OPT_REQ_IP, 4] @ yi @ [DHCP_OPT_SERVER, 4, hd sv]) f
    else dhcp_handle mac m data len s = (if mt = DHCP_MSG_ACK then s\<lparr>dhcp_server_ip := sv, my_ip := yi\<rparr> else s\<lparr>dhcp_server_ip := sv\<rparr>)"
proof -
  have len: "\<not> len < 240" using assms(9) by (simp add: word_less_nat_alt)
  have loop: "option_loop m data (unat len) 240 0 (dhcp_server_ip s) = (mt, sv)"
    using option_loop_read [of m data 240 os 0 "dhcp_server_ip s"] assms(7-10) by simp
  have sv: "length sv = 4" using read_options_server [OF assms(3,8), of 0] assms(10) by (metis snd_conv)
  let ?s1 = "s\<lparr>dhcp_server_ip := sv, dhcp_offered_ip := yi\<rparr>"
  have fr: "udp_frame ?s1 = udp_frame s" by (intro ext) (simp add: udp_frame_def)
  have "addresses_ok ?s1" using assms(1) by (simp add: addresses_ok_def)
  moreover have "length yi = 4" using assms(11) by (simp add: bytes_def)
  ultimately
  have "\<exists>f. dhcp_request mac ?s1 = ?s1\<lparr>overrun := True, sent := sent s @ [f], tx_packet_count := tx_packet_count s + 1\<rparr> \<and>
    udp_frame s broadcast_mac broadcast_ip 68 67 (dhcp_header (dhcp_xid s) 0 mac @ [DHCP_OPT_MSG_TYPE, 1, DHCP_MSG_REQUEST,
      DHCP_OPT_REQ_IP, 4] @ yi @ [DHCP_OPT_SERVER, 4, hd sv]) f"
    using request_frame [of ?s1 mac] assms(2) sv by (simp add: fr)
  then show ?thesis using len assms(4-6,11) loop
    by (auto simp: dhcp_handle_def Let_def net_set_ip_def DHCP_MSG_OFFER_def DHCP_MSG_ACK_def)
qed

text \<open>An OFFER of 10.0.2.99 by the server 10.0.2.2.\<close>

definition dhcp0 :: dhcp_vars where
  "dhcp0 = dhcp_init \<lparr>rx_packet_count = 0, tx_packet_count = 0, my_ip = [10, 0, 2, 15], my_mac = [1, 2, 3, 4, 5, 6],
     arp_cache = [], udp_bindings = replicate 16 \<lparr>bind_port = 0, bind_handler = NullUdp, bind_valid = False\<rparr>, tcp_bindings = [],
     sent = [], overrun = False, connections = [], next_local_port = 49152,
     dhcp_xid = 0x12345678, dhcp_offered_ip = [0, 0, 0, 0], dhcp_server_ip = [0, 0, 0, 0]\<rparr>"

definition dhcp_offer :: memory where
  "dhcp_offer = put_list 0x3000 ([2, 1, 6, 0, 0x12, 0x34, 0x56, 0x78] @ replicate 8 0 @ [10, 0, 2, 99] @ replicate 216 0 @
     [0x63, 0x82, 0x53, 0x63] @ encode_options [(53, [2]), (54, [10, 0, 2, 2])])"

theorem dhcp_handle_correct_witness:
  "dhcp_offered_ip (dhcp_handle [1, 2, 3, 4, 5, 6] dhcp_offer 0x3000 250 dhcp0) = [10, 0, 2, 99] \<and>
   length (sent (dhcp_handle [1, 2, 3, 4, 5, 6] dhcp_offer 0x3000 250 dhcp0)) = 1"
proof -
  let ?os = "[(53, [2]), (54, [10, 0, 2, 2])] :: (u8 \<times> u8 list) list"
  have d: "addresses_ok dhcp0" "length (dhcp_server_ip dhcp0) = 4" "sent dhcp0 = []" "dhcp_xid dhcp0 = 0x12345678"
    "dhcp_server_ip dhcp0 = [0, 0, 0, 0]"
    by (simp_all add: dhcp0_def dhcp_init_def net_udp_bind_def addresses_ok_def)
  have byte: "dhcp_offer 0x3000 = DHCP_BOOTREPLY" "swap32 (load32 dhcp_offer (0x3000 + 236)) = DHCP_MAGIC_COOKIE"
    "load32 dhcp_offer (0x3000 + 4) = swap32 (dhcp_xid dhcp0)" "[10, 0, 2, 99] = bytes dhcp_offer (0x3000 + 16) 4"
    by (simp_all add: dhcp_offer_def put_list_def DHCP_BOOTREPLY_def DHCP_MAGIC_COOKIE_def d(4) load32_def load16_def swap32_def
        nth_append bytes_def upt_rec)
  have os: "bytes dhcp_offer (0x3000 + 240) (length (encode_options ?os)) = encode_options ?os" "\<forall>tv\<in>set ?os. option_ok tv"
    "unat (250 :: u16) = 240 + length (encode_options ?os)" "(2, [10, 0, 2, 2]) = read_options ?os 0 (dhcp_server_ip dhcp0)"
    by (simp_all add: dhcp_offer_def put_list_def bytes_def upt_rec option_ok_def DHCP_OPT_END_def DHCP_OPT_MSG_TYPE_def
        DHCP_OPT_SERVER_def nth_append)
  from dhcp_handle_correct [OF d(1) _ d(2) byte(1-3) os byte(4), of "[1, 2, 3, 4, 5, 6]"]
  show ?thesis using d(3) by (auto simp: DHCP_MSG_OFFER_def)
qed

end
