(* ===== verification/Pci.thy ===== *)
theory Pci
  imports Ata
begin

text \<open>
  The configuration space of the PCI bus (src/kernel/pci.c, the two accessors): the ports are a parameter, as in \<open>Ata\<close>, with
  the 32-bit operations added. The enumeration of the bus is in \<open>E1000\<close>, whose driver it starts.
\<close>

section \<open>Configuration space\<close>

record 'd port_io32 = "'d port_io" +
  inl :: "u16 \<Rightarrow> 'd \<Rightarrow> u32 \<times> 'd"
  outl :: "u16 \<Rightarrow> u32 \<Rightarrow> 'd \<Rightarrow> 'd"

definition PCI_CONFIG_ADDRESS :: u16 where "PCI_CONFIG_ADDRESS = 0xCF8"
definition PCI_CONFIG_DATA :: u16 where "PCI_CONFIG_DATA = 0xCFC"

definition pci_address :: "u8 \<Rightarrow> u8 \<Rightarrow> u8 \<Rightarrow> u8 \<Rightarrow> u32" where
  "pci_address bus slot func offset = push_bit 16 (ucast bus) OR push_bit 11 (ucast slot) OR push_bit 8 (ucast func) OR
     (ucast offset AND 0xFC) OR 0x80000000"

definition pci_config_read :: "'d port_io32 \<Rightarrow> u8 \<Rightarrow> u8 \<Rightarrow> u8 \<Rightarrow> u8 \<Rightarrow> 'd \<Rightarrow> u32 \<times> 'd" where
  "pci_config_read io bus slot func offset d =
     inl io PCI_CONFIG_DATA (outl io PCI_CONFIG_ADDRESS (pci_address bus slot func offset) d)"

definition pci_config_write :: "'d port_io32 \<Rightarrow> u8 \<Rightarrow> u8 \<Rightarrow> u8 \<Rightarrow> u8 \<Rightarrow> u32 \<Rightarrow> 'd \<Rightarrow> 'd" where
  "pci_config_write io bus slot func offset value d =
     outl io PCI_CONFIG_DATA value (outl io PCI_CONFIG_ADDRESS (pci_address bus slot func offset) d)"

text \<open>The parts of the address can be read back when the slot and the function are in their ranges.\<close>

lemma small_no_bit: "unat (x :: u8) < 2 ^ k \<Longrightarrow> k \<le> n \<Longrightarrow> \<not> bit x n"
proof -
  assume x: "unat x < 2 ^ k" and "k \<le> n"
  have "x = take_bit k x"
    using x by (intro word_unat_eq_iff [THEN iffD2]) (simp add: unsigned_take_bit_eq take_bit_nat_eq_self)
  then show ?thesis using \<open>k \<le> n\<close> by (metis bit_take_bit_iff not_less)
qed

lemma no_bit_fc: "8 \<le> n \<Longrightarrow> \<not> bit (ucast (offset :: u8) AND 0xFC :: u32) n"
  by (auto simp: bit_simps dest: bit_imp_le_length)

lemma bit_31: "bit (0x80000000 :: u32) n \<longleftrightarrow> n = 31"
proof -
  have "(0x80000000 :: u32) = push_bit 31 1" by (simp add: push_bit_eq_mult)
  then have "bit (0x80000000 :: u32) n \<longleftrightarrow> bit (push_bit 31 (1 :: u32)) n" by (rule arg_cong)
  also have "\<dots> \<longleftrightarrow> n = 31" unfolding bit_push_bit_iff bit_1_iff by auto
  finally show ?thesis .
qed

lemma pci_address_fields:
  assumes "slot < 32" "func < 8"
  shows "ucast (drop_bit 16 (pci_address bus slot func offset)) = bus"
    and "take_bit 5 (ucast (drop_bit 11 (pci_address bus slot func offset))) = slot"
    and "take_bit 3 (ucast (drop_bit 8 (pci_address bus slot func offset))) = func"
proof -
  have high: "n < 5" if "bit slot n" for n using small_no_bit [of slot 5 n] assms(1) that by (force simp: word_less_nat_alt)
  have high': "n < 3" if "bit func n" for n using small_no_bit [of func 3 n] assms(2) that by (force simp: word_less_nat_alt)
  have b: "bit (pci_address bus slot func offset) n \<longleftrightarrow> 16 \<le> n \<and> bit bus (n - 16) \<or> 11 \<le> n \<and> bit slot (n - 11) \<or>
      8 \<le> n \<and> bit func (n - 8) \<or> n = 31" if "8 \<le> n" "n < 32" for n
    using that no_bit_fc [OF that(1)] unfolding pci_address_def bit_or_iff bit_31
    by (auto simp: bit_push_bit_iff bit_ucast_iff dest: bit_imp_le_length)
  show "ucast (drop_bit 16 (pci_address bus slot func offset)) = bus"
    by (rule bit_word_eqI) (auto simp: bit_simps b dest: high high')
  show "take_bit 5 (ucast (drop_bit 11 (pci_address bus slot func offset))) = slot"
    by (rule bit_word_eqI) (auto simp: bit_simps b dest: high high')
  show "take_bit 3 (ucast (drop_bit 8 (pci_address bus slot func offset))) = func"
    by (rule bit_word_eqI) (auto simp: bit_simps b dest: high high')
qed

end
