(* ===== verification/E1000.thy ===== *)
theory E1000
  imports Dhcp Pci Vmm Kmalloc
begin

text \<open>
  The network card driver (src/kernel/e1000.c), the enumeration of the PCI bus that starts it (src/kernel/pci.c), and the
  network stack as one machine: a received frame goes through \<open>net_handle_packet\<close> to the bound handler, and a handler
  that waits for a hardware address polls the card again.
\<close>

section \<open>State\<close>

record e1000_rx_desc_t =
  rx_addr :: u64
  rx_length :: u16
  rx_status :: u8
  rx_errors :: u8
  rx_special :: u16

record e1000_tx_desc_t =
  tx_addr :: u64
  tx_length :: u16
  tx_cso :: u8
  tx_cmd :: u8
  tx_status :: u8
  tx_css :: u8
  tx_special :: u16

text \<open>The registers of the card are a parameter, like the ports: \<open>mmio_done\<close> is the status of a descriptor once it was sent.\<close>

record 'd mmio =
  mmio_read :: "u16 \<Rightarrow> 'd \<Rightarrow> u32 \<times> 'd"
  mmio_write :: "u16 \<Rightarrow> u32 \<Rightarrow> 'd \<Rightarrow> 'd"
  mmio_done :: "'d \<Rightarrow> u8"

text \<open>
  The rings are the lists of their descriptors; \<open>nic_mem\<close> is the memory that holds the buffers. The network stack collects the
  frames it sends in \<open>sent\<close>; \<open>tx_given\<close> says how many of them have gone through \<open>e1000_send_packet\<close>.
\<close>

record 'd nic = dhcp_vars +
  mmio_base :: u64
  nic_dev :: 'd
  rx_ring :: u64
  tx_ring :: u64
  rx_descs :: "e1000_rx_desc_t list"
  tx_descs :: "e1000_tx_desc_t list"
  rx_buffers :: u64
  tx_buffers :: u64
  tx_tail :: u16
  rx_cur :: u16
  mac_addr :: "u8 list"
  nic_mem :: memory
  tx_given :: nat

definition NUM_RX_DESCS :: nat where "NUM_RX_DESCS = 128"
definition NUM_TX_DESCS :: nat where "NUM_TX_DESCS = 128"

definition REG_CTRL :: u16 where "REG_CTRL = 0x0000"
definition REG_RCTL :: u16 where "REG_RCTL = 0x0100"
definition REG_TCTL :: u16 where "REG_TCTL = 0x0400"
definition REG_TIPG :: u16 where "REG_TIPG = 0x0410"
definition REG_RDBAL :: u16 where "REG_RDBAL = 0x2800"
definition REG_RDBAH :: u16 where "REG_RDBAH = 0x2804"
definition REG_RDLEN :: u16 where "REG_RDLEN = 0x2808"
definition REG_RDH :: u16 where "REG_RDH = 0x2810"
definition REG_RDT :: u16 where "REG_RDT = 0x2818"
definition REG_TDBAL :: u16 where "REG_TDBAL = 0x3800"
definition REG_TDBAH :: u16 where "REG_TDBAH = 0x3804"
definition REG_TDLEN :: u16 where "REG_TDLEN = 0x3808"
definition REG_TDH :: u16 where "REG_TDH = 0x3810"
definition REG_TDT :: u16 where "REG_TDT = 0x3818"
definition REG_MTA :: u16 where "REG_MTA = 0x5200"
definition REG_RAL :: u16 where "REG_RAL = 0x5400"
definition REG_RAH :: u16 where "REG_RAH = 0x5404"

definition CTRL_RST :: u32 where "CTRL_RST = push_bit 26 1"
definition CTRL_SLU :: u32 where "CTRL_SLU = push_bit 6 1"
definition CTRL_ASDE :: u32 where "CTRL_ASDE = push_bit 5 1"
definition RCTL_EN :: u32 where "RCTL_EN = push_bit 1 1"
definition RCTL_SBP :: u32 where "RCTL_SBP = push_bit 2 1"
definition RCTL_UPE :: u32 where "RCTL_UPE = push_bit 3 1"
definition RCTL_MPE :: u32 where "RCTL_MPE = push_bit 4 1"
definition RCTL_BAM :: u32 where "RCTL_BAM = push_bit 15 1"
definition RCTL_BSIZE_2048 :: u32 where "RCTL_BSIZE_2048 = push_bit 16 0"
definition RCTL_SECRC :: u32 where "RCTL_SECRC = push_bit 26 1"
definition TCTL_EN :: u32 where "TCTL_EN = push_bit 1 1"
definition TCTL_PSP :: u32 where "TCTL_PSP = push_bit 3 1"
definition TCTL_CT :: u32 where "TCTL_CT = push_bit 4 0x10"
definition TCTL_COLD :: u32 where "TCTL_COLD = push_bit 12 0x40"

section \<open>Registers and transmission\<close>

definition write_reg :: "'d mmio \<Rightarrow> u16 \<Rightarrow> u32 \<Rightarrow> ('d, 'z) nic_scheme \<Rightarrow> ('d, 'z) nic_scheme" where
  "write_reg mm reg val s = s\<lparr>nic_dev := mmio_write mm reg val (nic_dev s)\<rparr>"

definition read_reg :: "'d mmio \<Rightarrow> u16 \<Rightarrow> ('d, 'z) nic_scheme \<Rightarrow> u32 \<times> ('d, 'z) nic_scheme" where
  "read_reg mm reg s = (let (v, d) = mmio_read mm reg (nic_dev s) in (v, s\<lparr>nic_dev := d\<rparr>))"

definition e1000_read_mac :: "'d mmio \<Rightarrow> ('d, 'z) nic_scheme \<Rightarrow> ('d, 'z) nic_scheme" where
  "e1000_read_mac mm s =
     (let (low, s1) = read_reg mm REG_RAL s; (high, s2) = read_reg mm REG_RAH s1
      in s2\<lparr>mac_addr := [ucast (low AND 0xFF), ucast (drop_bit 8 low AND 0xFF), ucast (drop_bit 16 low AND 0xFF),
             ucast (drop_bit 24 low AND 0xFF), ucast (high AND 0xFF), ucast (drop_bit 8 high AND 0xFF)]\<rparr>)"

definition e1000_get_mac :: "('d, 'z) nic_scheme \<Rightarrow> u8 list" where
  "e1000_get_mac s = mac_addr s"

definition upd_tx :: "nat \<Rightarrow> (e1000_tx_desc_t \<Rightarrow> e1000_tx_desc_t) \<Rightarrow> ('d, 'z) nic_scheme \<Rightarrow> ('d, 'z) nic_scheme" where
  "upd_tx i f s = s\<lparr>tx_descs := (tx_descs s)[i := f (tx_descs s ! i)]\<rparr>"

text \<open>The wait for the card has no limit: the result is \<open>None\<close> when the status never becomes nonzero.\<close>

definition e1000_send_packet :: "'d mmio \<Rightarrow> u8 list \<Rightarrow> ('d, 'z) nic_scheme \<Rightarrow> ('d, 'z) nic_scheme option" where
  "e1000_send_packet mm data s =
     (let i = unat (tx_tail s);
          s1 = upd_tx i (\<lambda>d. d\<lparr>tx_length := of_nat (length data), tx_status := 0, tx_cmd := push_bit 3 1 OR push_bit 0 1\<rparr>) s;
          s2 = s1\<lparr>nic_mem := put_buffer (tx_addr (tx_descs s1 ! i)) data (nic_mem s1)\<rparr>;
          s3 = s2\<lparr>tx_tail := (tx_tail s2 + 1) mod of_nat NUM_TX_DESCS\<rparr>;
          s4 = write_reg mm REG_TDT (ucast (tx_tail s3)) s3;
          status = mmio_done mm (nic_dev s4)
      in if status AND 0xF = 0 then None else Some (upd_tx i (\<lambda>d. d\<lparr>tx_status := status\<rparr>) s4))"

text \<open>
  The call of \<open>e1000_send_packet\<close> at the end of \<open>net_send_eth\<close>: the frames that the network stack has sent since the last look go to
  the card in their order. Nothing in the stack reads the transmit ring, so this happens when a handler, a poll inside of it or a command
  has returned; a frame that the card never completes ends in \<open>None\<close>.
\<close>

fun send_frames :: "'d mmio \<Rightarrow> u8 list list \<Rightarrow> ('d, 'z) nic_scheme \<Rightarrow> ('d, 'z) nic_scheme option" where
  "send_frames mm [] s = Some s"
| "send_frames mm (f # fs) s = Option.bind (e1000_send_packet mm f s) (send_frames mm fs)"

definition transmit :: "'d mmio \<Rightarrow> ('d, 'z) nic_scheme \<Rightarrow> ('d, 'z) nic_scheme option" where
  "transmit mm s = send_frames mm (drop (tx_given s) (sent s)) (s\<lparr>tx_given := length (sent s)\<rparr>)"

section \<open>Reception\<close>

text \<open>A frame at an address of the memory goes to the handler of its port.\<close>

definition dispatch :: "(nat \<Rightarrow> (('d, 'z) nic_scheme \<Rightarrow> ('d, 'z) nic_scheme option) list) \<Rightarrow> (udp_fn, tcp_fn) upcall option \<Rightarrow>
    ('d, 'z) nic_scheme \<Rightarrow> ('d, 'z) nic_scheme option" where
  "dispatch polls u s =
     (case u of
        None \<Rightarrow> Some s
      | Some (UdpCall DhcpHandle src_ip src_port dst_port data len) \<Rightarrow> Some (dhcp_handle (mac_addr s) (nic_mem s) data len s)
      | Some (TcpCall TcpHandlePacket src_ip src_port dst_port tcp data len) \<Rightarrow>
          tcp_handle_packet polls (nic_mem s) src_ip src_port dst_port tcp s
      | _ \<Rightarrow> None)"

definition deliver :: "'d mmio \<Rightarrow> (nat \<Rightarrow> (('d, 'z) nic_scheme \<Rightarrow> ('d, 'z) nic_scheme option) list) \<Rightarrow> u64 \<Rightarrow> u16 \<Rightarrow>
    ('d, 'z) nic_scheme \<Rightarrow> ('d, 'z) nic_scheme option" where
  "deliver mm polls data len s =
     (let (u, s1) = net_handle_packet (nic_mem s) data len s in Option.bind (dispatch polls u s1) (transmit mm))"

text \<open>
  \<open>hw\<close> is what the card has done to the ring and the buffers since the last look at a status, and \<open>window\<close> is the number of
  polls that fit into the time that a send waits for a hardware address. The nesting of the polls is bounded by the fuel;
  running out of it is \<open>None\<close>.
\<close>

fun e1000_poll :: "'d mmio \<Rightarrow> (('d, 'z) nic_scheme \<Rightarrow> ('d, 'z) nic_scheme) \<Rightarrow> nat \<Rightarrow> nat \<Rightarrow>
    ('d, 'z) nic_scheme \<Rightarrow> ('d, 'z) nic_scheme option" where
  "e1000_poll mm hw window 0 s = None"
| "e1000_poll mm hw window (Suc n) s =
     (if mmio_base s = 0 then Some s
      else let s0 = hw s; d = rx_descs s0 ! unat (rx_cur s0)
           in if rx_status d AND 1 = 0 then Some s0
              else case deliver mm (\<lambda>k. replicate window (e1000_poll mm hw window n)) (rx_addr d) (rx_length d) s0 of
                     None \<Rightarrow> None
                   | Some s1 \<Rightarrow>
                       let i = unat (rx_cur s1);
                           s2 = s1\<lparr>rx_descs := (rx_descs s1)[i := (rx_descs s1 ! i)\<lparr>rx_status := 0\<rparr>]\<rparr>;
                           old_cur = rx_cur s2;
                           s3 = s2\<lparr>rx_cur := (rx_cur s2 + 1) mod of_nat NUM_RX_DESCS\<rparr>
                       in e1000_poll mm hw window n (write_reg mm REG_RDT (ucast old_cur) s3))"

declare e1000_poll.simps [simp del]

section \<open>Initialisation\<close>

text \<open>The machine around the driver: the ports, the page tables, the heap and the card.\<close>

record ('p, 'd) bus_state =
  ports :: 'p
  bus_vm :: vmm_state
  bus_heap :: kmalloc_state
  bus_nic :: "'d nic"

definition on_nic :: "('d nic \<Rightarrow> 'd nic) \<Rightarrow> ('p, 'd) bus_state \<Rightarrow> ('p, 'd) bus_state" where
  "on_nic f b = b\<lparr>bus_nic := f (bus_nic b)\<rparr>"

text \<open>One pass of the loop that maps the registers, 32 pages in all; \<open>cr3\<close> is the register of the CPU.\<close>

definition map_registers :: "u64 \<Rightarrow> u64 \<Rightarrow> vmm_state \<Rightarrow> vmm_state" where
  "map_registers cr3 phys_addr v =
     fold (\<lambda>k v. vmm_map cr3 (phys_addr + of_nat k * 4096) (phys_addr + of_nat k * 4096)
                   (PAGE_WRITABLE OR PAGE_PRESENT OR push_bit 3 1 OR push_bit 4 1) v) [0..<32] v"

definition set_bits :: "'d mmio \<Rightarrow> u16 \<Rightarrow> u32 \<Rightarrow> 'd nic \<Rightarrow> 'd nic" where
  "set_bits mm reg bits s = (let (v, s1) = read_reg mm reg s in write_reg mm reg (v OR bits) s1)"

definition write_regs :: "'d mmio \<Rightarrow> (u16 \<times> u32) list \<Rightarrow> 'd nic \<Rightarrow> 'd nic" where
  "write_regs mm ws s = fold (\<lambda>(reg, v). write_reg mm reg v) ws s"

definition align16 :: "u64 \<Rightarrow> u64" where
  "align16 p = (p + 15) AND NOT 15"

text \<open>The size of a receive descriptor is 14 bytes, of a transmit descriptor 16.\<close>

definition receive_ring :: "'d mmio \<Rightarrow> u64 \<Rightarrow> u64 \<Rightarrow> 'd nic \<Rightarrow> 'd nic" where
  "receive_ring mm ring buffers s =
     write_regs mm [(REG_RDBAL, ucast ring), (REG_RDBAH, ucast (drop_bit 32 ring)), (REG_RDLEN, of_nat NUM_RX_DESCS * 14),
         (REG_RDH, 0), (REG_RDT, of_nat NUM_RX_DESCS - 1),
         (REG_RCTL, RCTL_EN OR RCTL_SBP OR RCTL_UPE OR RCTL_MPE OR RCTL_BAM OR RCTL_SECRC OR RCTL_BSIZE_2048)]
       (s\<lparr>rx_ring := ring, rx_buffers := buffers,
          rx_descs := map (\<lambda>i. \<lparr>rx_addr = buffers + of_nat i * 2048, rx_length = 0, rx_status = 0, rx_errors = 0, rx_special = 0\<rparr>)
            [0..<NUM_RX_DESCS]\<rparr>)"

definition transmit_ring :: "'d mmio \<Rightarrow> u64 \<Rightarrow> u64 \<Rightarrow> 'd nic \<Rightarrow> 'd nic" where
  "transmit_ring mm ring buffers s =
     write_regs mm [(REG_TDBAL, ucast ring), (REG_TDBAH, ucast (drop_bit 32 ring)), (REG_TDLEN, of_nat NUM_TX_DESCS * 16),
         (REG_TDH, 0), (REG_TDT, 0), (REG_TIPG, 0x0060200A), (REG_TCTL, TCTL_EN OR TCTL_PSP OR TCTL_CT OR TCTL_COLD)]
       (s\<lparr>tx_ring := ring, tx_buffers := buffers,
          tx_descs := map (\<lambda>i. \<lparr>tx_addr = buffers + of_nat i * 2048, tx_length = 0, tx_cso = 0, tx_cmd = 0, tx_status = 0,
            tx_css = 0, tx_special = 0\<rparr>) [0..<NUM_TX_DESCS]\<rparr>)"

definition bus_kmalloc :: "u64 \<Rightarrow> ('p, 'd) bus_state \<Rightarrow> (u64 \<times> ('p, 'd) bus_state) option" where
  "bus_kmalloc n b = map_option (\<lambda>(p, h). (p, b\<lparr>bus_heap := h\<rparr>)) (kmalloc n (bus_heap b))"

definition e1000_init :: "'p port_io32 \<Rightarrow> 'd mmio \<Rightarrow> u64 \<Rightarrow> u8 \<Rightarrow> u8 \<Rightarrow> u8 \<Rightarrow> ('p, 'd) bus_state \<Rightarrow> ('p, 'd) bus_state option" where
  "e1000_init io mm cr3 bus slot func b =
     (let (bar0, p1) = pci_config_read io bus slot func 0x10 (ports b);
          phys_addr = ucast (bar0 AND NOT 0xF);
          b1 = b\<lparr>ports := p1, bus_vm := map_registers cr3 phys_addr (bus_vm b), bus_nic := (bus_nic b)\<lparr>mmio_base := phys_addr\<rparr>\<rparr>;
          (command, p2) = pci_config_read io bus slot func 0x04 (ports b1);
          b2 = b1\<lparr>ports := pci_config_write io bus slot func 0x04 (command OR push_bit 2 1 OR push_bit 1 1) p2\<rparr>;
          b3 = on_nic (\<lambda>s. e1000_read_mac mm (write_regs mm (map (\<lambda>i. (REG_MTA + of_nat i * 4, 0)) [0..<128])
                 (set_bits mm REG_CTRL (CTRL_SLU OR CTRL_ASDE) (set_bits mm REG_CTRL CTRL_RST s)))) b2
      in Option.bind (bus_kmalloc (14 * of_nat NUM_RX_DESCS + 16) b3) (\<lambda>(ring, b4).
         Option.bind (bus_kmalloc (of_nat NUM_RX_DESCS * 2048 + 16) b4) (\<lambda>(buffers, b5).
         let b6 = on_nic (receive_ring mm (align16 ring) (align16 buffers)) b5
         in Option.bind (bus_kmalloc (16 * of_nat NUM_TX_DESCS + 16) b6) (\<lambda>(ring', b7).
            Option.bind (bus_kmalloc (of_nat NUM_TX_DESCS * 2048 + 16) b7) (\<lambda>(buffers', b8).
            Some (on_nic (transmit_ring mm (align16 ring') (align16 buffers')) b8))))))"

section \<open>Enumeration of the bus\<close>

definition E1000_VENDOR_ID :: u16 where "E1000_VENDOR_ID = 0x8086"
definition E1000_DEVICE_ID :: u16 where "E1000_DEVICE_ID = 0x100E"

text \<open>The other functions of a device are only read for the log.\<close>

definition scan_function :: "'p port_io32 \<Rightarrow> u8 \<Rightarrow> u8 \<Rightarrow> u8 \<Rightarrow> 'p \<Rightarrow> 'p" where
  "scan_function io bus device function p =
     (let (reg0, p1) = pci_config_read io bus device function 0 p
      in if (ucast reg0 :: u16) \<noteq> 0xFFFF then snd (pci_config_read io bus device function 8 p1) else p1)"

definition pci_check_device :: "'p port_io32 \<Rightarrow> 'd mmio \<Rightarrow> u64 \<Rightarrow> u8 \<Rightarrow> u8 \<Rightarrow> ('p, 'd) bus_state \<Rightarrow> ('p, 'd) bus_state option" where
  "pci_check_device io mm cr3 bus device b =
     (let (reg0, p1) = pci_config_read io bus device 0 0 (ports b); vendor_id = (ucast reg0 :: u16)
      in if vendor_id = 0xFFFF then Some (b\<lparr>ports := p1\<rparr>)
         else let device_id = (ucast (drop_bit 16 reg0) :: u16);
                  (reg8, p2) = pci_config_read io bus device 0 8 p1;
                  b1 = b\<lparr>ports := p2\<rparr>
              in Option.bind (if vendor_id = E1000_VENDOR_ID \<and> device_id = E1000_DEVICE_ID
                              then e1000_init io mm cr3 bus device 0 b1 else Some b1) (\<lambda>b2.
                   let (reg12, p3) = pci_config_read io bus device 0 0x0C (ports b2);
                       header_type = (ucast (drop_bit 16 reg12) :: u8)
                   in Some (b2\<lparr>ports := if header_type AND 0x80 \<noteq> 0
                        then fold (scan_function io bus device) [1, 2, 3, 4, 5, 6, 7] p3 else p3\<rparr>)))"

definition pci_init :: "'p port_io32 \<Rightarrow> 'd mmio \<Rightarrow> u64 \<Rightarrow> ('p, 'd) bus_state \<Rightarrow> ('p, 'd) bus_state option" where
  "pci_init io mm cr3 b =
     fold (\<lambda>bus r. fold (\<lambda>device r. Option.bind r (pci_check_device io mm cr3 (of_nat bus) (of_nat device))) [0..<32] r) [0..<256] (Some b)"

section \<open>A segment that makes the driver poll itself\<close>

text \<open>The card leaves a descriptor that it has handed over, and its buffer, alone until the driver gives it back.\<close>

definition hw_ok :: "(('d, 'z) nic_scheme \<Rightarrow> ('d, 'z) nic_scheme) \<Rightarrow> bool" where
  "hw_ok hw \<longleftrightarrow> (\<forall>t. \<exists>ds m. hw t = t\<lparr>rx_descs := ds, nic_mem := m\<rparr> \<and>
     (\<forall>i. rx_status (rx_descs t ! i) AND 1 \<noteq> 0 \<longrightarrow> ds ! i = rx_descs t ! i \<and>
        (\<forall>k<2048. m (rx_addr (rx_descs t ! i) + k) = nic_mem t (rx_addr (rx_descs t ! i) + k))))"

text \<open>A received SYN to a bound port from an address that is neither connected nor in the ARP cache.\<close>

definition stray_syn_at :: "memory \<Rightarrow> u64 \<Rightarrow> u16 \<Rightarrow> ('u, 'z) tcp_vars_scheme \<Rightarrow> bool" where
  "stray_syn_at m p len s \<longleftrightarrow> 54 \<le> len \<and> swap16 (load16 m (p + 12)) = ETHERTYPE_IPV4 \<and> bytes m (p + 30) 4 = my_ip s \<and>
     m (p + 14) = 0x45 \<and> m (p + 23) = IPV4_PROTO_TCP \<and> 40 \<le> swap16 (load16 m (p + 16)) \<and> m (p + 46) = 0x50 \<and>
     m (p + 47) AND TCP_FLAG_SYN \<noteq> 0 \<and>
     find_binding (swap16 (load16 m (p + 36))) (tcp_bindings s) = Some TcpHandlePacket \<and>
     arp_lookup (bytes m (p + 26) 4) s = None \<and>
     first_index (conn_matches (bytes m (p + 26) 4) (swap16 (load16 m (p + 34))) (swap16 (load16 m (p + 36)))) (connections s) = None"

definition stray_syn :: "('d, 'z) nic_scheme \<Rightarrow> bool" where
  "stray_syn s \<longleftrightarrow> mmio_base s \<noteq> 0 \<and> rx_status (rx_descs s ! unat (rx_cur s)) AND 1 \<noteq> 0 \<and>
     stray_syn_at (nic_mem s) (rx_addr (rx_descs s ! unat (rx_cur s))) (rx_length (rx_descs s ! unat (rx_cur s))) s"

lemma stray_syn_at_cong:
  assumes "\<And>k. k < 2048 \<Longrightarrow> m' (p + k) = m (p + k)" "my_ip t = my_ip s" "tcp_bindings t = tcp_bindings s" "arp_cache t = arp_cache s"
    "connections t = connections s"
  shows "stray_syn_at m' p len t = stray_syn_at m p len s"
proof -
  have "load16 m' (p + 12) = load16 m (p + 12)" "load16 m' (p + 16) = load16 m (p + 16)" "load16 m' (p + 34) = load16 m (p + 34)"
    "load16 m' (p + 36) = load16 m (p + 36)" "m' (p + 14) = m (p + 14)" "m' (p + 23) = m (p + 23)" "m' (p + 46) = m (p + 46)"
    "m' (p + 47) = m (p + 47)" "bytes m' (p + 30) 4 = bytes m (p + 30) 4" "bytes m' (p + 26) 4 = bytes m (p + 26) 4"
    by (simp_all add: load16_def bytes_def upt_rec assms(1) add.assoc)
  then show ?thesis using assms(2-5) by (simp add: stray_syn_at_def arp_lookup_def)
qed

lemma stray_syn_hw: "hw_ok hw \<Longrightarrow> stray_syn t \<Longrightarrow> stray_syn (hw t)"
proof -
  assume hw: "hw_ok hw" and t: "stray_syn t"
  let ?d = "rx_descs t ! unat (rx_cur t)"
  obtain ds m where eq: "hw t = t\<lparr>rx_descs := ds, nic_mem := m\<rparr>" and ds: "ds ! unat (rx_cur t) = ?d"
    and m: "\<forall>k<2048. m (rx_addr ?d + k) = nic_mem t (rx_addr ?d + k)"
    using hw t unfolding hw_ok_def stray_syn_def by blast
  have "stray_syn_at m (rx_addr ?d) (rx_length ?d) (hw t) = stray_syn_at (nic_mem t) (rx_addr ?d) (rx_length ?d) t"
    unfolding eq using m by (intro stray_syn_at_cong) simp_all
  then show ?thesis using t ds by (simp add: stray_syn_def eq)
qed

lemma stray_syn_request: "stray_syn t \<Longrightarrow> stray_syn (net_send_arp_request ip (t\<lparr>rx_packet_count := n\<rparr>))"
proof -
  assume t: "stray_syn t"
  let ?u = "net_send_arp_request ip (t\<lparr>rx_packet_count := n\<rparr>)"
  let ?d = "rx_descs t ! unat (rx_cur t)"
  have "stray_syn_at (nic_mem t) (rx_addr ?d) (rx_length ?d) ?u = stray_syn_at (nic_mem t) (rx_addr ?d) (rx_length ?d) t"
    by (rule stray_syn_at_cong) (simp_all add: net_send_arp_request_def net_send_eth_def Let_def)
  then show ?thesis using t by (simp add: stray_syn_def net_send_arp_request_def net_send_eth_def Let_def)
qed

lemma stray_syn_upcall:
  assumes "stray_syn_at m p len s"
  shows "net_handle_packet m p len s = (Some (TcpCall TcpHandlePacket (bytes m (p + 26) 4) (swap16 (load16 m (p + 34)))
    (swap16 (load16 m (p + 36))) (p + 34) (p + 54) (swap16 (load16 m (p + 16)) - 40)), s\<lparr>rx_packet_count := rx_packet_count s + 1\<rparr>)"
proof -
  note a = assms [unfolded stray_syn_at_def]
  let ?n = "swap16 (load16 m (p + 16))"
  let ?s1 = "s\<lparr>rx_packet_count := rx_packet_count s + 1\<rparr>"
  have addr: "p + 14 + 16 = p + 30" "p + 14 + 2 = p + 16" "p + 14 + 9 = p + 23" "p + 14 + 20 = p + 34" "p + 14 + 12 = p + 26"
    "p + 34 + 2 = p + 36" "p + 34 + 12 = p + 46" "p + 34 + 20 = p + 54" by (simp_all add: algebra_simps)
  have l: "54 \<le> unat len" and n: "40 \<le> unat ?n" using a by (simp_all add: word_le_nat_alt)
  then have "unat (len - 14) = unat len - 14" "unat (?n - 20) = unat ?n - 20"
    by (simp_all add: unat_minus_no_wrap word_le_nat_alt)
  with l n have guards: "\<not> len < 14" "\<not> len - 14 < 20" "\<not> ?n - 20 < 20" "?n - 20 - 20 = ?n - 40"
    by (simp_all add: word_less_nat_alt word_le_nat_alt)
  have hl: "ucast ((0x45 AND 0x0F) * 4 :: u8) = (20 :: u64)" "ucast ((0x45 AND 0x0F) * 4 :: u8) = (20 :: u16)"
    "drop_bit 4 (0x50 :: u8) * 4 = 20" "ucast (20 :: u8) = (20 :: u16)" "ucast (20 :: u8) = (20 :: u64)" by simp_all
  have tcp: "net_handle_tcp m (p + 14) (p + 34) (?n - 20) ?s1 = Some (TcpCall TcpHandlePacket (bytes m (p + 26) 4)
      (swap16 (load16 m (p + 34))) (swap16 (load16 m (p + 36))) (p + 34) (p + 54) (?n - 40))"
    using a guards(3,4) hl unfolding net_handle_tcp_def Let_def addr by simp
  have "net_handle_ipv4 m (bytes m (p + 6) 6) (p + 14) (len - 14) ?s1 = (net_handle_tcp m (p + 14) (p + 34) (?n - 20) ?s1, ?s1)"
    using a guards(2) hl unfolding net_handle_ipv4_def Let_def addr
    by (simp add: IPV4_PROTO_TCP_def IPV4_PROTO_ICMP_def IPV4_PROTO_UDP_def add.commute [of 34 p])
  then show ?thesis using a guards(1) tcp
    by (simp add: net_handle_packet_def Let_def ETHERTYPE_IPV4_def ETHERTYPE_ARP_def)
qed

text \<open>C28. A SYN from an unknown host to a port that was ever bound: the reset that answers it waits for the hardware address of the host,
  the wait polls the card, and the descriptor of the SYN is still marked as received, so the poll handles the same frame
  again. No depth of nesting is enough for the poll to return, whatever the card does meanwhile.\<close>

theorem stray_syn_never_returns:
  assumes "hw_ok hw" "stray_syn s" "0 < window"
  shows "e1000_poll mm hw window n s = None"
  using assms(2)
proof (induction n arbitrary: s)
  case (Suc n)
  let ?s = "hw s" and ?polls = "\<lambda>k :: nat. replicate window (e1000_poll mm hw window n)"
  let ?d = "rx_descs ?s ! unat (rx_cur ?s)"
  have hw: "stray_syn ?s" using assms(1) Suc.prems by (rule stray_syn_hw)
  have base: "mmio_base s \<noteq> 0" using Suc.prems by (simp add: stray_syn_def)
  have syn: "stray_syn_at (nic_mem ?s) (rx_addr ?d) (rx_length ?d) ?s" "rx_status ?d AND 1 \<noteq> 0"
    using hw by (simp_all add: stray_syn_def)
  note at = syn(1) [unfolded stray_syn_at_def]
  let ?src = "bytes (nic_mem ?s) (rx_addr ?d + 26) 4"
  let ?u = "?s\<lparr>rx_packet_count := rx_packet_count ?s + 1\<rparr>"
  obtain k where w: "window = Suc k" using assms(3) gr0_implies_Suc by blast
  have "e1000_poll mm hw window n (net_send_arp_request ?src ?u) = None"
    by (rule Suc.IH) (rule stray_syn_request [OF hw])
  then have "await_arp ?src (?polls 0) (net_send_arp_request ?src ?u) = None" by (simp add: w)
  moreover have "arp_lookup ?src ?u = None" "connections ?u = connections ?s" "nic_mem ?u = nic_mem ?s"
    using at by (simp_all add: arp_lookup_def)
  moreover have "rx_addr ?d + 34 + 13 = rx_addr ?d + 47" by simp
  ultimately have "dispatch ?polls (Some (TcpCall TcpHandlePacket ?src (swap16 (load16 (nic_mem ?s) (rx_addr ?d + 34)))
      (swap16 (load16 (nic_mem ?s) (rx_addr ?d + 36))) (rx_addr ?d + 34) (rx_addr ?d + 54)
      (swap16 (load16 (nic_mem ?s) (rx_addr ?d + 16)) - 40))) ?u = None"
    using at by (simp add: dispatch_def tcp_handle_packet_def Let_def net_send_tcp_def resolve_def add.commute [of 47])
  then have "deliver mm ?polls (rx_addr ?d) (rx_length ?d) ?s = None"
    by (simp add: deliver_def stray_syn_upcall [OF syn(1)])
  then show ?case using base syn(2) by (simp add: e1000_poll.simps(2) Let_def)
qed (simp add: e1000_poll.simps)

text \<open>A card with a received SYN from 10.9.9.9 to the bound port 49152, whose sender is not in the ARP cache.\<close>

definition stray_frame :: memory where
  "stray_frame = put_list 0x1000 ([1, 2, 3, 4, 5, 6, 0xA, 0xB, 0xC, 0xD, 0xE, 0xF, 8, 0] @
     [0x45, 0, 0, 40, 0, 0, 0, 0, 64, 6, 0, 0, 10, 9, 9, 9, 10, 0, 2, 15] @
     [0, 80, 0xC0, 0, 0, 0, 0, 5, 0, 0, 0, 0, 0x50, 2, 0, 0, 0, 0, 0, 0])"

definition nic0 :: "unit nic" where
  "nic0 = \<lparr>rx_packet_count = 0, tx_packet_count = 0, my_ip = [10, 0, 2, 15], my_mac = [1, 2, 3, 4, 5, 6], arp_cache = [],
     udp_bindings = [], tcp_bindings = [\<lparr>bind_port = 49152, bind_handler = TcpHandlePacket, bind_valid = True\<rparr>],
     sent = [], overrun = False, connections = [], next_local_port = 49153,
     dhcp_xid = 0, dhcp_offered_ip = [], dhcp_server_ip = [], mmio_base = 0xFEB00000, nic_dev = (), rx_ring = 0, tx_ring = 0,
     rx_descs = [\<lparr>rx_addr = 0x1000, rx_length = 54, rx_status = 1, rx_errors = 0, rx_special = 0\<rparr>],
     tx_descs = map (\<lambda>i. \<lparr>tx_addr = 0x10000 + of_nat i * 2048, tx_length = 0, tx_cso = 0, tx_cmd = 0, tx_status = 0, tx_css = 0,
       tx_special = 0\<rparr>) [0..<128],
     rx_buffers = 0x1000, tx_buffers = 0x10000, tx_tail = 0, rx_cur = 0, mac_addr = [1, 2, 3, 4, 5, 6], nic_mem = stray_frame, tx_given = 0\<rparr>"

definition null_mmio :: "unit mmio" where
  "null_mmio = \<lparr>mmio_read = \<lambda>r d. (0, d), mmio_write = \<lambda>r v d. d, mmio_done = \<lambda>d. 1\<rparr>"

theorem stray_syn_never_returns_witness: "\<forall>n. e1000_poll null_mmio id 10 n nic0 = None"
proof -
  have "hw_ok (id :: unit nic \<Rightarrow> unit nic)" unfolding hw_ok_def id_apply
    by (intro allI) (rule_tac x = "rx_descs t" in exI, rule_tac x = "nic_mem t" in exI, simp)
  moreover have "stray_syn nic0"
    by (simp add: stray_syn_def stray_syn_at_def nic0_def stray_frame_def put_list_def load16_def swap16_def bytes_def upt_rec
        ETHERTYPE_IPV4_def IPV4_PROTO_TCP_def TCP_FLAG_SYN_def find_binding_def arp_lookup_def)
  ultimately show ?thesis using stray_syn_never_returns [of id nic0 10 null_mmio] by simp
qed

section \<open>Transmission\<close>

definition tx_ok :: "('d, 'z) nic_scheme \<Rightarrow> bool" where
  "tx_ok s \<longleftrightarrow> length (tx_descs s) = 128 \<and> unat (tx_tail s) < 128 \<and>
     (\<forall>i<128. tx_addr (tx_descs s ! i) = tx_buffers s + of_nat i * 2048)"

lemma buffer_apart:
  assumes "i < 128" "j < 128" "i \<noteq> j" "k < 2048"
  shows "2048 \<le> unat ((base + of_nat j * 2048 + of_nat k) - (base + of_nat i * 2048) :: u64)"
proof (cases "i < j")
  case True
  have "(base + of_nat j * 2048 + of_nat k) - (base + of_nat i * 2048) = (of_nat (j * 2048 + k - i * 2048) :: u64)"
    using True by (simp add: of_nat_diff algebra_simps)
  moreover have "unat (of_nat (j * 2048 + k - i * 2048) :: u64) = j * 2048 + k - i * 2048"
    using assms by (intro unat_of_nat_small) simp
  moreover have "2048 \<le> j * 2048 + k - i * 2048" using True by simp
  ultimately show ?thesis by presburger
next
  case False
  then have lt: "j < i" using assms(3) by simp
  let ?n = "i * 2048 - (j * 2048 + k)"
  have n: "0 < ?n" "?n < 2 ^ 18" using lt assms by simp_all
  have "(base + of_nat j * 2048 + of_nat k) - (base + of_nat i * 2048) = - (of_nat ?n :: u64)"
    using lt assms(4) by (simp add: of_nat_diff algebra_simps)
  moreover have "unat (of_nat ?n :: u64) = ?n" using n by (intro unat_of_nat_small) simp
  moreover have "unat (- x) = 2 ^ 64 - unat x" if "x \<noteq> 0" for x :: u64
    using that unat_sub_if' [of 0 x] by (auto simp: unat_eq_0)
  ultimately have "unat ((base + of_nat j * 2048 + of_nat k) - (base + of_nat i * 2048) :: u64) = 2 ^ 64 - ?n"
    using n by (metis less_irrefl unat_0)
  then show ?thesis using n by simp
qed

lemma put_buffer_bytes: "length data < 2 ^ 64 \<Longrightarrow> bytes (put_buffer a data m) a (length data) = data"
  by (rule nth_equalityI) (simp_all add: bytes_def put_buffer_def unat_of_nat_small)

text \<open>Sending a frame of at most 2048 bytes puts it into the buffer of the current descriptor and into no other buffer, hands the
  descriptor to the card with its length, and moves the tail of the ring by one.\<close>

theorem e1000_send_correct:
  assumes "tx_ok s" "length data \<le> 2048" "\<And>d. mmio_done mm d AND 0xF \<noteq> 0" "i = unat (tx_tail s)"
  shows "\<exists>t. e1000_send_packet mm data s = Some t \<and> tx_ok t \<and> unat (tx_tail t) = (i + 1) mod 128 \<and>
    nic_dev t = mmio_write mm REG_TDT (of_nat ((i + 1) mod 128)) (nic_dev s) \<and>
    tx_length (tx_descs t ! i) = of_nat (length data) \<and> tx_cmd (tx_descs t ! i) = 9 \<and>
    bytes (nic_mem t) (tx_buffers s + of_nat i * 2048) (length data) = data \<and>
    (\<forall>j. j < 128 \<and> j \<noteq> i \<longrightarrow> tx_descs t ! j = tx_descs s ! j \<and>
       bytes (nic_mem t) (tx_buffers s + of_nat j * 2048) 2048 = bytes (nic_mem s) (tx_buffers s + of_nat j * 2048) 2048)"
proof -
  have i: "i < 128" and ds: "length (tx_descs s) = 128" "\<And>j. j < 128 \<Longrightarrow> tx_addr (tx_descs s ! j) = tx_buffers s + of_nat j * 2048"
    using assms(1,4) by (auto simp: tx_ok_def)
  have tail: "unat ((tx_tail s + 1) mod (of_nat NUM_TX_DESCS :: u16)) = (i + 1) mod 128"
    using i assms(4) by (simp add: unat_mod NUM_TX_DESCS_def unat_plus_no_wrap)
  then have tail': "ucast ((tx_tail s + 1) mod (of_nat NUM_TX_DESCS :: u16)) = (of_nat ((i + 1) mod 128) :: u32)"
    by (metis of_nat_unat)
  obtain t where t: "e1000_send_packet mm data s = Some t" "tx_tail t = (tx_tail s + 1) mod of_nat NUM_TX_DESCS"
    "nic_dev t = mmio_write mm REG_TDT (ucast ((tx_tail s + 1) mod (of_nat NUM_TX_DESCS :: u16))) (nic_dev s)"
    "nic_mem t = put_buffer (tx_buffers s + of_nat i * 2048) data (nic_mem s)" "tx_buffers t = tx_buffers s"
    "\<exists>st. tx_descs t = (tx_descs s)[i := (tx_descs s ! i)\<lparr>tx_length := of_nat (length data), tx_cmd := 9, tx_status := st\<rparr>]"
    using assms(3) i ds by (auto simp: e1000_send_packet_def Let_def upd_tx_def write_reg_def assms(4) [symmetric])
  obtain st where st: "tx_descs t = (tx_descs s)[i := (tx_descs s ! i)\<lparr>tx_length := of_nat (length data), tx_cmd := 9, tx_status := st\<rparr>]"
    using t(6) by blast
  have ok: "tx_ok t" unfolding tx_ok_def st t(5) using ds i tail t(2) by (auto simp: nth_list_update)
  have other: "bytes (nic_mem t) (tx_buffers s + of_nat j * 2048) 2048 = bytes (nic_mem s) (tx_buffers s + of_nat j * 2048) 2048"
    if "j < 128" "j \<noteq> i" for j
  proof -
    have "\<not> unat ((tx_buffers s + of_nat j * 2048 + of_nat k) - (tx_buffers s + of_nat i * 2048)) < length data" if "k < 2048" for k
      using buffer_apart [of i j k "tx_buffers s"] i \<open>j < 128\<close> \<open>j \<noteq> i\<close> that assms(2) by linarith
    then show ?thesis unfolding t(4) by (simp add: bytes_def put_buffer_def)
  qed
  have "bytes (nic_mem t) (tx_buffers s + of_nat i * 2048) (length data) = data"
    unfolding t(4) using assms(2) by (intro put_buffer_bytes) simp
  then show ?thesis using t(1-3) ok tail tail' st ds(1) i other
    by (intro exI [of _ t]) simp
qed

theorem e1000_send_correct_witness:
  "\<exists>t. e1000_send_packet null_mmio [1, 2, 3] nic0 = Some t \<and> tx_tail t = 1 \<and> bytes (nic_mem t) 0x10000 3 = [1, 2, 3]"
proof -
  have a: "tx_ok nic0" "length [1, 2, 3 :: u8] \<le> 2048" "\<And>d. mmio_done null_mmio d AND 0xF \<noteq> 0" "0 = unat (tx_tail nic0)"
    by (simp_all add: tx_ok_def nic0_def null_mmio_def)
  have "tx_buffers nic0 = 0x10000" by (simp add: nic0_def)
  with e1000_send_correct [OF a] show ?thesis by (auto simp: word_unat_eq_iff numeral_3_eq_3)
qed

text \<open>A longer frame runs into the buffer of the next descriptor.\<close>

theorem e1000_send_overrun:
  assumes "tx_ok s" "2048 < length data" "length data < 65536" "e1000_send_packet mm data s = Some t" "unat (tx_tail s) < 127"
  shows "nic_mem t (tx_addr (tx_descs s ! (unat (tx_tail s) + 1))) = data ! 2048"
proof -
  let ?i = "unat (tx_tail s)"
  have "nic_mem t = put_buffer (tx_addr (tx_descs s ! ?i)) data (nic_mem s)"
    using assms(1,4) by (auto simp: e1000_send_packet_def Let_def upd_tx_def write_reg_def tx_ok_def split: if_splits)
  moreover have "tx_addr (tx_descs s ! (?i + 1)) - tx_addr (tx_descs s ! ?i) = 2048"
    using assms(1,5) by (simp add: tx_ok_def algebra_simps)
  ultimately show ?thesis using assms(2) by (simp add: put_buffer_def)
qed

section \<open>Draining the receive ring\<close>





















text \<open>The descriptors from the read position on, once around the ring, and those of them that hold received frames.\<close>

definition ring :: "('d, 'z) nic_scheme \<Rightarrow> e1000_rx_desc_t list" where
  "ring s = rotate (unat (rx_cur s)) (rx_descs s)"










section \<open>Properties\<close>




end
