(* ===== verification/Fault.thy ===== *)
theory Fault
  imports Vmm CString
begin

text \<open>
  Copy on write (\<open>handle_page_fault\<close> of src/kernel/idt.c): what the handler does to the page tables, the frames and the
  memory, as operations of \<open>vmm_state\<close>. The handler itself, with the tasks, is in \<open>Idt\<close>.
\<close>

section \<open>The split of a shared page\<close>

text \<open>A load through the MMU; a load from an unmapped address does not happen here.\<close>

definition mmu_load :: "vmm_state \<Rightarrow> u64 \<Rightarrow> u64 \<Rightarrow> u8" where
  "mmu_load s cr3 v = (case translate s cr3 v of None \<Rightarrow> 0 | Some (pa, fl, n) \<Rightarrow> phys_mem s pa)"

text \<open>\<open>memcpy(dst, src, 4096)\<close> into a frame, which the kernel sees at its physical address, from a virtual page.\<close>

definition copy_page :: "u64 \<Rightarrow> u64 \<Rightarrow> u64 \<Rightarrow> vmm_state \<Rightarrow> vmm_state" where
  "copy_page dst cr3 src s =
     s\<lparr>phys_mem := put_buffer dst (map (\<lambda>k. mmu_load s cr3 (src + of_nat k)) [0..<4096]) (phys_mem s)\<rparr>"

definition cow_fault :: "u64 \<Rightarrow> u64 \<Rightarrow> u64 \<Rightarrow> vmm_state \<Rightarrow> vmm_state" where
  "cow_fault pml4 cr3 cr2 s =
     (let flags = vmm_get_flags pml4 cr2 s;
          old_phys = vmm_get_phys pml4 cr2 s AND NOT 0xFFF;
          new_flags = (flags AND NOT PAGE_COW) OR PAGE_WRITABLE
      in if pmm_get_ref old_phys (frames s) > 1
         then let (new_frame, s1) = alloc_frame s;
                  s2 = copy_page new_frame cr3 (cr2 AND NOT 0xFFF) s1;
                  s3 = vmm_map pml4 (cr2 AND NOT 0xFFF) new_frame new_flags s2
              in free_frame old_phys s3
         else vmm_map pml4 (cr2 AND NOT 0xFFF) old_phys new_flags s)"

section \<open>Pages of memory\<close>

lemma unat_page_offset:
  assumes "page_aligned t" "k < (4096 :: nat)"
  shows "unat (t + of_nat k) = unat t + k"
proof -
  have "unat (of_nat k :: u64) = k" using assms(2) by (intro unat_of_nat_small) simp
  then show ?thesis using page_room [OF assms(1)] assms(2) by (subst unat_plus_no_wrap) simp_all
qed

lemma page_offset_inj:
  assumes "page_aligned t" "page_aligned u" "k < 4096" "l < 4096"
  shows "t + of_nat k = u + of_nat l \<longleftrightarrow> t = u \<and> k = l"
proof
  assume "t + of_nat k = u + of_nat l"
  then have "unat t + k = unat u + l" using unat_page_offset assms by metis
  moreover have "unat t = 4096 * (unat t div 4096)" "unat u = 4096 * (unat u div 4096)"
    using assms(1,2) mult_div_mod_eq [of 4096 "unat t"] mult_div_mod_eq [of 4096 "unat u"] by (simp_all add: page_aligned_def)
  ultimately have "4096 * (unat t div 4096) + k = 4096 * (unat u div 4096) + l" by simp
  then have "(4096 * (unat t div 4096) + k) div 4096 = (4096 * (unat u div 4096) + l) div 4096" by simp
  then have "unat t div 4096 = unat u div 4096" using assms(3,4) by simp
  with \<open>unat t + k = unat u + l\<close> \<open>unat t = _\<close> \<open>unat u = _\<close> show "t = u \<and> k = l"
    by (metis add_left_cancel word_unat_eq_iff)
qed simp

text \<open>The byte of a page that an address inside a cell of it names.\<close>

lemma cell_byte: "i < 512 \<Longrightarrow> j < 8 \<Longrightarrow> t + 8 * i + of_nat j = t + of_nat (8 * unat i + j) \<and> 8 * unat i + j < 4096"
  for i :: u64
  by (simp add: word_less_iff_unat of_nat_add of_nat_mult)

lemma store_other_page:
  assumes "page_aligned t" "page_aligned f" "t \<noteq> f" "i < 512" "k < 4096"
  shows "store64 m (t + 8 * i) v (f + of_nat k) = m (f + of_nat k)"
proof -
  have "\<not> f + of_nat k - (t + 8 * i) < 8"
  proof
    assume less: "f + of_nat k - (t + 8 * i) < 8"
    define j where "j = unat (f + of_nat k - (t + 8 * i))"
    have "j < 8" using less by (simp add: j_def word_less_nat_alt)
    moreover have "f + of_nat k = t + 8 * i + of_nat j" by (simp add: j_def)
    ultimately have "f + of_nat k = t + of_nat (8 * unat i + j)" "8 * unat i + j < 4096"
      using cell_byte [OF assms(4), of j t] by simp_all
    then show False using page_offset_inj [OF assms(2,1) assms(5)] assms(3) by metis
  qed
  then show ?thesis by (simp add: store64_def)
qed

lemma put_buffer_outside: "\<not> unat (x - a) < length bs \<Longrightarrow> put_buffer a bs m x = m x"
  by (simp add: put_buffer_def)

lemma put_page_other:
  assumes "page_aligned a" "page_aligned t" "a \<noteq> t" "k < 4096" "length bs = 4096"
  shows "put_buffer a bs m (t + of_nat k) = m (t + of_nat k)"
proof (rule put_buffer_outside)
  show "\<not> unat (t + of_nat k - a) < length bs"
  proof
    assume "unat (t + of_nat k - a) < length bs"
    moreover have "t + of_nat k = a + of_nat (unat (t + of_nat k - a))" by simp
    ultimately show False
      using page_offset_inj [OF assms(2,1) assms(4), of "unat (t + of_nat k - a)"] assms(3,5) by metis
  qed
qed

lemma put_page_inside:
  assumes "k < 4096" "length bs = 4096"
  shows "put_buffer a bs m (a + of_nat k) = bs ! k"
proof -
  have "unat (of_nat k :: u64) = k" using assms(1) by (intro unat_of_nat_small) simp
  then show ?thesis using assms by (simp add: put_buffer_def)
qed

lemma entry_put_page:
  assumes "page_aligned a" "page_aligned t" "a \<noteq> t" "i < 512" "length bs = 4096"
  shows "entry (s\<lparr>phys_mem := put_buffer a bs m\<rparr>) t i = load64 m (t + 8 * i)"
  unfolding entry_def
proof (simp, rule load64_cong)
  fix j :: u64 assume "j < 8"
  then have "unat j < 8" by (simp add: word_less_nat_alt)
  then have "t + 8 * i + j = t + of_nat (8 * unat i + unat j)" "8 * unat i + unat j < 4096"
    using cell_byte [OF assms(4), of "unat j" t] by simp_all
  then show "put_buffer a bs m (t + 8 * i + j) = m (t + 8 * i + j)"
    using put_page_other [OF assms(1-3) _ assms(5)] by metis
qed

section \<open>Page tables under the handler\<close>

text \<open>A state whose tables hold the same entries is as well formed and translates the same.\<close>

lemma vm_wf_cong:
  assumes wf: "vm_wf s lvl p" and inv: "pmm_inv (frames s')"
    and ent: "\<And>t i. 0 < lvl t \<Longrightarrow> i < 512 \<Longrightarrow> entry s' t i = entry s t i"
    and used: "\<And>t. 0 < lvl t \<Longrightarrow> used (frames s) (frame_no t) \<Longrightarrow> used (frames s') (frame_no t)"
  shows "vm_wf s' lvl p" "translate s' p w = translate s p w"
proof -
  have l: "link s' lvl t i \<longleftrightarrow> link s lvl t i" for t i
    using ent [of t i] by (auto simp: link_def)
  have e: "entry s' t i = entry s t i" if "link s lvl t i" for t i
    using that ent [of t i] by (simp add: link_def)
  show wf': "vm_wf s' lvl p"
    using wf inv used unfolding vm_wf_def l by (metis e)
  have "walk s' n x w = walk s n x w" if "lvl x = n" for n x
    using that
  proof (induction n arbitrary: x)
    case (Suc n)
    let ?i = "level_index (Suc n) w"
    have "entry s' x ?i = entry s x ?i" using ent Suc.prems level_index_less by simp
    then show ?case
      using walk_step [of lvl x n s w] walk_step [of lvl x n s' w] Suc l wf_link [OF wf, of x ?i] by auto
  qed simp
  from this [OF wf_root [OF wf]] show "translate s' p w = translate s p w" by (simp add: translate_def)
qed

text \<open>Mapping a page that is mapped already only rewrites its entry.\<close>

lemma remap_entry:
  assumes wf: "vm_wf s lvl p" and tr: "translate s p v = Some (pa, fl, 1)" and fl': "flags AND PAGE_HUGE = 0"
  shows "\<exists>pt. lvl pt = 1 \<and> visits s lvl 4 p v pt \<and> leaf 1 (entry s pt (level_index 1 v)) v = Some (pa, fl, 1) \<and>
    vmm_map p v phys flags s = set_entry pt (level_index 1 v) ((phys AND NOT 0xFFF) OR flags OR PAGE_PRESENT) s"
  using wf
proof (cases rule: path_cases [of s lvl p v])
  case (pd pdpt pd)
  show ?thesis
    using wf pd(5,6)
  proof (cases rule: pd_cases)
    case huge_leaf
    then show ?thesis using tr pd(7) leaf_SomeD [of 2] by force
  next
    case absent
    then show ?thesis using tr pd(7) by simp
  next
    case (pt pt)
    have "vmm_map p v phys flags s = set_entry pt (level_index 1 v) ((phys AND NOT 0xFFF) OR flags OR PAGE_PRESENT) s"
      using pd(1-4) pt(2,3) fl' ensure_existing [of s p "level_index 4 v"] ensure_existing [of s pdpt "level_index 3 v"]
        ensure_existing [of s pd "level_index 2 v"]
      by (simp add: vmm_map_def level_index_simps)
    then show ?thesis using pt(4,5,6) tr pd(7) by auto
  qed
qed (use tr in simp_all)

lemma region_walk:
  assumes wf: "vm_wf s lvl p" and vis: "visits s lvl 4 p v pt" and pt: "lvl pt = 1" and same: "same_region 1 v w"
  shows "translate s p w = leaf 1 (entry s pt (level_index 1 v)) w"
proof -
  have r: "lvl p = 4" by (rule wf_root [OF wf])
  have "visits s lvl 4 p w pt"
    using visits_same [OF wf vis r] same pt by (simp add: same_region_def)
  then have "translate s p w = walk s 1 pt w" using visits_walk [OF wf _ r] pt by (metis translate_def)
  also have "\<dots> = leaf 1 (entry s pt (level_index 1 w)) w"
    using walk_step [of lvl pt 0 s w] pt by (simp add: link_def)
  finally show ?thesis using same by (simp add: same_region_def)
qed

lemma not_fff: "x AND NOT 0xFFF = push_bit 12 (drop_bit 12 x)" for x :: u64
  unfolding low12 by (rule bit_word_eqI) (auto simp: bit_simps)

lemma page_base_aligned: "page_aligned (x AND NOT 0xFFF)"
  using entry_base_aligned by (simp add: entry_base_def)

lemma page_offset_or:
  assumes "page_aligned f" "k < (4096 :: nat)"
  shows "f OR of_nat k = f + of_nat k"
proof -
  have k: "\<not> bit (of_nat k :: u64) n" if "12 \<le> n" for n
  proof -
    have "k = take_bit 12 k" using assms(2) by (simp add: take_bit_nat_eq_self)
    then show ?thesis using that by (metis bit_of_nat_iff bit_take_bit_iff not_less)
  qed
  have "f AND of_nat k = 0"
  proof (rule bit_word_eqI)
    fix n :: nat
    show "bit (f AND of_nat k) n = bit 0 n"
      using k [of n] assms(1) by (cases "n < 12") (auto simp: bit_and_iff page_aligned_bits)
  qed
  then show ?thesis using word_plus_and_or [of f "of_nat k"] by simp
qed

lemma page_offset_low:
  assumes "k < (4096 :: nat)"
  shows "((v AND NOT 0xFFF) + of_nat k) AND 0xFFF = (of_nat k :: u64)" "same_region 1 ((v AND NOT 0xFFF) + of_nat k) v"
proof -
  have k: "n < 12" if "bit (of_nat k :: u64) n" for n
  proof (rule ccontr)
    assume "\<not> n < 12"
    moreover have "k = take_bit 12 k" using assms by (simp add: take_bit_nat_eq_self)
    ultimately show False using that by (metis bit_of_nat_iff bit_take_bit_iff)
  qed
  have eq: "(v AND NOT 0xFFF) + of_nat k = (v AND NOT 0xFFF) OR of_nat k"
    using page_offset_or [OF page_base_aligned assms] by simp
  show "((v AND NOT 0xFFF) + of_nat k) AND 0xFFF = (of_nat k :: u64)"
    unfolding eq by (unfold low12, rule bit_word_eqI) (auto simp: bit_and_iff bit_or_iff bit_not_iff bit_mask_iff dest: k)
  have "level_index m ((v AND NOT 0xFFF) + of_nat k) = level_index m v" if "1 \<le> m" for m
  proof -
    have "(0x1FF :: u64) = mask 9" by (simp add: mask_eq_decr_exp)
    then show ?thesis
      unfolding eq using that
      by (unfold level_index_def low12, intro bit_word_eqI) (auto simp: bit_and_iff bit_or_iff bit_not_iff bit_mask_iff bit_drop_bit_eq dest: k bit_imp_le_length [of v])
  qed
  then show "same_region 1 ((v AND NOT 0xFFF) + of_nat k) v" by (simp add: same_region_def)
qed

section \<open>The split is correct\<close>

text \<open>What a walk sees of the page of \<open>v\<close> and of its base address.\<close>

lemma page_of:
  assumes wf: "vm_wf s lvl p" and tr: "translate s p v = Some (pa, fl, 1)"
  shows "k < 4096 \<Longrightarrow> translate s p ((v AND NOT 0xFFF) + of_nat k) = Some ((pa AND NOT 0xFFF) + of_nat k, fl, 1)"
    and "fl AND NOT 0xFFF = 0" "vmm_get_phys p v s AND NOT 0xFFF = pa AND NOT 0xFFF" "vmm_get_flags p v s = fl"
proof -
  obtain pt where pt: "lvl pt = 1" "visits s lvl 4 p v pt" "leaf 1 (entry s pt (level_index 1 v)) v = Some (pa, fl, 1)"
    using remap_entry [OF wf tr, of 0] by auto
  let ?e = "entry s pt (level_index 1 v)"
  have e: "present ?e" "pa = entry_base ?e OR (v AND 0xFFF)" "fl = ?e AND 0xFFF"
    using pt(3) by (auto simp: leaf_def split: if_splits)
  have base: "pa AND NOT 0xFFF = entry_base ?e"
    unfolding e(2) entry_base_def by (unfold low12, rule bit_word_eqI) (auto simp: bit_simps)
  show "translate s p ((v AND NOT 0xFFF) + of_nat k) = Some ((pa AND NOT 0xFFF) + of_nat k, fl, 1)" if k: "k < 4096"
  proof -
    let ?w = "(v AND NOT 0xFFF) + of_nat k"
    have "same_region 1 v ?w" using page_offset_low(2) [OF k, of v] by (simp add: same_region_def)
    from region_walk [OF wf pt(2,1) this] have "translate s p ?w = leaf 1 ?e ?w" .
    also have "\<dots> = Some (entry_base ?e OR of_nat k, fl, 1)"
      using e(1,3) page_offset_low(1) [OF k, of v] by (simp add: leaf_def)
    finally show ?thesis using page_offset_or [OF entry_base_aligned k, of ?e] base by simp
  qed
  show "fl AND NOT 0xFFF = 0" unfolding e(3) by (unfold low12, rule bit_word_eqI) (auto simp: bit_simps)
  show "vmm_get_phys p v s AND NOT 0xFFF = pa AND NOT 0xFFF" "vmm_get_flags p v s = fl"
    using get_refines [OF wf tr] by simp_all
qed

text \<open>Remapping the page of \<open>v\<close> to a frame.\<close>

lemma remap_page:
  assumes wf: "vm_wf s lvl p" and tr: "translate s p v = Some (pa, fl, 1)" and fl: "flags AND NOT 0xFFF = 0" "flags AND PAGE_HUGE = 0"
    and f: "page_aligned f"
  defines "t \<equiv> vmm_map p (v AND NOT 0xFFF) f flags s"
  shows "vm_wf t lvl p" "frames t = frames s"
    and "translate t p w = (if same_region 1 v w then Some (f OR (w AND 0xFFF), flags OR PAGE_PRESENT, 1) else translate s p w)"
    and "page_aligned g \<Longrightarrow> lvl g = 0 \<Longrightarrow> k < 4096 \<Longrightarrow> phys_mem t (g + of_nat k) = phys_mem s (g + of_nat k)"
proof -
  let ?v = "v AND NOT 0xFFF"
  have tr': "translate s p ?v = Some (pa AND NOT 0xFFF, fl, 1)" using page_of(1) [OF wf tr, of 0] by simp
  have reg: "same_region 1 ?v v" using page_offset_low(2) [of 0 v] by simp
  obtain pt where pt: "lvl pt = 1" "visits s lvl 4 p ?v pt"
    "t = set_entry pt (level_index 1 ?v) ((f AND NOT 0xFFF) OR flags OR PAGE_PRESENT) s"
    using remap_entry [OF wf tr' fl(2), of f] by (auto simp: t_def)
  have ff: "f AND NOT 0xFFF = f"
    using f by (unfold low12, intro bit_word_eqI) (auto simp: bit_simps page_aligned_bits)
  have leaf: "lvl pt = 1 \<or> lvl pt = 2" "lvl pt = 2 \<Longrightarrow> X \<Longrightarrow> Y" for X Y using pt(1) by simp_all
  show "vm_wf t lvl p" unfolding pt(3) using set_leaf(1) [OF wf pt(2) leaf] pt(1) by simp
  show "frames t = frames s" by (simp add: pt(3))
  have "translate t p w = (if same_region 1 ?v w then leaf 1 ((f AND NOT 0xFFF) OR flags OR PAGE_PRESENT) w else translate s p w)"
    unfolding pt(3) using set_leaf(2) [OF wf pt(2) leaf] pt(1) by simp
  moreover have "same_region 1 ?v w \<longleftrightarrow> same_region 1 v w" using reg unfolding same_region_def by metis
  moreover have "leaf 1 ((f AND NOT 0xFFF) OR flags OR PAGE_PRESENT) w = Some (f OR (w AND 0xFFF), flags OR PAGE_PRESENT, 1)"
    using small_entry [OF fl(1), of f w] unfolding ff .
  ultimately show "translate t p w = (if same_region 1 v w then Some (f OR (w AND 0xFFF), flags OR PAGE_PRESENT, 1) else translate s p w)"
    by presburger
  show "phys_mem t (g + of_nat k) = phys_mem s (g + of_nat k)" if "page_aligned g" "lvl g = 0" "k < 4096"
  proof -
    have "page_aligned pt" "pt \<noteq> g" using wf_table [OF wf, of pt] pt(1) that(2) by auto
    then show ?thesis using store_other_page [OF _ that(1) _ level_index_less that(3)] by (simp add: pt(3) set_entry_def)
  qed
qed

lemma new_flags_ok:
  assumes "fl AND NOT 0xFFF = 0" "fl AND PAGE_HUGE = 0"
  shows "((fl AND NOT PAGE_COW) OR PAGE_WRITABLE) AND NOT 0xFFF = 0" "((fl AND NOT PAGE_COW) OR PAGE_WRITABLE) AND PAGE_HUGE = 0"
proof -
  have b: "\<not> bit fl n" if "12 \<le> n" for n
  proof
    assume "bit fl n"
    then have "bit (fl AND NOT 0xFFF) n"
      using that by (unfold low12) (auto simp: bit_simps dest: bit_imp_le_length)
    then show False using assms(1) by simp
  qed
  have w: "bit PAGE_WRITABLE n \<longleftrightarrow> n = 1" for n
  proof -
    have "PAGE_WRITABLE = push_bit 1 1" by (simp add: PAGE_WRITABLE_def)
    then have "bit PAGE_WRITABLE n \<longleftrightarrow> bit (push_bit 1 (1 :: u64)) n" by (rule arg_cong)
    also have "\<dots> \<longleftrightarrow> n = 1" unfolding bit_push_bit_iff bit_1_iff by auto
    finally show ?thesis .
  qed
  show "((fl AND NOT PAGE_COW) OR PAGE_WRITABLE) AND NOT 0xFFF = 0"
    by (unfold low12, rule bit_word_eqI) (auto simp: bit_simps w b not_le)
  have "\<not> bit fl 7" using assms(2) by (simp add: huge_bit [symmetric] huge_def)
  then have "\<not> huge ((fl AND NOT PAGE_COW) OR PAGE_WRITABLE)"
    unfolding huge_bit bit_or_iff bit_and_iff w by simp
  then show "((fl AND NOT PAGE_COW) OR PAGE_WRITABLE) AND PAGE_HUGE = 0" by (simp add: huge_def)
qed

section \<open>Properties\<close>

text \<open>Copying a page into a fresh frame keeps the page tables, and the frame then holds what the page showed.\<close>

lemma copied_page:
  assumes wf: "vm_wf s lvl p" and tr: "translate s p v = Some (pa, fl, 1)" and f: "f = pa AND NOT 0xFFF" "page_aligned f"
    and used: "used (frames s) (frame_no f)" and gq: "pmm_alloc_frame (frames s) = (g, q)" "g \<noteq> 0"
    and s2: "s2 = copy_page g p (v AND NOT 0xFFF) (s\<lparr>frames := q\<rparr>)"
  shows "vm_wf s2 lvl p" "frames s2 = q" "translate s2 p w = translate s p w" "lvl g = 0" "page_aligned g" "is_frame g" "g \<noteq> f"
    and "k < 4096 \<Longrightarrow> phys_mem s2 (g + of_nat k) = phys_mem s (f + of_nat k)"
    and "k < 4096 \<Longrightarrow> phys_mem s2 (f + of_nat k) = phys_mem s (f + of_nat k)"
proof -
  let ?bs = "map (\<lambda>k. mmu_load (s\<lparr>frames := q\<rparr>) p ((v AND NOT 0xFFF) + of_nat k)) [0..<4096]"
  have inv: "pmm_inv (frames s)" by (rule wf_pmm [OF wf])
  have g: "is_frame g" "\<not> used (frames s) (frame_no g)" "page_aligned g"
    using alloc_free_frames(1) [OF inv gq] by (simp_all add: free_frames_def is_frame_def)
  have gf: "g \<noteq> f" using g(2) used by auto
  have s2': "s2 = s\<lparr>frames := q, phys_mem := put_buffer g ?bs (phys_mem s)\<rparr>" by (simp add: s2 copy_page_def)
  have tabs: "g \<noteq> x" if "0 < lvl x" for x using wf_used [OF wf that] g(2) by auto
  have ent: "entry s2 x i = entry s x i" if "0 < lvl x" "i < 512" for x i
    using entry_put_page [OF g(3) _ tabs [OF that(1)] that(2), where bs = ?bs and s = "s\<lparr>frames := q\<rparr>" and m = "phys_mem s"] wf_table [OF wf that(1)]
    by (simp add: s2' entry_def)
  have usd: "used q n \<longleftrightarrow> used (frames s) n \<or> n = frame_no g" for n
    using inv gq by (cases rule: alloc_cases) auto
  show "vm_wf s2 lvl p" "translate s2 p w = translate s p w"
    using vm_wf_cong [OF wf, of s2] ent usd pmm_inv_alloc [OF inv gq(1)] by (simp_all add: s2')
  have wfq: "translate (s\<lparr>frames := q\<rparr>) p w = translate s p w" for w
    using vm_wf_cong(2) [OF wf, of "s\<lparr>frames := q\<rparr>"] usd pmm_inv_alloc [OF inv gq(1)] by simp
  have load: "?bs ! k = phys_mem s (f + of_nat k)" if "k < 4096" for k
    using that page_of(1) [OF wf tr that] f(1) wfq by (simp add: mmu_load_def)
  show "k < 4096 \<Longrightarrow> phys_mem s2 (g + of_nat k) = phys_mem s (f + of_nat k)"
    using put_page_inside [of k ?bs g "phys_mem s"] load [of k] by (simp add: s2')
  show "k < 4096 \<Longrightarrow> phys_mem s2 (f + of_nat k) = phys_mem s (f + of_nat k)"
    using put_page_other [OF g(3) f(2) gf, of k ?bs "phys_mem s"] by (simp add: s2')
  show "lvl g = 0" using tabs [of g] by auto
  show "frames s2 = q" by (simp add: s2')
qed (use alloc_free_frames(1) [OF wf_pmm [OF wf] gq] used in \<open>auto simp: free_frames_def is_frame_def\<close>)

text \<open>Giving back one of several references on a frame changes no page table.\<close>

lemma released_page:
  assumes wf: "vm_wf s lvl p" and f: "usable_frame f" and refs: "1 < unat (ref_counts (frames s) (frame_no f))"
    and t: "t = free_frame f s"
  shows "vm_wf t lvl p" "translate t p w = translate s p w" "phys_mem t = phys_mem s" "frames t = pmm_free_frame f (frames s)"
proof -
  have inv: "pmm_inv (frames s)" by (rule wf_pmm [OF wf])
  have fr: "is_frame f" using f by (simp add: usable_frame_def)
  have fq: "frames t = pmm_free_frame f (frames s)" by (simp add: t free_frame_def)
  have rne: "ref_counts (frames s) (frame_no f) \<noteq> 1" using refs by auto
  have keep: "used (frames t) n" if "used (frames s) n" for n
    using inv fr refl [of "pmm_free_frame f (frames s)"] rne that unfolding fq by (cases rule: free_cases) (simp_all add: used_def)
  have invt: "pmm_inv (frames t)" unfolding fq using pmm_inv_free [OF inv fr] f by (simp add: usable_frame_def)
  show "vm_wf t lvl p" "translate t p w = translate s p w"
    using vm_wf_cong [OF wf invt] keep by (simp_all add: t free_frame_def entry_def)
qed (simp_all add: t free_frame_def)

text \<open>C8. A write fault on a shared copy-on-write page: the page is mapped writable, without the mark, to a frame with the same 4096
  bytes, and every other page is translated as before. If other address spaces hold the frame, the new one is fresh, has one
  reference, and the old frame keeps its content and loses one reference; the last owner keeps its frame.\<close>

theorem cow_fault_correct:
  assumes wf: "vm_wf s lvl p" and tr: "translate s p v = Some (pa, fl, 1)" and fl: "fl AND PAGE_HUGE = 0"
    and f: "f = pa AND NOT 0xFFF" "usable_frame f" "lvl f = 0"
    and free: "free_frames (frames s) \<noteq> {}" and used: "used (frames s) (frame_no f)"
    and t: "t = cow_fault p p v s"
  shows "\<exists>g. vm_wf t lvl p \<and>
    (\<forall>w. translate t p w = (if same_region 1 v w
       then Some (g OR (w AND 0xFFF), (fl AND NOT PAGE_COW) OR PAGE_WRITABLE OR PAGE_PRESENT, 1) else translate s p w)) \<and>
    (\<forall>k<4096. phys_mem t (g + of_nat k) = phys_mem s (f + of_nat k) \<and> phys_mem t (f + of_nat k) = phys_mem s (f + of_nat k)) \<and>
    (if 1 < frame_refs (frames s) f
     then g \<in> free_frames (frames s) \<and> free_frames (frames t) = free_frames (frames s) - {g} \<and>
       frame_refs (frames t) = (frame_refs (frames s))(g := 1, f := frame_refs (frames s) f - 1)
     else g = f \<and> frames t = frames s)"
proof -
  let ?flags = "(fl AND NOT PAGE_COW) OR PAGE_WRITABLE"
  let ?v = "v AND NOT 0xFFF"
  note pg = page_of [OF wf tr]
  note ok = new_flags_ok [OF pg(2) fl]
  have fr: "is_frame f" "page_aligned f" using f(2) by (simp_all add: usable_frame_def is_frame_def)
  have phys: "vmm_get_phys p v s AND NOT 0xFFF = f" "vmm_get_flags p v s = fl" using pg(3,4) f(1) by simp_all
  have refs: "1 < pmm_get_ref f (frames s) \<longleftrightarrow> 1 < frame_refs (frames s) f"
    using fr(1) by (simp add: pmm_get_ref_def frame_refs_def is_frame_def Let_def word_less_nat_alt)
  have or3: "?flags OR PAGE_PRESENT = (fl AND NOT PAGE_COW) OR PAGE_WRITABLE OR PAGE_PRESENT" by (simp add: or.assoc)
  show ?thesis
  proof (cases "1 < frame_refs (frames s) f")
    case False
    then have run: "t = vmm_map p ?v f ?flags s" using t refs phys by (simp add: cow_fault_def Let_def)
    note m = remap_page [OF wf tr ok fr(2), folded run]
    show ?thesis using m(1,2) m(3) m(4) [OF fr(2) f(3)] False or3
      by (intro exI [of _ f]) simp
  next
    case True
    obtain g q where gq: "pmm_alloc_frame (frames s) = (g, q)" by fastforce
    have inv: "pmm_inv (frames s)" by (rule wf_pmm [OF wf])
    have g0: "g \<noteq> 0" using pmm.alloc_null [OF inv, of q] gq free by auto
    note al = alloc_free_frames [OF inv gq g0]
    define s2 where "s2 = copy_page g p ?v (s\<lparr>frames := q\<rparr>)"
    note c = copied_page [OF wf tr f(1) fr(2) used gq g0 s2_def]
    define s3 where "s3 = vmm_map p ?v g ?flags s2"
    note m = remap_page [OF c(1) tr [folded c(3)] ok c(5), folded s3_def]
    have run: "t = free_frame f s3"
      using t refs True phys gq by (simp add: cow_fault_def Let_def alloc_frame_def s2_def s3_def)
    have q3: "frames s3 = q" using m(2) c(2) by simp
    have "ref_counts q (frame_no f) = ref_counts (frames s) (frame_no f)" using al(3) c(6,7) fr(1) is_frame_inj by fastforce
    then have rf: "1 < unat (ref_counts q (frame_no f))" using True fr(1) by (simp add: frame_refs_def)
    note r = released_page [OF m(1) f(2) rf [folded q3] run]
    have fq: "frames t = pmm_free_frame f q" using r(4) q3 by simp
    have invq: "pmm_inv q" by (rule pmm_inv_alloc [OF inv gq])
    have "free_frames (frames t) = free_frames (frames s) - {g}"
      unfolding fq using pmm.release_avail [OF invq f(2)] rf fr(1) al(2) by (simp add: frame_refs_def)
    moreover have "frame_refs (frames t) = (frame_refs (frames s))(g := 1, f := frame_refs (frames s) f - 1)"
      unfolding fq using pmm.release_refs [OF invq f(2)] pmm.alloc_refs [OF inv gq g0] c(7) by (simp add: fun_eq_iff)
    ultimately show ?thesis
      using r(1-3) m(3) c(3) m(4) [OF c(5,4)] m(4) [OF fr(2) f(3)] c(8,9) True al(1) or3
      by (intro exI [of _ g]) simp
  qed
qed

text \<open>An address space that maps 1 GiB copy-on-write to the frame at 0x104000, which a second one holds too.\<close>

definition cow_space :: vmm_state where
  "cow_space = set_entry 0x103000 0 0x104205 (set_entry 0x102000 0 0x103007 (set_entry 0x101000 1 0x102007
     (set_entry 0x100000 0 0x101007 (empty_space\<lparr>frames := (frames empty_space)\<lparr>ref_counts := (\<lambda>f. 0)(260 := 2)\<rparr>\<rparr>))))"

definition cow_lvl :: "u64 \<Rightarrow> nat" where
  "cow_lvl = (\<lambda>t. 0)(0x100000 := 4, 0x101000 := 3, 0x102000 := 2, 0x103000 := 1)"

lemma cow_entry_at:
  assumes "0 < cow_lvl t" "i < 512"
  shows "entry cow_space t i = (if t = 0x103000 \<and> i = 0 then 0x104205 else if t = 0x102000 \<and> i = 0 then 0x103007
    else if t = 0x101000 \<and> i = 1 then 0x102007 else if t = 0x100000 \<and> i = 0 then 0x101007 else 0)"
proof -
  have a: "page_aligned t" using assms(1) by (auto simp: cow_lvl_def page_aligned_def split: if_splits)
  have al: "page_aligned 0x100000" "page_aligned 0x101000" "page_aligned 0x102000" "page_aligned 0x103000"
    by (simp_all add: page_aligned_def)
  show ?thesis
    using a al assms(2) by (simp add: cow_space_def entry_set_entry)
qed

lemma cow_wf: "vm_wf cow_space cow_lvl 0x100000"
proof -
  have lk: "link cow_space cow_lvl t i \<longleftrightarrow> t = 0x102000 \<and> i = 0 \<or> t = 0x101000 \<and> i = 1 \<or> t = 0x100000 \<and> i = 0" for t i
  proof (cases "0 < cow_lvl t \<and> i < 512")
    case True
    then show ?thesis
      by (auto simp: link_def cow_entry_at present_def huge_def PAGE_PRESENT_def PAGE_HUGE_def) (auto simp: cow_lvl_def split: if_splits)
  next
    case False
    then show ?thesis by (auto simp: link_def cow_lvl_def)
  qed
  have fr: "pmm_inv (frames cow_space)" "\<And>f. used (frames cow_space) f = used (frames empty_space) f"
    using wf_pmm [OF empty_wf] by (simp_all add: cow_space_def pmm_inv_def used_def)
  have us: "is_frame t \<and> t \<noteq> 0 \<and> used (frames cow_space) (frame_no t)" if "0 < cow_lvl t" for t
    using that unfolding fr(2)
    by (auto simp: cow_lvl_def is_frame_def page_aligned_def frame_no_def MAX_FRAMES_def empty_space_def ram_16_48_def used_def
        split: if_splits)
  have en: "entry cow_space 0x102000 0 = 0x103007" "entry cow_space 0x101000 1 = 0x102007" "entry cow_space 0x100000 0 = 0x101007"
    by (simp_all add: cow_entry_at cow_lvl_def)
  show ?thesis
    unfolding vm_wf_def lk using fr(1) us en by (auto simp: cow_lvl_def entry_base_def)
qed

theorem cow_fault_correct_witness:
  "\<exists>g. translate (cow_fault 0x100000 0x100000 0x40000123 cow_space) 0x100000 0x40000123 = Some (g OR 0x123, 0x007, 1) \<and>
     g \<noteq> 0x104000 \<and> frame_refs (frames (cow_fault 0x100000 0x100000 0x40000123 cow_space)) 0x104000 = 1"
proof -
  let ?v = "0x40000123 :: u64"
  have ix: "level_index (Suc (Suc (Suc (Suc 0)))) ?v = 0" "level_index (Suc (Suc (Suc 0))) ?v = 1"
    "level_index (Suc (Suc 0)) ?v = 0" "level_index (Suc 0) ?v = 0"
    by (simp_all add: level_index_def)
  have lv: "cow_lvl 0x100000 = 4" "cow_lvl 0x101000 = 3" "cow_lvl 0x102000 = 2" "cow_lvl 0x103000 = 1" "cow_lvl 0x104000 = 0"
    by (simp_all add: cow_lvl_def)
  have en: "entry cow_space 0x103000 0 = 0x104205" "entry cow_space 0x102000 0 = 0x103007" "entry cow_space 0x101000 1 = 0x102007"
    "entry cow_space 0x100000 0 = 0x101007" by (simp_all add: cow_entry_at lv)
  have tr: "translate cow_space 0x100000 ?v = Some (0x104123, 0x205, 1)"
    by (simp add: translate_def numeral_eq_Suc walk.simps(2) ix Let_def en present_def huge_def
        PAGE_PRESENT_def PAGE_HUGE_def entry_base_def)
  have used: "used (frames cow_space) (frame_no 0x104000)"
    using ram_16_48_used [of 260] by (simp add: cow_space_def empty_space_def used_def frame_no_def)
  have free: "free_frames (frames cow_space) \<noteq> {}"
  proof -
    have "free_frames (frames cow_space) = free_frames (frames empty_space)" by (simp add: cow_space_def free_frames_def used_def)
    then show ?thesis using empty_frames by (metis card.empty zero_neq_numeral)
  qed
  have fr: "usable_frame 0x104000" "frame_refs (frames cow_space) 0x104000 = 2"
    by (simp_all add: usable_frame_def is_frame_def page_aligned_def frame_no_def MAX_FRAMES_def frame_refs_def cow_space_def)
  have "(0x104000 :: u64) = 0x104123 AND NOT 0xFFF" "(0x205 :: u64) AND PAGE_HUGE = 0" by (simp_all add: PAGE_HUGE_def)
  note c = cow_fault_correct [OF cow_wf tr this(2,1) fr(1) lv(5) free used refl]
  obtain g where g: "\<forall>w. translate (cow_fault 0x100000 0x100000 ?v cow_space) 0x100000 w = (if same_region 1 ?v w
       then Some (g OR (w AND 0xFFF), (0x205 AND NOT PAGE_COW) OR PAGE_WRITABLE OR PAGE_PRESENT, 1) else translate cow_space 0x100000 w)"
    "g \<in> free_frames (frames cow_space)"
    "frame_refs (frames (cow_fault 0x100000 0x100000 ?v cow_space)) = (frame_refs (frames cow_space))(g := 1, 0x104000 := 2 - 1)"
    using c unfolding fr(2) by auto
  have "g \<noteq> 0x104000" using g(2) used by (auto simp: free_frames_def)
  moreover have "same_region 1 ?v ?v" by (simp add: same_region_def)
  moreover have "(0x205 AND NOT PAGE_COW) OR PAGE_WRITABLE OR PAGE_PRESENT = (7 :: u64)"
    by (simp add: PAGE_COW_def PAGE_WRITABLE_def PAGE_PRESENT_def)
  ultimately show ?thesis using g(1,3) by (intro exI [of _ g]) simp
qed

end
