(* ===== verification/Console.thy ===== *)
theory Console
  imports Printf Ata
begin

text \<open>
  Text output: the VGA text screen (src/kernel/vga.c), the serial line (src/kernel/serial.c), the TTY that writes to
  both (src/kernel/tty.c) and the kernel log on top of them (src/kernel/klog.c). The locale \<open>printer\<close> is the interface
  a sink of characters offers to the routines that print strings and numbers; the screen, the serial line and the TTY are
  its interpretations.
\<close>

section \<open>The text screen\<close>

record vga_char =
  character :: u8
  color_of :: u8

record vga_state =
  vga_buffer :: "vga_char list"
  col :: u64
  row :: u64
  vcolor :: u8

definition NUM_COLS :: u64 where "NUM_COLS = 80"
definition NUM_ROWS :: u64 where "NUM_ROWS = 25"

text \<open>A store to a cell and a load from one. The screen has 2000 cells; the lemmas below show that no store misses it.\<close>

definition put_cell :: "u64 \<Rightarrow> vga_char \<Rightarrow> vga_state \<Rightarrow> vga_state" where
  "put_cell i v s = s\<lparr>vga_buffer := (vga_buffer s)[unat i := v]\<rparr>"

definition blank_cell :: "vga_state \<Rightarrow> vga_char" where
  "blank_cell s = \<lparr>character = 32, color_of = vcolor s\<rparr>"

definition vga_clear :: "vga_state \<Rightarrow> vga_state" where
  "vga_clear s =
     (let s1 = fold (\<lambda>i s. put_cell (of_nat i) (blank_cell s) s) [0..<unat (NUM_COLS * NUM_ROWS)] s
      in s1\<lparr>col := 0, row := 0\<rparr>)"

definition scroll_row :: "u64 \<Rightarrow> vga_state \<Rightarrow> vga_state" where
  "scroll_row r s = fold (\<lambda>c s. put_cell ((r - 1) * NUM_COLS + of_nat c) (vga_buffer s ! unat (r * NUM_COLS + of_nat c)) s)
     [0..<unat NUM_COLS] s"

definition vga_scroll :: "vga_state \<Rightarrow> vga_state" where
  "vga_scroll s =
     (let s1 = fold (\<lambda>r. scroll_row (of_nat r)) [1..<unat NUM_ROWS] s
      in fold (\<lambda>c s. put_cell ((NUM_ROWS - 1) * NUM_COLS + of_nat c) (blank_cell s) s) [0..<unat NUM_COLS] s1)"

definition print_newline :: "vga_state \<Rightarrow> vga_state" where
  "print_newline s =
     (let s1 = s\<lparr>col := 0\<rparr>
      in if row s1 < NUM_ROWS - 1 then s1\<lparr>row := row s1 + 1\<rparr> else vga_scroll s1)"

definition vga_print_char :: "u8 \<Rightarrow> vga_state \<Rightarrow> vga_state" where
  "vga_print_char c s =
     (if c = 10 then print_newline s
      else let s1 = (if col s \<ge> NUM_COLS then print_newline s else s);
               s2 = put_cell (row s1 * NUM_COLS + col s1) \<lparr>character = c, color_of = vcolor s1\<rparr> s1
           in s2\<lparr>col := col s2 + 1\<rparr>)"

section \<open>Printing loops\<close>

text \<open>
  \<open>for (i = 0; str[i] != '\0'; i++) putc(str[i])\<close>, which every printing routine of the kernel repeats for its own \<open>putc\<close>.
  The string is given by its characters \<open>str i\<close>. A string without an end, or a \<open>putc\<close> that waits for ever, gives \<open>None\<close>.
\<close>

partial_function (option) print_from :: "(u8 \<Rightarrow> 's \<Rightarrow> 's option) \<Rightarrow> u8 carray \<Rightarrow> nat \<Rightarrow> 's \<Rightarrow> 's option" where
  "print_from putc str i s =
     (if str i = 0 then Some s else Option.bind (putc (str i) s) (print_from putc str (i + 1)))"

text \<open>A fixed sequence of characters, one call of \<open>putc\<close> each.\<close>

fun put_all :: "(u8 \<Rightarrow> 's \<Rightarrow> 's option) \<Rightarrow> u8 list \<Rightarrow> 's \<Rightarrow> 's option" where
  "put_all putc [] s = Some s"
| "put_all putc (c # cs) s = Option.bind (putc c s) (put_all putc cs)"

text \<open>The characters of a string in memory and of a literal.\<close>

definition str_at :: "memory \<Rightarrow> u64 \<Rightarrow> u8 carray" where
  "str_at m a = (\<lambda>i. m (a + of_nat i))"

definition literal :: "string \<Rightarrow> u8 carray" where
  "literal cs = (\<lambda>i. if i < length cs then of_char (cs ! i) else 0)"

text \<open>\<open>hex_chars[(val >> i) & 0xF]\<close> for \<open>i\<close> = 60, 56, \<dots>, 0.\<close>

definition hex_chars :: "u8 list" where
  "hex_chars = map of_char ''0123456789ABCDEF''"

definition hex_char :: "u64 \<Rightarrow> u8" where
  "hex_char n = hex_chars ! unat n"

fun print_nibbles :: "(u8 \<Rightarrow> 's \<Rightarrow> 's option) \<Rightarrow> nat \<Rightarrow> u64 \<Rightarrow> 's \<Rightarrow> 's option" where
  "print_nibbles putc 0 val s = Some s"
| "print_nibbles putc (Suc k) val s =
     Option.bind (putc (hex_char (drop_bit (4 * k) val AND 0xF)) s) (print_nibbles putc k val)"

text \<open>The decimal digits into a buffer of 20, then out in reverse order.\<close>

fun print_reverse :: "(u8 \<Rightarrow> 's \<Rightarrow> 's option) \<Rightarrow> u8 carray \<Rightarrow> nat \<Rightarrow> 's \<Rightarrow> 's option" where
  "print_reverse putc buf 0 s = Some s"
| "print_reverse putc buf (Suc i) s = Option.bind (putc (buf i) s) (print_reverse putc buf i)"

function digits_into :: "u64 \<Rightarrow> nat \<Rightarrow> u8 carray \<Rightarrow> nat \<times> u8 carray" where
  "digits_into val i buf =
     (if val > 0 then digits_into (val div 10) (i + 1) (buf(i := ucast (val mod 10) + 48)) else (i, buf))"
  by pat_completeness auto
termination
  by (relation "measure (\<lambda>(val, i, buf). unat val)") (auto simp: word_less_iff_unat)

declare digits_into.simps [simp del]

definition print_decimal :: "(u8 \<Rightarrow> 's \<Rightarrow> 's option) \<Rightarrow> u8 carray \<Rightarrow> u64 \<Rightarrow> 's \<Rightarrow> 's option" where
  "print_decimal putc junk val s =
     (if val = 0 then putc 48 s
      else let (i, buf) = digits_into val 0 junk in print_reverse putc buf i s)"

section \<open>The screen routines\<close>

definition vga_putc :: "u8 \<Rightarrow> vga_state \<Rightarrow> vga_state option" where
  "vga_putc c s = Some (vga_print_char c s)"

definition vga_print :: "u8 carray \<Rightarrow> vga_state \<Rightarrow> vga_state option" where
  "vga_print str = print_from vga_putc str 0"

definition vga_print_hex :: "u64 \<Rightarrow> vga_state \<Rightarrow> vga_state option" where
  "vga_print_hex val s = Option.bind (vga_print (literal ''0x'') s) (print_nibbles vga_putc 16 val)"

section \<open>The serial line\<close>

definition COM1 :: u16 where "COM1 = 0x3F8"

text \<open>The ports are a parameter, as for the disk; \<open>'d\<close> is the state of the devices behind them.\<close>

definition serial_init :: "'d port_io \<Rightarrow> 'd \<Rightarrow> 'd" where
  "serial_init io d =
     (let d = outb io (COM1 + 1) 0x00 d;
          d = outb io (COM1 + 3) 0x80 d;
          d = outb io (COM1 + 0) 0x03 d;
          d = outb io (COM1 + 1) 0x00 d;
          d = outb io (COM1 + 3) 0x03 d;
          d = outb io (COM1 + 2) 0xC7 d;
          d = outb io (COM1 + 4) 0x0B d;
          d = outb io (COM1 + 1) 0x01 d;
          (m, d) = inb io 0x21 d
      in outb io 0x21 (m AND NOT 16) d)"

partial_function (option) wait_transmit :: "'d port_io \<Rightarrow> 'd \<Rightarrow> 'd option" where
  "wait_transmit io d = (case inb io (COM1 + 5) d of (v, d1) \<Rightarrow> if v AND 0x20 = 0 then wait_transmit io d1 else Some d1)"

definition serial_putc :: "'d port_io \<Rightarrow> u8 \<Rightarrow> 'd \<Rightarrow> 'd option" where
  "serial_putc io c d = Option.bind (wait_transmit io d) (\<lambda>d1. Some (outb io COM1 c d1))"

text \<open>Input: every byte that waits goes to \<open>shell_input\<close>, a parameter here, which may print.\<close>

partial_function (option) serial_handler :: "'d port_io \<Rightarrow> (u8 \<Rightarrow> 'd \<times> 'k \<Rightarrow> ('d \<times> 'k) option) \<Rightarrow> 'd \<times> 'k \<Rightarrow> ('d \<times> 'k) option" where
  "serial_handler io shell_input s =
     (case inb io (COM1 + 5) (fst s) of (v, d1) \<Rightarrow>
        if v AND 1 \<noteq> 0
        then (case inb io COM1 d1 of (c, d2) \<Rightarrow> Option.bind (shell_input c (d2, snd s)) (serial_handler io shell_input))
        else Some (d1, snd s))"

definition serial_poll_input :: "'d port_io \<Rightarrow> (u8 \<Rightarrow> 'd \<times> 'k \<Rightarrow> ('d \<times> 'k) option) \<Rightarrow> 'd \<times> 'k \<Rightarrow> ('d \<times> 'k) option" where
  "serial_poll_input io shell_input = serial_handler io shell_input"

text \<open>The routines that take the lock and those that do not print the same; the lock itself is in \<open>Lock\<close>.\<close>

definition serial_print :: "'d port_io \<Rightarrow> u8 carray \<Rightarrow> 'd \<Rightarrow> 'd option" where
  "serial_print io str = print_from (serial_putc io) str 0"

definition serial_print_hex :: "'d port_io \<Rightarrow> u64 \<Rightarrow> 'd \<Rightarrow> 'd option" where
  "serial_print_hex io val d =
     Option.bind (put_all (serial_putc io) [48, 120] d) (print_nibbles (serial_putc io) 16 val)"

definition serial_print_dec :: "'d port_io \<Rightarrow> u8 carray \<Rightarrow> u64 \<Rightarrow> 'd \<Rightarrow> 'd option" where
  "serial_print_dec io junk val = print_decimal (serial_putc io) junk val"

section \<open>The TTY\<close>

text \<open>The screen and the devices.\<close>

type_synonym 'd tty_state = "vga_state \<times> 'd"

definition tty_putchar :: "'d port_io \<Rightarrow> u8 \<Rightarrow> 'd tty_state \<Rightarrow> 'd tty_state option" where
  "tty_putchar io c = (\<lambda>(v, d). map_option (\<lambda>d1. (vga_print_char c v, d1)) (serial_putc io c d))"

definition tty_write :: "'d port_io \<Rightarrow> u8 carray \<Rightarrow> u64 \<Rightarrow> 'd tty_state \<Rightarrow> 'd tty_state option" where
  "tty_write io data n = put_all (tty_putchar io) (map data [0..<unat n])"

section \<open>The log\<close>

datatype log_level_t = LOG_DEBUG | LOG_INFO | LOG_WARN | LOG_ERROR

fun level_no :: "log_level_t \<Rightarrow> nat" where
  "level_no LOG_DEBUG = 0"
| "level_no LOG_INFO = 1"
| "level_no LOG_WARN = 2"
| "level_no LOG_ERROR = 3"

instantiation log_level_t :: linorder
begin

definition less_eq_log_level_t :: "log_level_t \<Rightarrow> log_level_t \<Rightarrow> bool" where
  "less_eq_log_level_t a b \<longleftrightarrow> level_no a \<le> level_no b"

definition less_log_level_t :: "log_level_t \<Rightarrow> log_level_t \<Rightarrow> bool" where
  "less_log_level_t a b \<longleftrightarrow> level_no a < level_no b"

instance
proof
  fix a b :: log_level_t
  assume "a \<le> b" "b \<le> a"
  then show "a = b" by (cases a; cases b) (simp_all add: less_eq_log_level_t_def)
qed (auto simp: less_eq_log_level_t_def less_log_level_t_def)

end

fun level_strings :: "log_level_t \<Rightarrow> string" where
  "level_strings LOG_DEBUG = ''[DEBUG]''"
| "level_strings LOG_INFO = ''[INFO ]''"
| "level_strings LOG_WARN = ''[WARN ]''"
| "level_strings LOG_ERROR = ''[ERROR]''"

definition KLOG_MIN_LEVEL :: log_level_t where "KLOG_MIN_LEVEL = LOG_WARN"

record 'd klog_state =
  tty :: "'d tty_state"
  klog_init_done :: bool
  klog_min_level :: log_level_t

definition klog_ensure_init :: "'d klog_state \<Rightarrow> 'd klog_state" where
  "klog_ensure_init s = (if klog_init_done s then s else s\<lparr>klog_init_done := True\<rparr>)"

definition klog_set_level :: "log_level_t \<Rightarrow> 'd klog_state \<Rightarrow> 'd klog_state" where
  "klog_set_level level s = (klog_ensure_init s)\<lparr>klog_min_level := level\<rparr>"

definition klog_get_level :: "'d klog_state \<Rightarrow> log_level_t" where
  "klog_get_level s = klog_min_level s"

text \<open>The five strings of a line and the line feed, through one printing routine.\<close>

definition klog_line :: "(u8 carray \<Rightarrow> 's \<Rightarrow> 's option) \<Rightarrow> log_level_t \<Rightarrow> u8 carray \<Rightarrow> u8 carray \<Rightarrow> 's \<Rightarrow> 's option" where
  "klog_line print level module buf s =
     Option.bind (print (literal (level_strings level)) s) (\<lambda>s.
     Option.bind (print (literal '' '') s) (\<lambda>s.
     Option.bind (print module s) (\<lambda>s.
     Option.bind (print (literal '': '') s) (\<lambda>s.
     Option.bind (print buf s) (print (literal [CHR 0x0A]))))))"

text \<open>The format and its strings are in memory, \<open>buf\<close> is the 512-byte buffer on the stack with what it held before.\<close>

definition klog ::
  "'d port_io \<Rightarrow> log_level_t \<Rightarrow> u64 \<Rightarrow> u64 \<Rightarrow> (nat \<Rightarrow> u64) \<Rightarrow> memory \<Rightarrow> u8 carray \<Rightarrow> 'd klog_state \<Rightarrow> 'd klog_state option" where
  "klog io level module fmt args m buf s =
     (if level < klog_min_level s then Some s
      else Option.bind (vsnprintf buf 512 fmt args m) (\<lambda>(n, buf).
        let s = klog_ensure_init s in
        Option.bind (klog_line vga_print level (str_at m module) buf (fst (tty s))) (\<lambda>v.
        Option.bind (klog_line (serial_print io) level (str_at m module) buf (snd (tty s))) (\<lambda>d.
          Some (s\<lparr>tty := (v, d)\<rparr>)))))"

section \<open>What a sink of characters offers\<close>

text \<open>
  \<open>shown s t\<close>: the sink in state \<open>s\<close> has been given the characters \<open>t\<close> since it was cleared. The one law is that \<open>putc\<close>
  returns and adds its character.
\<close>

locale printer =
  fixes putc :: "u8 \<Rightarrow> 's \<Rightarrow> 's option" and shown :: "'s \<Rightarrow> u8 list \<Rightarrow> bool"
  assumes put: "shown s t \<Longrightarrow> \<exists>s'. putc c s = Some s' \<and> shown s' (t @ [c])"
begin

lemma put_all_shows: "shown s t \<Longrightarrow> \<exists>s'. put_all putc cs s = Some s' \<and> shown s' (t @ cs)"
proof (induction cs arbitrary: s t)
  case (Cons c cs)
  obtain s1 where s1: "putc c s = Some s1" "shown s1 (t @ [c])" using put [OF Cons.prems] by blast
  then show ?case using Cons.IH [OF s1(2)] by simp
qed simp

end

text \<open>A C string given by its characters.\<close>

definition spells :: "u8 carray \<Rightarrow> u8 list \<Rightarrow> bool" where
  "spells str cs \<longleftrightarrow> (\<forall>k<length cs. str k = cs ! k) \<and> 0 \<notin> set cs \<and> str (length cs) = 0"

lemma print_from_spells: "spells str (xs @ cs) \<Longrightarrow> print_from putc str (length xs) s = put_all putc cs s"
proof (induction cs arbitrary: xs s)
  case Nil
  then show ?case by (subst print_from.simps) (simp add: spells_def)
next
  case (Cons c cs)
  then have "str (length xs) = c" "c \<noteq> 0" by (auto simp: spells_def nth_append)
  moreover have "print_from putc str (length xs + 1) = put_all putc cs"
    using Cons.IH [of "xs @ [c]"] Cons.prems by (simp add: fun_eq_iff)
  ultimately show ?case by (subst print_from.simps) simp
qed

lemmas print_spells = print_from_spells [of _ "[]", simplified]

lemma spells_literal: "0 \<notin> set (map of_char cs :: u8 list) \<Longrightarrow> spells (literal cs) (map of_char cs)"
  by (simp add: spells_def literal_def)

lemma spells_at: "is_cstring m a cs \<Longrightarrow> spells (str_at m a) cs"
proof -
  assume c: "is_cstring m a cs"
  have "cs ! k = m (a + of_nat k)" if "k < length cs" for k
  proof -
    have "cs ! k = bytes m a (length cs) ! k" using c by (simp add: is_cstring_def)
    also have "\<dots> = m (a + of_nat k)" using that by (simp add: bytes_def)
    finally show ?thesis .
  qed
  then show ?thesis using c by (simp add: spells_def is_cstring_def str_at_def)
qed

text \<open>A buffer of characters some of which may be null: the string is what stands before the first one.\<close>

lemma spells_prefix:
  assumes "\<And>k. k < length cs \<Longrightarrow> str k = cs ! k" "str (length cs) = 0"
  shows "spells str (takeWhile (\<lambda>c. c \<noteq> 0) cs)"
proof -
  let ?p = "takeWhile (\<lambda>c. c \<noteq> 0) cs"
  have "str (length ?p) = 0"
  proof (cases "length ?p < length cs")
    case True
    then show ?thesis using assms(1) nth_length_takeWhile [OF True] by simp
  next
    case False
    then show ?thesis using assms(2) length_takeWhile_le [of "\<lambda>c. c \<noteq> 0" cs] by (simp add: le_antisym)
  qed
  moreover have "str k = ?p ! k" if "k < length ?p" for k
    using assms(1) [of k] that length_takeWhile_le [of "\<lambda>c. c \<noteq> 0" cs] by (simp add: takeWhile_nth)
  moreover have "0 \<notin> set ?p" by (auto dest: set_takeWhileD)
  ultimately show ?thesis by (simp add: spells_def)
qed

lemma put_all_Nil: "put_all putc [] = Some"
  by (rule ext) simp

subsection \<open>Numbers\<close>

definition hex_digits :: "nat \<Rightarrow> u64 \<Rightarrow> u8 list" where
  "hex_digits k val = map (\<lambda>i. hex_char (drop_bit (4 * i) val AND 0xF)) (rev [0..<k])"

lemma print_nibbles_all: "print_nibbles putc k val = put_all putc (hex_digits k val)"
proof (induction k)
  case (Suc k)
  show ?case by (rule ext) (simp add: Suc hex_digits_def)
qed (simp add: hex_digits_def fun_eq_iff)

lemma print_reverse_all: "print_reverse putc buf i = put_all putc (rev (map buf [0..<i]))"
proof (induction i)
  case (Suc i)
  show ?case by (rule ext) (simp add: Suc)
qed (simp add: fun_eq_iff)

lemma digits_into_itoa:
  "digits_into val i buf = (i + length (itoa_digits 10 val),
     \<lambda>k. if i \<le> k \<and> k < i + length (itoa_digits 10 val) then itoa_digits 10 val ! (k - i) else buf k)"
proof (induction val i buf rule: digits_into.induct)
  case (1 val i buf)
  show ?case
  proof (cases "val > 0")
    case True
    have "unat (val mod 10) < 10" by (simp add: unat_mod)
    then have c: "digit_char (val mod 10) = ucast (val mod 10) + 48"
      by (simp add: digit_char_def word_less_nat_alt)
    have "itoa_digits 10 val = (ucast (val mod 10) + 48) # itoa_digits 10 (val div 10)"
      using True c by (subst itoa_digits.simps) simp
    then have "(if i + 1 \<le> k \<and> k < i + 1 + length (itoa_digits 10 (val div 10))
        then itoa_digits 10 (val div 10) ! (k - (i + 1)) else (buf(i := ucast (val mod 10) + 48)) k) =
      (if i \<le> k \<and> k < i + length (itoa_digits 10 val) then itoa_digits 10 val ! (k - i) else buf k)" for k
      by (cases "k = i") (auto simp: nth_Cons')
    moreover have "length (itoa_digits 10 val) = 1 + length (itoa_digits 10 (val div 10))"
      using \<open>itoa_digits 10 val = _\<close> by simp
    ultimately show ?thesis using 1 [OF True] True by (subst digits_into.simps) (simp only: if_True add.assoc)
  next
    case False
    then have "itoa_digits 10 val = []" by (subst itoa_digits.simps) simp
    then show ?thesis using False by (subst digits_into.simps) (auto simp: fun_eq_iff)
  qed
qed

text \<open>Printing a number writes what the formatter writes for it.\<close>

lemma print_decimal_itoa: "print_decimal putc junk val s = put_all putc (itoa val 10) s"
proof (cases "val = 0")
  case True
  show ?thesis unfolding True by (simp add: print_decimal_def itoa_def reverse_buf_rev put_all_Nil)
next
  case False
  let ?ds = "itoa_digits 10 val"
  have "map (\<lambda>k. if 0 \<le> k \<and> k < 0 + length ?ds then ?ds ! (k - 0) else junk k) [0..<0 + length ?ds] = ?ds"
    by (rule nth_equalityI) simp_all
  then have "print_decimal putc junk val s = put_all putc (rev ?ds) s"
    unfolding print_decimal_def digits_into_itoa print_reverse_all using False by (simp only: Let_def if_False prod.case)
  then show ?thesis using False by (simp only: itoa_def reverse_buf_rev if_False)
qed

text \<open>Twenty digits are enough.\<close>

lemma itoa_digits_room: "unat val < 10 ^ n \<Longrightarrow> length (itoa_digits 10 val) \<le> n"
proof (induction n arbitrary: val)
  case 0
  then have "val = 0" by (simp add: unat_eq_0)
  then show ?case by (subst itoa_digits.simps) simp
next
  case (Suc n)
  then have "length (itoa_digits 10 (val div 10)) \<le> n" by simp
  then show ?case by (subst itoa_digits.simps) simp
qed

lemma digits_fit: "fst (digits_into val 0 buf) \<le> 20"
proof -
  have "unat val < 2 ^ 64" using unsigned_less [of val, where 'a = nat] by simp
  then have "unat val < 10 ^ 20" by simp
  then show ?thesis by (simp add: digits_into_itoa itoa_digits_room)
qed

section \<open>The screen shows the end of the text\<close>

text \<open>
  The specification is a terminal without an end: finished lines and the current one. A character that finds the current
  line full starts a new one first.
\<close>

fun lay_char :: "u8 list list \<times> u8 list \<Rightarrow> u8 \<Rightarrow> u8 list list \<times> u8 list" where
  "lay_char (ls, cur) c =
     (if c = 10 then (ls @ [cur], []) else if 80 \<le> length cur then (ls @ [cur], [c]) else (ls, cur @ [c]))"

definition layout :: "u8 list \<Rightarrow> u8 list list" where
  "layout t = (let (ls, cur) = foldl lay_char ([], []) t in ls @ [cur])"

definition pad_line :: "u8 \<Rightarrow> u8 list \<Rightarrow> vga_char list" where
  "pad_line a l = map (\<lambda>c. \<lparr>character = c, color_of = a\<rparr>) l @ replicate (80 - length l) \<lparr>character = 32, color_of = a\<rparr>"

text \<open>The last 25 lines, each filled up with blanks, and blank rows below.\<close>

definition view_rows :: "u8 \<Rightarrow> u8 list list \<Rightarrow> vga_char list list" where
  "view_rows a ls = map (pad_line a) (drop (length ls - 25) ls) @ replicate (25 - length ls) (pad_line a [])"

subsection \<open>Rows of cells\<close>

lemma concat_update:
  "\<forall>r\<in>set rs. length r = n \<Longrightarrow> i < length rs \<Longrightarrow> j < n \<Longrightarrow>
   (concat rs)[i * n + j := v] = concat (rs[i := (rs ! i)[j := v]])"
proof (induction rs arbitrary: i)
  case (Cons r rs)
  then show ?case
  proof (cases i)
    case (Suc k)
    then show ?thesis using Cons by (simp add: list_update_append)
  qed (simp add: list_update_append)
qed simp

lemma concat_nth:
  "\<forall>r\<in>set rs. length r = n \<Longrightarrow> i < length rs \<Longrightarrow> j < n \<Longrightarrow> concat rs ! (i * n + j) = rs ! i ! j"
proof (induction rs arbitrary: i)
  case (Cons r rs)
  then show ?case by (cases i) (simp_all add: nth_append)
qed simp

text \<open>A screen of rows and its cells: the buffer is \<open>rs\<close>, 25 rows of 80.\<close>

definition grid :: "vga_state \<Rightarrow> vga_char list list \<Rightarrow> bool" where
  "grid s rs \<longleftrightarrow> vga_buffer s = concat rs \<and> length rs = 25 \<and> (\<forall>r\<in>set rs. length r = 80)"

lemma grid_put:
  assumes "grid s rs" "i < 25" "j < 80"
  shows "grid (put_cell (of_nat i * NUM_COLS + of_nat j) v s) (rs[i := (rs ! i)[j := v]])"
proof -
  have "unat (of_nat i * NUM_COLS + of_nat j) = unat (of_nat (i * 80 + j) :: u64)" by (simp add: NUM_COLS_def)
  also have "\<dots> = i * 80 + j" using assms(2,3) by (intro unat_of_nat_small) simp
  finally have u: "unat (of_nat i * NUM_COLS + of_nat j) = i * 80 + j" .
  have "length r = 80" if "r \<in> set (rs[i := (rs ! i)[j := v]])" for r
    using assms that set_update_subset_insert [of rs i "(rs ! i)[j := v]"] nth_mem [of i rs] by (auto simp: grid_def)
  then show ?thesis using assms concat_update [of rs 80 i j v] by (simp add: grid_def put_cell_def u)
qed

lemma grid_get:
  assumes "grid s rs" "i < 25" "j < 80"
  shows "vga_buffer s ! unat (of_nat i * NUM_COLS + of_nat j) = rs ! i ! j"
proof -
  have "unat (of_nat i * NUM_COLS + of_nat j) = unat (of_nat (i * 80 + j) :: u64)" by (simp add: NUM_COLS_def)
  also have "\<dots> = i * 80 + j" using assms(2,3) by (intro unat_of_nat_small) simp
  finally show ?thesis using assms concat_nth [of rs 80 i j] by (simp add: grid_def)
qed

lemma put_cell_frame [simp]:
  "row (put_cell i v s) = row s" "col (put_cell i v s) = col s" "vcolor (put_cell i v s) = vcolor s"
  by (simp_all add: put_cell_def)

text \<open>Filling a row, or copying the one below into it, cell by cell.\<close>

lemma fill_row:
  assumes "grid s rs" "i < 25" "n \<le> 80"
    and g: "\<And>s' c rs'. grid s' rs' \<Longrightarrow> (\<forall>k<25. k \<noteq> i \<longrightarrow> rs' ! k = rs ! k) \<Longrightarrow> vcolor s' = vcolor s \<Longrightarrow> c < 80 \<Longrightarrow> g s' c = new ! c"
    and new: "length new = 80"
  shows "let t = fold (\<lambda>c s. put_cell (of_nat i * NUM_COLS + of_nat c) (g s c) s) [0..<n] s in grid t (rs[i := take n new @ drop n (rs ! i)]) \<and>
    row t = row s \<and> col t = col s \<and> vcolor t = vcolor s"
  using assms(3)
proof (induction n)
  case 0
  then show ?case using assms(1) by (simp add: grid_def)
next
  case (Suc n)
  define t where "t = fold (\<lambda>c s. put_cell (of_nat i * NUM_COLS + of_nat c) (g s c) s) [0..<n] s"
  let ?rs = "rs[i := take n new @ drop n (rs ! i)]"
  have t: "grid t ?rs" "row t = row s" "col t = col s" "vcolor t = vcolor s"
    using Suc by (simp_all add: t_def Let_def)
  have l: "length rs = 25" "length (rs ! i) = 80" using assms(1,2) by (simp_all add: grid_def)
  have "g t n = new ! n" using Suc.prems by (intro g [OF t(1)]) (auto simp: t(4))
  moreover have "(take n new @ drop n (rs ! i))[n := new ! n] = take (Suc n) new @ drop (Suc n) (rs ! i)"
    using Suc.prems l new by (simp add: list_update_append take_Suc_conv_app_nth Cons_nth_drop_Suc [symmetric])
  ultimately have "grid (put_cell (of_nat i * NUM_COLS + of_nat n) (g t n) t) (rs[i := take (Suc n) new @ drop (Suc n) (rs ! i)])"
    using grid_put [OF t(1) assms(2), of n "g t n"] Suc.prems l assms(2) by simp
  then show ?case using t by (simp add: t_def [symmetric] Let_def)
qed

lemma scroll_row_grid:
  assumes "grid s rs" "0 < r" "r < 25"
  shows "grid (scroll_row (of_nat r) s) (rs[r - 1 := rs ! r])" "row (scroll_row (of_nat r) s) = row s"
    "col (scroll_row (of_nat r) s) = col s" "vcolor (scroll_row (of_nat r) s) = vcolor s"
proof -
  obtain i where i: "r = Suc i" using assms(2) by (cases r) auto
  have len: "length (rs ! r) = 80" "length (rs ! i) = 80" using assms i by (simp_all add: grid_def)
  have cell: "vga_buffer s' ! unat (of_nat r * NUM_COLS + of_nat c) = rs ! r ! c"
    if "grid s' rs'" "\<forall>k<25. k \<noteq> i \<longrightarrow> rs' ! k = rs ! k" "c < 80" for s' c rs'
    using grid_get [OF that(1) assms(3) that(3)] that(2) assms(3) i by simp
  have "of_nat r - 1 = (of_nat i :: u64)" by (simp add: i)
  then have run: "scroll_row (of_nat r) s = fold (\<lambda>c s. put_cell (of_nat i * NUM_COLS + of_nat c)
      (vga_buffer s ! unat (of_nat r * NUM_COLS + of_nat c)) s) [0..<80] s"
    by (simp only: scroll_row_def NUM_COLS_def) simp
  have "i < 25" using assms(3) i by simp
  have "let t = scroll_row (of_nat r) s in grid t (rs[i := take 80 (rs ! r) @ drop 80 (rs ! i)]) \<and>
      row t = row s \<and> col t = col s \<and> vcolor t = vcolor s"
    unfolding run by (rule fill_row [OF assms(1) \<open>i < 25\<close>]) (use cell len in blast)+
  then show "grid (scroll_row (of_nat r) s) (rs[r - 1 := rs ! r])" "row (scroll_row (of_nat r) s) = row s"
    "col (scroll_row (of_nat r) s) = col s" "vcolor (scroll_row (of_nat r) s) = vcolor s"
    using len by (simp_all add: Let_def i)
qed

lemma scroll_rows_grid:
  assumes "grid s rs" "n < 25"
  shows "let t = fold (\<lambda>r. scroll_row (of_nat r)) [1..<Suc n] s in
    grid t (take n (tl rs) @ drop n rs) \<and> row t = row s \<and> col t = col s \<and> vcolor t = vcolor s"
  using assms(2)
proof (induction n)
  case (Suc n)
  let ?t = "fold (\<lambda>r. scroll_row (of_nat r)) [1..<Suc n] s"
  let ?rs = "take n (tl rs) @ drop n rs"
  have t: "grid ?t ?rs" "row ?t = row s" "col ?t = col s" "vcolor ?t = vcolor s" using Suc by (simp_all add: Let_def)
  have l: "length rs = 25" using assms(1) by (simp add: grid_def)
  have "?rs ! Suc n = rs ! Suc n" using l Suc.prems by (simp add: nth_append)
  moreover have "?rs[n := rs ! Suc n] = take (Suc n) (tl rs) @ drop (Suc n) rs"
    using l Suc.prems by (simp add: list_update_append take_Suc_conv_app_nth nth_tl Cons_nth_drop_Suc [symmetric])
  ultimately show ?case
    using scroll_row_grid [OF t(1), of "Suc n"] t(2-4) Suc.prems by (simp add: Let_def)
qed (use assms(1) in simp)

lemma vga_scroll_grid:
  assumes "grid s rs"
  shows "grid (vga_scroll s) (tl rs @ [replicate 80 (blank_cell s)])" "row (vga_scroll s) = row s"
    "col (vga_scroll s) = col s" "vcolor (vga_scroll s) = vcolor s"
proof -
  define t where "t = fold (\<lambda>r. scroll_row (of_nat r)) [1..<25] s"
  have l: "length rs = 25" using assms by (simp add: grid_def)
  have t: "grid t (take 24 (tl rs) @ drop 24 rs)" "row t = row s" "col t = col s" "vcolor t = vcolor s"
    using scroll_rows_grid [OF assms, of 24] by (simp_all add: t_def Let_def eval_nat_numeral)
  have run: "vga_scroll s = fold (\<lambda>c s. put_cell (of_nat 24 * NUM_COLS + of_nat c) (blank_cell s) s) [0..<80] t"
    by (simp add: vga_scroll_def t_def NUM_ROWS_def NUM_COLS_def)
  have b: "blank_cell s' = replicate 80 (blank_cell s) ! c" if "vcolor s' = vcolor t" "c < 80" for s' c
    using that t(4) by (simp add: blank_cell_def)
  have len: "length (replicate 80 (blank_cell s)) = 80" "24 < (25 :: nat)" "80 \<le> (80 :: nat)" by simp_all
  have "let u = vga_scroll s in
      grid u ((take 24 (tl rs) @ drop 24 rs)[24 := take 80 (replicate 80 (blank_cell s)) @ drop 80 ((take 24 (tl rs) @ drop 24 rs) ! 24)]) \<and>
      row u = row t \<and> col u = col t \<and> vcolor u = vcolor t"
    unfolding run by (rule fill_row [OF t(1)]) (use b len in blast)+
  moreover have "drop 24 rs = [rs ! 24]" using l by (simp add: Cons_nth_drop_Suc [symmetric])
  moreover have "length (rs ! 24) = 80" using assms l by (simp add: grid_def)
  moreover have "take 24 (tl rs) = tl rs" "length (tl rs) = 24" using l by simp_all
  ultimately show "grid (vga_scroll s) (tl rs @ [replicate 80 (blank_cell s)])" "row (vga_scroll s) = row s"
    "col (vga_scroll s) = col s" "vcolor (vga_scroll s) = vcolor s"
    using t(2-4) by (simp_all add: Let_def nth_append list_update_append)
qed

subsection \<open>Lines\<close>

lemma length_view_rows [simp]: "length (view_rows a L) = 25"
  by (auto simp: view_rows_def)

lemma length_pad_line: "length l \<le> 80 \<Longrightarrow> length (pad_line a l) = 80"
  by (simp add: pad_line_def)

lemma view_rows_newline_room: "length L < 25 \<Longrightarrow> view_rows a (L @ [[]]) = view_rows a L"
  by (simp add: view_rows_def replicate_append_same [symmetric] Suc_diff_Suc [symmetric])

lemma view_rows_newline_full: "25 \<le> length L \<Longrightarrow> view_rows a (L @ [[]]) = tl (view_rows a L) @ [pad_line a []]"
proof -
  assume "25 \<le> length L"
  then have "Suc (length L) - 25 = Suc (length L - 25)" by simp
  then have "drop (Suc (length L) - 25) L = tl (drop (length L - 25) L)" by (simp only: tl_drop drop_Suc)
  then show ?thesis using \<open>25 \<le> length L\<close> by (simp add: view_rows_def map_tl)
qed

lemma view_rows_last:
  "view_rows a (L @ [l]) ! (min 25 (length (L @ [l])) - 1) = pad_line a l"
  "(view_rows a (L @ [l]))[min 25 (length (L @ [l])) - 1 := pad_line a l'] = view_rows a (L @ [l'])"
  by (cases "length L < 25"; simp add: view_rows_def nth_append list_update_append min_def)+

lemma pad_line_put:
  "length l < 80 \<Longrightarrow> (pad_line a l)[length l := \<lparr>character = c, color_of = a\<rparr>] = pad_line a (l @ [c])"
  by (simp add: pad_line_def list_update_append Suc_diff_Suc [symmetric])

definition shown_lines :: "vga_state \<Rightarrow> u8 list list \<Rightarrow> bool" where
  "shown_lines s L \<longleftrightarrow> L \<noteq> [] \<and> (\<forall>l\<in>set L. length l \<le> 80) \<and> grid s (view_rows (vcolor s) L) \<and>
     row s = of_nat (min 25 (length L) - 1) \<and> col s = of_nat (length (last L))"

lemma grid_cursor [simp]: "grid (s\<lparr>col := x\<rparr>) rs = grid s rs" "grid (s\<lparr>row := x\<rparr>) rs = grid s rs"
  by (simp_all add: grid_def)

lemma newline_lines:
  assumes "shown_lines s L"
  shows "shown_lines (print_newline s) (L @ [[]])" "vcolor (print_newline s) = vcolor s"
proof -
  let ?s = "s\<lparr>col := 0\<rparr>"
  have L: "L \<noteq> []" "grid ?s (view_rows (vcolor s) L)" "row s = of_nat (min 25 (length L) - 1)"
    using assms by (simp_all add: shown_lines_def)
  have "unat (row s) = min 25 (length L) - 1" unfolding L(3) by (intro unat_of_nat_small) simp
  then have lim: "row s < NUM_ROWS - 1 \<longleftrightarrow> length L < 25" using L(1) by (auto simp: NUM_ROWS_def word_less_nat_alt)
  show "shown_lines (print_newline s) (L @ [[]])"
  proof (cases "length L < 25")
    case True
    obtain k where k: "length L = Suc k" using L(1) by (cases L) auto
    have "min 25 (Suc (length L)) - 1 = k + 1" "min 25 (length L) - 1 = k" using True k by simp_all
    then have "row s + 1 = of_nat (min 25 (Suc (length L)) - 1)" unfolding L(3) by (simp only: of_nat_add of_nat_1)
    then show ?thesis
      using assms True lim view_rows_newline_room [OF True] by (simp add: shown_lines_def print_newline_def Let_def)
  next
    case False
    have "replicate 80 (blank_cell ?s) = pad_line (vcolor s) []" by (simp add: pad_line_def blank_cell_def)
    then show ?thesis
      using assms False lim vga_scroll_grid [OF L(2)] view_rows_newline_full [of L] L(3)
      by (simp add: shown_lines_def print_newline_def Let_def)
  qed
  show "vcolor (print_newline s) = vcolor s"
    using lim vga_scroll_grid [OF L(2)] by (simp add: print_newline_def Let_def)
qed

lemma put_lines:
  assumes "shown_lines s (L @ [l])" "length l < 80"
  shows "shown_lines (let s2 = put_cell (row s * NUM_COLS + col s) \<lparr>character = c, color_of = vcolor s\<rparr> s in s2\<lparr>col := col s2 + 1\<rparr>)
    (L @ [l @ [c]])"
proof -
  let ?i = "min 25 (length (L @ [l])) - 1"
  have s: "grid s (view_rows (vcolor s) (L @ [l]))" "row s = of_nat ?i" "col s = of_nat (length l)"
    using assms(1) by (simp_all add: shown_lines_def)
  have "grid (put_cell (row s * NUM_COLS + col s) \<lparr>character = c, color_of = vcolor s\<rparr> s)
      ((view_rows (vcolor s) (L @ [l]))[?i := pad_line (vcolor s) (l @ [c])])"
    using grid_put [OF s(1), of ?i "length l" "\<lparr>character = c, color_of = vcolor s\<rparr>"] assms(2) unfolding s(2,3) view_rows_last(1) pad_line_put [OF assms(2)] by simp
  then show ?thesis
    using assms s(2,3) unfolding view_rows_last(2) by (simp add: shown_lines_def Let_def add.commute)
qed

lemma layout_snoc:
  "layout (t @ [c]) = (let L = layout t in
     if c = 10 then L @ [[]] else if 80 \<le> length (last L) then L @ [[c]] else butlast L @ [last L @ [c]])"
  by (cases "foldl lay_char ([], []) t") (simp add: layout_def Let_def)

lemma print_char_lines:
  assumes "shown_lines s (layout t)"
  shows "shown_lines (vga_print_char c s) (layout (t @ [c]))"
proof -
  let ?L = "layout t"
  have L: "?L = butlast ?L @ [last ?L]" "length (last ?L) \<le> 80" "col s = of_nat (length (last ?L))"
    using assms by (simp_all add: shown_lines_def)
  have "unat (col s) = length (last ?L)" unfolding L(3) using L(2) by (intro unat_of_nat_small) simp
  then have lim: "col s \<ge> NUM_COLS \<longleftrightarrow> 80 \<le> length (last ?L)" by (simp add: NUM_COLS_def word_le_nat_alt)
  consider "c = 10" | "c \<noteq> 10" "80 \<le> length (last ?L)" | "c \<noteq> 10" "length (last ?L) < 80" by linarith
  then show ?thesis
  proof cases
    case 1
    then show ?thesis using newline_lines(1) [OF assms] by (simp add: vga_print_char_def layout_snoc)
  next
    case 2
    then show ?thesis
      using put_lines [OF newline_lines(1) [OF assms], of c] lim newline_lines(2) [OF assms]
      by (simp add: vga_print_char_def layout_snoc Let_def)
  next
    case 3
    then show ?thesis
      using put_lines [of s "butlast ?L" "last ?L" c] L(1) assms lim by (simp add: vga_print_char_def layout_snoc Let_def)
  qed
qed

lemma fill_cells:
  assumes "length (vga_buffer s) = 2000" "n \<le> 2000"
  shows "fold (\<lambda>i s. put_cell (of_nat i) (blank_cell s) s) [0..<n] s =
    s\<lparr>vga_buffer := replicate n (blank_cell s) @ drop n (vga_buffer s)\<rparr>"
  using assms(2)
proof (induction n)
  case (Suc n)
  have "unat (of_nat n :: u64) = n" using Suc.prems by (intro unat_of_nat_small) simp
  then show ?case
    using Suc assms(1) by (simp add: put_cell_def blank_cell_def list_update_append Cons_nth_drop_Suc [symmetric] replicate_append_same)
qed simp

lemma clear_lines: "length (vga_buffer s) = 2000 \<Longrightarrow> shown_lines (vga_clear s) (layout [])"
proof -
  assume l: "length (vga_buffer s) = 2000"
  have "vga_clear s = s\<lparr>vga_buffer := replicate 2000 (blank_cell s), col := 0, row := 0\<rparr>"
    using fill_cells [OF l, of 2000] l by (simp add: vga_clear_def NUM_COLS_def NUM_ROWS_def)
  moreover have "concat (replicate n (replicate 80 x)) = replicate (n * 80) x" for n and x :: vga_char
    by (induction n) (simp_all add: replicate_add)
  then have "concat (view_rows (vcolor s) (layout [])) = replicate (80 + 24 * 80) (blank_cell s)"
    unfolding replicate_add by (simp add: layout_def view_rows_def pad_line_def blank_cell_def)
  moreover have "\<forall>r\<in>set (view_rows a [[]]). length r = 80" for a
    by (simp add: view_rows_def pad_line_def)
  ultimately show ?thesis by (simp add: shown_lines_def layout_def grid_def)
qed

interpretation screen: printer vga_putc "\<lambda>s t. shown_lines s (layout t)"
  by unfold_locales (simp add: vga_putc_def print_char_lines)

section \<open>A serial controller\<close>

text \<open>
  The 16550 at COM1 as far as the driver uses it: the transmit register is busy for \<open>lag\<close> polls of the status register after
  each byte; with the divisor latch bit set, port COM1 is the divisor. All other ports are plain registers.
\<close>

record uart =
  thr_busy :: nat
  tx_log :: "u8 list"
  rx_fifo :: "u8 list"
  divisor :: u8
  regs :: "u16 \<Rightarrow> u8"

fun uart_inb :: "u16 \<Rightarrow> uart \<Rightarrow> u8 \<times> uart" where
  "uart_inb p u =
     (if p = COM1 + 5
      then ((if thr_busy u = 0 then 0x20 else 0) OR (if rx_fifo u = [] then 0 else 1), u\<lparr>thr_busy := thr_busy u - 1\<rparr>)
      else if p = COM1 then (case rx_fifo u of [] \<Rightarrow> (0, u) | c # cs \<Rightarrow> (c, u\<lparr>rx_fifo := cs\<rparr>))
      else (regs u p, u))"

fun uart_outb :: "nat \<Rightarrow> u16 \<Rightarrow> u8 \<Rightarrow> uart \<Rightarrow> uart" where
  "uart_outb lag p v u =
     (if p \<noteq> COM1 then u\<lparr>regs := (regs u)(p := v)\<rparr>
      else if regs u (COM1 + 3) AND 0x80 \<noteq> 0 then u\<lparr>divisor := v\<rparr>
      else u\<lparr>tx_log := tx_log u @ [v], thr_busy := lag\<rparr>)"

definition uart_io :: "nat \<Rightarrow> uart port_io" where
  "uart_io lag = \<lparr>inb = uart_inb, inw = (\<lambda>p u. (0, u)), outb = uart_outb lag, outw = (\<lambda>p v u. u)\<rparr>"

definition line_shows :: "u8 list \<Rightarrow> uart \<Rightarrow> u8 list \<Rightarrow> bool" where
  "line_shows base u t \<longleftrightarrow> regs u (COM1 + 3) AND 0x80 = 0 \<and> tx_log u = base @ t"

lemma wait_transmit_uart: "wait_transmit (uart_io lag) u = Some (u\<lparr>thr_busy := 0\<rparr>)"
proof (induction "thr_busy u" arbitrary: u)
  case 0
  then show ?case by (subst wait_transmit.simps) (simp add: uart_io_def)
next
  case (Suc n)
  then have "n = thr_busy (u\<lparr>thr_busy := n\<rparr>)" by simp
  from Suc.hyps(1) [OF this] show ?case
    using Suc.hyps(2) [symmetric] by (subst wait_transmit.simps) (simp add: uart_io_def)
qed

interpretation line: printer "serial_putc (uart_io lag)" "line_shows base" for lag base
proof
  fix s t c
  assume "line_shows base s t"
  then show "\<exists>s'. serial_putc (uart_io lag) c s = Some s' \<and> line_shows base s' (t @ [c])"
    by (simp add: serial_putc_def wait_transmit_uart line_shows_def) (simp add: uart_io_def COM1_def)
qed

text \<open>After \<open>serial_init\<close> the line is set up: divisor 3, latch closed, interrupt 4 of the controller unmasked.\<close>

lemma serial_init_ready:
  fixes lag :: nat and u :: uart
  defines "v \<equiv> serial_init (uart_io lag) u"
  shows "divisor v = 3" "tx_log v = tx_log u" "line_shows (tx_log v) v []" "regs v 0x21 = regs u 0x21 AND NOT 16" "regs v (COM1 + 1) = 1"
  by (simp_all add: v_def serial_init_def uart_io_def COM1_def line_shows_def)

text \<open>The handler passes on every byte that is waiting, in order.\<close>

lemma serial_handler_drains:
  assumes "\<And>c d k. shell_input c (d, k) = Some (d, f c k)"
  shows "serial_handler (uart_io lag) shell_input (u, k) =
    Some (u\<lparr>rx_fifo := [], thr_busy := thr_busy u - Suc (length (rx_fifo u))\<rparr>, fold f (rx_fifo u) k)"
proof (induction "rx_fifo u" arbitrary: u k)
  case Nil
  then show ?case by (subst serial_handler.simps) (simp add: uart_io_def COM1_def)
next
  case (Cons c cs)
  let ?u = "u\<lparr>thr_busy := thr_busy u - 1, rx_fifo := cs\<rparr>"
  have "cs = rx_fifo ?u" by simp
  from Cons.hyps(1) [OF this, of "f c k"] show ?case
    using Cons.hyps(2) [symmetric] assms by (subst serial_handler.simps) (simp add: uart_io_def COM1_def)
qed

section \<open>Two sinks at once\<close>

locale tee = one: printer put1 shown1 + two: printer put2 shown2
  for put1 :: "u8 \<Rightarrow> 'a \<Rightarrow> 'a option" and shown1 and put2 :: "u8 \<Rightarrow> 'b \<Rightarrow> 'b option" and shown2
begin

lemma both: "shown1 (fst s) t \<Longrightarrow> shown2 (snd s) t \<Longrightarrow>
    \<exists>a b. put1 c (fst s) = Some a \<and> put2 c (snd s) = Some b \<and> shown1 a (t @ [c]) \<and> shown2 b (t @ [c])"
  using one.put two.put by blast

end

sublocale tee \<subseteq> both: printer "\<lambda>c s. Option.bind (put1 c (fst s)) (\<lambda>a. map_option (Pair a) (put2 c (snd s)))"
    "\<lambda>s t. shown1 (fst s) t \<and> shown2 (snd s) t"
proof
  fix s t c
  assume "shown1 (fst s) t \<and> shown2 (snd s) t"
  then obtain a b where "put1 c (fst s) = Some a" "put2 c (snd s) = Some b" "shown1 a (t @ [c])" "shown2 b (t @ [c])"
    using both by blast
  then show "\<exists>s'. Option.bind (put1 c (fst s)) (\<lambda>a. map_option (Pair a) (put2 c (snd s))) = Some s' \<and>
      shown1 (fst s') (t @ [c]) \<and> shown2 (snd s') (t @ [c])" by simp
qed

interpretation console: tee vga_putc "\<lambda>s t. shown_lines s (layout t)" "serial_putc (uart_io lag)" "line_shows base" for lag base
  by unfold_locales

lemma tty_putchar_tee:
  "tty_putchar io c = (\<lambda>s. Option.bind (vga_putc c (fst s)) (\<lambda>a. map_option (Pair a) (serial_putc io c (snd s))))"
  by (simp add: tty_putchar_def vga_putc_def fun_eq_iff)

lemma put_all_append: "put_all putc (xs @ ys) s = Option.bind (put_all putc xs s) (put_all putc ys)"
proof (induction xs arbitrary: s)
  case (Cons x xs)
  then show ?case by (cases "putc x s") simp_all
qed simp

section \<open>Properties\<close>

text \<open>The decimal digits the serial line shows are those of the formatter and read back as the number; 20 are enough.\<close>

theorem serial_print_dec_correct:
  "\<exists>cs d'. serial_print_dec (uart_io lag) junk val (serial_init (uart_io lag) d) = Some d' \<and>
     tx_log d' = tx_log d @ cs \<and> cs = itoa val 10 \<and> numeral_value 10 cs = unat val \<and> length cs \<le> 20"
proof -
  note s = serial_init_ready [of lag d]
  obtain d' where d: "put_all (serial_putc (uart_io lag)) (itoa val 10) (serial_init (uart_io lag) d) = Some d'"
    "line_shows (tx_log d) d' (itoa val 10)"
    using line.put_all_shows [OF s(3), of lag "itoa val 10"] s(2) by auto
  have "length (itoa val 10) \<le> 20"
  proof (cases "val = 0")
    case False
    then show ?thesis using digits_fit [of val junk] by (simp add: digits_into_itoa itoa_def reverse_buf_rev)
  qed (simp add: itoa_def reverse_buf_rev)
  then show ?thesis
    using d itoa_value [of 10 val] by (auto simp: serial_print_dec_def print_decimal_itoa line_shows_def)
qed

text \<open>Writing to the TTY: the data goes out on the line and the screen shows the end of its layout.\<close>

theorem tty_write_correct:
  assumes "length (vga_buffer v) = 2000" "regs d (COM1 + 3) AND 0x80 = 0" "t = map data [0..<unat n]"
  shows "\<exists>v' d'. tty_write (uart_io lag) data n (vga_clear v, d) = Some (v', d') \<and>
    tx_log d' = tx_log d @ t \<and> shown_lines v' (layout t)"
  using console.both.put_all_shows [of "(vga_clear v, d)" "[]" "tx_log d" lag t] clear_lines [OF assms(1)] assms(2,3)
  by (auto simp: tty_write_def tty_putchar_tee [abs_def] line_shows_def)

text \<open>A line of the log through one printing routine.\<close>

lemma klog_line_all:
  assumes "spells module ms" "spells buf bs"
  shows "klog_line (\<lambda>str. print_from putc str 0) level module buf s =
    put_all putc (map of_char (level_strings level) @ [32] @ ms @ [58, 32] @ bs @ [10]) s"
proof -
  have l: "spells (literal (level_strings level)) (map of_char (level_strings level))"
    by (rule spells_literal) (cases level; simp)
  have c: "spells (literal '' '') [32]" "spells (literal '': '') [58, 32]" "spells (literal [CHR 0x0A]) [10]"
    using spells_literal [of "'' ''"] spells_literal [of "'': ''"] spells_literal [of "[CHR 0x0A]"] by simp_all
  have k: "print_from putc (literal [CHR 0x0A]) 0 = put_all putc [10]" using print_spells [OF c(3)] by (rule ext)
  show ?thesis
    unfolding klog_line_def print_spells [OF l] print_spells [OF assms(1)] print_spells [OF assms(2)] print_spells [OF c(1)]
      print_spells [OF c(2)] k
    by (simp only: put_all_append [abs_def] Option.bind_assoc)
qed

text \<open>
  C30. A log call below the minimum level does nothing. Otherwise it returns, and the screen and the line both get one line:
  the level, the module and the first 511 characters of the rendered format, up to a null character among them.
\<close>

theorem klog_correct:
  assumes "shown_lines (fst (tty s)) (layout t)" "regs (snd (tty s)) (COM1 + 3) AND 0x80 = 0"
    and "is_cstring m module ms" "is_cstring m fmt bs" "renders m args 0 bs out"
    and "new = map of_char (level_strings level) @ [32] @ ms @ [58, 32] @ takeWhile (\<lambda>c. c \<noteq> 0) (take 511 out) @ [10]"
  shows "\<exists>s'. klog (uart_io lag) level module fmt args m buf s = Some s' \<and>
    (if level < klog_min_level s then s' = s
     else shown_lines (fst (tty s')) (layout (t @ new)) \<and> tx_log (snd (tty s')) = tx_log (snd (tty s)) @ new \<and>
       klog_init_done s' \<and> klog_min_level s' = klog_min_level s)"
proof (cases "level < klog_min_level s")
  case False
  let ?len = "min (length out) 511"
  let ?buf = "\<lambda>j. if j < ?len then out ! j else if j = ?len then 0 else buf j"
  have v: "vsnprintf buf 512 fmt args m = Some (of_nat ?len, ?buf)"
    using vsnprintf_prints [OF assms(4,5), of 512 ?len buf] by simp
  have b: "spells ?buf (takeWhile (\<lambda>c. c \<noteq> 0) (take 511 out))" by (rule spells_prefix) (auto simp: min.commute)
  have mo: "spells (str_at m module) ms" by (rule spells_at [OF assms(3)])
  obtain v' where v': "put_all vga_putc new (fst (tty s)) = Some v'" "shown_lines v' (layout (t @ new))"
    using screen.put_all_shows [OF assms(1)] by blast
  obtain d' where d': "put_all (serial_putc (uart_io lag)) new (snd (tty s)) = Some d'" "line_shows (tx_log (snd (tty s))) d' new"
    using line.put_all_shows [of "tx_log (snd (tty s))" "snd (tty s)" "[]" lag new] assms(2) by (auto simp: line_shows_def)
  have "klog_line vga_print level (str_at m module) ?buf (fst (tty s)) = Some v'"
    "klog_line (serial_print (uart_io lag)) level (str_at m module) ?buf (snd (tty s)) = Some d'"
    unfolding vga_print_def [abs_def] serial_print_def [abs_def] klog_line_all [OF mo b] using v'(1) d'(1) by (simp_all only: assms(6))
  then show ?thesis
    using False v v'(2) d'(2) by (simp add: klog_def klog_ensure_init_def line_shows_def Let_def)
qed (simp add: klog_def)

text \<open>The format \<open>n=%u\<close> at address 0, the module \<open>MEM\<close> at 0x100, a screen that has been cleared and a line at rest.\<close>

definition log_memory :: memory where
  "log_memory a = (if a = 0x100 then 77 else if a = 0x101 then 69 else if a = 0x102 then 77 else n_format a)"

definition log_start :: "uart klog_state" where
  "log_start =
     \<lparr>tty = (vga_clear \<lparr>vga_buffer = replicate 2000 \<lparr>character = 0, color_of = 0\<rparr>, col = 7, row = 3, vcolor = 7\<rparr>,
        \<lparr>thr_busy = 2, tx_log = [], rx_fifo = [], divisor = 3, regs = (\<lambda>_. 0)\<rparr>),
      klog_init_done = False, klog_min_level = KLOG_MIN_LEVEL\<rparr>"

theorem klog_correct_witness:
  "\<exists>s'. klog (uart_io 3) LOG_ERROR 0x100 0 (\<lambda>_. 5) log_memory (\<lambda>_. 0) log_start = Some s' \<and>
     tx_log (snd (tty s')) = map of_char ''[ERROR] MEM: n=5'' @ [10]"
proof -
  let ?new = "map of_char (level_strings LOG_ERROR) @ [32] @ [77, 69, 77] @ [58, 32] @
    takeWhile (\<lambda>c. c \<noteq> 0) (take 511 (110 # 61 # itoa 5 10 @ [])) @ [10]"
  have d: "itoa_digits 10 n = (if n = 0 then [] else digit_char (n mod 10) # itoa_digits 10 (n div 10))" for n
    by (subst itoa_digits.simps) (simp add: word_gt_0)
  have "itoa_digits 10 5 = [53]" by (subst d, subst d) (simp add: digit_char_def)
  then have i: "itoa 5 10 = [53]" by (simp add: itoa_def reverse_buf_rev)
  have r: "renders log_memory (\<lambda>_. 5) 0 [110, 61, 37, 117] (110 # 61 # itoa 5 10 @ [])"
    by (rule r_plain, simp, rule r_plain, simp, rule r_unsigned, rule r_end)
  have m: "is_cstring log_memory 0x100 [77, 69, 77]" "is_cstring log_memory 0 [110, 61, 37, 117]"
    by (simp_all add: log_memory_def n_format_def)
  have s: "shown_lines (fst (tty log_start)) (layout [])" "regs (snd (tty log_start)) (COM1 + 3) AND 0x80 = 0"
    by (simp_all add: log_start_def clear_lines)
  have "\<not> LOG_ERROR < klog_min_level log_start" by (simp add: log_start_def KLOG_MIN_LEVEL_def less_log_level_t_def)
  then show ?thesis
    using klog_correct [OF s m r refl, of 3 LOG_ERROR "\<lambda>_. 0"] unfolding i by (auto simp: log_start_def)
qed

end
