(* ===== verification/Input.thy ===== *)
theory Input
  imports Ata
begin

text \<open>
  Timer and input devices: the interval timer and the time stamp delays (src/kernel/pit.c), the keyboard
  (src/kernel/keyboard.c) and the mouse (src/kernel/mouse.c). Ports are the parameter of \<open>Ata\<close>; the time stamp counter is
  a function of the device state. What the handlers call in the rest of the kernel is a parameter here.
\<close>

section \<open>The interval timer\<close>

record pit_vars =
  ticks :: u64
  tsc_freq_mhz :: u64

text \<open>A frequency of 0 divides by zero: \<open>None\<close>.\<close>

definition pit_init :: "'d port_io \<Rightarrow> u32 \<Rightarrow> 'd \<Rightarrow> 'd option" where
  "pit_init io frequency d =
     (if frequency = 0 then None
      else let dv = 1193182 div frequency;
               d = outb io 0x43 0x36 d;
               d = outb io 0x40 (ucast (dv AND 0xFF)) d;
               d = outb io 0x40 (ucast (drop_bit 8 dv AND 0xFF)) d;
               (m, d) = inb io 0x21 d
           in Some (outb io 0x21 (m AND NOT 1) d))"

definition pit_handler :: "('k \<Rightarrow> 'k) \<Rightarrow> pit_vars \<times> 'k \<Rightarrow> pit_vars \<times> 'k" where
  "pit_handler task_timer_tick = (\<lambda>(v, k). (v\<lparr>ticks := ticks v + 1\<rparr>, task_timer_tick k))"

definition pit_get_ticks :: "pit_vars \<Rightarrow> u64" where
  "pit_get_ticks v = ticks v"

section \<open>The time stamp counter\<close>

text \<open>
  \<open>rdtsc\<close> joins the two halves the instruction delivers. While the code below spins, interrupts advance \<open>ticks\<close>; the
  machine is a parameter: \<open>tsc\<close> reads the counter, \<open>poll\<close> reads \<open>ticks\<close>, and both move the device state on.
\<close>

definition rdtsc :: "('d \<Rightarrow> u32 \<times> u32 \<times> 'd) \<Rightarrow> 'd \<Rightarrow> u64 \<times> 'd" where
  "rdtsc tsc d = (let (lo, hi, d1) = tsc d in (push_bit 32 (ucast hi) OR ucast lo, d1))"

partial_function (option) wait_tick :: "('d \<Rightarrow> u64 \<times> 'd) \<Rightarrow> u64 \<Rightarrow> 'd \<Rightarrow> 'd option" where
  "wait_tick poll start d = (case poll d of (t, d1) \<Rightarrow> if t = start then wait_tick poll start d1 else Some d1)"

definition tsc_calibrate ::
  "('d \<Rightarrow> u64 \<times> 'd) \<Rightarrow> ('d \<Rightarrow> u32 \<times> u32 \<times> 'd) \<Rightarrow> pit_vars \<times> 'd \<Rightarrow> (pit_vars \<times> 'd) option" where
  "tsc_calibrate poll tsc = (\<lambda>(v, d).
     let (start_ticks, d) = poll d in
     Option.bind (wait_tick poll start_ticks d) (\<lambda>d.
     let (start_tsc, d) = rdtsc tsc d;
         (start_ticks, d) = poll d in
     Option.bind (wait_tick poll start_ticks d) (\<lambda>d.
     let (end_tsc, d) = rdtsc tsc d;
         freq = (end_tsc - start_tsc) div 10000
     in Some (v\<lparr>tsc_freq_mhz := (if freq = 0 then 2000 else freq)\<rparr>, d))))"

partial_function (option) wait_tsc :: "('d \<Rightarrow> u32 \<times> u32 \<times> 'd) \<Rightarrow> u64 \<Rightarrow> 'd \<Rightarrow> 'd option" where
  "wait_tsc tsc target d = (case rdtsc tsc d of (t, d1) \<Rightarrow> if t < target then wait_tsc tsc target d1 else Some d1)"

text \<open>Before the calibration the delay is a loop of \<open>us * 1000\<close> (in 32 bits) pauses, which change nothing.\<close>

definition delay_us :: "('d \<Rightarrow> u32 \<times> u32 \<times> 'd) \<Rightarrow> u32 \<Rightarrow> pit_vars \<times> 'd \<Rightarrow> (pit_vars \<times> 'd) option" where
  "delay_us tsc us = (\<lambda>(v, d).
     if tsc_freq_mhz v = 0 then Some (v, d)
     else let (start, d) = rdtsc tsc d
          in map_option (Pair v) (wait_tsc tsc (start + ucast us * tsc_freq_mhz v) d))"

definition delay_ms :: "('d \<Rightarrow> u32 \<times> u32 \<times> 'd) \<Rightarrow> u32 \<Rightarrow> pit_vars \<times> 'd \<Rightarrow> (pit_vars \<times> 'd) option" where
  "delay_ms tsc ms = delay_us tsc (ms * 1000)"

section \<open>The keyboard controller\<close>

text \<open>\<open>while (timeout--)\<close> with 100000: for input ready bit 0 set, for output ready bit 1 clear. A timeout is not reported.\<close>

fun ps2_wait :: "'d port_io \<Rightarrow> nat \<Rightarrow> u8 \<Rightarrow> bool \<Rightarrow> 'd \<Rightarrow> 'd" where
  "ps2_wait io 0 b want d = d"
| "ps2_wait io (Suc n) b want d =
     (let (v, d1) = inb io 0x64 d in if (v AND b \<noteq> 0) = want then d1 else ps2_wait io n b want d1)"

definition ps2_wait_input_ready :: "'d port_io \<Rightarrow> 'd \<Rightarrow> 'd" where
  "ps2_wait_input_ready io d = ps2_wait io 100000 1 True d"

definition ps2_wait_output_ready :: "'d port_io \<Rightarrow> 'd \<Rightarrow> 'd" where
  "ps2_wait_output_ready io d = ps2_wait io 100000 2 False d"

definition keyboard_init :: "'d port_io \<Rightarrow> 'd \<Rightarrow> 'd" where
  "keyboard_init io d =
     (let d = ps2_wait_output_ready io d;
          d = outb io 0x64 0x20 d;
          d = ps2_wait_input_ready io d;
          (status, d) = inb io 0x60 d;
          status = status OR 0x01;
          d = ps2_wait_output_ready io d;
          d = outb io 0x64 0x60 d;
          d = ps2_wait_output_ready io d;
          d = outb io 0x60 status d;
          (m, d) = inb io 0x21 d
      in outb io 0x21 (m AND NOT 2) d)"

definition kbd_us :: "u8 \<Rightarrow> u8" where
  "kbd_us k =
     (let table = [0, 27] @ map of_char ''1234567890-='' @ [8, 9] @ map of_char ''qwertyuiop[]'' @ [10, 0] @
        map of_char ''asdfghjkl;'' @ [39, 96, 0, 92] @ map of_char ''zxcvbnm,./'' @ [0, 42, 0, 32] @
        replicate 18 0 @ [45, 0, 0, 0, 43]
      in if unat k < length table then table ! unat k else 0)"

text \<open>\<open>shell_input\<close> is a parameter: it may print, which moves the devices, and may not return.\<close>

definition keyboard_handler ::
  "'d port_io \<Rightarrow> (u8 \<Rightarrow> 'd \<times> 'k \<Rightarrow> ('d \<times> 'k) option) \<Rightarrow> 'd \<times> 'k \<Rightarrow> ('d \<times> 'k) option" where
  "keyboard_handler io shell_input = (\<lambda>(d, k).
     let (scancode, d) = inb io 0x60 d
     in if scancode AND 0x80 \<noteq> 0 then Some (d, k)
        else if kbd_us scancode \<noteq> 0 then shell_input (kbd_us scancode) (d, k) else Some (d, k))"

section \<open>The mouse\<close>

text \<open>The packet bytes are \<open>int8_t\<close>, the position \<open>int32_t\<close>.\<close>

record mouse_vars =
  mouse_cycle :: u8
  mouse_byte :: "u8 list"
  mouse_x :: int
  mouse_y :: int
  mouse_count :: int

definition mouse_start :: mouse_vars where
  "mouse_start = \<lparr>mouse_cycle = 0, mouse_byte = [0, 0, 0], mouse_x = 400, mouse_y = 300, mouse_count = 0\<rparr>"

definition mouse_wait :: "'d port_io \<Rightarrow> u8 \<Rightarrow> 'd \<Rightarrow> 'd" where
  "mouse_wait io type d = (if type = 0 then ps2_wait io 100000 1 True d else ps2_wait io 100000 2 False d)"

definition mouse_write :: "'d port_io \<Rightarrow> u8 \<Rightarrow> 'd \<Rightarrow> 'd" where
  "mouse_write io data d =
     (let d = mouse_wait io 1 d;
          d = outb io 0x64 0xD4 d;
          d = mouse_wait io 1 d
      in outb io 0x60 data d)"

definition mouse_read :: "'d port_io \<Rightarrow> 'd \<Rightarrow> u8 \<times> 'd" where
  "mouse_read io d = inb io 0x60 (mouse_wait io 0 d)"

definition mouse_init :: "'d port_io \<Rightarrow> 'd \<Rightarrow> 'd" where
  "mouse_init io d =
     (let d = mouse_wait io 1 d;
          d = outb io 0x64 0xA8 d;
          d = mouse_wait io 1 d;
          d = outb io 0x64 0x20 d;
          d = mouse_wait io 0 d;
          (v, d) = inb io 0x60 d;
          status = v OR 2;
          d = mouse_wait io 1 d;
          d = outb io 0x64 0x60 d;
          d = mouse_wait io 1 d;
          d = outb io 0x60 status d;
          d = mouse_write io 0xF6 d;
          d = snd (mouse_read io d);
          d = mouse_write io 0xF4 d;
          d = snd (mouse_read io d);
          (m, d) = inb io 0x21 d;
          d = outb io 0x21 (m AND NOT 4) d;
          (m, d) = inb io 0xA1 d
      in outb io 0xA1 (m AND NOT 16) d)"

text \<open>One position after a movement: the sum in 32 bits, brought back to the screen.\<close>

definition clamp :: "int \<Rightarrow> int \<Rightarrow> int" where
  "clamp lim n = (let n = (if n < 0 then 0 else n) in if n > lim then lim else n)"

text \<open>What the third byte of a packet triggers.\<close>

definition mouse_packet :: "mouse_vars \<Rightarrow> mouse_vars" where
  "mouse_packet v =
     (let b = mouse_byte v
      in if b ! 0 AND 0x80 \<noteq> 0 \<or> b ! 0 AND 0x40 \<noteq> 0 then v
         else let dx = sint (b ! 1);
                  dy = sint (b ! 2);
                  dx = (if b ! 0 AND 0x10 \<noteq> 0 then i32 (dx - 256) else dx);
                  dy = (if b ! 0 AND 0x20 \<noteq> 0 then i32 (dy - 256) else dy)
              in v\<lparr>mouse_x := clamp 1024 (i32 (mouse_x v + dx)), mouse_y := clamp 768 (i32 (mouse_y v - dy)),
                   mouse_count := i32 (mouse_count v + 1)\<rparr>)"

definition mouse_handler :: "'d port_io \<Rightarrow> mouse_vars \<times> 'd \<Rightarrow> mouse_vars \<times> 'd" where
  "mouse_handler io = (\<lambda>(v, d).
     let (status, d) = inb io 0x64 d
     in if status AND 1 = 0 \<or> status AND 0x20 = 0 then (v, d)
        else let (b, d) = inb io 0x60 d;
                 v = v\<lparr>mouse_byte := (mouse_byte v)[unat (mouse_cycle v) := b], mouse_cycle := mouse_cycle v + 1\<rparr>
             in if mouse_cycle v = 3 then (mouse_packet (v\<lparr>mouse_cycle := 0\<rparr>), d) else (v, d))"

definition mouse_get_x :: "mouse_vars \<Rightarrow> int" where "mouse_get_x v = mouse_x v"
definition mouse_get_y :: "mouse_vars \<Rightarrow> int" where "mouse_get_y v = mouse_y v"
definition mouse_get_buttons :: "mouse_vars \<Rightarrow> u8" where "mouse_get_buttons v = mouse_byte v ! 0 AND 0x07"

section \<open>Delays\<close>

text \<open>The divisor reaches the timer as its two bytes; below 19 Hz it no longer fits.\<close>

lemma pit_divisor_bytes:
  assumes "19 \<le> frequency"
  shows "push_bit 8 (ucast (ucast (drop_bit 8 (1193182 div frequency) AND 0xFF) :: u8)) OR
      ucast (ucast ((1193182 div frequency) AND 0xFF) :: u8) = 1193182 div (frequency :: u32)"
proof -
  let ?v = "1193182 div frequency"
  have "19 \<le> unat frequency" using assms by (simp add: word_le_nat_alt)
  then have "1193182 div unat frequency \<le> 1193182 div 19" by (intro div_le_mono2) simp_all
  then have "unat ?v < 2 ^ 16" by (simp add: unat_div)
  then have hi: "\<not> bit ?v n" if "16 \<le> n" for n
  proof -
    have "unat ?v < 2 ^ n" using \<open>unat ?v < 2 ^ 16\<close> power_increasing [OF that, of "2 :: nat"] by simp
    then have "\<not> bit (unat ?v) n" by (simp add: bit_iff_odd)
    then show ?thesis by (auto simp: bit_unsigned_iff dest: bit_imp_le_length)
  qed
  have ff: "(0xFF :: u32) = mask 8" by (simp add: mask_eq_decr_exp)
  show ?thesis
  proof (unfold ff, rule bit_word_eqI)
    fix n assume n: "n < LENGTH(32)"
    show "bit (push_bit 8 (ucast (ucast (drop_bit 8 ?v AND mask 8) :: u8)) OR ucast (ucast (?v AND mask 8) :: u8) :: u32) n = bit ?v n"
      using n hi [of n] by (cases "n < 16") (auto simp: bit_simps)
  qed
qed

text \<open>A counter that advances by one with each read. A delay waits for the requested cycles and not longer.\<close>

definition counter :: "nat \<Rightarrow> u32 \<times> u32 \<times> nat" where
  "counter t = (of_nat t, of_nat (t div 2 ^ 32), t + 1)"

lemma rdtsc_counter: "rdtsc counter t = (of_nat t, t + 1)"
proof -
  have "push_bit 32 (ucast (of_nat (t div 2 ^ 32) :: u32)) OR ucast (of_nat t :: u32) = (of_nat t :: u64)"
  proof -
    have h: "t div 2 ^ 32 = drop_bit 32 t" by (simp add: drop_bit_eq_div)
    show ?thesis unfolding h by (rule bit_word_eqI) (auto simp: bit_simps)
  qed
  then show ?thesis by (simp add: rdtsc_def counter_def)
qed

lemma wait_tsc_counter:
  assumes "t < 2 ^ 64"
  shows "wait_tsc counter target t = Some (max t (unat target) + 1)"
  using assms
proof (induction "unat target - t" arbitrary: t rule: less_induct)
  case less
  have v: "unat (of_nat t :: u64) = t" using less.prems by (intro unat_of_nat_small) simp
  show ?case
  proof (cases "t < unat target")
    case True
    then have "t + 1 < 2 ^ 64" using unsigned_less [of target, where 'a = nat] by simp
    then have "wait_tsc counter target (t + 1) = Some (max (t + 1) (unat target) + 1)" using True by (intro less.hyps) simp_all
    then show ?thesis using True v by (subst wait_tsc.simps) (simp add: rdtsc_counter word_less_nat_alt)
  next
    case False
    then show ?thesis using v by (subst wait_tsc.simps) (simp add: rdtsc_counter word_less_nat_alt)
  qed
qed

theorem delay_us_correct:
  assumes "0 < tsc_freq_mhz v" "t + unat us * unat (tsc_freq_mhz v) < 2 ^ 64"
  shows "delay_us counter us (v, t) = Some (v, max (t + 1) (t + unat us * unat (tsc_freq_mhz v)) + 1) \<or> t + 1 = 2 ^ 64"
proof (cases "t + 1 = 2 ^ 64")
  case False
  have u: "unat (ucast us :: u64) = unat us" using unsigned_less [of us, where 'a = nat] by (intro unat_ucast_small) simp
  have p: "unat (ucast us * tsc_freq_mhz v) = unat us * unat (tsc_freq_mhz v)"
    using assms(2) by (simp add: unat_word_ariths u)
  have "unat (of_nat t :: u64) = t" using assms(2) by (intro unat_of_nat_small) simp
  then have "unat (of_nat t + ucast us * tsc_freq_mhz v) = t + unat us * unat (tsc_freq_mhz v)"
    using assms(2) by (subst unat_plus_no_wrap) (simp_all add: p)
  moreover have "t + 1 < 2 ^ 64" using False assms(2) by simp
  ultimately show ?thesis
    using assms(1) wait_tsc_counter [of "t + 1" "of_nat t + ucast us * tsc_freq_mhz v"]
    by (simp add: delay_us_def rdtsc_counter word_gt_0)
qed simp

section \<open>The controller\<close>

text \<open>
  The 8042 as the drivers see it: after each write it is busy for \<open>lag\<close> polls; command 0x20 offers the command byte, 0x60
  takes it, 0xD4 passes a byte to the mouse, which acknowledges with 0xFA. Other ports are registers.
\<close>

record i8042 =
  cmd_byte :: u8
  pending :: u8
  offered :: "u8 list"
  to_mouse :: "u8 list"
  slow :: nat
  other :: "u16 \<Rightarrow> u8"

fun ctl_inb :: "u16 \<Rightarrow> i8042 \<Rightarrow> u8 \<times> i8042" where
  "ctl_inb p d =
     (if p = 0x64 then ((if slow d \<noteq> 0 then 2 else if offered d = [] then 0 else 1), d\<lparr>slow := slow d - 1\<rparr>)
      else if p = 0x60 then (case offered d of [] \<Rightarrow> (0, d) | c # cs \<Rightarrow> (c, d\<lparr>offered := cs\<rparr>))
      else (other d p, d))"

fun ctl_outb :: "nat \<Rightarrow> u16 \<Rightarrow> u8 \<Rightarrow> i8042 \<Rightarrow> i8042" where
  "ctl_outb lag p v d =
     (if p = 0x64 then (if v = 0x20 then d\<lparr>offered := [cmd_byte d], slow := lag\<rparr> else d\<lparr>pending := v, slow := lag\<rparr>)
      else if p = 0x60
      then (if pending d = 0x60 then d\<lparr>cmd_byte := v, slow := lag\<rparr>
            else if pending d = 0xD4 then d\<lparr>to_mouse := to_mouse d @ [v], offered := [0xFA], slow := lag\<rparr> else d)
      else d\<lparr>other := (other d)(p := v)\<rparr>)"

definition ctl_io :: "nat \<Rightarrow> i8042 port_io" where
  "ctl_io lag = \<lparr>inb = ctl_inb, inw = (\<lambda>p d. (0, d)), outb = ctl_outb lag, outw = (\<lambda>p v d. d)\<rparr>"

lemma inb_ctl [simp]: "inb (ctl_io lag) = ctl_inb" "outb (ctl_io lag) = ctl_outb lag"
  by (simp_all add: ctl_io_def)

lemma wait_output_ctl: "slow d < n \<Longrightarrow> ps2_wait (ctl_io lag) n 2 False d = d\<lparr>slow := 0\<rparr>"
proof (induction n arbitrary: d)
  case (Suc n)
  then show ?case using Suc.IH [of "d\<lparr>slow := slow d - 1\<rparr>"] by auto
qed simp

lemma wait_input_ctl: "slow d < n \<Longrightarrow> offered d \<noteq> [] \<Longrightarrow> ps2_wait (ctl_io lag) n 1 True d = d\<lparr>slow := 0\<rparr>"
proof (induction n arbitrary: d)
  case (Suc n)
  then show ?case using Suc.IH [of "d\<lparr>slow := slow d - 1\<rparr>"] by auto
qed simp

theorem keyboard_init_correct:
  assumes "lag < 100000" "slow d < 100000"
  shows "keyboard_init (ctl_io lag) d =
    d\<lparr>cmd_byte := cmd_byte d OR 1, pending := 0x60, offered := [], slow := lag, other := (other d)(0x21 := other d 0x21 AND NOT 2)\<rparr>"
  using assms
  by (simp add: keyboard_init_def ps2_wait_input_ready_def ps2_wait_output_ready_def wait_output_ctl wait_input_ctl Let_def)

theorem mouse_init_correct:
  assumes "lag < 100000" "slow d < 100000"
  shows "mouse_init (ctl_io lag) d =
    d\<lparr>cmd_byte := cmd_byte d OR 2, pending := 0xD4, offered := [], to_mouse := to_mouse d @ [0xF6, 0xF4], slow := 0,
      other := (other d)(0x21 := other d 0x21 AND NOT 4, 0xA1 := other d 0xA1 AND NOT 16)\<rparr>"
  using assms
  by (simp add: mouse_init_def mouse_write_def mouse_read_def mouse_wait_def wait_output_ctl wait_input_ctl Let_def)

section \<open>Keys\<close>

text \<open>The keypad keys minus and plus send 0x4A and 0x4E; the table has them two places later.\<close>

lemma keypad_off_by_two: "kbd_us 0x4A = 0" "kbd_us 0x4C = of_char (CHR ''-'')" "kbd_us 0x4E = 0" "kbd_us 0x50 = of_char (CHR ''+'')"
  by (simp_all add: kbd_us_def nth_append)

text \<open>A device that offers a list of bytes.\<close>

definition byte_io :: "u8 list port_io" where
  "byte_io = \<lparr>inb = (\<lambda>p bs. if p = 0x64 then (if bs = [] then 0 else 0x21, bs)
      else (case bs of [] \<Rightarrow> (0, []) | b # r \<Rightarrow> (b, r))),
    inw = (\<lambda>p bs. (0, bs)), outb = (\<lambda>p v bs. bs), outw = (\<lambda>p v bs. bs)\<rparr>"

fun run_keys :: "nat \<Rightarrow> (u8 \<Rightarrow> u8 list \<times> 'k \<Rightarrow> (u8 list \<times> 'k) option) \<Rightarrow> u8 list \<times> 'k \<Rightarrow> (u8 list \<times> 'k) option" where
  "run_keys 0 shell_input s = Some s"
| "run_keys (Suc n) shell_input s = Option.bind (keyboard_handler byte_io shell_input s) (run_keys n shell_input)"

text \<open>The shell gets the characters of the pressed keys that have one, in order.\<close>

theorem keyboard_feeds:
  assumes "\<And>c d k. shell_input c (d, k) = Some (d, f c k)"
  shows "run_keys (length ks) shell_input (ks, k) =
    Some ([], fold f (filter (\<lambda>c. c \<noteq> 0) (map kbd_us (filter (\<lambda>b. b AND 0x80 = 0) ks))) k)"
proof (induction ks arbitrary: k)
  case (Cons b ks)
  have "keyboard_handler byte_io shell_input (b # ks, k) =
      Some (ks, if b AND 0x80 = 0 \<and> kbd_us b \<noteq> 0 then f (kbd_us b) k else k)"
    using assms by (auto simp: keyboard_handler_def byte_io_def)
  then show ?case using Cons by simp
qed simp

section \<open>Mouse packets\<close>

definition mouse_ok :: "mouse_vars \<Rightarrow> bool" where
  "mouse_ok v \<longleftrightarrow> mouse_cycle v < 3 \<and> length (mouse_byte v) = 3 \<and> 0 \<le> mouse_x v \<and> mouse_x v \<le> 1024 \<and>
     0 \<le> mouse_y v \<and> mouse_y v \<le> 768"

lemma clamp_range: "0 \<le> lim \<Longrightarrow> 0 \<le> clamp lim n \<and> clamp lim n \<le> lim"
  by (simp add: clamp_def Let_def)

lemma mouse_packet_ok: "mouse_ok v \<Longrightarrow> mouse_ok (mouse_packet v)"
  by (auto simp: mouse_ok_def mouse_packet_def Let_def clamp_range)

lemma mouse_handler_ok:
  assumes "mouse_ok v"
  shows "mouse_ok (fst (mouse_handler io (v, d)))"
proof -
  obtain st d1 where r1: "inb io 0x64 d = (st, d1)" by fastforce
  obtain b d2 where r2: "inb io 0x60 d1 = (b, d2)" by fastforce
  let ?v = "v\<lparr>mouse_byte := (mouse_byte v)[unat (mouse_cycle v) := b], mouse_cycle := mouse_cycle v + 1\<rparr>"
  have c: "mouse_cycle v < 3" using assms by (simp add: mouse_ok_def)
  then have "mouse_cycle v + 1 = 3 \<or> mouse_cycle v + 1 < 3" by unat_arith
  then show ?thesis
    using assms mouse_packet_ok [of "?v\<lparr>mouse_cycle := 0\<rparr>"] by (auto simp: mouse_handler_def r1 r2 mouse_ok_def Let_def)
qed

text \<open>Five packets to the right and down.\<close>

definition far_corner :: "u8 list" where
  "far_corner = concat (replicate 5 [0x28, 127, 0x80])"

lemma far_corner_reached:
  "mouse_x (fst ((mouse_handler byte_io ^^ 15) (mouse_start, far_corner))) = 1024 \<and>
    mouse_y (fst ((mouse_handler byte_io ^^ 15) (mouse_start, far_corner))) = 768"
  by code_simp

text \<open>
  C31. After any number of interrupts on any hardware the mouse state is well formed: fewer than three bytes are collected, the
  column is between 0 and 1024 and the row between 0 and 768. These limits are one beyond the last column 1023 and the last row 767 of the
  screen of 1024 by 768 pixels that the boot header asks for, and the position does reach them: the handler compares with
  the size of the screen and not with its last pixel.
\<close>

theorem mouse_well_formed:
  "mouse_ok (fst ((mouse_handler io ^^ n) (mouse_start, d))) \<and>
    (\<exists>k bs. mouse_x (fst ((mouse_handler byte_io ^^ k) (mouse_start, bs))) = 1024 \<and>
       mouse_y (fst ((mouse_handler byte_io ^^ k) (mouse_start, bs))) = 768)"
proof
  show "mouse_ok (fst ((mouse_handler io ^^ n) (mouse_start, d)))"
  proof (induction n)
    case (Suc n)
    then show ?case using mouse_handler_ok by (cases "(mouse_handler io ^^ n) (mouse_start, d)") auto
  qed (simp add: mouse_ok_def mouse_start_def)
qed (use far_corner_reached in blast)

text \<open>
  Three interrupts read a packet. The movement of the hardware is a 9-bit number in two's complement: the byte and the sign
  in the first one. The handler takes the byte as signed and subtracts 256 again, so that every movement by 128 or more in
  the byte, that is every short movement to the left, comes out 256 too low.
\<close>

theorem mouse_movement:
  assumes ok: "mouse_ok v" "mouse_cycle v = 0" and b0: "b0 AND 0xC0 = 0"
    and dx: "dx = int (unat b1) - (if bit b0 4 then 256 else 0)"
  shows "\<exists>v'. (mouse_handler byte_io ^^ 3) (v, b0 # b1 # b2 # r) = (v', r) \<and> mouse_cycle v' = 0 \<and>
    mouse_x v' = clamp 1024 (mouse_x v + dx - (if b1 < 128 then 0 else 256))"
proof -
  have f: "b0 AND 0x80 = 0" "b0 AND 0x40 = 0"
  proof -
    have "b0 AND 0x80 = (b0 AND 0xC0) AND 0x80" "b0 AND 0x40 = (b0 AND 0xC0) AND 0x40" by (simp_all add: and.assoc)
    then show "b0 AND 0x80 = 0" "b0 AND 0x40 = 0" using b0 by simp_all
  qed
  obtain x y z where m: "mouse_byte v = [x, y, z]"
    using ok(1) by (auto simp: mouse_ok_def numeral_3_eq_3 length_Suc_conv)
  have b4: "b0 AND 0x10 \<noteq> 0 \<longleftrightarrow> bit b0 4"
    by (simp add: bit_iff_and_push_bit_not_eq_0)
  have "sint b1 = int (unat b1) - 256 * of_bool (bit b1 7)"
    using take_bit_int_eq_self [of "uint b1" 8] unsigned_less [of b1, where 'a = int]
    by (simp add: sint_uint signed_take_bit_eq_take_bit_minus bit_simps)
  moreover have "bit b1 7 \<longleftrightarrow> \<not> b1 < 128"
  proof -
    have "bit (unat b1) 7 = bit b1 7" by (simp add: bit_unsigned_iff)
    then have "bit b1 7 \<longleftrightarrow> odd (unat b1 div 128)" by (simp add: bit_iff_odd [of "unat b1"])
    moreover have "unat b1 div 128 = (if unat b1 < 128 then 0 else 1)"
      using unsigned_less [of b1, where 'a = nat] by (auto intro: div_nat_eqI)
    ultimately show ?thesis by (simp add: word_less_nat_alt)
  qed
  ultimately have s: "sint b1 = int (unat b1) - (if b1 < 128 then 0 else 256)" by simp
  define u where "u = int (unat b1)"
  have "int (unat b1) < 256" using unsigned_less [of b1, where 'a = int] by simp
  then have u: "0 \<le> u" "u < 256" by (simp_all add: u_def del: of_nat_unat)
  have i1: "i32 (sint b1 - 256) = sint b1 - 256" using s [folded u_def] u by (intro i32_small) (simp_all split: if_splits)
  have i2: "i32 (mouse_x v + n) = mouse_x v + n" if "-1000 < n" "n < 1000" for n
    using ok(1) that by (intro i32_small) (auto simp: mouse_ok_def)
  have "i32 (mouse_x v + (if bit b0 4 then i32 (sint b1 - 256) else sint b1)) =
      mouse_x v + (if bit b0 4 then sint b1 - 256 else sint b1)"
    unfolding i1 using s [folded u_def] u by (intro i2) (simp_all split: if_splits)
  also have "\<dots> = mouse_x v + dx - (if b1 < 128 then 0 else 256)" using s dx by simp
  finally have "i32 (mouse_x v + (if bit b0 4 then i32 (sint b1 - 256) else sint b1)) =
      mouse_x v + dx - (if b1 < 128 then 0 else 256)" .
  moreover have "(mouse_handler byte_io ^^ 3) w = mouse_handler byte_io (mouse_handler byte_io (mouse_handler byte_io w))" for w
    by (simp add: eval_nat_numeral)
  moreover have "mouse_handler byte_io (mouse_handler byte_io (mouse_handler byte_io (v, b0 # b1 # b2 # r))) =
      (mouse_packet (v\<lparr>mouse_byte := [b0, b1, b2], mouse_cycle := 0\<rparr>), r)"
    using ok(2) m by (simp add: mouse_handler_def byte_io_def Let_def)
  ultimately show ?thesis using f b4 by (simp add: mouse_packet_def Let_def)
qed

end
