(* ===== verification/Apic.thy ===== *)
theory Apic
  imports CString
begin

text \<open>
  The local interrupt controller (src/kernel/apic.c) and the ACPI tables that name the processors (src/kernel/acpi.c).
  Machine registers are a parameter: the MSR instructions with their two halves and 32-bit accesses to the registers of
  the controller. The ACPI tables are read from memory.
\<close>

section \<open>The local APIC\<close>

record 'd cpu_io =
  rdmsr_instr :: "u32 \<Rightarrow> 'd \<Rightarrow> u32 \<times> u32 \<times> 'd"
  wrmsr_instr :: "u32 \<Rightarrow> u32 \<Rightarrow> u32 \<Rightarrow> 'd \<Rightarrow> 'd"
  mmio_in :: "u64 \<Rightarrow> 'd \<Rightarrow> u32 \<times> 'd"
  mmio_out :: "u64 \<Rightarrow> u32 \<Rightarrow> 'd \<Rightarrow> 'd"

definition LAPIC_EOI :: u32 where "LAPIC_EOI = 0x00B0"
definition LAPIC_SVR :: u32 where "LAPIC_SVR = 0x00F0"
definition LAPIC_LVT_TMR :: u32 where "LAPIC_LVT_TMR = 0x0320"
definition LAPIC_TMRINIT :: u32 where "LAPIC_TMRINIT = 0x0380"
definition LAPIC_TMRDIV :: u32 where "LAPIC_TMRDIV = 0x03E0"
definition MSR_APIC_BASE :: u32 where "MSR_APIC_BASE = 0x1B"

definition lapic_read :: "'d cpu_io \<Rightarrow> u64 \<Rightarrow> u32 \<Rightarrow> 'd \<Rightarrow> u32 \<times> 'd" where
  "lapic_read io lapic_base reg d = mmio_in io (lapic_base + ucast reg) d"

definition lapic_write :: "'d cpu_io \<Rightarrow> u64 \<Rightarrow> u32 \<Rightarrow> u32 \<Rightarrow> 'd \<Rightarrow> 'd" where
  "lapic_write io lapic_base reg data d = mmio_out io (lapic_base + ucast reg) data d"

definition rdmsr :: "'d cpu_io \<Rightarrow> u32 \<Rightarrow> 'd \<Rightarrow> u64 \<times> 'd" where
  "rdmsr io msr d = (let (low, high, d1) = rdmsr_instr io msr d in (push_bit 32 (ucast high) OR ucast low, d1))"

definition wrmsr :: "'d cpu_io \<Rightarrow> u32 \<Rightarrow> u64 \<Rightarrow> 'd \<Rightarrow> 'd" where
  "wrmsr io msr val d = wrmsr_instr io msr (ucast (val AND 0xFFFFFFFF)) (ucast (drop_bit 32 val)) d"

text \<open>The result is the new \<open>lapic_base\<close>.\<close>

definition lapic_init :: "'d cpu_io \<Rightarrow> u32 \<Rightarrow> 'd \<Rightarrow> u64 \<times> 'd" where
  "lapic_init io acpi_lapic_addr d =
     (let (base_msr, d) = rdmsr io MSR_APIC_BASE d;
          d = wrmsr io MSR_APIC_BASE (base_msr OR push_bit 11 1) d;
          phys_addr = (if acpi_lapic_addr = 0 then 0xFEE00000 else acpi_lapic_addr);
          lapic_base = ucast phys_addr
      in (lapic_base, lapic_write io lapic_base LAPIC_SVR (0x100 OR 0xFF) d))"

definition lapic_get_id :: "'d cpu_io \<Rightarrow> u64 \<Rightarrow> 'd \<Rightarrow> u8 \<times> 'd" where
  "lapic_get_id io lapic_base d = (let (v, d) = lapic_read io lapic_base 0x0020 d in (ucast (drop_bit 24 v), d))"

definition lapic_eoi :: "'d cpu_io \<Rightarrow> u64 \<Rightarrow> 'd \<Rightarrow> 'd" where
  "lapic_eoi io lapic_base d = lapic_write io lapic_base LAPIC_EOI 0 d"

text \<open>A rate of 0 divides by zero: \<open>None\<close>.\<close>

definition lapic_timer_init :: "'d cpu_io \<Rightarrow> u64 \<Rightarrow> u32 \<Rightarrow> 'd \<Rightarrow> 'd option" where
  "lapic_timer_init io lapic_base hz d =
     (let d = lapic_write io lapic_base LAPIC_TMRDIV 0x03 d
      in if hz = 0 then None
         else let count = 10000000 div hz;
                  d = lapic_write io lapic_base LAPIC_LVT_TMR (32 OR push_bit 17 1) d
              in Some (lapic_write io lapic_base LAPIC_TMRINIT count d))"

definition lapic_send_ipi :: "'d cpu_io \<Rightarrow> u64 \<Rightarrow> u8 \<Rightarrow> u32 \<Rightarrow> 'd \<Rightarrow> 'd" where
  "lapic_send_ipi io lapic_base apic_id vector d =
     mmio_out io (lapic_base + 0x300) vector (mmio_out io (lapic_base + 0x310) (push_bit 24 (ucast apic_id)) d)"

section \<open>The ACPI tables\<close>

record acpi_vars =
  lapic_addr :: u32
  cpu_ids :: "u8 list"
  acpi_cpu_count :: int

definition MAX_CPU_IDS :: nat where "MAX_CPU_IDS = 64"

text \<open>\<open>memcmp(addr, "...", n) == 0\<close> for a literal.\<close>

definition mem_is :: "memory \<Rightarrow> u64 \<Rightarrow> string \<Rightarrow> bool" where
  "mem_is m a cs = (bytes m a (length cs) = map of_char cs)"

fun find_from :: "memory \<Rightarrow> nat \<Rightarrow> u64 \<Rightarrow> u64" where
  "find_from m 0 addr = 0"
| "find_from m (Suc n) addr = (if mem_is m addr ''RSD PTR '' then addr else find_from m n (addr + 16))"

text \<open>\<open>for (addr = 0xE0000; addr < 0x100000; addr += 16)\<close>: 0x2000 places.\<close>

definition find_rsdp :: "memory \<Rightarrow> u64" where
  "find_rsdp m = find_from m 0x2000 0xE0000"

definition SDT_HEADER :: u64 where "SDT_HEADER = 36"
definition MADT_SIZE :: u64 where "MADT_SIZE = 44"

text \<open>
  The identifier of a processor goes into the next of the 64 cells of \<open>cpu_ids\<close>. The code does not test that there is one;
  \<open>None\<close> is a store behind the array.
\<close>

definition add_cpu :: "u8 \<Rightarrow> acpi_vars \<Rightarrow> acpi_vars option" where
  "add_cpu apic_id s =
     (let n = acpi_cpu_count s
      in if 0 \<le> n \<and> n < int MAX_CPU_IDS
         then Some (s\<lparr>cpu_ids := (cpu_ids s)[nat n := apic_id], acpi_cpu_count := n + 1\<rparr>) else None)"

text \<open>
  The entries of the MADT. The length of an entry is not checked: \<open>None\<close> is a walk that does not end, or the store above.
\<close>

partial_function (option) madt_walk :: "memory \<Rightarrow> u64 \<Rightarrow> u64 \<Rightarrow> acpi_vars \<Rightarrow> acpi_vars option" where
  "madt_walk m entry_ptr end_ptr s =
     (if entry_ptr < end_ptr
      then Option.bind (if m entry_ptr = 0 \<and> load32 m (entry_ptr + 4) AND 1 \<noteq> 0 then add_cpu (m (entry_ptr + 3)) s else Some s)
             (madt_walk m (entry_ptr + ucast (m (entry_ptr + 1))) end_ptr)
      else Some s)"

definition read_madt :: "memory \<Rightarrow> u64 \<Rightarrow> acpi_vars \<Rightarrow> acpi_vars option" where
  "read_madt m madt s =
     madt_walk m (madt + MADT_SIZE) (madt + ucast (load32 m (madt + 4))) (s\<lparr>lapic_addr := load32 m (madt + 36)\<rparr>)"

fun scan_tables :: "memory \<Rightarrow> u64 \<Rightarrow> nat \<Rightarrow> acpi_vars \<Rightarrow> acpi_vars option" where
  "scan_tables m sdt_ptrs 0 s = Some s"
| "scan_tables m sdt_ptrs (Suc n) s =
     (let header = ucast (load32 m sdt_ptrs)
      in Option.bind (if mem_is m header ''APIC'' then read_madt m header s else Some s) (scan_tables m (sdt_ptrs + 4) n))"

definition rsdt_entries :: "memory \<Rightarrow> u64 \<Rightarrow> int" where
  "rsdt_entries m rsdt = sint (ucast ((ucast (load32 m (rsdt + 4)) - SDT_HEADER) div 4) :: u32)"

definition acpi_init :: "memory \<Rightarrow> acpi_vars \<Rightarrow> acpi_vars option" where
  "acpi_init m s =
     (let rsdp = find_rsdp m
      in if rsdp = 0 then Some s
         else let rsdt = ucast (load32 m (rsdp + 16))
              in scan_tables m (rsdt + SDT_HEADER) (nat (rsdt_entries m rsdt)) s)"

definition acpi_get_lapic_addr :: "acpi_vars \<Rightarrow> u32" where "acpi_get_lapic_addr s = lapic_addr s"
definition acpi_get_cpu_ids :: "acpi_vars \<Rightarrow> u8 list \<times> int" where "acpi_get_cpu_ids s = (cpu_ids s, acpi_cpu_count s)"

section \<open>Well-formed tables\<close>

text \<open>The entries of a MADT and their encoding; the flags of a processor are four bytes.\<close>

datatype madt_entry = Processor u8 u8 "u8 list" | Other_entry u8 "u8 list"

fun encode_entry :: "madt_entry \<Rightarrow> u8 list" where
  "encode_entry (Processor n i fs) = [0, 8, n, i] @ fs"
| "encode_entry (Other_entry t bs) = [t, of_nat (2 + length bs)] @ bs"

fun entry_ok :: "madt_entry \<Rightarrow> bool" where
  "entry_ok (Processor n i fs) \<longleftrightarrow> length fs = 4"
| "entry_ok (Other_entry t bs) \<longleftrightarrow> t \<noteq> 0 \<and> length bs < 254"

fun enabled_ids :: "madt_entry list \<Rightarrow> u8 list" where
  "enabled_ids [] = []"
| "enabled_ids (Processor n i fs # es) = (if hd fs AND 1 \<noteq> 0 then i # enabled_ids es else enabled_ids es)"
| "enabled_ids (Other_entry t bs # es) = enabled_ids es"

definition id_list :: "acpi_vars \<Rightarrow> u8 list" where
  "id_list s = map ((!) (cpu_ids s)) [0..<nat (acpi_cpu_count s)]"

definition acpi_ok :: "acpi_vars \<Rightarrow> bool" where
  "acpi_ok s \<longleftrightarrow> length (cpu_ids s) = MAX_CPU_IDS \<and> 0 \<le> acpi_cpu_count s \<and> acpi_cpu_count s \<le> int MAX_CPU_IDS"

lemma length_id_list: "acpi_ok s \<Longrightarrow> int (length (id_list s)) = acpi_cpu_count s"
  by (simp add: id_list_def acpi_ok_def)

lemma add_cpu_cases:
  assumes "acpi_ok s"
  shows "if length (id_list s) < MAX_CPU_IDS
    then \<exists>s'. add_cpu i s = Some s' \<and> acpi_ok s' \<and> id_list s' = id_list s @ [i] \<and> lapic_addr s' = lapic_addr s
    else add_cpu i s = None"
proof (cases "acpi_cpu_count s < int MAX_CPU_IDS")
  case True
  then have "nat (acpi_cpu_count s + 1) = Suc (nat (acpi_cpu_count s))" "nat (acpi_cpu_count s) < length (cpu_ids s)"
    using assms by (auto simp: acpi_ok_def)
  then show ?thesis
    using True assms by (auto simp: add_cpu_def Let_def id_list_def acpi_ok_def)
qed (use length_id_list [OF assms] in \<open>auto simp: add_cpu_def Let_def\<close>)

lemma and_1_bit: "(x :: 'a :: len word) AND 1 \<noteq> 0 \<longleftrightarrow> bit x 0"
  by (simp add: and_one_eq bit_0 mod2_eq_if)

lemma load32_low_bit: "load32 m a AND 1 \<noteq> 0 \<longleftrightarrow> m a AND 1 \<noteq> 0"
  unfolding and_1_bit by (simp add: load32_def load16_def bit_simps)

lemma entry_bytes:
  assumes "entry_ok e" "bytes m p (length (encode_entry e)) = encode_entry e"
  shows "unat (m (p + 1)) = length (encode_entry e)"
    "(m p = 0 \<and> load32 m (p + 4) AND 1 \<noteq> 0) \<longleftrightarrow> (case e of Processor n i fs \<Rightarrow> hd fs AND 1 \<noteq> 0 | Other_entry t bs \<Rightarrow> False)"
    "case e of Processor n i fs \<Rightarrow> m (p + 3) = i | Other_entry t bs \<Rightarrow> True"
proof -
  have "unat (m (p + 1)) = length (encode_entry e) \<and>
    ((m p = 0 \<and> load32 m (p + 4) AND 1 \<noteq> 0) \<longleftrightarrow> (case e of Processor n i fs \<Rightarrow> hd fs AND 1 \<noteq> 0 | Other_entry t bs \<Rightarrow> False)) \<and>
    (case e of Processor n i fs \<Rightarrow> m (p + 3) = i | Other_entry t bs \<Rightarrow> True)"
  proof (cases e)
    case (Processor n i fs)
    then obtain f fs' where f: "fs = f # fs'" "length fs' = 3" using assms(1) by (cases fs) auto
    have "bytes m p (Suc (Suc (Suc (Suc (Suc (length fs')))))) = 0 # 8 # n # i # f # fs'"
      using assms(2) by (simp only: Processor f encode_entry.simps append.simps list.size add_Suc_right add_0_right)
    then have "m p = 0" "m (p + 1) = 8" "m (p + 3) = i" "m (p + 4) = f" by (simp_all add: bytes_Suc add.assoc)
    then show ?thesis by (simp add: Processor f load32_low_bit)
  next
    case (Other_entry t bs)
    have "length bs + 2 < 256" using assms(1) Other_entry by simp
    then have "unat (of_nat (2 + length bs) :: u8) = 2 + length bs" by (intro unat_of_nat_small) simp
    then show ?thesis using assms by (simp add: Other_entry bytes_Suc)
  qed
  then show "unat (m (p + 1)) = length (encode_entry e)"
    "(m p = 0 \<and> load32 m (p + 4) AND 1 \<noteq> 0) \<longleftrightarrow> (case e of Processor n i fs \<Rightarrow> hd fs AND 1 \<noteq> 0 | Other_entry t bs \<Rightarrow> False)"
    "case e of Processor n i fs \<Rightarrow> m (p + 3) = i | Other_entry t bs \<Rightarrow> True" by blast+
qed

lemma encode_length: "2 \<le> length (encode_entry e)"
  by (cases e) simp_all

text \<open>
  The walk adds the enabled processors in the order of the table and returns, unless there are more than the array has cells for.
\<close>

lemma madt_walk_entries:
  assumes "\<forall>e\<in>set es. entry_ok e" "bytes m p (length (concat (map encode_entry es))) = concat (map encode_entry es)"
    and "unat p + length (concat (map encode_entry es)) < 2 ^ 64" "lim = p + of_nat (length (concat (map encode_entry es)))"
    and "acpi_ok s"
  shows "if length (id_list s @ enabled_ids es) \<le> MAX_CPU_IDS
    then \<exists>s'. madt_walk m p lim s = Some s' \<and> acpi_ok s' \<and> id_list s' = id_list s @ enabled_ids es \<and> lapic_addr s' = lapic_addr s
    else madt_walk m p lim s = None"
  using assms
proof (induction es arbitrary: p s)
  case Nil
  then show ?case using length_id_list [OF Nil.prems(5)] by (subst (1 2) madt_walk.simps) (auto simp: acpi_ok_def)
next
  case (Cons e es)
  let ?n = "length (encode_entry e)"
  let ?k = "length (concat (map encode_entry es))"
  have b: "bytes m p ?n = encode_entry e" "bytes m (p + of_nat ?n) ?k = concat (map encode_entry es)"
    using Cons.prems(2) by (simp_all add: bytes_append)
  have ok: "entry_ok e" using Cons.prems(1) by simp
  note eb = entry_bytes [OF ok b(1)]
  have nn: "of_nat ?n = (ucast (m (p + 1)) :: u64)" using eb(1) by (metis of_nat_unat ucast_eq)
  have u: "unat (p + of_nat ?n) = unat p + ?n" "unat lim = unat p + ?n + ?k"
    using Cons.prems(3,4) by (simp_all add: unat_plus_no_wrap unat_of_nat_small)
  have "unat p < unat lim" using u(2) encode_length [of e] by linarith
  then have lt: "p < lim" by (simp add: word_less_nat_alt)
  have IH: "if length (id_list s1 @ enabled_ids es) \<le> MAX_CPU_IDS
    then \<exists>s'. madt_walk m (p + of_nat ?n) lim s1 = Some s' \<and> acpi_ok s' \<and> id_list s' = id_list s1 @ enabled_ids es \<and> lapic_addr s' = lapic_addr s1
    else madt_walk m (p + of_nat ?n) lim s1 = None" if "acpi_ok s1" for s1
    using Cons.IH [of "p + of_nat ?n" s1] Cons.prems b(2) u(1) that by (simp add: add.assoc)
  show ?case
  proof (cases "m p = 0 \<and> load32 m (p + 4) AND 1 \<noteq> 0")
    case True
    then obtain n i fs where e: "e = Processor n i fs" "hd fs AND 1 \<noteq> 0" "m (p + 3) = i" using eb(2,3) by (cases e) simp_all
    have step: "madt_walk m p lim s = Option.bind (add_cpu i s) (madt_walk m (p + of_nat ?n) lim)"
      using lt True e(3) by (subst madt_walk.simps) (simp add: nn)
    have ids: "enabled_ids (e # es) = i # enabled_ids es" using e by simp
    show ?thesis
    proof (cases "length (id_list s) < MAX_CPU_IDS")
      case True
      then obtain s1 where "add_cpu i s = Some s1" "acpi_ok s1" "id_list s1 = id_list s @ [i]" "lapic_addr s1 = lapic_addr s"
        using add_cpu_cases [OF Cons.prems(5), of i] by auto
      then show ?thesis using IH [of s1] unfolding step ids by (auto split: if_splits)
    next
      case False
      then show ?thesis using add_cpu_cases [OF Cons.prems(5), of i] unfolding step ids by simp
    qed
  next
    case False
    then have "enabled_ids (e # es) = enabled_ids es" using eb(2) by (cases e) simp_all
    moreover have "madt_walk m p lim s = madt_walk m (p + of_nat ?n) lim s"
      using lt False by (subst madt_walk.simps) (auto simp: nn)
    ultimately show ?thesis using IH [OF Cons.prems(5)] by simp
  qed
qed

text \<open>An entry of length 0 is visited for ever.\<close>

lemma madt_zero_length:
  assumes "m (p + 1) = 0" "p < lim"
  shows "madt_walk m p lim s = None"
proof (rule ccontr)
  assume "madt_walk m p lim s \<noteq> None"
  then obtain y where "madt_walk m p lim s = Some y" by auto
  moreover have "\<not> (m (p + 1) = 0 \<and> p < lim)" if "madt_walk m p lim s = Some y" for p s
    using that
  proof (rule madt_walk.raw_induct [rotated])
    fix walk and m :: memory and p lim :: u64 and s y :: acpi_vars
    assume IH: "\<And>(m :: memory) p lim (s :: acpi_vars) (y :: acpi_vars). walk m p lim s = Some y \<Longrightarrow> \<not> (m (p + 1) = 0 \<and> p < lim)"
    assume "(if p < lim
        then Option.bind (if m p = 0 \<and> load32 m (p + 4) AND 1 \<noteq> 0 then add_cpu (m (p + 3)) s else Some s)
               (walk m (p + ucast (m (p + 1))) lim)
        else Some s) = Some y"
    then show "\<not> (m (p + 1) = 0 \<and> p < lim)"
      using IH by (cases "m (p + 1) = 0 \<and> p < lim") (auto split: Option.bind_splits)
  qed
  ultimately show False using assms by blast
qed

section \<open>Properties\<close>

text \<open>
  C33. A MADT at \<open>madt\<close> with the entries \<open>es\<close>, whose lengths add up to the one in its header. With at most 64 processors
  in all, reading it returns, sets the address of the local APIC and appends the identifiers of the enabled processors in the order of
  the table; with more, it stores behind the array of identifiers.
\<close>

theorem read_madt_correct:
  assumes "\<forall>e\<in>set es. entry_ok e" "body = concat (map encode_entry es)" "bytes m (madt + 44) (length body) = body"
    and "load32 m (madt + 4) = of_nat (44 + length body)" "unat madt + 44 + length body < 2 ^ 32" "acpi_ok s"
  shows "if length (id_list s @ enabled_ids es) \<le> 64
    then \<exists>s'. read_madt m madt s = Some s' \<and> acpi_ok s' \<and> id_list s' = id_list s @ enabled_ids es \<and> lapic_addr s' = load32 m (madt + 36)
    else read_madt m madt s = None"
proof -
  have "unat (of_nat (44 + length body) :: u32) = 44 + length body" using assms(5) by (intro unat_of_nat_small) simp
  then have "ucast (load32 m (madt + 4)) = (of_nat (44 + length body) :: u64)" unfolding assms(4) by (metis of_nat_unat ucast_eq)
  moreover have "unat (madt + 44) + length body < 2 ^ 64"
  proof -
    have "unat (madt + 44) = unat madt + 44" using assms(5) by (subst unat_plus_no_wrap) simp_all
    then show ?thesis using assms(5) by simp
  qed
  ultimately have run: "read_madt m madt s = madt_walk m (madt + 44) (madt + 44 + of_nat (length body)) (s\<lparr>lapic_addr := load32 m (madt + 36)\<rparr>)"
    and room: "unat (madt + 44) + length body < 2 ^ 64"
    by (simp_all add: read_madt_def MADT_SIZE_def add.assoc)
  have s: "acpi_ok (s\<lparr>lapic_addr := x\<rparr>)" "id_list (s\<lparr>lapic_addr := x\<rparr>) = id_list s" for x
    using assms(6) by (simp_all add: acpi_ok_def id_list_def)
  show ?thesis
    using madt_walk_entries [OF assms(1) assms(3) [unfolded assms(2)] _ refl s(1) [of "load32 m (madt + 36)"]] room
    unfolding run s(2) assms(2) MAX_CPU_IDS_def by (simp split: if_splits)
qed

text \<open>A table with an enabled processor 5, another entry and a disabled processor 6.\<close>

definition madt_demo :: memory where
  "madt_demo = put_buffer 0x1000 ([0x41, 0x50, 0x49, 0x43, 63, 0, 0, 0] @ replicate 28 0 @ [0, 0, 0xE0, 0xFE, 0, 0, 0, 0] @
     [0, 8, 0, 5, 1, 0, 0, 0] @ [1, 3, 9] @ [0, 8, 1, 6, 0, 0, 0, 0]) (\<lambda>_. 0)"

theorem read_madt_correct_witness:
  "\<exists>s'. read_madt madt_demo 0x1000 \<lparr>lapic_addr = 0, cpu_ids = replicate 64 0, acpi_cpu_count = 0\<rparr> = Some s' \<and>
     id_list s' = [5] \<and> lapic_addr s' = 0xFEE00000"
proof -
  let ?es = "[Processor 0 5 [1, 0, 0, 0], Other_entry 1 [9], Processor 1 6 [0, 0, 0, 0]]"
  have e: "\<forall>e\<in>set ?es. entry_ok e" by simp
  have b: "bytes madt_demo (0x1000 + 44) (length (concat (map encode_entry ?es))) = concat (map encode_entry ?es)"
    by (simp add: bytes_def madt_demo_def put_buffer_def upt_rec nth_append)
  have l: "load32 madt_demo (0x1000 + 4) = of_nat (44 + length (concat (map encode_entry ?es)))"
    "load32 madt_demo (0x1000 + 36) = 0xFEE00000"
    by (simp_all add: load32_def load16_def madt_demo_def put_buffer_def nth_append)
  have "acpi_ok \<lparr>lapic_addr = 0, cpu_ids = replicate 64 0, acpi_cpu_count = 0\<rparr>" by (simp add: acpi_ok_def MAX_CPU_IDS_def)
  then show ?thesis
    using read_madt_correct [OF e refl b l(1), of "\<lparr>lapic_addr = 0, cpu_ids = replicate 64 0, acpi_cpu_count = 0\<rparr>"] l(2)
    by (auto simp: id_list_def)
qed

end
