(* ===== verification/Idt.thy ===== *)
theory Idt
  imports Task Fault Console Input Apic
begin

text \<open>
  Interrupts: the descriptor tables (src/kernel/idt.c, src/kernel/gdt.c), the legacy interrupt controller, and the
  dispatch of exceptions and device interrupts to the parts of the kernel. The registers of the interrupted code are
  the frame the assembly stubs push.
\<close>

section \<open>Descriptor tables\<close>

record idt_entry =
  offset_low :: u16
  selector :: u16
  ist :: u8
  type_attr :: u8
  offset_middle :: u16
  offset_high :: u32
  idt_reserved :: u32

definition idt_set_gate :: "u8 \<Rightarrow> u64 \<Rightarrow> u16 \<Rightarrow> u8 \<Rightarrow> (u8 \<Rightarrow> idt_entry) \<Rightarrow> u8 \<Rightarrow> idt_entry" where
  "idt_set_gate num base sel flags idt = idt(num :=
     \<lparr>offset_low = ucast (base AND 0xFFFF), selector = sel, ist = 0, type_attr = flags,
      offset_middle = ucast (drop_bit 16 base AND 0xFFFF), offset_high = ucast (drop_bit 32 base AND 0xFFFFFFFF),
      idt_reserved = 0\<rparr>)"

definition pic_remap :: "'d port_io \<Rightarrow> 'd \<Rightarrow> 'd" where
  "pic_remap io d = fold (\<lambda>(p, v). outb io p v)
     [(0x20, 0x11), (0xA0, 0x11), (0x21, 0x20), (0xA1, 0x28), (0x21, 0x04), (0xA1, 0x02), (0x21, 0x01), (0xA1, 0x01),
      (0x21, 0xFF), (0xA1, 0xFF)] d"

definition pic_eoi :: "'d port_io \<Rightarrow> u8 \<Rightarrow> 'd \<Rightarrow> 'd" where
  "pic_eoi io irq d =
     (let d = (if irq \<ge> 8 then outb io 0xA0 0x20 d else d) in outb io 0x20 0x20 d)"

text \<open>\<open>isrs\<close> are the addresses of the 48 stubs, \<open>idt_address\<close> that of the table; the pointer is limit and base.\<close>

record idt_vars =
  idt :: "u8 \<Rightarrow> idt_entry"
  idt_limit :: u16
  idt_base :: u64

definition idt_init_global :: "'d port_io \<Rightarrow> u64 \<Rightarrow> (nat \<Rightarrow> u64) \<Rightarrow> idt_vars \<times> 'd \<Rightarrow> idt_vars \<times> 'd" where
  "idt_init_global io idt_address isrs = (\<lambda>(v, d).
     let v = v\<lparr>idt_limit := 16 * 256 - 1, idt_base := idt_address\<rparr>;
         v = v\<lparr>idt := fold (\<lambda>i. idt_set_gate (of_nat i) 0 0 0) [0..<256] (idt v)\<rparr>;
         d = pic_remap io d
     in (v\<lparr>idt := fold (\<lambda>i. idt_set_gate (of_nat i) (isrs i) 0x08 0x8E) [0..<48] (idt v)\<rparr>, d))"

text \<open>The segment descriptors of a CPU: five entries and the task state segment.\<close>

record gdt_entry =
  limit_low :: u16
  base_low :: u16
  base_middle :: u8
  access :: u8
  granularity :: u8
  base_high :: u8

record gdt_tss_entry = gdt_entry +
  base_higher :: u32
  gdt_reserved :: u32

record cpu_gdt =
  gdt_entries :: "gdt_entry list"
  gdt_tss :: gdt_tss_entry
  gdt_limit :: u16
  gdt_base :: u64
  tss_words :: "u8 list"

definition gdt_set_entry :: "nat \<Rightarrow> u32 \<Rightarrow> u32 \<Rightarrow> u8 \<Rightarrow> u8 \<Rightarrow> cpu_gdt \<Rightarrow> cpu_gdt" where
  "gdt_set_entry i base limit acc gran g = g\<lparr>gdt_entries := (gdt_entries g)[i :=
     \<lparr>limit_low = ucast (limit AND 0xFFFF), base_low = ucast (base AND 0xFFFF), base_middle = ucast (drop_bit 16 base AND 0xFF),
      access = acc, granularity = ucast (drop_bit 16 limit AND 0x0F) OR (gran AND 0xF0),
      base_high = ucast (drop_bit 24 base AND 0xFF)\<rparr>]\<rparr>"

definition gdt_set_tss :: "u64 \<Rightarrow> u32 \<Rightarrow> cpu_gdt \<Rightarrow> cpu_gdt" where
  "gdt_set_tss base limit g = g\<lparr>gdt_tss :=
     \<lparr>limit_low = ucast (limit AND 0xFFFF), base_low = ucast (base AND 0xFFFF), base_middle = ucast (drop_bit 16 base AND 0xFF),
      access = 0x89, granularity = ucast (drop_bit 16 limit AND 0x0F), base_high = ucast (drop_bit 24 base AND 0xFF),
      base_higher = ucast (drop_bit 32 base AND 0xFFFFFFFF), gdt_reserved = 0\<rparr>\<rparr>"

text \<open>\<open>sizeof(struct tss_entry)\<close> is 104, \<open>sizeof(cpu->gdt)\<close> is 56; \<open>iopb_offset\<close> is the last field of the segment.\<close>

definition TSS_SIZE :: nat where "TSS_SIZE = 104"

definition gdt_init :: "u64 \<Rightarrow> u64 \<Rightarrow> cpu_gdt \<Rightarrow> cpu_gdt" where
  "gdt_init gdt_address tss_address g =
     (let g = g\<lparr>gdt_limit := 56 - 1, gdt_base := gdt_address\<rparr>;
          g = gdt_set_entry 0 0 0 0 0 g;
          g = gdt_set_entry 1 0 0xFFFFFFFF 0x9A 0xAF g;
          g = gdt_set_entry 2 0 0xFFFFFFFF 0x92 0xAF g;
          g = gdt_set_entry 3 0 0xFFFFFFFF 0xF2 0xAF g;
          g = gdt_set_entry 4 0 0xFFFFFFFF 0xFA 0xAF g;
          g = g\<lparr>tss_words := replicate (TSS_SIZE - 2) 0 @ [of_nat TSS_SIZE, 0]\<rparr>
      in gdt_set_tss tss_address (of_nat TSS_SIZE - 1) g)"

section \<open>The kernel below the handlers\<close>

record interrupt_frame =
  f_r15 :: u64
  f_r14 :: u64
  f_r13 :: u64
  f_r12 :: u64
  f_r11 :: u64
  f_r10 :: u64
  f_r9 :: u64
  f_r8 :: u64
  f_rdi :: u64
  f_rsi :: u64
  f_rbp :: u64
  f_rdx :: u64
  f_rcx :: u64
  f_rbx :: u64
  f_rax :: u64
  int_no :: u64
  error_code :: u64
  f_rip :: u64
  f_cs :: u64
  f_rflags :: u64
  f_rsp :: u64
  f_ss :: u64

text \<open>
  The machine is the state of the devices and that of the kernel, the shell included. A handler resumes at a stack pointer,
  or halts the CPU for good; None is a loop that does not return.
\<close>

record 'h sys =
  kern_of :: kern
  screen_of :: vga_state
  pit_of :: pit_vars
  mouse_of :: mouse_vars
  rest_of :: 'h

type_synonym ('d, 'h) machine = "'d \<times> 'h sys"

datatype resume = Resume u64 | Halted

definition on_kern :: "(kern \<Rightarrow> kern) \<Rightarrow> 'h sys \<Rightarrow> 'h sys" where
  "on_kern f s = s\<lparr>kern_of := f (kern_of s)\<rparr>"

definition schedule :: "u64 \<Rightarrow> ('d, 'h) machine \<Rightarrow> (resume \<times> ('d, 'h) machine) option" where
  "schedule rsp = (\<lambda>(d, s). map_option (\<lambda>(r, k). (Resume r, (d, s\<lparr>kern_of := k\<rparr>))) (task_schedule rsp (kern_of s)))"

definition running :: "kern \<Rightarrow> u64" where
  "running k = current_task (cpu_at k (gs_cpu k))"

section \<open>The log, from a handler\<close>

text \<open>
  A message of the log is a parameter here: what it does to the devices and the screen is \<open>Console.klog\<close>, and it does not
  touch the rest.
\<close>

type_synonym ('d, 'h) logger =
  "log_level_t \<Rightarrow> string \<Rightarrow> string \<Rightarrow> u64 list \<Rightarrow> ('d, 'h) machine \<Rightarrow> ('d, 'h) machine option"

definition handle_page_fault ::
  "('d, 'h) logger \<Rightarrow> u64 \<Rightarrow> interrupt_frame \<Rightarrow> u64 \<Rightarrow> ('d, 'h) machine \<Rightarrow> (resume \<times> ('d, 'h) machine) option" where
  "handle_page_fault log cr2 f frame = (\<lambda>(d, s).
     let k = kern_of s; cur = running k in
     if cur = 0 then Some (Resume frame, (d, s))
     else if error_code f AND 2 \<noteq> 0 \<and> vmm_get_flags (task_pml4 (tasks k cur)) cr2 (vm k) AND PAGE_COW \<noteq> 0
     then Some (Resume frame, (d, s\<lparr>kern_of := k\<lparr>vm := cow_fault (task_pml4 (tasks k cur)) (cr3 k) cr2 (vm k)\<rparr>\<rparr>))
     else Option.bind (log LOG_ERROR ''MEM'' ''Unhandled Page Fault at %p (ERR: %x)'' [cr2, error_code f] (d, s)) (\<lambda>(d, s).
       if f_cs f AND 3 = 3
       then Option.bind (log LOG_ERROR ''TASK'' ''Terminating process %d due to segfault''
                [task_id (tasks (kern_of s) (running (kern_of s)))] (d, s)) (\<lambda>(d, s).
              schedule frame (d, on_kern (upd_task (running (kern_of s)) (\<lambda>t. t\<lparr>task_state := TASK_EXITED\<rparr>)) s))
       else Some (Halted, (d, s))))"

definition exception_messages :: "string list" where
  "exception_messages =
     [''Division By Zero'', ''Debug'', ''Non Maskable Interrupt'', ''Breakpoint'', ''Into Detected Overflow'', ''Out of Bounds'',
      ''Invalid Opcode'', ''No Coprocessor'', ''Double Fault'', ''Coprocessor Segment Overrun'', ''Bad TSS'',
      ''Segment Not Present'', ''Stack Fault'', ''General Protection Fault'', ''Page Fault'', ''Unknown Interrupt'',
      ''Coprocessor Fault'', ''Alignment Check'', ''Machine Check''] @ replicate 13 ''Reserved''"

section \<open>The panic message\<close>

text \<open>The same text to the screen and then to the line.\<close>

definition print_both :: "'d port_io \<Rightarrow> u8 carray \<Rightarrow> 'd tty_state \<Rightarrow> 'd tty_state option" where
  "print_both io str = (\<lambda>(v, d).
     Option.bind (vga_print str v) (\<lambda>v. map_option (Pair v) (serial_print io str d)))"

definition field_both :: "'d port_io \<Rightarrow> string \<times> u64 \<Rightarrow> 'd tty_state \<Rightarrow> 'd tty_state option" where
  "field_both io = (\<lambda>(label, val) (v, d).
     Option.bind (vga_print (literal label) v) (\<lambda>v.
     Option.bind (vga_print_hex val v) (\<lambda>v.
     Option.bind (serial_print io (literal label) d) (\<lambda>d.
     map_option (Pair v) (serial_print_hex io val d)))))"

fun fields_both :: "'d port_io \<Rightarrow> (string \<times> u64) list \<Rightarrow> 'd tty_state \<Rightarrow> 'd tty_state option" where
  "fields_both io [] s = print_both io (literal [CHR 0x0A]) s"
| "fields_both io (x # xs) s = Option.bind (field_both io x s) (fields_both io xs)"

definition panic_head :: "string \<Rightarrow> (u8 carray \<Rightarrow> 's \<Rightarrow> 's option) \<Rightarrow> 's \<Rightarrow> 's option" where
  "panic_head msg print s =
     Option.bind (print (literal (CHR 0x0A # ''KERNEL PANIC: '')) s) (\<lambda>s.
     Option.bind (print (literal msg) s) (print (literal [CHR 0x0A])))"

definition print_panic :: "'d port_io \<Rightarrow> interrupt_frame \<Rightarrow> 'd tty_state \<Rightarrow> 'd tty_state option" where
  "print_panic io f = (\<lambda>(v, d).
     let msg = exception_messages ! unat (int_no f) in
     Option.bind (panic_head msg vga_print v) (\<lambda>v.
     Option.bind (panic_head msg (serial_print io) d) (\<lambda>d.
     Option.bind (fields_both io [(''RIP: '', f_rip f), ('' CS: '', f_cs f), ('' RFLAGS: '', f_rflags f)] (v, d)) (\<lambda>s.
     Option.bind (fields_both io [(''RSP: '', f_rsp f), ('' SS: '', f_ss f), ('' ERR: '', error_code f)] s) (\<lambda>s.
     Option.bind (fields_both io [(''RAX: '', f_rax f), ('' RBX: '', f_rbx f), ('' RCX: '', f_rcx f)] s) (
     fields_both io [(''RDX: '', f_rdx f), ('' RDI: '', f_rdi f), ('' RSI: '', f_rsi f)]))))))"

section \<open>The dispatcher\<close>

definition timer_interrupt :: "u64 \<Rightarrow> ('d, 'h) machine \<Rightarrow> (resume \<times> ('d, 'h) machine) option" where
  "timer_interrupt rsp = (\<lambda>(d, s).
     let (p, k) = pit_handler task_timer_tick (pit_of s, kern_of s);
         s = s\<lparr>pit_of := p, kern_of := k\<rparr>
     in if task_needs_schedule k \<noteq> 0 then schedule rsp (d, s) else Some (Resume rsp, (d, s)))"

text \<open>\<open>shell_input\<close> may print and change the shell, and it runs inside the handlers of the keyboard and the serial line.\<close>

definition device_interrupt ::
  "'d port_io \<Rightarrow> (u8 \<Rightarrow> ('d, 'h) machine \<Rightarrow> ('d, 'h) machine option) \<Rightarrow> u64 \<Rightarrow> u64 \<Rightarrow> ('d, 'h) machine \<Rightarrow>
     (resume \<times> ('d, 'h) machine) option" where
  "device_interrupt io shell_input n rsp = (\<lambda>(d, s).
     if n = 32 then timer_interrupt rsp (d, s)
     else if n = 33 then map_option (Pair (Resume rsp)) (keyboard_handler io shell_input (d, s))
     else if n = 36 then map_option (Pair (Resume rsp)) (serial_handler io shell_input (d, s))
     else if n = 44 then (let (v, d) = mouse_handler io (mouse_of s, d) in Some (Resume rsp, (d, s\<lparr>mouse_of := v\<rparr>)))
     else Some (Resume rsp, (d, s)))"

definition isr_handler ::
  "'d port_io \<Rightarrow> 'd cpu_io \<Rightarrow> u64 \<Rightarrow> (u8 \<Rightarrow> ('d, 'h) machine \<Rightarrow> ('d, 'h) machine option) \<Rightarrow>
     ('d, 'h) logger \<Rightarrow> u64 \<Rightarrow> interrupt_frame \<Rightarrow> u64 \<Rightarrow> ('d, 'h) machine \<Rightarrow>
     (resume \<times> ('d, 'h) machine) option" where
  "isr_handler io cpu lapic_base shell_input log cr2 f frame = (\<lambda>(d, s).
     if int_no f < 32
     then if int_no f = 14 then handle_page_fault log cr2 f frame (d, s)
          else Option.bind (if f_cs f AND 3 = 3 then log LOG_ERROR ''KERNEL'' ''User process violation! Terminating.'' [] (d, s)
              else Some (d, s)) (\<lambda>(d, s).
            if f_cs f AND 3 = 3 \<and> running (kern_of s) \<noteq> 0
            then schedule frame (d, on_kern (upd_task (running (kern_of s)) (\<lambda>t. t\<lparr>task_state := TASK_EXITED\<rparr>)) s)
            else map_option (\<lambda>(v, d). (Halted, (d, s\<lparr>screen_of := v\<rparr>))) (print_panic io f (screen_of s, d)))
     else if int_no f < 48
     then map_option (\<lambda>(r, (d, s)). (r, (lapic_eoi cpu lapic_base (pic_eoi io (ucast (int_no f - 32)) d), s)))
            (device_interrupt io shell_input (int_no f) frame (d, s))
     else Some (Resume frame, (d, s)))"

section \<open>Descriptors\<close>

text \<open>Where the hardware goes for a gate: the three parts of the offset put together.\<close>

definition gate_target :: "idt_entry \<Rightarrow> u64" where
  "gate_target e = ucast (offset_low e) OR push_bit 16 (ucast (offset_middle e)) OR push_bit 32 (ucast (offset_high e))"

lemma gate_target_parts:
  "(ucast (ucast (b AND 0xFFFF) :: u16) :: u64) OR push_bit 16 (ucast (ucast (drop_bit 16 b AND 0xFFFF) :: u16)) OR
     push_bit 32 (ucast (ucast (drop_bit 32 b AND 0xFFFFFFFF) :: u32)) = b"
proof -
  have m: "(0xFFFF :: u64) = mask 16" "(0xFFFFFFFF :: u64) = mask 32" by (simp_all add: mask_eq_decr_exp)
  show ?thesis
  proof (unfold m, rule bit_word_eqI)
    fix n assume "n < LENGTH(64)"
    then consider "n < 16" | "16 \<le> n" "n < 32" | "32 \<le> n" "n < 64" by fastforce
    then show "bit ((ucast (ucast (b AND mask 16) :: u16) :: u64) OR push_bit 16 (ucast (ucast (drop_bit 16 b AND mask 16) :: u16)) OR
        push_bit 32 (ucast (ucast (drop_bit 32 b AND mask 32) :: u32))) n = bit b n"
      by cases (auto simp: bit_simps)
  qed
qed

lemma set_gates:
  "n \<le> 256 \<Longrightarrow> fold (\<lambda>i. idt_set_gate (of_nat i) (base i) sel flags) [0..<n] t k =
     (if unat k < n then \<lparr>offset_low = ucast (base (unat k) AND 0xFFFF), selector = sel, ist = 0, type_attr = flags,
        offset_middle = ucast (drop_bit 16 (base (unat k)) AND 0xFFFF), offset_high = ucast (drop_bit 32 (base (unat k)) AND 0xFFFFFFFF),
        idt_reserved = 0\<rparr> else t k)"
proof (induction n)
  case (Suc n)
  have "unat (of_nat n :: u8) = n" using Suc.prems by (intro unat_of_nat_small) simp
  then have "k = of_nat n \<longleftrightarrow> unat k = n" by (metis word_unat_eq_iff)
  then show ?case using Suc by (auto simp: idt_set_gate_def less_Suc_eq)
qed simp

text \<open>
  The two interrupt controllers as the code programs them: a write with bit 4 to the command port starts the
  initialisation, the next three to the data port are the base, the wiring and the mode, later ones the mask; an end of
  interrupt counts.
\<close>

record pic =
  pic_step :: nat
  pic_base :: u8
  pic_mask :: u8
  pic_eois :: nat

fun pic_command :: "u8 \<Rightarrow> pic \<Rightarrow> pic" where
  "pic_command v p = (if v AND 0x10 \<noteq> 0 then p\<lparr>pic_step := 1\<rparr> else if v = 0x20 then p\<lparr>pic_eois := pic_eois p + 1\<rparr> else p)"

fun pic_data :: "u8 \<Rightarrow> pic \<Rightarrow> pic" where
  "pic_data v p =
     (if pic_step p = 1 then p\<lparr>pic_base := v, pic_step := 2\<rparr>
      else if pic_step p = 2 then p\<lparr>pic_step := 3\<rparr>
      else if pic_step p = 3 then p\<lparr>pic_step := 0\<rparr>
      else p\<lparr>pic_mask := v\<rparr>)"

fun pics_outb :: "u16 \<Rightarrow> u8 \<Rightarrow> pic \<times> pic \<Rightarrow> pic \<times> pic" where
  "pics_outb port v (a, b) =
     (if port = 0x20 then (pic_command v a, b) else if port = 0x21 then (pic_data v a, b)
      else if port = 0xA0 then (a, pic_command v b) else if port = 0xA1 then (a, pic_data v b) else (a, b))"

definition pics_io :: "(pic \<times> pic) port_io" where
  "pics_io = \<lparr>inb = (\<lambda>p d. (0, d)), inw = (\<lambda>p d. (0, d)), outb = pics_outb, outw = (\<lambda>p v d. d)\<rparr>"

section \<open>Properties\<close>

text \<open>
  After \<open>idt_init_global\<close> the gates 0 to 47 are present interrupt gates of the kernel code segment that lead to their stub,
  all others are not present, and the two controllers deliver at 32 and 40 with every line masked.
\<close>

theorem idt_init_correct:
  assumes "idt_init_global pics_io a isrs (v, (m, s)) = (v', (m', s'))"
  shows "(\<forall>k. if unat k < 48 then gate_target (idt v' k) = isrs (unat k) \<and> type_attr (idt v' k) = 0x8E \<and> selector (idt v' k) = 8
      else bit (type_attr (idt v' k)) 7 = False) \<and>
    idt_base v' = a \<and> idt_limit v' = 4095 \<and>
    pic_base m' = 32 \<and> pic_base s' = 40 \<and> pic_mask m' = 0xFF \<and> pic_mask s' = 0xFF \<and> pic_step m' = 0 \<and> pic_step s' = 0"
proof -
  have "unat (k :: u8) < 256" for k using unsigned_less [of k, where 'a = nat] by simp
  then show ?thesis
    using assms by (auto simp: idt_init_global_def pic_remap_def pics_io_def set_gates gate_target_def gate_target_parts)
qed

text \<open>A CPU in which the running task is marked as finished.\<close>

lemma exit_current:
  fixes k :: kern
  defines "x \<equiv> running k"
  assumes ok: "sched_ok k Q" and st: "task_state (tasks k x) = TASK_RUNNING" and id: "task_id (tasks k x) \<noteq> 0"
  shows "sched_ok (upd_task x (\<lambda>t. t\<lparr>task_state := TASK_EXITED\<rparr>) k) Q"
    "runnable (upd_task x (\<lambda>t. t\<lparr>task_state := TASK_EXITED\<rparr>) k) Q = runnable k Q - {x}"
    "x \<notin> queued (cpus_of k) Q"
proof -
  let ?k = "upd_task x (\<lambda>t. t\<lparr>task_state := TASK_EXITED\<rparr>) k"
  note o = ok [unfolded sched_ok_def]
  have c: "cpus_of ?k = cpus_of k" by (simp add: cpus_of_def cpu_get_by_index_def cpu_get_count_def)
  have me: "gs_cpu k \<in> set (cpus_of k)" using o by blast
  show nq: "x \<notin> queued (cpus_of k) Q" using o me by (auto simp: x_def running_def)
  have q: "queues_ok ?k (cpus_of k) Q" 
  proof (rule queues_ok_cong)
    show "queues_ok k (cpus_of k) Q" using o by blast
    show "task_links ?k = task_links k" by (simp add: task_links_def fun_eq_iff)
  qed simp
  have i: "task_id (tasks ?k t) = task_id (tasks k t)" for t by simp
  have s: "task_state (tasks ?k t) = (if t = x then TASK_EXITED else task_state (tasks k t))" for t by simp
  show "sched_ok ?k Q" unfolding sched_ok_def c i s using q o nq by (auto simp: x_def running_def)
  show "runnable ?k Q = runnable k Q - {x}" unfolding runnable_def c i s using nq by auto
qed

text \<open>A CPU whose task has exited goes on with the choice of the scheduler, from where that task was left.\<close>

lemma exited_schedule:
  assumes ok: "sched_ok k Q" and x: "x = running k" "task_id (tasks k x) \<noteq> 0" "task_state (tasks k x) = TASK_EXITED"
    and out: "x \<notin> queued (cpus_of k) Q" "x \<notin> runnable k Q"
    and pick: "sched_pick (gs_cpu k) (cpus_of k) Q = (t, Q')" "nxt = (if t = 0 then idle_task (cpu_at k (gs_cpu k)) else t)"
  obtains k' where "task_schedule frame k = Some (task_rsp (tasks k nxt), k')" "sched_ok k' Q'" "runnable k' Q' = runnable k Q"
    "gone k' Q' x" "running k' = nxt" "nxt \<noteq> x" "cr3 k' = task_pml4 (tasks k nxt)"
proof -
  have q: "requeued k Q = Q" using x(1,3) by (simp add: requeued_def running_def Let_def)
  obtain k' where k': "task_schedule frame k = Some (task_rsp (tasks k' nxt), k')" "switched frame nxt k k'" "sched_ok k' Q'"
    "runnable k' Q' = runnable k Q"
    using schedule_ok [OF ok, of t Q' frame] pick unfolding q by auto
  have me: "gs_cpu k \<in> set (cpus_of k)" using ok by (simp add: sched_ok_def)
  have "\<exists>r' k2 Q2. task_schedule frame (k\<lparr>gs_cpu := gs_cpu k\<rparr>) = Some (r', k2) \<and> sched_ok k2 Q2 \<and> gone k2 Q2 x \<and>
      task_id (tasks k2 x) \<noteq> 0 \<and> cpus_of k2 = cpus_of k"
    using x(3) by (intro schedule_gone [OF ok me x(2) out(1)] disjI1) (simp add: x(1) running_def)
  then obtain Q2 where "gone k' Q2 x" using k'(1) by auto
  then have g: "gone k' Q' x" using k'(4) out(2) by (auto simp: gone_def runnable_def)
  have sw: "current_task (cpu_at k' (gs_cpu k)) = nxt" "gs_cpu k' = gs_cpu k" "cr3 k' = task_pml4 (tasks k nxt)" "cpus_of k' = cpus_of k"
    using k'(2) by (simp_all add: switched_def Let_def)
  have ne: "nxt \<noteq> x" using g me sw by (auto simp: gone_def)
  have "core (tasks k' nxt) = core ((tasks k nxt)\<lparr>task_state := TASK_RUNNING,
      timeslice := (if task_id (tasks k nxt) = 0 then 0 else TASK_DEFAULT_TIMESLICE)\<rparr>)"
    using k'(2) ne x(1) by (simp add: switched_def Let_def running_def)
  then have "task_rsp (tasks k' nxt) = task_rsp (tasks k nxt)" by (drule_tac core_fields) simp
  then show thesis using that [of k'] k' g ne sw by (simp add: running_def)
qed

text \<open>The two ways an exception in user mode takes through the handler end in the scheduler with the task marked.\<close>

lemma user_fault_schedules:
  assumes x: "x = running (kern_of s)" "x \<noteq> 0" and f: "int_no f < 32" "f_cs f AND 3 = 3"
    and nocow: "int_no f \<noteq> 14 \<or> error_code f AND 2 = 0 \<or> vmm_get_flags (task_pml4 (tasks (kern_of s) x)) cr2 (vm (kern_of s)) AND PAGE_COW = 0"
    and log: "\<And>l m t as d s. \<exists>d' v. log l m t as (d, s) = Some (d', s\<lparr>screen_of := v\<rparr>)"
    and k': "task_schedule frame (upd_task x (\<lambda>t. t\<lparr>task_state := TASK_EXITED\<rparr>) (kern_of s)) = Some (r, k')"
  shows "\<exists>d1 v. isr_handler io cpu base shell_input log cr2 f frame (d, s) = Some (Resume r, (d1, s\<lparr>screen_of := v, kern_of := k'\<rparr>))"
proof -
  have sch: "schedule frame (d1, on_kern (upd_task x (\<lambda>t. t\<lparr>task_state := TASK_EXITED\<rparr>)) (s\<lparr>screen_of := v\<rparr>)) =
      Some (Resume r, (d1, s\<lparr>screen_of := v, kern_of := k'\<rparr>))" for d1 v
    using k' by (simp add: schedule_def on_kern_def)
  show ?thesis
  proof (cases "int_no f = 14")
    case True
    obtain d1 v1 where l1: "log LOG_ERROR ''MEM'' ''Unhandled Page Fault at %p (ERR: %x)'' [cr2, error_code f] (d, s) =
        Some (d1, s\<lparr>screen_of := v1\<rparr>)" using log by blast
    obtain d2 v2 where l2: "log LOG_ERROR ''TASK'' ''Terminating process %d due to segfault'' [task_id (tasks (kern_of s) x)]
        (d1, s\<lparr>screen_of := v1\<rparr>) = Some (d2, s\<lparr>screen_of := v1\<rparr>\<lparr>screen_of := v2\<rparr>)" using log by blast
    have nc: "\<not> (error_code f AND 2 \<noteq> 0 \<and> vmm_get_flags (task_pml4 (tasks (kern_of s) x)) cr2 (vm (kern_of s)) AND PAGE_COW \<noteq> 0)"
      using nocow True by blast
    have "isr_handler io cpu base shell_input log cr2 f frame (d, s) = Some (Resume r, (d2, s\<lparr>screen_of := v2, kern_of := k'\<rparr>))"
      using True f l1 l2 sch [of d2 v2] nc x(2) by (auto simp: isr_handler_def handle_page_fault_def Let_def x(1) [symmetric])
    then show ?thesis by blast
  next
    case False
    obtain d1 v1 where l1: "log LOG_ERROR ''KERNEL'' ''User process violation! Terminating.'' [] (d, s) =
        Some (d1, s\<lparr>screen_of := v1\<rparr>)" using log by blast
    have "isr_handler io cpu base shell_input log cr2 f frame (d, s) = Some (Resume r, (d1, s\<lparr>screen_of := v1, kern_of := k'\<rparr>))"
      using False f l1 sch [of d1 v1] x(2) by (simp add: isr_handler_def Let_def x(1) [symmetric])
    then show ?thesis by blast
  qed
qed

text \<open>
  C32. An exception in user mode (a page fault that is not a write to a copy-on-write page among them) ends the running task and
  nothing else: the handler returns, the scheduler state is well formed, the task is neither running nor queued, and all
  other tasks that could run still can. The log is assumed to return and to leave the kernel alone.
\<close>

theorem user_fault_isolated:
  assumes ok: "sched_ok (kern_of s) Q" and x: "x = running (kern_of s)" "task_state (tasks (kern_of s) x) = TASK_RUNNING"
      "task_id (tasks (kern_of s) x) \<noteq> 0"
    and f: "int_no f < 32" "f_cs f AND 3 = 3"
    and nocow: "int_no f \<noteq> 14 \<or> error_code f AND 2 = 0 \<or> vmm_get_flags (task_pml4 (tasks (kern_of s) x)) cr2 (vm (kern_of s)) AND PAGE_COW = 0"
    and log: "\<And>l m t as d s. \<exists>d' v. log l m t as (d, s) = Some (d', s\<lparr>screen_of := v\<rparr>)"
  shows "\<exists>r d' s' Q'. isr_handler io cpu base shell_input log cr2 f frame (d, s) = Some (Resume r, (d', s')) \<and>
    sched_ok (kern_of s') Q' \<and> gone (kern_of s') Q' x \<and> runnable (kern_of s') Q' = runnable (kern_of s) Q - {x}"
proof -
  define k where "k = upd_task x (\<lambda>t. t\<lparr>task_state := TASK_EXITED\<rparr>) (kern_of s)"
  note e = exit_current [OF ok, folded x(1), OF x(2,3), folded k_def]
  have k: "x = running k" "task_id (tasks k x) \<noteq> 0" "task_state (tasks k x) = TASK_EXITED" "cpus_of k = cpus_of (kern_of s)"
    using x(1,3) by (simp_all add: k_def running_def cpus_of_def cpu_get_by_index_def cpu_get_count_def)
  have nr: "x \<notin> runnable k Q" using e(2) by simp
  obtain t Q' where p: "sched_pick (gs_cpu k) (cpus_of k) Q = (t, Q')" by fastforce
  obtain r k' where k': "task_schedule frame k = Some (r, k')" "sched_ok k' Q'" "runnable k' Q' = runnable k Q" "gone k' Q' x"
    using exited_schedule [OF e(1) k(1-3) e(3) [folded k(4)] nr p refl] by blast
  have "x \<noteq> 0" using ok x(1) by (auto simp: sched_ok_def running_def)
  then have "\<exists>d1 v. isr_handler io cpu base shell_input log cr2 f frame (d, s) = Some (Resume r, (d1, s\<lparr>screen_of := v, kern_of := k'\<rparr>))"
    by (rule user_fault_schedules [OF x(1) _ f nocow _ k'(1) [unfolded k_def]]) (rule log)
  then obtain d1 v where "isr_handler io cpu base shell_input log cr2 f frame (d, s) = Some (Resume r, (d1, s\<lparr>screen_of := v, kern_of := k'\<rparr>))"
    by blast
  then show ?thesis using k'(2-4) e(2) by (intro exI conjI) (assumption | simp)+
qed

text \<open>A CPU that runs task 1, with task 2 queued; the task divides by zero.\<close>

definition div_frame :: interrupt_frame where
  "div_frame = \<lparr>f_r15 = 0, f_r14 = 0, f_r13 = 0, f_r12 = 0, f_r11 = 0, f_r10 = 0, f_r9 = 0, f_r8 = 0, f_rdi = 0, f_rsi = 0,
     f_rbp = 0, f_rdx = 0, f_rcx = 0, f_rbx = 0, f_rax = 1, int_no = 0, error_code = 0, f_rip = 0x400000,
     f_cs = 0x23, f_rflags = 0x202, f_rsp = 0x7000, f_ss = 0x1B\<rparr>"

definition busy_sys :: "unit sys" where
  "busy_sys = \<lparr>kern_of = two_tasks, screen_of = \<lparr>vga_buffer = [], col = 0, row = 0, vcolor = 7\<rparr>,
     pit_of = \<lparr>ticks = 0, tsc_freq_mhz = 0\<rparr>, mouse_of = mouse_start, rest_of = ()\<rparr>"

theorem user_fault_isolated_witness:
  "\<exists>r d' s' Q'. isr_handler pics_io undefined 0 (\<lambda>c s. Some s) (\<lambda>l m t as s. Some s) 0 div_frame 0x9000 (undefined, busy_sys) =
       Some (Resume r, (d', s')) \<and> gone (kern_of s') Q' 0x300 \<and> runnable (kern_of s') Q' = {0x400}"
proof -
  have run: "0x300 = running (kern_of busy_sys)" by (simp add: busy_sys_def running_def two_tasks_def)
  have ok: "sched_ok (kern_of busy_sys) (\<lambda>_. [0x400])" using two_tasks_ok by (simp add: busy_sys_def)
  have st: "task_state (tasks (kern_of busy_sys) 0x300) = TASK_RUNNING" "task_id (tasks (kern_of busy_sys) 0x300) \<noteq> 0"
    by (simp_all add: busy_sys_def two_tasks_def)
  have f: "int_no div_frame < 32" "f_cs div_frame AND 3 = 3" "int_no div_frame \<noteq> 14 \<or> error_code div_frame AND 2 = 0 \<or>
      vmm_get_flags (task_pml4 (tasks (kern_of busy_sys) 0x300)) 0 (vm (kern_of busy_sys)) AND PAGE_COW = 0"
    by (simp_all add: div_frame_def)
  have log: "\<exists>d' v. Some (d, t) = Some (d', t\<lparr>screen_of := v\<rparr>)" for d and t :: "unit sys"
    by (rule exI [of _ d], rule exI [of _ "screen_of t"]) simp
  have "runnable (kern_of busy_sys) (\<lambda>_. [0x400]) - {0x300} = {0x400}"
    by (auto simp: runnable_def busy_sys_def two_tasks_cpus queued_def) (auto simp: two_tasks_def)
  then show ?thesis
    using user_fault_isolated [OF ok run st f log, of pics_io undefined 0 "\<lambda>c s. Some s" "0x9000" undefined] by auto
qed

section \<open>The panic message\<close>

definition field_text :: "string \<times> u64 \<Rightarrow> u8 list" where
  "field_text = (\<lambda>(label, val). map of_char label @ [48, 120] @ hex_digits 16 val)"

definition panic_text :: "interrupt_frame \<Rightarrow> u8 list" where
  "panic_text f =
     [10] @ map of_char ''KERNEL PANIC: '' @ map of_char (exception_messages ! unat (int_no f)) @ [10] @
     concat (map field_text [(''RIP: '', f_rip f), ('' CS: '', f_cs f), ('' RFLAGS: '', f_rflags f)]) @ [10] @
     concat (map field_text [(''RSP: '', f_rsp f), ('' SS: '', f_ss f), ('' ERR: '', error_code f)]) @ [10] @
     concat (map field_text [(''RAX: '', f_rax f), ('' RBX: '', f_rbx f), ('' RCX: '', f_rcx f)]) @ [10] @
     concat (map field_text [(''RDX: '', f_rdx f), ('' RDI: '', f_rdi f), ('' RSI: '', f_rsi f)]) @ [10]"

text \<open>An operation that shows \<open>t\<close> on the screen and on the line.\<close>

definition shows_both :: "(uart tty_state \<Rightarrow> uart tty_state option) \<Rightarrow> u8 list \<Rightarrow> bool" where
  "shows_both f t \<longleftrightarrow> (\<forall>v d a base b. shown_lines v (layout a) \<longrightarrow> line_shows base d b \<longrightarrow>
     (\<exists>v' d'. f (v, d) = Some (v', d') \<and> shown_lines v' (layout (a @ t)) \<and> line_shows base d' (b @ t)))"

lemma shows_both_bind:
  assumes "shows_both f t" "shows_both g u"
  shows "shows_both (\<lambda>s. Option.bind (f s) g) (t @ u)"
  unfolding shows_both_def
proof (intro allI impI)
  fix v d a base b
  assume s: "shown_lines v (layout a)" "line_shows base d b"
  obtain v1 d1 where 1: "f (v, d) = Some (v1, d1)" "shown_lines v1 (layout (a @ t))" "line_shows base d1 (b @ t)"
    using assms(1) s unfolding shows_both_def by blast
  then obtain v2 d2 where "g (v1, d1) = Some (v2, d2)" "shown_lines v2 (layout ((a @ t) @ u))" "line_shows base d2 ((b @ t) @ u)"
    using assms(2) unfolding shows_both_def by blast
  then show "\<exists>v' d'. Option.bind (f (v, d)) g = Some (v', d') \<and> shown_lines v' (layout (a @ t @ u)) \<and> line_shows base d' (b @ t @ u)"
    using 1(1) by simp
qed

lemma shows_both_put:
  assumes "\<And>v d. f (v, d) = Option.bind (put_all vga_putc t v) (\<lambda>v. map_option (Pair v) (put_all (serial_putc (uart_io lag)) t d))"
  shows "shows_both f t"
  unfolding shows_both_def
proof (intro allI impI)
  fix v d a base b
  assume s: "shown_lines v (layout a)" "line_shows base d b"
  obtain v' where "put_all vga_putc t v = Some v'" "shown_lines v' (layout (a @ t))" using screen.put_all_shows [OF s(1)] by blast
  moreover obtain d' where "put_all (serial_putc (uart_io lag)) t d = Some d'" "line_shows base d' (b @ t)"
    using line.put_all_shows [OF s(2)] by blast
  ultimately show "\<exists>v' d'. f (v, d) = Some (v', d') \<and> shown_lines v' (layout (a @ t)) \<and> line_shows base d' (b @ t)"
    by (simp add: assms)
qed

lemma literal_printed:
  assumes "0 \<notin> set (map of_char l :: u8 list)"
  shows "vga_print (literal l) = put_all vga_putc (map of_char l)"
    "serial_print io (literal l) = put_all (serial_putc io) (map of_char l)"
  unfolding vga_print_def serial_print_def by (rule ext, rule print_spells [OF spells_literal [OF assms]])+

lemma hex_printed:
  "vga_print_hex val v = put_all vga_putc ([48, 120] @ hex_digits 16 val) v"
  "serial_print_hex io val d = put_all (serial_putc io) ([48, 120] @ hex_digits 16 val) d"
proof -
  have "vga_print (literal ''0x'') = put_all vga_putc [48, 120]" using literal_printed(1) [of "''0x''"] by simp
  then show "vga_print_hex val v = put_all vga_putc ([48, 120] @ hex_digits 16 val) v"
    unfolding vga_print_hex_def print_nibbles_all put_all_append by simp
  show "serial_print_hex io val d = put_all (serial_putc io) ([48, 120] @ hex_digits 16 val) d"
    unfolding serial_print_hex_def print_nibbles_all put_all_append by simp
qed

lemma field_shown:
  assumes "0 \<notin> set (map of_char (fst x) :: u8 list)"
  shows "shows_both (field_both (uart_io lag) x) (field_text x)"
proof (rule shows_both_put)
  fix v d
  show "field_both (uart_io lag) x (v, d) = Option.bind (put_all vga_putc (field_text x) v)
      (\<lambda>v. map_option (Pair v) (put_all (serial_putc (uart_io lag)) (field_text x) d))"
    using assms
    by (cases x) (simp add: field_both_def field_text_def literal_printed hex_printed put_all_append map_option_bind comp_def
        split: Option.bind_split)
qed

lemma newline_shown: "shows_both (print_both (uart_io lag) (literal [CHR 0x0A])) [10]"
proof -
  have n: "vga_print (literal [CHR 0x0A]) = put_all vga_putc [10]"
    "serial_print (uart_io lag) (literal [CHR 0x0A]) = put_all (serial_putc (uart_io lag)) [10]"
    using literal_printed [of "[CHR 0x0A]"] by simp_all
  show ?thesis unfolding print_both_def n by (rule shows_both_put [of _ _ lag]) (simp only: prod.case)
qed

lemma fields_shown:
  "\<forall>x\<in>set xs. 0 \<notin> set (map of_char (fst x) :: u8 list) \<Longrightarrow>
   shows_both (fields_both (uart_io lag) xs) (concat (map field_text xs) @ [10])"
proof (induction xs)
  case Nil
  then show ?case using newline_shown by (simp add: fields_both.simps(1) [abs_def])
next
  case (Cons x xs)
  then show ?case using shows_both_bind [OF field_shown] by (simp add: fields_both.simps(2) [abs_def])
qed

lemma panic_head_all:
  assumes "0 \<notin> set (map of_char msg :: u8 list)"
    and "\<And>l. 0 \<notin> set (map of_char l :: u8 list) \<Longrightarrow> print (literal l) = put_all putc (map of_char l)"
  shows "panic_head msg print s = put_all putc ([10] @ map of_char ''KERNEL PANIC: '' @ map of_char msg @ [10]) s"
proof -
  have "print (literal (CHR 0x0A # ''KERNEL PANIC: '')) = put_all putc ([10] @ map of_char ''KERNEL PANIC: '')"
    "print (literal [CHR 0x0A]) = put_all putc [10]"
    using assms(2) [of "CHR 0x0A # ''KERNEL PANIC: ''"] assms(2) [of "[CHR 0x0A]"] by simp_all
  then show ?thesis
    unfolding panic_head_def assms(2) [OF assms(1)] append_assoc [symmetric, of "[10]"] by (simp only: put_all_append [abs_def])
qed

lemma messages_printable: "i < 32 \<Longrightarrow> 0 \<notin> set (map of_char (exception_messages ! i) :: u8 list)"
proof -
  assume "i < 32"
  then have "exception_messages ! i \<in> set exception_messages" by (intro nth_mem) (simp add: exception_messages_def)
  moreover have "\<forall>msg\<in>set exception_messages. 0 \<notin> set (map of_char msg :: u8 list)" by (simp add: exception_messages_def)
  ultimately show ?thesis by blast
qed

lemma print_panic_shown:
  assumes "int_no f < 32"
  shows "shows_both (print_panic (uart_io lag) f) (panic_text f)"
proof -
  let ?m = "exception_messages ! unat (int_no f)"
  let ?h = "[10] @ map of_char ''KERNEL PANIC: '' @ map of_char ?m @ [10] :: u8 list"
  let ?io = "uart_io lag"
  have m: "0 \<notin> set (map of_char ?m :: u8 list)" using assms by (intro messages_printable) (simp add: word_less_nat_alt)
  have p: "panic_head ?m vga_print v = put_all vga_putc ?h v" "panic_head ?m (serial_print ?io) d = put_all (serial_putc ?io) ?h d" for v d
    by (rule panic_head_all [OF m], erule literal_printed)+
  have head: "shows_both (\<lambda>(v, d). Option.bind (panic_head ?m vga_print v) (\<lambda>v. map_option (Pair v) (panic_head ?m (serial_print ?io) d))) ?h"
    unfolding p by (rule shows_both_put [of _ _ lag]) (simp only: prod.case)
  have fs: "\<forall>x\<in>set [(''RIP: '', f_rip f), ('' CS: '', f_cs f), ('' RFLAGS: '', f_rflags f)]. 0 \<notin> set (map of_char (fst x) :: u8 list)"
    "\<forall>x\<in>set [(''RSP: '', f_rsp f), ('' SS: '', f_ss f), ('' ERR: '', error_code f)]. 0 \<notin> set (map of_char (fst x) :: u8 list)"
    "\<forall>x\<in>set [(''RAX: '', f_rax f), ('' RBX: '', f_rbx f), ('' RCX: '', f_rcx f)]. 0 \<notin> set (map of_char (fst x) :: u8 list)"
    "\<forall>x\<in>set [(''RDX: '', f_rdx f), ('' RDI: '', f_rdi f), ('' RSI: '', f_rsi f)]. 0 \<notin> set (map of_char (fst x) :: u8 list)"
    by simp_all
  note fields = fields_shown [OF fs(1), of lag] fields_shown [OF fs(2), of lag] fields_shown [OF fs(3), of lag] fields_shown [OF fs(4), of lag]
  note all = shows_both_bind [OF head shows_both_bind [OF fields(1) shows_both_bind [OF fields(2) shows_both_bind [OF fields(3,4)]]]]
  have "print_panic ?io f = (\<lambda>s. Option.bind ((\<lambda>(v, d). Option.bind (panic_head ?m vga_print v) (\<lambda>v. map_option (Pair v)
      (panic_head ?m (serial_print ?io) d))) s)
      (\<lambda>s. Option.bind (fields_both ?io [(''RIP: '', f_rip f), ('' CS: '', f_cs f), ('' RFLAGS: '', f_rflags f)] s)
      (\<lambda>s. Option.bind (fields_both ?io [(''RSP: '', f_rsp f), ('' SS: '', f_ss f), ('' ERR: '', error_code f)] s)
      (\<lambda>s. Option.bind (fields_both ?io [(''RAX: '', f_rax f), ('' RBX: '', f_rbx f), ('' RCX: '', f_rcx f)] s)
      (fields_both ?io [(''RDX: '', f_rdx f), ('' RDI: '', f_rdi f), ('' RSI: '', f_rsi f)])))))"
    by (rule ext) (simp add: print_panic_def Let_def split_beta map_option_case split: option.split Option.bind_split)
  then show ?thesis using all by (simp only: panic_text_def append_assoc)
qed

text \<open>
  An exception in the kernel, other than a page fault, halts the CPU after the message with the registers has reached both
  the screen and the serial line; the kernel is left as it was.
\<close>

theorem kernel_panic_halts:
  assumes "int_no f < 32" "int_no f \<noteq> 14" "f_cs f AND 3 \<noteq> 3"
    and "shown_lines (screen_of s) (layout t)" "regs d (COM1 + 3) AND 0x80 = 0"
  shows "\<exists>v d'. isr_handler (uart_io lag) cpu base shell_input log cr2 f frame (d, s) = Some (Halted, (d', s\<lparr>screen_of := v\<rparr>)) \<and>
    shown_lines v (layout (t @ panic_text f)) \<and> tx_log d' = tx_log d @ panic_text f"
proof -
  have "line_shows (tx_log d) d []" using assms(5) by (simp add: line_shows_def)
  then obtain v d' where "print_panic (uart_io lag) f (screen_of s, d) = Some (v, d')" "shown_lines v (layout (t @ panic_text f))"
    "line_shows (tx_log d) d' ([] @ panic_text f)"
    using print_panic_shown [OF assms(1), of lag] assms(4) unfolding shows_both_def by blast
  then show ?thesis using assms(1-3) by (intro exI [of _ v] exI [of _ d']) (simp add: isr_handler_def line_shows_def)
qed

end
