(* ===== verification/Syscall.thy ===== *)
theory Syscall
  imports Idt Spawn Net
begin

text \<open>
  The system calls (src/kernel/syscall.c) on the whole machine: windows, files, tasks and the console. User pointers are
  used by the kernel through the page tables of the caller, unchecked; an access to a page that is not mapped faults in the
  kernel, where the fault handler halts the CPU: that is the result None here, as a loop that does not return. The control
  register is set up without write protection for the kernel, so a store succeeds on every mapped page.
\<close>

section \<open>User memory\<close>

fun user_load :: "u64 \<Rightarrow> nat \<Rightarrow> u64 \<Rightarrow> vmm_state \<Rightarrow> u8 list option" where
  "user_load root 0 a s = Some []"
| "user_load root (Suc n) a s =
     (case translate s root a of
        None \<Rightarrow> None
      | Some (pa, fl, k) \<Rightarrow> map_option ((#) (phys_mem s pa)) (user_load root n (a + 1) s))"

fun user_store :: "u64 \<Rightarrow> u64 \<Rightarrow> u8 list \<Rightarrow> vmm_state \<Rightarrow> vmm_state option" where
  "user_store root a [] s = Some s"
| "user_store root a (b # bs) s =
     (case translate s root a of
        None \<Rightarrow> None
      | Some (pa, fl, k) \<Rightarrow> user_store root (a + 1) bs (s\<lparr>phys_mem := (phys_mem s)(pa := b)\<rparr>))"

text \<open>A string with its terminator.\<close>

partial_function (option) user_string :: "u64 \<Rightarrow> u64 \<Rightarrow> vmm_state \<Rightarrow> u8 list option" where
  "user_string root a s =
     (case translate s root a of
        None \<Rightarrow> None
      | Some (pa, fl, k) \<Rightarrow>
          if phys_mem s pa = 0 then Some [0]
          else Option.bind (user_string root (a + 1) s) (\<lambda>r. Some (phys_mem s pa # r)))"

definition le64 :: "u64 \<Rightarrow> u8 list" where
  "le64 x = le32 (ucast x) @ le32 (ucast (drop_bit 32 x))"

text \<open>A structure is stored field by field: pairs of an offset and bytes.\<close>

fun store_fields :: "u64 \<Rightarrow> u64 \<Rightarrow> (u64 \<times> u8 list) list \<Rightarrow> vmm_state \<Rightarrow> vmm_state option" where
  "store_fields root a [] s = Some s"
| "store_fields root a ((off, bs) # fs) s = Option.bind (user_store root (a + off) bs s) (store_fields root a fs)"

section \<open>The machine\<close>

text \<open>The other components are the files: the machine of \<open>Idt\<close> with the file system as its rest.\<close>

type_synonym ('d, 'e) comp = "('d, 'e vfs_state) machine"

text \<open>What the calls need of the platform: ports and registers, the log, the input of the shell, the disk, and the content
  of a sector buffer on the stack.\<close>

record ('d, 'e) platform =
  ports :: "'d port_io"
  registers :: "'d cpu_io"
  lapic_at :: u64
  on_input :: "u8 \<Rightarrow> ('d, 'e) comp \<Rightarrow> ('d, 'e) comp option"
  log_to :: "('d, 'e vfs_state) logger"
  disk_reader :: "'e reader"
  stack_junk :: "u8 list"

text \<open>A call returns a value, or gives the CPU away and goes on when the task runs again.\<close>

datatype sys_result = Returns u64 | Yielded resume

definition with_vm :: "(vmm_state \<Rightarrow> vmm_state option) \<Rightarrow> ('d, 'e) comp \<Rightarrow> ('d, 'e) comp option" where
  "with_vm f = (\<lambda>(d, s). map_option (\<lambda>v. (d, s\<lparr>kern_of := (kern_of s)\<lparr>vm := v\<rparr>\<rparr>)) (f (vm (kern_of s))))"

section \<open>Yielding\<close>

text \<open>\<open>task_yield\<close> asks for a reschedule and raises interrupt 32, the timer; \<open>ksp\<close> is the stack pointer of the frame.\<close>

definition task_yield :: "('d, 'e) platform \<Rightarrow> interrupt_frame \<Rightarrow> u64 \<Rightarrow> ('d, 'e) comp \<Rightarrow> (sys_result \<times> ('d, 'e) comp) option" where
  "task_yield p f ksp = (\<lambda>(d, s).
     map_option (\<lambda>(r, m). (Yielded r, m))
       (isr_handler (ports p) (registers p) (lapic_at p) (on_input p) (log_to p) 0 (f\<lparr>int_no := 32\<rparr>) ksp
         (d, on_kern task_request_reschedule s)))"

definition sys_exit :: "('d, 'e) platform \<Rightarrow> interrupt_frame \<Rightarrow> u64 \<Rightarrow> ('d, 'e) comp \<Rightarrow> (sys_result \<times> ('d, 'e) comp) option" where
  "sys_exit p f ksp = (\<lambda>(d, s).
     task_yield p f ksp (d, on_kern (upd_task (running (kern_of s)) (\<lambda>t. t\<lparr>task_state := TASK_EXITED\<rparr>)) s))"

definition sys_yield :: "('d, 'e) platform \<Rightarrow> interrupt_frame \<Rightarrow> u64 \<Rightarrow> ('d, 'e) comp \<Rightarrow> (sys_result \<times> ('d, 'e) comp) option" where
  "sys_yield = task_yield"

section \<open>Windows\<close>

text \<open>
  The address of the mapping is computed in 32 bits. The block from the heap is mapped page by page, rounded down.
\<close>

definition window_user_addr :: "u32 \<Rightarrow> u64" where
  "window_user_addr i = ucast (0xA0000000 + i * 0x1000000)"

definition map_window_page :: "u64 \<Rightarrow> u64 \<Rightarrow> u64 \<Rightarrow> nat \<Rightarrow> vmm_state \<Rightarrow> vmm_state" where
  "map_window_page pml4 user_addr kernel_buf i s =
     vmm_map pml4 (user_addr + ucast (of_nat i * 4096 :: u32)) (kernel_buf + ucast (of_nat i * 4096 :: u32))
       (PAGE_USER OR PAGE_WRITABLE) s"

definition sys_create_window :: "u32 \<Rightarrow> u32 \<Rightarrow> u32 \<Rightarrow> u32 \<Rightarrow> kern \<Rightarrow> (u32 \<times> kern) option" where
  "sys_create_window x y w h k =
     Option.bind (window_create x y w h 0xFFFFFFFF (desktop k)) (\<lambda>(win, desk).
       let k1 = k\<lparr>desktop := desk\<rparr>;
           cur = running k1;
           client_h = h - 25;
           sz = w * client_h * 4;
           num_pages = (sz + 4095) div 4096
       in Option.bind (k_malloc (ucast (num_pages * 4096)) k1) (\<lambda>(kernel_buf, k2).
         let k3 = k2\<lparr>vm := (vm k2)\<lparr>phys_mem := memset kernel_buf 0 (ucast (num_pages * 4096)) (phys_mem (vm k2))\<rparr>\<rparr>;
             k4 = k3\<lparr>desktop := window_set_owner win (task_id (tasks k3 cur)) (desktop k3)\<rparr>;
             k5 = k4\<lparr>desktop := window_set_buffer win kernel_buf (desktop k4)\<rparr>;
             i = win_id (wins (desktop k5) win);
             v = fold (map_window_page (task_pml4 (tasks k5 cur)) (window_user_addr i) kernel_buf) [0..<unat num_pages] (vm k5)
         in Some (i, k5\<lparr>vm := v\<rparr>)))"

definition event_fields :: "gui_event_t \<Rightarrow> (u64 \<times> u8 list) list" where
  "event_fields e = [(0, le32 (ev_type e)), (4, le32 (ev_x e)), (8, le32 (ev_y e)), (12, le32 (ev_data e))]"

definition sys_get_event :: "u32 \<Rightarrow> u64 \<Rightarrow> kern \<Rightarrow> (int \<times> kern) option" where
  "sys_get_event win out k =
     Option.bind (window_pop_event win (desktop k)) (\<lambda>(r, e, desk).
       let k1 = k\<lparr>desktop := desk\<rparr>
       in case e of
            None \<Rightarrow> Some (r, k1)
          | Some ev \<Rightarrow> map_option (\<lambda>v. (r, k1\<lparr>vm := v\<rparr>)) (store_fields (cr3 k1) out (event_fields ev) (vm k1)))"

section \<open>Files\<close>

definition sys_open :: "('d, 'e) platform \<Rightarrow> u64 \<Rightarrow> ('d, 'e) comp \<Rightarrow> (int \<times> ('d, 'e) comp) option" where
  "sys_open p path = (\<lambda>(d, s).
     Option.bind (user_string (cr3 (kern_of s)) path (vm (kern_of s))) (\<lambda>name.
     map_option (\<lambda>(fd, v). (fd, (d, s\<lparr>rest_of := v\<rparr>))) (vfs_open (disk_reader p) name (rest_of s))))"

text \<open>Only the bytes that were read are stored.\<close>

definition sys_read :: "('d, 'e) platform \<Rightarrow> int \<Rightarrow> u64 \<Rightarrow> u32 \<Rightarrow> ('d, 'e) comp \<Rightarrow> (int \<times> ('d, 'e) comp) option" where
  "sys_read p fd buffer count = (\<lambda>(d, s).
     let (got, bs, v) = vfs_read (disk_reader p) fd (stack_junk p) (replicate (unat count) 0) count (rest_of s)
     in map_option (Pair got)
          (with_vm (user_store (cr3 (kern_of s)) buffer (take (nat got) bs)) (d, s\<lparr>rest_of := v\<rparr>)))"

text \<open>The descriptor is not used: the bytes go to the text screen.\<close>

fun write_chars :: "nat \<Rightarrow> u64 \<Rightarrow> ('d, 'e) comp \<Rightarrow> ('d, 'e) comp option" where
  "write_chars 0 a m = Some m"
| "write_chars (Suc n) a (d, s) =
     (case translate (vm (kern_of s)) (cr3 (kern_of s)) a of
        None \<Rightarrow> None
      | Some (pa, fl, k) \<Rightarrow>
          write_chars n (a + 1) (d, s\<lparr>screen_of := vga_print_char (phys_mem (vm (kern_of s)) pa) (screen_of s)\<rparr>))"

definition sys_write :: "u64 \<Rightarrow> u32 \<Rightarrow> ('d, 'e) comp \<Rightarrow> (int \<times> ('d, 'e) comp) option" where
  "sys_write buffer count m = map_option (Pair (sint count)) (write_chars (unat count) buffer m)"

definition sys_close :: "int \<Rightarrow> ('d, 'e) comp \<Rightarrow> ('d, 'e) comp" where
  "sys_close fd = (\<lambda>(d, s). (d, s\<lparr>rest_of := vfs_close fd (rest_of s)\<rparr>))"

section \<open>Tasks and telemetry\<close>

definition sys_exec :: "('d, 'e) platform \<Rightarrow> u64 \<Rightarrow> ('d, 'e) comp \<Rightarrow> (u32 \<times> ('d, 'e) comp) option" where
  "sys_exec p path = (\<lambda>(d, s).
     Option.bind (user_string (cr3 (kern_of s)) path (vm (kern_of s))) (\<lambda>name.
     map_option (\<lambda>(t, v, k). (if t \<noteq> 0 then ucast (task_id (tasks k t)) else 0, (d, s\<lparr>kern_of := k, rest_of := v\<rparr>)))
       (task_exec_file (disk_reader p) (stack_junk p) name (rest_of s) (kern_of s))))"

definition sys_fork :: "kern \<Rightarrow> (u64 \<times> kern) option" where
  "sys_fork = task_fork"

definition sys_free_frames :: "kern \<Rightarrow> u64" where
  "sys_free_frames k = pmm_get_free_count (frames (vm k))"

text \<open>The stores to a \<open>sys_info_t\<close>: totals at 0 and 8, CPU count at 16, 16 pairs of ticks from 24, the task count at 280.\<close>

definition task_total :: "kern \<Rightarrow> u32" where
  "task_total k = fold (\<lambda>i n. n + (rq_count (runqueue (cpu_at k (cpu_get_by_index k i))) + 1)) [0..<cpu_get_count k] 0"

definition sys_info_fields :: "kern \<Rightarrow> (u64 \<times> u8 list) list" where
  "sys_info_fields k =
     [(0, le64 (pmm_get_total_frames (frames (vm k)))), (8, le64 (pmm_get_free_count (frames (vm k)))),
      (16, le32 (of_nat (cpu_get_count k)))] @
     map (\<lambda>i. (24 + 16 * of_nat i, le64 (cpu_ticks (cpu_at k (cpu_get_by_index k i))) @ le64 (idle_ticks (cpu_at k (cpu_get_by_index k i)))))
       [0..<min (cpu_get_count k) 16] @
     [(280, le32 (task_total k))]"

definition sys_get_sys_info :: "u64 \<Rightarrow> kern \<Rightarrow> kern option" where
  "sys_get_sys_info info k = map_option (\<lambda>v. k\<lparr>vm := v\<rparr>) (store_fields (cr3 k) info (sys_info_fields k) (vm k))"

definition task_info_fields :: "nat \<Rightarrow> task_info_t \<Rightarrow> (u64 \<times> u8 list) list" where
  "task_info_fields i t =
     (let base = 32 * of_nat i
      in [(base, le64 (info_id t)), (base + 8, le32 (info_cpu t)), (base + 16, le64 (info_ticks t)), (base + 24, le32 (info_state t))])"

definition sys_get_tasks :: "u64 \<Rightarrow> u32 \<Rightarrow> kern \<Rightarrow> (int \<times> kern) option" where
  "sys_get_tasks out max_tasks k =
     (let ts = task_get_all_info max_tasks k
      in map_option (\<lambda>v. (int (length ts), k\<lparr>vm := v\<rparr>))
           (store_fields (cr3 k) out (concat (map (\<lambda>(i, t). task_info_fields i t) (enumerate 0 ts))) (vm k)))"

section \<open>Dispatch\<close>

definition lift_kern :: "('d, 'e) comp \<Rightarrow> (u64 \<times> kern) option \<Rightarrow> (sys_result \<times> ('d, 'e) comp) option" where
  "lift_kern = (\<lambda>(d, s). map_option (\<lambda>(r, k). (Returns r, (d, s\<lparr>kern_of := k\<rparr>))))"

definition as_int :: "(int \<times> 'a) option \<Rightarrow> (u64 \<times> 'a) option" where
  "as_int = map_option (\<lambda>(r, x). (of_int r, x))"

definition as_unsigned :: "(u32 \<times> 'a) option \<Rightarrow> (u64 \<times> 'a) option" where
  "as_unsigned = map_option (\<lambda>(r, x). (ucast r, x))"

definition returns :: "(u64 \<times> 'a) option \<Rightarrow> (sys_result \<times> 'a) option" where
  "returns = map_option (\<lambda>(r, x). (Returns r, x))"

definition syscall_handler_c ::
  "('d, 'e) platform \<Rightarrow> interrupt_frame \<Rightarrow> u64 \<Rightarrow> u64 \<Rightarrow> u64 \<Rightarrow> u64 \<Rightarrow> u64 \<Rightarrow> u64 \<Rightarrow> ('d, 'e) comp \<Rightarrow>
     (sys_result \<times> ('d, 'e) comp) option" where
  "syscall_handler_c p f ksp num arg1 arg2 arg3 arg4 m =
     (let k = kern_of (snd m) in
      if num = 1 then lift_kern m (as_unsigned (sys_create_window (ucast arg1) (ucast arg2) (ucast arg3) (ucast arg4) k))
      else if num = 2 then lift_kern m (as_int (sys_get_event (ucast arg1) arg2 k))
      else if num = 3 then sys_exit p f ksp m
      else if num = 4 then returns (as_int (sys_open p arg1 m))
      else if num = 5 then returns (as_int (sys_read p (sint (ucast arg1 :: u32)) arg2 (ucast arg3) m))
      else if num = 6 then returns (as_int (sys_write arg2 (ucast arg3) m))
      else if num = 7 then Some (Returns 0, sys_close (sint (ucast arg1 :: u32)) m)
      else if num = 8 then returns (as_unsigned (sys_exec p arg1 m))
      else if num = 9 then sys_yield p f ksp m
      else if num = 10 then Some (Returns (sys_free_frames k), m)
      else if num = 11 then lift_kern m (map_option (Pair 0) (sys_get_sys_info arg1 k))
      else if num = 12 then lift_kern m (as_int (sys_get_tasks arg1 (ucast arg2) k))
      else if num = 13 then lift_kern m (sys_fork k)
      else Some (Returns 0xFFFFFFFFFFFFFFFF, m))"

section \<open>The entry\<close>

text \<open>\<open>syscall_init\<close> sets up the registers of the instruction; \<open>syscall_entry\<close> is the address of the stub.\<close>

definition MSR_EFER :: u32 where "MSR_EFER = 0xC0000080"
definition MSR_STAR :: u32 where "MSR_STAR = 0xC0000081"
definition MSR_LSTAR :: u32 where "MSR_LSTAR = 0xC0000082"
definition MSR_SFMASK :: u32 where "MSR_SFMASK = 0xC0000084"

definition syscall_init :: "'d cpu_io \<Rightarrow> u64 \<Rightarrow> 'd \<Rightarrow> 'd" where
  "syscall_init io syscall_entry d =
     (let (efer, d) = rdmsr io MSR_EFER d;
          d = wrmsr io MSR_EFER (efer OR 1) d;
          d = wrmsr io MSR_STAR (push_bit 48 0x10 OR push_bit 32 0x08) d;
          d = wrmsr io MSR_LSTAR syscall_entry d
      in wrmsr io MSR_SFMASK 0x200 d)"

section \<open>What the scheduler does not see\<close>

text \<open>Two kernels that the scheduler cannot tell apart.\<close>

definition same_sched :: "kern \<Rightarrow> kern \<Rightarrow> bool" where
  "same_sched s s' \<longleftrightarrow> cpu_table s' = cpu_table s \<and> cpu_count s' = cpu_count s \<and> gs_cpu s' = gs_cpu s \<and>
     (\<forall>c. runqueue (cpu_at s' c) = runqueue (cpu_at s c) \<and> current_task (cpu_at s' c) = current_task (cpu_at s c) \<and>
       idle_task (cpu_at s' c) = idle_task (cpu_at s c)) \<and>
     (\<forall>t. task_id (tasks s' t) = task_id (tasks s t) \<and> task_state (tasks s' t) = task_state (tasks s t) \<and>
       task_next (tasks s' t) = task_next (tasks s t))"

lemma same_sched_refl [simp]: "same_sched s s"
  by (simp add: same_sched_def)

lemma same_sched_upd:
  "(\<And>v. task_id (f v) = task_id v \<and> task_state (f v) = task_state v \<and> task_next (f v) = task_next v) \<Longrightarrow>
    same_sched s (upd_task t f s') = same_sched s s'"
  "(\<And>v. runqueue (g v) = runqueue v \<and> current_task (g v) = current_task v \<and> idle_task (g v) = idle_task v) \<Longrightarrow>
    same_sched s (upd_cpu c g s') = same_sched s s'"
  by (auto simp: same_sched_def)

lemma same_sched_ok:
  assumes "same_sched s s'"
  shows "sched_ok s' Q = sched_ok s Q" "runnable s' Q = runnable s Q" "running s' = running s"
proof -
  have a: "cpu_table s' = cpu_table s" "cpu_count s' = cpu_count s" "gs_cpu s' = gs_cpu s"
    "\<And>c. runqueue (cpu_at s' c) = runqueue (cpu_at s c)" "\<And>c. current_task (cpu_at s' c) = current_task (cpu_at s c)"
    "\<And>c. idle_task (cpu_at s' c) = idle_task (cpu_at s c)" "\<And>t. task_id (tasks s' t) = task_id (tasks s t)"
    "\<And>t. task_state (tasks s' t) = task_state (tasks s t)" "task_links s' = task_links s"
    using assms by (simp_all add: same_sched_def task_links_def fun_eq_iff)
  have c: "cpus_of s' = cpus_of s" using a(1,2) by (simp add: cpus_of_def cpu_get_by_index_def cpu_get_count_def)
  have q: "queues_ok s' (cpus_of s) Q = queues_ok s (cpus_of s) Q" using a(4,9) by (simp add: queues_ok_def rq_ok_def)
  show "sched_ok s' Q = sched_ok s Q" unfolding sched_ok_def c q using a by simp
  show "runnable s' Q = runnable s Q" unfolding runnable_def c using a by simp
  show "running s' = running s" using a by (simp add: running_def)
qed

lemma tick_same_sched: "same_sched s (task_timer_tick (task_request_reschedule s))"
  by (simp add: task_timer_tick_def task_request_reschedule_def Let_def same_sched_upd)

lemma tick_wants_schedule: "task_needs_schedule (task_timer_tick (task_request_reschedule s)) \<noteq> 0"
  by (simp add: task_timer_tick_def task_request_reschedule_def task_needs_schedule_def Let_def)

section \<open>Yielding runs the scheduler\<close>

lemma yield_schedules:
  assumes "k = task_timer_tick (task_request_reschedule (kern_of s))" "task_schedule ksp k = Some (r, k')"
  shows "\<exists>d'. task_yield p f ksp (d, s) = Some (Yielded (Resume r),
      (d', s\<lparr>kern_of := k', pit_of := (pit_of s)\<lparr>ticks := ticks (pit_of s) + 1\<rparr>\<rparr>))"
proof -
  have "task_needs_schedule k \<noteq> 0" unfolding assms(1) by (rule tick_wants_schedule)
  then show ?thesis
    using assms(2)
    by (simp add: task_yield_def isr_handler_def device_interrupt_def timer_interrupt_def pit_handler_def on_kern_def
        assms(1) [symmetric] schedule_def)
qed

section \<open>Properties\<close>

lemma tick_keeps_tasks:
  "task_rsp (tasks (task_timer_tick (task_request_reschedule s)) t) = task_rsp (tasks s t)"
  "task_pml4 (tasks (task_timer_tick (task_request_reschedule s)) t) = task_pml4 (tasks s t)"
  by (simp_all add: task_timer_tick_def task_request_reschedule_def Let_def)

text \<open>
  C34. \<open>exit\<close> ends the calling task: the CPU resumes the task the scheduler picks from the queues, or its idle task when there is none,
  at the stack pointer that task was left with and in its address space. The caller is neither running nor queued afterwards; every
  other task that could run still can. The yield behind it also counts as a tick of the timer.
\<close>

theorem sys_exit_correct:
  assumes ok: "sched_ok (kern_of s) Q" and x: "x = running (kern_of s)" "task_state (tasks (kern_of s) x) = TASK_RUNNING"
      "task_id (tasks (kern_of s) x) \<noteq> 0"
    and pick: "sched_pick (gs_cpu (kern_of s)) (cpus_of (kern_of s)) Q = (t, Q')"
      "nxt = (if t = 0 then idle_task (cpu_at (kern_of s) (gs_cpu (kern_of s))) else t)"
  shows "\<exists>d' s'. syscall_handler_c p f ksp 3 a1 a2 a3 a4 (d, s) = Some (Yielded (Resume (task_rsp (tasks (kern_of s) nxt))), (d', s')) \<and>
    nxt \<noteq> x \<and> running (kern_of s') = nxt \<and> cr3 (kern_of s') = task_pml4 (tasks (kern_of s) nxt) \<and>
    sched_ok (kern_of s') Q' \<and> gone (kern_of s') Q' x \<and> runnable (kern_of s') Q' = runnable (kern_of s) Q - {x} \<and>
    ticks (pit_of s') = ticks (pit_of s) + 1"
proof -
  define s1 where "s1 = on_kern (upd_task x (\<lambda>t. t\<lparr>task_state := TASK_EXITED\<rparr>)) s"
  define k where "k = task_timer_tick (task_request_reschedule (kern_of s1))"
  have ks1: "kern_of s1 = upd_task x (\<lambda>t. t\<lparr>task_state := TASK_EXITED\<rparr>) (kern_of s)" by (simp add: s1_def on_kern_def)
  note e = exit_current [OF ok, folded x(1), OF x(2,3), folded ks1]
  note sm = tick_same_sched [of "kern_of s1", folded k_def]
  note so = same_sched_ok [OF sm]
  have okk: "sched_ok k Q" "runnable k Q = runnable (kern_of s1) Q" "running k = x"
    using so e(1) x(1) by (simp_all add: ks1 running_def)
  have f: "task_id (tasks k x) \<noteq> 0" "task_state (tasks k x) = TASK_EXITED" "cpus_of k = cpus_of (kern_of s)" "gs_cpu k = gs_cpu (kern_of s)"
    "idle_task (cpu_at k c) = idle_task (cpu_at (kern_of s) c)" for c
    using sm x by (simp_all add: same_sched_def ks1 running_def cpus_of_def cpu_get_by_index_def cpu_get_count_def)
  have nr: "x \<notin> runnable k Q" using okk(2) e(2) by simp
  have pick': "sched_pick (gs_cpu k) (cpus_of k) Q = (t, Q')" "nxt = (if t = 0 then idle_task (cpu_at k (gs_cpu k)) else t)"
    using pick by (simp_all add: f(3-5))
  obtain k' where k': "task_schedule ksp k = Some (task_rsp (tasks k nxt), k')" "sched_ok k' Q'" "runnable k' Q' = runnable k Q"
    "gone k' Q' x" "running k' = nxt" "nxt \<noteq> x" "cr3 k' = task_pml4 (tasks k nxt)"
    using exited_schedule [OF okk(1) okk(3) [symmetric] f(1,2) e(3) [folded f(3)] nr pick'] by blast
  have kept: "task_rsp (tasks k nxt) = task_rsp (tasks (kern_of s) nxt)" "task_pml4 (tasks k nxt) = task_pml4 (tasks (kern_of s) nxt)"
    using k'(6) by (simp_all add: k_def tick_keeps_tasks ks1)
  obtain d' where "task_yield p f ksp (d, s1) = Some (Yielded (Resume (task_rsp (tasks (kern_of s) nxt))),
      (d', s1\<lparr>kern_of := k', pit_of := (pit_of s1)\<lparr>ticks := ticks (pit_of s1) + 1\<rparr>\<rparr>))"
    using yield_schedules [OF k_def k'(1) [unfolded kept], of p f d] by blast
  moreover have "syscall_handler_c p f ksp 3 a1 a2 a3 a4 (d, s) = task_yield p f ksp (d, s1)"
    by (simp add: syscall_handler_c_def sys_exit_def s1_def x(1))
  moreover have "pit_of s1 = pit_of s" by (simp add: s1_def on_kern_def)
  ultimately show ?thesis
    using k'(2-7) kept okk(2) e(2)
    by (intro exI [of _ d'] exI [of _ "s1\<lparr>kern_of := k', pit_of := (pit_of s1)\<lparr>ticks := ticks (pit_of s1) + 1\<rparr>\<rparr>"]) simp
qed

text \<open>Task 1 of two exits.\<close>

definition two_task_sys :: "drive vfs_state sys" where
  "two_task_sys = \<lparr>kern_of = two_tasks, screen_of = \<lparr>vga_buffer = [], col = 0, row = 0, vcolor = 7\<rparr>,
     pit_of = \<lparr>ticks = 41, tsc_freq_mhz = 0\<rparr>, mouse_of = mouse_start, rest_of = tar_fs\<rparr>"

theorem sys_exit_correct_witness:
  "\<exists>d' s'. syscall_handler_c (undefined :: (unit, drive) platform) div_frame 0x9000 3 0 0 0 0 ((), two_task_sys) =
       Some (Yielded (Resume (task_rsp (tasks (kern_of two_task_sys) 0x400))), (d', s')) \<and>
     running (kern_of s') = 0x400 \<and> runnable (kern_of s') ((\<lambda>_. [0x400])(0x100 := [])) = {0x400} \<and> ticks (pit_of s') = 42"
proof -
  have run: "0x300 = running (kern_of two_task_sys)" by (simp add: two_task_sys_def running_def two_tasks_def)
  have ok: "sched_ok (kern_of two_task_sys) (\<lambda>_. [0x400])" using two_tasks_ok by (simp add: two_task_sys_def)
  have st: "task_state (tasks (kern_of two_task_sys) 0x300) = TASK_RUNNING" "task_id (tasks (kern_of two_task_sys) 0x300) \<noteq> 0"
    by (simp_all add: two_task_sys_def two_tasks_def)
  have r: "runnable (kern_of two_task_sys) (\<lambda>_. [0x400]) - {0x300} = {0x400}" and t: "ticks (pit_of two_task_sys) + 1 = 42"
    by (auto simp: runnable_def two_task_sys_def two_tasks_cpus queued_def) (auto simp: two_tasks_def)
  have cp: "cpus_of (kern_of two_task_sys) = [0x100]" "gs_cpu (kern_of two_task_sys) = 0x100"
    using two_tasks_cpus two_tasks_pick(1) by (simp_all add: two_task_sys_def)
  have pick: "sched_pick (gs_cpu (kern_of two_task_sys)) (cpus_of (kern_of two_task_sys)) (\<lambda>_. [0x400]) = (0x400, (\<lambda>_. [0x400])(0x100 := []))"
    by (simp add: cp sched_pick_def)
  have nxt: "0x400 = (if (0x400 :: u64) = 0 then idle_task (cpu_at (kern_of two_task_sys) (gs_cpu (kern_of two_task_sys))) else 0x400)" by simp
  show ?thesis
    using sys_exit_correct [OF ok run st pick nxt, of "undefined :: (unit, drive) platform" div_frame "0x9000" 0 0 0 0 "()"] unfolding r t by blast
qed

text \<open>
  \<open>write\<close> prints the bytes of the user buffer on the text screen and returns their number, whatever the descriptor is. If
  any of them is not mapped the kernel never returns to the caller.
\<close>

lemma write_chars_load:
  "write_chars n a (d, s) = map_option (\<lambda>bs. (d, s\<lparr>screen_of := fold vga_print_char bs (screen_of s)\<rparr>))
     (user_load (cr3 (kern_of s)) n a (vm (kern_of s)))"
proof (induction n arbitrary: a s)
  case (Suc n)
  show ?case
  proof (cases "translate (vm (kern_of s)) (cr3 (kern_of s)) a")
    case (Some r)
    then show ?thesis using Suc by (cases r) (simp add: option.map_comp comp_def)
  qed simp
qed simp

lemma fold_shown: "shown_lines v (layout t) \<Longrightarrow> shown_lines (fold vga_print_char bs v) (layout (t @ bs))"
proof (induction bs arbitrary: v t)
  case (Cons b bs)
  then show ?case using print_char_lines [OF Cons.prems, of b] by fastforce
qed simp

theorem sys_write_correct:
  assumes "shown_lines (screen_of s) (layout t)"
  shows "case user_load (cr3 (kern_of s)) (unat (ucast count :: u32)) buffer (vm (kern_of s)) of
      None \<Rightarrow> syscall_handler_c p f ksp 6 fd buffer count a4 (d, s) = None
    | Some bs \<Rightarrow> \<exists>v. syscall_handler_c p f ksp 6 fd buffer count a4 (d, s) =
          Some (Returns (of_int (sint (ucast count :: u32))), (d, s\<lparr>screen_of := v\<rparr>)) \<and> shown_lines v (layout (t @ bs))"
  using fold_shown [OF assms]
  by (auto simp: syscall_handler_c_def sys_write_def write_chars_load as_int_def returns_def split: option.splits)

text \<open>
  The pages of a window: page \<open>i\<close> of the user's window leads to the frame that holds byte \<open>4096 * i\<close> of the block from the
  heap, writable for the user, from the start of that frame. A block behind its 24-byte header is never page aligned unless
  the header lies in the page before, so the first page of the window starts with memory in front of the block.
\<close>

theorem window_page_mapped:
  assumes "vm_wf s lvl p" "v = user_addr + ucast (of_nat i * 4096 :: u32)" "3 \<le> card (free_frames (frames s))"
    and "\<forall>pa fl. translate s p v \<noteq> Some (pa, fl, 2)"
  shows "\<exists>lvl'. vm_wf (map_window_page p user_addr kernel_buf i s) lvl' p \<and>
    (\<forall>w. translate (map_window_page p user_addr kernel_buf i s) p w =
      (if same_region 1 v w
       then Some (((kernel_buf + ucast (of_nat i * 4096 :: u32)) AND NOT 0xFFF) OR (w AND 0xFFF), 7, 1) else translate s p w))"
proof -
  have f: "(PAGE_USER OR PAGE_WRITABLE) AND NOT 0xFFF = 0" "(PAGE_USER OR PAGE_WRITABLE) AND PAGE_HUGE = 0"
    "(PAGE_USER OR PAGE_WRITABLE) OR PAGE_PRESENT = 7"
    by (simp_all add: PAGE_USER_def PAGE_WRITABLE_def PAGE_HUGE_def PAGE_PRESENT_def)
  show ?thesis
    using map_cases [OF assms(1) refl assms(4), where phys = "kernel_buf + ucast (of_nat i * 4096 :: u32)" and flags = "PAGE_USER OR PAGE_WRITABLE"]
      f assms(3) small_entry [OF f(1), of "kernel_buf + ucast (of_nat i * 4096 :: u32)"]
    unfolding map_window_page_def assms(2) [symmetric] by auto
qed

text \<open>From window 96 on the address of the mapping wraps to the bottom of the address space.\<close>

lemma window_addr_wraps: "window_user_addr 95 = 0xFF000000" "window_user_addr 96 = 0"
  by (simp_all add: window_user_addr_def)

end
