(* ===== verification/Ext2.thy ===== *)
theory Ext2
  imports Vfs Net
begin

text \<open>
  The ext2 driver (src/kernel/ext2.c). Blocks are read into buffers from the heap; what a buffer holds before is an argument,
  \<open>fresh i\<close> for the \<open>i\<close>-th allocation of a call. The result None is a loop that does not return, a division by zero, or an
  access outside of a buffer.
\<close>

section \<open>Structures on the disk\<close>

definition get16 :: "u8 list \<Rightarrow> nat \<Rightarrow> u16" where
  "get16 bs k = ucast (bs ! k) OR push_bit 8 (ucast (bs ! Suc k))"

definition get32 :: "u8 list \<Rightarrow> nat \<Rightarrow> u32" where
  "get32 bs k = ucast (get16 bs k) OR push_bit 16 (ucast (get16 bs (k + 2)))"

lemma get_le:
  "get16 (pre @ le16 x @ post) (length pre) = x" "get32 (pre @ le32 y @ post) (length pre) = y"
proof -
  have n: "(pre @ le16 x @ post) ! length pre = ucast x" "(pre @ le16 x @ post) ! Suc (length pre) = ucast (drop_bit 8 x)"
    "(pre @ le32 y @ post) ! length pre = ucast y" "(pre @ le32 y @ post) ! Suc (length pre) = ucast (drop_bit 8 y)"
    "(pre @ le32 y @ post) ! (length pre + 2) = ucast (drop_bit 16 y)" "(pre @ le32 y @ post) ! Suc (length pre + 2) = ucast (drop_bit 24 y)"
    by (simp_all add: nth_append le16_def le32_def)
  show "get16 (pre @ le16 x @ post) (length pre) = x" unfolding get16_def n
    by (rule bit_word_eqI) (auto simp: bit_simps)
  show "get32 (pre @ le32 y @ post) (length pre) = y" unfolding get32_def get16_def n
  proof (rule bit_word_eqI)
    fix k assume k: "k < LENGTH(32)"
    consider "k < 8" | "8 \<le> k" "k < 16" | "16 \<le> k" "k < 24" | "24 \<le> k" "k < 32" using k by fastforce
    then show "bit (ucast (ucast (ucast y :: u8) OR push_bit 8 (ucast (ucast (drop_bit 8 y) :: u8)) :: u16) OR
        push_bit 16 (ucast (ucast (ucast (drop_bit 16 y) :: u8) OR push_bit 8 (ucast (ucast (drop_bit 24 y) :: u8)) :: u16)) :: u32) k =
        bit y k"
      by cases (auto simp: bit_simps)
  qed
qed

text \<open>The fields that the code uses.\<close>

record ext2_superblock_t =
  log_block_size :: u32
  inodes_per_group :: u32
  magic :: u16

record ext2_inode_t =
  mode :: u16
  isize :: u32
  iblock :: "u32 list"

definition EXT2_MAGIC :: u16 where "EXT2_MAGIC = 0xEF53"

definition ext2_superblock :: "u8 list \<Rightarrow> ext2_superblock_t" where
  "ext2_superblock b = \<lparr>log_block_size = get32 b 24, inodes_per_group = get32 b 40, magic = get16 b 56\<rparr>"

definition ext2_inode :: "u8 list \<Rightarrow> ext2_inode_t" where
  "ext2_inode b = \<lparr>mode = get16 b 0, isize = get32 b 4, iblock = map (\<lambda>i. get32 b (40 + 4 * i)) [0..<15]\<rparr>"

text \<open>The table of the block group is the third field of a descriptor of 32 bytes; an inode has 128 bytes.\<close>

definition inode_table :: "u8 list \<Rightarrow> nat \<Rightarrow> u32" where
  "inode_table bgdt grp = get32 bgdt (32 * grp + 8)"

definition INODE_SIZE :: u32 where "INODE_SIZE = 128"

record vfs_node_t =
  node_name :: "u8 list"
  node_flags :: u32
  node_inode :: u32

definition VFS_FILE :: u32 where "VFS_FILE = 1"
definition VFS_DIRECTORY :: u32 where "VFS_DIRECTORY = 2"

record ext2_state =
  superblock :: ext2_superblock_t
  block_size :: u32
  vfs_root :: "vfs_node_t option"

section \<open>Blocks and inodes\<close>

definition read_block :: "'d reader \<Rightarrow> u32 \<Rightarrow> u32 \<Rightarrow> u8 list \<Rightarrow> 'd \<Rightarrow> u8 list \<times> 'd" where
  "read_block rd bs block buffer d =
     fold (\<lambda>i (buf, d). let (data, d') = rd (block * (bs div 512) + of_nat i) (take 512 (drop (512 * i) buf)) d
                        in (patch buf (512 * i) data, d'))
       [0..<unat (bs div 512)] (buffer, d)"

definition read_inode :: "'d reader \<Rightarrow> (nat \<Rightarrow> u8 list) \<Rightarrow> ext2_state \<Rightarrow> u32 \<Rightarrow> 'd \<Rightarrow> (ext2_inode_t \<times> 'd) option" where
  "read_inode rd fresh s inode_num d =
     (let bs = block_size s; per_group = inodes_per_group (superblock s)
      in if per_group = 0 \<or> bs = 0 then None
         else let grp = (inode_num - 1) div per_group;
                  index = (inode_num - 1) mod per_group;
                  bgdt_block = (if bs = 1024 then 2 else 1);
                  (bgdt, d1) = read_block rd bs bgdt_block (fresh 0) d
              in if 32 * unat grp + 32 > unat bs then None
                 else let offset = index * INODE_SIZE;
                          block = inode_table bgdt (unat grp) + offset div bs;
                          (buf, d2) = read_block rd bs block (fresh 1) d1
                      in Some (ext2_inode (drop (unat (offset mod bs)) buf), d2))"

section \<open>Reading a file\<close>

definition ext2_chunk :: "u32 \<Rightarrow> u32 \<Rightarrow> u32 \<Rightarrow> u32" where
  "ext2_chunk bs pos left = (if bs - pos mod bs > left then left else bs - pos mod bs)"

text \<open>Only the twelve direct blocks are followed; block 0 is a hole.\<close>

partial_function (option) ext2_read_loop ::
  "'d reader \<Rightarrow> u32 \<Rightarrow> u32 list \<Rightarrow> u32 \<Rightarrow> u32 \<Rightarrow> u32 \<Rightarrow> u8 list \<Rightarrow> u8 list \<Rightarrow> 'd \<Rightarrow> (u32 \<times> u8 list \<times> 'd) option" where
  "ext2_read_loop rd bs blocks off n bytes_read block_buf buffer d =
     (if \<not> bytes_read < n then Some (bytes_read, buffer, d)
      else if bs = 0 then None
      else let block_idx = (off + bytes_read) div bs;
               block_off = (off + bytes_read) mod bs;
               to_read = ext2_chunk bs (off + bytes_read) (n - bytes_read)
           in if \<not> block_idx < 12 then Some (bytes_read, buffer, d)
              else let physical_block = blocks ! unat block_idx
                   in if physical_block = 0
                      then ext2_read_loop rd bs blocks off n (bytes_read + to_read) block_buf
                             (patch buffer (unat bytes_read) (replicate (unat to_read) 0)) d
                      else let (bb, d') = read_block rd bs physical_block block_buf d
                           in ext2_read_loop rd bs blocks off n (bytes_read + to_read) bb
                                (patch buffer (unat bytes_read) (take (unat to_read) (drop (unat block_off) bb))) d')"

definition ext2_read ::
  "'d reader \<Rightarrow> (nat \<Rightarrow> u8 list) \<Rightarrow> ext2_state \<Rightarrow> vfs_node_t \<Rightarrow> u32 \<Rightarrow> u32 \<Rightarrow> u8 list \<Rightarrow> 'd \<Rightarrow> (u32 \<times> u8 list \<times> 'd) option" where
  "ext2_read rd fresh s node off n buffer d =
     Option.bind (read_inode rd fresh s (node_inode node) d) (\<lambda>(inode, d1).
       if off \<ge> isize inode then Some (0, buffer, d1)
       else let n = (if off + n > isize inode then isize inode - off else n)
            in ext2_read_loop rd (block_size s) (iblock inode) off n 0 (fresh 2) buffer d1)"

section \<open>Looking up a name\<close>

text \<open>An entry: inode, record length, name length, type, name. The node has 128 bytes for the name.\<close>

definition found_node :: "u8 list \<Rightarrow> vfs_node_t option" where
  "found_node e =
     (let name = entry_name (take (unat (e ! 6)) (drop 8 e))
      in if length name + 1 > 128 then None
         else Some \<lparr>node_name = name, node_flags = (if e ! 7 = 2 then VFS_DIRECTORY else VFS_FILE), node_inode = get32 e 0\<rparr>)"

partial_function (option) scan_entries :: "u32 \<Rightarrow> u8 list \<Rightarrow> u8 list \<Rightarrow> u32 \<Rightarrow> vfs_node_t option option" where
  "scan_entries bs buf name off =
     (if \<not> off < bs then Some None
      else let e = drop (unat off) buf
           in if length e < 8 \<or> length (drop 8 e) < unat (e ! 6) then None
              else Option.bind (strcmp_bytes (take (unat (e ! 6)) (drop 8 e) @ [0]) (name @ [0])) (\<lambda>c.
                if c = 0 then Option.bind (found_node e) (\<lambda>node. Some (Some node))
                else scan_entries bs buf name (off + ucast (get16 e 4))))"

fun find_in_blocks ::
  "'d reader \<Rightarrow> u32 \<Rightarrow> u8 list \<Rightarrow> u32 list \<Rightarrow> u8 list \<Rightarrow> 'd \<Rightarrow> (vfs_node_t option \<times> 'd) option" where
  "find_in_blocks rd bs name [] block_buf d = Some (None, d)"
| "find_in_blocks rd bs name (b # blocks) block_buf d =
     (if b = 0 then find_in_blocks rd bs name blocks block_buf d
      else let (bb, d') = read_block rd bs b block_buf d
           in Option.bind (scan_entries bs bb name 0) (\<lambda>r.
                case r of Some node \<Rightarrow> Some (Some node, d') | None \<Rightarrow> find_in_blocks rd bs name blocks bb d'))"

definition ext2_finddir ::
  "'d reader \<Rightarrow> (nat \<Rightarrow> u8 list) \<Rightarrow> ext2_state \<Rightarrow> vfs_node_t \<Rightarrow> u8 list \<Rightarrow> 'd \<Rightarrow> (vfs_node_t option \<times> 'd) option" where
  "ext2_finddir rd fresh s node name d =
     Option.bind (read_inode rd fresh s (node_inode node) d) (\<lambda>(inode, d1).
       if mode inode AND 0x4000 = 0 then Some (None, d1)
       else find_in_blocks rd (block_size s) name (take 12 (iblock inode)) (fresh 2) d1)"

text \<open>The shift of an \<open>int\<close> is only defined while the result fits.\<close>

definition ext2_init :: "'d reader \<Rightarrow> u8 list \<Rightarrow> ext2_state \<Rightarrow> 'd \<Rightarrow> (ext2_state \<times> 'd) option" where
  "ext2_init rd fresh s d =
     (let (lo, d1) = rd 2 (take 512 fresh) d;
          (hi, d2) = rd 3 (take 512 (drop 512 fresh)) d1;
          sb = ext2_superblock (lo @ hi);
          s1 = s\<lparr>superblock := sb\<rparr>
      in if magic sb \<noteq> EXT2_MAGIC then Some (s1, d2)
         else if log_block_size sb > 20 then None
         else Some (s1\<lparr>block_size := push_bit (unat (log_block_size sb)) 1024,
                vfs_root := Some \<lparr>node_name = [0x2F], node_flags = VFS_DIRECTORY, node_inode = 2\<rparr>\<rparr>, d2))"

section \<open>What the disk holds\<close>

definition block_bytes :: "(u32 \<Rightarrow> u8 list) \<Rightarrow> u32 \<Rightarrow> u32 \<Rightarrow> u8 list" where
  "block_bytes c bs b = file_bytes c (b * (bs div 512)) 0 (unat bs)"

definition block_ok :: "(u32 \<Rightarrow> bool) \<Rightarrow> u32 \<Rightarrow> u32 \<Rightarrow> bool" where
  "block_ok ok bs b \<longleftrightarrow> (\<forall>i<unat bs div 512. ok (b * (bs div 512) + of_nat i))"

definition group_block :: "ext2_state \<Rightarrow> u32" where
  "group_block s = (if block_size s = 1024 then 2 else 1)"

definition inode_index :: "ext2_state \<Rightarrow> u32 \<Rightarrow> u32" where
  "inode_index s n = (n - 1) mod inodes_per_group (superblock s) * INODE_SIZE"

definition inode_group :: "ext2_state \<Rightarrow> u32 \<Rightarrow> nat" where
  "inode_group s n = unat ((n - 1) div inodes_per_group (superblock s))"

definition inode_block :: "(u32 \<Rightarrow> u8 list) \<Rightarrow> ext2_state \<Rightarrow> u32 \<Rightarrow> u32" where
  "inode_block c s n = inode_table (block_bytes c (block_size s) (group_block s)) (inode_group s n) + inode_index s n div block_size s"

definition inode_on :: "(u32 \<Rightarrow> u8 list) \<Rightarrow> ext2_state \<Rightarrow> u32 \<Rightarrow> ext2_inode_t" where
  "inode_on c s n = ext2_inode (drop (unat (inode_index s n mod block_size s)) (block_bytes c (block_size s) (inode_block c s n)))"

text \<open>A file whose blocks, and whose inode, lie on valid sectors.\<close>

definition ext2_file :: "(u32 \<Rightarrow> bool) \<Rightarrow> (u32 \<Rightarrow> u8 list) \<Rightarrow> ext2_state \<Rightarrow> u32 \<Rightarrow> bool" where
  "ext2_file ok c s n \<longleftrightarrow> inodes_per_group (superblock s) \<noteq> 0 \<and> block_size s \<noteq> 0 \<and> unat (block_size s) mod 512 = 0 \<and>
     32 * inode_group s n + 32 \<le> unat (block_size s) \<and> block_ok ok (block_size s) (group_block s) \<and>
     block_ok ok (block_size s) (inode_block c s n) \<and>
     (\<forall>i<12. iblock (inode_on c s n) ! i \<noteq> 0 \<longrightarrow> block_ok ok (block_size s) (iblock (inode_on c s n) ! i))"

definition ext2_byte :: "(u32 \<Rightarrow> u8 list) \<Rightarrow> u32 \<Rightarrow> u32 list \<Rightarrow> nat \<Rightarrow> u8" where
  "ext2_byte c bs blocks k =
     (let b = blocks ! (k div unat bs) in if b = 0 then 0 else block_bytes c bs b ! (k mod unat bs))"

lemma length_block_bytes [simp]: "length (block_bytes c bs b) = unat bs"
  by (simp add: block_bytes_def)

lemma length_iblock [simp]: "length (iblock (ext2_inode b)) = 15" "length (iblock (inode_on c s n)) = 15"
  by (simp_all add: ext2_inode_def inode_on_def)

section \<open>Reading blocks and inodes from a block device\<close>

context block_device
begin

lemma read_sectors:
  assumes "inv d" "length buf = 512 * n" "\<forall>i<n. valid (start + of_nat i)" "m \<le> n"
  shows "\<exists>d'. fold (\<lambda>i (buf, d). let (data, d') = rd (start + of_nat i) (take 512 (drop (512 * i) buf)) d
                        in (patch buf (512 * i) data, d')) [0..<m] (buf, d) =
      (patch buf 0 (file_bytes (sec d) start 0 (512 * m)), d') \<and> inv d' \<and> sec d' = sec d"
  using assms(4)
proof (induction m)
  case 0
  then show ?case using assms(1) by (simp add: file_bytes_def)
next
  case (Suc m)
  then obtain d1 where d1: "fold (\<lambda>i (buf, d). let (data, d') = rd (start + of_nat i) (take 512 (drop (512 * i) buf)) d
                        in (patch buf (512 * i) data, d')) [0..<m] (buf, d) =
      (patch buf 0 (file_bytes (sec d) start 0 (512 * m)), d1)" "inv d1" "sec d1 = sec d" by auto
  let ?b = "patch buf 0 (file_bytes (sec d) start 0 (512 * m))"
  obtain d2 where d2: "rd (start + of_nat m) (take 512 (drop (512 * m) ?b)) d1 = (sec d (start + of_nat m), d2)"
      "inv d2" "sec d2 = sec d"
    using rd_sector [OF d1(2), of "start + of_nat m" "take 512 (drop (512 * m) ?b)"] assms(3) Suc.prems
    unfolding d1(3) by (metis Suc_le_lessD)
  have "file_bytes (sec d) start (512 * m) 512 = sec d (start + of_nat m)"
    using file_chunk [of "sec d" start "512 * m" 512] sec_length [OF assms(1), of "start + of_nat m"] by simp
  then have "file_bytes (sec d) start 0 (512 * Suc m) = file_bytes (sec d) start 0 (512 * m) @ sec d (start + of_nat m)"
    using file_bytes_append [of "sec d" start 0 "512 * m" 512] by (simp add: add.commute)
  moreover have "patch ?b (512 * m) (sec d (start + of_nat m)) =
      patch buf 0 (file_bytes (sec d) start 0 (512 * m) @ sec d (start + of_nat m))"
    using patch_patch [of 0 "file_bytes (sec d) start 0 (512 * m)" "sec d (start + of_nat m)" buf]
      sec_length [OF assms(1)] assms(2) Suc.prems by simp
  ultimately show ?case using d1 d2 by simp
qed

lemma read_block_bytes:
  assumes "inv d" "block_ok valid bs b" "length buf = unat bs" "unat bs mod 512 = 0"
  obtains d' where "read_block rd bs b buf d = (block_bytes (sec d) bs b, d')" "inv d'" "sec d' = sec d"
proof -
  have n: "512 * (unat bs div 512) = unat bs" using assms(4) by auto
  obtain d' where "read_block rd bs b buf d =
      (patch buf 0 (file_bytes (sec d) (b * (bs div 512)) 0 (512 * (unat bs div 512))), d')" "inv d'" "sec d' = sec d"
    using read_sectors [OF assms(1), of buf "unat bs div 512" "b * (bs div 512)" "unat bs div 512"] assms(2,3) n
    by (auto simp: read_block_def block_ok_def)
  moreover have "patch buf 0 (file_bytes (sec d) (b * (bs div 512)) 0 (unat bs)) = block_bytes (sec d) bs b"
    using assms(3) by (simp add: patch_def block_bytes_def)
  ultimately show thesis using that unfolding n by simp
qed

lemma read_inode_on:
  assumes "inv d" "ext2_file valid (sec d) s n" "\<And>i. length (fresh i) = unat (block_size s)"
  obtains d' where "read_inode rd fresh s n d = Some (inode_on (sec d) s n, d')" "inv d'" "sec d' = sec d"
proof -
  note f = assms(2) [unfolded ext2_file_def]
  obtain d1 where d1: "read_block rd (block_size s) (group_block s) (fresh 0) d =
      (block_bytes (sec d) (block_size s) (group_block s), d1)" "inv d1" "sec d1 = sec d"
    using read_block_bytes [OF assms(1), of "block_size s" "group_block s" "fresh 0"] f assms(3) by metis
  obtain d2 where d2: "read_block rd (block_size s) (inode_block (sec d) s n) (fresh 1) d1 =
      (block_bytes (sec d) (block_size s) (inode_block (sec d) s n), d2)" "inv d2" "sec d2 = sec d"
    using read_block_bytes [OF d1(2), of "block_size s" "inode_block (sec d) s n" "fresh 1"] f assms(3) d1(3) by metis
  have "read_inode rd fresh s n d = Some (inode_on (sec d) s n, d2)"
    using f d1(1) d2(1)
    by (simp add: read_inode_def group_block_def [symmetric] Let_def inode_index_def [symmetric] inode_group_def [symmetric]
        inode_block_def [symmetric] inode_on_def)
  from this d2(2,3) show thesis by (rule that)
qed

end

subsection \<open>Within a block\<close>

lemma same_block:
  assumes "k mod b + i < (b :: nat)"
  shows "(k + i) div b = k div b" "(k + i) mod b = k mod b + i"
proof -
  have "i < b" using assms by linarith
  then show "(k + i) div b = k div b" using assms by (subst div_add1_eq) simp
  have "(k + i) mod b = (k mod b + i) mod b" by (rule mod_add_left_eq [symmetric])
  then show "(k + i) mod b = k mod b + i" using assms by simp
qed

definition ext2_bytes :: "(u32 \<Rightarrow> u8 list) \<Rightarrow> u32 \<Rightarrow> u32 list \<Rightarrow> nat \<Rightarrow> nat \<Rightarrow> u8 list" where
  "ext2_bytes c bs blocks k m = map (ext2_byte c bs blocks) [k..<k + m]"

lemma length_ext2_bytes [simp]: "length (ext2_bytes c bs blocks k m) = m"
  by (simp add: ext2_bytes_def)

lemma ext2_bytes_append: "ext2_bytes c bs blocks k (m + n) = ext2_bytes c bs blocks k m @ ext2_bytes c bs blocks (k + m) n"
  using upt_add_eq_append [of k "k + m" n] by (simp add: ext2_bytes_def add.assoc)

lemma ext2_bytes_block:
  assumes "k mod unat bs + m \<le> unat bs"
  shows "ext2_bytes c bs blocks k m = (if blocks ! (k div unat bs) = 0 then replicate m 0
     else take m (drop (k mod unat bs) (block_bytes c bs (blocks ! (k div unat bs)))))"
proof (rule nth_equalityI)
  fix i assume "i < length (ext2_bytes c bs blocks k m)"
  then have i: "i < m" by simp
  then have lt: "k mod unat bs + i < unat bs" using assms by linarith
  show "ext2_bytes c bs blocks k m ! i = (if blocks ! (k div unat bs) = 0 then replicate m 0
     else take m (drop (k mod unat bs) (block_bytes c bs (blocks ! (k div unat bs))))) ! i"
    using i lt same_block [OF lt] nth_take_drop [OF i, of "k mod unat bs" "block_bytes c bs (blocks ! (k div unat bs))"]
    by (simp add: ext2_bytes_def ext2_byte_def Let_def)
qed (use assms in auto)

lemma ext2_chunk_turn:
  fixes off "done" n bs :: u32
  assumes lt: "done < n" and nowrap: "unat off + unat n < 2 ^ 32" and bs: "bs \<noteq> 0"
  defines "c \<equiv> ext2_chunk bs (off + done) (n - done)" and "k \<equiv> unat off + unat done"
  shows "unat (off + done) = k" "0 < unat c" "unat c \<le> unat n - unat done" "k mod unat bs + unat c \<le> unat bs"
    "unat (done + c) = unat done + unat c"
    "unat c = unat n - unat done \<or> k mod unat bs + unat c = unat bs"
proof -
  have d: "unat done < unat n" using lt by (simp add: word_less_iff_unat)
  show k: "unat (off + done) = k" unfolding k_def using nowrap d by (intro unat_plus_no_wrap) simp
  have b: "0 < unat bs" using bs by (simp add: unat_gt_0)
  have m: "k mod unat bs < unat bs" using b by simp
  have "unat (bs - (off + done) mod bs) = unat bs - k mod unat bs"
    using m by (subst unat_minus_no_wrap) (simp_all add: word_le_iff_unat unat_mod k)
  moreover have "unat (n - done) = unat n - unat done"
    using d by (simp add: unat_minus_no_wrap word_le_iff_unat)
  ultimately have c: "unat c = min (unat bs - k mod unat bs) (unat n - unat done)"
    by (simp add: c_def ext2_chunk_def word_less_iff_unat min_def)
  then show "0 < unat c" "unat c \<le> unat n - unat done" "k mod unat bs + unat c \<le> unat bs"
    "unat c = unat n - unat done \<or> k mod unat bs + unat c = unat bs" using m d by auto
  then show "unat (done + c) = unat done + unat c"
    using d unsigned_less [of n, where 'a = nat] by (intro unat_plus_no_wrap) simp
qed

section \<open>Reading a file\<close>

context block_device
begin

text \<open>What is read: at most \<open>n\<close> bytes, and none behind the direct blocks.\<close>

lemma ext2_read_loop_bytes:
  assumes bs: "bs \<noteq> 0" "unat bs mod 512 = 0" and blocks: "length blocks = 15"
    and nowrap: "unat off + unat n < 2 ^ 32" and room: "unat n \<le> length buffer"
    and L: "L = min (unat n) (12 * unat bs - unat off)"
  shows "inv d \<Longrightarrow> length bb = unat bs \<Longrightarrow> unat done \<le> L \<Longrightarrow> length buffer = length buffer' \<Longrightarrow>
    \<forall>i<12. blocks ! i \<noteq> 0 \<longrightarrow> block_ok valid bs (blocks ! i) \<Longrightarrow>
    \<exists>d'. ext2_read_loop rd bs blocks off n done bb buffer' d =
      Some (of_nat L, patch buffer' (unat done) (ext2_bytes (sec d) bs blocks (unat off + unat done) (L - unat done)), d') \<and>
    inv d' \<and> sec d' = sec d"
proof (induction "L - unat done" arbitrary: "done" bb buffer' d rule: less_induct)
  case less
  have b: "0 < unat bs" using bs(1) by (simp add: unat_gt_0)
  show ?case
  proof (cases "done < n")
    case False
    then have e: "L = unat done" using less.prems(3) L by (simp add: word_less_iff_unat)
    then show ?thesis using False less.prems(1) by (subst ext2_read_loop.simps) (simp add: ext2_bytes_def)
  next
    case True
    define c where "c = ext2_chunk bs (off + done) (n - done)"
    define k where "k = unat off + unat done"
    note turn = ext2_chunk_turn [OF True nowrap bs(1), folded c_def, folded k_def]
    have idx: "unat ((off + done) div bs) = k div unat bs" "unat ((off + done) mod bs) = k mod unat bs"
      using turn(1) by (simp_all add: unat_div unat_mod)
    show ?thesis
    proof (cases "k div unat bs < 12")
      case False
      then have "12 * unat bs \<le> k" by (metis b div_less_iff_less_mult leI)
      then have "L \<le> unat done" unfolding L k_def by linarith
      then have e: "L = unat done" using less.prems(3) by simp
      moreover have "\<not> (off + done) div bs < 12" using False idx(1) by (simp add: word_less_iff_unat)
      ultimately show ?thesis
        using True bs(1) less.prems(1) by (subst ext2_read_loop.simps) (simp add: ext2_bytes_def)
    next
      case in12: True
      have lim: "(off + done) div bs < 12" using in12 idx(1) by (simp add: word_less_iff_unat)
      have "k + unat c \<le> 12 * unat bs"
      proof -
        have "k + unat c \<le> (k div unat bs) * unat bs + unat bs" using turn(4) div_mult_mod_eq [of k "unat bs"] by linarith
        also have "\<dots> = Suc (k div unat bs) * unat bs" by simp
        also have "\<dots> \<le> 12 * unat bs" using in12 by (intro mult_le_mono1) simp
        finally show ?thesis .
      qed
      then have le: "unat done + unat c \<le> L" using turn(3) True unfolding L k_def word_less_iff_unat by linarith
      let ?blk = "blocks ! (k div unat bs)" and ?bytes = "ext2_bytes (sec d) bs blocks k (unat c)"
      obtain bb1 d1 where step: "ext2_read_loop rd bs blocks off n done bb buffer' d =
          ext2_read_loop rd bs blocks off n (done + c) bb1 (patch buffer' (unat done) ?bytes) d1"
        "inv d1" "sec d1 = sec d" "length bb1 = unat bs"
      proof (cases "?blk = 0")
        case True
        then have "ext2_read_loop rd bs blocks off n done bb buffer' d =
            ext2_read_loop rd bs blocks off n (done + c) bb (patch buffer' (unat done) ?bytes) d"
          using \<open>done < n\<close> bs(1) lim idx ext2_bytes_block [OF turn(4), of "sec d" blocks]
          by (subst ext2_read_loop.simps) (simp add: c_def [symmetric])
        then show thesis using less.prems(1,2) by (intro that) simp_all
      next
        case False
        obtain d1 where d1: "read_block rd bs ?blk bb d = (block_bytes (sec d) bs ?blk, d1)" "inv d1" "sec d1 = sec d"
          using read_block_bytes [OF less.prems(1) _ less.prems(2) bs(2), of ?blk] less.prems(5) in12 False by blast
        have "ext2_read_loop rd bs blocks off n done bb buffer' d =
            ext2_read_loop rd bs blocks off n (done + c) (block_bytes (sec d) bs ?blk) (patch buffer' (unat done) ?bytes) d1"
          using \<open>done < n\<close> bs(1) lim idx False d1(1) ext2_bytes_block [OF turn(4), of "sec d" blocks]
          by (subst ext2_read_loop.simps) (simp add: c_def [symmetric] Let_def)
        then show thesis by (rule that [OF _ d1(2,3)]) simp
      qed
      let ?buf = "patch buffer' (unat done) ?bytes"
      have Ln: "L \<le> length buffer'" using L room less.prems(4) by simp
      have "L - unat (done + c) < L - unat done" "unat (done + c) \<le> L" "length buffer = length ?buf"
        using turn(2,5) le less.prems(4) Ln by simp_all
      then obtain d' where d': "ext2_read_loop rd bs blocks off n (done + c) bb1 ?buf d1 =
          Some (of_nat L, patch ?buf (unat (done + c))
            (ext2_bytes (sec d1) bs blocks (unat off + unat (done + c)) (L - unat (done + c))), d')" "inv d'" "sec d' = sec d1"
        using less.hyps [of "done + c" d1 bb1 ?buf] step(2,4) less.prems(5) by blast
      have "patch ?buf (unat done + unat c) (ext2_bytes (sec d) bs blocks (k + unat c) (L - (unat done + unat c))) =
          patch buffer' (unat done) (ext2_bytes (sec d) bs blocks k (L - unat done))"
        using patch_patch [of "unat done" ?bytes "ext2_bytes (sec d) bs blocks (k + unat c) (L - (unat done + unat c))" buffer']
          ext2_bytes_append [of "sec d" bs blocks k "unat c" "L - (unat done + unat c)"] le Ln by simp
      then show ?thesis using d' step turn(5) by (simp add: k_def add.assoc)
    qed
  qed
qed

end

text \<open>
  Reading a file: the bytes from \<open>off\<close> on, at most \<open>n\<close> of them, not beyond the end of the file and not beyond its twelve
  direct blocks, go to the front of the buffer, holes read as zeros, and their number is returned. The disk is not changed.
\<close>

theorem ext2_read_correct:
  assumes dev: "block_device rd wr sec dev_ok valid" "dev_ok d" and f: "ext2_file valid (sec d) s (node_inode node)"
    and fresh: "\<And>i. length (fresh i) = unat (block_size s)"
    and nowrap: "unat off + unat n < 2 ^ 32" and room: "unat n \<le> length buffer"
    and ino: "ino = inode_on (sec d) s (node_inode node)"
    and L: "L = min (min (unat n) (unat (isize ino) - unat off)) (12 * unat (block_size s) - unat off)"
  shows "\<exists>d'. ext2_read rd fresh s node off n buffer d =
      Some (of_nat L, ext2_bytes (sec d) (block_size s) (iblock ino) (unat off) L @ drop L buffer, d') \<and>
    dev_ok d' \<and> sec d' = sec d"
proof -
  note fo = f [unfolded ext2_file_def, folded ino]
  obtain d1 where d1: "read_inode rd fresh s (node_inode node) d = Some (ino, d1)" "dev_ok d1" "sec d1 = sec d"
    by (rule block_device.read_inode_on [OF dev f fresh, folded ino]) (rule that)
  show ?thesis
  proof (cases "off \<ge> isize ino")
    case True
    then show ?thesis using d1 L by (simp add: ext2_read_def ext2_bytes_def word_le_iff_unat)
  next
    case False
    define m where "m = (if off + n > isize ino then isize ino - off else n)"
    have on: "unat (off + n) = unat off + unat n" using nowrap by (intro unat_plus_no_wrap) simp
    have "unat m = min (unat n) (unat (isize ino) - unat off)"
      using False on by (auto simp: m_def word_less_iff_unat word_le_iff_unat unat_minus_no_wrap min_def)
    then have m: "unat m \<le> length buffer" "unat off + unat m < 2 ^ 32" "L = min (unat m) (12 * unat (block_size s) - unat off)"
      using room nowrap L by simp_all
    have "\<exists>d'. ext2_read_loop rd (block_size s) (iblock ino) off m 0 (fresh 2) buffer d1 =
      Some (of_nat L, patch buffer (unat (0 :: u32)) (ext2_bytes (sec d1) (block_size s) (iblock ino) (unat off + unat (0 :: u32)) (L - unat (0 :: u32))), d') \<and>
      dev_ok d' \<and> sec d' = sec d1"
      using fo ino fresh by (intro block_device.ext2_read_loop_bytes [OF dev(1) _ _ _ m(2,1,3) d1(2)]) auto
    then obtain d' where d': "ext2_read_loop rd (block_size s) (iblock ino) off m 0 (fresh 2) buffer d1 =
        Some (of_nat L, ext2_bytes (sec d) (block_size s) (iblock ino) (unat off) L @ drop L buffer, d')" "dev_ok d'" "sec d' = sec d"
      using d1(3) by (auto simp: patch_def)
    have "ext2_read rd fresh s node off n buffer d = ext2_read_loop rd (block_size s) (iblock ino) off m 0 (fresh 2) buffer d1"
      using d1(1) False by (simp add: ext2_read_def m_def)
    then show ?thesis using d' by simp
  qed
qed

section \<open>Looking up a name\<close>

text \<open>An entry as the disk has it.\<close>

record dirent =
  d_inode :: u32
  d_type :: u8
  d_name :: "u8 list"
  d_pad :: "u8 list"

definition dirent_ok :: "dirent \<Rightarrow> bool" where
  "dirent_ok e \<longleftrightarrow> length (d_name e) < 128 \<and> 0 \<notin> set (d_name e) \<and> length (d_pad e) < 65000"

definition encode_dirent :: "dirent \<Rightarrow> u8 list" where
  "encode_dirent e = le32 (d_inode e) @ le16 (of_nat (8 + length (d_name e) + length (d_pad e))) @
     [of_nat (length (d_name e)), d_type e] @ d_name e @ d_pad e"

definition dirent_node :: "dirent \<Rightarrow> vfs_node_t" where
  "dirent_node e = \<lparr>node_name = d_name e, node_flags = (if d_type e = 2 then VFS_DIRECTORY else VFS_FILE), node_inode = d_inode e\<rparr>"

definition lookup :: "u8 list \<Rightarrow> dirent list \<Rightarrow> vfs_node_t option" where
  "lookup name es = map_option dirent_node (find (\<lambda>e. d_name e = name) es)"

lemma length_encode [simp]: "length (encode_dirent e) = 8 + length (d_name e) + length (d_pad e)"
  by (simp add: encode_dirent_def le16_def le32_def)

lemma strcmp_longer:
  "0 \<notin> set a \<Longrightarrow> 0 \<notin> set b \<Longrightarrow> length a < length b \<Longrightarrow> \<exists>c. strcmp_bytes (a @ [0]) (b @ [0]) = Some c \<and> c \<noteq> 0"
proof (induction a arbitrary: b)
  case Nil
  then show ?case by (cases b) (auto simp: word_uint_eq_iff)
next
  case (Cons x a)
  then show ?case by (cases b) (auto simp: word_uint_eq_iff)
qed

lemma entry_name_whole: "0 \<notin> set name \<Longrightarrow> entry_name name = name" "0 \<notin> set name \<Longrightarrow> entry_name (name @ 0 # xs) = name"
  by (auto simp: entry_name_def takeWhile_eq_all_conv takeWhile_tail)

lemma encoded_fields:
  assumes "dirent_ok e" "x = encode_dirent e @ rest"
  shows "unat (x ! 6) = length (d_name e)" "x ! 7 = d_type e" "get32 x 0 = d_inode e"
    "unat (get16 x 4) = length (encode_dirent e)" "take (length (d_name e)) (drop 8 x) = d_name e"
    "8 + length (d_name e) \<le> length x"
proof -
  have len: "length (d_name e) < 2 ^ LENGTH(8)" "8 + length (d_name e) + length (d_pad e) < 2 ^ LENGTH(16)"
    using assms(1) by (simp_all add: dirent_ok_def)
  have h: "length (le32 (d_inode e)) = 4" "length (le16 y) = 2" for y by (simp_all add: le16_def le32_def)
  have "x ! 6 = of_nat (length (d_name e))" "x ! 7 = d_type e"
    by (simp_all add: assms(2) encode_dirent_def nth_append h)
  then show "unat (x ! 6) = length (d_name e)" "x ! 7 = d_type e" using unat_of_nat_small [OF len(1)] by simp_all
  show "get32 x 0 = d_inode e"
    using get_le(2) [of "[]" "d_inode e"] by (simp add: assms(2) encode_dirent_def)
  have "get16 x 4 = of_nat (8 + length (d_name e) + length (d_pad e))"
    using get_le(1) [of "le32 (d_inode e)"] by (simp only: assms(2) encode_dirent_def append_assoc h)
  then show "unat (get16 x 4) = length (encode_dirent e)" using unat_of_nat_small [OF len(2)] by simp
  show "take (length (d_name e)) (drop 8 x) = d_name e" "8 + length (d_name e) \<le> length x"
    by (simp_all add: assms(2) encode_dirent_def h)
qed

lemma scan_encoded:
  assumes "\<forall>e\<in>set es. dirent_ok e" "0 \<notin> set name" "buf = pre @ concat (map encode_dirent es)"
    "unat off = length pre" "unat bs = length buf"
  shows "scan_entries bs buf name off = Some (lookup name es)"
  using assms(1,3,4)
proof (induction es arbitrary: pre off)
  case Nil
  then have "\<not> off < bs" using assms(5) by (simp add: word_less_iff_unat)
  then show ?case by (subst scan_entries.simps) (simp add: lookup_def)
next
  case (Cons e es)
  let ?x = "encode_dirent e @ concat (map encode_dirent es)"
  have ok: "dirent_ok e" using Cons.prems by simp
  note f = encoded_fields [OF ok, of ?x, OF refl]
  have x: "drop (unat off) buf = ?x" using Cons.prems by simp
  have "off < bs" using Cons.prems assms(5) by (simp add: word_less_iff_unat)
  moreover obtain c where c: "strcmp_bytes (d_name e @ [0]) (name @ [0]) = Some c" "c = 0 \<longleftrightarrow> d_name e = name"
  proof -
    show thesis
    proof (cases "length name < length (d_name e @ [0])")
      case True
      have "entry_name (d_name e @ [0]) = d_name e" using ok entry_name_whole(2) [of "d_name e" "[]"] by (simp add: dirent_ok_def)
      then show thesis using strcmp_bytes_name [OF assms(2) True] that by auto
    next
      case False
      then show thesis using that strcmp_longer [of "d_name e" name] ok assms(2) by (auto simp: dirent_ok_def)
    qed
  qed
  moreover have "found_node ?x = Some (dirent_node e)"
    using ok f entry_name_whole(1) [of "d_name e"] by (simp add: found_node_def dirent_node_def dirent_ok_def)
  moreover have "scan_entries bs buf name (off + ucast (get16 ?x 4)) = Some (lookup name es)"
  proof (rule Cons.IH)
    have "unat (ucast (get16 ?x 4) :: u32) = length (encode_dirent e)"
      using f(4) unsigned_less [of "get16 ?x 4", where 'a = nat] by (subst unat_ucast_small) simp_all
    moreover have "unat off + length (encode_dirent e) < 2 ^ LENGTH(32)"
      using unsigned_less [of bs, where 'a = nat] Cons.prems assms(5) by simp
    ultimately show "unat (off + ucast (get16 ?x 4)) = length (pre @ encode_dirent e)"
      using Cons.prems(3) by (simp add: unat_plus_no_wrap)
  qed (use Cons.prems in simp_all)
  ultimately show ?case
    using f x by (subst scan_entries.simps) (auto simp: lookup_def Let_def)
qed

lemma lookup_append: "lookup name (xs @ ys) = (case lookup name xs of None \<Rightarrow> lookup name ys | Some n \<Rightarrow> Some n)"
  by (induction xs) (auto simp: lookup_def)

text \<open>The entries of a directory, block by block.\<close>

definition dir_entries :: "(u32 \<Rightarrow> dirent list) \<Rightarrow> u32 list \<Rightarrow> dirent list" where
  "dir_entries es blocks = concat (map es (filter (\<lambda>b. b \<noteq> 0) blocks))"

definition dir_blocks :: "(u32 \<Rightarrow> u8 list) \<Rightarrow> u32 \<Rightarrow> (u32 \<Rightarrow> dirent list) \<Rightarrow> u32 list \<Rightarrow> bool" where
  "dir_blocks c bs es blocks \<longleftrightarrow> (\<forall>b\<in>set blocks. b \<noteq> 0 \<longrightarrow>
     block_bytes c bs b = concat (map encode_dirent (es b)) \<and> (\<forall>e\<in>set (es b). dirent_ok e))"

context block_device
begin

lemma find_in_blocks_lookup:
  assumes bs: "unat bs mod 512 = 0" and name: "0 \<notin> set name"
  shows "inv d \<Longrightarrow> length bb = unat bs \<Longrightarrow> dir_blocks (sec d) bs es blocks \<Longrightarrow>
    \<forall>b\<in>set blocks. b \<noteq> 0 \<longrightarrow> block_ok valid bs b \<Longrightarrow>
    \<exists>d'. find_in_blocks rd bs name blocks bb d = Some (lookup name (dir_entries es blocks), d') \<and> inv d' \<and> sec d' = sec d"
proof (induction blocks arbitrary: bb d)
  case Nil
  then show ?case by (simp add: dir_entries_def lookup_def)
next
  case (Cons b blocks)
  show ?case
  proof (cases "b = 0")
    case True
    then show ?thesis using Cons by (simp add: dir_entries_def dir_blocks_def)
  next
    case False
    obtain d1 where d1: "read_block rd bs b bb d = (block_bytes (sec d) bs b, d1)" "inv d1" "sec d1 = sec d"
      using read_block_bytes [OF Cons.prems(1) _ Cons.prems(2) bs, of b] Cons.prems(4) False by auto
    have b: "block_bytes (sec d) bs b = concat (map encode_dirent (es b))" "\<forall>e\<in>set (es b). dirent_ok e"
      using Cons.prems(3) False by (simp_all add: dir_blocks_def)
    have scan: "scan_entries bs (block_bytes (sec d) bs b) name 0 = Some (lookup name (es b))"
      using length_block_bytes [of "sec d" bs b] by (intro scan_encoded [OF b(2) name, of _ "[]"]) (simp_all add: b(1))
    obtain d' where "find_in_blocks rd bs name blocks (block_bytes (sec d) bs b) d1 = Some (lookup name (dir_entries es blocks), d')"
        "inv d'" "sec d' = sec d"
      using Cons.IH [OF d1(2), of "block_bytes (sec d) bs b"] Cons.prems(3,4) d1(3) by (auto simp: dir_blocks_def)
    then show ?thesis
      using False d1 scan lookup_append [of name "es b" "dir_entries es blocks"]
      by (simp add: dir_entries_def split: option.splits)
  qed
qed

end

text \<open>
  Looking up a name in a directory of well-formed entries returns the node of the first entry with that name in the order of
  its direct blocks, or none; the disk is not changed. An entry with inode 0, which ext2 takes as deleted, is found too.
\<close>

theorem ext2_finddir_correct:
  assumes dev: "block_device rd wr sec dev_ok valid" "dev_ok d" and f: "ext2_file valid (sec d) s (node_inode node)"
    and fresh: "\<And>i. length (fresh i) = unat (block_size s)" and name: "0 \<notin> set name"
    and ino: "ino = inode_on (sec d) s (node_inode node)" and dir: "mode ino AND 0x4000 \<noteq> 0"
    and es: "dir_blocks (sec d) (block_size s) es (take 12 (iblock ino))"
  shows "\<exists>d'. ext2_finddir rd fresh s node name d = Some (lookup name (dir_entries es (take 12 (iblock ino))), d') \<and>
    dev_ok d' \<and> sec d' = sec d"
proof -
  note fo = f [unfolded ext2_file_def, folded ino]
  obtain d1 where d1: "read_inode rd fresh s (node_inode node) d = Some (ino, d1)" "dev_ok d1" "sec d1 = sec d"
    by (rule block_device.read_inode_on [OF dev f fresh, folded ino]) (rule that)
  have "\<forall>b\<in>set (take 12 (iblock ino)). b \<noteq> 0 \<longrightarrow> block_ok valid (block_size s) b"
    using fo by (auto simp: in_set_conv_nth)
  then obtain d' where "find_in_blocks rd (block_size s) name (take 12 (iblock ino)) (fresh 2) d1 =
      Some (lookup name (dir_entries es (take 12 (iblock ino))), d')" "dev_ok d'" "sec d' = sec d"
    using block_device.find_in_blocks_lookup [OF dev(1) _ name d1(2), of "block_size s" "fresh 2" es "take 12 (iblock ino)"]
      fo fresh es d1(3) by auto
  then show ?thesis using d1(1) dir by (simp add: ext2_finddir_def)
qed

text \<open>An entry of length 0 that is not the one looked for: the scan never returns.\<close>

theorem zero_rec_len_never_returns:
  assumes "off < bs" "unat off + 8 \<le> length buf" "unat (buf ! (unat off + 6)) \<le> length buf - (unat off + 8)"
    and "strcmp_bytes (take (unat (buf ! (unat off + 6))) (drop (unat off + 8) buf) @ [0]) (name @ [0]) = Some c" "c \<noteq> 0"
    and "get16 (drop (unat off) buf) 4 = 0"
  shows "scan_entries bs buf name off = None"
proof (rule ccontr)
  assume "scan_entries bs buf name off \<noteq> None"
  then obtain r where r: "scan_entries bs buf name off = Some r" by blast
  have "(bs', buf', name', off') = (bs, buf, name, off) \<longrightarrow> False" if "scan_entries bs' buf' name' off' = Some r'"
    for bs' :: u32 and buf' name' :: "u8 list" and off' :: u32 and r'
    by (rule scan_entries.raw_induct [where P = "\<lambda>bs' buf' name' off' r. (bs', buf', name', off') = (bs, buf, name, off) \<longrightarrow> False",
          OF _ that]) (use assms in \<open>(auto simp: Let_def add.commute split: if_splits bind_splits; blast)\<close>)
  then show False using r by blast
qed

text \<open>Mounting: a disk with the magic number gets the root node of inode 2, any other disk leaves the driver without one.\<close>

theorem ext2_init_correct:
  assumes dev: "block_device rd wr sec dev_ok valid" "dev_ok d" "valid 2" "valid 3" "vfs_root s = None"
    and sb: "sb = ext2_superblock (sec d 2 @ sec d 3)" "log_block_size sb \<le> 20"
  shows "\<exists>s' d'. ext2_init rd fresh s d = Some (s', d') \<and> dev_ok d' \<and> sec d' = sec d \<and> superblock s' = sb \<and>
    (if magic sb = EXT2_MAGIC then unat (block_size s') = 1024 * 2 ^ unat (log_block_size sb) \<and>
       vfs_root s' = Some \<lparr>node_name = [0x2F], node_flags = VFS_DIRECTORY, node_inode = 2\<rparr>
     else vfs_root s' = None)"
proof -
  obtain d1 where d1: "rd 2 (take 512 fresh) d = (sec d 2, d1)" "dev_ok d1" "sec d1 = sec d"
    using block_device.rd_sector [OF dev(1,2,3)] by metis
  obtain d2 where d2: "rd 3 (take 512 (drop 512 fresh)) d1 = (sec d 3, d2)" "dev_ok d2" "sec d2 = sec d"
    using block_device.rd_sector [OF dev(1) d1(2) dev(4)] d1(3) by metis
  have "unat (log_block_size sb) \<le> 20" using sb(2) by (simp add: word_le_iff_unat)
  moreover have "(2 :: nat) ^ unat (log_block_size sb) \<le> 2 ^ 20" using calculation by (rule power_increasing) simp
  ultimately have "unat (push_bit (unat (log_block_size sb)) 1024 :: u32) = 1024 * 2 ^ unat (log_block_size sb)"
    unfolding unsigned_push_bit_eq by (simp add: push_bit_eq_mult take_bit_nat_eq_self)
  moreover have "ext2_init rd fresh s d = Some (if magic sb \<noteq> EXT2_MAGIC then s\<lparr>superblock := sb\<rparr>
      else s\<lparr>superblock := sb, block_size := push_bit (unat (log_block_size sb)) 1024,
        vfs_root := Some \<lparr>node_name = [0x2F], node_flags = VFS_DIRECTORY, node_inode = 2\<rparr>\<rparr>, d2)"
    using d1(1) d2(1) leD [OF sb(2)] by (simp add: ext2_init_def sb(1) [symmetric] Let_def)
  ultimately show ?thesis using d2(2,3) dev(5) by simp
qed

section \<open>An example\<close>

text \<open>A disk with blocks of 1024 bytes, the root directory as inode 2 in block 4, and in it a file of five bytes as inode 3.\<close>

definition small_inode :: "u16 \<Rightarrow> u32 \<Rightarrow> u32 \<Rightarrow> u8 list" where
  "small_inode m n b = le16 m @ le16 0 @ le32 n @ replicate 32 0 @ le32 b @ replicate 84 0"

definition small_entry :: dirent where
  "small_entry = \<lparr>d_inode = 3, d_type = 1, d_name = [97], d_pad = replicate 1015 0\<rparr>"

definition small_disk :: drive where
  "small_disk = blank_drive\<lparr>sectors := (\<lambda>_. replicate 512 0)(
     4 := replicate 8 0 @ le32 3 @ replicate 500 0,
     6 := replicate 128 0 @ small_inode 0x41ED 1024 4 @ small_inode 0x81A4 5 5 @ replicate 128 0,
     8 := take 512 (encode_dirent small_entry), 9 := drop 512 (encode_dirent small_entry),
     10 := [104, 101, 108, 108, 111] @ replicate 507 0)\<rparr>"

definition small_fs :: ext2_state where
  "small_fs = \<lparr>superblock = \<lparr>log_block_size = 0, inodes_per_group = 16, magic = EXT2_MAGIC\<rparr>, block_size = 1024, vfs_root = None\<rparr>"

lemma small_disk_ok: "drive_ok small_disk"
  by (simp add: drive_ok_def small_disk_def blank_drive_def small_inode_def le16_def le32_def small_entry_def)

lemma block_1024: "length (c (2 * b)) = 512 \<Longrightarrow> length (c (2 * b + 1)) = 512 \<Longrightarrow> block_bytes c 1024 b = c (2 * b) @ c (2 * b + 1)"
  using file_bytes_append [of c "2 * b" 0 512 512] file_chunk [of c "2 * b" 0 512] file_chunk [of c "2 * b" 512 512]
  by (simp add: block_bytes_def mult.commute)

lemma small_inode_read: "ext2_inode (small_inode m n b @ rest) = \<lparr>mode = m, isize = n, iblock = b # replicate 14 0\<rparr>"
proof -
  let ?x = "small_inode m n b @ rest"
  have len: "length (le16 y) = 2" "length (le32 z) = 4" for y z by (simp_all add: le16_def le32_def)
  have "get16 ?x 0 = m" using get_le(1) [of "[]" m] by (simp add: small_inode_def)
  moreover have "get32 ?x 4 = n"
    using get_le(2) [of "le16 m @ le16 0" n] by (simp add: small_inode_def len)
  moreover have "get32 ?x 40 = b"
    using get_le(2) [of "le16 m @ le16 0 @ le32 n @ replicate 32 0" b] by (simp add: small_inode_def len)
  moreover have "get32 ?x (44 + 4 * i) = 0" if "i < 14" for i
    using that by (auto simp: get32_def get16_def small_inode_def nth_append len)
  moreover have "[0..<15] = 0 # [1..<15]" by (simp add: upt_conv_Cons)
  moreover have "map (\<lambda>i. get32 ?x (40 + 4 * i)) [1..<15] = replicate 14 0"
    using calculation(4) by (intro nth_equalityI) simp_all
  ultimately show ?thesis by (simp add: ext2_inode_def)
qed

lemma small_blocks:
  "block_bytes (sectors small_disk) 1024 2 = replicate 8 0 @ le32 3 @ replicate 1012 0"
  "block_bytes (sectors small_disk) 1024 3 =
     replicate 128 0 @ small_inode 0x41ED 1024 4 @ small_inode 0x81A4 5 5 @ replicate 640 0"
  "block_bytes (sectors small_disk) 1024 4 = encode_dirent small_entry"
  "block_bytes (sectors small_disk) 1024 5 = [104, 101, 108, 108, 111] @ replicate 1019 0"
proof -
  have l: "length (sectors small_disk x) = 512" for x using small_disk_ok by (simp add: drive_ok_def)
  note b = block_1024 [of "sectors small_disk", OF l l]
  show "block_bytes (sectors small_disk) 1024 4 = encode_dirent small_entry"
    unfolding b by (simp add: small_disk_def)
qed (use block_1024 [of "sectors small_disk"] small_disk_ok in
    \<open>simp_all add: drive_ok_def small_disk_def replicate_add [symmetric]\<close>)

lemma small_inodes:
  "inode_on (sectors small_disk) small_fs 2 = \<lparr>mode = 0x41ED, isize = 1024, iblock = 4 # replicate 14 0\<rparr>"
  "inode_on (sectors small_disk) small_fs 3 = \<lparr>mode = 0x81A4, isize = 5, iblock = 5 # replicate 14 0\<rparr>"
  "inode_block (sectors small_disk) small_fs 2 = 3" "inode_block (sectors small_disk) small_fs 3 = 3"
proof -
  have t: "inode_table (replicate 8 0 @ le32 3 @ replicate 1012 0) 0 = 3"
    using get_le(2) [of "replicate 8 0" 3] by (simp add: inode_table_def)
  have len: "length (le16 y) = 2" "length (le32 z) = 4" for y z by (simp_all add: le16_def le32_def)
  show i: "inode_block (sectors small_disk) small_fs 2 = 3" "inode_block (sectors small_disk) small_fs 3 = 3"
    using t by (simp_all add: inode_block_def small_fs_def small_blocks group_block_def inode_group_def inode_index_def INODE_SIZE_def)
  show "inode_on (sectors small_disk) small_fs 2 = \<lparr>mode = 0x41ED, isize = 1024, iblock = 4 # replicate 14 0\<rparr>"
    "inode_on (sectors small_disk) small_fs 3 = \<lparr>mode = 0x81A4, isize = 5, iblock = 5 # replicate 14 0\<rparr>"
    using small_inode_read
    by (simp_all add: inode_on_def i) (simp_all add: small_fs_def small_blocks inode_index_def INODE_SIZE_def small_inode_def len)
qed

lemma small_files: "ext2_file lba_ok (sectors small_disk) small_fs 2" "ext2_file lba_ok (sectors small_disk) small_fs 3"
proof -
  have b: "block_ok lba_ok 1024 b" if "b \<le> 5" for b
  proof -
    have "lba_ok (b * 2 + of_nat i)" if "i < 2" for i
    proof -
      have "i = 0 \<or> i = 1" using that by auto
      moreover have "unat (b * 2) = unat b * 2" "unat (b * 2 + 1) = unat b * 2 + 1"
        using \<open>b \<le> 5\<close> by (simp_all add: word_le_iff_unat unat_word_ariths)
      ultimately show ?thesis using \<open>b \<le> 5\<close> by (auto simp: lba_ok_def word_less_iff_unat word_le_iff_unat)
    qed
    then show ?thesis by (simp add: block_ok_def)
  qed
  have "(4 # replicate 14 0) ! i \<le> (5 :: u32)" "(5 # replicate 14 0) ! i \<le> (5 :: u32)" if "i < 12" for i
    using that by (cases i; simp)+
  then show "ext2_file lba_ok (sectors small_disk) small_fs 2" "ext2_file lba_ok (sectors small_disk) small_fs 3"
    using b small_inodes by (simp_all add: ext2_file_def) (simp_all add: small_fs_def group_block_def inode_group_def)
qed

lemma small_fs_block: "block_size small_fs = 1024"
  by (simp add: small_fs_def)

theorem ext2_read_correct_witness:
  "\<exists>d'. ext2_read (ata_read_sector pio_drive) (\<lambda>_. replicate 1024 7) small_fs \<lparr>node_name = [97], node_flags = 1, node_inode = 3\<rparr>
     1 10 (replicate 10 9) small_disk = Some (4, [101, 108, 108, 111] @ replicate 6 9, d')"
proof -
  have "ext2_bytes (sectors small_disk) 1024 (5 # replicate 14 0) 1 4 = [101, 108, 108, 111]"
    using ext2_bytes_block [of 1 1024 4 "sectors small_disk" "5 # replicate 14 0"] by (simp add: small_blocks)
  then show ?thesis
    using ext2_read_correct [OF ata.block_device_axioms small_disk_ok, of small_fs "\<lparr>node_name = [97], node_flags = 1, node_inode = 3\<rparr>"
        "\<lambda>_. replicate 1024 7" 1 10 "replicate 10 9", OF _ _ _ _ refl refl] small_files(2)
    by (auto simp: small_inodes small_fs_block)
qed

theorem ext2_finddir_correct_witness:
  "\<exists>d'. ext2_finddir (ata_read_sector pio_drive) (\<lambda>_. replicate 1024 7) small_fs \<lparr>node_name = [47], node_flags = 2, node_inode = 2\<rparr>
     [97] small_disk = Some (Some \<lparr>node_name = [97], node_flags = 1, node_inode = 3\<rparr>, d')"
proof -
  define es :: "u32 \<Rightarrow> dirent list" where "es = (\<lambda>_. [small_entry])"
  have dir: "dir_blocks (sectors small_disk) 1024 es (take 12 (4 # replicate 14 0))"
    by (auto simp: es_def dir_blocks_def small_blocks small_entry_def dirent_ok_def)
  have "lookup [97] (dir_entries es (take 12 (4 # replicate 14 0))) = Some \<lparr>node_name = [97], node_flags = 1, node_inode = 3\<rparr>"
    by (simp add: es_def dir_entries_def lookup_def small_entry_def dirent_node_def VFS_FILE_def)
  then show ?thesis
    using ext2_finddir_correct [OF ata.block_device_axioms small_disk_ok, of small_fs "\<lparr>node_name = [47], node_flags = 2, node_inode = 2\<rparr>"
        "\<lambda>_. replicate 1024 7" "[97]", OF _ _ _ refl, of es] small_files(1) dir
    by (auto simp: small_inodes small_fs_block)
qed

end
