(* ===== verification/Terminal.thy ===== *)
theory Terminal
  imports Idt Vfs
begin

text \<open>
  The terminal of the shell (src/kernel/shell.c, down to \<open>shell_print\<close>): a grid of characters, its image in the pixel buffer
  of the shell window, and the echo on the text screen and the serial line. The cells and the pixels are arrays of their own;
  \<open>pixels\<close> is what stands behind the buffer pointer of the shell window, the pointer and the size of the window are in
  \<open>Window\<close>. The result None is an access outside of the cells, or a serial line that never gets ready.
\<close>

section \<open>State\<close>

record terminal =
  shell_window :: u64
  term_row :: u32
  term_col :: u32
  term_cols :: u32
  term_rows :: u32
  term_cells :: u64
  chars :: "u8 list"
  pixels :: "u32 carray"

definition SHELL_CHAR_W :: u32 where "SHELL_CHAR_W = 8"
definition SHELL_CHAR_H :: u32 where "SHELL_CHAR_H = 8"
definition SHELL_BG_COLOR :: u32 where "SHELL_BG_COLOR = 0"
definition SHELL_FG_COLOR :: u32 where "SHELL_FG_COLOR = 0xFFFFFFFF"

text \<open>The terminal and the desktop; the window has a buffer, and its width and height.\<close>

type_synonym term_state = "terminal \<times> win_state"

definition has_buffer :: "term_state \<Rightarrow> bool" where
  "has_buffer = (\<lambda>(t, w). shell_window t \<noteq> 0 \<and> win_buffer (wins w (shell_window t)) \<noteq> 0)"

definition shell_w :: "term_state \<Rightarrow> u32" where
  "shell_w = (\<lambda>(t, w). win_w (wins w (shell_window t)))"

definition client_h :: "term_state \<Rightarrow> u32" where
  "client_h = (\<lambda>(t, w). win_h (wins w (shell_window t)) - 25)"

section \<open>Cells and pixels\<close>

text \<open>The index of a pixel is computed in 64 bits here, and in 32 bits where a character is drawn.\<close>

definition clear_pixel :: "u32 \<Rightarrow> u32 \<Rightarrow> u32 \<Rightarrow> nat \<Rightarrow> nat \<Rightarrow> u32 carray \<Rightarrow> u32 carray" where
  "clear_pixel w px py y x buf = buf(unat (ucast (py + of_nat y) * ucast w + ucast px :: u64) + x := SHELL_BG_COLOR)"

definition shell_clear_cell_pixels :: "u32 \<Rightarrow> u32 \<Rightarrow> term_state \<Rightarrow> term_state" where
  "shell_clear_cell_pixels r0 c0 s =
     (if \<not> has_buffer s then s
      else let px = c0 * SHELL_CHAR_W; py = r0 * SHELL_CHAR_H
           in (fst s\<lparr>pixels := fold (\<lambda>y. fold (clear_pixel (shell_w s) px py y) [0..<unat SHELL_CHAR_W]) [0..<unat SHELL_CHAR_H]
                  (pixels (fst s))\<rparr>, snd s))"

definition draw_cell :: "u8 \<Rightarrow> u32 \<Rightarrow> u32 \<Rightarrow> u32 \<Rightarrow> terminal \<Rightarrow> terminal" where
  "draw_cell c w r0 c0 t =
     t\<lparr>pixels := the (graphics_draw_char (Some (pixels t)) w (c0 * SHELL_CHAR_W) (r0 * SHELL_CHAR_H) c SHELL_FG_COLOR)\<rparr>"

definition shell_render_cell :: "u32 \<Rightarrow> u32 \<Rightarrow> term_state \<Rightarrow> term_state" where
  "shell_render_cell r0 c0 s =
     (if \<not> has_buffer s \<or> term_cells (fst s) = 0 then s
      else if r0 \<ge> term_rows (fst s) \<or> c0 \<ge> term_cols (fst s) then s
      else let px = c0 * SHELL_CHAR_W; py = r0 * SHELL_CHAR_H;
               (t, w) = shell_clear_cell_pixels r0 c0 s
           in (draw_cell (chars t ! unat (r0 * term_cols t + c0)) (shell_w s) r0 c0 t,
               window_mark_region_dirty (shell_window t) (sint px) (sint py) (sint SHELL_CHAR_W) (sint SHELL_CHAR_H) w))"

definition mark_client_dirty :: "term_state \<Rightarrow> term_state" where
  "mark_client_dirty s = (fst s, window_mark_region_dirty (shell_window (fst s)) 0 0 (sint (shell_w s)) (sint (client_h s)) (snd s))"

definition render_char :: "u32 \<Rightarrow> nat \<Rightarrow> nat \<Rightarrow> terminal \<Rightarrow> terminal" where
  "render_char w r0 c0 t =
     (let c = chars t ! unat (of_nat r0 * term_cols t + of_nat c0)
      in if c = 0 \<or> c = 32 then t else draw_cell c w (of_nat r0) (of_nat c0) t)"

definition shell_render_all :: "term_state \<Rightarrow> term_state" where
  "shell_render_all s =
     (if \<not> has_buffer s \<or> term_cells (fst s) = 0 then s
      else let t = fst s;
               t = t\<lparr>pixels := (\<lambda>i. if i < unat (shell_w s * client_h s) then 0 else pixels t i)\<rparr>;
               t = fold (\<lambda>r0. fold (render_char (shell_w s) r0) [0..<unat (term_cols t)]) [0..<unat (term_rows t)] t
           in mark_client_dirty (t, snd s))"

section \<open>Scrolling\<close>

text \<open>\<open>memmove\<close> and \<open>memset\<close> on the cells; a range that is not inside them gives None.\<close>

definition move_cells :: "nat \<Rightarrow> nat \<Rightarrow> nat \<Rightarrow> u8 list \<Rightarrow> u8 list option" where
  "move_cells dst src n cs =
     (if dst + n \<le> length cs \<and> src + n \<le> length cs then Some (patch cs dst (take n (drop src cs))) else None)"

definition fill_cells_with :: "nat \<Rightarrow> nat \<Rightarrow> u8 \<Rightarrow> u8 list \<Rightarrow> u8 list option" where
  "fill_cells_with dst n c cs = (if dst + n \<le> length cs then Some (patch cs dst (replicate n c)) else None)"

definition put_cell_char :: "u32 \<Rightarrow> u8 \<Rightarrow> u8 list \<Rightarrow> u8 list option" where
  "put_cell_char i c cs = (if unat i < length cs then Some (cs[unat i := c]) else None)"

definition scroll_pixels :: "u32 \<Rightarrow> u32 \<Rightarrow> u32 carray \<Rightarrow> u32 carray" where
  "scroll_pixels w h buf =
     (let preserved = h - SHELL_CHAR_H;
          buf = (\<lambda>i. if i < unat preserved * unat w then buf (i + unat SHELL_CHAR_H * unat w) else buf i)
      in fold (\<lambda>y. fold (\<lambda>x buf. buf(y * unat w + x := SHELL_BG_COLOR)) [0..<unat w]) [unat preserved..<unat h] buf)"

definition shell_scroll_up :: "term_state \<Rightarrow> term_state option" where
  "shell_scroll_up s =
     (let t = fst s in
      if term_cells t = 0 \<or> term_rows t = 0 \<or> \<not> has_buffer s then Some s
      else let n = (term_rows t - 1) * term_cols t
           in Option.bind (move_cells 0 (unat (term_cols t)) (unat n) (chars t)) (\<lambda>cs.
              Option.bind (fill_cells_with (unat n) (unat (term_cols t)) 32 cs) (\<lambda>cs.
                Some (mark_client_dirty (t\<lparr>chars := cs, pixels := scroll_pixels (shell_w s) (client_h s) (pixels t)\<rparr>, snd s)))))"

definition shell_advance_line :: "term_state \<Rightarrow> term_state option" where
  "shell_advance_line s =
     (let t = fst s in
      if term_rows t = 0 then Some s
      else let t = t\<lparr>term_col := 0, term_row := term_row t + 1\<rparr>
           in if term_row t \<ge> term_rows t then shell_scroll_up (t\<lparr>term_row := term_rows t - 1\<rparr>, snd s)
              else Some (t, snd s))"

text \<open>A new window: the grid that fits into it, all blank. \<open>junk\<close> is what the fresh block held.\<close>

definition shell_set_window :: "u64 \<Rightarrow> u8 carray \<Rightarrow> term_state \<Rightarrow> term_state option" where
  "shell_set_window win junk s =
     (let t = (fst s)\<lparr>shell_window := win, term_row := 0, term_col := 0\<rparr>; w = snd s in
      if win = 0 then Some (t, w)
      else let t = t\<lparr>term_cols := shell_w (t, w) div SHELL_CHAR_W, term_rows := client_h (t, w) div SHELL_CHAR_H\<rparr>;
               n = term_rows t * term_cols t
           in Option.bind (if term_cells t \<noteq> 0 then map_option (\<lambda>h. w\<lparr>win_heap := h\<rparr>) (kfree (term_cells t) (win_heap w)) else Some w)
                (\<lambda>w. Option.bind (kmalloc (ucast n) (win_heap w)) (\<lambda>(p, h).
                  if p = 0 then None
                  else Option.bind (fill_cells_with 0 (unat n) 32 (map junk [0..<unat n])) (\<lambda>cs.
                    Some (shell_render_all (t\<lparr>term_cells := p, chars := cs\<rparr>, w\<lparr>win_heap := h\<rparr>))))))"

section \<open>Characters\<close>

text \<open>What a character does to the terminal alone.\<close>

definition set_cell :: "u8 \<Rightarrow> term_state \<Rightarrow> term_state option" where
  "set_cell c s =
     (let t = fst s in
      if term_cells t = 0 then Some s
      else Option.bind (put_cell_char (term_row t * term_cols t + term_col t) c (chars t)) (\<lambda>cs.
             Some (shell_render_cell (term_row t) (term_col t) (t\<lparr>chars := cs\<rparr>, snd s))))"

definition move_right :: "term_state \<Rightarrow> term_state option" where
  "move_right s =
     (let t = (fst s)\<lparr>term_col := term_col (fst s) + 1\<rparr>
      in if term_cols t \<noteq> 0 \<and> term_col t \<ge> term_cols t then shell_advance_line (t, snd s) else Some (t, snd s))"

definition term_put :: "u8 \<Rightarrow> term_state \<Rightarrow> term_state option" where
  "term_put c s =
     (if c = 10 then shell_advance_line s
      else if c = 8
      then if term_col (fst s) > 0 then set_cell 32 ((fst s)\<lparr>term_col := term_col (fst s) - 1\<rparr>, snd s) else Some s
      else Option.bind (set_cell c s) move_right)"

text \<open>The echo: a string of one character, to the screen and to the line. A backspace is not echoed.\<close>

type_synonym ('d, 'h) term_machine = "terminal \<times> ('d, 'h) machine"

definition echo :: "'d port_io \<Rightarrow> u8 \<Rightarrow> 'd tty_state \<Rightarrow> 'd tty_state option" where
  "echo io c = (\<lambda>(v, d). Option.bind (vga_print (\<lambda>i. if i = 0 then c else 0) v) (\<lambda>v.
     map_option (Pair v) (serial_print io (\<lambda>i. if i = 0 then c else 0) d)))"

definition on_terminal :: "(term_state \<Rightarrow> term_state option) \<Rightarrow> ('d, 'h) term_machine \<Rightarrow> ('d, 'h) term_machine option" where
  "on_terminal f = (\<lambda>(t, d, s). map_option (\<lambda>(t', w). (t', d, on_kern (\<lambda>k. k\<lparr>desktop := w\<rparr>) s)) (f (t, desktop (kern_of s))))"

definition shell_putchar :: "'d port_io \<Rightarrow> u8 \<Rightarrow> ('d, 'h) term_machine \<Rightarrow> ('d, 'h) term_machine option" where
  "shell_putchar io c = (\<lambda>(t, d, s).
     if c = 8 then on_terminal (term_put c) (t, d, s)
     else Option.bind (echo io c (screen_of s, d)) (\<lambda>(v, d). on_terminal (term_put c) (t, d, s\<lparr>screen_of := v\<rparr>)))"

definition shell_print :: "'d port_io \<Rightarrow> u8 carray \<Rightarrow> ('d, 'h) term_machine \<Rightarrow> ('d, 'h) term_machine option" where
  "shell_print io str = print_from (shell_putchar io) str 0"

text \<open>Hexadecimal without leading zeros, and decimal through a buffer of 21 characters.\<close>

fun shell_print_nibbles :: "'d port_io \<Rightarrow> nat \<Rightarrow> u64 \<Rightarrow> bool \<Rightarrow> ('d, 'h) term_machine \<Rightarrow> ('d, 'h) term_machine option" where
  "shell_print_nibbles io 0 val started m = Some m"
| "shell_print_nibbles io (Suc k) val started m =
     (let nibble = drop_bit (4 * k) val AND 0xF
      in if nibble > 0 \<or> started \<or> k = 0
         then Option.bind (shell_putchar io (hex_char nibble) m) (shell_print_nibbles io k val True)
         else shell_print_nibbles io k val started m)"

definition shell_print_hex :: "'d port_io \<Rightarrow> u64 \<Rightarrow> ('d, 'h) term_machine \<Rightarrow> ('d, 'h) term_machine option" where
  "shell_print_hex io val = shell_print_nibbles io 16 val False"

function shell_digits :: "u64 \<Rightarrow> nat \<Rightarrow> u8 carray \<Rightarrow> nat \<times> u8 carray" where
  "shell_digits val i buf =
     (if val > 0 \<and> i < 21 then shell_digits (val div 10) (i + 1) (buf(i := 48 + ucast (val mod 10))) else (i, buf))"
  by pat_completeness auto
termination
  by (relation "measure (\<lambda>(val, i, buf). 21 - i)") auto

declare shell_digits.simps [simp del]

definition shell_print_dec :: "'d port_io \<Rightarrow> u8 carray \<Rightarrow> u64 \<Rightarrow> ('d, 'h) term_machine \<Rightarrow> ('d, 'h) term_machine option" where
  "shell_print_dec io junk val m =
     (if val = 0 then shell_putchar io 48 m
      else let (i, buf) = shell_digits val 0 junk in print_reverse (shell_putchar io) buf i m)"

section \<open>The picture\<close>

text \<open>The window holds a grid of whole cells and pixel indices fit 32 bits.\<close>

definition fits :: "term_state \<Rightarrow> bool" where
  "fits s \<longleftrightarrow> has_buffer s \<and> term_cells (fst s) \<noteq> 0 \<and> unat (shell_w s) * unat (client_h s) < 2 ^ 32 \<and>
     unat (term_cols (fst s)) = unat (shell_w s) div 8 \<and> unat (term_rows (fst s)) = unat (client_h s) div 8 \<and>
     0 < unat (term_cols (fst s)) \<and> 0 < unat (term_rows (fst s)) \<and>
     length (chars (fst s)) = unat (term_rows (fst s)) * unat (term_cols (fst s))"

definition glyph :: "u8 \<Rightarrow> nat \<Rightarrow> nat \<Rightarrow> bool" where
  "glyph c x y \<longleftrightarrow> c < 128 \<and> font8x8_basic c ! y AND push_bit (7 - x) 1 \<noteq> 0"

definition cell_color :: "u8 \<Rightarrow> nat \<Rightarrow> nat \<Rightarrow> u32" where
  "cell_color c x y = (if glyph c (x mod 8) (y mod 8) then SHELL_FG_COLOR else SHELL_BG_COLOR)"

text \<open>Every pixel of the client area shows its cell; what is left at the right and at the bottom is background.\<close>

definition picture :: "nat \<Rightarrow> nat \<Rightarrow> u8 list \<Rightarrow> nat \<Rightarrow> nat \<Rightarrow> u32" where
  "picture W H cs x y = (if x div 8 < W \<and> y div 8 < H then cell_color (cs ! (y div 8 * W + x div 8)) x y else SHELL_BG_COLOR)"

definition shows_picture :: "term_state \<Rightarrow> bool" where
  "shows_picture s \<longleftrightarrow> (\<forall>x<unat (shell_w s). \<forall>y<unat (client_h s). pixels (fst s) (y * unat (shell_w s) + x) =
     picture (unat (term_cols (fst s))) (unat (term_rows (fst s))) (chars (fst s)) x y)"

text \<open>A loop that stores one value at some indices.\<close>

lemma fold_store:
  "fold (\<lambda>k b. if P k then b(f k := v) else b) ks = (\<lambda>b i. if \<exists>k\<in>set ks. P k \<and> f k = i then v else b i)"
proof
  fix b
  show "fold (\<lambda>k b. if P k then b(f k := v) else b) ks b = (\<lambda>i. if \<exists>k\<in>set ks. P k \<and> f k = i then v else b i)"
    by (induction ks arbitrary: b) (auto simp: fun_eq_iff)
qed

lemma fold_fill: "fold (\<lambda>k b i. if R k i then v else b i) ks = (\<lambda>b i. if \<exists>k\<in>set ks. R k i then v else b i)"
proof
  fix b
  show "fold (\<lambda>k b i. if R k i then v else b i) ks b = (\<lambda>i. if \<exists>k\<in>set ks. R k i then v else b i)"
    by (induction ks arbitrary: b) (auto simp: fun_eq_iff)
qed

lemma cell_index:
  assumes "r * 8 + y < h" "c * 8 + x < w" "w * h < (2 :: nat) ^ 32"
  shows "(r * 8 + y) * w + (c * 8 + x) < 2 ^ 32" "r * 8 + y < 2 ^ 32" "c * 8 + x < 2 ^ 32"
proof -
  have "(r * 8 + y) * w + (c * 8 + x) < (r * 8 + y) * w + w" using assms(2) by simp
  also have "\<dots> = Suc (r * 8 + y) * w" by simp
  also have "\<dots> \<le> h * w" using assms(1) by (intro mult_le_mono1) simp
  finally show lt: "(r * 8 + y) * w + (c * 8 + x) < 2 ^ 32" using assms(3) by (simp add: mult.commute)
  have "(r * 8 + y) * 1 \<le> (r * 8 + y) * w" using assms(2) by (intro mult_le_mono2) simp
  then have "r * 8 + y \<le> (r * 8 + y) * w" by (simp only: mult_1_right)
  then show "r * 8 + y < 2 ^ 32" using lt by linarith
  show "c * 8 + x < 2 ^ 32" using lt by simp
qed

text \<open>Cell \<open>(r, c)\<close> of a window of \<open>w * h\<close> pixels, its pixel \<open>(x, y)\<close>, and the two ways the code computes the index.\<close>

lemma pixel_indices:
  assumes "unat r * 8 + y < unat h" "unat c * 8 + x < unat w" "unat w * unat h < 2 ^ 32" "y < 8" "x < 8"
  shows "unat (ucast (r * 8 + of_nat y :: u32) * ucast w + ucast (c * 8 :: u32) :: u64) + x = (unat r * 8 + y) * unat w + (unat c * 8 + x)"
    "unat ((r * 8 + of_nat y) * w + (c * 8 + of_nat x) :: u32) = (unat r * 8 + y) * unat w + (unat c * 8 + x)"
    "unat (c * 8 + of_nat x :: u32) = unat c * 8 + x"
proof -
  note b = cell_index [OF assms(1,2,3)]
  have r: "unat (r * 8 + of_nat y :: u32) = unat r * 8 + y" and c: "unat (c * 8 + of_nat x :: u32) = unat c * 8 + x"
    and c8: "unat (c * 8 :: u32) = unat c * 8"
    using b(2,3) by (simp_all add: unat_word_ariths unat_of_nat mod_mult_left_eq mod_add_eq mod_add_left_eq mod_add_right_eq)
  show "unat (c * 8 + of_nat x :: u32) = unat c * 8 + x" by (rule c)
  show "unat ((r * 8 + of_nat y) * w + (c * 8 + of_nat x) :: u32) = (unat r * 8 + y) * unat w + (unat c * 8 + x)"
  proof -
    have "unat (a * w + e) = (unat a * unat w + unat e) mod 2 ^ 32" for a e :: u32
      by (simp add: unat_word_ariths mod_add_left_eq)
    then have "unat ((r * 8 + of_nat y) * w + (c * 8 + of_nat x) :: u32) = ((unat r * 8 + y) * unat w + (unat c * 8 + x)) mod 2 ^ 32"
      by (simp only: r c)
    then show ?thesis using b(1) by (simp only: mod_less)
  qed
  have u: "unat (ucast z :: u64) = unat z" for z :: u32
    using unsigned_less [of z, where 'a = nat] by (intro unat_ucast_small) simp
  have "unat (a * e + f) = (unat a * unat e + unat f) mod 2 ^ 64" for a e f :: u64
    by (simp add: unat_word_ariths mod_add_left_eq)
  then have "unat (ucast (r * 8 + of_nat y :: u32) * ucast w + ucast (c * 8 :: u32) :: u64) =
      ((unat r * 8 + y) * unat w + unat c * 8) mod 2 ^ 64"
    by (simp only: u r c8)
  also have "\<dots> = (unat r * 8 + y) * unat w + unat c * 8" using b(1) by (intro mod_less) simp
  finally show "unat (ucast (r * 8 + of_nat y :: u32) * ucast w + ucast (c * 8 :: u32) :: u64) + x = (unat r * 8 + y) * unat w + (unat c * 8 + x)"
    by (simp only: add.assoc)
qed

lemma in_cell:
  fixes x y w r c :: nat
  assumes "x < w" "c * 8 + 8 \<le> w"
  shows "(\<exists>j<8. \<exists>i<8. P j i \<and> (r * 8 + j) * w + (c * 8 + i) = y * w + x) \<longleftrightarrow> x div 8 = c \<and> y div 8 = r \<and> P (y mod 8) (x mod 8)"
proof
  assume "\<exists>j<8. \<exists>i<8. P j i \<and> (r * 8 + j) * w + (c * 8 + i) = y * w + x"
  then obtain j i where ji: "j < 8" "i < 8" "P j i" "(r * 8 + j) * w + (c * 8 + i) = y * w + x" by blast
  have "c * 8 + i < w" using assms(2) ji(2) by linarith
  then have "r * 8 + j = y \<and> c * 8 + i = x" by (rule row_col_unique [OF _ _ ji(4)]) (rule assms(1))
  then show "x div 8 = c \<and> y div 8 = r \<and> P (y mod 8) (x mod 8)" using ji by auto
next
  assume "x div 8 = c \<and> y div 8 = r \<and> P (y mod 8) (x mod 8)"
  moreover have "r * 8 + y mod 8 = y" "c * 8 + x mod 8 = x" if "x div 8 = c" "y div 8 = r"
    using that div_mult_mod_eq [of y 8] div_mult_mod_eq [of x 8] by auto
  ultimately show "\<exists>j<8. \<exists>i<8. P j i \<and> (r * 8 + j) * w + (c * 8 + i) = y * w + x"
    by (intro exI [of _ "y mod 8"] conjI exI [of _ "x mod 8"]) simp_all
qed

definition cell_in :: "term_state \<Rightarrow> u32 \<Rightarrow> u32 \<Rightarrow> bool" where
  "cell_in s r c \<longleftrightarrow> r < term_rows (fst s) \<and> c < term_cols (fst s)"

lemma cell_room:
  assumes "fits s" "cell_in s r c" "x < 8" "y < 8"
  shows "unat r * 8 + y < unat (client_h s)" "unat c * 8 + x < unat (shell_w s)" "unat (shell_w s) * unat (client_h s) < 2 ^ 32"
    "unat c * 8 + 8 \<le> unat (shell_w s)"
proof -
  have "unat r < unat (client_h s) div 8" "unat c < unat (shell_w s) div 8"
    using assms(1,2) by (simp_all add: fits_def cell_in_def word_less_iff_unat)
  then show "unat r * 8 + y < unat (client_h s)" "unat c * 8 + x < unat (shell_w s)" "unat c * 8 + 8 \<le> unat (shell_w s)"
    using assms(3,4) by linarith+
  show "unat (shell_w s) * unat (client_h s) < 2 ^ 32" using assms(1) by (simp add: fits_def)
qed

lemma clear_cell_pixel:
  assumes s: "fits s" "cell_in s r c" and xy: "x < unat (shell_w s)"
  shows "pixels (fst (shell_clear_cell_pixels r c s)) (y * unat (shell_w s) + x) =
    (if x div 8 = unat c \<and> y div 8 = unat r then SHELL_BG_COLOR else pixels (fst s) (y * unat (shell_w s) + x))"
proof -
  let ?w = "shell_w s"
  define f where "f = (\<lambda>j i. unat (ucast (r * 8 + of_nat j :: u32) * ucast ?w + ucast (c * 8 :: u32) :: u64) + i)"
  have turn: "clear_pixel ?w (c * 8) (r * 8) j = (\<lambda>i b. if True then b(f j i := SHELL_BG_COLOR) else b)" for j
    by (simp add: clear_pixel_def f_def fun_eq_iff)
  have "fold (\<lambda>j. fold (clear_pixel ?w (c * 8) (r * 8) j) [0..<8]) [0..<8] =
      (\<lambda>b k. if \<exists>j\<in>set [0..<8]. \<exists>i\<in>set [0..<8]. True \<and> f j i = k then SHELL_BG_COLOR else b k)"
    unfolding turn fold_store fold_fill ..
  moreover have "f j i = (unat r * 8 + j) * unat ?w + (unat c * 8 + i)" if "j < 8" "i < 8" for i j
    unfolding f_def using pixel_indices(1) [OF cell_room(1-3) [OF s that(2,1)] that] .
  moreover have "(\<exists>j<8. \<exists>i<8. True \<and> (unat r * 8 + j) * unat ?w + (unat c * 8 + i) = y * unat ?w + x) \<longleftrightarrow>
      x div 8 = unat c \<and> y div 8 = unat r \<and> True"
    by (rule in_cell [OF xy cell_room(4) [OF s, where x = 0 and y = 0]]) simp_all
  ultimately show ?thesis
    using s(1) by (auto simp: shell_clear_cell_pixels_def fits_def Let_def SHELL_CHAR_W_def SHELL_CHAR_H_def)
qed

lemma draw_cell_pixel:
  assumes s: "fits s" "cell_in s r c" and xy: "x < unat (shell_w s)"
  shows "pixels (draw_cell ch (shell_w s) r c t) (y * unat (shell_w s) + x) =
    (if x div 8 = unat c \<and> y div 8 = unat r \<and> glyph ch (x mod 8) (y mod 8) then SHELL_FG_COLOR else pixels t (y * unat (shell_w s) + x))"
proof (cases "ch < 128")
  case False
  then show ?thesis by (simp add: draw_cell_def graphics_draw_char_def glyph_def)
next
  case True
  let ?w = "shell_w s"
  define f where "f = (\<lambda>j i. unat ((r * 8 + of_nat j) * ?w + (c * 8 + of_nat i) :: u32))"
  define P where "P = (\<lambda>j i. font8x8_basic ch ! j AND push_bit (7 - i) 1 \<noteq> 0)"
  have turn: "char_pixel ch ?w (c * 8) (r * 8) SHELL_FG_COLOR j =
      (\<lambda>i b. if P j i \<and> c * 8 + of_nat i < ?w then b(f j i := SHELL_FG_COLOR) else b)" for j
    by (simp add: char_pixel_def f_def P_def Let_def fun_eq_iff)
  have "fold (\<lambda>j. fold (char_pixel ch ?w (c * 8) (r * 8) SHELL_FG_COLOR j) [0..<8]) [0..<8] =
      (\<lambda>b k. if \<exists>j\<in>set [0..<8]. \<exists>i\<in>set [0..<8]. (P j i \<and> c * 8 + of_nat i < ?w) \<and> f j i = k then SHELL_FG_COLOR else b k)"
    unfolding turn fold_store fold_fill ..
  moreover have "(\<exists>j\<in>set [0..<8]. \<exists>i\<in>set [0..<8]. (P j i \<and> c * 8 + of_nat i < ?w) \<and> f j i = y * unat ?w + x) \<longleftrightarrow>
      x div 8 = unat c \<and> y div 8 = unat r \<and> P (y mod 8) (x mod 8)"
  proof -
    have "f j i = (unat r * 8 + j) * unat ?w + (unat c * 8 + i) \<and> c * 8 + of_nat i < ?w" if "j < 8" "i < 8" for i j
      unfolding f_def using pixel_indices(2,3) [OF cell_room(1-3) [OF s that(2,1)] that] cell_room(2) [OF s that(2,1)]
      by (simp add: word_less_iff_unat)
    then have "(\<exists>j\<in>set [0..<8]. \<exists>i\<in>set [0..<8]. (P j i \<and> c * 8 + of_nat i < ?w) \<and> f j i = y * unat ?w + x) \<longleftrightarrow>
        (\<exists>j<8. \<exists>i<8. P j i \<and> (unat r * 8 + j) * unat ?w + (unat c * 8 + i) = y * unat ?w + x)"
      by (simp add: Bex_def cong: conj_cong)
    also have "\<dots> \<longleftrightarrow> x div 8 = unat c \<and> y div 8 = unat r \<and> P (y mod 8) (x mod 8)"
      by (rule in_cell [OF xy cell_room(4) [OF s, where x = 0 and y = 0]]) simp_all
    finally show ?thesis .
  qed
  moreover have "glyph ch i j = P j i" for i j using True by (simp add: glyph_def P_def)
  moreover have "pixels (draw_cell ch ?w r c t) =
      fold (\<lambda>j. fold (char_pixel ch ?w (c * 8) (r * 8) SHELL_FG_COLOR j) [0..<8]) [0..<8] (pixels t)"
  proof -
    have "\<not> 128 \<le> ch" using True by simp
    then show ?thesis by (simp add: draw_cell_def graphics_draw_char_def SHELL_CHAR_W_def SHELL_CHAR_H_def)
  qed
  ultimately show ?thesis by simp
qed

text \<open>Drawing a cell changes its own pixels only, and they show its character then.\<close>

definition drawn :: "term_state \<Rightarrow> nat \<Rightarrow> nat \<Rightarrow> u32" where
  "drawn s x y = pixels (fst s) (y * unat (shell_w s) + x)"

definition same_window :: "term_state \<Rightarrow> term_state \<Rightarrow> bool" where
  "same_window s s' \<longleftrightarrow> has_buffer s' = has_buffer s \<and> shell_w s' = shell_w s \<and> client_h s' = client_h s \<and>
     shell_window (fst s') = shell_window (fst s) \<and> term_cells (fst s') = term_cells (fst s) \<and>
     term_cols (fst s') = term_cols (fst s) \<and> term_rows (fst s') = term_rows (fst s) \<and>
     length (chars (fst s')) = length (chars (fst s))"

lemma same_window_refl [simp]: "same_window s s"
  and same_window_trans: "same_window s s' \<Longrightarrow> same_window s' s'' \<Longrightarrow> same_window s s''"
  and same_window_fits: "same_window s s' \<Longrightarrow> fits s' = fits s"
  by (auto simp: same_window_def fits_def)

lemma mark_frame [simp]:
  "win_buffer (wins (window_mark_region_dirty p x y w h d) q) = win_buffer (wins d q)"
  "win_w (wins (window_mark_region_dirty p x y w h d) q) = win_w (wins d q)"
  "win_h (wins (window_mark_region_dirty p x y w h d) q) = win_h (wins d q)"
  by (simp_all add: window_mark_region_dirty_def Let_def)

lemma mark_client_same: "same_window s (mark_client_dirty s)" "fst (mark_client_dirty s) = fst s"
  by (simp_all add: same_window_def mark_client_dirty_def has_buffer_def shell_w_def client_h_def split_beta)

lemma same_window_terminal:
  "shell_window t = shell_window (fst s) \<Longrightarrow> term_cells t = term_cells (fst s) \<Longrightarrow> term_cols t = term_cols (fst s) \<Longrightarrow>
   term_rows t = term_rows (fst s) \<Longrightarrow> length (chars t) = length (chars (fst s)) \<Longrightarrow> same_window s (t, snd s)"
  by (simp add: same_window_def has_buffer_def shell_w_def client_h_def split_beta)

lemma clear_cell_fields [simp]:
  "shell_window (fst (shell_clear_cell_pixels r c s)) = shell_window (fst s)"
  "term_cells (fst (shell_clear_cell_pixels r c s)) = term_cells (fst s)"
  "term_cols (fst (shell_clear_cell_pixels r c s)) = term_cols (fst s)"
  "term_rows (fst (shell_clear_cell_pixels r c s)) = term_rows (fst s)"
  "term_row (fst (shell_clear_cell_pixels r c s)) = term_row (fst s)"
  "term_col (fst (shell_clear_cell_pixels r c s)) = term_col (fst s)"
  "chars (fst (shell_clear_cell_pixels r c s)) = chars (fst s)"
  "snd (shell_clear_cell_pixels r c s) = snd s"
  by (simp_all add: shell_clear_cell_pixels_def Let_def)

lemma render_fields [simp]:
  "chars (fst (shell_render_cell r c s)) = chars (fst s)"
  "term_row (fst (shell_render_cell r c s)) = term_row (fst s)"
  "term_col (fst (shell_render_cell r c s)) = term_col (fst s)"
  "same_window s (shell_render_cell r c s)"
  by (simp_all add: shell_render_cell_def Let_def split_beta draw_cell_def same_window_def has_buffer_def shell_w_def client_h_def)

lemma render_cell_drawn:
  assumes s: "fits s" "cell_in s r c" and xy: "x < unat (shell_w s)"
  shows "drawn (shell_render_cell r c s) x y =
    (if x div 8 = unat c \<and> y div 8 = unat r then cell_color (chars (fst s) ! unat (r * term_cols (fst s) + c)) x y else drawn s x y)"
proof -
  have "\<not> (r \<ge> term_rows (fst s) \<or> c \<ge> term_cols (fst s))" using s(2) by (simp add: cell_in_def not_le)
  moreover have "shell_w (shell_render_cell r c s) = shell_w s" using render_fields(4) [of s r c] by (simp only: same_window_def)
  ultimately show ?thesis
    using s(1) draw_cell_pixel [OF s xy] clear_cell_pixel [OF s xy, of y]
    by (simp add: shell_render_cell_def fits_def Let_def split_beta drawn_def cell_color_def)
qed

lemma cell_number:
  assumes "fits s" "cell_in s r c"
  shows "unat (r * term_cols (fst s) + c) = unat r * unat (term_cols (fst s)) + unat c"
    "unat r * unat (term_cols (fst s)) + unat c < length (chars (fst s))"
proof -
  have lt: "unat r < unat (term_rows (fst s))" "unat c < unat (term_cols (fst s))"
    using assms(2) by (simp_all add: cell_in_def word_less_iff_unat)
  have "unat r * unat (term_cols (fst s)) + unat c < Suc (unat r) * unat (term_cols (fst s))" using lt by simp
  also have "\<dots> \<le> unat (term_rows (fst s)) * unat (term_cols (fst s))" using lt(1) by (intro mult_le_mono1) simp
  finally show b: "unat r * unat (term_cols (fst s)) + unat c < length (chars (fst s))" using assms(1) by (simp add: fits_def)
  have "unat (term_rows (fst s)) * unat (term_cols (fst s)) \<le> unat (client_h s) * unat (shell_w s)"
    using assms(1) by (intro mult_le_mono) (auto simp: fits_def)
  also have "\<dots> < 2 ^ 32" using assms(1) by (simp add: fits_def mult.commute)
  finally have "unat r * unat (term_cols (fst s)) + unat c < 2 ^ 32" using b assms(1) by (simp add: fits_def)
  then show "unat (r * term_cols (fst s) + c) = unat r * unat (term_cols (fst s)) + unat c" by (simp add: unat_word_ariths)
qed

text \<open>Setting a cell keeps the picture true.\<close>

lemma set_cell_picture:
  assumes "fits s" "cell_in s (term_row (fst s)) (term_col (fst s))"
  shows "\<exists>s'. set_cell ch s = Some s' \<and> same_window s s' \<and>
    chars (fst s') = (chars (fst s))[unat (term_row (fst s)) * unat (term_cols (fst s)) + unat (term_col (fst s)) := ch] \<and>
    term_row (fst s') = term_row (fst s) \<and> term_col (fst s') = term_col (fst s) \<and>
    (shows_picture s \<longrightarrow> shows_picture s')"
proof -
  let ?r = "term_row (fst s)" and ?c = "term_col (fst s)" and ?W = "unat (term_cols (fst s))"
  let ?i = "unat ?r * ?W + unat ?c"
  define s1 where "s1 = ((fst s)\<lparr>chars := (chars (fst s))[?i := ch]\<rparr>, snd s)"
  note n = cell_number [OF assms]
  have same1: "same_window s s1" unfolding s1_def by (rule same_window_terminal) simp_all
  then have f1: "fits s1" "cell_in s1 ?r ?c" "shell_w s1 = shell_w s" "client_h s1 = client_h s"
    using assms same_window_fits [OF same1] by (simp_all add: cell_in_def same_window_def)
  define s' where "s' = shell_render_cell ?r ?c s1"
  have set: "set_cell ch s = Some s'"
    using assms(1) n by (simp add: set_cell_def fits_def Let_def put_cell_char_def s'_def s1_def)
  have same': "same_window s s'" using same1 same_window_trans render_fields(4) unfolding s'_def by blast
  have pic: "shows_picture s'" if p: "shows_picture s"
  proof (unfold shows_picture_def, intro allI impI)
    fix x y assume x: "x < unat (shell_w s')" and y: "y < unat (client_h s')"
    have w: "shell_w s' = shell_w s" "client_h s' = client_h s" "term_cols (fst s') = term_cols (fst s)"
      "term_rows (fst s') = term_rows (fst s)" using same' by (simp_all add: same_window_def)
    have ch': "chars (fst s') = (chars (fst s))[?i := ch]" by (simp add: s'_def s1_def)
    have d: "drawn s' x y = (if x div 8 = unat ?c \<and> y div 8 = unat ?r then cell_color ch x y else drawn s x y)"
      using render_cell_drawn [OF f1(1,2), of x y] x n w f1(3) by (simp add: s'_def s1_def drawn_def shell_w_def split_beta)
    have old: "drawn s x y = picture ?W (unat (term_rows (fst s))) (chars (fst s)) x y"
      using p x y w by (simp add: shows_picture_def drawn_def)
    have "y div 8 * ?W + x div 8 = ?i \<longleftrightarrow> x div 8 = unat ?c \<and> y div 8 = unat ?r" if "x div 8 < ?W"
      using row_col_unique [OF that, of "unat ?c" "y div 8" "unat ?r"] assms(2) by (auto simp: cell_in_def word_less_iff_unat)
    then have "drawn s' x y = picture ?W (unat (term_rows (fst s))) ((chars (fst s))[?i := ch]) x y"
      using assms(2) n unfolding d old by (auto simp: picture_def cell_in_def word_less_iff_unat nth_list_update)
    then show "pixels (fst s') (y * unat (shell_w s') + x) =
        picture (unat (term_cols (fst s'))) (unat (term_rows (fst s'))) (chars (fst s')) x y"
      unfolding w ch' by (simp only: drawn_def w)
  qed
  show ?thesis
    using set same' pic by (intro exI [of _ s']) (simp add: s'_def s1_def)
qed

section \<open>Scrolling moves the picture\<close>

lemma blank_glyph: "cell_color 32 x y = SHELL_BG_COLOR"
proof -
  have "font8x8_basic 32 = [0, 0, 0, 0, 0, 0, 0, 0]" by (simp add: font8x8_basic_def)
  moreover have "y mod 8 = 0 \<or> y mod 8 = 1 \<or> y mod 8 = 2 \<or> y mod 8 = 3 \<or> y mod 8 = 4 \<or> y mod 8 = 5 \<or> y mod 8 = 6 \<or> y mod 8 = 7"
    using mod_less_divisor [of 8 y] by linarith
  ultimately show ?thesis by (auto simp: cell_color_def glyph_def)
qed

lemma scroll_pixels_pixel:
  assumes "x < unat w" "y < unat h" "8 \<le> unat h"
  shows "scroll_pixels w h buf (y * unat w + x) = (if y < unat h - 8 then buf ((y + 8) * unat w + x) else SHELL_BG_COLOR)"
proof -
  have p: "unat (h - 8) = unat h - 8" using assms(3) by (simp add: unat_minus_no_wrap word_le_iff_unat)
  have turn: "(\<lambda>y. fold (\<lambda>x b. b(y * unat w + x := SHELL_BG_COLOR)) [0..<unat w]) =
      (\<lambda>y. fold (\<lambda>x b. if True then b(y * unat w + x := SHELL_BG_COLOR) else b) [0..<unat w])" by simp
  have "scroll_pixels w h buf (y * unat w + x) =
      (if \<exists>y'\<in>set [unat h - 8..<unat h]. \<exists>x'\<in>set [0..<unat w]. True \<and> y' * unat w + x' = y * unat w + x then SHELL_BG_COLOR
       else if y * unat w + x < (unat h - 8) * unat w then buf (y * unat w + x + 8 * unat w) else buf (y * unat w + x))"
    unfolding scroll_pixels_def Let_def SHELL_CHAR_H_def p turn fold_store fold_fill by simp
  moreover have "(\<exists>y'\<in>set [unat h - 8..<unat h]. \<exists>x'\<in>set [0..<unat w]. True \<and> y' * unat w + x' = y * unat w + x) \<longleftrightarrow> \<not> y < unat h - 8"
  proof
    assume "\<exists>y'\<in>set [unat h - 8..<unat h]. \<exists>x'\<in>set [0..<unat w]. True \<and> y' * unat w + x' = y * unat w + x"
    then obtain y' x' where yx: "unat h - 8 \<le> y'" "x' < unat w" "y' * unat w + x' = y * unat w + x" by auto
    then show "\<not> y < unat h - 8" using row_col_unique [OF yx(2) assms(1) yx(3)] by simp
  next
    assume "\<not> y < unat h - 8"
    then show "\<exists>y'\<in>set [unat h - 8..<unat h]. \<exists>x'\<in>set [0..<unat w]. True \<and> y' * unat w + x' = y * unat w + x"
      using assms by (intro bexI [of _ y] bexI [of _ x]) simp_all
  qed
  moreover have "y * unat w + x < (unat h - 8) * unat w" if "y < unat h - 8"
  proof -
    have "y * unat w + x < Suc y * unat w" using assms(1) by simp
    also have "\<dots> \<le> (unat h - 8) * unat w" using that by (intro mult_le_mono1) simp
    finally show ?thesis .
  qed
  ultimately show ?thesis by (simp add: add.assoc add.commute distrib_right)
qed

lemma scroll_picture:
  assumes len: "length cs = H * W" and W: "0 < W" and H: "0 < H" "H = h div 8"
    and x: "x < w" and y: "y < h" and pic: "\<And>y. y < h \<Longrightarrow> b y = picture W H cs x y"
  shows "(if y < h - 8 then b (y + 8) else SHELL_BG_COLOR) = picture W H (drop W cs @ replicate W 32) x y"
proof -
  have y8: "(y + 8) div 8 = Suc (y div 8)" "(y + 8) mod 8 = y mod 8" by simp_all
  consider "x div 8 < W" "y div 8 + 1 < H" | "x div 8 < W" "y div 8 + 1 = H" | "\<not> x div 8 < W \<or> H \<le> y div 8"
    by linarith
  then show ?thesis
  proof cases
    case 1
    have "y < h - 8" "y + 8 < h" using 1(2) H(2) y by linarith+
    have "y div 8 * W + x div 8 < (H - 1) * W"
    proof -
      have "y div 8 * W + x div 8 < Suc (y div 8) * W" using 1 by simp
      also have "\<dots> \<le> (H - 1) * W" using 1(2) by (intro mult_le_mono1) simp
      finally show ?thesis .
    qed
    moreover have "W \<le> length cs" using len H(1) by (cases H) simp_all
    ultimately have "(drop W cs @ replicate W 32) ! (y div 8 * W + x div 8) = cs ! (Suc (y div 8) * W + x div 8)"
      using len by (simp add: nth_append nth_drop diff_mult_distrib add.commute add.left_commute)
    then show ?thesis using 1 \<open>y < h - 8\<close> pic [OF \<open>y + 8 < h\<close>] by (simp add: picture_def cell_color_def y8)
  next
    case 2
    then have "(drop W cs @ replicate W 32) ! (y div 8 * W + x div 8) = 32"
      using len by (auto simp: nth_append)
    moreover have "b (y + 8) = SHELL_BG_COLOR" if "y < h - 8"
      using pic [of "y + 8"] that 2 by (simp add: picture_def y8)
    ultimately show ?thesis using 2 blank_glyph by (simp add: picture_def)
  next
    case 3
    then show ?thesis using pic [of "y + 8"] by (auto simp: picture_def y8)
  qed
qed

lemma scroll_up_shows:
  assumes "fits s"
  shows "\<exists>s'. shell_scroll_up s = Some s' \<and> same_window s s' \<and>
    chars (fst s') = drop (unat (term_cols (fst s))) (chars (fst s)) @ replicate (unat (term_cols (fst s))) 32 \<and>
    term_row (fst s') = term_row (fst s) \<and> term_col (fst s') = term_col (fst s) \<and> (shows_picture s \<longrightarrow> shows_picture s')"
proof -
  define t W H where "t = fst s" and "W = unat (term_cols t)" and "H = unat (term_rows t)"
  have f: "has_buffer s" "term_cells t \<noteq> 0" "0 < W" "0 < H" "length (chars t) = H * W" "H = unat (client_h s) div 8"
    "W = unat (shell_w s) div 8" "unat (shell_w s) * unat (client_h s) < 2 ^ 32"
    using assms by (simp_all add: fits_def t_def W_def H_def)
  have r1: "unat (term_rows t - 1) = H - 1" using f(4) by (simp add: unat_minus_no_wrap word_le_iff_unat H_def)
  have "(H - 1) * W \<le> unat (client_h s) * unat (shell_w s)" unfolding f(6,7) by (intro mult_le_mono) auto
  then have "(H - 1) * W < 2 ^ 32" using f(8) by (simp add: mult.commute)
  then have n: "unat ((term_rows t - 1) * term_cols t) = (H - 1) * W" unfolding unat_word_ariths r1 W_def [symmetric] by simp
  have HW: "(H - 1) * W + W = H * W" using f(4) by (cases H) simp_all
  define cs where "cs = drop W (chars t) @ replicate W 32"
  have m: "move_cells 0 W ((H - 1) * W) (chars t) = Some (drop W (chars t) @ drop ((H - 1) * W) (chars t))"
  proof -
    have "length (chars t) - W = (H - 1) * W" using f(5) HW by linarith
    then show ?thesis using f(5) HW by (simp add: move_cells_def patch_def)
  qed
  have ld: "length (drop W (chars t)) = (H - 1) * W" using f(5) HW by simp
  have fl: "fill_cells_with ((H - 1) * W) W 32 (drop W (chars t) @ drop ((H - 1) * W) (chars t)) = Some cs"
    using f(5) HW ld by (simp add: fill_cells_with_def patch_def cs_def)
  define s1 where "s1 = (t\<lparr>chars := cs, pixels := scroll_pixels (shell_w s) (client_h s) (pixels t)\<rparr>, snd s)"
  define s' where "s' = mark_client_dirty s1"
  have up: "shell_scroll_up s = Some s'"
    using f n m fl by (simp add: shell_scroll_up_def t_def [symmetric] W_def [symmetric] Let_def s'_def s1_def) (auto simp: H_def)
  have "length cs = length (chars t)" using f(5) HW by (simp add: cs_def)
  then have same1: "same_window s s1" unfolding s1_def by (intro same_window_terminal) (simp_all add: t_def)
  have same: "same_window s s'" using same_window_trans [OF same1 mark_client_same(1)] by (simp add: s'_def)
  have fst': "fst s' = fst s1" by (simp add: s'_def mark_client_same)
  have pic: "shows_picture s'" if p: "shows_picture s"
  proof (unfold shows_picture_def, intro allI impI)
    fix x y assume x: "x < unat (shell_w s')" and y: "y < unat (client_h s')"
    have w: "shell_w s' = shell_w s" "client_h s' = client_h s" "term_cols (fst s') = term_cols t" "term_rows (fst s') = term_rows t"
      using same by (simp_all add: same_window_def t_def)
    have h8: "8 \<le> unat (client_h s)" using f(4,6) by linarith
    have "pixels (fst s') (y * unat (shell_w s) + x) =
        (if y < unat (client_h s) - 8 then pixels t ((y + 8) * unat (shell_w s) + x) else SHELL_BG_COLOR)"
      using scroll_pixels_pixel [OF _ _ h8, of x "shell_w s" y] x y by (simp add: fst' s1_def w)
    also have "\<dots> = picture W H cs x y"
      unfolding cs_def
    proof (rule scroll_picture [OF f(5,3,4,6)])
      show "pixels t (y * unat (shell_w s) + x) = picture W H (chars t) x y" if "y < unat (client_h s)" for y
        using p that x by (simp add: shows_picture_def t_def W_def H_def w)
    qed (use x y w in simp_all)
    finally show "pixels (fst s') (y * unat (shell_w s') + x) =
        picture (unat (term_cols (fst s'))) (unat (term_rows (fst s'))) (chars (fst s')) x y"
      by (simp add: w W_def H_def fst' s1_def)
  qed
  show ?thesis
    using up same pic by (intro exI [of _ s']) (simp add: fst' s1_def t_def [symmetric] W_def [symmetric] cs_def)
qed

section \<open>Lines\<close>

text \<open>
  What the terminal has been given, as lines of at most \<open>W\<close> characters: a line is closed as soon as it is full, a backspace
  takes the last character of the open line. The cells show the last \<open>H\<close> lines.
\<close>

fun term_lay :: "nat \<Rightarrow> u8 list list \<times> u8 list \<Rightarrow> u8 \<Rightarrow> u8 list list \<times> u8 list" where
  "term_lay W (ls, cur) c =
     (if c = 10 then (ls @ [cur], [])
      else if c = 8 then (ls, butlast cur)
      else if W \<le> length cur + 1 then (ls @ [cur @ [c]], []) else (ls, cur @ [c]))"

definition term_layout :: "nat \<Rightarrow> u8 list \<Rightarrow> u8 list list" where
  "term_layout W t = (let (ls, cur) = foldl (term_lay W) ([], []) t in ls @ [cur])"

definition term_pad :: "nat \<Rightarrow> u8 list \<Rightarrow> u8 list" where
  "term_pad W l = l @ replicate (W - length l) 32"

definition term_view :: "nat \<Rightarrow> nat \<Rightarrow> u8 list list \<Rightarrow> u8 list list" where
  "term_view W H L = map (term_pad W) (drop (length L - H) L) @ replicate (H - length L) (term_pad W [])"

lemma term_layout_snoc:
  "term_layout W (t @ [c]) = (let L = term_layout W t; l = last L in
     if c = 10 then L @ [[]] else if c = 8 then butlast L @ [butlast l]
     else if W \<le> length l + 1 then butlast L @ [l @ [c], []] else butlast L @ [l @ [c]])"
  by (cases "foldl (term_lay W) ([], []) t") (simp add: term_layout_def Let_def)

lemma length_term_view [simp]: "0 < H \<Longrightarrow> length (term_view W H L) = H"
  by (auto simp: term_view_def)

lemma length_term_pad [simp]: "length l \<le> W \<Longrightarrow> length (term_pad W l) = W"
  by (simp add: term_pad_def)

lemma term_view_rows: "\<forall>l\<in>set L. length l \<le> W \<Longrightarrow> \<forall>r\<in>set (term_view W H L). length r = W"
  by (auto simp: term_view_def dest: in_set_dropD)

lemma term_view_newline:
  "length L < H \<Longrightarrow> term_view W H (L @ [[]]) = term_view W H L"
  "H \<le> length L \<Longrightarrow> 0 < H \<Longrightarrow> term_view W H (L @ [[]]) = tl (term_view W H L) @ [term_pad W []]"
proof -
  show "length L < H \<Longrightarrow> term_view W H (L @ [[]]) = term_view W H L"
    by (simp add: term_view_def replicate_append_same [symmetric] Suc_diff_Suc [symmetric])
  assume a: "H \<le> length L" "0 < H"
  then have "Suc (length L) - H = Suc (length L - H)" by simp
  then have "drop (Suc (length L) - H) L = tl (drop (length L - H) L)" by (simp only: tl_drop drop_Suc)
  then show "term_view W H (L @ [[]]) = tl (term_view W H L) @ [term_pad W []]" using a by (simp add: term_view_def map_tl)
qed

lemma term_view_last:
  assumes "0 < H"
  shows "term_view W H (L @ [l]) ! (min H (length (L @ [l])) - 1) = term_pad W l"
    "(term_view W H (L @ [l]))[min H (length (L @ [l])) - 1 := term_pad W l'] = term_view W H (L @ [l'])"
proof -
  have "\<exists>A B. \<forall>x. term_view W H (L @ [x]) = A @ term_pad W x # B \<and> length A = min H (length (L @ [l])) - 1"
  proof (cases "length L < H")
    case True
    then show ?thesis
      by (intro exI [of _ "map (term_pad W) L"] exI [of _ "replicate (H - Suc (length L)) (term_pad W [])"]) (simp add: term_view_def)
  next
    case False
    then have "Suc (length L) - H \<le> length L" "length L - (Suc (length L) - H) = H - 1" using assms by simp_all
    then show ?thesis using False
      by (intro exI [of _ "map (term_pad W) (drop (Suc (length L) - H) L)"] exI [of _ "[]"]) (simp add: term_view_def)
  qed
  then obtain A B where v: "\<And>x. term_view W H (L @ [x]) = A @ term_pad W x # B" "length A = min H (length (L @ [l])) - 1" by blast
  show "term_view W H (L @ [l]) ! (min H (length (L @ [l])) - 1) = term_pad W l"
    "(term_view W H (L @ [l]))[min H (length (L @ [l])) - 1 := term_pad W l'] = term_view W H (L @ [l'])"
    unfolding v(1) v(2) [symmetric] by simp_all
qed

lemma term_pad_put:
  "length l < W \<Longrightarrow> (term_pad W l)[length l := c] = term_pad W (l @ [c])"
  "length l < W \<Longrightarrow> (term_pad W (l @ [c]))[length l := 32] = term_pad W l"
  by (simp_all add: term_pad_def list_update_append Suc_diff_Suc [symmetric])

text \<open>The cells show the lines; the cursor stands in the last one, behind its end.\<close>

definition shows_cells :: "term_state \<Rightarrow> u8 list list \<Rightarrow> bool" where
  "shows_cells s L \<longleftrightarrow> fits s \<and> shows_picture s \<and> L \<noteq> [] \<and> (\<forall>l\<in>set L. length l \<le> unat (term_cols (fst s))) \<and>
     chars (fst s) = concat (term_view (unat (term_cols (fst s))) (unat (term_rows (fst s))) L) \<and>
     unat (term_row (fst s)) = min (unat (term_rows (fst s))) (length L) - 1"

definition term_shows :: "term_state \<Rightarrow> u8 list list \<Rightarrow> bool" where
  "term_shows s L \<longleftrightarrow> shows_cells s L \<and> length (last L) < unat (term_cols (fst s)) \<and> unat (term_col (fst s)) = length (last L)"

lemma drop_concat_tl: "rs \<noteq> [] \<Longrightarrow> length (hd rs) = n \<Longrightarrow> drop n (concat rs) = concat (tl rs)"
  by (cases rs) simp_all

lemma advance_line_shows:
  assumes "shows_cells s L"
  shows "\<exists>s'. shell_advance_line s = Some s' \<and> same_window s s' \<and> term_shows s' (L @ [[]])"
proof -
  define t W H where "t = fst s" and "W = unat (term_cols t)" and "H = unat (term_rows t)"
  have f: "fits s" "shows_picture s" "L \<noteq> []" "\<forall>l\<in>set L. length l \<le> W" "chars t = concat (term_view W H L)"
    "unat (term_row t) = min H (length L) - 1" "0 < W" "0 < H"
    using assms by (simp_all add: shows_cells_def t_def W_def H_def) (auto simp: fits_def)
  have H32: "H < 2 ^ 32" using unsigned_less [of "term_rows t", where 'a = nat] by (simp add: H_def)
  have r: "unat (term_row t + 1) = min H (length L)"
    using f(3,6,8) H32 by (subst unat_plus_no_wrap) (cases L, auto simp: min_def)
  have nz: "term_rows t \<noteq> 0" using f(8) by (auto simp: H_def)
  define t1 where "t1 = t\<lparr>term_col := 0, term_row := term_row t + 1\<rparr>"
  show ?thesis
  proof (cases "length L < H")
    case True
    then have "\<not> term_row t1 \<ge> term_rows t1" using r by (simp add: t1_def word_le_iff_unat H_def)
    then have adv: "shell_advance_line s = Some (t1, snd s)"
      using nz by (simp add: shell_advance_line_def t_def [symmetric] t1_def Let_def)
    have same: "same_window s (t1, snd s)" by (rule same_window_terminal) (simp_all add: t1_def t_def)
    have "shows_picture (t1, snd s)"
      using f(2) same by (simp add: shows_picture_def same_window_def t1_def t_def)
    then have "term_shows (t1, snd s) (L @ [[]])"
      using f True r same_window_fits [OF same] term_view_newline(1) [OF True]
      by (simp add: term_shows_def shows_cells_def t1_def W_def H_def)
    then show ?thesis using adv same by blast
  next
    case False
    define s1 where "s1 = (t1\<lparr>term_row := term_rows t1 - 1\<rparr>, snd s)"
    have full: "H \<le> length L" using False by simp
    have "term_row t1 \<ge> term_rows t1" using r full by (simp add: t1_def word_le_iff_unat H_def)
    then have adv: "shell_advance_line s = shell_scroll_up s1"
      using nz by (simp add: shell_advance_line_def t_def [symmetric] t1_def s1_def Let_def)
    have same1: "same_window s s1" unfolding s1_def by (rule same_window_terminal) (simp_all add: t1_def t_def)
    have pic1: "shows_picture s1" using f(2) same1 by (simp add: shows_picture_def same_window_def s1_def t1_def t_def)
    obtain s' where s': "shell_scroll_up s1 = Some s'" "same_window s1 s'"
      "chars (fst s') = drop W (chars t) @ replicate W 32" "term_row (fst s') = term_rows t - 1" "term_col (fst s') = 0"
      "shows_picture s'"
      using scroll_up_shows [of s1] same_window_fits [OF same1] f(1) pic1
      by (auto simp: s1_def t1_def W_def)
    have same: "same_window s s'" using same_window_trans [OF same1 s'(2)] .
    have v: "length (term_view W H L) = H" "\<forall>r\<in>set (term_view W H L). length r = W"
      using f(4,8) term_view_rows by simp_all
    have ne: "term_view W H L \<noteq> []" using v(1) f(8) by (cases "term_view W H L") simp_all
    then have "drop W (chars t) = concat (tl (term_view W H L))"
      unfolding f(5) using v(2) by (intro drop_concat_tl) auto
    then have "chars (fst s') = concat (term_view W H (L @ [[]]))"
      using s'(3) term_view_newline(2) [OF full f(8), of W] by (simp add: term_pad_def)
    moreover have "unat (term_rows t - 1) = H - 1" using f(8) by (simp add: unat_minus_no_wrap word_le_iff_unat H_def)
    ultimately have "term_shows s' (L @ [[]])"
      using s' same f full same_window_fits [OF same]
      by (simp add: term_shows_def shows_cells_def same_window_def W_def H_def t_def)
    then show ?thesis using adv s'(1) same by auto
  qed
qed

lemma put_line_shows:
  assumes "shows_cells s (L @ [l])" "unat (term_col (fst s)) < unat (term_cols (fst s))"
    and "(term_pad (unat (term_cols (fst s))) l)[unat (term_col (fst s)) := c] = term_pad (unat (term_cols (fst s))) l'"
    and "length l' \<le> unat (term_cols (fst s))"
  shows "\<exists>s'. set_cell c s = Some s' \<and> same_window s s' \<and> shows_cells s' (L @ [l']) \<and> term_col (fst s') = term_col (fst s)"
proof -
  define t W H where "t = fst s" and "W = unat (term_cols t)" and "H = unat (term_rows t)"
  let ?i = "min H (length (L @ [l])) - 1"
  have f: "fits s" "shows_picture s" "\<forall>l\<in>set (L @ [l]). length l \<le> W" "chars t = concat (term_view W H (L @ [l]))"
    "unat (term_row t) = ?i" "0 < W" "0 < H"
    using assms(1) by (simp_all add: shows_cells_def t_def W_def H_def) (auto simp: fits_def)
  have iH: "?i < H" using f(7) by simp
  then have "cell_in s (term_row (fst s)) (term_col (fst s))"
    using assms(2) f(5) by (simp add: cell_in_def word_less_iff_unat t_def H_def)
  then obtain s' where s': "set_cell c s = Some s'" "same_window s s'"
    "chars (fst s') = (chars t)[?i * W + unat (term_col t) := c]" "term_row (fst s') = term_row t" "term_col (fst s') = term_col t"
    "shows_picture s'"
    using set_cell_picture [OF f(1), of c] f(2,5) by (auto simp: t_def W_def)
  have v: "length (term_view W H (L @ [l])) = H" "\<forall>r\<in>set (term_view W H (L @ [l])). length r = W"
    by (simp add: f(7)) (rule term_view_rows [OF f(3)])
  have "(chars t)[?i * W + unat (term_col t) := c] = concat ((term_view W H (L @ [l]))[?i := term_pad W l'])"
    unfolding f(4) using concat_update [OF v(2), of ?i "unat (term_col t)" c] iH v(1) assms(2,3) term_view_last(1) [OF f(7), of W L l]
    by (simp add: t_def W_def)
  also have "\<dots> = concat (term_view W H (L @ [l']))" by (simp only: term_view_last(2) [OF f(7)])
  finally have "shows_cells s' (L @ [l'])"
    using s' f assms(4) same_window_fits [OF s'(2)] by (simp add: shows_cells_def same_window_def t_def W_def H_def)
  then show ?thesis using s' by (auto simp: t_def)
qed

lemma term_put_shows:
  assumes "term_shows s (term_layout (unat (term_cols (fst s))) t)"
  shows "\<exists>s'. term_put c s = Some s' \<and> same_window s s' \<and> term_shows s' (term_layout (unat (term_cols (fst s))) (t @ [c]))"
proof -
  let ?W = "unat (term_cols (fst s))" and ?L = "term_layout (unat (term_cols (fst s))) t"
  have L: "shows_cells s ?L" "length (last ?L) < ?W" "unat (term_col (fst s)) = length (last ?L)" "?L = butlast ?L @ [last ?L]"
    using assms by (auto simp: term_shows_def shows_cells_def)
  consider "c = 10" | "c = 8" "last ?L = []" | l x where "c = 8" "last ?L = l @ [x]" | "c \<noteq> 10" "c \<noteq> 8"
    by (cases "last ?L" rule: rev_cases) auto
  then show ?thesis
  proof cases
    case 1
    then show ?thesis using advance_line_shows [OF L(1)] by (simp add: term_put_def term_layout_snoc)
  next
    case 2
    then have "\<not> term_col (fst s) > 0" using L(3) by (simp add: word_less_iff_unat)
    moreover have "term_layout ?W (t @ [c]) = ?L" using 2 L(4) by (simp add: term_layout_snoc)
    ultimately show ?thesis using 2 assms by (simp add: term_put_def)
  next
    case 3
    define s1 where "s1 = ((fst s)\<lparr>term_col := term_col (fst s) - 1\<rparr>, snd s)"
    have col: "term_col (fst s) > 0" using L(3) 3 by (simp add: word_less_iff_unat)
    then have "unat (term_col (fst s) - 1) = length l"
      using L(3) 3 by (subst unat_minus_no_wrap) (auto simp: word_le_iff_unat word_less_iff_unat)
    then have c1: "unat (term_col (fst s1)) = length l" by (simp add: s1_def)
    have same1: "same_window s s1" unfolding s1_def by (rule same_window_terminal) simp_all
    have "shows_picture s1" using L(1) same1 by (simp add: shows_cells_def shows_picture_def same_window_def s1_def)
    then have "shows_cells s1 (butlast ?L @ [l @ [x]])"
      using L(1,4) 3 same_window_fits [OF same1] by (simp add: shows_cells_def s1_def)
    moreover have W: "term_cols (fst s1) = term_cols (fst s)" by (simp add: s1_def)
    ultimately obtain s' where s': "set_cell 32 s1 = Some s'" "same_window s1 s'" "shows_cells s' (butlast ?L @ [l])"
      "unat (term_col (fst s')) = length l"
      using put_line_shows [of s1 "butlast ?L" "l @ [x]" 32 l] c1 L(2) 3 term_pad_put(2) [of l ?W x] by auto
    have "term_cols (fst s') = term_cols (fst s)" using s'(2) W by (simp add: same_window_def)
    moreover have "term_layout ?W (t @ [c]) = butlast ?L @ [l]" using 3 by (simp add: term_layout_snoc)
    ultimately have "term_shows s' (term_layout ?W (t @ [c]))" using s' L(2) 3 by (simp add: term_shows_def)
    moreover have "term_put c s = Some s'" using 3 col s'(1) by (simp add: term_put_def s1_def)
    ultimately show ?thesis using same_window_trans [OF same1 s'(2)] by blast
  next
    case 4
    obtain s1 where s1: "set_cell c s = Some s1" "same_window s s1" "shows_cells s1 (butlast ?L @ [last ?L @ [c]])"
      "term_col (fst s1) = term_col (fst s)"
      using put_line_shows [of s "butlast ?L" "last ?L" c "last ?L @ [c]"] L term_pad_put(1) [OF L(2)] by auto
    define s2 where "s2 = ((fst s1)\<lparr>term_col := term_col (fst s1) + 1\<rparr>, snd s1)"
    have cols: "term_cols (fst s1) = term_cols (fst s)" using s1(2) by (simp add: same_window_def)
    have same2: "same_window s1 s2" unfolding s2_def by (rule same_window_terminal) simp_all
    have col: "unat (term_col (fst s2)) = length (last ?L) + 1"
    proof -
      have "length (last ?L) + 1 < 2 ^ 32" using L(2) unsigned_less [of "term_cols (fst s)", where 'a = nat] by simp
      then show ?thesis using L(3) s1(4) by (simp add: s2_def unat_plus_no_wrap)
    qed
    have "shows_picture s2" using s1(3) same2 by (simp add: shows_cells_def shows_picture_def same_window_def s2_def)
    then have cells2: "shows_cells s2 (butlast ?L @ [last ?L @ [c]])"
      using s1(3) same_window_fits [OF same2] by (simp add: shows_cells_def s2_def)
    have nz: "term_cols (fst s) \<noteq> 0" using L(2) by auto
    show ?thesis
    proof (cases "?W \<le> length (last ?L) + 1")
      case True
      then have "term_col (fst s2) \<ge> term_cols (fst s2)" using col cols by (simp add: word_le_iff_unat s2_def)
      then have mv: "move_right s1 = shell_advance_line s2"
        using nz cols by (simp add: move_right_def s2_def Let_def)
      obtain s' where "shell_advance_line s2 = Some s'" "same_window s2 s'" "term_shows s' ((butlast ?L @ [last ?L @ [c]]) @ [[]])"
        using advance_line_shows [OF cells2] by blast
      then show ?thesis
        using mv 4 s1(1) True same_window_trans [OF s1(2) same_window_trans [OF same2]]
        by (auto simp: term_put_def term_layout_snoc Let_def)
    next
      case False
      then have "\<not> term_col (fst s2) \<ge> term_cols (fst s2)" using col cols by (simp add: word_le_iff_unat s2_def)
      then have "move_right s1 = Some s2" by (simp add: move_right_def s2_def Let_def)
      moreover have "term_shows s2 (butlast ?L @ [last ?L @ [c]])"
        using cells2 col False cols by (simp add: term_shows_def s2_def)
      ultimately show ?thesis
        using 4 s1(1) False same_window_trans [OF s1(2) same2] by (simp add: term_put_def term_layout_snoc Let_def)
    qed
  qed
qed

section \<open>The three sinks together\<close>

text \<open>What reaches the text screen and the line: everything but backspaces and null characters.\<close>

definition echoed :: "u8 list \<Rightarrow> u8 list" where
  "echoed t = filter (\<lambda>c. c \<noteq> 8 \<and> c \<noteq> 0) t"

text \<open>
  After the characters \<open>t\<close>: the terminal of \<open>W\<close> columns and \<open>H\<close> rows shows their lines, the text screen shows \<open>pre\<close> and the echo, the line
  has sent \<open>base\<close> and the echo.
\<close>

definition shell_shows :: "nat \<Rightarrow> nat \<Rightarrow> u8 list \<Rightarrow> u8 list \<Rightarrow> (uart, 'h) term_machine \<Rightarrow> u8 list \<Rightarrow> bool" where
  "shell_shows W H pre base = (\<lambda>(tm, d, s) t.
     unat (term_cols tm) = W \<and> unat (term_rows tm) = H \<and> term_shows (tm, desktop (kern_of s)) (term_layout W t) \<and>
     shown_lines (screen_of s) (layout (pre @ echoed t)) \<and> line_shows base d (echoed t))"

lemma spells_one: "c \<noteq> 0 \<Longrightarrow> spells (\<lambda>i. if i = 0 then c else 0) [c]"
  by (simp add: spells_def)

lemma print_one: "c \<noteq> 0 \<Longrightarrow> print_from putc (\<lambda>i. if i = 0 then c else 0) 0 s = putc c s"
  using print_spells [OF spells_one, of c putc s] by (cases "putc c s") simp_all

lemma echo_shows:
  assumes "shown_lines v (layout (pre @ t))" "line_shows base d t" "c \<noteq> 0"
  shows "\<exists>v' d'. echo (uart_io lag) c (v, d) = Some (v', d') \<and> shown_lines v' (layout (pre @ t @ [c])) \<and> line_shows base d' (t @ [c])"
proof -
  obtain d' where "serial_putc (uart_io lag) c d = Some d'" "line_shows base d' (t @ [c])" using line.put [OF assms(2)] by blast
  then show ?thesis
    using print_char_lines [OF assms(1), of c] assms(3)
    by (simp add: echo_def vga_print_def serial_print_def vga_putc_def print_one)
qed

lemma echo_null: "echo (uart_io lag) 0 s = Some s"
  by (cases s) (simp add: echo_def vga_print_def serial_print_def print_from.simps)

lemma putchar_shows:
  fixes m :: "(uart, 'h) term_machine"
  assumes "shell_shows W H pre base m t"
  shows "\<exists>m'. shell_putchar (uart_io lag) c m = Some m' \<and> shell_shows W H pre base m' (t @ [c])"
proof -
  obtain tm d s where m: "m = (tm, d, s)" by (cases m)
  have a: "unat (term_cols tm) = W \<and> unat (term_rows tm) = H" "term_shows (tm, desktop (kern_of s)) (term_layout W t)"
    "shown_lines (screen_of s) (layout (pre @ echoed t))" "line_shows base d (echoed t)"
    using assms by (simp_all add: m shell_shows_def)
  obtain tm' w' where tw: "term_put c (tm, desktop (kern_of s)) = Some (tm', w')" "term_cols tm' = term_cols tm \<and> term_rows tm' = term_rows tm"
    "term_shows (tm', w') (term_layout W (t @ [c]))"
    using term_put_shows [of "(tm, desktop (kern_of s))" t c] a(1,2) by (auto simp: same_window_def)
  have go: "on_terminal (term_put c) (tm, d', s\<lparr>screen_of := v\<rparr>) =
      Some (tm', d', s\<lparr>screen_of := v, kern_of := (kern_of s)\<lparr>desktop := w'\<rparr>\<rparr>)" for d' :: uart and v
    using tw(1) by (simp add: on_terminal_def on_kern_def)
  show ?thesis
  proof (cases "c = 8 \<or> c = 0")
    case True
    have "shell_putchar (uart_io lag) c m = on_terminal (term_put c) (tm, d, s\<lparr>screen_of := screen_of s\<rparr>)"
      using True by (auto simp: shell_putchar_def m echo_null)
    then show ?thesis using go [of d "screen_of s"] tw a True by (auto simp: shell_shows_def echoed_def)
  next
    case False
    obtain v' d' where "echo (uart_io lag) c (screen_of s, d) = Some (v', d')"
      "shown_lines v' (layout (pre @ echoed t @ [c]))" "line_shows base d' (echoed t @ [c])"
      using echo_shows [OF a(3,4)] False by blast
    then show ?thesis using go [of d' v'] tw a(1) False by (simp add: shell_putchar_def m shell_shows_def echoed_def)
  qed
qed

interpretation shell: printer "shell_putchar (uart_io lag)" "shell_shows W H pre base" for lag W H pre base
  by unfold_locales (rule putchar_shows)

section \<open>Numbers\<close>

fun strip_zeros :: "u8 list \<Rightarrow> u8 list" where
  "strip_zeros (c # d # cs) = (if c = 48 then strip_zeros (d # cs) else c # d # cs)"
| "strip_zeros cs = cs"

lemma hex_digits_Suc: "hex_digits (Suc k) val = hex_char (drop_bit (4 * k) val AND 0xF) # hex_digits k val"
  by (simp add: hex_digits_def)

lemma hex_char_zero: "n < 16 \<Longrightarrow> hex_char n = 48 \<longleftrightarrow> n = 0"
proof -
  assume "n < 16"
  then have "unat n < 16" by (simp add: word_less_iff_unat)
  then have "unat n \<in> set [0..<16]" by simp
  then have "(hex_chars ! unat n = 48) = (unat n = 0)"
    by (simp add: upt_rec hex_chars_def) (elim disjE; simp add: of_char_def)
  then show ?thesis by (simp add: hex_char_def unat_eq_0)
qed

lemma nibble_small: "(x :: u64) AND 0xF < 16"
proof -
  have "x AND 0xF \<le> 0xF" by (rule word_and_le1)
  then show ?thesis by (simp add: word_le_iff_unat word_less_iff_unat)
qed

lemma shell_nibbles_all:
  "shell_print_nibbles io k val True = put_all (shell_putchar io) (hex_digits k val)"
  "shell_print_nibbles io k val False = put_all (shell_putchar io) (strip_zeros (hex_digits k val))"
proof -
  show t: "shell_print_nibbles io k val True = put_all (shell_putchar io) (hex_digits k val)" for k
  proof (induction k)
    case 0
    then show ?case by (simp add: hex_digits_def fun_eq_iff)
  next
    case (Suc k)
    show ?case by (rule ext) (simp add: hex_digits_Suc Let_def Suc)
  qed
  show "shell_print_nibbles io k val False = put_all (shell_putchar io) (strip_zeros (hex_digits k val))"
  proof (induction k)
    case 0
    then show ?case by (simp add: hex_digits_def fun_eq_iff)
  next
    case (Suc k)
    let ?n = "drop_bit (4 * k) val AND 0xF"
    have z: "?n > 0 \<longleftrightarrow> hex_char ?n \<noteq> 48" using hex_char_zero [OF nibble_small] by (simp add: word_greater_zero_iff)
    show ?case
    proof (cases k)
      case 0
      have "hex_digits 1 val = [hex_char (val AND 0xF)]" by (simp add: hex_digits_def)
      then show ?thesis using 0 by (intro ext) (simp add: Let_def t hex_digits_def)
    next
      case (Suc j)
      then have "strip_zeros (hex_digits (Suc k) val) =
          (if hex_char ?n = 48 then strip_zeros (hex_digits k val) else hex_char ?n # hex_digits k val)"
        by (simp add: hex_digits_Suc)
      moreover have "k \<noteq> 0" using \<open>k = Suc j\<close> by simp
      ultimately show ?thesis using z by (intro ext) (simp add: Let_def t Suc.IH hex_digits_Suc)
    qed
  qed
qed

lemma shell_digits_eq: "i \<le> 21 \<Longrightarrow> unat val < 10 ^ (21 - i) \<Longrightarrow> shell_digits val i buf = digits_into val i buf"
proof (induction val i buf rule: shell_digits.induct)
  case (1 val i buf)
  show ?case
  proof (cases "val > 0")
    case True
    then have "0 < unat val" by (simp add: word_less_iff_unat)
    then have i: "i < 21" using 1(2,3) by (cases "i = 21") auto
    then have "21 - i = Suc (21 - (i + 1))" by simp
    then have "unat val < 10 * 10 ^ (21 - (i + 1))" using 1(3) by simp
    then have "unat (val div 10) < 10 ^ (21 - (i + 1))" by simp
    then have "shell_digits (val div 10) (i + 1) (buf(i := 48 + ucast (val mod 10))) =
        digits_into (val div 10) (i + 1) (buf(i := 48 + ucast (val mod 10)))"
      using i by (intro 1(1) conjI True) simp_all
    moreover have "shell_digits val i buf = shell_digits (val div 10) (i + 1) (buf(i := 48 + ucast (val mod 10)))"
      using True i by (subst shell_digits.simps) simp
    moreover have "digits_into val i buf = digits_into (val div 10) (i + 1) (buf(i := 48 + ucast (val mod 10)))"
      using True by (subst digits_into.simps) (simp add: add.commute)
    ultimately show ?thesis by (simp only:)
  next
    case False
    then show ?thesis by (subst shell_digits.simps, subst digits_into.simps) simp
  qed
qed

lemma shell_print_dec_all: "shell_print_dec io junk val = put_all (shell_putchar io) (itoa val 10)"
proof
  fix m
  have "unat val < 2 ^ 64" using unsigned_less [of val, where 'a = nat] by simp
  then have "unat val < 10 ^ (21 - 0)" by simp
  then have "shell_digits val 0 junk = digits_into val 0 junk" by (intro shell_digits_eq) simp_all
  then have "shell_print_dec io junk val m = print_decimal (shell_putchar io) junk val m"
    by (simp add: shell_print_dec_def print_decimal_def)
  then show "shell_print_dec io junk val m = put_all (shell_putchar io) (itoa val 10) m" by (simp only: print_decimal_itoa)
qed

section \<open>Opening the terminal\<close>

lemma picture_blank: "picture W H (replicate n 32) x y = SHELL_BG_COLOR" if "n = H * W"
proof (cases "x div 8 < W \<and> y div 8 < H")
  case True
  have "y div 8 * W + x div 8 < Suc (y div 8) * W" using True by simp
  also have "\<dots> \<le> H * W" using True by (intro mult_le_mono1) simp
  finally show ?thesis using True that by (simp add: picture_def blank_glyph)
qed (auto simp: picture_def)

lemma draw_blank:
  assumes "\<And>r c. r < R \<Longrightarrow> c < C \<Longrightarrow> chars t ! unat (of_nat r * term_cols t + of_nat c) = 32"
  shows "fold (\<lambda>r. fold (render_char w r) [0..<C]) [0..<R] t = t"
proof -
  have "fold (render_char w r) [0..<n] t = t" if "r < R" "n \<le> C" for r n
    using that(2) by (induction n) (simp_all add: render_char_def assms [OF that(1)])
  then have "fold (\<lambda>r. fold (render_char w r) [0..<C]) [0..<n] t = t" if "n \<le> R" for n
    using that by (induction n) simp_all
  then show ?thesis by simp
qed

text \<open>A window with room for at least one cell gets an empty terminal of whole cells.\<close>

theorem shell_set_window_correct:
  fixes w :: win_state and win :: u64
  defines "W \<equiv> unat (win_w (wins w win))" and "h \<equiv> win_h (wins w win) - 25"
  assumes win: "win \<noteq> 0" "win_buffer (wins w win) \<noteq> 0" and fit: "8 \<le> W" "8 \<le> unat h" "W * unat h < 2 ^ 32"
    and old: "term_cells t = 0" and p: "kmalloc (ucast (h div 8 * (win_w (wins w win) div 8))) (win_heap w) = Some (p, heap)" "p \<noteq> 0"
  shows "\<exists>s'. shell_set_window win junk (t, w) = Some s' \<and> term_shows s' [[]] \<and>
    unat (term_cols (fst s')) = W div 8 \<and> unat (term_rows (fst s')) = unat h div 8"
proof -
  define C R where "C = win_w (wins w win) div 8" and "R = h div 8"
  have CR: "unat C = W div 8" "unat R = unat h div 8" by (simp_all add: C_def R_def W_def unat_div)
  have "unat R * unat C \<le> unat h * W" unfolding CR by (intro mult_le_mono) simp_all
  then have prod: "unat (R * C) = unat R * unat C" using fit(3) by (simp add: unat_word_ariths mult.commute)
  define t1 where "t1 = t\<lparr>shell_window := win, term_row := 0, term_col := 0, term_cols := C, term_rows := R, term_cells := p,
    chars := replicate (unat R * unat C) 32\<rparr>"
  define w1 where "w1 = w\<lparr>win_heap := heap\<rparr>"
  have geo: "has_buffer (t1, w1)" "shell_w (t1, w1) = win_w (wins w win)" "client_h (t1, w1) = h"
    using win by (simp_all add: has_buffer_def shell_w_def client_h_def t1_def w1_def h_def)
  have fits1: "fits (t1, w1)"
    using geo fit p(2) CR by (simp add: fits_def W_def [symmetric]) (auto simp: t1_def CR div_greater_zero_iff)
  define t2 where "t2 = t1\<lparr>pixels := (\<lambda>i. if i < unat (win_w (wins w win) * h) then 0 else pixels t1 i)\<rparr>"
  have same2: "same_window (t1, w1) (t2, w1)" using same_window_terminal [of t2 "(t1, w1)"] by (simp add: t2_def)
  have f2: "fits (t2, w1)" using fits1 same_window_fits [OF same2] by simp
  have blank: "chars t2 ! unat (of_nat r * term_cols t2 + of_nat c) = 32" if "r < unat R" "c < unat C" for r c
  proof -
    have u: "unat (of_nat r :: u32) = r" "unat (of_nat c :: u32) = c"
      using that unsigned_less [of R, where 'a = nat] unsigned_less [of C, where 'a = nat] by (simp_all add: unat_of_nat_small)
    have "cell_in (t2, w1) (of_nat r) (of_nat c)" using that u by (simp add: cell_in_def word_less_iff_unat t2_def t1_def)
    from cell_number [OF f2 this] show ?thesis by (simp add: t2_def t1_def u)
  qed
  have all: "shell_render_all (t1, w1) = mark_client_dirty (t2, w1)"
    using geo p(2) draw_blank [of "unat R" "unat C" t2 "win_w (wins w win)"] blank
    by (simp add: shell_render_all_def Let_def t2_def) (simp add: t1_def)
  have junk: "fill_cells_with 0 (unat (R * C)) 32 (map junk [0..<unat (R * C)]) = Some (replicate (unat R * unat C) 32)"
    by (simp add: fill_cells_with_def patch_def prod)
  have set: "shell_set_window win junk (t, w) = Some (mark_client_dirty (t2, w1))"
    using win(1) old p junk all [symmetric]
    by (simp add: shell_set_window_def Let_def shell_w_def client_h_def SHELL_CHAR_W_def SHELL_CHAR_H_def
        h_def [symmetric] C_def [symmetric] R_def [symmetric] t1_def w1_def)
  have same3: "same_window (t2, w1) (mark_client_dirty (t2, w1))" "fst (mark_client_dirty (t2, w1)) = t2"
    using mark_client_same [of "(t2, w1)"] by simp_all
  have "pixels t2 (y * W + x) = SHELL_BG_COLOR" if "x < W" "y < unat h" for x y
  proof -
    have "y * W + x < Suc y * W" using that by simp
    also have "\<dots> \<le> unat h * W" using that by (intro mult_le_mono1) simp
    finally have "y * W + x < unat (win_w (wins w win) * h)"
      using fit(3) by (simp add: unat_word_ariths W_def mult.commute)
    then show ?thesis by (simp add: t2_def SHELL_BG_COLOR_def)
  qed
  then have "shows_picture (t2, w1)"
    using geo same2 picture_blank [of "unat R * unat C" "unat R" "unat C"]
    by (simp add: shows_picture_def same_window_def W_def) (simp add: t2_def t1_def)
  then have pic: "shows_picture (mark_client_dirty (t2, w1))"
    using same3 by (simp add: shows_picture_def same_window_def)
  have "concat (term_view (unat C) (unat R) [[]]) = replicate (unat R * unat C) 32"
  proof -
    have "0 < unat R" using fit(2) CR by (simp add: div_greater_zero_iff)
    then have "term_view (unat C) (unat R) [[]] = replicate (unat R) (replicate (unat C) 32)"
      by (cases "unat R") (simp_all add: term_view_def term_pad_def)
    moreover have "concat (replicate n (replicate m x)) = replicate (n * m) x" for n m and x :: u8
      by (induction n) (simp_all add: replicate_add)
    ultimately show ?thesis by simp
  qed
  moreover have "0 < unat C" "0 < unat R" using fit CR by (simp_all add: div_greater_zero_iff)
  ultimately have "term_shows (mark_client_dirty (t2, w1)) [[]]"
    using pic f2 same_window_fits [OF same3(1)] same3(2)
    by (simp add: term_shows_def shows_cells_def) (simp add: t2_def t1_def)
  then show ?thesis using set same3(2) CR by (simp add: t2_def t1_def)
qed

text \<open>
  C35. Printing a string returns and shows it on all three sinks: the cells of the terminal hold the last lines of what was printed,
  every pixel of the window shows its cell, also after scrolling, and the text screen and the serial line have the echo.
\<close>

theorem shell_print_correct:
  assumes "shell_shows W H pre base m t" "spells str cs"
  shows "\<exists>m'. shell_print (uart_io lag) str m = Some m' \<and> shell_shows W H pre base m' (t @ cs)"
  unfolding shell_print_def print_spells [OF assms(2)] by (rule shell.put_all_shows [OF assms(1)])

theorem shell_print_numbers_correct:
  assumes "shell_shows W H pre base m t"
  shows "(\<exists>m'. shell_print_dec (uart_io lag) junk val m = Some m' \<and> shell_shows W H pre base m' (t @ itoa val 10)) \<and>
    (\<exists>m'. shell_print_hex (uart_io lag) val m = Some m' \<and> shell_shows W H pre base m' (t @ strip_zeros (hex_digits 16 val)))"
  using shell.put_all_shows [OF assms, of lag "itoa val 10"] shell.put_all_shows [OF assms, of lag "strip_zeros (hex_digits 16 val)"]
  by (simp add: shell_print_dec_all shell_print_hex_def shell_nibbles_all)

text \<open>A terminal of two by two cells.\<close>

definition tiny_term :: "(uart, unit) term_machine" where
  "tiny_term =
     (\<lparr>shell_window = 0x500, term_row = 0, term_col = 0, term_cols = 2, term_rows = 2, term_cells = 0x600, chars = replicate 4 32,
        pixels = (\<lambda>_. 0)\<rparr>,
      \<lparr>thr_busy = 0, tx_log = [], rx_fifo = [], divisor = 3, regs = (\<lambda>_. 0)\<rparr>,
      \<lparr>kern_of = two_tasks\<lparr>desktop := desk\<lparr>wins := (\<lambda>p. (wins desk p)\<lparr>win_w := 16, win_h := 41, win_buffer := 0x9000\<rparr>)\<rparr>\<rparr>,
        screen_of = vga_clear \<lparr>vga_buffer = replicate 2000 \<lparr>character = 0, color_of = 0\<rparr>, col = 0, row = 0, vcolor = 7\<rparr>,
        pit_of = \<lparr>ticks = 0, tsc_freq_mhz = 0\<rparr>, mouse_of = mouse_start, rest_of = ()\<rparr>)"

lemma tiny_term_shows: "shell_shows 2 2 [] [] tiny_term []"
proof -
  have v: "shown_lines (vga_clear \<lparr>vga_buffer = replicate 2000 \<lparr>character = 0, color_of = 0\<rparr>, col = 0, row = 0, vcolor = 7\<rparr>) (layout [])"
    by (rule clear_lines) simp
  have "concat (term_view 2 2 [[]]) = replicate 4 32" by (simp add: term_view_def term_pad_def numeral_eq_Suc)
  moreover have "picture 2 2 (replicate 4 32) x y = SHELL_BG_COLOR" for x y by (rule picture_blank) simp
  ultimately show ?thesis
    using v by (simp add: shell_shows_def tiny_term_def echoed_def line_shows_def term_layout_def term_shows_def shows_cells_def fits_def
        shows_picture_def has_buffer_def shell_w_def client_h_def SHELL_BG_COLOR_def)
qed

theorem shell_print_correct_witness:
  "\<exists>m'. shell_print (uart_io 3) (literal ''hi!'') tiny_term = Some m' \<and> chars (fst m') = [104, 105, 33, 32] \<and>
     tx_log (fst (snd m')) = [104, 105, 33]"
proof -
  have s: "spells (literal ''hi!'') [104, 105, 33]" using spells_literal [of "''hi!''"] by (simp add: of_char_def)
  have l: "term_layout 2 [104, 105, 33] = [[104, 105], [33]]" by (simp add: term_layout_def)
  have v: "concat (term_view 2 n [[104, 105], [33]]) = [104, 105, 33, 32]" if "n = 2" for n
    using that by (simp add: term_view_def term_pad_def numeral_eq_Suc)
  obtain tm d s' where m: "shell_print (uart_io 3) (literal ''hi!'') tiny_term = Some (tm, d, s')"
    "shell_shows 2 2 [] [] (tm, d, s') [104, 105, 33]"
    using shell_print_correct [OF tiny_term_shows s, of 3] by auto
  have "tx_log d = [104, 105, 33]" using m(2) by (simp add: shell_shows_def line_shows_def echoed_def)
  moreover have "chars tm = concat (term_view 2 (unat (term_rows tm)) [[104, 105], [33]])"
    using m(2) by (simp add: shell_shows_def term_shows_def shows_cells_def l)
  moreover have "unat (term_rows tm) = 2" using m(2) by (simp add: shell_shows_def)
  ultimately show ?thesis using m(1) v by simp
qed

end
