(* ===== verification/Shell.thy ===== *)
theory Shell
  imports Terminal Syscall E1000 Lock
begin

text \<open>
  The shell (src/kernel/shell.c from \<open>shell_print_lock_stats\<close> on): the input line and the commands, which use most of the
  kernel. A command works on the whole machine; the result None means that it does not return, or reaches outside an object.
\<close>

section \<open>State\<close>

record ('d, 'e, 'n) shell =
  input_buffer :: "u8 list"
  buffer_idx :: nat
  nic_of :: "'n nic"
  locks_of :: lock_state
  term_of :: "('d, 'e vfs_state) term_machine"

definition MAX_BUFFER :: nat where "MAX_BUFFER = 256"

text \<open>
  What the commands need besides: the platform of the system calls, the disk, the registers of the network card and its polls while a
  send waits, the addresses of the two programs that are linked in, the stack pointer slot of \<open>task_create\<close>, and an uninitialised buffer.
\<close>

record ('d, 'e, 'n) shell_env =
  plat :: "('d, 'e) platform"
  disk_writer :: "'e writer"
  nic_mmio :: "'n mmio"
  nic_polls :: "('n nic \<Rightarrow> 'n nic option) list"
  user_gui_app :: u64
  dashboard_run :: u64
  rsp_slot :: "u64 \<Rightarrow> u64"
  dec_junk :: "u8 carray"

definition env_io :: "('d, 'e, 'n) shell_env \<Rightarrow> 'd port_io" where
  "env_io e = platform.ports (plat e)"

definition in_terminal :: "(('d, 'e vfs_state) term_machine \<Rightarrow> ('d, 'e vfs_state) term_machine option) \<Rightarrow>
    ('d, 'e, 'n) shell \<Rightarrow> ('d, 'e, 'n) shell option" where
  "in_terminal f s = map_option (\<lambda>m. s\<lparr>term_of := m\<rparr>) (f (term_of s))"

definition kern_in :: "('d, 'e, 'n) shell \<Rightarrow> kern" where
  "kern_in s = kern_of (snd (snd (term_of s)))"

definition files_in :: "('d, 'e, 'n) shell \<Rightarrow> 'e vfs_state" where
  "files_in s = rest_of (snd (snd (term_of s)))"

definition set_kern :: "kern \<Rightarrow> ('d, 'e, 'n) shell \<Rightarrow> ('d, 'e, 'n) shell" where
  "set_kern k s = (let (t, d, y) = term_of s in s\<lparr>term_of := (t, d, y\<lparr>kern_of := k\<rparr>)\<rparr>)"

definition set_files :: "'e vfs_state \<Rightarrow> ('d, 'e, 'n) shell \<Rightarrow> ('d, 'e, 'n) shell" where
  "set_files v s = (let (t, d, y) = term_of s in s\<lparr>term_of := (t, d, y\<lparr>rest_of := v\<rparr>)\<rparr>)"

section \<open>Output\<close>

text \<open>The commands print strings, decimal and hexadecimal numbers one after the other.\<close>

datatype out = Text string | Bytes "u8 list" | Dec u64 | Hex u64

definition bytes_string :: "u8 list \<Rightarrow> u8 carray" where
  "bytes_string bs = (\<lambda>i. if i < length bs then bs ! i else 0)"

fun print_item :: "('d, 'e, 'n) shell_env \<Rightarrow> out \<Rightarrow> ('d, 'e vfs_state) term_machine \<Rightarrow> ('d, 'e vfs_state) term_machine option" where
  "print_item e (Text cs) m = shell_print (env_io e) (literal cs) m"
| "print_item e (Bytes bs) m = shell_print (env_io e) (bytes_string bs) m"
| "print_item e (Dec n) m = shell_print_dec (env_io e) (dec_junk e) n m"
| "print_item e (Hex n) m = shell_print_hex (env_io e) n m"

fun print_items :: "('d, 'e, 'n) shell_env \<Rightarrow> out list \<Rightarrow> ('d, 'e vfs_state) term_machine \<Rightarrow> ('d, 'e vfs_state) term_machine option" where
  "print_items e [] m = Some m"
| "print_items e (x # xs) m = Option.bind (print_item e x m) (print_items e xs)"

definition say :: "('d, 'e, 'n) shell_env \<Rightarrow> out list \<Rightarrow> ('d, 'e, 'n) shell \<Rightarrow> ('d, 'e, 'n) shell option" where
  "say e xs = in_terminal (print_items e xs)"

definition line_of :: "string \<Rightarrow> out" where
  "line_of cs = Text (cs @ [CHR 0x0A])"

definition newline :: out where
  "newline = Text [CHR 0x0A]"

section \<open>Numbers and addresses of a command line\<close>

definition is_digit :: "u8 \<Rightarrow> bool" where
  "is_digit c \<longleftrightarrow> c \<ge> 48 \<and> c \<le> 57"

text \<open>
  \<open>while (*p && part < 4)\<close>: digits go to the current part, a dot starts the next one, other characters are skipped. With
  \<open>stop\<close> a blank ends the loop, as for \<open>tcp\<close>; for \<open>ping\<close> it is skipped too. The rest of the line is returned.
\<close>

fun parse_ip :: "bool \<Rightarrow> u8 list \<Rightarrow> nat \<Rightarrow> u8 list \<Rightarrow> u8 list \<times> nat \<times> u8 list" where
  "parse_ip stop ip part [] = (ip, part, [])"
| "parse_ip stop ip part (c # cs) =
     (if \<not> part < 4 then (ip, part, c # cs)
      else if is_digit c then parse_ip stop (ip[part := ip ! part * 10 + (c - 48)]) part cs
      else if c = 46 then parse_ip stop ip (part + 1) cs
      else if stop \<and> c = 32 then (ip, part, cs)
      else parse_ip stop ip part cs)"

fun parse_port :: "u16 \<Rightarrow> u8 list \<Rightarrow> u16" where
  "parse_port port [] = port"
| "parse_port port (c # cs) = (if is_digit c then parse_port (port * 10 + (ucast c - 48)) cs else port)"

section \<open>The commands\<close>

definition help_text :: string where
  "help_text = ''Available commands: help, ls, cat <file>, write <f> <t>, exec <f>, free, heap, locks, clear, ticks, gui, net, ping <ip>, udp <msg>, tcp <ip> <port>, stress_proc, stress_disk, monitor, top, dashboard''"

definition cmd_dashboard :: "('d, 'e, 'n) shell_env \<Rightarrow> ('d, 'e, 'n) shell \<Rightarrow> ('d, 'e, 'n) shell option" where
  "cmd_dashboard e s =
     Option.bind (task_create (rsp_slot e) (dashboard_run e) (kern_in s)) (\<lambda>(t, k).
       say e [line_of ''Dashboard started.''] (set_kern k s))"

text \<open>The snapshot of \<open>sys_get_sys_info\<close> has room for 16 CPUs; the loop of \<open>monitor\<close> reads one entry for every CPU.\<close>

definition cpu_usage :: "cpu_t \<Rightarrow> out list" where
  "cpu_usage c =
     (if cpu_ticks c > 0 then [Dec ((cpu_ticks c - idle_ticks c) * 100 div cpu_ticks c), Text ''%''] else [Text ''0%''])"

definition monitor_text :: "kern \<Rightarrow> out list" where
  "monitor_text k =
     (let total_mem = pmm_get_total_frames (frames (vm k)) * 4096 div 1024;
          free_mem = pmm_get_free_count (frames (vm k)) * 4096 div 1024
      in [line_of ''--- System Monitor ---'', Text ''CPU Cores: '', Dec (of_nat (cpu_get_count k)), newline] @
         concat (map (\<lambda>i. [Text '' CPU '', Dec (of_nat i), Text '': Usage ''] @ cpu_usage (cpu_at k (cpu_get_by_index k i)) @ [newline])
           [0..<cpu_get_count k]) @
         [Text ''Memory: '', Dec ((total_mem - free_mem) div 1024), Text ''MB / '', Dec (total_mem div 1024), line_of ''MB used'',
          Text ''Tasks: '', Dec (ucast (task_total k)), newline])"

definition cmd_monitor :: "('d, 'e, 'n) shell_env \<Rightarrow> ('d, 'e, 'n) shell \<Rightarrow> ('d, 'e, 'n) shell option" where
  "cmd_monitor e s = (if cpu_get_count (kern_in s) > 16 then None else say e (monitor_text (kern_in s)) s)"

definition state_name :: "u32 \<Rightarrow> string" where
  "state_name n = (if n = 0 then ''READY'' else if n = 1 then ''RUNNING'' else if n = 2 then ''EXITED'' else ''UNKNOWN'')"

definition top_line :: "task_info_t \<Rightarrow> out list" where
  "top_line t = [Dec (info_id t), Text ''   '', Dec (ucast (info_cpu t)), Text ''    '', Dec (info_ticks t), Text ''    '',
     Text (state_name (info_state t)), newline]"

definition cmd_top :: "('d, 'e, 'n) shell_env \<Rightarrow> ('d, 'e, 'n) shell \<Rightarrow> ('d, 'e, 'n) shell option" where
  "cmd_top e s = say e (line_of ''ID  CPU  TICKS  STATE'' # concat (map top_line (task_get_all_info 32 (kern_in s)))) s"

text \<open>The branch of the child prints on the line and ends in \<open>sys_exit\<close>, which does not return.\<close>

definition cmd_fork :: "('d, 'e, 'n) shell_env \<Rightarrow> ('d, 'e, 'n) shell \<Rightarrow> ('d, 'e, 'n) shell option" where
  "cmd_fork e s =
     Option.bind (say e [line_of ''Forking...''] s) (\<lambda>s.
     Option.bind (sys_fork (kern_in s)) (\<lambda>(pid, k).
       if pid = 0 then None else say e [Text ''Parent: Child PID is '', Dec pid, newline] (set_kern k s)))"

text \<open>An operation of the network stack: the frames it sends go to the card.\<close>

definition in_net :: "('d, 'e, 'n) shell_env \<Rightarrow> ('n nic \<Rightarrow> 'n nic option) \<Rightarrow> ('d, 'e, 'n) shell \<Rightarrow> ('d, 'e, 'n) shell option" where
  "in_net e f s = map_option (\<lambda>n. s\<lparr>nic_of := n\<rparr>) (Option.bind (f (nic_of s)) (transmit (nic_mmio e)))"

definition cmd_tcp :: "('d, 'e, 'n) shell_env \<Rightarrow> u8 list \<Rightarrow> ('d, 'e, 'n) shell \<Rightarrow> ('d, 'e, 'n) shell option" where
  "cmd_tcp e rest s =
     (let (ip, part, p) = parse_ip True [0, 0, 0, 0] 0 rest; port = parse_port 0 p
      in if part = 3 \<and> port > 0 then in_net e (tcp_connect (nic_polls e) ip port) s
         else say e [line_of ''Usage: tcp <ip> <port>''] s)"

definition cmd_udp :: "('d, 'e, 'n) shell_env \<Rightarrow> u8 list \<Rightarrow> ('d, 'e, 'n) shell \<Rightarrow> ('d, 'e, 'n) shell option" where
  "cmd_udp e msg s =
     Option.bind (in_net e (\<lambda>n. Some (net_send_udp [255, 255, 255, 255] 12345 12345 msg (of_nat (length msg)) n)) s)
       (say e [line_of ''UDP broadcast sent.''])"

definition cmd_ping :: "('d, 'e, 'n) shell_env \<Rightarrow> u8 list \<Rightarrow> ('d, 'e, 'n) shell \<Rightarrow> ('d, 'e, 'n) shell option" where
  "cmd_ping e ip_str s =
     (let (ip, part, p) = parse_ip False [0, 0, 0, 0] 0 ip_str
      in if part = 3 then in_net e (net_ping (nic_polls e) ip) s else say e [line_of ''Invalid IP address.''] s)"

definition separated :: "(u8 \<Rightarrow> out) \<Rightarrow> string \<Rightarrow> u8 list \<Rightarrow> out list" where
  "separated f sep bs = concat (map (\<lambda>i. f (bs ! i) # (if i < length bs - 1 then [Text sep] else [])) [0..<length bs])"

definition cmd_net :: "('d, 'e, 'n) shell_env \<Rightarrow> ('d, 'e, 'n) shell \<Rightarrow> ('d, 'e, 'n) shell option" where
  "cmd_net e s =
     say e ([Text ''E1000 MAC: ''] @ separated (\<lambda>b. Hex (ucast b)) '':'' (e1000_get_mac (nic_of s)) @
       [newline, Text ''IP Address: ''] @ separated (\<lambda>b. Dec (ucast b)) ''.'' (net_get_ip (nic_of s)) @
       [newline, Text ''RX Packets: '', Dec (net_get_rx_count (nic_of s)), newline, Text ''TX Packets: '',
        Dec (net_get_tx_count (nic_of s)), newline]) s"

text \<open>The name goes into a buffer of 100 characters.\<close>

partial_function (option) list_files :: "('d, 'e, 'n) shell_env \<Rightarrow> int \<Rightarrow> ('d, 'e, 'n) shell \<Rightarrow> ('d, 'e, 'n) shell option" where
  "list_files e i s =
     Option.bind (vfs_readdir (disk_reader (plat e)) i (files_in s)) (\<lambda>(r, v).
       case r of
         None \<Rightarrow> Some (set_files v s)
       | Some name \<Rightarrow>
           if length name > 100 then None
           else Option.bind (say e [Bytes name, newline] (set_files v s)) (list_files e (i + 1)))"

definition read_file :: "('d, 'e) platform \<Rightarrow> int \<Rightarrow> u64 \<Rightarrow> u32 \<Rightarrow> 'e vfs_state \<Rightarrow> kern \<Rightarrow> 'e vfs_state \<times> kern" where
  "read_file p fd buf sz v k =
     (let (got, bs, v1) = vfs_read (disk_reader p) fd (stack_junk p) (read_buffer buf (unat sz) (phys_mem (vm k))) sz v;
          m = put_buffer buf bs (phys_mem (vm k))
      in (v1, k\<lparr>vm := (vm k)\<lparr>phys_mem := m(buf + ucast sz := 0)\<rparr>\<rparr>))"

definition cmd_cat :: "('d, 'e, 'n) shell_env \<Rightarrow> u8 list \<Rightarrow> ('d, 'e, 'n) shell \<Rightarrow> ('d, 'e, 'n) shell option" where
  "cmd_cat e filename s =
     Option.bind (vfs_open (disk_reader (plat e)) filename (files_in s)) (\<lambda>(fd, v).
       let s = set_files v s in
       if fd < 0 then say e [line_of ''File not found.''] s
       else let sz = vfs_size fd v
            in Option.bind (k_malloc (ucast (sz + 1)) (kern_in s)) (\<lambda>(buf, k).
                 let (v, k) = read_file (plat e) fd buf sz v k; s = set_files v (set_kern k s)
                 in Option.bind (in_terminal (shell_print (env_io e) (str_at (phys_mem (vm k)) buf)) s) (\<lambda>s.
                    Option.bind (say e [newline] s) (\<lambda>s.
                    Option.bind (k_free buf (kern_in s)) (\<lambda>k.
                      Some (set_files (vfs_close fd (files_in s)) (set_kern k s)))))))"

definition run_file :: "('d, 'e, 'n) shell_env \<Rightarrow> u8 list \<Rightarrow> ('d, 'e, 'n) shell \<Rightarrow> (bool \<times> ('d, 'e, 'n) shell) option" where
  "run_file e filename s =
     map_option (\<lambda>(t, v, k). (t \<noteq> 0, set_files v (set_kern k s)))
       (task_exec_file (disk_reader (plat e)) (stack_junk (plat e)) filename (files_in s) (kern_in s))"

definition cmd_exec :: "('d, 'e, 'n) shell_env \<Rightarrow> u8 list \<Rightarrow> ('d, 'e, 'n) shell \<Rightarrow> ('d, 'e, 'n) shell option" where
  "cmd_exec e filename s =
     Option.bind (run_file e filename s) (\<lambda>(ok, s).
       say e [line_of (if ok then ''Process started.'' else ''Failed to start process.'')] s)"

definition cmd_gui :: "('d, 'e, 'n) shell_env \<Rightarrow> ('d, 'e, 'n) shell \<Rightarrow> ('d, 'e, 'n) shell option" where
  "cmd_gui e s =
     Option.bind (task_create_user (user_gui_app e) (kern_in s)) (\<lambda>(t, k). say e [line_of ''GUI Process started.''] (set_kern k s))"

text \<open>The first blank of the arguments is overwritten with a terminator, in the input buffer.\<close>

definition cmd_write :: "('d, 'e, 'n) shell_env \<Rightarrow> u8 list \<Rightarrow> ('d, 'e, 'n) shell \<Rightarrow> ('d, 'e, 'n) shell option" where
  "cmd_write e rest s =
     (let filename = takeWhile (\<lambda>c. c \<noteq> 32) rest in
      if filename = rest then say e [line_of ''Usage: write <file> <text>''] s
      else let data = drop (length filename + 1) rest;
               s = s\<lparr>input_buffer := (input_buffer s)[6 + length filename := 0]\<rparr>
           in Option.bind (vfs_open (disk_reader (plat e)) filename (files_in s)) (\<lambda>(fd, v).
                if fd < 0 then say e [line_of ''File not found.''] (set_files v s)
                else let (r, v) = vfs_write (disk_reader (plat e)) (disk_writer e) fd (stack_junk (plat e)) data (of_nat (length data)) v
                     in say e [line_of ''File written.''] (set_files (vfs_close fd v) s)))"

text \<open>The number goes to the serial line only.\<close>

definition on_line :: "('d \<Rightarrow> 'd option) \<Rightarrow> ('d, 'e, 'n) shell \<Rightarrow> ('d, 'e, 'n) shell option" where
  "on_line f = in_terminal (\<lambda>(t, d, y). map_option (\<lambda>d. (t, d, y)) (f d))"

definition hex_on_line :: "('d, 'e, 'n) shell_env \<Rightarrow> string \<Rightarrow> u64 \<Rightarrow> ('d, 'e, 'n) shell \<Rightarrow> ('d, 'e, 'n) shell option" where
  "hex_on_line e title n s =
     Option.bind (say e [Text title] s) (\<lambda>s. Option.bind (on_line (serial_print_hex (env_io e) n) s) (say e [newline]))"

definition cmd_free :: "('d, 'e, 'n) shell_env \<Rightarrow> ('d, 'e, 'n) shell \<Rightarrow> ('d, 'e, 'n) shell option" where
  "cmd_free e s = hex_on_line e ''Free frames: '' (pmm_get_free_count (frames (vm (kern_in s)))) s"

definition cmd_ticks :: "('d, 'e, 'n) shell_env \<Rightarrow> ('d, 'e, 'n) shell \<Rightarrow> ('d, 'e, 'n) shell option" where
  "cmd_ticks e s = hex_on_line e ''System Ticks: '' (pit_get_ticks (pit_of (snd (snd (term_of s))))) s"

definition heap_text :: "kmalloc_stats \<Rightarrow> out list" where
  "heap_text st =
     [Text ''Heap used bytes: '', Dec (bytes_used st), newline, Text ''Heap peak bytes: '', Dec (peak_bytes_used st), newline,
      Text ''Heap free bytes: '', Dec (bytes_free st), newline, Text ''Largest free block: '', Dec (largest_free_block st), newline,
      Text ''Live allocations: '', Dec (live_allocations st), newline, Text ''Alloc calls: '', Dec (alloc_count st), newline,
      Text ''Free calls: '', Dec (free_count st), newline, Text ''Failed allocs: '', Dec (failed_allocations st), newline]"

definition cmd_heap :: "('d, 'e, 'n) shell_env \<Rightarrow> ('d, 'e, 'n) shell \<Rightarrow> ('d, 'e, 'n) shell option" where
  "cmd_heap e s =
     Option.bind (kmalloc_get_stats (win_heap (desktop (kern_in s)))) (\<lambda>(st, h).
       say e (heap_text st) (set_kern ((kern_in s)\<lparr>desktop := (desktop (kern_in s))\<lparr>win_heap := h\<rparr>\<rparr>) s))"

definition lock_line :: "lock_stats \<Rightarrow> out list" where
  "lock_line l = [Text (ls_name l), Text '': acq='', Dec (ls_acquisitions l), Text '' cont='', Dec (ls_contentions l),
     Text '' spins='', Dec (ls_spin_loops l), newline]"

definition shell_print_lock_stats :: "('d, 'e, 'n) shell_env \<Rightarrow> ('d, 'e, 'n) shell \<Rightarrow> ('d, 'e, 'n) shell option" where
  "shell_print_lock_stats e s =
     say e (concat (map (\<lambda>i. case lock_get_stats (locks_of s) (of_nat i) of None \<Rightarrow> [] | Some l \<Rightarrow> lock_line l)
       [0..<unat (lock_get_registered_count (locks_of s))])) s"

fun start_apps :: "u64 \<Rightarrow> nat \<Rightarrow> kern \<Rightarrow> kern option" where
  "start_apps start 0 k = Some k"
| "start_apps start (Suc n) k = Option.bind (task_create_user start k) (\<lambda>(t, k). start_apps start n k)"

definition cmd_stress_proc :: "('d, 'e, 'n) shell_env \<Rightarrow> ('d, 'e, 'n) shell \<Rightarrow> ('d, 'e, 'n) shell option" where
  "cmd_stress_proc e s =
     Option.bind (say e [line_of ''Starting Process Storm (50 cycles)...''] s) (\<lambda>s.
     Option.bind (start_apps (user_gui_app e) 50 (kern_in s)) (\<lambda>k.
       say e [line_of ''Stress test complete.''] (set_kern k s)))"

text \<open>The sectors 5000 to 5511 are overwritten, behind the back of the sector cache.\<close>

fun hammer :: "'e reader \<Rightarrow> 'e writer \<Rightarrow> nat list \<Rightarrow> 'e \<Rightarrow> bool \<times> 'e" where
  "hammer rd wr [] d = (False, d)"
| "hammer rd wr (i # is) d =
     (let d = wr (5000 + of_nat i) (replicate 512 (of_nat i)) d;
          (buf, d) = rd (5000 + of_nat i) (replicate 512 0) d
      in if buf ! 0 \<noteq> of_nat i then (True, d) else hammer rd wr is d)"

definition cmd_stress_disk :: "('d, 'e, 'n) shell_env \<Rightarrow> ('d, 'e, 'n) shell \<Rightarrow> ('d, 'e, 'n) shell option" where
  "cmd_stress_disk e s =
     Option.bind (say e [line_of ''Starting Disk Hammer...''] s) (\<lambda>s.
       let v = files_in s; (bad, d) = hammer (disk_reader (plat e)) (disk_writer e) [0..<512] (disk (tar v))
       in say e ((if bad then [line_of ''DISK CORRUPTION DETECTED!''] else []) @ [line_of ''Disk stress test complete.''])
            (set_files (v\<lparr>tar := (tar v)\<lparr>disk := d\<rparr>\<rparr>) s))"

definition cmd_clear :: "('d, 'e, 'n) shell \<Rightarrow> ('d, 'e, 'n) shell option" where
  "cmd_clear = in_terminal (\<lambda>(t, d, y).
     let y = y\<lparr>screen_of := vga_clear (screen_of y)\<rparr>; w = desktop (kern_of y)
     in Option.bind (if term_cells t \<noteq> 0
            then map_option (\<lambda>cs. shell_render_all (t\<lparr>chars := cs\<rparr>, w)) (fill_cells_with 0 (unat (term_rows t * term_cols t)) 32 (chars t))
            else Some (t, w))
          (\<lambda>(t, w). Some (t\<lparr>term_row := 0, term_col := 0\<rparr>, d, on_kern (\<lambda>k. k\<lparr>desktop := w\<rparr>) y)))"

section \<open>The command line\<close>

definition is_cmd :: "u8 list \<Rightarrow> string \<Rightarrow> bool" where
  "is_cmd cmd name \<longleftrightarrow> cmd = map of_char name"

definition has_prefix :: "u8 list \<Rightarrow> string \<Rightarrow> bool" where
  "has_prefix cmd name \<longleftrightarrow> take (length name) cmd = map of_char name"

definition cmd_unknown :: "('d, 'e, 'n) shell_env \<Rightarrow> u8 list \<Rightarrow> ('d, 'e, 'n) shell \<Rightarrow> ('d, 'e, 'n) shell option" where
  "cmd_unknown e cmd s =
     (if cmd = [] then Some s
      else Option.bind (run_file e cmd s) (\<lambda>(ok, s).
        say e (if ok then [line_of ''Process started.''] else [Text ''Unknown command or file: '', Bytes cmd, newline]) s))"

definition run_command :: "('d, 'e, 'n) shell_env \<Rightarrow> u8 list \<Rightarrow> ('d, 'e, 'n) shell \<Rightarrow> ('d, 'e, 'n) shell option" where
  "run_command e cmd s =
     (if is_cmd cmd ''help'' then say e [line_of help_text] s
      else if is_cmd cmd ''dashboard'' then cmd_dashboard e s
      else if is_cmd cmd ''monitor'' then cmd_monitor e s
      else if is_cmd cmd ''top'' then cmd_top e s
      else if is_cmd cmd ''fork'' then cmd_fork e s
      else if has_prefix cmd ''tcp '' then cmd_tcp e (drop 4 cmd) s
      else if has_prefix cmd ''udp '' then cmd_udp e (drop 4 cmd) s
      else if has_prefix cmd ''ping '' then cmd_ping e (drop 5 cmd) s
      else if is_cmd cmd ''net'' then cmd_net e s
      else if is_cmd cmd ''ls'' then list_files e 0 s
      else if has_prefix cmd ''cat '' then cmd_cat e (drop 4 cmd) s
      else if has_prefix cmd ''exec '' then cmd_exec e (drop 5 cmd) s
      else if is_cmd cmd ''gui'' then cmd_gui e s
      else if has_prefix cmd ''write '' then cmd_write e (drop 6 cmd) s
      else if is_cmd cmd ''free'' then cmd_free e s
      else if is_cmd cmd ''heap'' then cmd_heap e s
      else if is_cmd cmd ''locks'' then shell_print_lock_stats e s
      else if is_cmd cmd ''stress_proc'' then cmd_stress_proc e s
      else if is_cmd cmd ''stress_disk'' then cmd_stress_disk e s
      else if is_cmd cmd ''ticks'' then cmd_ticks e s
      else if is_cmd cmd ''clear'' then cmd_clear s
      else cmd_unknown e cmd s)"

definition shell_execute :: "('d, 'e, 'n) shell_env \<Rightarrow> u8 list \<Rightarrow> ('d, 'e, 'n) shell \<Rightarrow> ('d, 'e, 'n) shell option" where
  "shell_execute e cmd s = Option.bind (run_command e cmd s) (say e [Text ''zoho> ''])"

definition shell_init :: "('d, 'e, 'n) shell_env \<Rightarrow> ('d, 'e, 'n) shell \<Rightarrow> ('d, 'e, 'n) shell option" where
  "shell_init e = say e [Text (CHR 0x0A # ''Zoho OS Interactive Shell'' @ [CHR 0x0A]), Text ''zoho> '']"

text \<open>One character of input. The command is the buffer up to its terminator.\<close>

definition shell_input :: "('d, 'e, 'n) shell_env \<Rightarrow> u8 \<Rightarrow> ('d, 'e, 'n) shell \<Rightarrow> ('d, 'e, 'n) shell option" where
  "shell_input e c s =
     (if c = 10 \<or> c = 13
      then Option.bind (in_terminal (shell_putchar (env_io e) 10) s) (\<lambda>s.
           let s = s\<lparr>input_buffer := (input_buffer s)[buffer_idx s := 0]\<rparr>
           in Option.bind (if buffer_idx s > 0 then shell_execute e (takeWhile (\<lambda>c. c \<noteq> 0) (input_buffer s)) s
                           else say e [Text ''zoho> ''] s)
                (\<lambda>s. Some (s\<lparr>buffer_idx := 0\<rparr>)))
      else if c = 8
      then if buffer_idx s > 0
           then in_terminal (shell_putchar (env_io e) 8) (s\<lparr>buffer_idx := buffer_idx s - 1\<rparr>)
           else Some s
      else if buffer_idx s < MAX_BUFFER - 1
      then in_terminal (shell_putchar (env_io e) c)
             (s\<lparr>input_buffer := (input_buffer s)[buffer_idx s := c], buffer_idx := buffer_idx s + 1\<rparr>)
      else Some s)"


section \<open>What the commands print\<close>

fun item_bytes :: "out \<Rightarrow> u8 list" where
  "item_bytes (Text cs) = map of_char cs"
| "item_bytes (Bytes bs) = takeWhile (\<lambda>c. c \<noteq> 0) bs"
| "item_bytes (Dec n) = itoa n 10"
| "item_bytes (Hex n) = strip_zeros (hex_digits 16 n)"

fun item_ok :: "out \<Rightarrow> bool" where
  "item_ok (Text cs) \<longleftrightarrow> 0 \<notin> set (map of_char cs :: u8 list)"
| "item_ok x \<longleftrightarrow> True"

definition items_bytes :: "out list \<Rightarrow> u8 list" where
  "items_bytes xs = concat (map item_bytes xs)"

lemma print_item_all: "item_ok x \<Longrightarrow> print_item e x m = put_all (shell_putchar (env_io e)) (item_bytes x) m"
proof (cases x)
  case (Text cs)
  then show "item_ok x \<Longrightarrow> ?thesis" by (simp add: shell_print_def print_spells [OF spells_literal])
next
  case (Bytes bs)
  then show ?thesis
    using print_spells [OF spells_prefix [of bs "bytes_string bs"]] by (simp add: shell_print_def bytes_string_def)
qed (simp_all add: shell_print_dec_all shell_print_hex_def shell_nibbles_all)

lemma print_items_all: "list_all item_ok xs \<Longrightarrow> print_items e xs m = put_all (shell_putchar (env_io e)) (items_bytes xs) m"
proof (induction xs arbitrary: m)
  case (Cons x xs)
  then have "print_items e xs = put_all (shell_putchar (env_io e)) (items_bytes xs)" by (intro ext) simp
  then show ?case using Cons.prems by (simp add: items_bytes_def put_all_append print_item_all)
qed (simp add: items_bytes_def)

text \<open>What stands on the three sinks of the shell, and the output of a command on them.\<close>

abbreviation says :: "nat \<Rightarrow> nat \<Rightarrow> u8 list \<Rightarrow> u8 list \<Rightarrow> (uart, 'e, 'n) shell \<Rightarrow> u8 list \<Rightarrow> bool" where
  "says W H pre base s t \<equiv> shell_shows W H pre base (term_of s) t"

lemma say_shows:
  assumes "says W H pre base s t" "env_io e = uart_io lag" "list_all item_ok xs"
  shows "\<exists>m. say e xs s = Some (s\<lparr>term_of := m\<rparr>) \<and> shell_shows W H pre base m (t @ items_bytes xs)"
proof -
  obtain m where "put_all (shell_putchar (uart_io lag)) (items_bytes xs) (term_of s) = Some m" "shell_shows W H pre base m (t @ items_bytes xs)"
    using shell.put_all_shows [OF assms(1)] by blast
  then show ?thesis by (intro exI [of _ m]) (simp add: say_def in_terminal_def print_items_all [OF assms(3)] assms(2))
qed

lemma type_shows:
  assumes "says W H pre base s t"
  shows "\<exists>m. in_terminal (shell_putchar (uart_io lag) c) s = Some (s\<lparr>term_of := m\<rparr>) \<and> shell_shows W H pre base m (t @ [c])"
proof -
  obtain m where "shell_putchar (uart_io lag) c (term_of s) = Some m" "shell_shows W H pre base m (t @ [c])"
    using shell.put [OF assms] by blast
  then show ?thesis by (intro exI [of _ m]) (simp add: in_terminal_def)
qed

section \<open>Editing the input line\<close>

text \<open>
  The line under edit and what typing shows: a backspace drops the last character, any other one is appended as long as there is room
  for it and the terminator; what has no effect is not shown.
\<close>

definition edit_key :: "u8 \<Rightarrow> u8 list \<Rightarrow> u8 list" where
  "edit_key c l = (if c = 8 then butlast l else if length l < 255 then l @ [c] else l)"

definition key_shown :: "u8 \<Rightarrow> u8 list \<Rightarrow> u8 list" where
  "key_shown c l = (if edit_key c l = l then [] else [c])"

fun keys_shown :: "u8 list \<Rightarrow> u8 list \<Rightarrow> u8 list" where
  "keys_shown [] l = []"
| "keys_shown (c # cs) l = key_shown c l @ keys_shown cs (edit_key c l)"

fun shell_type :: "('d, 'e, 'n) shell_env \<Rightarrow> u8 list \<Rightarrow> ('d, 'e, 'n) shell \<Rightarrow> ('d, 'e, 'n) shell option" where
  "shell_type e [] s = Some s"
| "shell_type e (c # cs) s = Option.bind (shell_input e c s) (shell_type e cs)"

definition line_is :: "u8 list \<Rightarrow> ('d, 'e, 'n) shell \<Rightarrow> bool" where
  "line_is l s \<longleftrightarrow> length (input_buffer s) = MAX_BUFFER \<and> buffer_idx s = length l \<and> length l < MAX_BUFFER \<and>
     take (length l) (input_buffer s) = l \<and> 0 \<notin> set l"

lemma line_is_term [simp]: "line_is l (s\<lparr>term_of := m\<rparr>) = line_is l s"
  by (simp add: line_is_def)

lemma line_is_Nil: "line_is [] s \<longleftrightarrow> length (input_buffer s) = MAX_BUFFER \<and> buffer_idx s = 0"
  by (auto simp: line_is_def MAX_BUFFER_def)

lemma butlast_same: "butlast l = l \<longleftrightarrow> l = []"
  by (metis append_butlast_last_id butlast.simps(1) not_Cons_self2 append_self_conv)

lemma take_butlast: "take (length l) xs = l \<Longrightarrow> take (length l - 1) xs = butlast l"
  by (metis butlast_take diff_le_self length_take min.absorb2 min.cobounded1 nat_le_linear take_all butlast_conv_take take_take min_def)

lemma edit_step:
  assumes "says W H pre base s t" "line_is l s" "c \<notin> {0, 10, 13}" "env_io e = uart_io lag"
  shows "\<exists>s'. shell_input e c s = Some s' \<and> line_is (edit_key c l) s' \<and> says W H pre base s' (t @ key_shown c l) \<and>
    nic_of s' = nic_of s \<and> locks_of s' = locks_of s"
proof -
  have idx: "buffer_idx s = length l" "length l < 256" using assms(2) by (simp_all add: line_is_def MAX_BUFFER_def)
  consider (del) "c = 8" "l \<noteq> []" | (put) "c \<noteq> 8" "length l < 255" | (none) "c = 8 \<and> l = [] \<or> c \<noteq> 8 \<and> length l = 255"
    using idx(2) by linarith
  then show ?thesis
  proof cases
    case del
    let ?s = "s\<lparr>buffer_idx := buffer_idx s - 1\<rparr>"
    have "line_is (butlast l) ?s"
      using assms(2) take_butlast [of l "input_buffer s"] by (auto simp: line_is_def dest: in_set_butlastD)
    moreover obtain m where "in_terminal (shell_putchar (uart_io lag) 8) ?s = Some (?s\<lparr>term_of := m\<rparr>)"
      "shell_shows W H pre base m (t @ [8])" using type_shows [of W H pre base ?s t lag 8] assms(1) by auto
    moreover have "edit_key c l = butlast l" "key_shown c l = [8]" using del by (simp_all add: edit_key_def key_shown_def butlast_same)
    moreover have "shell_input e c s = in_terminal (shell_putchar (uart_io lag) 8) ?s" using del idx by (simp add: shell_input_def assms(4))
    ultimately show ?thesis by (intro exI [of _ "?s\<lparr>term_of := m\<rparr>"]) simp
  next
    case put
    let ?s = "s\<lparr>input_buffer := (input_buffer s)[buffer_idx s := c], buffer_idx := buffer_idx s + 1\<rparr>"
    have "line_is (l @ [c]) ?s" using assms(2,3) put(2) by (simp add: line_is_def MAX_BUFFER_def take_Suc_conv_app_nth)
    moreover obtain m where "in_terminal (shell_putchar (uart_io lag) c) ?s = Some (?s\<lparr>term_of := m\<rparr>)"
      "shell_shows W H pre base m (t @ [c])" using type_shows [of W H pre base ?s t lag c] assms(1) by auto
    moreover have "edit_key c l = l @ [c]" "key_shown c l = [c]" using put by (simp_all add: edit_key_def key_shown_def)
    moreover have "shell_input e c s = in_terminal (shell_putchar (uart_io lag) c) ?s"
      using put idx assms(3) by (simp add: shell_input_def assms(4) MAX_BUFFER_def)
    ultimately show ?thesis by (intro exI [of _ "?s\<lparr>term_of := m\<rparr>"]) simp
  next
    case none
    then have "edit_key c l = l" "key_shown c l = []" by (auto simp: edit_key_def key_shown_def)
    moreover have "shell_input e c s = Some s" using none idx assms(3) by (auto simp: shell_input_def MAX_BUFFER_def)
    ultimately show ?thesis using assms(1,2) by simp
  qed
qed

lemma edit_line:
  assumes "says W H pre base s t" "line_is l s" "set keys \<inter> {0, 10, 13} = {}" "env_io e = uart_io lag"
  shows "\<exists>s'. shell_type e keys s = Some s' \<and> line_is (fold edit_key keys l) s' \<and> says W H pre base s' (t @ keys_shown keys l) \<and>
    nic_of s' = nic_of s \<and> locks_of s' = locks_of s"
  using assms(1-3)
proof (induction keys arbitrary: s t l)
  case (Cons c cs)
  obtain s1 where s1: "shell_input e c s = Some s1" "line_is (edit_key c l) s1" "says W H pre base s1 (t @ key_shown c l)"
    "nic_of s1 = nic_of s \<and> locks_of s1 = locks_of s"
    using edit_step [OF Cons.prems(1,2) _ assms(4), of c] Cons.prems(3) by auto
  from Cons.IH [OF s1(3,2)] Cons.prems(3) s1(1,4) show ?case by simp
qed simp


lemma enter_line:
  assumes "says W H pre base s t" "line_is l s" "c = 10 \<or> c = 13" "env_io e = uart_io lag"
  shows "\<exists>s'. says W H pre base s' (t @ [10]) \<and> length (input_buffer s') = MAX_BUFFER \<and>
    takeWhile (\<lambda>c. c \<noteq> 0) (input_buffer s') = l \<and> nic_of s' = nic_of s \<and> locks_of s' = locks_of s \<and>
    shell_input e c s = map_option (\<lambda>s. s\<lparr>buffer_idx := 0\<rparr>) (if l = [] then say e [Text ''zoho> ''] s' else shell_execute e l s')"
proof -
  obtain m where m: "in_terminal (shell_putchar (uart_io lag) 10) s = Some (s\<lparr>term_of := m\<rparr>)" "shell_shows W H pre base m (t @ [10])"
    using type_shows [OF assms(1)] by blast
  let ?s = "s\<lparr>term_of := m, input_buffer := (input_buffer s)[buffer_idx s := 0]\<rparr>"
  have l: "length (input_buffer s) = 256" "buffer_idx s = length l" "length l < 256" "take (length l) (input_buffer s) = l" "0 \<notin> set l"
    using assms(2) by (simp_all add: line_is_def MAX_BUFFER_def)
  have "(input_buffer s)[length l := 0] = l @ 0 # drop (Suc (length l)) (input_buffer s)"
    using l by (simp add: upd_conv_take_nth_drop)
  moreover have "takeWhile (\<lambda>c. c \<noteq> 0) (l @ 0 # xs) = l" for xs :: "u8 list" using l(5) by (induction l) auto
  ultimately have "takeWhile (\<lambda>c. c \<noteq> 0) (input_buffer ?s) = l" by (simp add: l(2))
  moreover have "shell_input e c s = map_option (\<lambda>s. s\<lparr>buffer_idx := 0\<rparr>) (if l = [] then say e [Text ''zoho> ''] ?s else shell_execute e l ?s)"
    using assms(3) m(1) calculation by (simp add: shell_input_def assms(4) Let_def l(2) split: Option.bind_split)
  ultimately show ?thesis using m(2) l(1) by (intro exI [of _ ?s]) (simp add: MAX_BUFFER_def)
qed


lemma type_append: "shell_type e (xs @ ys) s = Option.bind (shell_type e xs s) (shell_type e ys)"
proof (induction xs arbitrary: s)
  case (Cons c xs)
  then have "shell_type e (xs @ ys) = (\<lambda>s. Option.bind (shell_type e xs s) (shell_type e ys))" by (rule ext)
  then show ?case by simp
qed simp

section \<open>The commands and the buffer\<close>

text \<open>No command changes the length of the buffer or the position in it; \<open>write\<close> alone changes its contents.\<close>

definition keeps_line :: "('d, 'e, 'n) shell \<Rightarrow> ('d, 'e, 'n) shell \<Rightarrow> bool" where
  "keeps_line s s' \<longleftrightarrow> length (input_buffer s') = length (input_buffer s) \<and> buffer_idx s' = buffer_idx s"

lemma keeps_refl [simp]: "keeps_line s s"
  by (simp add: keeps_line_def)

lemma keeps_trans: "keeps_line a b \<Longrightarrow> keeps_line b c \<Longrightarrow> keeps_line a c"
  by (simp add: keeps_line_def)

lemma keeps_simps [simp]:
  "keeps_line s (set_kern k s') = keeps_line s s'" "keeps_line s (set_files v s') = keeps_line s s'"
  "keeps_line s (s'\<lparr>nic_of := n\<rparr>) = keeps_line s s'" "keeps_line s (s'\<lparr>term_of := m\<rparr>) = keeps_line s s'"
  "keeps_line s (s'\<lparr>input_buffer := (input_buffer s')[i := c]\<rparr>) = keeps_line s s'"
  "keeps_line (set_kern k s) s' = keeps_line s s'" "keeps_line (set_files v s) s' = keeps_line s s'"
  "keeps_line (s\<lparr>nic_of := n\<rparr>) s' = keeps_line s s'" "keeps_line (s\<lparr>term_of := m\<rparr>) s' = keeps_line s s'"
  "keeps_line (s\<lparr>input_buffer := (input_buffer s)[i := c]\<rparr>) s' = keeps_line s s'"
  by (simp_all add: keeps_line_def set_kern_def set_files_def split: prod.splits)

lemma terminal_keeps: "in_terminal f s = Some s' \<Longrightarrow> keeps_line s s'"
  by (auto simp: in_terminal_def)

lemma say_keeps: "say e xs s = Some s' \<Longrightarrow> keeps_line s s'"
  by (simp add: say_def terminal_keeps)

lemma net_keeps: "in_net e f s = Some s' \<Longrightarrow> keeps_line s s'"
  by (auto simp: in_net_def)

lemma run_file_keeps: "run_file e f s = Some (ok, s') \<Longrightarrow> keeps_line s s'"
  by (auto simp: run_file_def)

lemma list_files_keeps: "list_files e i s = Some s' \<Longrightarrow> keeps_line s s'"
proof (rule list_files.raw_induct [where P = "\<lambda>e i s s'. keeps_line s s'"])
  fix files :: "('d, 'e, 'n) shell_env \<Rightarrow> int \<Rightarrow> ('d, 'e, 'n) shell \<Rightarrow> ('d, 'e, 'n) shell option" and e i and s s' :: "('d, 'e, 'n) shell"
  assume "\<And>e i s s'. files e i s = Some s' \<Longrightarrow> keeps_line s s'"
  then show "Option.bind (vfs_readdir (disk_reader (plat e)) i (files_in s)) (\<lambda>(r, v). case r of None \<Rightarrow> Some (set_files v s)
      | Some name \<Rightarrow> if 100 < length name then None else Option.bind (say e [Bytes name, newline] (set_files v s)) (files e (i + 1)))
      = Some s' \<Longrightarrow> keeps_line s s'"
    by (auto split: bind_splits option.splits if_splits dest!: say_keeps) (metis keeps_trans)
qed

lemma cmd_write_keeps: "cmd_write e rest s = Some s' \<Longrightarrow> keeps_line s s'"
  by (auto simp: cmd_write_def Let_def split: bind_splits if_splits prod.splits dest!: say_keeps)

lemma cmd_cat_keeps: "cmd_cat e f s = Some s' \<Longrightarrow> keeps_line s s'"
  by (auto simp: cmd_cat_def Let_def split: bind_splits if_splits prod.splits dest!: say_keeps terminal_keeps dest: keeps_trans)

lemma kern_cmds_keep:
  "cmd_dashboard e s = Some s' \<Longrightarrow> keeps_line s s'" "cmd_monitor e s = Some s' \<Longrightarrow> keeps_line s s'"
  "cmd_top e s = Some s' \<Longrightarrow> keeps_line s s'" "cmd_gui e s = Some s' \<Longrightarrow> keeps_line s s'"
  "cmd_heap e s = Some s' \<Longrightarrow> keeps_line s s'" "shell_print_lock_stats e s = Some s' \<Longrightarrow> keeps_line s s'"
  "cmd_clear s = Some s' \<Longrightarrow> keeps_line s s'"
  by (auto simp: cmd_dashboard_def cmd_monitor_def cmd_top_def cmd_gui_def cmd_heap_def shell_print_lock_stats_def cmd_clear_def
      split: bind_splits if_splits prod.splits dest!: say_keeps terminal_keeps)

lemma fork_stress_keep:
  "cmd_fork e s = Some s' \<Longrightarrow> keeps_line s s'" "cmd_stress_proc e s = Some s' \<Longrightarrow> keeps_line s s'"
  "cmd_stress_disk e s = Some s' \<Longrightarrow> keeps_line s s'"
  by (auto simp: cmd_fork_def cmd_stress_proc_def cmd_stress_disk_def Let_def
      split: bind_splits if_splits prod.splits dest!: say_keeps dest: keeps_trans)

lemma hex_keep: "hex_on_line e title n s = Some s' \<Longrightarrow> keeps_line s s'"
  unfolding hex_on_line_def on_line_def
  by (auto split: bind_splits dest!: say_keeps terminal_keeps dest: keeps_trans)

lemma net_cmds_keep:
  "cmd_tcp e f s = Some s' \<Longrightarrow> keeps_line s s'" "cmd_udp e f s = Some s' \<Longrightarrow> keeps_line s s'"
  "cmd_ping e f s = Some s' \<Longrightarrow> keeps_line s s'" "cmd_net e s = Some s' \<Longrightarrow> keeps_line s s'"
  unfolding cmd_tcp_def cmd_udp_def cmd_ping_def cmd_net_def Let_def
  by (auto split: if_splits prod.splits bind_splits dest!: say_keeps net_keeps dest: keeps_trans)

lemma exec_keep:
  "cmd_exec e f s = Some s' \<Longrightarrow> keeps_line s s'" "cmd_unknown e f s = Some s' \<Longrightarrow> keeps_line s s'"
  unfolding cmd_exec_def cmd_unknown_def
  by (auto split: if_splits prod.splits bind_splits dest!: say_keeps run_file_keeps dest: keeps_trans)

lemma run_command_keeps: "run_command e cmd s = Some s' \<Longrightarrow> keeps_line s s'"
  unfolding run_command_def cmd_free_def cmd_ticks_def
  by (simp only: split: if_split_asm) (blast intro: say_keeps kern_cmds_keep fork_stress_keep hex_keep net_cmds_keep exec_keep
      list_files_keeps cmd_write_keeps cmd_cat_keeps)+


definition buffer_ok :: "('d, 'e, 'n) shell \<Rightarrow> bool" where
  "buffer_ok s \<longleftrightarrow> length (input_buffer s) = MAX_BUFFER \<and> buffer_idx s < MAX_BUFFER"

lemma buffer_ok_keeps: "keeps_line s s' \<Longrightarrow> buffer_ok s' = buffer_ok s"
  by (simp add: buffer_ok_def keeps_line_def)

lemma execute_keeps: "shell_execute e cmd s = Some s' \<Longrightarrow> keeps_line s s'"
  unfolding shell_execute_def by (auto split: bind_splits dest!: run_command_keeps say_keeps dest: keeps_trans)

lemma input_ok: "shell_input e c s = Some s' \<Longrightarrow> buffer_ok s \<Longrightarrow> buffer_ok s'"
proof -
  assume c: "shell_input e c s = Some s'" and ok: "buffer_ok s"
  have z: "buffer_ok (a\<lparr>buffer_idx := 0\<rparr>)" if "buffer_ok a" for a :: "('d, 'e, 'n) shell"
    using that by (simp add: buffer_ok_def MAX_BUFFER_def)
  show "buffer_ok s'"
  proof (cases "c = 10 \<or> c = 13")
    case True
    then obtain s1 s2 where "keeps_line s s1" "s' = s2\<lparr>buffer_idx := 0\<rparr>" "keeps_line s1 s2"
      using c by (auto simp: shell_input_def Let_def split: bind_splits if_splits dest!: terminal_keeps execute_keeps say_keeps)
    then show ?thesis using ok z buffer_ok_keeps by metis
  next
    case False
    then show ?thesis
      using c ok by (auto simp: shell_input_def MAX_BUFFER_def buffer_ok_def keeps_line_def split: if_splits dest!: terminal_keeps)
  qed
qed


section \<open>Addresses and ports\<close>

lemma digit_char_decimal: "r < 10 \<Longrightarrow> is_digit (digit_char r)"
proof -
  assume "r < 10"
  then have r: "unat r < 10" by (simp add: word_less_iff_unat)
  then have "unat (ucast r + 48 :: u8) = unat r + 48" by (subst unat_plus_no_wrap) (simp_all add: unat_ucast_small)
  then show ?thesis using r by (simp add: is_digit_def digit_char_def word_less_iff_unat word_le_iff_unat)
qed

lemma itoa_digits_decimal: "base = 10 \<Longrightarrow> list_all is_digit (itoa_digits base n)"
proof (induction base n rule: itoa_digits.induct)
  case (1 base n)
  have "n mod 10 < 10" by (rule word_mod_less_divisor) (simp add: word_less_iff_unat)
  then show ?case using 1 by (subst itoa_digits.simps) (auto intro: digit_char_decimal)
qed

lemma itoa_decimal: "list_all is_digit (itoa n 10)"
  using itoa_digits_decimal [OF refl, of n] by (simp add: itoa_def reverse_buf_rev is_digit_def)

lemma digit_sub: "is_digit c \<Longrightarrow> ucast c - 48 = (of_nat (digit_value c) :: 'a::len word)"
proof -
  assume "is_digit c"
  then have c: "48 \<le> unat c" "unat c \<le> 57" by (simp_all add: is_digit_def word_le_iff_unat)
  then have "digit_value c = unat c - 48" by (simp add: digit_value_def word_le_iff_unat)
  then have "(of_nat (digit_value c) :: 'a word) = of_nat (unat c) - 48" using c by (simp add: of_nat_diff)
  then show ?thesis by simp
qed

lemma digits_fold:
  "list_all is_digit ds \<Longrightarrow> foldl (\<lambda>a c. a * 10 + (ucast c - 48)) (of_nat n :: 'a::len word) ds =
    of_nat (foldl (\<lambda>a c. a * 10 + digit_value c) n ds)"
proof (induction ds arbitrary: n)
  case (Cons c ds)
  have "of_nat n * 10 + (ucast c - 48) = (of_nat (n * 10 + digit_value c) :: 'a word)" using Cons.prems by (simp add: digit_sub)
  then show ?case using Cons by (simp only: foldl_Cons list.pred_inject)
qed simp

lemma itoa_fold: "foldl (\<lambda>a c. a * 10 + (ucast c - 48)) 0 (itoa n 10) = (ucast n :: 'a::len word)"
  using digits_fold [OF itoa_decimal, of 0 n, where 'a = 'a] itoa_value [of 10 n]
  by (simp add: numeral_value_def)

lemma parse_ip_digits:
  "list_all is_digit ds \<Longrightarrow> part < 4 \<Longrightarrow> part < length ip \<Longrightarrow>
   parse_ip stop ip part (ds @ cs) = parse_ip stop (ip[part := foldl (\<lambda>a c. a * 10 + (ucast c - 48)) (ip ! part) ds]) part cs"
  by (induction ds arbitrary: ip) simp_all

lemma parse_ip_number:
  "part < 4 \<Longrightarrow> part < length ip \<Longrightarrow> ip ! part = 0 \<Longrightarrow>
   parse_ip stop ip part (itoa n 10 @ cs) = parse_ip stop (ip[part := ucast n]) part cs"
  using itoa_fold [of n, where 'a = 8] by (simp add: parse_ip_digits [OF itoa_decimal])

lemma parse_port_digits: "list_all is_digit ds \<Longrightarrow> parse_port port ds = foldl (\<lambda>a c. a * 10 + (ucast c - 48)) port ds"
  by (induction ds arbitrary: port) simp_all

lemma parse_ip_dot: "part < 4 \<Longrightarrow> parse_ip stop ip part (46 # cs) = parse_ip stop ip (part + 1) cs"
  by (simp add: is_digit_def)

text \<open>An address in dotted notation.\<close>

definition dotted :: "u64 list \<Rightarrow> u8 list" where
  "dotted ns = itoa (ns ! 0) 10 @ [46] @ itoa (ns ! 1) 10 @ [46] @ itoa (ns ! 2) 10 @ [46] @ itoa (ns ! 3) 10"

lemma parse_dotted: "parse_ip stop [0, 0, 0, 0] 0 (dotted [a, b, c, d] @ cs) =
    parse_ip stop [ucast a, ucast b, ucast c, ucast d] 3 cs"
  by (simp add: dotted_def parse_ip_number parse_ip_dot numeral_3_eq_3 del: parse_ip.simps)

text \<open>
  C37. Reading an address and a port: \<open>tcp\<close> with an address in dotted notation and a port connects to exactly that address and port;
  each number counts modulo its width, and a port that is 0 modulo \<open>2 ^ 16\<close> gives the usage line.
\<close>

theorem tcp_command_parses:
  "run_command e (map of_char ''tcp '' @ dotted [a, b, c, d] @ [32] @ itoa p 10) s =
     (if (ucast p :: u16) = 0 then say e [line_of ''Usage: tcp <ip> <port>''] s
      else in_net e (tcp_connect (nic_polls e) [ucast a, ucast b, ucast c, ucast d] (ucast p)) s)"
proof -
  have "parse_ip True [ucast a, ucast b, ucast c, ucast d] 3 (32 # itoa p 10) = ([ucast a, ucast b, ucast c, ucast d], 3, itoa p 10)"
    by (simp add: is_digit_def)
  then show ?thesis
    using parse_dotted [of True a b c d "[32] @ itoa p 10"]
    by (simp add: run_command_def is_cmd_def has_prefix_def of_char_def cmd_tcp_def parse_port_digits [OF itoa_decimal] itoa_fold
        word_greater_zero_iff)
qed

text \<open>The same for \<open>ping\<close>.\<close>

theorem ping_command_parses:
  "run_command e (map of_char ''ping '' @ dotted [a, b, c, d]) s = in_net e (net_ping (nic_polls e) [ucast a, ucast b, ucast c, ucast d]) s"
  using parse_dotted [of False a b c d "[]"]
  by (simp add: run_command_def is_cmd_def has_prefix_def of_char_def cmd_ping_def)

section \<open>Properties\<close>

text \<open>
  C36. Line editing: whatever keys are typed before Enter, backspaces and more characters than fit included, the keys that have an effect
  are shown, the line stays below the size of the buffer, and Enter runs exactly the edited line (or prints the prompt when it is
  empty) and starts a new one.
\<close>

theorem shell_line_correct:
  assumes "says W H pre base s t" "line_is [] s" "set keys \<inter> {0, 10, 13} = {}" "c = 10 \<or> c = 13" "env_io e = uart_io lag"
  shows "\<exists>s'. says W H pre base s' (t @ keys_shown keys [] @ [10]) \<and> nic_of s' = nic_of s \<and> locks_of s' = locks_of s \<and>
    length (fold edit_key keys []) < MAX_BUFFER \<and>
    shell_type e (keys @ [c]) s = map_option (\<lambda>s. s\<lparr>buffer_idx := 0\<rparr>)
      (if fold edit_key keys [] = [] then say e [Text ''zoho> ''] s' else shell_execute e (fold edit_key keys []) s')"
proof -
  obtain s1 where s1: "shell_type e keys s = Some s1" "line_is (fold edit_key keys []) s1" "says W H pre base s1 (t @ keys_shown keys [])"
    "nic_of s1 = nic_of s \<and> locks_of s1 = locks_of s"
    using edit_line [OF assms(1-3,5)] by blast
  have one: "shell_type e [c] = shell_input e c" by (intro ext) (simp add: bind_eq_None_conv split: Option.bind_split)
  have "length (fold edit_key keys []) < MAX_BUFFER" using s1(2) by (simp add: line_is_def)
  moreover have "shell_type e (keys @ [c]) s = shell_input e c s1" by (simp add: type_append s1(1) one)
  moreover from enter_line [OF s1(3,2) assms(4,5)] obtain s' where s': "says W H pre base s' ((t @ keys_shown keys []) @ [10])"
    "length (input_buffer s') = MAX_BUFFER" "takeWhile (\<lambda>c. c \<noteq> 0) (input_buffer s') = fold edit_key keys []"
    "nic_of s' = nic_of s1" "locks_of s' = locks_of s1"
    "shell_input e c s1 = map_option (\<lambda>s. s\<lparr>buffer_idx := 0\<rparr>)
      (if fold edit_key keys [] = [] then say e [Text ''zoho> ''] s' else shell_execute e (fold edit_key keys []) s')"
    by (elim exE conjE) (rule that)
  moreover have "says W H pre base s' (t @ keys_shown keys [] @ [10])" using s'(1) by (simp only: append.assoc)
  moreover have "nic_of s' = nic_of s" "locks_of s' = locks_of s" using s'(4,5) s1(4) by simp_all
  ultimately show ?thesis using s'(6) by metis
qed

text \<open>
  Whatever bytes arrive, with Enter and the commands they run among them: the position never leaves the input buffer, whose length
  stays the same.
\<close>

theorem shell_buffer_safe:
  assumes "buffer_ok s" "shell_type e keys s = Some s'"
  shows "buffer_ok s'"
  using assms by (induction keys arbitrary: s) (auto split: bind_splits dest: input_ok)


text \<open>The prompt follows what a command prints.\<close>

lemma printing_command:
  assumes "says W H pre base s t" "env_io e = uart_io lag" "list_all item_ok xs" "run_command e cmd s = say e xs s"
  shows "\<exists>s'. shell_execute e cmd s = Some s' \<and> says W H pre base s' (t @ items_bytes xs @ map of_char ''zoho> '') \<and>
    keeps_line s s' \<and> nic_of s' = nic_of s \<and> locks_of s' = locks_of s"
proof -
  obtain m where m: "say e xs s = Some (s\<lparr>term_of := m\<rparr>)" "shell_shows W H pre base m (t @ items_bytes xs)"
    using say_shows [OF assms(1-3)] by blast
  have "list_all item_ok [Text ''zoho> '']" by (simp add: of_char_def)
  from say_shows [OF _ assms(2) this, of W H pre base "s\<lparr>term_of := m\<rparr>" "t @ items_bytes xs"] m(2)
  obtain m' where "say e [Text ''zoho> ''] (s\<lparr>term_of := m\<rparr>) = Some (s\<lparr>term_of := m'\<rparr>)"
    "shell_shows W H pre base m' ((t @ items_bytes xs) @ items_bytes [Text ''zoho> ''])"
    unfolding shell.select_convs shell.update_convs by auto
  moreover have "items_bytes [Text ''zoho> ''] = map of_char ''zoho> ''" by (simp add: items_bytes_def)
  ultimately have "say e [Text ''zoho> ''] (s\<lparr>term_of := m\<rparr>) = Some (s\<lparr>term_of := m'\<rparr>)"
    "shell_shows W H pre base m' (t @ items_bytes xs @ map of_char ''zoho> '')" by (simp_all only: append.assoc)
  then show ?thesis using m(1) assms(4) by (intro exI [of _ "s\<lparr>term_of := m'\<rparr>"]) (simp add: shell_execute_def)
qed

text \<open>\<open>help\<close> prints the list of the commands and the prompt.\<close>

theorem shell_help_correct:
  assumes "says W H pre base s t" "env_io e = uart_io lag"
  shows "\<exists>s'. shell_execute e (map of_char ''help'') s = Some s' \<and>
    says W H pre base s' (t @ map of_char help_text @ [10] @ map of_char ''zoho> '')"
proof -
  have "list_all item_ok [line_of help_text]" by (simp add: line_of_def help_text_def of_char_def)
  from printing_command [OF assms this, of "map of_char ''help''"] show ?thesis
    by (auto simp: run_command_def is_cmd_def items_bytes_def line_of_def of_char_def)
qed


text \<open>A shell on the terminal of two by two cells.\<close>

definition tiny_machine :: "'h \<Rightarrow> (uart, 'h) term_machine" where
  "tiny_machine r = (let (t, d, y) = tiny_term in (t, d, \<lparr>kern_of = kern_of y, screen_of = screen_of y, pit_of = pit_of y,
     mouse_of = mouse_of y, rest_of = r\<rparr>))"

lemma tiny_machine_shows: "shell_shows 2 2 [] [] (tiny_machine r) []"
  using tiny_term_shows by (simp add: tiny_machine_def tiny_term_def shell_shows_def)

definition tiny_shell :: "(uart, drive, unit) shell" where
  "tiny_shell = \<lparr>input_buffer = replicate 256 0, buffer_idx = 0, nic_of = undefined, locks_of = undefined, term_of = tiny_machine tar_fs\<rparr>"

definition tiny_env :: "(uart, drive, unit) shell_env" where
  "tiny_env = undefined\<lparr>plat := undefined\<lparr>platform.ports := uart_io 3\<rparr>\<rparr>"

lemma tiny_shell_ready:
  "says 2 2 [] [] tiny_shell []" "line_is [] tiny_shell" "env_io tiny_env = uart_io 3" "buffer_ok tiny_shell"
  by (simp_all add: tiny_shell_def tiny_machine_shows line_is_def MAX_BUFFER_def env_io_def tiny_env_def buffer_ok_def)

theorem shell_line_correct_witness:
  "\<exists>s'. says 2 2 [] [] s' [108, 120, 8, 115, 10] \<and> shell_type tiny_env [108, 120, 8, 115, 13] tiny_shell =
     map_option (\<lambda>s. s\<lparr>buffer_idx := 0\<rparr>) (shell_execute tiny_env (map of_char ''ls'') s')"
proof -
  have "fold edit_key [108, 120, 8, 115] [] = map of_char ''ls''" "keys_shown [108, 120, 8, 115] [] = [108, 120, 8, 115]"
    by (simp_all add: edit_key_def key_shown_def of_char_def)
  then show ?thesis
    using shell_line_correct [OF tiny_shell_ready(1,2) _ _ tiny_shell_ready(3), of "[108, 120, 8, 115]" 13] by auto
qed

theorem shell_buffer_safe_witness:
  "\<exists>s'. shell_type tiny_env [97, 8, 98] tiny_shell = Some s' \<and> buffer_ok s'"
proof -
  obtain s' where s': "shell_type tiny_env [97, 8, 98] tiny_shell = Some s'"
    using edit_line [OF tiny_shell_ready(1,2) _ tiny_shell_ready(3), of "[97, 8, 98]"] by auto
  from shell_buffer_safe [OF tiny_shell_ready(4) s'] s' show ?thesis by blast
qed

end
