(* ===== verification/Stats.thy ===== *)
theory Stats
  imports Pmm
begin

text \<open>The kernel statistics (src/kernel/kstats.c) and the trace buffer (src/kernel/ktrace.c); the log output is left out.\<close>

section \<open>Statistics\<close>

record kernel_stats_t =
  uptime_ms :: u64
  total_memory :: u64
  used_memory :: u64
  active_tasks :: u32
  page_faults :: u64

definition kstats_update :: "pmm_state \<Rightarrow> kernel_stats_t \<Rightarrow> kernel_stats_t" where
  "kstats_update p s = s\<lparr>used_memory := (pmm_get_total_frames p - pmm_get_free_count p) * PAGE_SIZE\<rparr>"

definition kstats_init :: "pmm_state \<Rightarrow> kernel_stats_t" where
  "kstats_init p = \<lparr>uptime_ms = 0, total_memory = pmm_get_total_frames p * PAGE_SIZE,
     used_memory = (pmm_get_total_frames p - pmm_get_free_count p) * PAGE_SIZE, active_tasks = 0, page_faults = 0\<rparr>"

definition kstats_get :: "kernel_stats_t \<Rightarrow> kernel_stats_t" where
  "kstats_get s = s"

section \<open>The trace\<close>

definition MAX_TRACE_EVENTS :: nat where "MAX_TRACE_EVENTS = 1024"

text \<open>An event is the address of its string.\<close>

record trace =
  trace_buffer :: "u64 carray"
  trace_index :: u32

definition ktrace_init :: "trace \<Rightarrow> trace" where
  "ktrace_init s = s\<lparr>trace_buffer := (\<lambda>i. if i < MAX_TRACE_EVENTS then 0 else trace_buffer s i), trace_index := 0\<rparr>"

definition ktrace_log :: "u64 \<Rightarrow> trace \<Rightarrow> trace" where
  "ktrace_log event s =
     (if unat (trace_index s) < MAX_TRACE_EVENTS
      then s\<lparr>trace_buffer := (trace_buffer s)(unat (trace_index s) := event), trace_index := trace_index s + 1\<rparr> else s)"

section \<open>Properties\<close>

text \<open>The statistics stay exact while the allocator is used: what is used and what is free add up to the total.\<close>

theorem kstats_exact:
  assumes "pmm_inv p" "card (free_frames p) \<le> unat (total_frames p)" "unat (total_frames p) * 4096 < 2 ^ 64"
  shows "unat (used_memory (kstats_update p s)) + 4096 * card (free_frames p) = 4096 * unat (total_frames p)"
proof -
  have d: "unat (total_frames p - pmm_get_free_count p) = unat (total_frames p) - card (free_frames p)"
    using assms(2) free_count_card [OF assms(1)] by (subst unat_minus_no_wrap) (simp_all add: word_le_iff_unat)
  have "unat (d * 4096) = unat d * 4096" if "unat d \<le> unat (total_frames p)" for d :: u64
    using that assms(3) by (simp add: unat_word_ariths)
  from this [of "total_frames p - pmm_get_free_count p", unfolded d]
  have "unat (used_memory (kstats_update p s)) = (unat (total_frames p) - card (free_frames p)) * 4096"
    unfolding kstats_update_def pmm_get_total_frames_def PAGE_SIZE_def kernel_stats_t.simps by simp
  then show ?thesis using assms(2) by (simp add: algebra_simps)
qed

text \<open>The buffer keeps the first 1024 events in their order; later ones are dropped and nothing beyond the buffer is written.\<close>

lemma trace_append:
  assumes "trace_index s = of_nat n" "n \<le> 1024"
  shows "trace_index (fold ktrace_log es s) = of_nat (min 1024 (n + length es)) \<and>
    (\<forall>i. trace_buffer (fold ktrace_log es s) i = (if n \<le> i \<and> i < min 1024 (n + length es) then es ! (i - n) else trace_buffer s i))"
  using assms
proof (induction es arbitrary: s n)
  case (Cons e es)
  have n: "unat (of_nat n :: u32) = n" using Cons.prems(2) by (intro unat_of_nat_small) simp
  show ?case
  proof (cases "n = 1024")
    case True
    then have "ktrace_log e s = s" using Cons.prems n by (simp add: ktrace_log_def MAX_TRACE_EVENTS_def)
    then show ?thesis using Cons.IH [OF Cons.prems] True by auto
  next
    case False
    let ?t = "s\<lparr>trace_buffer := (trace_buffer s)(n := e), trace_index := of_nat (n + 1)\<rparr>"
    have "ktrace_log e s = ?t" using Cons.prems n False by (simp add: ktrace_log_def MAX_TRACE_EVENTS_def add.commute)
    moreover have "trace_index ?t = of_nat (n + 1)" "n + 1 \<le> 1024" using Cons.prems(2) False by simp_all
    note Cons.IH [OF this]
    ultimately show ?thesis using False Cons.prems(2) by (auto simp: nth_Cons' min_def split: if_splits)
  qed
qed (auto simp: min_def)

theorem ktrace_correct:
  "map (trace_buffer (fold ktrace_log es (ktrace_init s))) [0..<min 1024 (length es)] = take 1024 es \<and>
   (\<forall>i\<ge>1024. trace_buffer (fold ktrace_log es (ktrace_init s)) i = trace_buffer s i)"
  using trace_append [of "ktrace_init s" 0 es]
  by (auto simp: ktrace_init_def MAX_TRACE_EVENTS_def list_eq_iff_nth_eq)

end
