(* ===== verification/Smp.thy ===== *)
theory Smp
  imports Apic Input Idt Spawn
begin

text \<open>
  Starting the other processors (src/kernel/smp.c). The boot processor works on the whole machine while the others run; what they
  do is seen when it reads \<open>ap_started_count\<close>, so every such read is preceded by a step \<open>others\<close> of the environment.
\<close>

section \<open>State\<close>

record ('d, 'h) smp =
  mach :: "('d, 'h) machine"
  ap_started_count :: u32
  gdt_at :: "u64 \<Rightarrow> cpu_gdt"

text \<open>
  The registers and the time stamp counter are parameters, and so are the addresses that the linker and the assembler choose: the
  trampoline, its four cells, \<open>ap_main\<close>, and where a CPU structure holds its descriptor table and its task segment.
\<close>

record ('d, 'h) smp_env =
  cpu_regs :: "'d cpu_io"
  tsc_instr :: "'d \<Rightarrow> u32 \<times> u32 \<times> 'd"
  lapic_mmio :: u64
  trampoline_start :: u64
  trampoline_end :: u64
  trampoline_p4_addr :: u64
  trampoline_stack_addr :: u64
  trampoline_entry_addr :: u64
  trampoline_apic_id :: u64
  ap_main_at :: u64
  gdt_off :: u64
  tss_off :: u64
  others :: "('d, 'h) smp \<Rightarrow> ('d, 'h) smp"

definition dev :: "('d, 'h) smp \<Rightarrow> 'd" where
  "dev s = fst (mach s)"

definition kern_at :: "('d, 'h) smp \<Rightarrow> kern" where
  "kern_at s = kern_of (snd (mach s))"

definition put_dev :: "'d \<Rightarrow> ('d, 'h) smp \<Rightarrow> ('d, 'h) smp" where
  "put_dev d s = s\<lparr>mach := (d, snd (mach s))\<rparr>"

definition put_kern :: "kern \<Rightarrow> ('d, 'h) smp \<Rightarrow> ('d, 'h) smp" where
  "put_kern k s = s\<lparr>mach := (dev s, (snd (mach s))\<lparr>kern_of := k\<rparr>)\<rparr>"

definition mem_at :: "('d, 'h) smp \<Rightarrow> memory" where
  "mem_at s = phys_mem (vm (kern_at s))"

definition put_mem :: "memory \<Rightarrow> ('d, 'h) smp \<Rightarrow> ('d, 'h) smp" where
  "put_mem m s = put_kern ((kern_at s)\<lparr>vm := (vm (kern_at s))\<lparr>phys_mem := m\<rparr>\<rparr>) s"

section \<open>A processor that has been started\<close>

text \<open>
  Up to \<open>sti\<close>; afterwards it only waits for interrupts. The GS base of a processor is 0 after its reset, so \<open>get_cpu\<close> reads the
  qword at 16 until \<open>cpu_init\<close> has set it.
\<close>

definition ap_main :: "('d, 'h) smp_env \<Rightarrow> u32 \<Rightarrow> u64 \<Rightarrow> ('d, 'h) smp \<Rightarrow> ('d, 'h) smp option" where
  "ap_main e acpi_lapic apic_id_64 s =
     (let apic_id = ucast apic_id_64; k = (kern_at s)\<lparr>gs_cpu := load64 (mem_at s) 16\<rparr>
      in Option.bind (cpu_init apic_id k) (\<lambda>k.
           let cpu = gs_cpu k;
               s = (put_kern k s)\<lparr>gdt_at := (gdt_at s)(cpu := gdt_init (cpu + gdt_off e) (cpu + tss_off e) (gdt_at s cpu))\<rparr>;
               (base, d) = lapic_init (cpu_regs e) acpi_lapic (dev s)
           in Option.bind (lapic_timer_init (cpu_regs e) base 100 d) (\<lambda>d.
              Option.bind (task_init_per_cpu (kern_at s)) (\<lambda>k.
                Some ((put_kern k (put_dev d s))\<lparr>ap_started_count := ap_started_count s + 1\<rparr>)))))"

section \<open>Starting them\<close>

definition read_started :: "('d, 'h) smp_env \<Rightarrow> ('d, 'h) smp \<Rightarrow> u32 \<times> ('d, 'h) smp" where
  "read_started e s = (let s = others e s in (ap_started_count s, s))"

text \<open>\<open>while (ap_started_count == current_count && timeout--)\<close>.\<close>

fun wait_started :: "('d, 'h) smp_env \<Rightarrow> u32 \<Rightarrow> nat \<Rightarrow> ('d, 'h) smp \<Rightarrow> ('d, 'h) smp" where
  "wait_started e current_count 0 s = snd (read_started e s)"
| "wait_started e current_count (Suc timeout) s =
     (let (n, s) = read_started e s in if n = current_count then wait_started e current_count timeout s else s)"

definition send_ipi :: "('d, 'h) smp_env \<Rightarrow> u8 \<Rightarrow> u32 \<Rightarrow> ('d, 'h) smp \<Rightarrow> ('d, 'h) smp" where
  "send_ipi e apic_id vector s = put_dev (lapic_send_ipi (cpu_regs e) (lapic_mmio e) apic_id vector (dev s)) s"

definition pause_us :: "('d, 'h) smp_env \<Rightarrow> u32 \<Rightarrow> ('d, 'h) smp \<Rightarrow> ('d, 'h) smp option" where
  "pause_us e us s =
     map_option (\<lambda>(p, d). s\<lparr>mach := (d, (snd (mach s))\<lparr>pit_of := p\<rparr>)\<rparr>) (delay_us (tsc_instr e) us (pit_of (snd (mach s)), dev s))"

definition pause_ms :: "('d, 'h) smp_env \<Rightarrow> u32 \<Rightarrow> ('d, 'h) smp \<Rightarrow> ('d, 'h) smp option" where
  "pause_ms e ms s =
     map_option (\<lambda>(p, d). s\<lparr>mach := (d, (snd (mach s))\<lparr>pit_of := p\<rparr>)\<rparr>) (delay_ms (tsc_instr e) ms (pit_of (snd (mach s)), dev s))"

text \<open>A cell of the copied trampoline.\<close>

definition tramp_cell :: "('d, 'h) smp_env \<Rightarrow> u64 \<Rightarrow> u64" where
  "tramp_cell e addr = 0x8000 + (addr - trampoline_start e)"

definition store_cell :: "('d, 'h) smp_env \<Rightarrow> u64 \<Rightarrow> u64 \<Rightarrow> ('d, 'h) smp \<Rightarrow> ('d, 'h) smp" where
  "store_cell e addr v s = put_mem (store64 (mem_at s) (tramp_cell e addr) v) s"

definition start_ap :: "('d, 'h) smp_env \<Rightarrow> u8 \<Rightarrow> ('d, 'h) smp \<Rightarrow> ('d, 'h) smp option" where
  "start_ap e apic_id s =
     (let s = store_cell e (trampoline_apic_id e) (ucast apic_id) s
      in Option.bind (k_malloc (4096 * 4) (kern_at s)) (\<lambda>(stack, k).
           let s = store_cell e (trampoline_stack_addr e) (stack + 4096 * 4) (put_kern k s);
               (current_count, s) = read_started e s;
               s = send_ipi e apic_id 0x500 s
           in Option.bind (pause_ms e 10 s) (\<lambda>s.
              Option.bind (pause_us e 200 (send_ipi e apic_id 0x608 s)) (\<lambda>s.
              let (n, s) = read_started e s
              in Option.bind (if n = current_count then pause_us e 200 (send_ipi e apic_id 0x608 s) else Some s) (\<lambda>s.
                 Some (wait_started e current_count 100000 s))))))"

fun start_aps :: "('d, 'h) smp_env \<Rightarrow> u8 \<Rightarrow> u8 list \<Rightarrow> ('d, 'h) smp \<Rightarrow> ('d, 'h) smp option" where
  "start_aps e bsp_id [] s = Some s"
| "start_aps e bsp_id (i # ids) s =
     (if i = bsp_id then start_aps e bsp_id ids s else Option.bind (start_ap e i s) (start_aps e bsp_id ids))"

definition smp_init :: "('d, 'h) smp_env \<Rightarrow> acpi_vars \<Rightarrow> ('d, 'h) smp \<Rightarrow> ('d, 'h) smp option" where
  "smp_init e acpi s =
     (let s = put_mem (memcpy 0x8000 (trampoline_start e) (trampoline_end e - trampoline_start e) (mem_at s)) s;
          s = store_cell e (trampoline_p4_addr e) (cr3 (kern_at s)) s;
          s = store_cell e (trampoline_entry_addr e) (ap_main_at e) s;
          (bsp_id, d) = lapic_get_id (cpu_regs e) (lapic_mmio e) (dev s)
      in start_aps e bsp_id (map ((!) (cpu_ids acpi)) [0..<nat (acpi_cpu_count acpi)]) (put_dev d s))"


section \<open>The hardware\<close>

text \<open>
  What \<open>smp_init\<close> needs of the machine: the writes to the local APIC arrive in their order, the delays end, and the other processors
  leave this APIC and the heap in order.
\<close>

definition fine :: "('d, 'h) smp \<Rightarrow> bool" where
  "fine s \<longleftrightarrow> heap_inv (win_heap (desktop (kern_at s)))"

locale bring_up =
  fixes e :: "('d, 'h) smp_env" and writes :: "'d \<Rightarrow> (u64 \<times> u32) list"
  assumes arrives: "writes (mmio_out (cpu_regs e) a v d) = writes d @ [(a, v)]"
    and looked: "writes (snd (mmio_in (cpu_regs e) a d)) = writes d"
    and delay: "\<exists>d'. delay_us (tsc_instr e) us (p, d) = Some (p, d') \<and> writes d' = writes d"
    and quiet: "writes (dev (others e s)) = writes (dev s)"
    and heap: "fine s \<Longrightarrow> fine (others e s)"

text \<open>The writes that send an interrupt to a processor, and those that start it.\<close>

definition ipi :: "('d, 'h) smp_env \<Rightarrow> u8 \<Rightarrow> u32 \<Rightarrow> (u64 \<times> u32) list" where
  "ipi e i v = [(lapic_mmio e + 0x310, push_bit 24 (ucast i)), (lapic_mmio e + 0x300, v)]"

definition wakeup :: "('d, 'h) smp_env \<Rightarrow> u8 \<Rightarrow> bool \<Rightarrow> (u64 \<times> u32) list" where
  "wakeup e i again = ipi e i 0x500 @ ipi e i 0x608 @ (if again then ipi e i 0x608 else [])"

lemma smp_simps [simp]:
  "dev (put_dev d s) = d" "dev (put_kern k s) = dev s" "dev (put_mem m s) = dev s" "dev (store_cell e a v s) = dev s"
  "kern_at (put_dev d s) = kern_at s" "kern_at (put_kern k s) = k" "fine (put_dev d s) = fine s"
  "fine (put_mem m s) = fine s" "fine (store_cell e a v s) = fine s"
  "fine (s\<lparr>mach := (d, (snd (mach s))\<lparr>pit_of := p\<rparr>)\<rparr>) = fine s" "fine (s\<lparr>mach := (d, snd (mach s))\<rparr>) = fine s"
  "fine (put_kern k s) = heap_inv (win_heap (desktop k))"
  "dev (s\<lparr>mach := (d, y)\<rparr>) = d"
  "kern_at (s\<lparr>mach := (d, (snd (mach s))\<lparr>pit_of := p\<rparr>)\<rparr>) = kern_at s"
  by (simp_all add: dev_def kern_at_def put_dev_def put_kern_def put_mem_def store_cell_def fine_def)

context bring_up
begin

lemma read_started_fine: "writes (dev (snd (read_started e s))) = writes (dev s)" "fine s \<Longrightarrow> fine (snd (read_started e s))"
  using heap by (simp_all add: read_started_def Let_def quiet)

lemma wait_started_fine: "writes (dev (wait_started e c n s)) = writes (dev s) \<and> (fine s \<longrightarrow> fine (wait_started e c n s))"
  using read_started_fine by (induction n arbitrary: s) (auto split: prod.splits; metis snd_conv)+

lemma send_fine: "writes (dev (send_ipi e i v s)) = writes (dev s) @ ipi e i v" "fine (send_ipi e i v s) = fine s"
  by (simp_all add: send_ipi_def lapic_send_ipi_def arrives ipi_def)

lemma pause_us_fine: "\<exists>s'. pause_us e us s = Some s' \<and> writes (dev s') = writes (dev s) \<and> (fine s \<longrightarrow> fine s')"
proof -
  obtain d' where "delay_us (tsc_instr e) us (pit_of (snd (mach s)), dev s) = Some (pit_of (snd (mach s)), d')" "writes d' = writes (dev s)"
    using delay by blast
  then show ?thesis by (simp add: pause_us_def)
qed

lemma pause_ms_fine: "\<exists>s'. pause_ms e ms s = Some s' \<and> writes (dev s') = writes (dev s) \<and> (fine s \<longrightarrow> fine s')"
  using pause_us_fine [of "ms * 1000" s] by (simp add: pause_ms_def pause_us_def delay_ms_def)

lemma start_ap_wakes:
  assumes "fine s"
  shows "\<exists>s' again. start_ap e i s = Some s' \<and> fine s' \<and> writes (dev s') = writes (dev s) @ wakeup e i again"
proof -
  let ?s1 = "store_cell e (trampoline_apic_id e) (ucast i) s"
  obtain stack h where m: "k_malloc (4096 * 4) (kern_at ?s1) =
      Some (stack, (kern_at ?s1)\<lparr>desktop := (desktop (kern_at ?s1))\<lparr>win_heap := h\<rparr>\<rparr>)" "heap_inv h"
    using k_malloc_spec [of "kern_at ?s1" "4096 * 4"] assms by (auto simp: fine_def [symmetric])
  let ?k = "(kern_at ?s1)\<lparr>desktop := (desktop (kern_at ?s1))\<lparr>win_heap := h\<rparr>\<rparr>"
  let ?s2 = "store_cell e (trampoline_stack_addr e) (stack + 4096 * 4) (put_kern ?k ?s1)"
  have f2: "fine ?s2" using m(2) by simp
  obtain c s3 where s3: "read_started e ?s2 = (c, s3)" by fastforce
  then have f3: "fine s3" "writes (dev s3) = writes (dev s)" using read_started_fine [of ?s2] f2 by auto
  obtain s4 where s4: "pause_ms e 10 (send_ipi e i 0x500 s3) = Some s4" "fine s4" "writes (dev s4) = writes (dev s) @ ipi e i 0x500"
    using pause_ms_fine [of 10 "send_ipi e i 0x500 s3"] f3 by (auto simp: send_fine)
  obtain s5 where s5: "pause_us e 200 (send_ipi e i 0x608 s4) = Some s5" "fine s5"
      "writes (dev s5) = writes (dev s) @ ipi e i 0x500 @ ipi e i 0x608"
    using pause_us_fine [of 200 "send_ipi e i 0x608 s4"] s4 by (auto simp: send_fine)
  obtain n s6 where s6: "read_started e s5 = (n, s6)" by fastforce
  then have f6: "fine s6" "writes (dev s6) = writes (dev s5)" using read_started_fine [of s5] s5(2) by auto
  obtain s7 where s7: "(if n = c then pause_us e 200 (send_ipi e i 0x608 s6) else Some s6) = Some s7" "fine s7"
      "writes (dev s7) = writes (dev s) @ wakeup e i (n = c)"
    using pause_us_fine [of 200 "send_ipi e i 0x608 s6"] f6 s5(3) by (cases "n = c") (auto simp: send_fine wakeup_def)
  have "start_ap e i s = Some (wait_started e c 100000 s7)"
    using m(1) s3 s4(1) s5(1) s6 s7(1) by (simp add: start_ap_def Let_def)
  then show ?thesis using wait_started_fine [of c 100000 s7] s7(2,3) by auto
qed

lemma start_aps_wake:
  "fine s \<Longrightarrow> \<exists>s' rs. start_aps e b ids s = Some s' \<and> fine s' \<and> length rs = length (filter (\<lambda>i. i \<noteq> b) ids) \<and>
    writes (dev s') = writes (dev s) @ concat (map2 (wakeup e) (filter (\<lambda>i. i \<noteq> b) ids) rs)"
proof (induction ids arbitrary: s)
  case (Cons i ids)
  show ?case
  proof (cases "i = b")
    case False
    obtain s1 r where s1: "start_ap e i s = Some s1" "fine s1" "writes (dev s1) = writes (dev s) @ wakeup e i r"
      using start_ap_wakes [OF Cons.prems] by blast
    obtain s' rs where "start_aps e b ids s1 = Some s'" "fine s'" "length rs = length (filter (\<lambda>i. i \<noteq> b) ids)"
      "writes (dev s') = writes (dev s1) @ concat (map2 (wakeup e) (filter (\<lambda>i. i \<noteq> b) ids) rs)"
      using Cons.IH [OF s1(2)] by blast
    then show ?thesis using s1 False by (intro exI [of _ s'] exI [of _ "r # rs"]) simp
  qed (use Cons in simp)
qed simp

lemma smp_init_wakes:
  assumes "fine s" "targets = filter (\<lambda>i. i \<noteq> fst (lapic_get_id (cpu_regs e) (lapic_mmio e) (dev s))) (map ((!) (cpu_ids acpi)) [0..<nat (acpi_cpu_count acpi)])"
  shows "\<exists>s' rs. smp_init e acpi s = Some s' \<and> fine s' \<and> length rs = length targets \<and>
    writes (dev s') = writes (dev s) @ concat (map2 (wakeup e) targets rs)"
proof -
  obtain b d where b: "lapic_get_id (cpu_regs e) (lapic_mmio e) (dev s) = (b, d)" by fastforce
  then have "writes d = writes (dev s)"
    using looked [of "lapic_mmio e + ucast (0x20 :: u32)" "dev s"] by (auto simp: lapic_get_id_def lapic_read_def split: prod.splits)
  then show ?thesis
    using assms start_aps_wake [of "put_dev d (store_cell e (trampoline_entry_addr e) (ap_main_at e) (store_cell e (trampoline_p4_addr e)
        (cr3 (kern_at (put_mem (memcpy 0x8000 (trampoline_start e) (trampoline_end e - trampoline_start e) (mem_at s)) s)))
        (put_mem (memcpy 0x8000 (trampoline_start e) (trampoline_end e - trampoline_start e) (mem_at s)) s)))" b
        "map ((!) (cpu_ids acpi)) [0..<nat (acpi_cpu_count acpi)]"]
    by (simp add: smp_init_def Let_def b)
qed

end


section \<open>Prompt processors\<close>

text \<open>A processor keeps the heap in order while it starts.\<close>

lemma k_malloc_fine:
  assumes "k_malloc n k = Some (p, k')" "heap_inv (win_heap (desktop k))"
  shows "heap_inv (win_heap (desktop k'))"
  using k_malloc_spec [OF assms(2), of n] assms(1) by auto

lemma ap_main_fine:
  assumes "ap_main e l i s = Some s'" "fine s"
  shows "fine s'"
proof -
  let ?k = "(kern_at s)\<lparr>gs_cpu := load64 (mem_at s) 16\<rparr>"
  obtain k where k: "cpu_init (ucast i) ?k = Some k" using assms(1) by (auto simp: ap_main_def Let_def split: bind_splits)
  then have hk: "heap_inv (win_heap (desktop k))"
    using assms(2) k_malloc_fine [of _ ?k]
    by (auto simp: cpu_init_def fine_def fresh_cpu_def upd_cpu_def Let_def split: if_splits)
  from assms(1) k obtain t kt where "k_malloc TASK_SIZE (upd_cpu (gs_cpu k) (\<lambda>v. v\<lparr>runqueue := \<lparr>rq_head = 0, rq_tail = 0, rq_count = 0\<rparr>\<rparr>) k) = Some (t, kt)"
    "win_heap (desktop (kern_at s')) = win_heap (desktop kt)"
    by (auto simp: ap_main_def task_init_per_cpu_def Let_def kern_at_def put_kern_def upd_cpu_def upd_task_def split: bind_splits prod.splits)
  moreover have "heap_inv (win_heap (desktop kt))" using k_malloc_fine [OF calculation(1)] hk by (simp add: upd_cpu_def)
  ultimately show ?thesis by (simp add: fine_def)
qed


text \<open>
  The local APIC of processor 0 as a log of its registers, with a clock; a processor that has been reset starts on the next startup
  interrupt, at once, and uses an APIC of its own.
\<close>

record apic_dev =
  written :: "(u64 \<times> u32) list"
  clock :: nat
  reset_cpu :: bool

definition apic_regs :: "apic_dev cpu_io" where
  "apic_regs = \<lparr>rdmsr_instr = (\<lambda>_ d. (0, 0, d)), wrmsr_instr = (\<lambda>_ _ _ d. d), mmio_in = (\<lambda>_ d. (0, d)),
     mmio_out = (\<lambda>a v d. d\<lparr>written := written d @ [(a, v)], reset_cpu := (v = 0x500 \<or> reset_cpu d)\<rparr>)\<rparr>"

definition apic_tsc :: "apic_dev \<Rightarrow> u32 \<times> u32 \<times> apic_dev" where
  "apic_tsc d = (let (lo, hi, c) = counter (clock d) in (lo, hi, d\<lparr>clock := c\<rparr>))"

text \<open>The trampoline reads its cells and calls \<open>ap_main\<close> on the stack it found.\<close>

definition quiet_env :: "(apic_dev, 'h) smp_env" where
  "quiet_env = \<lparr>cpu_regs = apic_regs\<lparr>mmio_out := (\<lambda>_ _ d. d)\<rparr>, tsc_instr = apic_tsc, lapic_mmio = 0xFEE00000,
     trampoline_start = 0x200000, trampoline_end = 0x2000A0, trampoline_p4_addr = 0x200080, trampoline_stack_addr = 0x200088,
     trampoline_entry_addr = 0x200090, trampoline_apic_id = 0x200098, ap_main_at = 0x110000, gdt_off = 64, tss_off = 128, others = id\<rparr>"

definition prompt :: "(apic_dev, 'h) smp \<Rightarrow> (apic_dev, 'h) smp" where
  "prompt s =
     (let d = dev s; q = (quiet_env :: (apic_dev, 'h) smp_env)
      in if reset_cpu d \<and> written d \<noteq> [] \<and> snd (last (written d)) = 0x608
         then case ap_main q 0 (load64 (mem_at s) (tramp_cell q (trampoline_apic_id q))) s of
                None \<Rightarrow> s
              | Some s' \<Rightarrow> put_dev (d\<lparr>reset_cpu := False\<rparr>) s'
         else s)"

definition prompt_env :: "(apic_dev, 'h) smp_env" where
  "prompt_env = quiet_env\<lparr>cpu_regs := apic_regs, others := prompt\<rparr>"

lemma apic_wait: "\<exists>d'. wait_tsc apic_tsc target d = Some d' \<and> written d' = written d"
proof (induction "unat target - unat (of_nat (clock d) :: u64)" arbitrary: d rule: less_induct)
  case less
  let ?d = "d\<lparr>clock := clock d + 1\<rparr>"
  have r: "rdtsc apic_tsc d = (of_nat (clock d), ?d)"
    using rdtsc_counter [of "clock d"] by (simp add: rdtsc_def apic_tsc_def counter_def)
  show ?case
  proof (cases "(of_nat (clock d) :: u64) < target")
    case True
    then have lt: "unat (of_nat (clock d) :: u64) < unat target" by (simp add: word_less_nat_alt)
    then have "unat (of_nat (clock d) + 1 :: u64) = unat (of_nat (clock d) :: u64) + 1"
      using unsigned_less [of target, where 'a = nat] by (subst unat_plus_no_wrap) simp_all
    then have "unat target - unat (of_nat (clock ?d) :: u64) < unat target - unat (of_nat (clock d) :: u64)"
      using lt by (simp add: add.commute)
    from less [OF this] obtain d' where "wait_tsc apic_tsc target ?d = Some d'" "written d' = written d" by auto
    then show ?thesis using True by (subst wait_tsc.simps) (simp add: r)
  next
    case False
    then show ?thesis by (subst wait_tsc.simps) (simp add: r)
  qed
qed

lemma prompt_quiet: "written (dev (prompt s)) = written (dev s)"
  by (simp add: prompt_def Let_def split: option.splits)

lemma prompt_fine: "fine s \<Longrightarrow> fine (prompt s)"
  by (auto simp: prompt_def Let_def dest: ap_main_fine split: option.splits)

interpretation prompt_cpus: bring_up prompt_env written
proof
  show "\<exists>d'. delay_us (tsc_instr prompt_env) us (p, d) = Some (p, d') \<and> written d' = written d" for us p d
  proof -
    let ?d = "d\<lparr>clock := clock d + 1\<rparr>"
    have r: "rdtsc apic_tsc d = (of_nat (clock d), ?d)"
      using rdtsc_counter [of "clock d"] by (simp add: rdtsc_def apic_tsc_def counter_def)
    obtain d' where "wait_tsc apic_tsc (of_nat (clock d) + ucast us * tsc_freq_mhz p) ?d = Some d'" "written d' = written d"
      using apic_wait [of "of_nat (clock d) + ucast us * tsc_freq_mhz p" ?d] by auto
    then show ?thesis by (simp add: delay_us_def prompt_env_def quiet_env_def r)
  qed
qed (simp_all add: prompt_env_def apic_regs_def prompt_quiet prompt_fine)

section \<open>Properties\<close>

text \<open>
  C38. The start of the processors ends whatever they do, on any machine that follows the interface: the boot processor sends to every
  enabled processor but itself, in their order, the reset and one or two startup interrupts, and nothing else.
\<close>

theorem smp_init_correct:
  assumes "bring_up e writes" "fine s"
    and "targets = filter (\<lambda>i. i \<noteq> fst (lapic_get_id (cpu_regs e) (lapic_mmio e) (dev s))) (map ((!) (cpu_ids acpi)) [0..<nat (acpi_cpu_count acpi)])"
  shows "\<exists>s' rs. smp_init e acpi s = Some s' \<and> fine s' \<and> length rs = length targets \<and>
    writes (dev s') = writes (dev s) @ concat (map2 (wakeup e) targets rs)"
  using bring_up.smp_init_wakes [OF assms] .

definition two_more :: "(apic_dev, unit) smp" where
  "two_more = \<lparr>mach = (\<lparr>written = [], clock = 0, reset_cpu = False\<rparr>, \<lparr>kern_of = two_tasks, screen_of = undefined,
     pit_of = \<lparr>ticks = 0, tsc_freq_mhz = 2000\<rparr>, mouse_of = undefined, rest_of = ()\<rparr>), ap_started_count = 0, gdt_at = undefined\<rparr>"

definition three_cpus :: acpi_vars where
  "three_cpus = \<lparr>lapic_addr = 0, cpu_ids = [0, 1, 2] @ replicate 61 0, acpi_cpu_count = 3\<rparr>"

theorem smp_init_correct_witness:
  "\<exists>s' r1 r2. smp_init prompt_env three_cpus two_more = Some s' \<and>
     written (dev s') = wakeup (prompt_env :: (apic_dev, unit) smp_env) 1 r1 @ wakeup (prompt_env :: (apic_dev, unit) smp_env) 2 r2"
proof -
  have f: "fine two_more" using two_tasks_heap by (simp add: fine_def two_more_def kern_at_def task_heap_ok_def)
  have t: "[1, 2] = filter (\<lambda>i. i \<noteq> fst (lapic_get_id (cpu_regs prompt_env) (lapic_mmio prompt_env) (dev two_more)))
      (map ((!) (cpu_ids three_cpus)) [0..<nat (acpi_cpu_count three_cpus)])"
    by (simp add: upt_rec lapic_get_id_def lapic_read_def prompt_env_def quiet_env_def apic_regs_def three_cpus_def)
  from smp_init_correct [OF prompt_cpus.bring_up_axioms f t]
  obtain s' rs where s': "smp_init prompt_env three_cpus two_more = Some s'" "length rs = length [1 :: u8, 2]"
      "written (dev s') = written (dev two_more) @ concat (map2 (wakeup (prompt_env :: (apic_dev, unit) smp_env)) [1, 2] rs)"
    by (elim exE conjE) (rule that)
  then obtain r1 r2 where "rs = [r1, r2]" by (auto simp: numeral_2_eq_2 length_Suc_conv)
  moreover have "written (dev two_more) = []" by (simp add: two_more_def dev_def)
  ultimately show ?thesis using s' by auto
qed

end
