(* ===== verification/Dashboard.thy ===== *)
theory Dashboard
  imports Terminal Syscall
begin

text \<open>
  The dashboard (src/kernel/dashboard.c), a kernel task that draws the load of the processors, the memory and the number of tasks
  into its window. The pixels behind the buffer of the window are an array of their own; drawing into a null buffer does nothing.
\<close>

section \<open>Numbers\<close>

function dashboard_digits :: "u64 \<Rightarrow> u8 list" where
  "dashboard_digits n = (if n > 0 then (ucast (n mod 10) + 48) # dashboard_digits (n div 10) else [])"
  by pat_completeness auto
termination
proof (relation "measure unat")
  fix n :: u64
  assume "n > 0"
  then have "unat n > 0" by (simp add: word_less_iff_unat)
  then show "(n div 10, n) \<in> measure unat" by (simp add: unat_div)
qed simp

declare dashboard_digits.simps [simp del]

text \<open>\<open>for (j = 0; j < i / 2; j++)\<close> swaps the places \<open>j\<close> and \<open>i - j - 1\<close>.\<close>

definition swap_places :: "nat \<Rightarrow> u8 list \<Rightarrow> u8 list" where
  "swap_places j s = (let c = s ! j; k = length s - j - 1 in s[j := s ! k, k := c])"

definition dashboard_itoa :: "u64 \<Rightarrow> u8 list" where
  "dashboard_itoa n =
     (let s = (if n = 0 then [48] else dashboard_digits n) in fold swap_places [0..<length s div 2] s)"

section \<open>A picture\<close>

text \<open>The snapshot of \<open>sys_get_sys_info\<close>, of which the first 8 processors are shown.\<close>

record sys_info_t =
  si_total_frames :: u64
  si_free_frames :: u64
  si_cpu_count :: nat
  si_cpus :: "(u64 \<times> u64) list"
  si_task_count :: u32

definition sys_info :: "kern \<Rightarrow> sys_info_t" where
  "sys_info k = \<lparr>si_total_frames = pmm_get_total_frames (frames (vm k)), si_free_frames = pmm_get_free_count (frames (vm k)),
     si_cpu_count = cpu_get_count k,
     si_cpus = map (\<lambda>i. let c = cpu_at k (cpu_get_by_index k i) in (cpu_ticks c, idle_ticks c)) [0..<min (cpu_get_count k) 16],
     si_task_count = task_total k\<rparr>"

definition bar_width :: "u64 \<Rightarrow> u64 \<Rightarrow> u32" where
  "bar_width part whole = (let bar_w = ucast (part * 150 div whole) in if bar_w > 150 then 150 else bar_w)"

definition cpu_label :: "nat \<Rightarrow> u8 list" where
  "cpu_label i = (map of_char ''CPU  : '')[4 := 48 + of_nat i]"

type_synonym picture_buf = "u32 carray option"

definition draw_cpu :: "sys_info_t \<Rightarrow> u32 \<Rightarrow> nat \<Rightarrow> picture_buf \<Rightarrow> picture_buf" where
  "draw_cpu info w i buf =
     (let y = 40 + of_nat i * 30; (total_ticks, idle) = si_cpus info ! i;
          buf = graphics_draw_string buf w 10 y (cpu_label i) 0xFFFFFFFF;
          buf = graphics_fill_rect_buffer buf w 60 y 150 10 0xFF444444
      in if total_ticks > 0 then graphics_fill_rect_buffer buf w 60 y (bar_width (total_ticks - idle) total_ticks) 10 0xFF00FF00 else buf)"

definition draw_memory :: "sys_info_t \<Rightarrow> u32 \<Rightarrow> picture_buf \<Rightarrow> picture_buf" where
  "draw_memory info w buf =
     (let buf = graphics_draw_string buf w 10 300 (map of_char ''MEM:'') 0xFFFFFFFF;
          buf = graphics_fill_rect_buffer buf w 60 300 150 10 0xFF444444
      in if si_total_frames info > 0
         then graphics_fill_rect_buffer buf w 60 300 (bar_width (si_total_frames info - si_free_frames info) (si_total_frames info)) 10 0xFF00AAFF
         else buf)"

definition draw_dashboard :: "sys_info_t \<Rightarrow> u32 \<Rightarrow> u32 \<Rightarrow> picture_buf \<Rightarrow> picture_buf" where
  "draw_dashboard info w height buf =
     (let buf = graphics_fill_rect_buffer buf w 0 0 w height 0xFF222222;
          buf = graphics_draw_string buf w 10 10 (map of_char ''SYSTEM MONITOR'') 0xFFFFFFFF;
          buf = fold (draw_cpu info w) [0..<min (si_cpu_count info) 8] buf;
          buf = draw_memory info w buf
      in graphics_draw_string buf w 10 330 (map of_char ''TASKS: '' @ dashboard_itoa (ucast (si_task_count info))) 0xFFFFFFFF)"

section \<open>The task\<close>

text \<open>The start of \<open>dashboard_run\<close>: the window, its height inside, and the cleared buffer.\<close>

definition dashboard_start :: "u32 carray \<Rightarrow> kern \<Rightarrow> (u64 \<times> u32 carray \<times> kern) option" where
  "dashboard_start junk k =
     Option.bind (window_create 700 50 250 400 0xFF222222 (desktop k)) (\<lambda>(win, desk).
       let w = win_w (wins desk win); height = win_h (wins desk win) - 25
       in Option.bind (k_malloc (ucast (w * height * 4)) (k\<lparr>desktop := desk\<rparr>)) (\<lambda>(buffer, k).
            Some (win, (\<lambda>i. if i < unat (w * height * 4) div 4 then 0 else junk i),
              k\<lparr>desktop := upd_win win (\<lambda>v. v\<lparr>win_buffer := buffer\<rparr>) (desktop k)\<rparr>)))"

text \<open>One turn of the loop; \<open>height\<close> is computed once, at the start. The pause is left out.\<close>

definition dashboard_turn ::
  "('d, 'e) platform \<Rightarrow> interrupt_frame \<Rightarrow> u64 \<Rightarrow> u64 \<Rightarrow> u32 \<Rightarrow> u32 carray \<Rightarrow> ('d, 'e) comp \<Rightarrow>
     (u32 carray \<times> sys_result \<times> ('d, 'e) comp) option" where
  "dashboard_turn p f ksp win height img = (\<lambda>(d, s).
     let k = kern_of s; v = wins (desktop k) win;
         buf = draw_dashboard (sys_info k) (win_w v) height (if win_buffer v = 0 then None else Some img)
     in map_option (Pair (case buf of None \<Rightarrow> img | Some b \<Rightarrow> b))
          (task_yield p f ksp (d, on_kern (\<lambda>k. k\<lparr>desktop := window_mark_dirty win (desktop k)\<rparr>) s)))"

section \<open>What is drawn\<close>

lemma dashboard_digits_itoa: "dashboard_digits n = itoa_digits 10 n"
proof (induction n rule: dashboard_digits.induct)
  case (1 n)
  have "n mod 10 < 10" by (rule word_mod_less_divisor) (simp add: word_less_iff_unat)
  then have "\<not> n mod 10 > 9" by (simp add: word_less_iff_unat)
  then have "digit_char (n mod 10) = ucast (n mod 10) + 48" by (simp add: digit_char_def)
  then show ?case using 1 by (subst dashboard_digits.simps, subst itoa_digits.simps) (simp add: word_le_iff_unat)
qed

definition swapped :: "nat \<Rightarrow> u8 list \<Rightarrow> u8 list" where
  "swapped j s = map (\<lambda>i. if i < j \<or> length s - j \<le> i then s ! (length s - Suc i) else s ! i) [0..<length s]"

lemma swap_step:
  assumes "Suc j \<le> length s div 2"
  shows "swap_places j (swapped j s) = swapped (Suc j) s"
proof (rule nth_equalityI)
  fix i
  assume "i < length (swap_places j (swapped j s))"
  then have i: "i < length s" by (simp add: swap_places_def swapped_def Let_def)
  have j: "\<not> length s - j \<le> j" "j < length s - Suc j" "length s - Suc j < length s" "length s - Suc (length s - Suc j) = j" using assms by linarith+
  consider "i = j" | "i = length s - Suc j" "i \<noteq> j" | "i \<noteq> j" "i \<noteq> length s - Suc j" by blast
  then show "swap_places j (swapped j s) ! i = swapped (Suc j) s ! i"
  proof cases
    case 1
    then show ?thesis using i j by (simp add: swap_places_def swapped_def Let_def nth_list_update)
  next
    case 2
    then show ?thesis using i j by (simp add: swap_places_def swapped_def Let_def nth_list_update)
  next
    case 3
    then have "i < Suc j \<or> length s - Suc j \<le> i \<longleftrightarrow> i < j \<or> length s - j \<le> i" by linarith
    then show ?thesis using i j 3 by (simp add: swap_places_def swapped_def Let_def nth_list_update)
  qed
qed (simp add: swap_places_def swapped_def Let_def)

lemma swap_all: "j \<le> length s div 2 \<Longrightarrow> fold swap_places [0..<j] s = swapped j s"
proof (induction j)
  case 0
  show ?case by (rule nth_equalityI) (simp_all add: swapped_def)
next
  case (Suc j)
  then show ?case using swap_step by simp
qed

lemma swapped_half: "swapped (length s div 2) s = rev s"
proof (rule nth_equalityI)
  fix i
  assume "i < length (swapped (length s div 2) s)"
  then have i: "i < length s" by (simp add: swapped_def)
  have "length s - Suc i = i" if "\<not> i < length s div 2" "\<not> length s - length s div 2 \<le> i" using i that by linarith
  then show "swapped (length s div 2) s ! i = rev s ! i" using i by (auto simp: swapped_def rev_nth)
qed (simp add: swapped_def)

lemma dashboard_itoa_correct: "dashboard_itoa n = itoa n 10"
  by (simp add: dashboard_itoa_def itoa_def reverse_buf_rev dashboard_digits_itoa swap_all swapped_half)

text \<open>
  In a buffer of rows of \<open>W\<close> pixels, all of whose indices fit into 32 bits: a filled rectangle, and a string, which stays within its
  eight rows.
\<close>

definition pix :: "u32 \<Rightarrow> u32 carray \<Rightarrow> nat \<Rightarrow> nat \<Rightarrow> u32" where
  "pix w buf x y = buf (y * unat w + x)"

lemma fill_rect_pixel:
  assumes "unat x + unat cw \<le> unat w" "unat y + unat h \<le> N" "N * unat w < 2 ^ 32" "N < 2 ^ 32"
  shows "\<exists>b. graphics_fill_rect_buffer (Some buf) w x y cw h color = Some b \<and>
    (\<forall>px<unat w. \<forall>py. pix w b px py =
      (if unat x \<le> px \<and> px < unat x + unat cw \<and> unat y \<le> py \<and> py < unat y + unat h then color else pix w buf px py))"
proof -
  define f where "f = (\<lambda>i j. unat (ucast (y + of_nat i) * ucast w + ucast x :: u64) + j)"
  have f: "f i j = (unat y + i) * unat w + (unat x + j)" if "i < unat h" for i j
  proof -
    have u: "unat (ucast z :: u64) = unat z" for z :: u32
      using unsigned_less [of z, where 'a = nat] by (intro unat_ucast_small) simp
    have i: "unat y + i < N" using that assms(2) by linarith
    then have "unat y + i < 2 ^ 32" "unat (of_nat i :: u32) = i" using assms(4) by (simp_all add: unat_of_nat_small)
    then have yi: "unat (y + of_nat i) = unat y + i" by (subst unat_plus_no_wrap) simp_all
    have "unat (a * c + e) = (unat a * unat c + unat e) mod 2 ^ 64" for a c e :: u64 by (simp add: unat_word_ariths mod_add_left_eq)
    then have "unat (ucast (y + of_nat i) * ucast w + ucast x :: u64) = ((unat y + i) * unat w + unat x) mod 2 ^ 64" by (simp only: u yi)
    also have "(unat y + i) * unat w + unat x < 2 ^ 64"
    proof -
      have "(unat y + i) * unat w \<le> N * unat w" using i by (intro mult_le_mono1) simp
      moreover have "N * unat w < 4294967296" "unat x < 4294967296"
        using assms(3) unsigned_less [of x, where 'a = nat] by simp_all
      ultimately have "(unat y + i) * unat w + unat x < 18446744073709551616" by linarith
      then show ?thesis by simp
    qed
    then have "((unat y + i) * unat w + unat x) mod 2 ^ 64 = (unat y + i) * unat w + unat x" by (rule mod_less)
    finally show ?thesis by (simp add: f_def)
  qed
  have turn: "(\<lambda>j b. b(f i j := color)) = (\<lambda>j b. if True then b(f i j := color) else b)" for i by simp
  let ?b = "\<lambda>k. if \<exists>i\<in>set [0..<unat h]. \<exists>j\<in>set [0..<unat cw]. True \<and> f i j = k then color else buf k"
  have "graphics_fill_rect_buffer (Some buf) w x y cw h color = Some (fold (\<lambda>i. fold (\<lambda>j b. b(f i j := color)) [0..<unat cw]) [0..<unat h] buf)"
    by (simp add: graphics_fill_rect_buffer_def f_def)
  also have "fold (\<lambda>i. fold (\<lambda>j b. b(f i j := color)) [0..<unat cw]) [0..<unat h] buf = ?b"
    unfolding turn fold_store fold_fill ..
  finally have "graphics_fill_rect_buffer (Some buf) w x y cw h color = Some ?b" .
  moreover have "(\<exists>i\<in>set [0..<unat h]. \<exists>j\<in>set [0..<unat cw]. True \<and> f i j = py * unat w + px) \<longleftrightarrow>
      unat x \<le> px \<and> px < unat x + unat cw \<and> unat y \<le> py \<and> py < unat y + unat h" if px: "px < unat w" for px py
  proof
    assume "\<exists>i\<in>set [0..<unat h]. \<exists>j\<in>set [0..<unat cw]. True \<and> f i j = py * unat w + px"
    then obtain i j where ij: "i < unat h" "j < unat cw" "(unat y + i) * unat w + (unat x + j) = py * unat w + px" using f by auto
    have "unat y + i = py \<and> unat x + j = px" by (rule row_col_unique [OF _ px ij(3)]) (use ij(2) assms(1) in linarith)
    then show "unat x \<le> px \<and> px < unat x + unat cw \<and> unat y \<le> py \<and> py < unat y + unat h" using ij(1,2) by auto
  next
    assume r: "unat x \<le> px \<and> px < unat x + unat cw \<and> unat y \<le> py \<and> py < unat y + unat h"
    then have "f (py - unat y) (px - unat x) = py * unat w + px" by (subst f) auto
    then show "\<exists>i\<in>set [0..<unat h]. \<exists>j\<in>set [0..<unat cw]. True \<and> f i j = py * unat w + px"
      using r by (intro bexI [of _ "py - unat y"] bexI [of _ "px - unat x"]) auto
  qed
  ultimately show ?thesis by (intro exI [of _ ?b]) (simp add: pix_def)
qed


text \<open>Everything but some rows stays.\<close>

definition same_outside :: "u32 \<Rightarrow> nat \<Rightarrow> nat \<Rightarrow> u32 carray \<Rightarrow> u32 carray \<Rightarrow> bool" where
  "same_outside w lo hi b b' \<longleftrightarrow> (\<forall>px<unat w. \<forall>py. \<not> (lo \<le> py \<and> py < hi) \<longrightarrow> pix w b' px py = pix w b px py)"

lemma same_outside_refl: "same_outside w lo hi b b"
  by (simp add: same_outside_def)

lemma same_outside_trans: "same_outside w lo hi a b \<Longrightarrow> same_outside w lo hi b c \<Longrightarrow> same_outside w lo hi a c"
  by (simp add: same_outside_def)

lemma same_outside_mono: "same_outside w lo hi a b \<Longrightarrow> lo' \<le> lo \<Longrightarrow> hi \<le> hi' \<Longrightarrow> same_outside w lo' hi' a b"
  by (auto simp: same_outside_def)

lemma char_pixel_rows:
  assumes "(unat y + 8) * unat w < 2 ^ 32" "unat y + 8 < 2 ^ 32" "i < 8"
  shows "same_outside w (unat y) (unat y + 8) b (char_pixel c w x y color i j b)"
proof -
  have yi: "unat (y + of_nat i) = unat y + i"
    using assms(2,3) by (subst unat_plus_no_wrap) (simp_all add: unat_of_nat_small)
  have "pix w (b(unat ((y + of_nat i) * w + px') := color)) px py = pix w b px py"
    if "px' < w" "px < unat w" "\<not> (unat y \<le> py \<and> py < unat y + 8)" for px' px py
  proof -
    have lt: "unat px' < unat w" using that(1) by (simp add: word_less_iff_unat)
    have "(unat y + i) * unat w + unat px' < (unat y + 8) * unat w"
    proof -
      have "(unat y + i) * unat w + unat px' < Suc (unat y + i) * unat w" using lt by simp
      also have "\<dots> \<le> (unat y + 8) * unat w" using assms(3) by (intro mult_le_mono1) simp
      finally show ?thesis .
    qed
    moreover have "unat (a * w + e) = (unat a * unat w + unat e) mod 2 ^ 32" for a e :: u32 by (simp add: unat_word_ariths mod_add_left_eq)
    then have "unat ((y + of_nat i) * w + px') = ((unat y + i) * unat w + unat px') mod 2 ^ 32" by (simp only: yi)
    moreover from calculation(1) assms(1) have "(unat y + i) * unat w + unat px' < 2 ^ 32" by linarith
    ultimately have "unat ((y + of_nat i) * w + px') = (unat y + i) * unat w + unat px'" by (simp only: mod_less)
    moreover have "(unat y + i) * unat w + unat px' \<noteq> py * unat w + px"
    proof
      assume "(unat y + i) * unat w + unat px' = py * unat w + px"
      from row_col_unique [OF lt that(2) this] that(3) assms(3) show False by simp
    qed
    ultimately show ?thesis by (simp add: pix_def)
  qed
  then show ?thesis by (auto simp: char_pixel_def same_outside_def Let_def)
qed

lemma fold_same_outside:
  assumes "\<And>i b. i \<in> set is' \<Longrightarrow> same_outside w lo hi b (f i b)"
  shows "same_outside w lo hi b (fold f is' b)"
  using assms
proof (induction is' arbitrary: b)
  case (Cons i xs)
  then show ?case by (simp add: same_outside_trans [OF Cons.prems [of i b] Cons.IH])
qed (simp add: same_outside_refl)

lemma draw_string_rows:
  assumes "(unat y + 8) * unat w < 2 ^ 32" "unat y + 8 < 2 ^ 32"
  shows "\<exists>b'. graphics_draw_string (Some b) w x y str color = Some b' \<and> same_outside w (unat y) (unat y + 8) b b'"
proof -
  have "same_outside w (unat y) (unat y + 8) b (fold (\<lambda>i. fold (char_pixel c w x' y color i) [0..<8]) [0..<8] b)" for b c x'
    by (intro fold_same_outside char_pixel_rows [OF assms]) simp
  then have one: "\<exists>b'. graphics_draw_char (Some b) w x' y c color = Some b' \<and> same_outside w (unat y) (unat y + 8) b b'" for b c x'
    by (cases "c \<ge> 128") (auto simp: graphics_draw_char_def same_outside_refl)
  have "\<exists>b'. draw_string_from i (Some b) w x y str color = Some b' \<and> same_outside w (unat y) (unat y + 8) b b'" for i
  proof (induction str arbitrary: i b)
    case (Cons c cs)
    obtain b1 where "graphics_draw_char (Some b) w (x + of_nat i * 8) y c color = Some b1" "same_outside w (unat y) (unat y + 8) b b1"
      using one by blast
    then show ?case using Cons.IH [of "Suc i" b1] by (auto simp: same_outside_refl intro: same_outside_trans)
  qed (simp add: same_outside_refl)
  then show ?thesis by (simp add: graphics_draw_string_def)
qed


text \<open>A bar of 150 by 10 pixels, of which the first \<open>n\<close> columns are filled.\<close>

definition bar_at :: "u32 carray \<Rightarrow> nat \<Rightarrow> u32 \<Rightarrow> nat \<Rightarrow> bool" where
  "bar_at b y color n \<longleftrightarrow> (\<forall>k<150. \<forall>r<10. pix 250 b (60 + k) (y + r) = (if k < n then color else 0xFF444444))"

lemma bar_at_kept: "bar_at b y color n \<Longrightarrow> same_outside 250 lo hi b b' \<Longrightarrow> y + 10 \<le> lo \<or> hi \<le> y \<Longrightarrow> bar_at b' y color n"
  by (auto simp: bar_at_def same_outside_def)

lemma fill_same_outside:
  assumes "unat x + unat cw \<le> 250" "unat y + unat h \<le> 375"
  shows "\<exists>b'. graphics_fill_rect_buffer (Some b) 250 x y cw h color = Some b' \<and> same_outside 250 (unat y) (unat y + unat h) b b' \<and>
    (\<forall>px<250. \<forall>py. pix 250 b' px py =
      (if unat x \<le> px \<and> px < unat x + unat cw \<and> unat y \<le> py \<and> py < unat y + unat h then color else pix 250 b px py))"
  using fill_rect_pixel [of x cw 250 y h 375 b color] assms by (auto simp: same_outside_def)

lemma bar_drawn:
  assumes "unat y + 10 \<le> 375" "unat bw \<le> 150"
  shows "\<exists>b1 b2. graphics_fill_rect_buffer (Some b) 250 60 y 150 10 0xFF444444 = Some b1 \<and> same_outside 250 (unat y) (unat y + 10) b b1 \<and>
    graphics_fill_rect_buffer (Some b1) 250 60 y bw 10 color = Some b2 \<and> same_outside 250 (unat y) (unat y + 10) b b2 \<and>
    bar_at b2 (unat y) color (unat bw)"
proof -
  obtain b1 where b1: "graphics_fill_rect_buffer (Some b) 250 60 y 150 10 0xFF444444 = Some b1" "same_outside 250 (unat y) (unat y + 10) b b1"
    "\<forall>px<250. \<forall>py. pix 250 b1 px py =
      (if 60 \<le> px \<and> px < 210 \<and> unat y \<le> py \<and> py < unat y + 10 then 0xFF444444 else pix 250 b px py)"
    using fill_same_outside [of 60 150 y 10 b "0xFF444444"] assms(1) by auto
  obtain b2 where b2: "graphics_fill_rect_buffer (Some b1) 250 60 y bw 10 color = Some b2" "same_outside 250 (unat y) (unat y + 10) b1 b2"
    "\<forall>px<250. \<forall>py. pix 250 b2 px py =
      (if 60 \<le> px \<and> px < 60 + unat bw \<and> unat y \<le> py \<and> py < unat y + 10 then color else pix 250 b1 px py)"
    using fill_same_outside [of 60 bw y 10 b1 color] assms by auto
  have "bar_at b2 (unat y) color (unat bw)" by (simp add: bar_at_def b2(3) b1(3))
  then show ?thesis using b1(1,2) b2(1,2) same_outside_trans by blast
qed

lemma unat_bar_width:
  assumes "part \<le> whole" "0 < whole" "unat whole * 150 < 2 ^ 64"
  shows "unat (bar_width part whole) = unat part * 150 div unat whole \<and> unat (bar_width part whole) \<le> 150"
proof -
  have le: "unat part \<le> unat whole" "0 < unat whole" using assms(1,2) by (simp_all add: word_le_iff_unat word_less_iff_unat)
  then have "unat (part * 150) = unat part * 150" using assms(3) by (simp add: unat_word_ariths)
  then have d: "unat (part * 150 div whole) = unat part * 150 div unat whole" by (simp add: unat_div)
  have "unat part * 150 div unat whole \<le> unat whole * 150 div unat whole" using le by (intro div_le_mono) simp
  then have n: "unat part * 150 div unat whole \<le> 150" using le(2) by simp
  then have "unat (ucast (part * 150 div whole) :: u32) = unat part * 150 div unat whole" using d by (simp add: unat_ucast_small)
  then show ?thesis using n by (simp add: bar_width_def Let_def word_less_iff_unat)
qed

definition cpu_bar :: "sys_info_t \<Rightarrow> nat \<Rightarrow> u32 carray \<Rightarrow> bool" where
  "cpu_bar info i b \<longleftrightarrow> (case si_cpus info ! i of (total_ticks, idle) \<Rightarrow>
     0 < total_ticks \<longrightarrow> idle \<le> total_ticks \<longrightarrow> unat total_ticks * 150 < 2 ^ 64 \<longrightarrow>
       bar_at b (40 + 30 * i) 0xFF00FF00 ((unat total_ticks - unat idle) * 150 div unat total_ticks))"

lemma bar_width_le: "unat (bar_width part whole) \<le> 150"
  by (simp add: bar_width_def Let_def word_less_iff_unat)

lemma busy_width:
  assumes "idle \<le> whole" "0 < whole" "unat whole * 150 < 2 ^ 64"
  shows "unat (bar_width (whole - idle) whole) = (unat whole - unat idle) * 150 div unat whole"
proof -
  have "unat (whole - idle) = unat whole - unat idle" by (rule unat_minus_no_wrap [OF assms(1)])
  moreover from this have "whole - idle \<le> whole" by (simp add: word_le_iff_unat)
  ultimately show ?thesis using unat_bar_width [of "whole - idle" whole] assms(2,3) by simp
qed

lemma draw_cpu_bar:
  assumes "i < 8"
  shows "\<exists>b'. draw_cpu info 250 i (Some b) = Some b' \<and> same_outside 250 (40 + 30 * i) (50 + 30 * i) b b' \<and> cpu_bar info i b'"
proof -
  obtain whole idle where t: "si_cpus info ! i = (whole, idle)" by fastforce
  define y :: u32 where "y = 40 + of_nat i * 30"
  have y: "unat y = 40 + 30 * i" using assms by (simp add: y_def unat_word_ariths unat_of_nat)
  obtain b0 where b0: "graphics_draw_string (Some b) 250 10 y (cpu_label i) 0xFFFFFFFF = Some b0" "same_outside 250 (unat y) (unat y + 8) b b0"
    using draw_string_rows [of y 250 b 10 "cpu_label i" "0xFFFFFFFF"] y assms by auto
  have r0: "same_outside 250 (unat y) (unat y + 10) b b0" using b0(2) by (auto simp: same_outside_def)
  obtain b1 b2 where b12: "graphics_fill_rect_buffer (Some b0) 250 60 y 150 10 0xFF444444 = Some b1"
    "same_outside 250 (unat y) (unat y + 10) b0 b1"
    "graphics_fill_rect_buffer (Some b1) 250 60 y (bar_width (whole - idle) whole) 10 0xFF00FF00 = Some b2"
    "same_outside 250 (unat y) (unat y + 10) b0 b2" "bar_at b2 (unat y) 0xFF00FF00 (unat (bar_width (whole - idle) whole))"
    using bar_drawn [of y "bar_width (whole - idle) whole" b0 "0xFF00FF00"] y assms bar_width_le by auto
  let ?b = "if 0 < whole then b2 else b1"
  have "draw_cpu info 250 i (Some b) = Some ?b" using b0(1) b12(1,3) by (simp add: draw_cpu_def Let_def t y_def [symmetric])
  moreover have "same_outside 250 (40 + 30 * i) (50 + 30 * i) b ?b"
    using same_outside_trans [OF r0 b12(2)] same_outside_trans [OF r0 b12(4)] y by (simp add: add.commute)
  moreover have "cpu_bar info i ?b"
    unfolding cpu_bar_def t prod.case
  proof (intro impI)
    assume "0 < whole" "idle \<le> whole" "unat whole * 150 < 2 ^ 64"
    then show "bar_at ?b (40 + 30 * i) 0xFF00FF00 ((unat whole - unat idle) * 150 div unat whole)"
      using b12(5) y busy_width by simp
  qed
  ultimately show ?thesis by blast
qed

lemma cpu_bar_kept:
  "cpu_bar info i b \<Longrightarrow> same_outside 250 lo hi b b' \<Longrightarrow> 50 + 30 * i \<le> lo \<or> hi \<le> 40 + 30 * i \<Longrightarrow> cpu_bar info i b'"
  unfolding cpu_bar_def by (auto split: prod.splits intro: bar_at_kept)

lemma draw_cpus_bars:
  "n \<le> 8 \<Longrightarrow> \<exists>b'. fold (draw_cpu info 250) [0..<n] (Some b) = Some b' \<and> (\<forall>i<n. cpu_bar info i b')"
proof (induction n)
  case (Suc n)
  then obtain b1 where b1: "fold (draw_cpu info 250) [0..<n] (Some b) = Some b1" "\<forall>i<n. cpu_bar info i b1" by auto
  obtain b2 where b2: "draw_cpu info 250 n (Some b1) = Some b2" "same_outside 250 (40 + 30 * n) (50 + 30 * n) b1 b2" "cpu_bar info n b2"
    using draw_cpu_bar [of n info b1] Suc.prems by auto
  have "cpu_bar info i b2" if "i < n" for i
    using b1(2) cpu_bar_kept [OF _ b2(2)] that by simp
  then show ?case using b1(1) b2 by (auto simp: less_Suc_eq)
qed simp

section \<open>Properties\<close>

text \<open>
  The picture: with all frames counted, the bar of the memory is filled in proportion to the frames in use, and the bar of each of the
  first 8 processors that has run in proportion to its busy ticks; the labels and the other bars do not run into them.
\<close>

theorem dashboard_correct:
  assumes "0 < si_total_frames info" "si_free_frames info \<le> si_total_frames info" "unat (si_total_frames info) * 150 < 2 ^ 64"
  shows "\<exists>b. draw_dashboard info 250 375 (Some buf) = Some b \<and> (\<forall>i<min (si_cpu_count info) 8. cpu_bar info i b) \<and>
    bar_at b 300 0xFF00AAFF ((unat (si_total_frames info) - unat (si_free_frames info)) * 150 div unat (si_total_frames info))"
proof -
  let ?bw = "bar_width (si_total_frames info - si_free_frames info) (si_total_frames info)"
  obtain b0 where b0: "graphics_fill_rect_buffer (Some buf) 250 0 0 250 375 0xFF222222 = Some b0"
    using fill_same_outside [of 0 250 0 375 buf "0xFF222222"] by auto
  obtain b1 where b1: "graphics_draw_string (Some b0) 250 10 10 (map of_char ''SYSTEM MONITOR'') 0xFFFFFFFF = Some b1"
    using draw_string_rows [of 10 250 b0 10 "map of_char ''SYSTEM MONITOR''" "0xFFFFFFFF"] by auto
  obtain b2 where b2: "fold (draw_cpu info 250) [0..<min (si_cpu_count info) 8] (Some b1) = Some b2" "\<forall>i<min (si_cpu_count info) 8. cpu_bar info i b2"
    using draw_cpus_bars [of "min (si_cpu_count info) 8" info b1] by auto
  obtain b3 where b3: "graphics_draw_string (Some b2) 250 10 300 (map of_char ''MEM:'') 0xFFFFFFFF = Some b3" "same_outside 250 300 310 b2 b3"
    using draw_string_rows [of 300 250 b2 10 "map of_char ''MEM:''" "0xFFFFFFFF"] by (auto dest: same_outside_mono [of _ 300 308 _ _ 300 310])
  obtain b4 b5 where b45: "graphics_fill_rect_buffer (Some b3) 250 60 300 150 10 0xFF444444 = Some b4"
    "graphics_fill_rect_buffer (Some b4) 250 60 300 ?bw 10 0xFF00AAFF = Some b5" "same_outside 250 300 310 b3 b5" "bar_at b5 300 0xFF00AAFF (unat ?bw)"
    using bar_drawn [of 300 ?bw b3 "0xFF00AAFF"] bar_width_le by auto
  obtain b6 where b6: "graphics_draw_string (Some b5) 250 10 330 (map of_char ''TASKS: '' @ dashboard_itoa (ucast (si_task_count info))) 0xFFFFFFFF = Some b6"
    "same_outside 250 330 338 b5 b6"
    using draw_string_rows [of 330 250 b5 10 "map of_char ''TASKS: '' @ dashboard_itoa (ucast (si_task_count info))" "0xFFFFFFFF"] by auto
  have "draw_memory info 250 (Some b2) = Some b5" using b3(1) b45(1,2) assms(1) by (simp add: draw_memory_def Let_def)
  then have "draw_dashboard info 250 375 (Some buf) = Some b6"
    using b0 b1 b2(1) b6(1) by (simp add: draw_dashboard_def Let_def)
  moreover have "cpu_bar info i b6" if "i < min (si_cpu_count info) 8" for i
  proof -
    have "same_outside 250 300 338 b2 b5"
      using same_outside_mono [OF same_outside_trans [OF b3(2) b45(3)], of 300 338] by simp
    moreover have "same_outside 250 300 338 b5 b6" using same_outside_mono [OF b6(2), of 300 338] by simp
    ultimately have "same_outside 250 300 338 b2 b6" by (rule same_outside_trans)
    then show ?thesis using b2(2) that cpu_bar_kept [of info i b2] by simp
  qed
  moreover have "bar_at b6 300 0xFF00AAFF (unat ?bw)" using bar_at_kept [OF b45(4) b6(2)] by simp
  ultimately show ?thesis using busy_width [OF assms(2,1,3)] by auto
qed


text \<open>A machine with two processors, one idle for three quarters of its time, and half of its memory in use.\<close>

definition half_used :: sys_info_t where
  "half_used = \<lparr>si_total_frames = 1000, si_free_frames = 500, si_cpu_count = 2, si_cpus = [(400, 300), (0, 0)], si_task_count = 3\<rparr>"

theorem dashboard_correct_witness:
  "\<exists>b. draw_dashboard half_used 250 375 (Some (\<lambda>_. 0)) = Some b \<and> bar_at b 300 0xFF00AAFF 75 \<and> bar_at b 40 0xFF00FF00 37"
proof -
  from dashboard_correct [of half_used "\<lambda>_. 0"]
  obtain b where b: "draw_dashboard half_used 250 375 (Some (\<lambda>_. 0)) = Some b" "\<forall>i<2. cpu_bar half_used i b" "bar_at b 300 0xFF00AAFF 75"
    by (auto simp: half_used_def)
  moreover have "bar_at b 40 0xFF00FF00 37" using b(2) [rule_format, of 0] by (simp add: cpu_bar_def half_used_def)
  ultimately show ?thesis by blast
qed

end
