(* ===== verification/Apps.thy ===== *)
theory Apps
  imports Syscall
begin

text \<open>
  The two user programs: the window demo (src/kernel/gui_app.c) and the shell that is loaded from the disk
  (src/apps/shell/main.c). They run in user mode on the whole machine and enter the kernel with system calls.
\<close>

section \<open>User mode\<close>

text \<open>A call that returns to the program. A user page that is not mapped is not stored to.\<close>

definition app_call ::
  "('d, 'e) platform \<Rightarrow> interrupt_frame \<Rightarrow> u64 \<Rightarrow> u64 \<Rightarrow> u64 list \<Rightarrow> ('d, 'e) comp \<Rightarrow> (u64 \<times> ('d, 'e) comp) option" where
  "app_call p f ksp num args m =
     Option.bind (syscall_handler_c p f ksp num (args ! 0) (args ! 1) (args ! 2) (args ! 3) m) (\<lambda>(r, m).
       case r of Returns v \<Rightarrow> Some (v, m) | Yielded _ \<Rightarrow> None)"

definition app_store :: "u64 \<Rightarrow> u8 list \<Rightarrow> ('d, 'e) comp \<Rightarrow> ('d, 'e) comp option" where
  "app_store a bs m = with_vm (user_store (cr3 (kern_of (snd m))) a bs) m"

definition app_load :: "u64 \<Rightarrow> nat \<Rightarrow> ('d, 'e) comp \<Rightarrow> u8 list option" where
  "app_load a n m = user_load (cr3 (kern_of (snd m))) n a (vm (kern_of (snd m)))"

section \<open>The window demo\<close>

definition GUI_EVENT_MOUSE_CLICK :: u32 where "GUI_EVENT_MOUSE_CLICK = 1"

definition gui_buffer :: "u32 \<Rightarrow> u64" where
  "gui_buffer wid = 0xA0000000 + ucast wid * 0x1000000"

fun fill_window :: "nat \<Rightarrow> u64 \<Rightarrow> u32 \<Rightarrow> ('d, 'e) comp \<Rightarrow> ('d, 'e) comp option" where
  "fill_window 0 a color m = Some m"
| "fill_window (Suc n) a color m = Option.bind (app_store a (le32 color) m) (fill_window n (a + 4) color)"

datatype ('d, 'e) app_state = Running u32 u32 "('d, 'e) comp" | Exited "('d, 'e) comp"

text \<open>\<open>ev\<close> is the address of the event on the stack.\<close>

definition next_color :: "u64 \<Rightarrow> u64 \<Rightarrow> u32 \<Rightarrow> ('d, 'e) comp \<Rightarrow> u32 option" where
  "next_color ret ev color m =
     (if (ucast ret :: u32) = 1
      then map_option (\<lambda>bs. if bs = le32 GUI_EVENT_MOUSE_CLICK then 0xFFFFFF00 else color) (app_load ev 4 m)
      else Some color)"

definition gui_frame ::
  "('d, 'e) platform \<Rightarrow> interrupt_frame \<Rightarrow> u64 \<Rightarrow> u64 \<Rightarrow> u32 \<Rightarrow> u32 \<Rightarrow> u32 \<Rightarrow> ('d, 'e) comp \<Rightarrow> ('d, 'e) app_state option" where
  "gui_frame p f ksp ev wid color n m =
     Option.bind (fill_window (300 * 200) (gui_buffer wid) color m) (\<lambda>m.
     Option.bind (app_call p f ksp 2 [ucast wid, ev, 0, 0] m) (\<lambda>(ret, m).
     Option.bind (next_color ret ev color m) (\<lambda>color.
       if n + 1 > 2000 then map_option (\<lambda>(r, m). Exited m) (syscall_handler_c p f ksp 3 0 0 0 0 m)
       else Some (Running color (n + 1) m))))"

text \<open>\<open>k\<close> frames of the loop.\<close>

fun gui_frames :: "('d, 'e) platform \<Rightarrow> interrupt_frame \<Rightarrow> u64 \<Rightarrow> u64 \<Rightarrow> u32 \<Rightarrow> nat \<Rightarrow> ('d, 'e) app_state \<Rightarrow> ('d, 'e) app_state option" where
  "gui_frames p f ksp ev wid 0 s = Some s"
| "gui_frames p f ksp ev wid (Suc k) (Exited m) = Some (Exited m)"
| "gui_frames p f ksp ev wid (Suc k) (Running color n m) =
     Option.bind (gui_frame p f ksp ev wid color n m) (gui_frames p f ksp ev wid k)"

definition user_gui_app ::
  "('d, 'e) platform \<Rightarrow> interrupt_frame \<Rightarrow> u64 \<Rightarrow> u64 \<Rightarrow> nat \<Rightarrow> ('d, 'e) comp \<Rightarrow> ('d, 'e) app_state option" where
  "user_gui_app p f ksp ev k m =
     Option.bind (app_call p f ksp 1 [200, 200, 300, 225] m) (\<lambda>(wid, m).
       gui_frames p f ksp ev (ucast wid) k (Running 0xFFFF0000 0 m))"

section \<open>The user shell\<close>

text \<open>The length is counted up to the terminator; after the call the program only pauses.\<close>

definition shell_start :: "('d, 'e) platform \<Rightarrow> interrupt_frame \<Rightarrow> u64 \<Rightarrow> u64 \<Rightarrow> ('d, 'e) comp \<Rightarrow> ('d, 'e) comp option" where
  "shell_start p f ksp msg m =
     Option.bind (user_string (cr3 (kern_of (snd m))) msg (vm (kern_of (snd m)))) (\<lambda>cs.
       let len = of_nat (length cs - 1) :: u32
       in map_option snd (app_call p f ksp 6 [1, msg, ucast len, 0] m))"

section \<open>Properties\<close>

lemma gui_frame_counts:
  assumes "gui_frame p f ksp ev w color n m = Some s" "unat n \<le> 2000"
  shows "if unat n < 2000 then \<exists>c m'. s = Running c (n + 1) m' else \<exists>m'. s = Exited m'"
proof -
  have "unat (n + 1) = unat n + 1" using assms(2) by (subst unat_plus_no_wrap) simp_all
  then have "n + 1 > 2000 \<longleftrightarrow> \<not> unat n < 2000" by (simp add: word_less_iff_unat) linarith
  then show ?thesis using assms(1) by (auto simp: gui_frame_def split: bind_splits if_splits)
qed

lemma gui_frames_count:
  assumes "gui_frames p f ksp ev w k (Running color n m) = Some s" "unat n \<le> 2000"
  shows "if unat n + k \<le> 2000 then \<exists>c m'. s = Running c (of_nat (unat n + k)) m' else \<exists>m'. s = Exited m'"
  using assms
proof (induction k arbitrary: color n m)
  case 0
  then have "s = Running color (of_nat (unat n + 0)) m" by simp
  then show ?case using 0(2) by auto
next
  case (Suc k)
  obtain t where t: "gui_frame p f ksp ev w color n m = Some t" "gui_frames p f ksp ev w k t = Some s"
    using Suc.prems(1) by (auto split: bind_splits)
  note c = gui_frame_counts [OF t(1) Suc.prems(2)]
  show ?case
  proof (cases "unat n < 2000")
    case True
    then have u: "unat (n + 1) = unat n + 1" by (subst unat_plus_no_wrap) simp_all
    obtain c' m' where "t = Running c' (n + 1) m'" using c True by auto
    then have "if unat (n + 1) + k \<le> 2000 then \<exists>c m'. s = Running c (of_nat (unat (n + 1) + k)) m' else \<exists>m'. s = Exited m'"
      using t(2) u True by (intro Suc.IH) simp_all
    moreover have "unat (n + 1) + k = unat n + Suc k" using u by simp
    ultimately show ?thesis by (simp only:)
  next
    case False
    then obtain m' where "t = Exited m'" using c by auto
    moreover have "gui_frames p f ksp ev w k (Exited m') = Some (Exited m')" by (cases k) simp_all
    ultimately show ?thesis using t(2) False by (cases m') auto
  qed
qed


text \<open>
  The demo runs for exactly 2000 frames: as long as its calls and stores succeed it is still running before, and the next frame ends
  in \<open>exit\<close>.
\<close>

theorem gui_app_exits:
  assumes "user_gui_app p f ksp ev k m = Some s"
  shows "if k \<le> 2000 then \<exists>c m'. s = Running c (of_nat k) m' else \<exists>m'. s = Exited m'"
  using assms gui_frames_count [of p f ksp ev _ k "0xFFFF0000" 0 _ s]
  by (auto simp: user_gui_app_def split: bind_splits)

lemma user_string_load:
  "user_string root a s = Some cs \<Longrightarrow> cs \<noteq> [] \<and> last cs = 0 \<and> user_load root (length cs) a s = Some cs"
proof (rule user_string.raw_induct [where P = "\<lambda>root a s cs. cs \<noteq> [] \<and> last cs = 0 \<and> user_load root (length cs) a s = Some cs"])
  fix str :: "u64 \<Rightarrow> u64 \<Rightarrow> vmm_state \<Rightarrow> u8 list option" and root a s cs
  assume IH: "\<And>root a s cs. str root a s = Some cs \<Longrightarrow> cs \<noteq> [] \<and> last cs = 0 \<and> user_load root (length cs) a s = Some cs"
  then show "(case translate s root a of None \<Rightarrow> None
      | Some (pa, fl, k) \<Rightarrow> if phys_mem s pa = 0 then Some [0] else Option.bind (str root (a + 1) s) (\<lambda>r. Some (phys_mem s pa # r))) = Some cs
      \<Longrightarrow> cs \<noteq> [] \<and> last cs = 0 \<and> user_load root (length cs) a s = Some cs"
    by (auto split: option.splits if_splits bind_splits dest!: IH)
qed

lemma user_load_take: "user_load root n a s = Some bs \<Longrightarrow> k \<le> n \<Longrightarrow> user_load root k a s = Some (take k bs)"
proof (induction n arbitrary: a bs k)
  case (Suc n)
  then show ?case by (cases k) (auto split: option.splits)
qed simp

text \<open>The shell from the disk prints its message, without the terminator, on the text screen.\<close>

theorem shell_start_correct:
  assumes "shown_lines (screen_of s) (layout t)" "user_string (cr3 (kern_of s)) msg (vm (kern_of s)) = Some (cs @ [0])" "length cs < 2 ^ 31"
  shows "\<exists>v. shell_start p f ksp msg (d, s) = Some (d, s\<lparr>screen_of := v\<rparr>) \<and> shown_lines v (layout (t @ cs))"
proof -
  have n: "unat (ucast (ucast (of_nat (length cs) :: u32) :: u64) :: u32) = length cs"
  proof -
    have l: "unat (of_nat (length cs) :: u32) = length cs" using assms(3) by (intro unat_of_nat_small) simp
    have "unat (ucast (of_nat (length cs) :: u32) :: u64) = length cs" using assms(3) l by (subst unat_ucast_small) simp_all
    then show ?thesis using assms(3) by (subst unat_ucast_small) simp_all
  qed
  have "user_load (cr3 (kern_of s)) (length (cs @ [0])) msg (vm (kern_of s)) = Some (cs @ [0])"
    using user_string_load [OF assms(2)] by blast
  then have "user_load (cr3 (kern_of s)) (length cs) msg (vm (kern_of s)) = Some cs"
    using user_load_take [of _ "length (cs @ [0])" _ _ "cs @ [0]" "length cs"] by simp
  then show ?thesis
    using sys_write_correct [OF assms(1), where count = "ucast (of_nat (length cs) :: u32)" and buffer = msg and p = p and f = f
        and ksp = ksp and fd = 1 and ?a4.0 = 0 and d = d] n
    by (auto simp: shell_start_def assms(2) app_call_def)
qed

end
