(* ===== verification/Boot.thy ===== *)
theory Boot
  imports Shell Smp Stats Ext2
begin

text \<open>
  The start of the kernel (src/kernel/main.c): \<open>kmain\<close> brings the components up in their order on one state and then polls the devices
  for ever. The log output is left out, as in the components, and so are the interrupts that arrive between two steps; the ticks that
  the calibration of the time stamp counter waits for are a parameter.
\<close>

section \<open>State\<close>

text \<open>The shell with the machine behind it, and what the other components keep.\<close>

record ('d, 'e, 'n, 'p) boot =
  shell_of :: "('d, 'e, 'n) shell"
  pci_dev :: 'p
  gdts :: "u64 \<Rightarrow> cpu_gdt"
  idt_of :: idt_vars
  acpi_of :: acpi_vars
  stats_of :: kernel_stats_t
  trace_of :: trace
  ext2_of :: ext2_state
  started_of :: u32

text \<open>
  The hardware, the addresses the linker chooses, what uninitialised memory holds, and the fuel of the network poll. \<open>mb_at\<close> is the
  address of the Multiboot block.
\<close>

record ('d, 'e, 'n, 'p) boot_env =
  shell_at :: "('d, 'e, 'n) shell_env"
  smp_at :: "('d, 'e vfs_state) smp_env"
  ata_ports :: "'e port_io"
  pci_ports :: "'p port_io32"
  nic_hw :: "'n nic \<Rightarrow> 'n nic"
  nic_window :: nat
  nic_fuel :: nat
  ticks_now :: "'d \<Rightarrow> u64 \<times> 'd"
  mb_at :: u64
  kernel_end :: u64
  bsp_at :: u64
  idt_at :: u64
  isr_at :: "nat \<Rightarrow> u64"
  entry_at :: u64
  frame_junk :: "u32 carray"
  cell_junk :: "u8 carray"
  block_junk :: "u8 list"

definition kern_b :: "('d, 'e, 'n, 'p) boot \<Rightarrow> kern" where
  "kern_b s = kern_in (shell_of s)"

definition dev_b :: "('d, 'e, 'n, 'p) boot \<Rightarrow> 'd" where
  "dev_b s = fst (snd (term_of (shell_of s)))"

definition in_shell :: "(('d, 'e, 'n) shell \<Rightarrow> ('d, 'e, 'n) shell option) \<Rightarrow> ('d, 'e, 'n, 'p) boot \<Rightarrow> ('d, 'e, 'n, 'p) boot option" where
  "in_shell f s = map_option (\<lambda>h. s\<lparr>shell_of := h\<rparr>) (f (shell_of s))"

definition in_machine ::
  "(('d, 'e) comp \<Rightarrow> ('d, 'e) comp option) \<Rightarrow> ('d, 'e, 'n, 'p) boot \<Rightarrow> ('d, 'e, 'n, 'p) boot option" where
  "in_machine f = in_shell (in_terminal (\<lambda>(t, m). map_option (Pair t) (f m)))"

definition in_kern :: "(kern \<Rightarrow> kern option) \<Rightarrow> ('d, 'e, 'n, 'p) boot \<Rightarrow> ('d, 'e, 'n, 'p) boot option" where
  "in_kern f = in_machine (\<lambda>(d, y). map_option (\<lambda>k. (d, y\<lparr>kern_of := k\<rparr>)) (f (kern_of y)))"

definition in_dev :: "('d \<Rightarrow> 'd option) \<Rightarrow> ('d, 'e, 'n, 'p) boot \<Rightarrow> ('d, 'e, 'n, 'p) boot option" where
  "in_dev f = in_machine (\<lambda>(d, y). map_option (\<lambda>d. (d, y)) (f d))"

definition io_b :: "('d, 'e, 'n, 'p) boot_env \<Rightarrow> 'd port_io" where
  "io_b e = env_io (shell_at e)"

definition regs_b :: "('d, 'e, 'n, 'p) boot_env \<Rightarrow> 'd cpu_io" where
  "regs_b e = registers (plat (shell_at e))"

section \<open>The phases of \<open>kmain\<close>\<close>

text \<open>Console and memory, down to \<open>ktrace_init\<close>. The log is not modelled, and \<open>tty_init\<close> only logs.\<close>

definition boot_console :: "('d, 'e, 'n, 'p) boot_env \<Rightarrow> ('d, 'e, 'n, 'p) boot \<Rightarrow> ('d, 'e, 'n, 'p) boot option" where
  "boot_console e = in_machine (\<lambda>(d, y).
     Some (serial_init (io_b e) d, y\<lparr>kern_of := cpu_early_init (bsp_at e) (kern_of y), screen_of := vga_clear (screen_of y)\<rparr>))"

definition memory_init :: "u64 \<Rightarrow> u64 \<Rightarrow> kern \<Rightarrow> kern option" where
  "memory_init mb_info k_end k =
     Option.bind (pmm_init (phys_mem (vm k)) mb_info k_end (frames (vm k))) (\<lambda>p.
     let v = vmm_init (cr3 k) ((vm k)\<lparr>frames := p\<rparr>)
     in map_option (\<lambda>(h, p). k\<lparr>vm := v\<lparr>frames := p\<rparr>, desktop := (desktop k)\<lparr>win_heap := h\<rparr>\<rparr>)
          (kmalloc_init (win_heap (desktop k)) (frames v)))"

definition boot_memory :: "('d, 'e, 'n, 'p) boot_env \<Rightarrow> ('d, 'e, 'n, 'p) boot \<Rightarrow> ('d, 'e, 'n, 'p) boot option" where
  "boot_memory e s =
     map_option (\<lambda>s. s\<lparr>stats_of := kstats_init (frames (vm (kern_b s))), trace_of := ktrace_init (trace_of s)\<rparr>)
       (in_kern (memory_init (mb_at e) (kernel_end e)) s)"

text \<open>The processor: the tables of ACPI, the registers of the local APIC, descriptors, timers and system calls.\<close>

definition lapic_phys :: "acpi_vars \<Rightarrow> u64" where
  "lapic_phys a = (if acpi_get_lapic_addr a = 0 then 0xFEE00000 else ucast (acpi_get_lapic_addr a))"

definition boot_tables :: "('d, 'e, 'n, 'p) boot_env \<Rightarrow> ('d, 'e, 'n, 'p) boot \<Rightarrow> ('d, 'e, 'n, 'p) boot option" where
  "boot_tables e s =
     Option.bind (acpi_init (phys_mem (vm (kern_b s))) (acpi_of s)) (\<lambda>a.
     Option.bind (in_kern (\<lambda>k. Some (k\<lparr>vm := vmm_map (cr3 k) (lapic_phys a) (lapic_phys a) (PAGE_WRITABLE OR push_bit 3 1 OR push_bit 4 1) (vm k)\<rparr>))
         (s\<lparr>acpi_of := a\<rparr>)) (\<lambda>s.
       let cpu = gs_cpu (kern_b s);
           (v, d) = idt_init_global (io_b e) (idt_at e) (isr_at e) (idt_of s, dev_b s)
       in in_dev (\<lambda>_. Some d) (s\<lparr>idt_of := v,
            gdts := (gdts s)(cpu := gdt_init (cpu + gdt_off (smp_at e)) (cpu + tss_off (smp_at e)) (gdts s cpu))\<rparr>)))"

definition boot_timers :: "('d, 'e, 'n, 'p) boot_env \<Rightarrow> acpi_vars \<Rightarrow> ('d, 'e) comp \<Rightarrow> ('d, 'e) comp option" where
  "boot_timers e a = (\<lambda>(d, y).
     let (base, d) = lapic_init (regs_b e) (acpi_get_lapic_addr a) d
     in Option.bind (pit_init (io_b e) 100 d) (\<lambda>d.
        Option.bind (lapic_timer_init (regs_b e) base 100 d) (\<lambda>d.
        map_option (\<lambda>(p, d). (d, y\<lparr>pit_of := p\<rparr>)) (tsc_calibrate (ticks_now e) (tsc_instr (smp_at e)) (pit_of y, d)))))"

definition boot_tasks :: "('d, 'e, 'n, 'p) boot_env \<Rightarrow> ('d, 'e) comp \<Rightarrow> ('d, 'e) comp option" where
  "boot_tasks e = (\<lambda>(d, y).
     map_option (\<lambda>k. (syscall_init (regs_b e) (entry_at e) d, y\<lparr>kern_of := k\<rparr>))
       (task_init_per_cpu (task_init_global (kern_of y))))"

definition boot_cpu :: "('d, 'e, 'n, 'p) boot_env \<Rightarrow> ('d, 'e, 'n, 'p) boot \<Rightarrow> ('d, 'e, 'n, 'p) boot option" where
  "boot_cpu e s =
     Option.bind (boot_tables e s) (\<lambda>s.
     Option.bind (in_machine (boot_timers e (acpi_of s)) s) (in_machine (boot_tasks e)))"

text \<open>The devices: the PCI bus with the network card, the other processors, the disk and its file systems.\<close>

definition boot_pci :: "('d, 'e, 'n, 'p) boot_env \<Rightarrow> ('d, 'e, 'n, 'p) boot \<Rightarrow> ('d, 'e, 'n, 'p) boot option" where
  "boot_pci e s =
     (let k = kern_b s
      in Option.bind (pci_init (pci_ports e) (nic_mmio (shell_at e)) (cr3 k)
           \<lparr>bus_state.ports = pci_dev s, bus_vm = vm k, bus_heap = win_heap (desktop k), bus_nic = nic_of (shell_of s)\<rparr>) (\<lambda>b.
           in_kern (\<lambda>k. Some (k\<lparr>vm := bus_vm b, desktop := (desktop k)\<lparr>win_heap := bus_heap b\<rparr>\<rparr>))
             (s\<lparr>pci_dev := bus_state.ports b, shell_of := (shell_of s)\<lparr>nic_of := bus_nic b\<rparr>\<rparr>)))"

definition boot_smp :: "('d, 'e, 'n, 'p) boot_env \<Rightarrow> ('d, 'e, 'n, 'p) boot \<Rightarrow> ('d, 'e, 'n, 'p) boot option" where
  "boot_smp e s =
     Option.bind (smp_init (smp_at e) (acpi_of s)
         \<lparr>mach = snd (term_of (shell_of s)), ap_started_count = started_of s, gdt_at = gdts s\<rparr>) (\<lambda>x.
       in_machine (\<lambda>_. Some (mach x)) (s\<lparr>started_of := ap_started_count x, gdts := gdt_at x\<rparr>))"

definition boot_disk :: "('d, 'e, 'n, 'p) boot_env \<Rightarrow> ('d, 'e, 'n, 'p) boot \<Rightarrow> ('d, 'e, 'n, 'p) boot option" where
  "boot_disk e s =
     (let v = files_in (shell_of s); (found, d) = ata_init (ata_ports e) (disk (tar v))
      in map_option (\<lambda>(x, d).
           s\<lparr>ext2_of := x, shell_of := set_files (let v = vfs_init (v\<lparr>tar := (tar v)\<lparr>disk := d\<rparr>\<rparr>) in v\<lparr>tar := tar_init_disk 2048 (tar v)\<rparr>) (shell_of s)\<rparr>)
           (if found = 0 then ext2_init (disk_reader (plat (shell_at e))) (block_junk e) (ext2_of s) d else Some (ext2_of s, d)))"

definition boot_devices :: "('d, 'e, 'n, 'p) boot_env \<Rightarrow> ('d, 'e, 'n, 'p) boot \<Rightarrow> ('d, 'e, 'n, 'p) boot option" where
  "boot_devices e s = Option.bind (boot_pci e s) (\<lambda>s. Option.bind (boot_smp e s) (boot_disk e))"

text \<open>The desktop: every framebuffer tag of the Multiboot block, the input devices, and the window of the shell.\<close>

definition MULTIBOOT_TAG_TYPE_FRAMEBUFFER :: u32 where "MULTIBOOT_TAG_TYPE_FRAMEBUFFER = 8"

definition read_fb_tag :: "memory \<Rightarrow> u64 \<Rightarrow> fb_tag" where
  "read_fb_tag m tag = \<lparr>tag_addr = load64 m (tag + 8), tag_pitch = load32 m (tag + 16), tag_width = load32 m (tag + 20),
     tag_height = load32 m (tag + 24), tag_bpp = m (tag + 28)\<rparr>"

definition init_graphics :: "u32 carray \<Rightarrow> fb_tag \<Rightarrow> kern \<Rightarrow> kern option" where
  "init_graphics junk tag k =
     map_option (\<lambda>(g, v, h). k\<lparr>vm := v, desktop := (desktop k)\<lparr>screen := g, win_heap := h\<rparr>\<rparr>)
       (graphics_init tag (cr3 k) junk (screen (desktop k)) (vm k) (win_heap (desktop k)))"

partial_function (option) fb_tags :: "u32 carray \<Rightarrow> u64 \<Rightarrow> kern \<Rightarrow> kern option" where
  "fb_tags junk tag k =
     (let m = phys_mem (vm k)
      in if load32 m tag = MULTIBOOT_TAG_TYPE_END then Some k
         else Option.bind (if load32 m tag = MULTIBOOT_TAG_TYPE_FRAMEBUFFER then init_graphics junk (read_fb_tag m tag) k else Some k)
                (fb_tags junk (next_tag m tag)))"

text \<open>The result of \<open>kmalloc\<close> for the pixels is not tested.\<close>

definition open_shell_window :: "u8 carray \<Rightarrow> term_state \<Rightarrow> term_state option" where
  "open_shell_window junk = (\<lambda>(t, w).
     Option.bind (window_create 50 50 600 400 0xFF333333 w) (\<lambda>(win, w).
     Option.bind (kmalloc (600 * 375 * 4) (win_heap w)) (\<lambda>(buffer, h).
       let w = upd_win win (\<lambda>v. v\<lparr>win_buffer := buffer\<rparr>) (w\<lparr>win_heap := h\<rparr>);
           t = t\<lparr>pixels := (\<lambda>i. if i < 600 * 375 then 0 else pixels t i)\<rparr>
       in shell_set_window win junk (t, w))))"

definition boot_desktop :: "('d, 'e, 'n, 'p) boot_env \<Rightarrow> ('d, 'e, 'n, 'p) boot \<Rightarrow> ('d, 'e, 'n, 'p) boot option" where
  "boot_desktop e s =
     Option.bind (in_kern (fb_tags (frame_junk e) (mb_at e + 8)) s) (\<lambda>s.
     Option.bind (in_dev (\<lambda>d. Some (keyboard_init (io_b e) (mouse_init (io_b e) d))) s) (\<lambda>s.
     Option.bind (in_kern (\<lambda>k. Some (k\<lparr>desktop := window_init (desktop k)\<rparr>)) s)
       (in_shell (in_terminal (on_terminal (open_shell_window (cell_junk e)))))))"

text \<open>The network and the shell.\<close>

definition boot_net :: "('d, 'e, 'n, 'p) boot_env \<Rightarrow> ('d, 'e, 'n, 'p) boot \<Rightarrow> ('d, 'e, 'n, 'p) boot option" where
  "boot_net e s =
     (let h = shell_of s; n = nic_of h;
          n = tcp_init (dhcp_init (net_init (e1000_get_mac n) NullUdp NullTcp n))
      in Option.bind (shell_init (shell_at e) (h\<lparr>nic_of := n\<rparr>)) (\<lambda>h.
           in_shell (in_net (shell_at e) (\<lambda>n. Some (dhcp_discover (e1000_get_mac n) n))) (s\<lparr>shell_of := h\<rparr>)))"

definition kmain_boot :: "('d, 'e, 'n, 'p) boot_env \<Rightarrow> ('d, 'e, 'n, 'p) boot \<Rightarrow> ('d, 'e, 'n, 'p) boot option" where
  "kmain_boot e s =
     Option.bind (boot_console e s) (\<lambda>s.
     Option.bind (boot_memory e s) (\<lambda>s.
     Option.bind (boot_cpu e s) (\<lambda>s.
     Option.bind (boot_devices e s) (\<lambda>s.
     Option.bind (boot_desktop e s) (boot_net e)))))"


section \<open>The main loop\<close>

text \<open>A character from the line goes to the shell.\<close>

definition on_char :: "('d, 'e, 'n) shell_env \<Rightarrow> u8 \<Rightarrow> 'd \<times> ('d, 'e, 'n) shell \<Rightarrow> ('d \<times> ('d, 'e, 'n) shell) option" where
  "on_char e c = (\<lambda>(d, h).
     let (t, d0, y) = term_of h
     in map_option (\<lambda>h. (fst (snd (term_of h)), h)) (shell_input e c (h\<lparr>term_of := (t, d, y)\<rparr>)))"

definition poll_line :: "('d, 'e, 'n) shell_env \<Rightarrow> ('d, 'e, 'n) shell \<Rightarrow> ('d, 'e, 'n) shell option" where
  "poll_line e h =
     map_option (\<lambda>(d, h). let (t, d0, y) = term_of h in h\<lparr>term_of := (t, d, y)\<rparr>)
       (serial_poll_input (env_io e) (on_char e) (fst (snd (term_of h)), h))"

text \<open>The memory the desktop is drawn from: the array of the terminal stands behind the buffer of its window.\<close>

definition window_memory :: "('d, 'e vfs_state) term_machine \<Rightarrow> memory" where
  "window_memory = (\<lambda>(t, d, y).
     let k = kern_of y; v = wins (desktop k) (shell_window t); n = unat (win_w v * (win_h v - 25) * 4)
     in if has_buffer (t, desktop k) then put_buffer (win_buffer v) (map (pixel_byte (pixels t) 0) [0..<n]) (phys_mem (vm k))
        else phys_mem (vm k))"

definition redraw :: "('d, 'e vfs_state) term_machine \<Rightarrow> ('d, 'e vfs_state) term_machine option" where
  "redraw = (\<lambda>(t, d, y).
     let u = mouse_of y
     in Option.bind (window_update (mouse_get_x u) (mouse_get_y u) (mouse_get_buttons u) (desktop (kern_of y))) (\<lambda>w.
        map_option (\<lambda>w. (t, d, on_kern (\<lambda>k. k\<lparr>desktop := w\<rparr>) y)) (window_draw_all (window_memory (t, d, y)) w)))"

definition main_turn :: "('d, 'e, 'n, 'p) boot_env \<Rightarrow> ('d, 'e, 'n, 'p) boot \<Rightarrow> ('d, 'e, 'n, 'p) boot option" where
  "main_turn e s =
     Option.bind (in_shell (poll_line (shell_at e)) s) (\<lambda>s.
     Option.bind (in_shell (in_net (shell_at e) (e1000_poll (nic_mmio (shell_at e)) (nic_hw e) (nic_window e) (nic_fuel e))) s)
       (in_shell (in_terminal redraw)))"


section \<open>From the Multiboot block to a working heap\<close>

definition usable_frames :: "memory \<Rightarrow> u64 \<Rightarrow> u64 \<Rightarrow> nat set" where
  "usable_frames m mb_info k_end =
     {f. f < MAX_FRAMES \<and> mb_avail m (mb_info + 8) f \<and> unat k_end \<le> f * 4096 \<and> f \<notin> mbi_frames m mb_info}"

lemma free_frame_numbers: "frame_no ` free_frames p = {f. f < MAX_FRAMES \<and> \<not> used p f}" "card (free_frames p) = card {f. f < MAX_FRAMES \<and> \<not> used p f}"
proof -
  have n: "frame_no (of_nat (f * 4096)) = f" "is_frame (of_nat (f * 4096))" if "f < MAX_FRAMES" for f
  proof -
    have "unat (of_nat (f * 4096) :: u64) = f * 4096" using that by (intro unat_of_nat_small) (simp add: MAX_FRAMES_def)
    then show "frame_no (of_nat (f * 4096)) = f" "is_frame (of_nat (f * 4096))"
      using that by (simp_all only: frame_no_def is_frame_def page_aligned_def) simp_all
  qed
  show *: "frame_no ` free_frames p = {f. f < MAX_FRAMES \<and> \<not> used p f}"
  proof (intro set_eqI iffI)
    fix f
    assume "f \<in> {f. f < MAX_FRAMES \<and> \<not> used p f}"
    then show "f \<in> frame_no ` free_frames p" using n [of f] by (intro image_eqI [of _ _ "of_nat (f * 4096)"]) (simp_all add: free_frames_def)
  qed (auto simp: free_frames_def is_frame_def)
  have "inj_on frame_no (free_frames p)" by (auto simp: free_frames_def intro: inj_onI is_frame_inj)
  then show "card (free_frames p) = card {f. f < MAX_FRAMES \<and> \<not> used p f}" using card_image [of frame_no "free_frames p"] * by simp
qed

text \<open>The heap takes the top of the free stack, where the frames with the highest numbers are.\<close>

lemma top_frames_taken:
  assumes st: "sorted_wrt (<) (map frame_no st)" "m \<le> length st" and U: "frame_no ` set st = U"
  shows "\<exists>T\<subseteq>U. card T = m \<and> (\<forall>t\<in>T. \<forall>f\<in>U - T. f < t) \<and> frame_no ` set (take (length st - m) st) = U - T"
proof -
  let ?ns = "map frame_no st" and ?n = "length st - m"
  let ?lo = "take ?n ?ns" and ?hi = "drop ?n ?ns"
  have parts: "\<forall>x\<in>set ?lo. \<forall>y\<in>set ?hi. x < y" "sorted_wrt (<) ?hi"
    using st(1) sorted_wrt_append [of "(<)" ?lo ?hi] by simp_all
  have U': "U = set ?lo \<union> set ?hi" using U by (metis append_take_drop_id set_append list.set_map)
  moreover have "set ?lo \<inter> set ?hi = {}" using parts(1) by fastforce
  ultimately have lo: "U - set ?hi = set ?lo" by blast
  have "card (set ?hi) = m" using parts(2) st(2) by (simp add: distinct_card strict_sorted_iff)
  moreover have "frame_no ` set (take ?n st) = set ?lo" by (simp add: take_map)
  ultimately show ?thesis using U' lo parts(1) by (intro exI [of _ "set ?hi"]) auto
qed

text \<open>
  C39. The start of the memory: with a well-formed Multiboot block and at least 4096 usable frames, page management and heap come up; the
  allocator is in order, and the heap is one free block. The frames that \<open>kmalloc_init\<close> reserves are not those of the heap range
  16 to 32 MiB, as its comment says, but the 4096 usable frames with the highest numbers; free are exactly all other usable ones, those
  under the heap among them when as much memory lies above.
\<close>

theorem boot_memory_correct:
  assumes "mb_tags_ok (phys_mem (vm k)) (mb_info + 8)" "unat k_end + 4095 < 2 ^ 64" "0 < k_end"
    and "unat (mb_info + ucast (load32 (phys_mem (vm k)) mb_info)) + 4095 < 2 ^ 64" "stack_ptr (frames (vm k)) = -1"
    and "4096 \<le> card (usable_frames (phys_mem (vm k)) mb_info k_end)" "U = usable_frames (phys_mem (vm k)) mb_info k_end"
  shows "\<exists>k' T. memory_init mb_info k_end k = Some k' \<and> pmm_inv (frames (vm k')) \<and> heap_ok (win_heap (desktop k')) [(0xFFFFE8, True)] \<and>
    current_pml4 (vm k') = cr3 k \<and> T \<subseteq> U \<and> card T = 4096 \<and> (\<forall>t\<in>T. \<forall>f\<in>U - T. f < t) \<and>
    frame_no ` free_frames (frames (vm k')) = U - T"
proof -
  obtain p where p: "pmm_init (phys_mem (vm k)) mb_info k_end (frames (vm k)) = Some p" "pmm_inv p"
    "\<forall>f<MAX_FRAMES. \<not> used p f \<longleftrightarrow> mb_avail (phys_mem (vm k)) (mb_info + 8) f \<and> unat k_end \<le> f * 4096 \<and> f \<notin> mbi_frames (phys_mem (vm k)) mb_info"
    "sorted_wrt (<) (map frame_no (stack_list p))"
    using pmm_init_state [OF assms(1-5)] by blast
  have "{f. f < MAX_FRAMES \<and> \<not> used p f} = U" using p(3) by (auto simp: usable_frames_def assms(7))
  then have free: "frame_no ` free_frames p = U" "card (free_frames p) = card U" using free_frame_numbers [of p] by simp_all
  let ?st = "stack_list p"
  have st: "free_frames p = set ?st" "distinct ?st" using free_frames_stack [OF p(2)] p(2) by (simp_all add: pmm_inv_def)
  then have len: "4096 \<le> length ?st" using free(2) assms(6,7) by (simp add: distinct_card)
  let ?lo = "take (length ?st - 4096) ?st"
  obtain h q where q: "kmalloc_init (win_heap (desktop k)) p = Some (h, q)" "heap_ok h [(0xFFFFE8, True)]" "pmm_inv q"
    "free_frames q = set ?lo"
    using kmalloc_init_correct [OF p(2), of ?lo "drop (length ?st - 4096) ?st" "win_heap (desktop k)"] len by auto
  obtain T where "T \<subseteq> U" "card T = 4096" "\<forall>t\<in>T. \<forall>f\<in>U - T. f < t" "frame_no ` free_frames q = U - T"
    using top_frames_taken [OF p(4) len, of U] free(1) st(1) q(4) by auto
  moreover let ?k = "k\<lparr>vm := (vmm_init (cr3 k) ((vm k)\<lparr>frames := p\<rparr>))\<lparr>frames := q\<rparr>, desktop := (desktop k)\<lparr>win_heap := h\<rparr>\<rparr>"
  have "memory_init mb_info k_end k = Some ?k" using p(1) q(1) by (simp add: memory_init_def vmm_init_def)
  ultimately show ?thesis using q(2,3) by (intro exI [of _ ?k] exI [of _ T]) (simp add: vmm_init_def)
qed

text \<open>A machine with memory from 16 MiB to 48 MiB, and its Multiboot block at 0x9000.\<close>

definition large_mbi :: memory where
  "large_mbi a = (if a = 0x9000 then 56 else if a = 0x9008 then 6 else if a = 0x900C then 40
     else if a = 0x9010 then 24 else if a = 0x901B then 1 else if a = 0x9023 then 2 else if a = 0x9028 then 1 else 0)"

lemma large_mbi_loads:
  "load32 large_mbi 0x9000 = 56" "load32 large_mbi 0x9008 = 6" "load32 large_mbi 0x900C = 40"
  "load32 large_mbi 0x9010 = 24" "load32 large_mbi 0x9028 = 1" "load32 large_mbi 0x9030 = 0"
  "load64 large_mbi 0x9018 = 0x1000000" "load64 large_mbi 0x9020 = 0x2000000"
  by (simp_all add: load64_def load32_def load16_def large_mbi_def)

lemma large_mbi_ok: "mb_tags_ok large_mbi 0x9008"
proof -
  have entries: "mb_entries_ok large_mbi 0x9030 24 0x9018"
    by (rule ok_entry) (auto simp: large_mbi_loads intro: ok_done)
  have rest: "mb_tags_ok large_mbi 0x9030"
    by (rule ok_end) (simp add: large_mbi_loads MULTIBOOT_TAG_TYPE_END_def)
  show ?thesis
    by (rule ok_tag) (simp_all add: large_mbi_loads next_tag_def MULTIBOOT_TAG_TYPE_END_def entries rest)
qed

lemma large_mbi_usable: "{4096..<12288} \<subseteq> usable_frames large_mbi 0x9000 0x200000"
proof
  fix f :: nat
  assume f: "f \<in> {4096..<12288}"
  have "f \<in> region_frames 0x1000000 0x3000000"
  proof -
    have "frame_no (of_nat f * 4096) = f"
    proof -
      have "unat (of_nat (f * 4096) :: u64) = f * 4096" using f by (intro unat_of_nat_small) simp
      then show ?thesis by (simp add: frame_no_def)
    qed
    moreover have "of_nat f * 4096 \<in> set (page_list 0x1000000 0x3000000)"
    proof -
      obtain j where j: "f = 4096 + j" using f le_Suc_ex [of 4096 f] by auto
      have "(of_nat f * 4096 :: u64) = 0x1000000 + of_nat j * 4096" unfolding j by simp
      moreover have "j < page_count 0x1000000 0x3000000" using f j by (simp add: page_count_def)
      ultimately show ?thesis unfolding set_page_list by blast
    qed
    ultimately show ?thesis unfolding region_frames_def by (metis image_eqI)
  qed
  then have "mb_entry_avail large_mbi 0x9030 24 0x9018 f" by (intro here) (simp_all add: large_mbi_loads)
  then have "mb_avail large_mbi 0x9008 f" by (intro in_tag) (simp_all add: large_mbi_loads MULTIBOOT_TAG_TYPE_MMAP_def)
  moreover have "mbi_frames large_mbi 0x9000 = {9}"
    by (simp add: mbi_frames_def large_mbi_loads set_page_list page_count_def frame_no_def lessThan_Suc)
  ultimately show "f \<in> usable_frames large_mbi 0x9000 0x200000" using f by (simp add: usable_frames_def MAX_FRAMES_def)
qed

definition booting :: kern where
  "booting = two_tasks\<lparr>vm := (vm two_tasks)\<lparr>frames := boot_state, phys_mem := large_mbi\<rparr>\<rparr>"

text \<open>On that machine the frames under the heap itself, 4096 to 8191, stay free.\<close>

theorem boot_memory_correct_witness:
  "\<exists>k'. memory_init 0x9000 0x200000 booting = Some k' \<and> pmm_inv (frames (vm k')) \<and> heap_ok (win_heap (desktop k')) [(0xFFFFE8, True)] \<and>
    {4096..<8192} \<subseteq> frame_no ` free_frames (frames (vm k'))"
proof -
  let ?U = "usable_frames large_mbi 0x9000 0x200000"
  have fin: "finite ?U" by (rule finite_subset [of _ "{..<MAX_FRAMES}"]) (auto simp: usable_frames_def)
  then have large: "4096 \<le> card ?U" using card_mono [OF _ large_mbi_usable] by simp
  have mem: "phys_mem (vm booting) = large_mbi" "stack_ptr (frames (vm booting)) = -1" by (simp_all add: booting_def boot_state_def)
  have room: "unat (0x200000 :: u64) + 4095 < 2 ^ 64" "0 < (0x200000 :: u64)" "mb_tags_ok large_mbi (0x9000 + 8)"
    "unat (0x9000 + ucast (load32 large_mbi 0x9000) :: u64) + 4095 < 2 ^ 64" using large_mbi_ok by (simp_all add: large_mbi_loads)
  obtain k' T where k': "memory_init 0x9000 0x200000 booting = Some k'" "pmm_inv (frames (vm k'))"
    "heap_ok (win_heap (desktop k')) [(0xFFFFE8, True)]"
    and T: "T \<subseteq> ?U" "card T = 4096" "\<forall>t\<in>T. \<forall>f\<in>?U - T. f < t" and free: "frame_no ` free_frames (frames (vm k')) = ?U - T"
    using boot_memory_correct [of booting "0x9000" "0x200000" ?U, unfolded mem(1), OF room(3,1,2,4) mem(2) large refl]
    by (elim exE conjE) (rule that)
  have "f \<notin> T" if f: "f \<in> {4096..<8192}" for f
  proof
    assume t: "f \<in> T"
    have "{f..<12288} \<subseteq> T"
    proof
      fix g
      assume g: "g \<in> {f..<12288}"
      then have "g \<in> {4096..<12288}" using f by simp
      then have "g \<in> ?U" by (rule subsetD [OF large_mbi_usable])
      then show "g \<in> T" using bspec [OF T(3) t] g by (meson DiffI atLeastLessThan_iff leD)
    qed
    then have "card {f..<12288} \<le> card T" by (rule card_mono [OF finite_subset [OF T(1) fin]])
    moreover have "f < 8192" using f by simp
    ultimately show False using T(2) by simp
  qed
  moreover have "{4096..<8192} \<subseteq> ?U" by (rule subset_trans [OF _ large_mbi_usable]) simp
  ultimately have "{4096..<8192} \<subseteq> ?U - T" by blast
  then show ?thesis using k' unfolding free [symmetric] by blast
qed


section \<open>The terminal after the start\<close>

text \<open>A heap with a large free block: an allocation succeeds and leaves a block that is smaller by the request and its header.\<close>

lemma first_fit_room:
  "(sz, True) \<in> set bs \<Longrightarrow> n + 32 \<le> sz \<Longrightarrow> \<exists>off m bs'. first_fit n bs = Some (off, m, bs') \<and> (\<exists>r\<ge>sz - n - 24. (r, True) \<in> set bs')"
proof (induction bs)
  case (Cons b bs)
  obtain k f where b: "b = (k, f)" by (cases b)
  show ?case
  proof (cases "f \<and> n \<le> k")
    case True
    show ?thesis
    proof (cases "(sz, True) = b")
      case True
      then show ?thesis using b Cons.prems(2) by (auto intro!: exI [of _ "sz - n - 24"])
    next
      case False
      then have "(sz, True) \<in> set bs" using Cons.prems(1) by auto
      then show ?thesis using b True by (auto intro!: exI [of _ sz])
    qed
  next
    case False
    then have "(sz, True) \<in> set bs" using Cons.prems b by auto
    from Cons.IH [OF this Cons.prems(2)] show ?thesis using False b by fastforce
  qed
qed simp

definition heap_room :: "nat \<Rightarrow> kmalloc_state \<Rightarrow> bool" where
  "heap_room n h \<longleftrightarrow> (\<exists>bs sz. heap_ok h bs \<and> (sz, True) \<in> set bs \<and> n \<le> sz)"

lemma heap_room_mono: "heap_room n h \<Longrightarrow> k \<le> n \<Longrightarrow> heap_room k h"
  unfolding heap_room_def by (meson order_trans)

lemma kmalloc_room:
  assumes "heap_room (unat n + 40 + j) h" "unat n + 40 < 2 ^ 64"
  shows "\<exists>p h'. kmalloc n h = Some (p, h') \<and> p \<noteq> 0 \<and> heap_room j h'"
proof -
  obtain bs sz where bs: "heap_ok h bs" "(sz, True) \<in> set bs" "unat n + 40 + j \<le> sz" using assms(1) by (auto simp: heap_room_def)
  have r: "unat (round_up8 n) \<le> unat n + 7" using assms(2) by (simp add: round_up8_unat)
  obtain off m bs' rem where ff: "first_fit (unat (round_up8 n)) bs = Some (off, m, bs')" "(rem, True) \<in> set bs'" "sz - unat (round_up8 n) - 24 \<le> rem"
    using first_fit_room [OF bs(2), of "unat (round_up8 n)"] bs(3) r by auto
  show ?thesis
    using bs(1)
  proof (cases rule: kmalloc_cases [of h bs n])
    case (null s')
    then show ?thesis using bs(2,3) r by fastforce
  next
    case (block p k s' bs2)
    then have "heap_room j s'" using ff bs(3) r by (auto simp: heap_room_def intro!: exI [of _ bs'] exI [of _ rem])
    then show ?thesis using block(1,2) by blast
  qed
qed


lemma open_shell_window_shows:
  assumes "heap_room 1000000 (win_heap w)" "term_cells t = 0"
  shows "\<exists>s'. open_shell_window junk (t, w) = Some s' \<and> term_shows s' [[]] \<and> unat (term_cols (fst s')) = 75 \<and> unat (term_rows (fst s')) = 46"
proof -
  obtain win h1 where h1: "kmalloc WINDOW_SIZE (win_heap w) = Some (win, h1)" "win \<noteq> 0" "heap_room 999000 h1"
    using kmalloc_room [of WINDOW_SIZE 999000 "win_heap w"] heap_room_mono [OF assms(1), of 999368] by (auto simp: WINDOW_SIZE_def)
  obtain w1 where w1: "window_create 50 50 600 400 0xFF333333 w = Some (win, w1)" "win_heap w1 = h1"
      "win_w (wins w1 win) = 600" "win_h (wins w1 win) = 400"
    using h1(1) by (simp add: window_create_def Let_def upd_win_def)
  obtain buffer h2 where h2: "kmalloc (600 * 375 * 4) h1 = Some (buffer, h2)" "buffer \<noteq> 0" "heap_room 90000 h2"
    using kmalloc_room [of "600 * 375 * 4" 90000 h1] heap_room_mono [OF h1(3), of 990040] by auto
  define w2 where "w2 = upd_win win (\<lambda>v. v\<lparr>win_buffer := buffer\<rparr>) (w1\<lparr>win_heap := h2\<rparr>)"
  have v: "win_w (wins w2 win) = 600" "win_h (wins w2 win) = 400" "win_buffer (wins w2 win) = buffer" "win_heap w2 = h2"
    by (simp_all add: w2_def upd_win_def w1(3,4))
  obtain p h3 where h3: "kmalloc 3450 h2 = Some (p, h3)" "p \<noteq> 0"
    using kmalloc_room [of 3450 80000 h2] heap_room_mono [OF h2(3), of 83490] by auto
  define t1 where "t1 = t\<lparr>pixels := (\<lambda>i. if i < 600 * 375 then 0 else pixels t i)\<rparr>"
  have "open_shell_window junk (t, w) = shell_set_window win junk (t1, w2)"
    using w1(1,2) h2(1) by (simp add: open_shell_window_def Let_def t1_def w2_def)
  moreover have "term_cells t1 = 0" using assms(2) by (simp add: t1_def)
  moreover have "kmalloc (ucast ((win_h (wins w2 win) - 25) div 8 * (win_w (wins w2 win) div 8))) (win_heap w2) = Some (p, h3)"
    using h3(1) by (simp add: v)
  ultimately show ?thesis
    using shell_set_window_correct [of win w2 t1 p h3 junk] h1(2) h2(2) h3(2) by (simp add: v)
qed

text \<open>The banner of the shell on a terminal that has just been opened.\<close>

definition banner :: "u8 list" where
  "banner = [10] @ map of_char ''Zoho OS Interactive Shell'' @ [10] @ map of_char ''zoho> ''"

text \<open>
  C40. The terminal of the shell: on an intact heap with room, opening its window gives a terminal of 75 by 46 cells over a
  buffer of 600 by 375 pixels, and the shell then shows its banner and prompt there, on the text screen and on the serial line.
\<close>

theorem boot_terminal_correct:
  assumes "term_of h = (t, d, y)" "heap_room 1000000 (win_heap (desktop (kern_of y)))" "term_cells t = 0"
    and "shown_lines (screen_of y) (layout pre)" "line_shows base d []" "env_io e = uart_io lag"
  shows "\<exists>h'. Option.bind (in_terminal (on_terminal (open_shell_window junk)) h) (shell_init e) = Some h' \<and> says 75 46 pre base h' banner"
proof -
  obtain t1 w1 where tw: "open_shell_window junk (t, desktop (kern_of y)) = Some (t1, w1)" "term_shows (t1, w1) [[]]"
      "unat (term_cols t1) = 75" "unat (term_rows t1) = 46"
  proof -
    obtain s' where "open_shell_window junk (t, desktop (kern_of y)) = Some s'" "term_shows s' [[]]" "unat (term_cols (fst s')) = 75"
        "unat (term_rows (fst s')) = 46" using open_shell_window_shows [OF assms(2,3)] by blast
    then show ?thesis by (cases s') (auto intro: that)
  qed
  let ?m = "(t1, d, on_kern (\<lambda>k. k\<lparr>desktop := w1\<rparr>) y)"
  have opened: "in_terminal (on_terminal (open_shell_window junk)) h = Some (h\<lparr>term_of := ?m\<rparr>)"
    by (simp add: in_terminal_def on_terminal_def assms(1) tw(1))
  have "says 75 46 pre base (h\<lparr>term_of := ?m\<rparr>) []"
    using tw(2-4) assms(4,5) by (simp add: shell_shows_def on_kern_def term_layout_def echoed_def)
  from say_shows [OF this assms(6), of "[Text (CHR 0x0A # ''Zoho OS Interactive Shell'' @ [CHR 0x0A]), Text ''zoho> '']"]
  obtain m where "shell_init e (h\<lparr>term_of := ?m\<rparr>) = Some (h\<lparr>term_of := m\<rparr>)" "shell_shows 75 46 pre base m banner"
    by (auto simp: shell_init_def items_bytes_def banner_def of_char_def)
  then show ?thesis using opened by (intro exI [of _ "h\<lparr>term_of := m\<rparr>"]) simp
qed

text \<open>A shell without a window, on a heap that has not been used.\<close>

definition fresh_shell :: "(uart, drive, unit) shell" where
  "fresh_shell = (let (t, d, y) = term_of tiny_shell
     in tiny_shell\<lparr>term_of := (t\<lparr>term_cells := 0\<rparr>, d, on_kern (\<lambda>k. k\<lparr>desktop := desk\<rparr>) y)\<rparr>)"

theorem boot_terminal_correct_witness:
  "\<exists>h'. Option.bind (in_terminal (on_terminal (open_shell_window (\<lambda>_. 0))) fresh_shell) (shell_init tiny_env) = Some h' \<and>
     says 75 46 [] [] h' banner"
proof -
  obtain t d y where m: "term_of tiny_shell = (t, d, y)" by (cases "term_of tiny_shell")
  have "heap_room 1000000 (win_heap desk)" using fresh_heap_ok by (auto simp: heap_room_def desk_def)
  then show ?thesis
    using boot_terminal_correct [of fresh_shell "t\<lparr>term_cells := 0\<rparr>" d "on_kern (\<lambda>k. k\<lparr>desktop := desk\<rparr>) y" "[]" "[]" tiny_env 3 "\<lambda>_. 0"]
      tiny_shell_ready(1,3) by (simp add: fresh_shell_def m on_kern_def shell_shows_def echoed_def)
qed

end
