(* ===== verification/Spec2Isabelle.thy ===== *)
theory Spec2Isabelle
  imports Lock Pmm Kmalloc Vmm CString Printf Ata Vfs Links Graphics Window Elf Task Spawn Net Tcp Dhcp Pci E1000 Fault Console Input Apic Idt Syscall Ext2 Terminal Shell Stats Smp Dashboard Apps Boot
begin

text \<open>
  A model of the kernel of this repository: the C code under src/src/kernel and src/src/apps/shell with its headers under
  src/include/kernel, and what makes its parts correct. File names below are relative to src/src. Integers are words of
  their C width, pointers are 64-bit words, a null pointer is 0 or, for the pointer to an array, None.

  \<^bold>\<open>The program and its theories.\<close> An x86-64 kernel for several processors. It boots from Multiboot2, keeps physical frames,
  page tables and a heap, schedules tasks on a run queue per processor, reads a tar archive or an ext2 file system from an ATA disk,
  drives a network card with a small TCP/IP stack, composes windows in a framebuffer, and has a shell in one of them.

  \<^item> \<open>Prelude\<close>: C types, word arithmetic, the loop over pages. \<open>Memory\<close>: bytes of physical memory and 64-bit cells
    (locale \<open>qword_memory\<close>). \<open>Links\<close>: linked lists through next pointers.
  \<^item> \<open>Lock\<close>: kernel/lock.c. Spinlocks as atomic micro-steps of any number of processors, and the registry of statistics.
  \<^item> \<open>Pmm\<close>: kernel/pmm.c. Bitmap, free stack and reference counts of the frames (locale \<open>frame_allocator\<close>).
  \<^item> \<open>Kmalloc\<close>: kernel/kmalloc.c. The header list of the heap, refined to a list of blocks (locale \<open>heap_allocator\<close>).
  \<^item> \<open>Vmm\<close>: kernel/vmm.c. Page tables in the frames of \<open>Pmm\<close>, against the walk of the hardware, \<open>translate\<close>.
    \<open>Fault\<close>: the copy on write of \<open>handle_page_fault\<close> in kernel/idt.c.
  \<^item> \<open>CString\<close>: kernel/string.c. \<open>Printf\<close>: kernel/printf.c.
  \<^item> \<open>Ata\<close>: kernel/ata.c on a parameter for the ports (locale \<open>block_device\<close>). \<open>Vfs\<close>: kernel/tar.c and kernel/vfs.c.
    \<open>Ext2\<close>: kernel/ext2.c.
  \<^item> \<open>Graphics\<close>: kernel/graphics.c. \<open>Window\<close>: kernel/window.c (locale \<open>bounded_fifo\<close> for the events of a window).
  \<^item> \<open>Elf\<close>: kernel/elf.c. \<open>Task\<close>: the scheduler of kernel/task.c and kernel/cpu.c. \<open>Spawn\<close>: the rest of kernel/task.c, the
    creation of tasks.
  \<^item> \<open>Net\<close>: kernel/net.c. \<open>Tcp\<close>: kernel/tcp.c. \<open>Dhcp\<close>: kernel/dhcp.c. \<open>Pci\<close> and \<open>E1000\<close>: kernel/pci.c and kernel/e1000.c, with the
    stack as one machine, because a handler that waits for an address polls the card again.
  \<^item> \<open>Console\<close>: kernel/vga.c, serial.c, tty.c and klog.c (locales \<open>printer\<close> and \<open>tee\<close>). \<open>Input\<close>: kernel/pit.c, keyboard.c and
    mouse.c. \<open>Apic\<close>: kernel/apic.c and acpi.c.
  \<^item> \<open>Idt\<close>: kernel/idt.c and gdt.c, the dispatch of exceptions and interrupts to the parts above. \<open>Syscall\<close>: kernel/syscall.c.
  \<^item> \<open>Terminal\<close> and \<open>Shell\<close>: kernel/shell.c. The terminal is one more interpretation of \<open>printer\<close>; the commands work on the whole
    machine.
  \<^item> \<open>Stats\<close>: kernel/kstats.c and ktrace.c. \<open>Smp\<close>: kernel/smp.c (locale \<open>bring_up\<close>). \<open>Dashboard\<close>: kernel/dashboard.c. \<open>Apps\<close>:
    kernel/gui_app.c and apps/shell/main.c. \<open>Boot\<close>: kernel/main.c, the start of everything on one state and the main loop.

  \<^bold>\<open>State.\<close> The static variables of a file are a record. The records nest the way the files call each other: frames in page
  tables, page tables and windows (with the heap) in the state of the kernel, \<open>kern\<close>, that the scheduler works on; the kernel,
  the files, the screen and the timer in the machine of \<open>Idt\<close>; that machine with the network and the terminal in the state of the
  shell. A function of the code is a function of the state; one critical section of a lock is one such function, and what locks
  themselves guarantee is proved of the micro-steps of \<open>Lock\<close>. Where other processors or the hardware act in between (start-up, ports,
  tick counters), they are a parameter that is called before each read.

  \<^bold>\<open>What the lemmas show.\<close>
  \<^item> Invariants kept by every operation: \<open>pmm_inv\<close>, \<open>heap_ok\<close>, \<open>vm_wf\<close>, \<open>win_list_ok\<close>, \<open>sched_ok\<close>,
    \<open>spin_inv\<close>, \<open>mouse_ok\<close>, and their lift to any sequence of calls (C1, C3, C4, C11, C20, C31).
  \<^item> Refinement of an abstract machine: frames to a set of free frames, the heap to a list of blocks, page tables to a
    translation, run queues to lists, TCP connections to a protocol machine, the screens to the last lines of a text
    (C2, C5 to C10, C19, C25, C35).
  \<^item> Function and safety of operations on every branch: files, windows, loading, creation of tasks, frames on the wire with
    their checksums, log lines, system calls, faults, command lines (C12 to C18, C23, C24, C26, C27, C30, C32 to C34, C36, C37).
  \<^item> Progress: a ready task runs after as many scheduler runs as it has tasks before it (C22), the poll returns (C29), the start of the
    other processors ends whatever they do (C38).
  \<^item> The start: the memory and the terminal of the shell as \<open>kmain\<close> leaves them (C39, C40).
  \<^item> Behaviour that is a fault of the code is stated as it is (C21, C28 and lemmas such as \<open>Vfs.vfs_write_wraps\<close>,
    \<open>Pmm.pmm_init_frees_mbi_tail\<close>, \<open>Ext2.zero_rec_len_never_returns\<close>, \<open>Input.keypad_off_by_two\<close>).

  \<^bold>\<open>Loops, fuel and bounds.\<close> A loop the data bounds is structural recursion or a fold. A loop that the data need not bound
  (strings, linked lists, tags, directories, waits for hardware) is a \<open>partial_function\<close> in the option monad, so None means that
  it does not return; that it returns is part of each theorem. In some components None also stands for an access outside of an object, as
  their opening text says; \<open>Apic.add_cpu\<close> is None for a store behind the 64 identifiers. \<open>E1000.e1000_poll\<close> has fuel for its
  nesting and its loop: when no poll runs inside a wait for an address and the card completes each frame, one unit more than there are pending frames is
  enough, at most 129 for the 128 descriptors of the ring (C29), and a poll that returns None for every fuel does not return (C28).
  Its second number is the polls that fit into one wait for a hardware address. \<open>Apps.gui_frames\<close>
  counts turns of the demo, which leaves after 2000. The main loop of the kernel and the loop of the dashboard have no end; one turn is modelled.

  \<^bold>\<open>Not modelled.\<close> Log output of the components (it only prints; \<open>Console\<close> models the log itself). Interrupts between
  two steps of a sequential function, except where locks, the scheduler and the poll are concerned. A scheduler run is one step:
  the code locks only single queue operations, and two runs that overlap in time are not covered. A frame that is sent reaches the card,
  with the unlimited wait of kernel/e1000.c, when the handler, the poll or the command that sends it returns (\<open>E1000.transmit\<close>), and the
  buffer of a frame is taken to be granted by the heap. The assembly: mode switches,
  stubs, trampoline and table loads; the frames and addresses the C code relies on are written out where they are used. The
  accesses to the model specific registers. kernel/xhci.c, which only logs. kernel/core/elf.c, which the build leaves out and whose headers are
  not in the repository. The Rust package manager, the Python chatbot and the documentation, which are not part of the C code.
\<close>

end
